(* ===== verification/Prelude.thy ===== *)
theory Prelude
  imports "HOL-Library.Word" "HOL-Library.Sublist"
begin

text \<open>
  Shared vocabulary of the development: the machine integers of the C code as words, byte strings,
  little- and big-endian encodings with their round trips, and the generic lemmas on words, lists
  and sorted arrays that the components use.  The collection \<open>word_order\<close> holds the facts that
  turn word comparisons around a subtraction or an increment into plain comparisons.
\<close>

unbundle bit_operations_syntax

named_theorems word_order \<open>word comparisons across plus one and minus one\<close>

section \<open>Machine integers\<close>

type_synonym u8 = "8 word"
type_synonym u16 = "16 word"
type_synonym u32 = "32 word"
type_synonym u64 = "64 word"
type_synonym u128 = "128 word"
type_synonym u256 = "256 word"
type_synonym bytes = "8 word list"

lemma word_le_minus_one_iff [word_order]:
  fixes x y :: "'a::len word"
  assumes "0 < y"
  shows "x \<le> y - 1 \<longleftrightarrow> x < y"
proof -
  have "unat (y - 1) = unat y - 1"
    using assms by (metis unat_minus_one word_gt_0)
  moreover have "0 < unat y"
    using assms by (simp add: word_less_nat_alt)
  ultimately show ?thesis
    by (simp add: word_le_nat_alt word_less_nat_alt) linarith
qed

lemma word_minus_one_less_iff [word_order]:
  fixes x y :: "'a::len word"
  assumes "0 < y"
  shows "y - 1 < x \<longleftrightarrow> y \<le> x"
  using word_le_minus_one_iff [OF assms, of x] by (metis not_less)

lemma unat_plus_one:
  fixes x :: "'a::len word"
  assumes "x < y"
  shows "unat (x + 1) = Suc (unat x)"
proof -
  have "unat x < unat y"
    using assms by (simp add: word_less_nat_alt)
  then have "Suc (unat x) < 2 ^ LENGTH('a)"
    using unsigned_less [where ?'a = nat, of y] by linarith
  then show ?thesis
    by (simp add: unat_word_ariths)
qed

lemma unat_plus_small:
  fixes a b :: "'a::len word"
  shows "unat a + unat b < 2 ^ LENGTH('a) \<Longrightarrow> unat (a + b) = unat a + unat b"
  by (simp add: unat_add_lem [THEN iffD1])

lemma unat_drop_bit_div: "unat (drop_bit n w) = unat w div 2 ^ n" for w :: "'a::len word"
  by (simp add: unat_drop_bit_eq drop_bit_nat_def)

lemma unat_and_mask: "unat (w AND mask n) = unat w mod 2 ^ n" for w :: "'a::len word"
  by (metis take_bit_eq_mask unsigned_take_bit_eq take_bit_nat_def)

lemma word_plus_one_le_iff [word_order]:
  fixes x y z :: "'a::len word"
  assumes "x < z"
  shows "x + 1 \<le> y \<longleftrightarrow> x < y"
  using unat_plus_one [OF assms] by (simp add: word_le_nat_alt word_less_nat_alt Suc_le_eq)

lemma word_less_plus_one_iff [word_order]:
  fixes x y z :: "'a::len word"
  assumes "x < z"
  shows "y < x + 1 \<longleftrightarrow> y \<le> x"
  using unat_plus_one [OF assms] by (simp add: word_le_nat_alt word_less_nat_alt less_Suc_eq_le)

section \<open>Little-endian and big-endian byte strings\<close>

text \<open>
  \<open>put_le k w\<close> writes the low \<open>k\<close> bytes of \<open>w\<close>, least significant first (byte \<open>i\<close> is
  \<open>(w >> 8 i) & 0xff\<close>), and \<open>get_le\<close> reads a byte string back by shifting and or-ing, as
  \<open>UIntNSetLE\<close> and \<open>UIntNGetLE\<close> of \<open>BRInt.h\<close> do.
\<close>

definition put_le :: "nat \<Rightarrow> 'a::len word \<Rightarrow> bytes" where
  "put_le k w = map (\<lambda>i. ucast (drop_bit (8 * i) w)) [0..<k]"

fun get_le :: "bytes \<Rightarrow> 'a::len word" where
  "get_le [] = 0"
| "get_le (b # bs) = ucast b OR push_bit 8 (get_le bs)"

lemma length_put_le [simp]: "length (put_le k w) = k"
  by (simp add: put_le_def)

lemma bit_get_le:
  "bit (get_le bs :: 'a::len word) n \<longleftrightarrow>
     n < LENGTH('a) \<and> n div 8 < length bs \<and> bit (bs ! (n div 8)) (n mod 8)"
proof (induction bs arbitrary: n)
  case Nil
  show ?case by simp
next
  case (Cons b bs)
  show ?case
  proof (cases "n < 8")
    case True
    then show ?thesis by (auto simp: bit_simps)
  next
    case False
    then have "n div 8 = Suc ((n - 8) div 8)" and "n mod 8 = (n - 8) mod 8"
      by (simp_all add: le_div_geq le_mod_geq)
    moreover have "\<not> bit b n"
      using False bit_imp_le_length [of b n] by auto
    ultimately show ?thesis
      using False by (auto simp: bit_simps Cons.IH)
  qed
qed

lemma bit_put_le:
  "i < k \<Longrightarrow> bit (put_le k w ! i) j \<longleftrightarrow> j < 8 \<and> bit w (8 * i + j)"
  by (simp add: put_le_def bit_simps)

lemma get_put_le:
  assumes "LENGTH('a) \<le> 8 * k"
  shows "get_le (put_le k (w :: 'a::len word)) = w"
proof (rule bit_word_eqI)
  fix n assume "n < LENGTH('a)"
  then show "bit (get_le (put_le k w) :: 'a word) n = bit w n"
    using assms by (simp add: bit_get_le bit_put_le less_mult_imp_div_less mult.commute)
qed

lemma put_get_le:
  assumes "8 * length bs \<le> LENGTH('a)"
  shows "put_le (length bs) (get_le bs :: 'a::len word) = bs"
proof (rule nth_equalityI)
  fix i assume "i < length (put_le (length bs) (get_le bs :: 'a word))"
  then have i: "i < length bs" by simp
  show "put_le (length bs) (get_le bs :: 'a word) ! i = bs ! i"
  proof (rule bit_word_eqI)
    fix j assume "j < LENGTH(8)"
    then show "bit (put_le (length bs) (get_le bs :: 'a word) ! i) j = bit (bs ! i) j"
      using i assms by (auto simp: bit_put_le bit_get_le)
  qed
qed simp

definition put_be :: "nat \<Rightarrow> 'a::len word \<Rightarrow> bytes" where
  "put_be k w = rev (put_le k w)"

definition get_be :: "bytes \<Rightarrow> 'a::len word" where
  "get_be bs = get_le (rev bs)"

lemma length_put_be [simp]: "length (put_be k w) = k"
  by (simp add: put_be_def)

lemma get_put_be: "LENGTH('a) \<le> 8 * k \<Longrightarrow> get_be (put_be k (w :: 'a::len word)) = w"
  by (simp add: put_be_def get_be_def get_put_le)

section \<open>Arrays with a count\<close>

text \<open>
  A C array with a separate count is a list whose length is the count.  Opening or closing the
  slot \<open>i\<close> with \<open>memmove\<close> is \<open>insert_at\<close> and \<open>remove_at\<close>.
\<close>

definition insert_at :: "nat \<Rightarrow> 'a \<Rightarrow> 'a list \<Rightarrow> 'a list" where
  "insert_at i x xs = take i xs @ x # drop i xs"

definition remove_at :: "nat \<Rightarrow> 'a list \<Rightarrow> 'a list" where
  "remove_at i xs = take i xs @ drop (Suc i) xs"

lemma length_insert_at [simp]: "length (insert_at i x xs) = Suc (length xs)"
  by (simp add: insert_at_def)

lemma length_remove_at [simp]: "i < length xs \<Longrightarrow> length (remove_at i xs) = length xs - 1"
  by (simp add: remove_at_def)

lemma set_insert_at [simp]: "set (insert_at i x xs) = insert x (set xs)"
  by (metis append_take_drop_id insert_at_def list.simps(15) set_append Un_insert_right)

lemma map_insert_at: "map f (insert_at i x xs) = insert_at i (f x) (map f xs)"
  by (simp add: insert_at_def take_map drop_map)

lemma map_remove_at: "map f (remove_at i xs) = remove_at i (map f xs)"
  by (simp add: remove_at_def take_map drop_map)

section \<open>Strictly sorted arrays\<close>

text \<open>
  \<open>lower_bound xs h\<close> is the first index whose element is at least \<open>h\<close>: the linear search every
  sorted array of the code runs.
\<close>

abbreviation lower_bound :: "'a::linorder list \<Rightarrow> 'a \<Rightarrow> nat" where
  "lower_bound xs h \<equiv> length (takeWhile (\<lambda>x. x < h) xs)"

lemma takeWhile_less_sorted:
  fixes xs :: "'a::linorder list"
  shows "sorted_wrt (<) xs \<Longrightarrow> takeWhile (\<lambda>x. x < h) xs = filter (\<lambda>x. x < h) xs"
  by (induction xs) (fastforce intro!: filter_False [symmetric])+

lemma dropWhile_less_sorted:
  fixes xs :: "'a::linorder list"
  shows "sorted_wrt (<) xs \<Longrightarrow> dropWhile (\<lambda>x. x < h) xs = filter (\<lambda>x. h \<le> x) xs"
  by (induction xs) (fastforce intro!: filter_True [symmetric] simp: not_less)+

lemma take_lower_bound:
  fixes xs :: "'a::linorder list"
  shows "sorted_wrt (<) xs \<Longrightarrow> take (lower_bound xs h) xs = filter (\<lambda>x. x < h) xs"
  by (metis takeWhile_eq_take takeWhile_less_sorted)

lemma drop_lower_bound:
  fixes xs :: "'a::linorder list"
  shows "sorted_wrt (<) xs \<Longrightarrow> drop (lower_bound xs h) xs = filter (\<lambda>x. h \<le> x) xs"
  by (metis dropWhile_eq_drop dropWhile_less_sorted)

lemma sorted_wrt_less_distinct: "sorted_wrt (<) (xs :: 'a::order list) \<Longrightarrow> distinct xs"
  by (induction xs) auto

lemma sorted_wrt_filter: "sorted_wrt R xs \<Longrightarrow> sorted_wrt R (filter P xs)"
  by (induction xs) auto

lemma sorted_wrt_less_hd_le:
  fixes xs :: "'a::linorder list"
  shows "sorted_wrt (<) xs \<Longrightarrow> x \<in> set xs \<Longrightarrow> hd xs \<le> x"
  by (cases xs) auto

lemma lower_bound_hit:
  fixes xs :: "'a::linorder list"
  assumes "sorted_wrt (<) xs"
  shows "lower_bound xs h < length xs \<and> xs ! lower_bound xs h = h \<longleftrightarrow> h \<in> set xs"
proof
  assume "lower_bound xs h < length xs \<and> xs ! lower_bound xs h = h"
  then show "h \<in> set xs" by (metis nth_mem)
next
  assume h: "h \<in> set xs"
  then have mem: "h \<in> set (drop (lower_bound xs h) xs)"
    using assms by (simp add: drop_lower_bound)
  then have len: "lower_bound xs h < length xs"
    by (metis drop_all empty_iff empty_set not_less)
  then have hd: "hd (drop (lower_bound xs h) xs) = xs ! lower_bound xs h"
    by (simp add: hd_drop_conv_nth)
  have "hd (drop (lower_bound xs h) xs) \<le> h"
    using mem assms by (simp add: sorted_wrt_drop sorted_wrt_less_hd_le)
  moreover have "h \<le> hd (drop (lower_bound xs h) xs)"
  proof -
    have "hd (drop (lower_bound xs h) xs) \<in> set (drop (lower_bound xs h) xs)"
      using mem by (metis empty_iff empty_set hd_in_set)
    then show ?thesis
      using assms by (simp add: drop_lower_bound)
  qed
  ultimately show "lower_bound xs h < length xs \<and> xs ! lower_bound xs h = h"
    using len hd by simp
qed

lemma insert_at_lower_bound_sorted:
  fixes xs :: "'a::linorder list"
  assumes "sorted_wrt (<) xs" and "h \<notin> set xs"
  shows "sorted_wrt (<) (insert_at (lower_bound xs h) h xs)"
proof -
  have "sorted_wrt (<) (filter (\<lambda>x. x < h) xs @ h # filter (\<lambda>x. h \<le> x) xs)"
    using assms by (auto simp: sorted_wrt_append sorted_wrt_filter le_less)
  then show ?thesis
    using assms(1) by (simp add: insert_at_def take_lower_bound drop_lower_bound)
qed

lemma remove_at_sorted:
  assumes "sorted_wrt R xs"
  shows "sorted_wrt R (remove_at i xs)"
proof (cases "i < length xs")
  case True
  then have "sorted_wrt R (take i xs @ xs ! i # drop (Suc i) xs)"
    using assms by (simp add: id_take_nth_drop [symmetric])
  then show ?thesis
    by (simp add: remove_at_def sorted_wrt_append)
next
  case False
  then show ?thesis
    using assms by (simp add: remove_at_def)
qed

lemma set_remove_at:
  assumes "distinct xs" and "i < length xs"
  shows "set (remove_at i xs) = set xs - {xs ! i}"
proof -
  have "xs = take i xs @ xs ! i # drop (Suc i) xs"
    using assms(2) by (simp add: id_take_nth_drop)
  then have "set xs = insert (xs ! i) (set (remove_at i xs))"
    and "xs ! i \<notin> set (remove_at i xs)"
    using assms(1) unfolding remove_at_def
    by (metis Un_insert_right list.simps(15) set_append)
       (metis \<open>xs = take i xs @ xs ! i # drop (Suc i) xs\<close> assms(1) distinct_append
         not_distinct_conv_prefix distinct.simps(2) Un_iff set_append disjoint_iff list.set_intros(1))
  then show ?thesis by auto
qed

end
