(* ===== verification/ScanLedger.thy ===== *)
theory ScanLedger
  imports Prelude
begin

text \<open>
  The compact-filter scan ledger of \<open>BRCFScanLedger.h\<close> and \<open>BRCFScanLedger.c\<close>: the record of
  which block heights have had their compact filter requested but not yet evaluated
  (\<open>outstanding\<close>), which exhausted their retries (\<open>gaveUp\<close>), how far the contiguous scan reaches
  (\<open>scannedThrough\<close>), and the watermark below which heights were abandoned (\<open>abandonedBelow\<close>).
  This theory holds the state and the height operations; the filter-byte buffer, the pending
  confirmations and the persisted blob are in \<open>ScanLedgerBuffer\<close> and \<open>ScanLedgerBlob\<close>.

  A C array with its count is a list whose length is the count.  The three index-parallel
  \<open>gaveUp\<close> arrays stay three lists.  Out-parameters are returned as components of the result, and
  \<open>None\<close> stands for out-parameters the code leaves unwritten.
\<close>

section \<open>Constants\<close>

definition CF_LEDGER_NO_DROP :: u32 where "CF_LEDGER_NO_DROP = 0xFFFFFFFF"
definition UINT32_MAX_VAL :: u32 where "UINT32_MAX_VAL = 0xFFFFFFFF"
definition CF_OUTSTANDING_MAX :: nat where "CF_OUTSTANDING_MAX = 4096"
definition CF_PENDING_CONFIRM_MAX :: nat where "CF_PENDING_CONFIRM_MAX = 256"
definition CF_PENDING_TX_MAX :: nat where "CF_PENDING_TX_MAX = 32"
definition CF_GAVEUP_MAX :: nat where "CF_GAVEUP_MAX = CF_OUTSTANDING_MAX"
definition CF_REREQ_HEADERRACE_SECS :: u32 where "CF_REREQ_HEADERRACE_SECS = 10"
definition CF_REREQ_BASE_SECS :: u32 where "CF_REREQ_BASE_SECS = 30"
definition CF_REREQ_BACKOFF_CAP_SECS :: u32 where "CF_REREQ_BACKOFF_CAP_SECS = 120"
definition CF_REREQ_MAX_ATTEMPTS :: u8 where "CF_REREQ_MAX_ATTEMPTS = 5"
definition CF_REREQ_MAX_RANGE :: u32 where "CF_REREQ_MAX_RANGE = 1000"

lemmas cf_constants =
  CF_LEDGER_NO_DROP_def UINT32_MAX_VAL_def CF_OUTSTANDING_MAX_def CF_PENDING_CONFIRM_MAX_def
  CF_PENDING_TX_MAX_def CF_GAVEUP_MAX_def CF_REREQ_HEADERRACE_SECS_def CF_REREQ_BASE_SECS_def
  CF_REREQ_BACKOFF_CAP_SECS_def CF_REREQ_MAX_ATTEMPTS_def CF_REREQ_MAX_RANGE_def

section \<open>State\<close>

text \<open>\<open>BRCFOutstanding\<close>: one requested height that has not been evaluated yet.\<close>

record cf_outstanding =
  cfo_height :: u32
  cfo_peer :: u128
  cfo_port :: u16
  cfo_requestedAt :: u32
  cfo_attempts :: u8
  cfo_headerRace :: u8
  cfo_rearmCycles :: u8
  cfo_offersReachedLivePeer :: u8

text \<open>\<open>BRCFPendingConfirm\<close>: the wallet transactions of a block whose header is not connected yet.\<close>

record cf_pending =
  cfp_blockHash :: u256
  cfp_txHashes :: "u256 list"
  cfp_recordedAt :: u32

text \<open>\<open>BRCFFilterBufEntry\<close>: a raw filter that waits for its header and its filter header.\<close>

record cf_filter_entry =
  cfb_blockHash :: u256
  cfb_bytes :: bytes
  cfb_len :: u64
  cfb_at :: u32
  cfb_firstAt :: u32

record scan_ledger =
  cfl_start :: u32
  cfl_scannedThrough :: u32
  cfl_requestedThrough :: u32
  cfl_abandonedBelow :: u32
  cfl_outstanding :: "cf_outstanding list"
  cfl_pending :: "cf_pending list"
  cfl_gaveUp :: "u32 list"
  cfl_gaveUpRearmCycles :: "u8 list"
  cfl_gaveUpOffersLive :: "u8 list"
  cfl_lastDriveAt :: u32
  cfl_filterBuf :: "cf_filter_entry list"
  cfl_bufferedBytes :: u64
  cfl_filterBufMagic :: u32

abbreviation cfl_heights :: "scan_ledger \<Rightarrow> u32 list" where
  "cfl_heights l \<equiv> map cfo_height (cfl_outstanding l)"

section \<open>The outstanding array and the scan high-water mark\<close>

definition cfLedgerLowerBound :: "scan_ledger \<Rightarrow> u32 \<Rightarrow> nat" where
  "cfLedgerLowerBound l h = length (takeWhile (\<lambda>e. cfo_height e < h) (cfl_outstanding l))"

definition cfLedgerAdvance :: "scan_ledger \<Rightarrow> scan_ledger" where
  "cfLedgerAdvance l =
     (let ceiling = cfl_requestedThrough l;
          firstHole = (case cfl_outstanding l of [] \<Rightarrow> UINT32_MAX_VAL | e # _ \<Rightarrow> cfo_height e);
          firstHole = (case cfl_gaveUp l of [] \<Rightarrow> firstHole
                       | g # _ \<Rightarrow> if g < firstHole then g else firstHole);
          ceiling = (if firstHole \<noteq> UINT32_MAX_VAL then
                       (let cap = (if firstHole > 0 then firstHole - 1 else 0)
                        in if cap < ceiling then cap else ceiling)
                     else ceiling)
      in if cfl_scannedThrough l < ceiling then l\<lparr>cfl_scannedThrough := ceiling\<rparr> else l)"

section \<open>The gave-up array and its two parallel arrays\<close>

text \<open>\<open>_cfLedgerGaveUpShiftUp\<close> opens the slot \<open>i\<close> in all three arrays; its one caller writes the
  three values at once, so the model passes them along.\<close>

definition cfLedgerGaveUpShiftUp ::
  "scan_ledger \<Rightarrow> nat \<Rightarrow> u32 \<Rightarrow> u8 \<Rightarrow> u8 \<Rightarrow> scan_ledger" where
  "cfLedgerGaveUpShiftUp l i h cycles live =
     l\<lparr>cfl_gaveUp := insert_at i h (cfl_gaveUp l),
       cfl_gaveUpRearmCycles := insert_at i cycles (cfl_gaveUpRearmCycles l),
       cfl_gaveUpOffersLive := insert_at i live (cfl_gaveUpOffersLive l)\<rparr>"

definition cfLedgerGaveUpShiftDown :: "scan_ledger \<Rightarrow> nat \<Rightarrow> scan_ledger" where
  "cfLedgerGaveUpShiftDown l i =
     l\<lparr>cfl_gaveUp := remove_at i (cfl_gaveUp l),
       cfl_gaveUpRearmCycles := remove_at i (cfl_gaveUpRearmCycles l),
       cfl_gaveUpOffersLive := remove_at i (cfl_gaveUpOffersLive l)\<rparr>"

definition cfLedgerGaveUpDropPrefix :: "scan_ledger \<Rightarrow> nat \<Rightarrow> scan_ledger" where
  "cfLedgerGaveUpDropPrefix l k =
     l\<lparr>cfl_gaveUp := drop k (cfl_gaveUp l),
       cfl_gaveUpRearmCycles := drop k (cfl_gaveUpRearmCycles l),
       cfl_gaveUpOffersLive := drop k (cfl_gaveUpOffersLive l)\<rparr>"

abbreviation gaveUpLowerBound :: "scan_ledger \<Rightarrow> u32 \<Rightarrow> nat" where
  "gaveUpLowerBound l h \<equiv> length (takeWhile (\<lambda>g. g < h) (cfl_gaveUp l))"

definition cfLedgerAddGaveUp ::
  "scan_ledger \<Rightarrow> u32 \<Rightarrow> u8 \<Rightarrow> u8 \<Rightarrow> bool \<times> scan_ledger" where
  "cfLedgerAddGaveUp l h rearmCycles offersLive =
     (let i = gaveUpLowerBound l h in
      if i < length (cfl_gaveUp l) \<and> cfl_gaveUp l ! i = h then
        (let l = (if rearmCycles > cfl_gaveUpRearmCycles l ! i
                  then l\<lparr>cfl_gaveUpRearmCycles := (cfl_gaveUpRearmCycles l)[i := rearmCycles]\<rparr>
                  else l);
             l = (if offersLive = 0
                  then l\<lparr>cfl_gaveUpOffersLive := (cfl_gaveUpOffersLive l)[i := 0]\<rparr>
                  else l)
         in (True, l))
      else if length (cfl_gaveUp l) \<ge> CF_GAVEUP_MAX then (False, l)
      else (True, cfLedgerGaveUpShiftUp l i h rearmCycles offersLive))"

definition cfLedgerRemoveGaveUp :: "scan_ledger \<Rightarrow> u32 \<Rightarrow> scan_ledger" where
  "cfLedgerRemoveGaveUp l h =
     (let i = gaveUpLowerBound l h in
      if i < length (cfl_gaveUp l) \<and> cfl_gaveUp l ! i = h then cfLedgerGaveUpShiftDown l i else l)"

section \<open>Recording a request\<close>

text \<open>The entry a height gets when it first becomes outstanding.\<close>

definition new_outstanding :: "u32 \<Rightarrow> u128 \<Rightarrow> u16 \<Rightarrow> u32 \<Rightarrow> cf_outstanding" where
  "new_outstanding h peer port now =
     \<lparr>cfo_height = h, cfo_peer = peer, cfo_port = port, cfo_requestedAt = now,
      cfo_attempts = 0, cfo_headerRace = 0, cfo_rearmCycles = 0,
      cfo_offersReachedLivePeer = 1\<rparr>"

definition cfLedgerInsertOutstanding ::
  "scan_ledger \<Rightarrow> u32 \<Rightarrow> u128 \<Rightarrow> u16 \<Rightarrow> u32 \<Rightarrow> u32 \<times> scan_ledger" where
  "cfLedgerInsertOutstanding l h peer port now =
     (let i = cfLedgerLowerBound l h; out = cfl_outstanding l in
      if i < length out \<and> cfo_height (out ! i) = h then
        (CF_LEDGER_NO_DROP,
         l\<lparr>cfl_outstanding := out[i := (out ! i)\<lparr>cfo_peer := peer, cfo_port := port,
                                               cfo_requestedAt := now\<rparr>]\<rparr>)
      else if length out \<ge> CF_OUTSTANDING_MAX then
        (cfo_height (hd out),
         l\<lparr>cfl_outstanding := insert_at (if i > 0 then i - 1 else i)
                                (new_outstanding h peer port now) (tl out)\<rparr>)
      else
        (CF_LEDGER_NO_DROP,
         l\<lparr>cfl_outstanding := insert_at i (new_outstanding h peer port now) out\<rparr>))"

text \<open>
  The loop of \<open>BRCFScanLedgerRecordRequestedDropped\<close> from height \<open>h\<close> up to \<open>stopH\<close>: it counts the
  heights evicted to make room and keeps the lowest and the highest of them.
\<close>

function recordLoop ::
  "u32 \<Rightarrow> u32 \<Rightarrow> u128 \<Rightarrow> u16 \<Rightarrow> u32 \<Rightarrow> nat \<Rightarrow> u32 \<Rightarrow> u32 \<Rightarrow> scan_ledger \<Rightarrow>
     nat \<times> u32 \<times> u32 \<times> scan_ledger" where
  "recordLoop h stopH peer port now n lo hi l =
     (let (d, l) = cfLedgerInsertOutstanding l h peer port now;
          (n, lo, hi) = (if d \<noteq> CF_LEDGER_NO_DROP
                         then (Suc n, if d < lo then d else lo, if d > hi then d else hi)
                         else (n, lo, hi))
      in if h = stopH then (n, lo, hi, l)
         else recordLoop (h + 1) stopH peer port now n lo hi l)"
  by pat_completeness auto
termination
proof (relation "measure (\<lambda>(h, stopH, _). unat (stopH - h))", goal_cases)
  case 1
  show ?case by simp
next
  case (2 h stopH)
  have "stopH - h \<noteq> 0"
    using 2 by simp
  then have "unat (stopH - h - 1) < unat (stopH - h)"
    by (metis diff_less unat_minus_one unat_gt_0 zero_less_one)
  then show ?case
    by (simp add: algebra_simps)
qed

declare recordLoop.simps [simp del]

definition BRCFScanLedgerRecordRequestedDropped ::
  "scan_ledger \<Rightarrow> u32 \<Rightarrow> u32 \<Rightarrow> u128 \<Rightarrow> u16 \<Rightarrow> u32 \<Rightarrow>
     nat \<times> (u32 \<times> u32) option \<times> scan_ledger" where
  "BRCFScanLedgerRecordRequestedDropped l startH stopH peer port now =
     (if stopH < startH then (0, None, l)
      else
        let startH = (if startH < cfl_abandonedBelow l then cfl_abandonedBelow l else startH) in
        if stopH < startH then (0, None, l)
        else
          let (n, lo, hi, l) = recordLoop startH stopH peer port now 0 CF_LEDGER_NO_DROP 0 l;
              l = (if stopH > cfl_requestedThrough l then l\<lparr>cfl_requestedThrough := stopH\<rparr> else l)
          in (n, Some (if n \<noteq> 0 then lo else CF_LEDGER_NO_DROP,
                       if n \<noteq> 0 then hi else CF_LEDGER_NO_DROP), l))"

definition BRCFScanLedgerRecordRequested ::
  "scan_ledger \<Rightarrow> u32 \<Rightarrow> u32 \<Rightarrow> u128 \<Rightarrow> u16 \<Rightarrow> u32 \<Rightarrow> scan_ledger" where
  "BRCFScanLedgerRecordRequested l startH stopH peer port now =
     snd (snd (BRCFScanLedgerRecordRequestedDropped l startH stopH peer port now))"

section \<open>Evaluating a height, header races, lost peers\<close>

definition BRCFScanLedgerMarkEvaluated :: "scan_ledger \<Rightarrow> u32 \<Rightarrow> scan_ledger" where
  "BRCFScanLedgerMarkEvaluated l h =
     (let i = cfLedgerLowerBound l h;
          l = (if i < length (cfl_outstanding l) \<and> cfo_height (cfl_outstanding l ! i) = h
               then l\<lparr>cfl_outstanding := remove_at i (cfl_outstanding l)\<rparr> else l);
          l = cfLedgerRemoveGaveUp l h
      in cfLedgerAdvance l)"

definition set_headerRace :: "scan_ledger \<Rightarrow> nat \<Rightarrow> scan_ledger" where
  "set_headerRace l i =
     l\<lparr>cfl_outstanding := (cfl_outstanding l)[i := (cfl_outstanding l ! i)\<lparr>cfo_headerRace := 1\<rparr>]\<rparr>"

definition BRCFScanLedgerMarkHeaderRace :: "scan_ledger \<Rightarrow> u32 \<Rightarrow> scan_ledger" where
  "BRCFScanLedgerMarkHeaderRace l h =
     (if h < cfl_abandonedBelow l then l
      else
        let i = cfLedgerLowerBound l h in
        if i < length (cfl_outstanding l) \<and> cfo_height (cfl_outstanding l ! i) = h
        then set_headerRace l i
        else
          let l = snd (cfLedgerInsertOutstanding l h 0 0 0);
              i = cfLedgerLowerBound l h;
              l = (if i < length (cfl_outstanding l) \<and> cfo_height (cfl_outstanding l ! i) = h
                   then set_headerRace l i else l)
          in if h > cfl_requestedThrough l then l\<lparr>cfl_requestedThrough := h\<rparr> else l)"

definition BRCFScanLedgerReArmPeer :: "scan_ledger \<Rightarrow> u128 \<Rightarrow> u16 \<Rightarrow> scan_ledger" where
  "BRCFScanLedgerReArmPeer l peer port =
     l\<lparr>cfl_outstanding := map (\<lambda>e. if cfo_port e = port \<and> cfo_peer e = peer
                                  then e\<lparr>cfo_peer := 0, cfo_port := 0,
                                         cfo_offersReachedLivePeer := 0\<rparr>
                                  else e) (cfl_outstanding l)\<rparr>"

section \<open>The re-request schedule and its drivers\<close>

text \<open>The doubling loop of \<open>_cfLedgerRerequestDelay\<close>, with \<open>k\<close> rounds left.\<close>

fun backoffLoop :: "nat \<Rightarrow> u32 \<Rightarrow> u32" where
  "backoffLoop 0 d = d"
| "backoffLoop (Suc k) d =
     (let d = push_bit 1 d
      in if d \<ge> CF_REREQ_BACKOFF_CAP_SECS then CF_REREQ_BACKOFF_CAP_SECS else backoffLoop k d)"

definition cfLedgerRerequestDelay :: "cf_outstanding \<Rightarrow> u32" where
  "cfLedgerRerequestDelay e =
     (if cfo_headerRace e \<noteq> 0 \<and> cfo_attempts e = 0 then CF_REREQ_HEADERRACE_SECS
      else
        let d = backoffLoop (unat (cfo_attempts e)) CF_REREQ_BASE_SECS
        in if d > CF_REREQ_BACKOFF_CAP_SECS then CF_REREQ_BACKOFF_CAP_SECS else d)"

definition cfLedgerMoveToGaveUp :: "scan_ledger \<Rightarrow> nat \<Rightarrow> bool \<times> scan_ledger" where
  "cfLedgerMoveToGaveUp l i =
     (let e = cfl_outstanding l ! i in
      case cfLedgerAddGaveUp l (cfo_height e) (cfo_rearmCycles e) (cfo_offersReachedLivePeer e) of
        (False, l') \<Rightarrow> (False, l')
      | (True, l') \<Rightarrow> (True, l'\<lparr>cfl_outstanding := remove_at i (cfl_outstanding l')\<rparr>))"

definition cfLedgerDue :: "cf_outstanding \<Rightarrow> u32 \<Rightarrow> bool" where
  "cfLedgerDue e now =
     (let elapsed = (if now \<ge> cfo_requestedAt e then now - cfo_requestedAt e else 0)
      in elapsed \<ge> cfLedgerRerequestDelay e)"

lemma cfLedgerAddGaveUp_outstanding [simp]:
  "cfl_outstanding (snd (cfLedgerAddGaveUp l h c v)) = cfl_outstanding l"
  by (simp add: cfLedgerAddGaveUp_def cfLedgerGaveUpShiftUp_def Let_def)

lemma cfLedgerMoveToGaveUp_length:
  assumes "cfLedgerMoveToGaveUp l i = (moved, l')" and "i < length (cfl_outstanding l)"
  shows "length (cfl_outstanding l') =
    (if moved then length (cfl_outstanding l) - 1 else length (cfl_outstanding l))"
proof -
  obtain b l1 where b: "cfLedgerAddGaveUp l (cfo_height (cfl_outstanding l ! i))
      (cfo_rearmCycles (cfl_outstanding l ! i)) (cfo_offersReachedLivePeer (cfl_outstanding l ! i))
      = (b, l1)" by force
  then have "cfl_outstanding l1 = cfl_outstanding l"
    using cfLedgerAddGaveUp_outstanding by (metis snd_conv)
  then show ?thesis
    using assms b by (auto simp: cfLedgerMoveToGaveUp_def Let_def split: bool.splits)
qed

text \<open>The loop of \<open>BRCFScanLedgerRetireCapped\<close>: after a move the next entry sits in slot \<open>i\<close>.\<close>

function retireFrom :: "nat \<Rightarrow> scan_ledger \<Rightarrow> scan_ledger" where
  "retireFrom i l =
     (if i < length (cfl_outstanding l) then
        if cfo_attempts (cfl_outstanding l ! i) \<ge> CF_REREQ_MAX_ATTEMPTS then
          (case cfLedgerMoveToGaveUp l i of
             (moved, l') \<Rightarrow> if moved then retireFrom i l' else retireFrom (Suc i) l')
        else retireFrom (Suc i) l
      else l)"
  by pat_completeness auto
termination
  by (relation "measure (\<lambda>(i, l). length (cfl_outstanding l) - i)")
     (auto dest!: cfLedgerMoveToGaveUp_length [OF sym])

declare retireFrom.simps [simp del]

definition BRCFScanLedgerRetireCapped :: "scan_ledger \<Rightarrow> scan_ledger" where
  "BRCFScanLedgerRetireCapped l = retireFrom 0 l"

text \<open>The offering loop of \<open>BRCFScanLedgerNextRerequest\<close> over the outstanding array.\<close>

fun offerFirstDue ::
  "u32 \<Rightarrow> cf_outstanding list \<Rightarrow> u32 option \<times> cf_outstanding list" where
  "offerFirstDue now [] = (None, [])"
| "offerFirstDue now (e # es) =
     (if \<not> cfo_attempts e \<ge> CF_REREQ_MAX_ATTEMPTS \<and> cfLedgerDue e now then
        (Some (cfo_height e),
         e\<lparr>cfo_attempts := cfo_attempts e + 1, cfo_requestedAt := now\<rparr> # es)
      else
        let (r, es) = offerFirstDue now es in (r, e # es))"

definition BRCFScanLedgerNextRerequest ::
  "scan_ledger \<Rightarrow> u32 \<Rightarrow> u32 option \<times> scan_ledger" where
  "BRCFScanLedgerNextRerequest l now =
     (let l = BRCFScanLedgerRetireCapped l;
          l = l\<lparr>cfl_lastDriveAt := now\<rparr>;
          (r, out) = offerFirstDue now (cfl_outstanding l)
      in (r, l\<lparr>cfl_outstanding := out\<rparr>))"

text \<open>The coalescing loop of \<open>BRCFScanLedgerPeekRerequestRange\<close>: \<open>s\<close> starts the run, \<open>cur\<close> ends it
  so far.\<close>

fun peekRunEnd ::
  "u32 \<Rightarrow> cf_outstanding \<Rightarrow> cf_outstanding \<Rightarrow> cf_outstanding list \<Rightarrow> cf_outstanding" where
  "peekRunEnd now s cur [] = cur"
| "peekRunEnd now s cur (nx # rest) =
     (if cfo_height nx \<noteq> cfo_height cur + 1 then cur
      else if cfo_attempts nx \<ge> CF_REREQ_MAX_ATTEMPTS then cur
      else if \<not> cfLedgerDue nx now then cur
      else if cfo_port nx \<noteq> cfo_port s \<or> cfo_peer nx \<noteq> cfo_peer s then cur
      else if cfo_height nx - cfo_height s + 1 > CF_REREQ_MAX_RANGE then cur
      else peekRunEnd now s nx rest)"

definition BRCFScanLedgerPeekRerequestRange ::
  "scan_ledger \<Rightarrow> u32 \<Rightarrow> u32 \<Rightarrow> (u32 \<times> u32) option" where
  "BRCFScanLedgerPeekRerequestRange l now minHeight =
     (let minHeight = (if minHeight < cfl_abandonedBelow l then cfl_abandonedBelow l
                       else minHeight) in
      case dropWhile (\<lambda>e. cfo_height e < minHeight \<or>
                          \<not> (cfo_attempts e < CF_REREQ_MAX_ATTEMPTS \<and> cfLedgerDue e now))
             (cfl_outstanding l) of
        [] \<Rightarrow> None
      | s # rest \<Rightarrow> Some (cfo_height s, cfo_height (peekRunEnd now s s rest)))"

definition BRCFScanLedgerCommitRerequest ::
  "scan_ledger \<Rightarrow> u32 \<Rightarrow> u32 \<Rightarrow> u128 \<Rightarrow> u16 \<Rightarrow> u32 \<Rightarrow> scan_ledger" where
  "BRCFScanLedgerCommitRerequest l startH stopH peer port now =
     l\<lparr>cfl_outstanding := map (\<lambda>e. if cfo_height e \<ge> startH \<and> cfo_height e \<le> stopH
                                  then e\<lparr>cfo_attempts := cfo_attempts e + 1,
                                         cfo_requestedAt := now, cfo_peer := peer,
                                         cfo_port := port\<rparr>
                                  else e) (cfl_outstanding l)\<rparr>"

section \<open>The abandonment valve's primitives\<close>

definition BRCFScanLedgerLowestGaveUp :: "scan_ledger \<Rightarrow> (u32 \<times> u8 \<times> u8) option" where
  "BRCFScanLedgerLowestGaveUp l =
     (if length (cfl_gaveUp l) = 0 then None
      else Some (cfl_gaveUp l ! 0, cfl_gaveUpRearmCycles l ! 0, cfl_gaveUpOffersLive l ! 0))"

definition cfLedgerGaveUpIndex :: "scan_ledger \<Rightarrow> u32 \<Rightarrow> nat" where
  "cfLedgerGaveUpIndex l h =
     (let i = gaveUpLowerBound l h in
      if i < length (cfl_gaveUp l) \<and> cfl_gaveUp l ! i = h then i else length (cfl_gaveUp l))"

definition cfLedgerOutstandingIsParked :: "cf_outstanding \<Rightarrow> bool" where
  "cfLedgerOutstandingIsParked e \<longleftrightarrow> cfo_attempts e \<ge> CF_REREQ_MAX_ATTEMPTS"

text \<open>The result is the height, whether a driver can still offer it, its re-arm cycles and its latch.\<close>

definition BRCFScanLedgerPinningHole :: "scan_ledger \<Rightarrow> (u32 \<times> bool \<times> u8 \<times> u8) option" where
  "BRCFScanLedgerPinningHole l =
     (let haveOut = length (cfl_outstanding l) > 0; haveGave = length (cfl_gaveUp l) > 0 in
      if \<not> haveOut \<and> \<not> haveGave then None
      else
        let pinIsOutstanding =
              haveOut \<and> (\<not> haveGave \<or> cfo_height (cfl_outstanding l ! 0) \<le> cfl_gaveUp l ! 0)
        in if pinIsOutstanding then
             (let e = cfl_outstanding l ! 0
              in Some (cfo_height e, \<not> cfLedgerOutstandingIsParked e,
                       cfo_rearmCycles e, cfo_offersReachedLivePeer e))
           else Some (cfl_gaveUp l ! 0, False,
                      cfl_gaveUpRearmCycles l ! 0, cfl_gaveUpOffersLive l ! 0))"

text \<open>
  The walk of \<open>BRCFScanLedgerAbandonableRunFrom\<close> over what is left of the two sorted arrays
  (\<open>gs\<close> pairs a parked height with its two bytes); \<open>k\<close> is \<open>maxRun - n\<close>.
\<close>

fun abandonRunLoop ::
  "nat \<Rightarrow> nat \<Rightarrow> u32 \<Rightarrow> u32 \<Rightarrow> cf_outstanding list \<Rightarrow> (u32 \<times> u8 \<times> u8) list \<Rightarrow> u8 \<Rightarrow> nat \<times> u32"
where
  "abandonRunLoop 0 n h hi os gs minCycles = (n, hi)"
| "abandonRunLoop (Suc k) n h hi os gs minCycles =
     (let atOut = (os \<noteq> [] \<and> cfo_height (hd os) = h); atGave = (gs \<noteq> [] \<and> fst (hd gs) = h) in
      if atOut \<and> \<not> cfLedgerOutstandingIsParked (hd os) then (n, hi)
      else if \<not> atOut \<and> \<not> atGave then (n, hi)
      else
        let cycles = (if atOut then cfo_rearmCycles (hd os) else fst (snd (hd gs)));
            offersLive = (if atOut then cfo_offersReachedLivePeer (hd os) else snd (snd (hd gs)));
            os = (if atOut then tl os else os);
            gs = (if atGave then tl gs else gs)
        in if cycles < minCycles \<or> offersLive = 0 then (n, hi)
           else if h = UINT32_MAX_VAL then (Suc n, h)
           else abandonRunLoop k (Suc n) (h + 1) h os gs minCycles)"

abbreviation cfl_parked :: "scan_ledger \<Rightarrow> (u32 \<times> u8 \<times> u8) list" where
  "cfl_parked l \<equiv>
     zip (cfl_gaveUp l) (zip (cfl_gaveUpRearmCycles l) (cfl_gaveUpOffersLive l))"

definition BRCFScanLedgerAbandonableRunFrom ::
  "scan_ledger \<Rightarrow> u32 \<Rightarrow> nat \<Rightarrow> u8 \<Rightarrow> nat \<times> u32 option" where
  "BRCFScanLedgerAbandonableRunFrom l startH maxRun minCycles =
     (let (n, hi) = abandonRunLoop maxRun 0 startH startH
                      (dropWhile (\<lambda>e. cfo_height e < startH) (cfl_outstanding l))
                      (dropWhile (\<lambda>g. fst g < startH) (cfl_parked l)) minCycles
      in (n, if n > 0 then Some hi else None))"

definition BRCFScanLedgerMarkOffersMissedLivePeer ::
  "scan_ledger \<Rightarrow> u32 \<Rightarrow> u32 \<Rightarrow> scan_ledger" where
  "BRCFScanLedgerMarkOffersMissedLivePeer l startH stopH =
     (if stopH < startH then l
      else l\<lparr>cfl_outstanding := map (\<lambda>e. if cfo_height e \<ge> startH \<and> cfo_height e \<le> stopH
                                       then e\<lparr>cfo_offersReachedLivePeer := 0\<rparr>
                                       else e) (cfl_outstanding l)\<rparr>)"

definition saturating_inc :: "u8 \<Rightarrow> u8" where
  "saturating_inc c = (if c < 0xFF then c + 1 else c)"

definition BRCFScanLedgerReArmGaveUp :: "scan_ledger \<Rightarrow> u32 \<Rightarrow> bool \<times> scan_ledger" where
  "BRCFScanLedgerReArmGaveUp l h =
     (if h < cfl_abandonedBelow l then (False, l)
      else
        let g = gaveUpLowerBound l h in
        if g \<ge> length (cfl_gaveUp l) \<or> cfl_gaveUp l ! g \<noteq> h then (False, l)
        else if length (cfl_outstanding l) \<ge> CF_OUTSTANDING_MAX then (False, l)
        else
          let parkedCycles = cfl_gaveUpRearmCycles l ! g;
              parkedLive = cfl_gaveUpOffersLive l ! g;
              cycles = saturating_inc parkedCycles;
              l = cfLedgerGaveUpShiftDown l g;
              l = snd (cfLedgerInsertOutstanding l h 0 0 0);
              i = cfLedgerLowerBound l h
          in if i \<ge> length (cfl_outstanding l) \<or> cfo_height (cfl_outstanding l ! i) \<noteq> h
             then (False, snd (cfLedgerAddGaveUp l h parkedCycles parkedLive))
             else
               let e = cfl_outstanding l ! i;
                   l = l\<lparr>cfl_outstanding := (cfl_outstanding l)[i :=
                           e\<lparr>cfo_attempts := 0, cfo_headerRace := 0, cfo_rearmCycles := cycles,
                             cfo_offersReachedLivePeer := 1\<rparr>]\<rparr>;
                   l = (if h > cfl_requestedThrough l then l\<lparr>cfl_requestedThrough := h\<rparr> else l)
               in (True, cfLedgerAdvance l))"

text \<open>The loop of \<open>BRCFScanLedgerReArmParkedRun\<close>; \<open>k\<close> is \<open>maxRun - n\<close>.\<close>

fun rearmRunLoop :: "nat \<Rightarrow> nat \<Rightarrow> u32 \<Rightarrow> scan_ledger \<Rightarrow> nat \<times> scan_ledger" where
  "rearmRunLoop 0 n h l = (n, l)"
| "rearmRunLoop (Suc k) n h l =
     (if h < cfl_abandonedBelow l then (n, l)
      else
        let i = cfLedgerLowerBound l h in
        if i < length (cfl_outstanding l) \<and> cfo_height (cfl_outstanding l ! i) = h then
          (let e = cfl_outstanding l ! i in
           if \<not> cfLedgerOutstandingIsParked e then (n, l)
           else
             let e = e\<lparr>cfo_attempts := 0, cfo_requestedAt := 0, cfo_peer := 0, cfo_port := 0,
                       cfo_headerRace := 0, cfo_rearmCycles := saturating_inc (cfo_rearmCycles e),
                       cfo_offersReachedLivePeer := 1\<rparr>;
                 l = l\<lparr>cfl_outstanding := (cfl_outstanding l)[i := e]\<rparr>
             in if h = UINT32_MAX_VAL then (Suc n, l) else rearmRunLoop k (Suc n) (h + 1) l)
        else if cfLedgerGaveUpIndex l h < length (cfl_gaveUp l) then
          (case BRCFScanLedgerReArmGaveUp l h of
             (False, l) \<Rightarrow> (n, l)
           | (True, l) \<Rightarrow>
               if h = UINT32_MAX_VAL then (Suc n, l) else rearmRunLoop k (Suc n) (h + 1) l)
        else (n, l))"

definition BRCFScanLedgerReArmParkedRun ::
  "scan_ledger \<Rightarrow> u32 \<Rightarrow> nat \<Rightarrow> nat \<times> scan_ledger" where
  "BRCFScanLedgerReArmParkedRun l startH maxRun =
     (let (n, l) = rearmRunLoop maxRun 0 startH l
      in (n, if n > 0 then cfLedgerAdvance l else l))"

section \<open>Reporters\<close>

definition BRCFScanLedgerCanRequestForward :: "scan_ledger \<Rightarrow> bool" where
  "BRCFScanLedgerCanRequestForward l \<longleftrightarrow>
     length (cfl_outstanding l) = 0 \<and> length (cfl_gaveUp l) = 0"

definition BRCFScanLedgerLowestNeededHeight :: "scan_ledger \<Rightarrow> u32" where
  "BRCFScanLedgerLowestNeededHeight l =
     (let lo = cfl_scannedThrough l + 1
      in if cfl_abandonedBelow l > lo then cfl_abandonedBelow l else lo)"

section \<open>The retention floor\<close>

definition BRCFScanLedgerRetireAbandonedTo :: "scan_ledger \<Rightarrow> u32 \<Rightarrow> u32 \<times> scan_ledger" where
  "BRCFScanLedgerRetireAbandonedTo l newFloor =
     (if newFloor \<ge> cfl_abandonedBelow l then (0, l)
      else if newFloor < cfl_start l then (0, l)
      else (cfl_abandonedBelow l - newFloor, l\<lparr>cfl_abandonedBelow := newFloor\<rparr>))"

text \<open>The result is the new retention floor, the number of heights abandoned, their lowest and
  their highest.\<close>

definition BRCFScanLedgerAbandonGaveUpBelow ::
  "scan_ledger \<Rightarrow> u32 \<Rightarrow> u32 \<times> nat \<times> u32 \<times> u32 \<times> scan_ledger" where
  "BRCFScanLedgerAbandonGaveUpBelow l clamp =
     (let target = (case cfl_outstanding l of [] \<Rightarrow> clamp
                    | e # _ \<Rightarrow> if cfo_height e < clamp then cfo_height e else clamp);
          k = gaveUpLowerBound l target;
          lo = (if k > 0 then cfl_gaveUp l ! 0 else CF_LEDGER_NO_DROP);
          hi = (if k > 0 then cfl_gaveUp l ! (k - 1) else CF_LEDGER_NO_DROP);
          l = cfLedgerGaveUpDropPrefix l k;
          l = (if k > 0 \<and> hi + 1 > cfl_abandonedBelow l
               then l\<lparr>cfl_abandonedBelow := hi + 1\<rparr> else l)
      in (BRCFScanLedgerLowestNeededHeight l, k, lo, hi, l))"

definition BRCFScanLedgerAbandonUnscannableBelow ::
  "scan_ledger \<Rightarrow> u32 \<Rightarrow> u32 \<Rightarrow> u32 \<times> u32 \<times> scan_ledger" where
  "BRCFScanLedgerAbandonUnscannableBelow l lo floor =
     (if lo = 0 \<or> floor = 0 then (BRCFScanLedgerLowestNeededHeight l, 0, l)
      else
        let lo = (if lo < cfl_abandonedBelow l then cfl_abandonedBelow l else lo);
            lo = (if lo \<ge> cfl_start l \<and> lo \<le> cfl_scannedThrough l
                  then cfl_scannedThrough l + 1 else lo)
        in if lo \<ge> floor then (BRCFScanLedgerLowestNeededHeight l, 0, l)
           else
             let ko = cfLedgerLowerBound l floor;
                 l = l\<lparr>cfl_outstanding := drop ko (cfl_outstanding l)\<rparr>;
                 kg = gaveUpLowerBound l floor;
                 l = cfLedgerGaveUpDropPrefix l kg;
                 l = (if floor > cfl_abandonedBelow l
                      then l\<lparr>cfl_abandonedBelow := floor\<rparr> else l);
                 l = cfLedgerAdvance l
             in (BRCFScanLedgerLowestNeededHeight l, floor - lo, l))"

definition BRCFScanLedgerRewindTo :: "scan_ledger \<Rightarrow> u32 \<Rightarrow> bool \<times> scan_ledger" where
  "BRCFScanLedgerRewindTo l nxt =
     (if nxt = 0 then (False, l)
      else
        let (changed, l) = (if nxt < cfl_start l then (True, l\<lparr>cfl_start := nxt\<rparr>)
                            else (False, l));
            (changed, l) = (if cfl_scannedThrough l \<ge> nxt
                            then (True, l\<lparr>cfl_scannedThrough := nxt - 1\<rparr>) else (changed, l));
            (changed, l) = (if cfl_requestedThrough l \<ge> nxt
                            then (True, l\<lparr>cfl_requestedThrough := nxt - 1\<rparr>) else (changed, l));
            ko = cfLedgerLowerBound l nxt;
            (changed, l) = (if ko < length (cfl_outstanding l)
                            then (True, l\<lparr>cfl_outstanding := take ko (cfl_outstanding l)\<rparr>)
                            else (changed, l));
            kg = gaveUpLowerBound l nxt;
            (changed, l) = (if kg < length (cfl_gaveUp l)
                            then (True, l\<lparr>cfl_gaveUp := take kg (cfl_gaveUp l),
                                          cfl_gaveUpRearmCycles := take kg (cfl_gaveUpRearmCycles l),
                                          cfl_gaveUpOffersLive := take kg (cfl_gaveUpOffersLive l)\<rparr>)
                            else (changed, l))
        in (changed, cfLedgerAdvance l))"

section \<open>The hole report\<close>

text \<open>
  The merge and coalesce loop of \<open>BRCFScanLedgerHoleRanges\<close>: \<open>cur\<close> is the open range, \<open>out\<close> the
  ranges written so far, \<open>cap\<close> the size of the output arrays.
\<close>

function holeRangesLoop ::
  "nat \<Rightarrow> u32 list \<Rightarrow> u32 list \<Rightarrow> (u32 \<times> u32) option \<Rightarrow> (u32 \<times> u32) list \<Rightarrow> (u32 \<times> u32) list"
where
  "holeRangesLoop cap os gs cur out =
     (if os = [] \<and> gs = [] then
        (case cur of None \<Rightarrow> out
         | Some r \<Rightarrow> if length out < cap then out @ [r] else out)
      else
        let fromOut = (os \<noteq> [] \<and> (gs = [] \<or> hd os \<le> hd gs));
            h = (if fromOut then hd os else hd gs);
            gs' = (if fromOut then (if gs \<noteq> [] \<and> hd gs = h then tl gs else gs) else tl gs);
            os' = (if fromOut then tl os else os)
        in case cur of
             None \<Rightarrow> holeRangesLoop cap os' gs' (Some (h, h)) out
           | Some (curStart, curEnd) \<Rightarrow>
               if h = curEnd then holeRangesLoop cap os' gs' cur out
               else if h = curEnd + 1 then holeRangesLoop cap os' gs' (Some (curStart, h)) out
               else
                 let out = out @ [(curStart, curEnd)]
                 in if length out = cap then out
                    else holeRangesLoop cap os' gs' (Some (h, h)) out)"
  by pat_completeness auto
termination
  by (relation "measure (\<lambda>(cap, os, gs, cur, out). length os + length gs)")
     (auto simp: neq_Nil_conv)

declare holeRangesLoop.simps [simp del]

definition BRCFScanLedgerHoleRanges :: "scan_ledger \<Rightarrow> nat \<Rightarrow> (u32 \<times> u32) list" where
  "BRCFScanLedgerHoleRanges l cap =
     (if cap = 0 then [] else holeRangesLoop cap (cfl_heights l) (cfl_gaveUp l) None [])"

section \<open>Initialisation\<close>

definition CF_FILTER_BUF_MAGIC :: u32 where "CF_FILTER_BUF_MAGIC = 0x43464246"

definition BRCFScanLedgerInit :: "u32 \<Rightarrow> scan_ledger" where
  "BRCFScanLedgerInit start =
     \<lparr>cfl_start = start,
      cfl_scannedThrough = (if start > 0 then start - 1 else 0),
      cfl_requestedThrough = (if start > 0 then start - 1 else 0),
      cfl_abandonedBelow = 0, cfl_outstanding = [], cfl_pending = [],
      cfl_gaveUp = [], cfl_gaveUpRearmCycles = [], cfl_gaveUpOffersLive = [],
      cfl_lastDriveAt = 0, cfl_filterBuf = [], cfl_bufferedBytes = 0,
      cfl_filterBufMagic = CF_FILTER_BUF_MAGIC\<rparr>"

end
