(* ===== verification/ScanLedgerInv.thy ===== *)
theory ScanLedgerInv
  imports ScanLedger
begin

text \<open>
  What the scan ledger's operations do to its two sorted arrays, and the well-formedness invariant
  \<open>cfl_wf\<close> that every operation keeps, whatever its arguments.  The lemmas describe each operation
  by its effect on \<open>holes\<close>, the set of heights the ledger still owes.
\<close>

section \<open>Holes and well-formedness\<close>

definition holes :: "scan_ledger \<Rightarrow> u32 set" where
  "holes l = set (cfl_heights l) \<union> set (cfl_gaveUp l)"

text \<open>The arrays are strictly sorted, within their capacity, and the parked bytes run in parallel.\<close>

definition cfl_shape :: "scan_ledger \<Rightarrow> bool" where
  "cfl_shape l \<longleftrightarrow>
     sorted_wrt (<) (cfl_heights l) \<and> sorted_wrt (<) (cfl_gaveUp l) \<and>
     length (cfl_gaveUpRearmCycles l) = length (cfl_gaveUp l) \<and>
     length (cfl_gaveUpOffersLive l) = length (cfl_gaveUp l) \<and>
     length (cfl_outstanding l) \<le> CF_OUTSTANDING_MAX \<and>
     length (cfl_gaveUp l) \<le> CF_GAVEUP_MAX"

text \<open>Every hole lies between the abandoned floor and the highest request, and so does the mark.\<close>

definition cfl_wf :: "scan_ledger \<Rightarrow> bool" where
  "cfl_wf l \<longleftrightarrow> cfl_shape l \<and>
     (\<forall>h\<in>holes l. cfl_abandonedBelow l \<le> h \<and> h \<le> cfl_requestedThrough l) \<and>
     cfl_scannedThrough l \<le> cfl_requestedThrough l"

lemma cfl_shapeD:
  assumes "cfl_shape l"
  shows "sorted_wrt (<) (cfl_heights l)" "sorted_wrt (<) (cfl_gaveUp l)"
    "length (cfl_gaveUpRearmCycles l) = length (cfl_gaveUp l)"
    "length (cfl_gaveUpOffersLive l) = length (cfl_gaveUp l)"
    "length (cfl_outstanding l) \<le> CF_OUTSTANDING_MAX" "length (cfl_gaveUp l) \<le> CF_GAVEUP_MAX"
  using assms by (auto simp: cfl_shape_def)

lemma cfl_wfD:
  assumes "cfl_wf l"
  shows "sorted_wrt (<) (cfl_heights l)" "sorted_wrt (<) (cfl_gaveUp l)"
    "cfl_shape l" "h \<in> holes l \<Longrightarrow> cfl_abandonedBelow l \<le> h"
    "h \<in> holes l \<Longrightarrow> h \<le> cfl_requestedThrough l"
    "cfl_scannedThrough l \<le> cfl_requestedThrough l"
  using assms by (auto simp: cfl_wf_def cfl_shape_def)

lemma CF_OUTSTANDING_MAX_pos [simp]: "0 < CF_OUTSTANDING_MAX" "CF_OUTSTANDING_MAX \<noteq> 0"
  by (simp_all add: CF_OUTSTANDING_MAX_def)

section \<open>The sorted outstanding array\<close>

lemma cfLedgerLowerBound_heights: "cfLedgerLowerBound l h = lower_bound (cfl_heights l) h"
  by (simp add: cfLedgerLowerBound_def takeWhile_map comp_def)

lemma outstanding_hit:
  assumes "sorted_wrt (<) (cfl_heights l)"
  shows "cfLedgerLowerBound l h < length (cfl_outstanding l) \<and>
         cfo_height (cfl_outstanding l ! cfLedgerLowerBound l h) = h \<longleftrightarrow> h \<in> set (cfl_heights l)"
  using lower_bound_hit [OF assms, of h]
  by (metis cfLedgerLowerBound_heights length_map nth_map)

lemma gaveUp_hit:
  assumes "sorted_wrt (<) (cfl_gaveUp l)"
  shows "gaveUpLowerBound l h < length (cfl_gaveUp l) \<and> cfl_gaveUp l ! gaveUpLowerBound l h = h \<longleftrightarrow>
         h \<in> set (cfl_gaveUp l)"
  by (rule lower_bound_hit [OF assms])

text \<open>An update of an entry that keeps its height keeps the heights.\<close>

lemma map_height_update [simp]:
  "cfo_height e = cfo_height (xs ! i) \<Longrightarrow> map cfo_height (xs[i := e]) = map cfo_height xs"
  by (metis list_update_id map_update)

lemma map_height_map [simp]:
  "(\<And>e. cfo_height (f e) = cfo_height e) \<Longrightarrow> map cfo_height (map f xs) = map cfo_height xs"
  by simp

section \<open>Advancing the high-water mark\<close>

lemma cfLedgerAdvance_simps [simp]:
  "cfl_start (cfLedgerAdvance l) = cfl_start l"
  "cfl_requestedThrough (cfLedgerAdvance l) = cfl_requestedThrough l"
  "cfl_abandonedBelow (cfLedgerAdvance l) = cfl_abandonedBelow l"
  "cfl_outstanding (cfLedgerAdvance l) = cfl_outstanding l"
  "cfl_gaveUp (cfLedgerAdvance l) = cfl_gaveUp l"
  "cfl_gaveUpRearmCycles (cfLedgerAdvance l) = cfl_gaveUpRearmCycles l"
  "cfl_gaveUpOffersLive (cfLedgerAdvance l) = cfl_gaveUpOffersLive l"
  by (simp_all add: cfLedgerAdvance_def Let_def)

lemma holes_Advance [simp]: "holes (cfLedgerAdvance l) = holes l"
  by (simp add: holes_def)

text \<open>
  The mark moves up only, never past what was requested, and never onto a hole; the sentinel height
  \<open>0xFFFFFFFF\<close> is the one height the code cannot tell from "no hole".
\<close>

lemma cfLedgerAdvance_mono: "cfl_scannedThrough l \<le> cfl_scannedThrough (cfLedgerAdvance l)"
  by (auto simp: cfLedgerAdvance_def Let_def)

lemma cfLedgerAdvance_requested:
  "cfl_scannedThrough l \<le> cfl_requestedThrough l \<Longrightarrow>
   cfl_scannedThrough (cfLedgerAdvance l) \<le> cfl_requestedThrough l"
  by (auto simp: cfLedgerAdvance_def Let_def)

definition first_hole :: "scan_ledger \<Rightarrow> u32" where
  "first_hole l =
     (let f = (case cfl_outstanding l of [] \<Rightarrow> UINT32_MAX_VAL | e # _ \<Rightarrow> cfo_height e)
      in case cfl_gaveUp l of [] \<Rightarrow> f | g # _ \<Rightarrow> if g < f then g else f)"

lemma UINT32_MAX_top: "h \<le> UINT32_MAX_VAL"
  using unsigned_less [where ?'a = nat, of h] by (simp add: UINT32_MAX_VAL_def word_le_nat_alt)

lemma first_hole_le:
  assumes "cfl_wf l" and "h \<in> holes l"
  shows "first_hole l \<le> h"
proof (cases "h \<in> set (cfl_heights l)")
  case True
  then obtain e es where "cfl_outstanding l = e # es"
    by (cases "cfl_outstanding l") auto
  moreover have "cfo_height e \<le> h" if "cfl_outstanding l = e # es" for e es
    using True that cfl_wfD(1) [OF assms(1)] by auto
  ultimately show ?thesis
    by (auto simp: first_hole_def Let_def split: list.splits)
next
  case False
  then have h: "h \<in> set (cfl_gaveUp l)"
    using assms(2) by (simp add: holes_def)
  then obtain g gs where "cfl_gaveUp l = g # gs"
    by (cases "cfl_gaveUp l") auto
  moreover have "g \<le> h" if "cfl_gaveUp l = g # gs" for g gs
    using h that cfl_wfD(2) [OF assms(1)] by auto
  ultimately show ?thesis
    by (auto simp: first_hole_def Let_def)
qed

lemma cfLedgerAdvance_first_hole:
  "cfLedgerAdvance l =
     (let ceiling = (if first_hole l \<noteq> UINT32_MAX_VAL then
                       (let cap = (if first_hole l > 0 then first_hole l - 1 else 0)
                        in if cap < cfl_requestedThrough l then cap else cfl_requestedThrough l)
                     else cfl_requestedThrough l)
      in if cfl_scannedThrough l < ceiling then l\<lparr>cfl_scannedThrough := ceiling\<rparr> else l)"
  by (simp only: cfLedgerAdvance_def first_hole_def Let_def)

lemma cfLedgerAdvance_scanned:
  "cfl_scannedThrough (cfLedgerAdvance l) =
     max (cfl_scannedThrough l)
       (if first_hole l = UINT32_MAX_VAL then cfl_requestedThrough l
        else min (cfl_requestedThrough l) (if first_hole l > 0 then first_hole l - 1 else 0))"
proof -
  have raise: "cfl_scannedThrough (if cfl_scannedThrough l < c
      then l\<lparr>cfl_scannedThrough := c\<rparr> else l) = max (cfl_scannedThrough l) c" for c
    by (auto simp: max_def)
  have cap: "(if c < r then c else r) = min r c" for c r :: u32
    by (auto simp: min_def)
  show ?thesis
    unfolding cfLedgerAdvance_first_hole Let_def raise cap by simp
qed

lemma cfLedgerAdvance_below_holes:
  assumes "cfl_wf l" "h \<in> holes l" "0 < h"
    and "cfl_scannedThrough l < h" "cfl_requestedThrough l < UINT32_MAX_VAL"
  shows "cfl_scannedThrough (cfLedgerAdvance l) < h"
proof -
  have le: "first_hole l \<le> h"
    using assms(1,2) by (rule first_hole_le)
  have "h \<le> cfl_requestedThrough l"
    using cfl_wfD(5) [OF assms(1,2)] .
  then have "first_hole l \<noteq> UINT32_MAX_VAL"
    using le assms(5) by auto
  then show ?thesis
    using le assms(3,4) word_minus_one_less_iff [of "first_hole l" h]
    by (auto simp: cfLedgerAdvance_scanned word_minus_one_less_iff min_less_iff_disj)
qed


lemma cfLedgerAdvance_wf: "cfl_wf l \<Longrightarrow> cfl_wf (cfLedgerAdvance l)"
  using cfLedgerAdvance_requested [of l] by (simp add: cfl_wf_def cfl_shape_def)

section \<open>Parking a height and taking it out again\<close>

lemma cfLedgerAddGaveUp_frame [simp]:
  "cfl_start (snd (cfLedgerAddGaveUp l h c v)) = cfl_start l"
  "cfl_scannedThrough (snd (cfLedgerAddGaveUp l h c v)) = cfl_scannedThrough l"
  "cfl_requestedThrough (snd (cfLedgerAddGaveUp l h c v)) = cfl_requestedThrough l"
  "cfl_abandonedBelow (snd (cfLedgerAddGaveUp l h c v)) = cfl_abandonedBelow l"
  by (simp_all add: cfLedgerAddGaveUp_def cfLedgerGaveUpShiftUp_def Let_def)

lemma cfLedgerAddGaveUp_gaveUp:
  assumes "sorted_wrt (<) (cfl_gaveUp l)"
  shows "cfl_gaveUp (snd (cfLedgerAddGaveUp l h c v)) =
    (if h \<in> set (cfl_gaveUp l) \<or> length (cfl_gaveUp l) \<ge> CF_GAVEUP_MAX then cfl_gaveUp l
     else insert_at (gaveUpLowerBound l h) h (cfl_gaveUp l))"
  using gaveUp_hit [OF assms, of h]
  by (simp add: cfLedgerAddGaveUp_def cfLedgerGaveUpShiftUp_def Let_def)

lemma cfLedgerAddGaveUp_fst:
  assumes "sorted_wrt (<) (cfl_gaveUp l)"
  shows "fst (cfLedgerAddGaveUp l h c v) \<longleftrightarrow>
    h \<in> set (cfl_gaveUp l) \<or> length (cfl_gaveUp l) < CF_GAVEUP_MAX"
  using gaveUp_hit [OF assms, of h]
  by (simp add: cfLedgerAddGaveUp_def Let_def)

lemma cfLedgerAddGaveUp_parallel:
  assumes "length (cfl_gaveUpRearmCycles l) = length (cfl_gaveUp l)"
    and "length (cfl_gaveUpOffersLive l) = length (cfl_gaveUp l)"
  shows "length (cfl_gaveUpRearmCycles (snd (cfLedgerAddGaveUp l h c v))) =
      length (cfl_gaveUp (snd (cfLedgerAddGaveUp l h c v)))"
    and "length (cfl_gaveUpOffersLive (snd (cfLedgerAddGaveUp l h c v))) =
      length (cfl_gaveUp (snd (cfLedgerAddGaveUp l h c v)))"
  using assms by (simp_all add: cfLedgerAddGaveUp_def cfLedgerGaveUpShiftUp_def Let_def)

lemma cfLedgerAddGaveUp_set:
  assumes "sorted_wrt (<) (cfl_gaveUp l)" and "fst (cfLedgerAddGaveUp l h c v)"
  shows "set (cfl_gaveUp (snd (cfLedgerAddGaveUp l h c v))) = insert h (set (cfl_gaveUp l))"
  using assms by (auto simp: cfLedgerAddGaveUp_gaveUp cfLedgerAddGaveUp_fst)

lemma cfLedgerAddGaveUp_full:
  assumes "sorted_wrt (<) (cfl_gaveUp l)" and "\<not> fst (cfLedgerAddGaveUp l h c v)"
  shows "snd (cfLedgerAddGaveUp l h c v) = l"
  using assms gaveUp_hit [OF assms(1), of h]
  by (simp add: cfLedgerAddGaveUp_def Let_def split: if_splits)

lemma cfLedgerAddGaveUp_sorted:
  assumes "sorted_wrt (<) (cfl_gaveUp l)"
  shows "sorted_wrt (<) (cfl_gaveUp (snd (cfLedgerAddGaveUp l h c v)))"
  using assms by (simp add: cfLedgerAddGaveUp_gaveUp insert_at_lower_bound_sorted)

lemma cfLedgerAddGaveUp_length:
  assumes "sorted_wrt (<) (cfl_gaveUp l)" and "length (cfl_gaveUp l) \<le> CF_GAVEUP_MAX"
  shows "length (cfl_gaveUp (snd (cfLedgerAddGaveUp l h c v))) \<le> CF_GAVEUP_MAX"
  using assms by (simp add: cfLedgerAddGaveUp_gaveUp)

lemma cfLedgerRemoveGaveUp_frame [simp]:
  "cfl_start (cfLedgerRemoveGaveUp l h) = cfl_start l"
  "cfl_scannedThrough (cfLedgerRemoveGaveUp l h) = cfl_scannedThrough l"
  "cfl_requestedThrough (cfLedgerRemoveGaveUp l h) = cfl_requestedThrough l"
  "cfl_abandonedBelow (cfLedgerRemoveGaveUp l h) = cfl_abandonedBelow l"
  "cfl_outstanding (cfLedgerRemoveGaveUp l h) = cfl_outstanding l"
  by (simp_all add: cfLedgerRemoveGaveUp_def cfLedgerGaveUpShiftDown_def Let_def)

lemma cfLedgerRemoveGaveUp_gaveUp:
  assumes "sorted_wrt (<) (cfl_gaveUp l)"
  shows "cfl_gaveUp (cfLedgerRemoveGaveUp l h) =
    (if h \<in> set (cfl_gaveUp l) then remove_at (gaveUpLowerBound l h) (cfl_gaveUp l)
     else cfl_gaveUp l)"
  using gaveUp_hit [OF assms, of h]
  by (simp add: cfLedgerRemoveGaveUp_def cfLedgerGaveUpShiftDown_def Let_def)

lemma cfLedgerRemoveGaveUp_set:
  assumes "sorted_wrt (<) (cfl_gaveUp l)"
  shows "set (cfl_gaveUp (cfLedgerRemoveGaveUp l h)) = set (cfl_gaveUp l) - {h}"
proof (cases "h \<in> set (cfl_gaveUp l)")
  case True
  then show ?thesis
    using gaveUp_hit [OF assms, of h]
    by (simp add: cfLedgerRemoveGaveUp_gaveUp [OF assms] set_remove_at
        sorted_wrt_less_distinct [OF assms])
next
  case False
  then show ?thesis
    by (simp add: cfLedgerRemoveGaveUp_gaveUp [OF assms])
qed

lemma cfLedgerRemoveGaveUp_parallel:
  assumes "length (cfl_gaveUpRearmCycles l) = length (cfl_gaveUp l)"
    and "length (cfl_gaveUpOffersLive l) = length (cfl_gaveUp l)"
  shows "length (cfl_gaveUpRearmCycles (cfLedgerRemoveGaveUp l h)) =
      length (cfl_gaveUp (cfLedgerRemoveGaveUp l h))"
    and "length (cfl_gaveUpOffersLive (cfLedgerRemoveGaveUp l h)) =
      length (cfl_gaveUp (cfLedgerRemoveGaveUp l h))"
  using assms by (simp_all add: cfLedgerRemoveGaveUp_def cfLedgerGaveUpShiftDown_def Let_def)

lemma cfLedgerRemoveGaveUp_sorted:
  assumes "sorted_wrt (<) (cfl_gaveUp l)"
  shows "sorted_wrt (<) (cfl_gaveUp (cfLedgerRemoveGaveUp l h))"
  using assms by (simp add: cfLedgerRemoveGaveUp_gaveUp remove_at_sorted)

lemma cfLedgerRemoveGaveUp_length:
  assumes "sorted_wrt (<) (cfl_gaveUp l)"
  shows "length (cfl_gaveUp (cfLedgerRemoveGaveUp l h)) \<le> length (cfl_gaveUp l)"
  using gaveUp_hit [OF assms, of h] by (auto simp: cfLedgerRemoveGaveUp_gaveUp [OF assms])

section \<open>Recording a request\<close>

lemma cfLedgerInsertOutstanding_frame [simp]:
  "cfl_start (snd (cfLedgerInsertOutstanding l h p q t)) = cfl_start l"
  "cfl_scannedThrough (snd (cfLedgerInsertOutstanding l h p q t)) = cfl_scannedThrough l"
  "cfl_requestedThrough (snd (cfLedgerInsertOutstanding l h p q t)) = cfl_requestedThrough l"
  "cfl_abandonedBelow (snd (cfLedgerInsertOutstanding l h p q t)) = cfl_abandonedBelow l"
  "cfl_gaveUp (snd (cfLedgerInsertOutstanding l h p q t)) = cfl_gaveUp l"
  "cfl_gaveUpRearmCycles (snd (cfLedgerInsertOutstanding l h p q t)) = cfl_gaveUpRearmCycles l"
  "cfl_gaveUpOffersLive (snd (cfLedgerInsertOutstanding l h p q t)) = cfl_gaveUpOffersLive l"
  by (simp_all add: cfLedgerInsertOutstanding_def Let_def)

lemma new_outstanding_height [simp]: "cfo_height (new_outstanding h p q t) = h"
  by (simp add: new_outstanding_def)

lemma cfLedgerInsertOutstanding_heights:
  assumes "sorted_wrt (<) (cfl_heights l)"
  shows "cfl_heights (snd (cfLedgerInsertOutstanding l h p q t)) =
    (let hs = cfl_heights l in
     if h \<in> set hs then hs
     else if length hs \<ge> CF_OUTSTANDING_MAX then insert_at (lower_bound (tl hs) h) h (tl hs)
     else insert_at (lower_bound hs h) h hs)"
proof (cases "h \<in> set (cfl_heights l)")
  case True
  then show ?thesis
    using outstanding_hit [OF assms, of h]
    by (simp add: cfLedgerInsertOutstanding_def Let_def)
next
  case False
  note miss = this outstanding_hit [OF assms, of h]
  show ?thesis
  proof (cases "length (cfl_outstanding l) \<ge> CF_OUTSTANDING_MAX")
    case True
    then obtain e es where es: "cfl_outstanding l = e # es"
      by (cases "cfl_outstanding l") auto
    have "takeWhile (\<lambda>x. x < h) (map cfo_height es) = []" if "\<not> cfo_height e < h"
      using assms that es by (cases es) auto
    then show ?thesis
      using miss True es
      by (auto simp: cfLedgerInsertOutstanding_def Let_def map_insert_at
          cfLedgerLowerBound_heights)
  next
    case False
    then show ?thesis
      using miss
      by (auto simp: cfLedgerInsertOutstanding_def Let_def map_insert_at
          cfLedgerLowerBound_heights)
  qed
qed

lemma cfLedgerInsertOutstanding_dropped:
  assumes "sorted_wrt (<) (cfl_heights l)"
  shows "fst (cfLedgerInsertOutstanding l h p q t) =
    (if h \<notin> set (cfl_heights l) \<and> length (cfl_outstanding l) \<ge> CF_OUTSTANDING_MAX
     then hd (cfl_heights l) else CF_LEDGER_NO_DROP)"
proof -
  have "cfl_outstanding l \<noteq> []" if "length (cfl_outstanding l) \<ge> CF_OUTSTANDING_MAX"
    using that by auto
  then show ?thesis
    using outstanding_hit [OF assms, of h]
    by (auto simp: cfLedgerInsertOutstanding_def Let_def hd_map)
qed

lemma cfLedgerInsertOutstanding_sorted:
  assumes "sorted_wrt (<) (cfl_heights l)"
  shows "sorted_wrt (<) (cfl_heights (snd (cfLedgerInsertOutstanding l h p q t)))"
proof -
  have "sorted_wrt (<) (tl (cfl_heights l))"
    using assms by (cases "cfl_heights l") auto
  moreover have "h \<notin> set (tl (cfl_heights l))" if "h \<notin> set (cfl_heights l)"
    using that by (cases "cfl_heights l") auto
  ultimately show ?thesis
    using assms by (simp add: cfLedgerInsertOutstanding_heights Let_def insert_at_lower_bound_sorted
        del: map_tl)
qed

lemma cfLedgerInsertOutstanding_length:
  assumes "sorted_wrt (<) (cfl_heights l)" "length (cfl_outstanding l) \<le> CF_OUTSTANDING_MAX"
  shows "length (cfl_outstanding (snd (cfLedgerInsertOutstanding l h p q t))) \<le> CF_OUTSTANDING_MAX"
proof -
  have "length (cfl_heights (snd (cfLedgerInsertOutstanding l h p q t))) \<le> CF_OUTSTANDING_MAX"
    using assms by (auto simp: cfLedgerInsertOutstanding_heights Let_def)
  then show ?thesis by simp
qed

text \<open>The new height is always kept; at most the front height makes room for it.\<close>

lemma cfLedgerInsertOutstanding_set:
  assumes "sorted_wrt (<) (cfl_heights l)"
  shows "set (cfl_heights (snd (cfLedgerInsertOutstanding l h p q t))) =
    insert h (set (cfl_heights l) -
      (if h \<notin> set (cfl_heights l) \<and> length (cfl_outstanding l) \<ge> CF_OUTSTANDING_MAX
       then {hd (cfl_heights l)} else {}))"
proof -
  have "set (tl (cfl_heights l)) = set (cfl_heights l) - {hd (cfl_heights l)}"
    using sorted_wrt_less_distinct [OF assms] by (cases "cfl_heights l") auto
  then show ?thesis
    unfolding cfLedgerInsertOutstanding_heights [OF assms] Let_def by auto
qed

lemma cfl_shapeI:
  assumes "cfl_shape l" and "cfl_heights l' = cfl_heights l" and "cfl_gaveUp l' = cfl_gaveUp l"
    and "length (cfl_gaveUpRearmCycles l') = length (cfl_gaveUpRearmCycles l)"
    and "length (cfl_gaveUpOffersLive l') = length (cfl_gaveUpOffersLive l)"
  shows "cfl_shape l'"
proof -
  have "length (cfl_outstanding l') = length (cfl_outstanding l)"
    using assms(2) by (metis length_map)
  then show ?thesis using assms by (simp add: cfl_shape_def)
qed

text \<open>The four scalar marks of a ledger, for statements that an operation leaves them alone.\<close>

definition cfl_marks :: "scan_ledger \<Rightarrow> u32 \<times> u32 \<times> u32 \<times> u32" where
  "cfl_marks l =
     (cfl_start l, cfl_scannedThrough l, cfl_requestedThrough l, cfl_abandonedBelow l)"

definition cfl_parks :: "scan_ledger \<Rightarrow> u32 list \<times> u8 list \<times> u8 list" where
  "cfl_parks l = (cfl_gaveUp l, cfl_gaveUpRearmCycles l, cfl_gaveUpOffersLive l)"

lemma cfLedgerInsertOutstanding_shape:
  "cfl_shape l \<Longrightarrow> cfl_shape (snd (cfLedgerInsertOutstanding l h p q t))"
  using cfLedgerInsertOutstanding_sorted cfLedgerInsertOutstanding_length
  by (simp add: cfl_shape_def)

text \<open>One insertion: the height is in, and a height that left is the one reported.\<close>

lemma cfLedgerInsertOutstanding_step:
  assumes "cfl_shape l" and ins: "cfLedgerInsertOutstanding l h p q t = (d, l1)"
  shows "cfl_shape l1" "cfl_marks l1 = cfl_marks l" "cfl_parks l1 = cfl_parks l"
    "h \<in> set (cfl_heights l1)"
    "set (cfl_heights l1) \<subseteq> insert h (set (cfl_heights l))"
    "x \<in> set (cfl_heights l) \<Longrightarrow> x \<notin> set (cfl_heights l1) \<Longrightarrow> x = d"
proof -
  have l1: "l1 = snd (cfLedgerInsertOutstanding l h p q t)"
    and d: "d = fst (cfLedgerInsertOutstanding l h p q t)" by (simp_all add: ins)
  show "cfl_shape l1" using assms(1) cfLedgerInsertOutstanding_shape l1 by simp
  show "cfl_marks l1 = cfl_marks l" "cfl_parks l1 = cfl_parks l"
    by (simp_all add: l1 cfl_marks_def cfl_parks_def)
  note set = cfLedgerInsertOutstanding_set [OF cfl_shapeD(1) [OF assms(1)], of h p q t]
  show "h \<in> set (cfl_heights l1)" "set (cfl_heights l1) \<subseteq> insert h (set (cfl_heights l))"
    unfolding l1 set by auto
  assume "x \<in> set (cfl_heights l)" "x \<notin> set (cfl_heights l1)"
  then show "x = d"
    unfolding l1 set d cfLedgerInsertOutstanding_dropped [OF cfl_shapeD(1) [OF assms(1)]]
    by (auto split: if_splits)
qed

lemma word_range_split:
  fixes a b :: "'a::len word"
  assumes "a < b"
  shows "{a..b} = insert a {a + 1..b}"
proof (rule set_eqI)
  fix x
  have "x \<in> {a..b} \<longleftrightarrow> x = a \<or> a < x \<and> x \<le> b"
    using assms by (metis atLeastAtMost_iff order.strict_iff_order order.strict_trans1 not_less
        order_less_le)
  then show "x \<in> {a..b} \<longleftrightarrow> x \<in> insert a {a + 1..b}"
    by (simp add: word_plus_one_le_iff [OF assms])
qed

lemma recordLoop_post:
  assumes "cfl_shape l" and "h \<le> stopH"
    and "recordLoop h stopH p q t n lo hi l = (n', lo', hi', l')"
  shows "cfl_shape l' \<and> cfl_marks l' = cfl_marks l \<and> cfl_parks l' = cfl_parks l \<and>
    set (cfl_heights l') \<subseteq> set (cfl_heights l) \<union> {h..stopH} \<and>
    n \<le> n' \<and> lo' \<le> lo \<and> hi \<le> hi' \<and>
    (\<forall>x \<in> (set (cfl_heights l) \<union> {h..stopH}) - set (cfl_heights l').
       x \<noteq> CF_LEDGER_NO_DROP \<longrightarrow> n < n' \<and> lo' \<le> x \<and> x \<le> hi')"
  using assms
proof (induction h stopH p q t n lo hi l rule: recordLoop.induct)
  case (1 h stopH p q t n lo hi l)
  obtain d l1 where ins: "cfLedgerInsertOutstanding l h p q t = (d, l1)" by force
  note step = cfLedgerInsertOutstanding_step [OF "1.prems"(1) ins]
  define n1 where "n1 = (if d \<noteq> CF_LEDGER_NO_DROP then Suc n else n)"
  define lo1 where "lo1 = (if d \<noteq> CF_LEDGER_NO_DROP \<and> d < lo then d else lo)"
  define hi1 where "hi1 = (if d \<noteq> CF_LEDGER_NO_DROP \<and> hi < d then d else hi)"
  have upd: "(if d \<noteq> CF_LEDGER_NO_DROP
      then (Suc n, if d < lo then d else lo, if d > hi then d else hi) else (n, lo, hi))
      = (n1, lo1, hi1)"
    by (simp add: n1_def lo1_def hi1_def)
  have mono: "n \<le> n1" "lo1 \<le> lo" "hi \<le> hi1"
    by (auto simp: n1_def lo1_def hi1_def)
  have d: "n < n1 \<and> lo1 \<le> d \<and> d \<le> hi1" if "d \<noteq> CF_LEDGER_NO_DROP"
    using that by (auto simp: n1_def lo1_def hi1_def)
  have unfold: "recordLoop h stopH p q t n lo hi l =
      (if h = stopH then (n1, lo1, hi1, l1) else recordLoop (h + 1) stopH p q t n1 lo1 hi1 l1)"
    by (subst recordLoop.simps) (simp only: ins upd Let_def case_prod_conv)
  show ?case
  proof (cases "h = stopH")
    case True
    then have eqs: "n' = n1" "lo' = lo1" "hi' = hi1" "l' = l1" "{h..stopH} = {h}"
      using "1.prems"(3) unfold by auto
    have "n < n1 \<and> lo1 \<le> x \<and> x \<le> hi1"
      if x: "x \<in> (set (cfl_heights l) \<union> {h}) - set (cfl_heights l1)"
        "x \<noteq> CF_LEDGER_NO_DROP" for x
    proof -
      have "x = d" using x(1) step(4,6) by blast
      then show ?thesis using d x(2) by blast
    qed
    then show ?thesis
      unfolding eqs using step(1,2,3,5) mono by blast
  next
    case False
    then have less: "h < stopH" using "1.prems"(2) by simp
    then have le: "h + 1 \<le> stopH" by (simp add: word_order)
    have "recordLoop (h + 1) stopH p q t n1 lo1 hi1 l1 = (n', lo', hi', l')"
      using "1.prems"(3) unfold False by simp
    from "1.IH" [OF ins [symmetric] refl upd [symmetric] refl refl False step(1) le this]
    have IH: "cfl_shape l' \<and> cfl_marks l' = cfl_marks l1 \<and> cfl_parks l' = cfl_parks l1 \<and>
      set (cfl_heights l') \<subseteq> set (cfl_heights l1) \<union> {h + 1..stopH} \<and>
      n1 \<le> n' \<and> lo' \<le> lo1 \<and> hi1 \<le> hi' \<and>
      (\<forall>x \<in> (set (cfl_heights l1) \<union> {h + 1..stopH}) - set (cfl_heights l').
         x \<noteq> CF_LEDGER_NO_DROP \<longrightarrow> n1 < n' \<and> lo' \<le> x \<and> x \<le> hi')" .
    have "n < n' \<and> lo' \<le> x \<and> x \<le> hi'"
      if x: "x \<in> set (cfl_heights l) \<union> {h..stopH}" "x \<notin> set (cfl_heights l')"
        "x \<noteq> CF_LEDGER_NO_DROP" for x
    proof (cases "x \<in> set (cfl_heights l1) \<union> {h + 1..stopH}")
      case True
      then have "n1 < n' \<and> lo' \<le> x \<and> x \<le> hi'" using x IH by blast
      then show ?thesis using mono by simp
    next
      case False
      then have "x \<in> set (cfl_heights l)"
        using x(1) step(4) unfolding word_range_split [OF less] by blast
      then have "x = d" using step(6) False by blast
      then have "n < n1" "lo1 \<le> x" "x \<le> hi1" using d x(3) by blast+
      then show ?thesis using IH by (meson le_trans order.strict_trans2 order_trans)
    qed
    moreover have "set (cfl_heights l') \<subseteq> set (cfl_heights l) \<union> {h..stopH}"
      unfolding word_range_split [OF less] using IH step(5) by blast
    ultimately show ?thesis
      using IH step(2,3) mono by (metis (no_types, lifting) DiffE le_trans order_trans)
  qed
qed

section \<open>Every operation keeps the invariant\<close>

lemma set_remove_lower_bound:
  fixes xs :: "'a::linorder list"
  assumes "sorted_wrt (<) xs"
  shows "set (if h \<in> set xs then remove_at (lower_bound xs h) xs else xs) = set xs - {h}"
  using lower_bound_hit [OF assms, of h] set_remove_at [OF sorted_wrt_less_distinct [OF assms]]
  by auto

lemma cfl_marksD:
  assumes "cfl_marks l' = cfl_marks l"
  shows "cfl_start l' = cfl_start l" "cfl_scannedThrough l' = cfl_scannedThrough l"
    "cfl_requestedThrough l' = cfl_requestedThrough l"
    "cfl_abandonedBelow l' = cfl_abandonedBelow l"
  using assms by (auto simp: cfl_marks_def)

lemma cfl_parksD:
  assumes "cfl_parks l' = cfl_parks l"
  shows "cfl_gaveUp l' = cfl_gaveUp l" "cfl_gaveUpRearmCycles l' = cfl_gaveUpRearmCycles l"
    "cfl_gaveUpOffersLive l' = cfl_gaveUpOffersLive l"
  using assms by (auto simp: cfl_parks_def)

lemma Init_wf: "cfl_wf (BRCFScanLedgerInit start)"
  by (simp add: cfl_wf_def cfl_shape_def holes_def BRCFScanLedgerInit_def)

text \<open>What recording a range does, with the effective low end \<open>lo\<close> clamped to the floor.\<close>

lemma RecordRequestedDropped_noop:
  assumes "stopH < startH \<or> stopH < cfl_abandonedBelow l"
  shows "BRCFScanLedgerRecordRequestedDropped l startH stopH p q t = (0, None, l)"
  using assms by (auto simp: BRCFScanLedgerRecordRequestedDropped_def Let_def)

lemma RecordRequestedDropped_post:
  assumes "cfl_shape l" and "startH \<le> stopH" and "cfl_abandonedBelow l \<le> stopH"
    and rec: "BRCFScanLedgerRecordRequestedDropped l startH stopH p q t = (n, r, l')"
  defines "low \<equiv> max startH (cfl_abandonedBelow l)"
  shows "cfl_shape l'" "cfl_start l' = cfl_start l" "cfl_scannedThrough l' = cfl_scannedThrough l"
    "cfl_requestedThrough l' = max (cfl_requestedThrough l) stopH"
    "cfl_abandonedBelow l' = cfl_abandonedBelow l" "cfl_parks l' = cfl_parks l"
    "set (cfl_heights l') \<subseteq> set (cfl_heights l) \<union> {low..stopH}"
    "x \<in> set (cfl_heights l) \<union> {low..stopH} \<Longrightarrow> x \<notin> set (cfl_heights l') \<Longrightarrow>
     x \<noteq> CF_LEDGER_NO_DROP \<Longrightarrow> \<exists>a b. r = Some (a, b) \<and> 0 < n \<and> a \<le> x \<and> x \<le> b"
proof -
  obtain n0 a b l1 where loop:
    "recordLoop low stopH p q t 0 CF_LEDGER_NO_DROP 0 l = (n0, a, b, l1)"
    by (metis prod_cases4)
  have low: "(if startH < cfl_abandonedBelow l then cfl_abandonedBelow l else startH) = low"
    by (auto simp: low_def max_def)
  have "low \<le> stopH" using assms(2,3) by (simp add: low_def)
  note post = recordLoop_post [OF assms(1) this loop]
  have "BRCFScanLedgerRecordRequestedDropped l startH stopH p q t =
      (n0, Some (if n0 \<noteq> 0 then a else CF_LEDGER_NO_DROP, if n0 \<noteq> 0 then b else CF_LEDGER_NO_DROP),
       if stopH > cfl_requestedThrough l1 then l1\<lparr>cfl_requestedThrough := stopH\<rparr> else l1)"
    using assms(2,3) \<open>low \<le> stopH\<close>
    by (simp add: BRCFScanLedgerRecordRequestedDropped_def Let_def low loop not_less [symmetric])
  from trans [OF rec [symmetric] this] have eq: "n = n0" "r = Some (if n0 \<noteq> 0 then a else CF_LEDGER_NO_DROP,
        if n0 \<noteq> 0 then b else CF_LEDGER_NO_DROP)"
    "l' = (if stopH > cfl_requestedThrough l1 then l1\<lparr>cfl_requestedThrough := stopH\<rparr> else l1)"
    by (simp_all only: prod.inject)
  note m = cfl_marksD [of l1 l]
  have req: "cfl_requestedThrough l' = max (cfl_requestedThrough l1) stopH"
    by (auto simp: eq(3) max_def)
  show "cfl_shape l'" using post by (auto simp: eq(3) intro: cfl_shapeI)
  show "cfl_start l' = cfl_start l" "cfl_scannedThrough l' = cfl_scannedThrough l"
    "cfl_abandonedBelow l' = cfl_abandonedBelow l"
    using post m by (simp_all add: eq(3))
  show "cfl_requestedThrough l' = max (cfl_requestedThrough l) stopH"
    using req m post by simp
  show "cfl_parks l' = cfl_parks l" using post by (simp add: eq(3) cfl_parks_def)
  have h: "cfl_heights l' = cfl_heights l1" by (simp add: eq(3))
  show "set (cfl_heights l') \<subseteq> set (cfl_heights l) \<union> {low..stopH}"
    unfolding h using post by blast
  assume "x \<in> set (cfl_heights l) \<union> {low..stopH}" "x \<notin> set (cfl_heights l')"
    "x \<noteq> CF_LEDGER_NO_DROP"
  then have "0 < n0 \<and> a \<le> x \<and> x \<le> b" using post unfolding h by blast
  then show "\<exists>a b. r = Some (a, b) \<and> 0 < n \<and> a \<le> x \<and> x \<le> b" by (simp add: eq)
qed

lemma RecordRequestedDropped_wf:
  assumes "cfl_wf l" and rec: "BRCFScanLedgerRecordRequestedDropped l startH stopH p q t = (n, r, l')"
  shows "cfl_wf l'"
proof (cases "stopH < startH \<or> stopH < cfl_abandonedBelow l")
  case True
  then show ?thesis
    using RecordRequestedDropped_noop [OF True, of p q t] rec assms(1) by simp
next
  case False
  then have le: "startH \<le> stopH" "cfl_abandonedBelow l \<le> stopH" by auto
  note post = RecordRequestedDropped_post [OF cfl_wfD(3) [OF assms(1)] le rec]
  note bounds = cfl_wfD [OF assms(1)]
  have sub: "holes l' \<subseteq> holes l \<union> {max startH (cfl_abandonedBelow l)..stopH}"
    using post(7) cfl_parksD(1) [OF post(6)] by (auto simp: holes_def)
  have "cfl_abandonedBelow l \<le> h \<and> h \<le> max (cfl_requestedThrough l) stopH" if "h \<in> holes l'" for h
    using that sub bounds(4,5) by (fastforce simp: le_max_iff_disj)
  then show ?thesis
    using post bounds(6) by (simp add: cfl_wf_def le_max_iff_disj)
qed

lemma MarkEvaluated_holes:
  assumes "cfl_shape l"
  shows "holes (BRCFScanLedgerMarkEvaluated l h) = holes l - {h}"
    and "cfl_shape (BRCFScanLedgerMarkEvaluated l h)"
proof -
  define l1 where "l1 = (let i = cfLedgerLowerBound l h in
     if i < length (cfl_outstanding l) \<and> cfo_height (cfl_outstanding l ! i) = h
     then l\<lparr>cfl_outstanding := remove_at i (cfl_outstanding l)\<rparr> else l)"
  note sh = cfl_shapeD [OF assms]
  have hs: "cfl_heights l1 = (if h \<in> set (cfl_heights l)
      then remove_at (lower_bound (cfl_heights l) h) (cfl_heights l) else cfl_heights l)"
    using outstanding_hit [OF sh(1), of h]
    by (auto simp: l1_def Let_def map_remove_at cfLedgerLowerBound_heights)
  have set1: "set (cfl_heights l1) = set (cfl_heights l) - {h}"
    unfolding hs using set_remove_lower_bound [OF sh(1), of h] by simp
  have rest: "cfl_gaveUp l1 = cfl_gaveUp l" "cfl_gaveUpRearmCycles l1 = cfl_gaveUpRearmCycles l"
    "cfl_gaveUpOffersLive l1 = cfl_gaveUpOffersLive l"
    by (simp_all add: l1_def Let_def)
  have eq: "BRCFScanLedgerMarkEvaluated l h = cfLedgerAdvance (cfLedgerRemoveGaveUp l1 h)"
    by (simp add: BRCFScanLedgerMarkEvaluated_def l1_def Let_def)
  show "holes (BRCFScanLedgerMarkEvaluated l h) = holes l - {h}"
    using cfLedgerRemoveGaveUp_set [of l1 h] sh(2) set1 rest
    by (auto simp: eq holes_def simp del: set_map)
  have len: "length (cfl_outstanding l1) \<le> CF_OUTSTANDING_MAX"
  proof -
    have "length (cfl_heights l1) \<le> length (cfl_heights l)"
      using lower_bound_hit [OF sh(1), of h] unfolding hs by auto
    then show ?thesis using sh(5) by simp
  qed
  have "sorted_wrt (<) (cfl_heights l1)"
    unfolding hs using sh(1) by (simp add: remove_at_sorted)
  then show "cfl_shape (BRCFScanLedgerMarkEvaluated l h)"
    using sh len cfLedgerRemoveGaveUp_length [of l1 h] cfLedgerRemoveGaveUp_sorted [of l1 h]
      cfLedgerRemoveGaveUp_parallel [of l1 h] rest
    by (simp add: eq cfl_shape_def)
qed

lemma MarkEvaluated_frame [simp]:
  "cfl_start (BRCFScanLedgerMarkEvaluated l h) = cfl_start l"
  "cfl_requestedThrough (BRCFScanLedgerMarkEvaluated l h) = cfl_requestedThrough l"
  "cfl_abandonedBelow (BRCFScanLedgerMarkEvaluated l h) = cfl_abandonedBelow l"
  by (simp_all add: BRCFScanLedgerMarkEvaluated_def Let_def)

lemma MarkEvaluated_wf:
  assumes "cfl_wf l"
  shows "cfl_wf (BRCFScanLedgerMarkEvaluated l h)"
proof -
  define l0 where "l0 = cfLedgerRemoveGaveUp (let i = cfLedgerLowerBound l h in
     if i < length (cfl_outstanding l) \<and> cfo_height (cfl_outstanding l ! i) = h
     then l\<lparr>cfl_outstanding := remove_at i (cfl_outstanding l)\<rparr> else l) h"
  have eq: "BRCFScanLedgerMarkEvaluated l h = cfLedgerAdvance l0"
    by (simp add: BRCFScanLedgerMarkEvaluated_def l0_def Let_def)
  have "cfl_scannedThrough l0 = cfl_scannedThrough l"
    "cfl_requestedThrough l0 = cfl_requestedThrough l"
    by (simp_all add: l0_def Let_def)
  then have "cfl_scannedThrough (cfLedgerAdvance l0) \<le> cfl_requestedThrough l"
    using cfLedgerAdvance_requested [of l0] cfl_wfD(6) [OF assms] by simp
  then show ?thesis
    using MarkEvaluated_holes [OF cfl_wfD(3) [OF assms], of h] cfl_wfD(4,5) [OF assms]
    by (simp add: cfl_wf_def eq [symmetric])
qed

text \<open>Operations that rewrite entries in place keep every height.\<close>

lemma cfl_wf_same_heights:
  assumes "cfl_wf l" and "cfl_heights l' = cfl_heights l" and "cfl_parks l' = cfl_parks l"
    and "cfl_marks l' = cfl_marks l"
  shows "cfl_wf l'" and "holes l' = holes l"
proof -
  note p = cfl_parksD [OF assms(3)] and m = cfl_marksD [OF assms(4)]
  show "holes l' = holes l" using assms(2) p by (simp add: holes_def del: set_map)
  moreover have "cfl_shape l'"
    using cfl_shapeI [OF cfl_wfD(3) [OF assms(1)] assms(2)] p by simp
  ultimately show "cfl_wf l'" using assms(1) m by (simp add: cfl_wf_def)
qed

lemma ReArmPeer_same:
  "cfl_heights (BRCFScanLedgerReArmPeer l p q) = cfl_heights l"
  "cfl_parks (BRCFScanLedgerReArmPeer l p q) = cfl_parks l"
  "cfl_marks (BRCFScanLedgerReArmPeer l p q) = cfl_marks l"
  by (simp_all add: BRCFScanLedgerReArmPeer_def cfl_parks_def cfl_marks_def comp_def)

lemma CommitRerequest_same:
  "cfl_heights (BRCFScanLedgerCommitRerequest l a b p q t) = cfl_heights l"
  "cfl_parks (BRCFScanLedgerCommitRerequest l a b p q t) = cfl_parks l"
  "cfl_marks (BRCFScanLedgerCommitRerequest l a b p q t) = cfl_marks l"
  by (simp_all add: BRCFScanLedgerCommitRerequest_def cfl_parks_def cfl_marks_def comp_def)

lemma MarkOffersMissed_same:
  "cfl_heights (BRCFScanLedgerMarkOffersMissedLivePeer l a b) = cfl_heights l"
  "cfl_parks (BRCFScanLedgerMarkOffersMissedLivePeer l a b) = cfl_parks l"
  "cfl_marks (BRCFScanLedgerMarkOffersMissedLivePeer l a b) = cfl_marks l"
  by (simp_all add: BRCFScanLedgerMarkOffersMissedLivePeer_def cfl_parks_def cfl_marks_def comp_def)

lemma set_headerRace_same:
  "cfl_heights (set_headerRace l i) = cfl_heights l"
  "cfl_parks (set_headerRace l i) = cfl_parks l"
  "cfl_marks (set_headerRace l i) = cfl_marks l"
  by (simp_all add: set_headerRace_def cfl_parks_def cfl_marks_def)

lemmas ReArmPeer_wf = cfl_wf_same_heights [OF _ ReArmPeer_same]
lemmas CommitRerequest_wf = cfl_wf_same_heights [OF _ CommitRerequest_same]
lemmas MarkOffersMissed_wf = cfl_wf_same_heights [OF _ MarkOffersMissed_same]

lemma offerFirstDue_heights: "map cfo_height (snd (offerFirstDue t es)) = map cfo_height es"
  by (induction t es rule: offerFirstDue.induct) (auto split: prod.splits)

subsection \<open>Header races\<close>

lemma MarkHeaderRace_below:
  "h < cfl_abandonedBelow l \<Longrightarrow> BRCFScanLedgerMarkHeaderRace l h = l"
  by (simp add: BRCFScanLedgerMarkHeaderRace_def)

lemma MarkHeaderRace_hit:
  assumes "cfl_shape l" "h \<in> set (cfl_heights l)" "cfl_abandonedBelow l \<le> h"
  shows "BRCFScanLedgerMarkHeaderRace l h = set_headerRace l (cfLedgerLowerBound l h)"
  using assms(3) outstanding_hit [OF cfl_shapeD(1) [OF assms(1)], of h] assms(2)
  by (simp add: BRCFScanLedgerMarkHeaderRace_def Let_def)

lemma MarkHeaderRace_miss:
  assumes "cfl_shape l" "h \<notin> set (cfl_heights l)" "cfl_abandonedBelow l \<le> h"
  obtains d l1 where "cfLedgerInsertOutstanding l h 0 0 0 = (d, l1)"
    "cfl_heights (BRCFScanLedgerMarkHeaderRace l h) = cfl_heights l1"
    "cfl_parks (BRCFScanLedgerMarkHeaderRace l h) = cfl_parks l"
    "cfl_start (BRCFScanLedgerMarkHeaderRace l h) = cfl_start l"
    "cfl_scannedThrough (BRCFScanLedgerMarkHeaderRace l h) = cfl_scannedThrough l"
    "cfl_abandonedBelow (BRCFScanLedgerMarkHeaderRace l h) = cfl_abandonedBelow l"
    "cfl_requestedThrough (BRCFScanLedgerMarkHeaderRace l h) = max (cfl_requestedThrough l) h"
proof -
  obtain d l1 where ins: "cfLedgerInsertOutstanding l h 0 0 0 = (d, l1)" by force
  note step = cfLedgerInsertOutstanding_step [OF assms(1) ins]
  define l2 where "l2 = set_headerRace l1 (cfLedgerLowerBound l1 h)"
  have l2: "cfl_heights l2 = cfl_heights l1" "cfl_parks l2 = cfl_parks l" "cfl_marks l2 = cfl_marks l"
    using set_headerRace_same [of l1] step(2,3) by (simp_all add: l2_def del: list.map)
  have eq: "BRCFScanLedgerMarkHeaderRace l h =
      (if h > cfl_requestedThrough l2 then l2\<lparr>cfl_requestedThrough := h\<rparr> else l2)"
    using assms(3) outstanding_hit [OF cfl_shapeD(1) [OF assms(1)], of h] assms(2)
      outstanding_hit [OF cfl_shapeD(1) [OF step(1)], of h] step(4)
    by (auto simp: BRCFScanLedgerMarkHeaderRace_def Let_def ins l2_def simp del: set_map)
  show thesis
    by (rule that [OF ins]) (use l2 in \<open>auto simp: eq cfl_marks_def cfl_parks_def max_def\<close>)
qed

lemma MarkHeaderRace_wf:
  assumes wf: "cfl_wf l"
  shows "cfl_wf (BRCFScanLedgerMarkHeaderRace l h)"
proof -
  note sh = cfl_wfD(3) [OF wf]
  consider "h < cfl_abandonedBelow l" | "cfl_abandonedBelow l \<le> h" "h \<in> set (cfl_heights l)"
    | "cfl_abandonedBelow l \<le> h" "h \<notin> set (cfl_heights l)" by fastforce
  then show ?thesis
  proof cases
    case 1
    then show ?thesis using wf by (simp add: MarkHeaderRace_below)
  next
    case 2
    then show ?thesis
      using cfl_wf_same_heights(1) [OF wf set_headerRace_same] by (simp add: MarkHeaderRace_hit [OF sh])
  next
    case 3
    let ?l = "BRCFScanLedgerMarkHeaderRace l h"
    obtain d l1 where ins: "cfLedgerInsertOutstanding l h 0 0 0 = (d, l1)"
      and hs: "cfl_heights ?l = cfl_heights l1" and parks: "cfl_parks ?l = cfl_parks l"
      and marks: "cfl_scannedThrough ?l = cfl_scannedThrough l"
        "cfl_abandonedBelow ?l = cfl_abandonedBelow l"
        "cfl_requestedThrough ?l = max (cfl_requestedThrough l) h"
      using MarkHeaderRace_miss [OF sh 3(2) 3(1)] by metis
    note step = cfLedgerInsertOutstanding_step [OF sh ins]
    have shape: "cfl_shape ?l"
      by (rule cfl_shapeI [OF step(1) hs])
         (use cfl_parksD [OF parks] cfl_parksD [OF step(3)] in simp_all)
    have "holes ?l \<subseteq> insert h (holes l)"
      using step(5) cfl_parksD(1) [OF parks] unfolding holes_def hs by auto
    then show ?thesis
      using shape marks 3(1) cfl_wfD(4,5,6) [OF wf]
      by (auto simp: cfl_wf_def le_max_iff_disj)
  qed
qed

subsection \<open>Retiring capped heights\<close>

lemma set_insert_at_remove_at:
  "i < length xs \<Longrightarrow> insert (xs ! i) (set (remove_at i xs)) = set xs"
  unfolding remove_at_def
  by (metis Un_insert_right id_take_nth_drop list.simps(15) set_append)

lemma move_element: "x \<in> A \<Longrightarrow> (A - {x}) \<union> insert x B = A \<union> B"
  by auto

lemma MoveToGaveUp_step:
  assumes "cfl_shape l" and i: "i < length (cfl_outstanding l)"
    and mv: "cfLedgerMoveToGaveUp l i = (moved, l')"
  shows "cfl_shape l'" "cfl_marks l' = cfl_marks l" "holes l' = holes l"
    "moved \<Longrightarrow> cfl_outstanding l' = remove_at i (cfl_outstanding l)"
    "moved \<Longrightarrow> set (cfl_gaveUp l') = insert (cfl_heights l ! i) (set (cfl_gaveUp l))"
    "length (cfl_gaveUp l) \<le> length (cfl_gaveUp l')"
    "\<not> moved \<Longrightarrow> l' = l" "\<not> moved \<Longrightarrow> length (cfl_gaveUp l) = CF_GAVEUP_MAX"
proof -
  let ?e = "cfl_outstanding l ! i"
  note sh = cfl_shapeD [OF assms(1)]
  obtain b l1 where add: "cfLedgerAddGaveUp l (cfo_height ?e) (cfo_rearmCycles ?e)
      (cfo_offersReachedLivePeer ?e) = (b, l1)" by force
  then have l1: "l1 = snd (cfLedgerAddGaveUp l (cfo_height ?e) (cfo_rearmCycles ?e)
      (cfo_offersReachedLivePeer ?e))"
    and b: "b = fst (cfLedgerAddGaveUp l (cfo_height ?e) (cfo_rearmCycles ?e)
      (cfo_offersReachedLivePeer ?e))" by simp_all
  have out: "cfl_outstanding l1 = cfl_outstanding l" by (simp add: l1)
  have moved: "moved = b" and l': "l' = (if b then l1\<lparr>cfl_outstanding :=
      remove_at i (cfl_outstanding l1)\<rparr> else l1)"
    using mv add by (auto simp: cfLedgerMoveToGaveUp_def Let_def split: bool.splits)
  show kept: "\<not> moved \<Longrightarrow> l' = l"
    using cfLedgerAddGaveUp_full [OF sh(2)] by (simp add: moved l' b l1)
  show "\<not> moved \<Longrightarrow> length (cfl_gaveUp l) = CF_GAVEUP_MAX"
    using cfLedgerAddGaveUp_fst [OF sh(2)] sh(6) by (auto simp: moved b)
  show rem: "moved \<Longrightarrow> cfl_outstanding l' = remove_at i (cfl_outstanding l)"
    by (simp add: moved l' out)
  show set: "moved \<Longrightarrow> set (cfl_gaveUp l') = insert (cfl_heights l ! i) (set (cfl_gaveUp l))"
    using cfLedgerAddGaveUp_set [OF sh(2)] i by (simp add: moved b l' l1)
  show "length (cfl_gaveUp l) \<le> length (cfl_gaveUp l')"
    using cfLedgerAddGaveUp_gaveUp [OF sh(2)] by (simp add: l' l1)
  show "cfl_marks l' = cfl_marks l" by (simp add: l' l1 cfl_marks_def)
  show "holes l' = holes l"
  proof (cases moved)
    case True
    have "set (cfl_heights l') = set (cfl_heights l) - {cfl_heights l ! i}"
      using set_remove_at [OF sorted_wrt_less_distinct [OF sh(1)], of i] i
      by (simp add: rem [OF True] map_remove_at)
    moreover have "cfl_heights l ! i \<in> set (cfl_heights l)" using i by simp
    ultimately show ?thesis
      unfolding holes_def set [OF True] by (simp only: move_element)
  qed (simp add: kept)
  show "cfl_shape l'"
  proof (cases moved)
    case True
    have "sorted_wrt (<) (cfl_heights l')"
      using remove_at_sorted [OF sh(1)] by (simp add: rem [OF True] map_remove_at)
    moreover have "length (cfl_outstanding l') \<le> CF_OUTSTANDING_MAX"
      using rem [OF True] i sh(5) by simp
    ultimately show ?thesis
      using cfLedgerAddGaveUp_sorted [OF sh(2)] cfLedgerAddGaveUp_length [OF sh(2) sh(6)]
        cfLedgerAddGaveUp_parallel [OF sh(3,4)] True
      by (simp add: cfl_shape_def l' moved l1)
  qed (use kept assms(1) in simp)
qed


text \<open>
  Retiring loses no height: every hole stays a hole, entries under the cap stay where they are, and
  a capped entry is left outstanding only when \<open>gaveUp\<close> is full.
\<close>

lemma retireFrom_post:
  assumes "cfl_shape l"
    and "\<forall>j<i. j < length (cfl_outstanding l) \<longrightarrow>
      cfLedgerOutstandingIsParked (cfl_outstanding l ! j) \<longrightarrow> length (cfl_gaveUp l) = CF_GAVEUP_MAX"
  shows "cfl_shape (retireFrom i l) \<and> cfl_marks (retireFrom i l) = cfl_marks l \<and>
    holes (retireFrom i l) = holes l \<and>
    set (cfl_outstanding (retireFrom i l)) \<subseteq> set (cfl_outstanding l) \<and>
    (\<forall>e\<in>set (cfl_outstanding l). \<not> cfLedgerOutstandingIsParked e \<longrightarrow>
       e \<in> set (cfl_outstanding (retireFrom i l))) \<and>
    (\<forall>e\<in>set (cfl_outstanding (retireFrom i l)). cfLedgerOutstandingIsParked e \<longrightarrow>
       length (cfl_gaveUp (retireFrom i l)) = CF_GAVEUP_MAX)"
  using assms
proof (induction i l rule: retireFrom.induct)
  case (1 i l)
  show ?case
  proof (cases "i < length (cfl_outstanding l)")
    case i: False
    then have "retireFrom i l = l" by (simp add: retireFrom.simps [of i l])
    moreover have "\<forall>e\<in>set (cfl_outstanding l). cfLedgerOutstandingIsParked e \<longrightarrow>
        length (cfl_gaveUp l) = CF_GAVEUP_MAX"
      using "1.prems"(2) i by (metis in_set_conv_nth not_less order_less_le_trans)
    ultimately show ?thesis using "1.prems"(1) by simp
  next
    case i: True
    show ?thesis
    proof (cases "cfLedgerOutstandingIsParked (cfl_outstanding l ! i)")
      case False
      then have un: "retireFrom i l = retireFrom (Suc i) l"
        using i by (simp add: retireFrom.simps [of i l] cfLedgerOutstandingIsParked_def)
      show ?thesis
        unfolding un
        by (rule "1.IH"(3)) (use i False "1.prems" in
          \<open>auto simp: cfLedgerOutstandingIsParked_def less_Suc_eq\<close>)
    next
      case parked: True
      obtain moved l' where mv: "cfLedgerMoveToGaveUp l i = (moved, l')" by force
      note step = MoveToGaveUp_step [OF "1.prems"(1) i mv]
      show ?thesis
      proof (cases moved)
        case False
        then have un: "retireFrom i l = retireFrom (Suc i) l"
          using i parked mv step(7)
          by (simp add: retireFrom.simps [of i l] cfLedgerOutstandingIsParked_def)
        show ?thesis
          unfolding un
          using "1.IH"(2) [OF i _ mv [symmetric] False] step(7,8) False parked "1.prems"
          by (auto simp: cfLedgerOutstandingIsParked_def less_Suc_eq)
      next
        case True
        then have un: "retireFrom i l = retireFrom i l'"
          using i parked mv
          by (simp add: retireFrom.simps [of i l] cfLedgerOutstandingIsParked_def)
        have rem: "cfl_outstanding l' = remove_at i (cfl_outstanding l)"
          using step(4) True .
        have split: "set (cfl_outstanding l) =
            insert (cfl_outstanding l ! i) (set (cfl_outstanding l'))"
          using set_insert_at_remove_at [of i "cfl_outstanding l"] i by (simp add: rem)
        have nth: "cfl_outstanding l' ! j = cfl_outstanding l ! j" if "j < i" for j
          using that i by (simp add: rem remove_at_def nth_append)
        have full: "length (cfl_gaveUp l') = CF_GAVEUP_MAX"
          if "length (cfl_gaveUp l) = CF_GAVEUP_MAX"
          using that step(6) cfl_shapeD(6) [OF step(1)] by simp
        have "\<forall>j<i. j < length (cfl_outstanding l') \<longrightarrow>
            cfLedgerOutstandingIsParked (cfl_outstanding l' ! j) \<longrightarrow>
            length (cfl_gaveUp l') = CF_GAVEUP_MAX"
          using "1.prems"(2) nth full i by auto
        from "1.IH"(1) [OF i _ mv [symmetric] True step(1) this]
        show ?thesis
          unfolding un using step(2,3) parked split
          by (auto simp: cfLedgerOutstandingIsParked_def)
      qed
    qed
  qed
qed


lemma RetireCapped_post:
  assumes "cfl_shape l"
  defines "l' \<equiv> BRCFScanLedgerRetireCapped l"
  shows "cfl_shape l'" "cfl_marks l' = cfl_marks l" "holes l' = holes l"
    "set (cfl_outstanding l') \<subseteq> set (cfl_outstanding l)"
    "e \<in> set (cfl_outstanding l) \<Longrightarrow> \<not> cfLedgerOutstandingIsParked e \<Longrightarrow>
     e \<in> set (cfl_outstanding l')"
    "e \<in> set (cfl_outstanding l') \<Longrightarrow> cfLedgerOutstandingIsParked e \<Longrightarrow>
     length (cfl_gaveUp l') = CF_GAVEUP_MAX"
  using retireFrom_post [of l 0] assms by (auto simp: BRCFScanLedgerRetireCapped_def)

lemma cfl_wf_same_holes:
  assumes "cfl_wf l" "cfl_shape l'" "cfl_marks l' = cfl_marks l" "holes l' = holes l"
  shows "cfl_wf l'"
  using assms cfl_marksD [OF assms(3)] by (simp add: cfl_wf_def)

lemma RetireCapped_wf: "cfl_wf l \<Longrightarrow> cfl_wf (BRCFScanLedgerRetireCapped l)"
  using RetireCapped_post(1-3) by (metis cfl_wf_same_holes cfl_wfD(3))

lemma NextRerequest_post:
  fixes now
  assumes "cfl_shape l"
  defines "l' \<equiv> snd (BRCFScanLedgerNextRerequest l now)"
  shows "cfl_shape l'" "cfl_marks l' = cfl_marks l" "holes l' = holes l"
proof -
  define l1 where "l1 = BRCFScanLedgerRetireCapped l"
  note r = RetireCapped_post [OF assms(1), folded l1_def]
  have eq: "l' = l1\<lparr>cfl_lastDriveAt := now,
      cfl_outstanding := snd (offerFirstDue now (cfl_outstanding l1))\<rparr>"
    by (simp add: l'_def l1_def BRCFScanLedgerNextRerequest_def Let_def split: prod.splits)
  have hs: "cfl_heights l' = cfl_heights l1"
    by (simp add: eq offerFirstDue_heights)
  show "cfl_shape l'" using r(1) hs by (rule cfl_shapeI) (simp_all add: eq)
  show "cfl_marks l' = cfl_marks l" using r(2) by (simp add: eq cfl_marks_def)
  show "holes l' = holes l"
    using r(3) hs unfolding holes_def by (simp add: eq offerFirstDue_heights)
qed

lemma NextRerequest_wf: "cfl_wf l \<Longrightarrow> cfl_wf (snd (BRCFScanLedgerNextRerequest l now))"
  using NextRerequest_post by (metis cfl_wf_same_holes cfl_wfD(3))

subsection \<open>Re-arming a parked height\<close>

lemma gaveUp_hit_not:
  assumes "sorted_wrt (<) (cfl_gaveUp l)"
  shows "(gaveUpLowerBound l h \<ge> length (cfl_gaveUp l) \<or> cfl_gaveUp l ! gaveUpLowerBound l h \<noteq> h)
    \<longleftrightarrow> h \<notin> set (cfl_gaveUp l)"
  using gaveUp_hit [OF assms, of h] by (meson not_less)

lemma ReArmGaveUp_refuse:
  assumes "cfl_shape l" and "h < cfl_abandonedBelow l \<or> h \<notin> set (cfl_gaveUp l) \<or>
    length (cfl_outstanding l) \<ge> CF_OUTSTANDING_MAX"
  shows "BRCFScanLedgerReArmGaveUp l h = (False, l)"
  using assms(2) gaveUp_hit_not [OF cfl_shapeD(2) [OF assms(1)], of h]
  by (auto simp: BRCFScanLedgerReArmGaveUp_def Let_def)

lemma GaveUpShiftDown_shape:
  assumes "cfl_shape l" and "i < length (cfl_gaveUp l)"
  shows "cfl_shape (cfLedgerGaveUpShiftDown l i)"
  using assms remove_at_sorted [of "(<)" "cfl_gaveUp l" i]
  by (auto simp: cfl_shape_def cfLedgerGaveUpShiftDown_def)

text \<open>An accepted re-arm moves the height from the parked array to the outstanding one.\<close>

lemma ReArmGaveUp_accept:
  assumes "cfl_shape l" and "cfl_abandonedBelow l \<le> h" and "h \<in> set (cfl_gaveUp l)"
    and "length (cfl_outstanding l) < CF_OUTSTANDING_MAX"
  obtains l' where "BRCFScanLedgerReArmGaveUp l h = (True, l')" "cfl_shape l'"
    "set (cfl_heights l') = insert h (set (cfl_heights l))"
    "set (cfl_gaveUp l') = set (cfl_gaveUp l) - {h}"
    "cfl_start l' = cfl_start l" "cfl_abandonedBelow l' = cfl_abandonedBelow l"
    "cfl_requestedThrough l' = max (cfl_requestedThrough l) h"
    "cfl_scannedThrough l \<le> cfl_scannedThrough l'"
    "cfl_scannedThrough l \<le> cfl_requestedThrough l \<Longrightarrow>
     cfl_scannedThrough l' \<le> cfl_requestedThrough l'"
    "\<exists>l0. l' = cfLedgerAdvance l0 \<and> cfl_scannedThrough l0 = cfl_scannedThrough l"
proof -
  note sh = cfl_shapeD [OF assms(1)]
  let ?g = "gaveUpLowerBound l h"
  have g: "?g < length (cfl_gaveUp l)" "cfl_gaveUp l ! ?g = h"
    using gaveUp_hit [OF sh(2), of h] assms(3) by simp_all
  define l1 where "l1 = cfLedgerGaveUpShiftDown l ?g"
  have l1: "cfl_shape l1" "cfl_outstanding l1 = cfl_outstanding l" "cfl_marks l1 = cfl_marks l"
    using GaveUpShiftDown_shape [OF assms(1) g(1)]
    by (simp_all add: l1_def cfLedgerGaveUpShiftDown_def cfl_marks_def)
  have l1g: "set (cfl_gaveUp l1) = set (cfl_gaveUp l) - {h}"
    using set_remove_at [OF sorted_wrt_less_distinct [OF sh(2)] g(1)] g(2)
    by (simp add: l1_def cfLedgerGaveUpShiftDown_def)
  obtain d l2 where ins: "cfLedgerInsertOutstanding l1 h 0 0 0 = (d, l2)" by force
  note step = cfLedgerInsertOutstanding_step [OF l1(1) ins]
  have "set (cfl_heights (snd (cfLedgerInsertOutstanding l1 h 0 0 0))) = insert h (set (cfl_heights l1))"
    using assms(4) l1(2) by (subst cfLedgerInsertOutstanding_set [OF cfl_shapeD(1) [OF l1(1)]]) auto
  then have set2: "set (cfl_heights l2) = insert h (set (cfl_heights l))"
    using l1(2) by (simp add: ins)
  let ?i = "cfLedgerLowerBound l2 h"
  have i: "?i < length (cfl_outstanding l2)" "cfo_height (cfl_outstanding l2 ! ?i) = h"
    using outstanding_hit [OF cfl_shapeD(1) [OF step(1)], of h] step(4) by simp_all
  define e where "e = (cfl_outstanding l2 ! ?i)\<lparr>cfo_attempts := 0, cfo_headerRace := 0,
      cfo_rearmCycles := saturating_inc (cfl_gaveUpRearmCycles l ! ?g),
      cfo_offersReachedLivePeer := 1\<rparr>"
  define l3 where "l3 = l2\<lparr>cfl_outstanding := (cfl_outstanding l2)[?i := e]\<rparr>"
  define l4 where "l4 = (if h > cfl_requestedThrough l3 then l3\<lparr>cfl_requestedThrough := h\<rparr> else l3)"
  have eq: "BRCFScanLedgerReArmGaveUp l h = (True, cfLedgerAdvance l4)"
    using assms(2,4) g i
    by (simp add: BRCFScanLedgerReArmGaveUp_def Let_def not_less [symmetric] ins l4_def l3_def
        e_def l1_def [symmetric] del: set_map)
  have h3: "cfl_heights l3 = cfl_heights l2"
    using i by (simp add: l3_def e_def)
  have m: "cfl_marks l3 = cfl_marks l" "cfl_parks l3 = cfl_parks l1"
    using step(2,3) l1(3) by (simp_all add: l3_def cfl_marks_def cfl_parks_def)
  have sh4: "cfl_shape l4"
    by (rule cfl_shapeI [OF step(1)])
       (use h3 cfl_parksD [OF m(2)] cfl_parksD [OF step(3)] in \<open>simp_all add: l4_def\<close>)
  have f4: "cfl_heights l4 = cfl_heights l2" "cfl_gaveUp l4 = cfl_gaveUp l1"
    "cfl_start l4 = cfl_start l" "cfl_abandonedBelow l4 = cfl_abandonedBelow l"
    "cfl_requestedThrough l4 = max (cfl_requestedThrough l) h"
    "cfl_scannedThrough l4 = cfl_scannedThrough l"
    using h3 cfl_parksD [OF m(2)] cfl_marksD [OF m(1)] by (auto simp: l4_def max_def)
  show thesis
  proof (rule that [OF eq])
    show "cfl_shape (cfLedgerAdvance l4)"
      using sh4 by (simp add: cfl_shape_def)
    show "cfl_scannedThrough l \<le> cfl_scannedThrough (cfLedgerAdvance l4)"
      using cfLedgerAdvance_mono [of l4] f4(6) by simp
    show "cfl_scannedThrough (cfLedgerAdvance l4) \<le> cfl_requestedThrough (cfLedgerAdvance l4)"
      if "cfl_scannedThrough l \<le> cfl_requestedThrough l"
      using that cfLedgerAdvance_requested [of l4] f4(5,6) by (simp add: le_max_iff_disj)
    show "set (cfl_heights (cfLedgerAdvance l4)) = insert h (set (cfl_heights l))"
      using set2 f4(1) by (simp del: set_map)
    show "\<exists>l0. cfLedgerAdvance l4 = cfLedgerAdvance l0 \<and>
        cfl_scannedThrough l0 = cfl_scannedThrough l"
      using f4(6) by blast
  qed (use f4 l1g in simp_all)
qed

lemma ReArmGaveUp_holes:
  assumes "cfl_wf l"
  shows "holes (snd (BRCFScanLedgerReArmGaveUp l h)) = holes l"
    and "cfl_wf (snd (BRCFScanLedgerReArmGaveUp l h))"
proof -
  note sh = cfl_wfD(3) [OF assms]
  have "holes (snd (BRCFScanLedgerReArmGaveUp l h)) = holes l \<and>
      cfl_wf (snd (BRCFScanLedgerReArmGaveUp l h))"
  proof (cases "h < cfl_abandonedBelow l \<or> h \<notin> set (cfl_gaveUp l) \<or>
      length (cfl_outstanding l) \<ge> CF_OUTSTANDING_MAX")
    case True
    then show ?thesis using assms ReArmGaveUp_refuse [OF sh True] by simp
  next
    case False
    then have acc: "cfl_abandonedBelow l \<le> h" "h \<in> set (cfl_gaveUp l)"
      "length (cfl_outstanding l) < CF_OUTSTANDING_MAX" by auto
    obtain l' where l': "BRCFScanLedgerReArmGaveUp l h = (True, l')" "cfl_shape l'"
      "set (cfl_heights l') = insert h (set (cfl_heights l))"
      "set (cfl_gaveUp l') = set (cfl_gaveUp l) - {h}"
      "cfl_abandonedBelow l' = cfl_abandonedBelow l"
      "cfl_requestedThrough l' = max (cfl_requestedThrough l) h"
      "cfl_scannedThrough l' \<le> cfl_requestedThrough l'"
      using ReArmGaveUp_accept [OF sh acc] cfl_wfD(6) [OF assms] by metis
    have same: "holes l' = holes l"
      using acc(2) unfolding holes_def l'(3,4) by auto
    have "h \<le> cfl_requestedThrough l"
      using acc(2) cfl_wfD(5) [OF assms, of h] by (simp add: holes_def)
    then have "cfl_requestedThrough l' = cfl_requestedThrough l"
      using l'(6) by (simp add: max_def)
    then have "cfl_wf l'"
      using assms l'(2,5,7) same by (simp add: cfl_wf_def)
    then show ?thesis using same l'(1) by simp
  qed
  then show "holes (snd (BRCFScanLedgerReArmGaveUp l h)) = holes l"
    and "cfl_wf (snd (BRCFScanLedgerReArmGaveUp l h))" by simp_all
qed

text \<open>The in-place re-arm of a capped outstanding entry.\<close>

definition rearm_entry :: "cf_outstanding \<Rightarrow> cf_outstanding" where
  "rearm_entry e = e\<lparr>cfo_attempts := 0, cfo_requestedAt := 0, cfo_peer := 0, cfo_port := 0,
     cfo_headerRace := 0, cfo_rearmCycles := saturating_inc (cfo_rearmCycles e),
     cfo_offersReachedLivePeer := 1\<rparr>"

lemma rearmRunLoop_Suc:
  "rearmRunLoop (Suc k) n h l =
     (if h < cfl_abandonedBelow l then (n, l)
      else
        let i = cfLedgerLowerBound l h in
        if i < length (cfl_outstanding l) \<and> cfo_height (cfl_outstanding l ! i) = h then
          if \<not> cfLedgerOutstandingIsParked (cfl_outstanding l ! i) then (n, l)
          else
            let l = l\<lparr>cfl_outstanding := (cfl_outstanding l)[i := rearm_entry (cfl_outstanding l ! i)]\<rparr>
            in if h = UINT32_MAX_VAL then (Suc n, l) else rearmRunLoop k (Suc n) (h + 1) l
        else if cfLedgerGaveUpIndex l h < length (cfl_gaveUp l) then
          (case BRCFScanLedgerReArmGaveUp l h of
             (False, l) \<Rightarrow> (n, l)
           | (True, l) \<Rightarrow>
               if h = UINT32_MAX_VAL then (Suc n, l) else rearmRunLoop k (Suc n) (h + 1) l)
        else (n, l))"
  by (simp add: rearm_entry_def Let_def)

lemma rearm_update_wf:
  assumes "cfl_wf l"
  defines "l' \<equiv> \<lambda>i. l\<lparr>cfl_outstanding := (cfl_outstanding l)[i := rearm_entry (cfl_outstanding l ! i)]\<rparr>"
  shows "cfl_wf (l' i)" and "holes (l' i) = holes l"
proof -
  have "cfl_heights (l' i) = cfl_heights l" "cfl_parks (l' i) = cfl_parks l"
    "cfl_marks (l' i) = cfl_marks l"
    by (simp_all add: l'_def rearm_entry_def cfl_parks_def cfl_marks_def)
  then show "cfl_wf (l' i)" and "holes (l' i) = holes l"
    using cfl_wf_same_heights assms(1) by blast+
qed

lemma rearmRunLoop_wf:
  assumes "cfl_wf l"
  shows "cfl_wf (snd (rearmRunLoop k n h l)) \<and> holes (snd (rearmRunLoop k n h l)) = holes l"
  using assms
proof (induction k arbitrary: n h l)
  case 0
  then show ?case by simp
next
  case (Suc k)
  obtain b l1 where re: "BRCFScanLedgerReArmGaveUp l h = (b, l1)" by force
  have l1: "cfl_wf l1" "holes l1 = holes l"
    using ReArmGaveUp_holes [OF Suc.prems, of h] by (simp_all add: re)
  show ?case
    unfolding rearmRunLoop_Suc Let_def re
    using Suc.IH [OF l1(1)] Suc.IH [OF rearm_update_wf(1) [OF Suc.prems]]
      rearm_update_wf [OF Suc.prems] Suc.prems l1
    by (simp split: bool.splits del: rearmRunLoop.simps)
qed

lemma ReArmParkedRun_wf:
  assumes "cfl_wf l"
  shows "cfl_wf (snd (BRCFScanLedgerReArmParkedRun l h k))"
    and "holes (snd (BRCFScanLedgerReArmParkedRun l h k)) = holes l"
  using rearmRunLoop_wf [OF assms, of k 0 h] cfLedgerAdvance_wf
  by (auto simp: BRCFScanLedgerReArmParkedRun_def split: prod.splits)

subsection \<open>The floor and the rewind\<close>

lemma RetireAbandonedTo_wf:
  assumes "cfl_wf l"
  shows "cfl_wf (snd (BRCFScanLedgerRetireAbandonedTo l f))"
    and "holes (snd (BRCFScanLedgerRetireAbandonedTo l f)) = holes l"
proof -
  let ?l = "l\<lparr>cfl_abandonedBelow := f\<rparr>"
  have "cfl_wf ?l" if "f < cfl_abandonedBelow l"
  proof -
    have "f \<le> h" if "h \<in> holes l" for h
      using cfl_wfD(4) [OF assms that] \<open>f < cfl_abandonedBelow l\<close> by simp
    then show ?thesis
      using assms by (simp add: cfl_wf_def cfl_shape_def holes_def)
  qed
  then show "cfl_wf (snd (BRCFScanLedgerRetireAbandonedTo l f))"
    using assms by (simp add: BRCFScanLedgerRetireAbandonedTo_def)
  show "holes (snd (BRCFScanLedgerRetireAbandonedTo l f)) = holes l"
    by (simp add: BRCFScanLedgerRetireAbandonedTo_def holes_def)
qed

lemma GaveUpDropPrefix_gaveUp:
  assumes "sorted_wrt (<) (cfl_gaveUp l)"
  shows "cfl_gaveUp (cfLedgerGaveUpDropPrefix l (gaveUpLowerBound l t)) =
    filter (\<lambda>g. t \<le> g) (cfl_gaveUp l)"
  by (simp add: cfLedgerGaveUpDropPrefix_def drop_lower_bound [OF assms])

lemma GaveUpDropPrefix_shape:
  "cfl_shape l \<Longrightarrow> cfl_shape (cfLedgerGaveUpDropPrefix l k)"
  by (auto simp: cfl_shape_def cfLedgerGaveUpDropPrefix_def sorted_wrt_drop)


lemma sorted_wrt_hd_Min:
  fixes xs :: "'a::linorder list"
  shows "sorted_wrt (<) xs \<Longrightarrow> xs \<noteq> [] \<Longrightarrow> hd xs = Min (set xs)"
  by (intro Min_eqI [symmetric]) (auto simp: sorted_wrt_less_hd_le)

lemma sorted_wrt_last_Max:
  fixes xs :: "'a::linorder list"
  assumes "sorted_wrt (<) xs" "xs \<noteq> []"
  shows "last xs = Max (set xs)"
proof -
  have "y \<le> last xs" if "y \<in> set xs" for y
    using assms that by (induction xs) (auto simp: le_less)
  then show ?thesis using assms(2) by (intro Max_eqI [symmetric]) auto
qed

text \<open>
  Abandoning parked heights: the heights dropped are exactly the parked ones below the target, the
  floor moves to just above the highest of them, and no outstanding height is below it.
\<close>

definition abandon_target :: "scan_ledger \<Rightarrow> u32 \<Rightarrow> u32" where
  "abandon_target l clamp =
     (case cfl_outstanding l of [] \<Rightarrow> clamp
      | e # _ \<Rightarrow> if cfo_height e < clamp then cfo_height e else clamp)"

lemma abandon_target_le_outstanding:
  assumes "sorted_wrt (<) (cfl_heights l)" and "h \<in> set (cfl_heights l)"
  shows "abandon_target l clamp \<le> h"
proof (cases "cfl_outstanding l")
  case Nil
  then show ?thesis using assms(2) by simp
next
  case (Cons e es)
  then have "cfo_height e \<le> h" using assms by auto
  then show ?thesis using Cons by (auto simp: abandon_target_def)
qed

lemma AbandonGaveUpBelow_post:
  assumes shape: "cfl_shape l"
    and ab: "BRCFScanLedgerAbandonGaveUpBelow l clamp = (low, k, lo, hi, l')"
  defines "t \<equiv> abandon_target l clamp"
  shows "cfl_shape l'" "cfl_outstanding l' = cfl_outstanding l"
    "cfl_gaveUp l' = filter (\<lambda>g. t \<le> g) (cfl_gaveUp l)"
    "k = length (filter (\<lambda>g. g < t) (cfl_gaveUp l))"
    "cfl_start l' = cfl_start l" "cfl_scannedThrough l' = cfl_scannedThrough l"
    "cfl_requestedThrough l' = cfl_requestedThrough l"
    "low = BRCFScanLedgerLowestNeededHeight l'"
    "k = 0 \<Longrightarrow> cfl_abandonedBelow l' = cfl_abandonedBelow l \<and> lo = CF_LEDGER_NO_DROP \<and>
       hi = CF_LEDGER_NO_DROP"
    "0 < k \<Longrightarrow> lo = Min {g \<in> set (cfl_gaveUp l). g < t} \<and>
       hi = Max {g \<in> set (cfl_gaveUp l). g < t} \<and>
       cfl_abandonedBelow l' = max (cfl_abandonedBelow l) (hi + 1)"
proof -
  note sh = cfl_shapeD [OF shape]
  let ?k = "gaveUpLowerBound l t"
  define l1 where "l1 = cfLedgerGaveUpDropPrefix l ?k"
  define lo1 where "lo1 = (if ?k > 0 then cfl_gaveUp l ! 0 else CF_LEDGER_NO_DROP)"
  define hi1 where "hi1 = (if ?k > 0 then cfl_gaveUp l ! (?k - 1) else CF_LEDGER_NO_DROP)"
  define l2 where "l2 = (if ?k > 0 \<and> hi1 + 1 > cfl_abandonedBelow l1
      then l1\<lparr>cfl_abandonedBelow := hi1 + 1\<rparr> else l1)"
  have "BRCFScanLedgerAbandonGaveUpBelow l clamp =
      (BRCFScanLedgerLowestNeededHeight l2, ?k, lo1, hi1, l2)"
    unfolding BRCFScanLedgerAbandonGaveUpBelow_def abandon_target_def [symmetric]
      t_def [symmetric] Let_def l1_def [symmetric] lo1_def [symmetric] hi1_def [symmetric]
      l2_def [symmetric] ..
  from trans [OF ab [symmetric] this]
  have eq: "k = ?k" "lo = lo1" "hi = hi1" "l' = l2" "low = BRCFScanLedgerLowestNeededHeight l2"
    by (simp_all only: prod.inject)
  have pre: "takeWhile (\<lambda>g. g < t) (cfl_gaveUp l) = filter (\<lambda>g. g < t) (cfl_gaveUp l)"
    by (rule takeWhile_less_sorted [OF sh(2)])
  have l1: "cfl_shape l1" "cfl_outstanding l1 = cfl_outstanding l" "cfl_marks l1 = cfl_marks l"
    "cfl_gaveUp l1 = filter (\<lambda>g. t \<le> g) (cfl_gaveUp l)"
    using GaveUpDropPrefix_shape [OF shape, of ?k] GaveUpDropPrefix_gaveUp [OF sh(2), of t]
    unfolding l1_def by (simp_all only:) (simp_all add: cfLedgerGaveUpDropPrefix_def cfl_marks_def)
  show "cfl_shape l'" using l1(1) by (simp add: eq(4) l2_def cfl_shape_def)
  show "cfl_outstanding l' = cfl_outstanding l" "cfl_gaveUp l' = filter (\<lambda>g. t \<le> g) (cfl_gaveUp l)"
    "cfl_start l' = cfl_start l" "cfl_scannedThrough l' = cfl_scannedThrough l"
    "cfl_requestedThrough l' = cfl_requestedThrough l"
    using l1 cfl_marksD [OF l1(3)] by (simp_all add: eq(4) l2_def)
  show "k = length (filter (\<lambda>g. g < t) (cfl_gaveUp l))" by (simp add: eq(1) pre)
  show "low = BRCFScanLedgerLowestNeededHeight l'" by (simp add: eq)
  show "cfl_abandonedBelow l' = cfl_abandonedBelow l \<and> lo = CF_LEDGER_NO_DROP \<and>
      hi = CF_LEDGER_NO_DROP" if "k = 0"
    using that eq cfl_marksD(4) [OF l1(3)] by (simp add: lo1_def hi1_def l2_def)
  show "lo = Min {g \<in> set (cfl_gaveUp l). g < t} \<and> hi = Max {g \<in> set (cfl_gaveUp l). g < t} \<and>
      cfl_abandonedBelow l' = max (cfl_abandonedBelow l) (hi + 1)" if "0 < k"
  proof -
    define ds where "ds = takeWhile (\<lambda>g. g < t) (cfl_gaveUp l)"
    have ds: "set ds = {g \<in> set (cfl_gaveUp l). g < t}" "ds \<noteq> []" "sorted_wrt (<) ds"
      using that eq(1) sh(2) by (auto simp: ds_def pre sorted_wrt_filter)
    have nth: "ds ! i = cfl_gaveUp l ! i" if "i < length ds" for i
      using that unfolding ds_def by (rule takeWhile_nth)
    have "lo = hd ds" "hi = last ds"
      using that eq(1,2,3) ds(2) nth 
      by (auto simp: hd_conv_nth last_conv_nth ds_def [symmetric] lo1_def hi1_def)
    moreover have "hd ds = Min (set ds)" "last ds = Max (set ds)"
      using ds(2,3) by (simp_all add: sorted_wrt_hd_Min sorted_wrt_last_Max)
    moreover have "cfl_abandonedBelow l' = max (cfl_abandonedBelow l) (hi + 1)"
      using that eq(1,3,4) cfl_marksD(4) [OF l1(3)] by (auto simp: max_def l2_def)
    ultimately show ?thesis using ds(1) by simp
  qed
qed


lemma AbandonGaveUpBelow_wf:
  assumes wf: "cfl_wf l"
    and ab: "BRCFScanLedgerAbandonGaveUpBelow l clamp = (low, k, lo, hi, l')"
    and top: "cfl_requestedThrough l < UINT32_MAX_VAL"
  shows "cfl_wf l'"
    and "holes l' = holes l - {g \<in> set (cfl_gaveUp l). g < abandon_target l clamp}
       \<union> set (cfl_heights l)"
proof -
  let ?t = "abandon_target l clamp"
  note sh = cfl_wfD(3) [OF wf]
  note post = AbandonGaveUpBelow_post [OF sh ab]
  have hs: "set (cfl_heights l') = set (cfl_heights l)" by (simp add: post(2))
  have gs: "set (cfl_gaveUp l') = {g \<in> set (cfl_gaveUp l). ?t \<le> g}" by (simp add: post(3))
  show "holes l' = holes l - {g \<in> set (cfl_gaveUp l). g < ?t} \<union> set (cfl_heights l)"
    unfolding holes_def hs gs by (auto simp: not_less)
  have sub: "holes l' \<subseteq> holes l" unfolding holes_def hs gs by auto
  have floor: "cfl_abandonedBelow l' \<le> h" if h: "h \<in> holes l'" for h
  proof (cases "k = 0")
    case True
    then show ?thesis using post(9) cfl_wfD(4) [OF wf] sub h by auto
  next
    case False
    then have k: "0 < k" by simp
    let ?D = "{g \<in> set (cfl_gaveUp l). g < ?t}"
    have ne: "?D \<noteq> {}" using k post(4) by (auto simp: filter_empty_conv)
    then have hi: "hi \<in> ?D" using post(10) [OF k] Max_in [of ?D] by simp
    have "?t \<le> h"
      using h gs hs abandon_target_le_outstanding [OF cfl_shapeD(1) [OF sh], of h clamp]
      unfolding holes_def by auto
    then have lt: "hi < h" using hi by (auto intro: order.strict_trans2)
    have "h \<le> cfl_requestedThrough l" using sub h cfl_wfD(5) [OF wf] by auto
    then have "hi + 1 \<le> h" using lt word_plus_one_le_iff [OF lt] by blast
    then show ?thesis using post(10) [OF k] cfl_wfD(4) [OF wf, of h] sub h by auto
  qed
  show "cfl_wf l'"
    using post(1,6,7) floor sub cfl_wfD(5,6) [OF wf] by (auto simp: cfl_wf_def)
qed

lemma AbandonUnscannableBelow_noop:
  "lo = 0 \<or> floor = 0 \<Longrightarrow> BRCFScanLedgerAbandonUnscannableBelow l lo floor =
     (BRCFScanLedgerLowestNeededHeight l, 0, l)"
  by (auto simp: BRCFScanLedgerAbandonUnscannableBelow_def)

text \<open>The low edge of the band, after both clamps.\<close>

definition unscannable_lo :: "scan_ledger \<Rightarrow> u32 \<Rightarrow> u32" where
  "unscannable_lo l lo =
     (let lo = (if lo < cfl_abandonedBelow l then cfl_abandonedBelow l else lo)
      in if lo \<ge> cfl_start l \<and> lo \<le> cfl_scannedThrough l then cfl_scannedThrough l + 1 else lo)"

lemma AbandonUnscannableBelow_post:
  assumes shape: "cfl_shape l" and "lo \<noteq> 0" "floor \<noteq> 0"
    and ab: "BRCFScanLedgerAbandonUnscannableBelow l lo floor = (low, cnt, l')"
  shows "low = BRCFScanLedgerLowestNeededHeight l'"
    "floor \<le> unscannable_lo l lo \<Longrightarrow> cnt = 0 \<and> l' = l"
    "unscannable_lo l lo < floor \<Longrightarrow> cnt = floor - unscannable_lo l lo"
    "unscannable_lo l lo < floor \<Longrightarrow> cfl_shape l' \<and>
       set (cfl_heights l') = {h \<in> set (cfl_heights l). floor \<le> h} \<and>
       set (cfl_gaveUp l') = {h \<in> set (cfl_gaveUp l). floor \<le> h} \<and>
       cfl_start l' = cfl_start l \<and> cfl_requestedThrough l' = cfl_requestedThrough l \<and>
       cfl_abandonedBelow l' = max (cfl_abandonedBelow l) floor \<and>
       (\<exists>l0. l' = cfLedgerAdvance l0 \<and> cfl_scannedThrough l0 = cfl_scannedThrough l)"
proof -
  note sh = cfl_shapeD [OF shape]
  define l1 where "l1 = l\<lparr>cfl_outstanding := drop (cfLedgerLowerBound l floor) (cfl_outstanding l)\<rparr>"
  define l2 where "l2 = cfLedgerGaveUpDropPrefix l1 (gaveUpLowerBound l1 floor)"
  define l3 where "l3 = (if floor > cfl_abandonedBelow l2
      then l2\<lparr>cfl_abandonedBelow := floor\<rparr> else l2)"
  have "BRCFScanLedgerAbandonUnscannableBelow l lo floor =
      (if unscannable_lo l lo \<ge> floor then (BRCFScanLedgerLowestNeededHeight l, 0, l)
       else (BRCFScanLedgerLowestNeededHeight (cfLedgerAdvance l3), floor - unscannable_lo l lo,
             cfLedgerAdvance l3))"
    using assms(2,3)
    unfolding BRCFScanLedgerAbandonUnscannableBelow_def Let_def l1_def [symmetric]
      l2_def [symmetric] l3_def [symmetric] unscannable_lo_def
    by (simp only: if_False simp_thms)
  from trans [OF ab [symmetric] this]
  have eq: "(low, cnt, l') = (if unscannable_lo l lo \<ge> floor
       then (BRCFScanLedgerLowestNeededHeight l, 0, l)
       else (BRCFScanLedgerLowestNeededHeight (cfLedgerAdvance l3), floor - unscannable_lo l lo,
             cfLedgerAdvance l3))" .
  show "low = BRCFScanLedgerLowestNeededHeight l'"
    "floor \<le> unscannable_lo l lo \<Longrightarrow> cnt = 0 \<and> l' = l"
    "unscannable_lo l lo < floor \<Longrightarrow> cnt = floor - unscannable_lo l lo"
    using eq by (auto split: if_splits)
  have heights: "cfl_heights l1 = filter (\<lambda>h. floor \<le> h) (cfl_heights l)"
    using drop_lower_bound [OF sh(1), of floor]
    by (simp add: l1_def drop_map [symmetric] cfLedgerLowerBound_heights)
  have l1: "cfl_shape l1" "cfl_gaveUp l1 = cfl_gaveUp l" "cfl_marks l1 = cfl_marks l"
    using shape heights
    by (auto simp: cfl_shape_def sorted_wrt_filter) (auto simp: l1_def cfl_marks_def)
  have l2: "cfl_shape l2" "cfl_gaveUp l2 = filter (\<lambda>g. floor \<le> g) (cfl_gaveUp l)"
    "cfl_outstanding l2 = cfl_outstanding l1" "cfl_marks l2 = cfl_marks l"
    using GaveUpDropPrefix_shape [OF l1(1), of "gaveUpLowerBound l1 floor"]
      GaveUpDropPrefix_gaveUp [OF cfl_shapeD(2) [OF l1(1)], of floor] l1(2,3)
    unfolding l2_def by (simp_all only:) (simp_all add: cfLedgerGaveUpDropPrefix_def cfl_marks_def)
  show "cfl_shape l' \<and> set (cfl_heights l') = {h \<in> set (cfl_heights l). floor \<le> h} \<and>
       set (cfl_gaveUp l') = {h \<in> set (cfl_gaveUp l). floor \<le> h} \<and>
       cfl_start l' = cfl_start l \<and> cfl_requestedThrough l' = cfl_requestedThrough l \<and>
       cfl_abandonedBelow l' = max (cfl_abandonedBelow l) floor \<and>
       (\<exists>l0. l' = cfLedgerAdvance l0 \<and> cfl_scannedThrough l0 = cfl_scannedThrough l)"
    if "unscannable_lo l lo < floor"
  proof -
    have l': "l' = cfLedgerAdvance l3" using eq that by (auto simp: not_le [symmetric])
    have "cfl_shape l'" using l2(1) by (simp add: l' l3_def cfl_shape_def)
    moreover have "cfl_heights l' = filter (\<lambda>h. floor \<le> h) (cfl_heights l)"
      using heights l2(3) by (simp add: l' l3_def)
    moreover have "cfl_scannedThrough l3 = cfl_scannedThrough l"
      using cfl_marksD [OF l2(4)] by (simp add: l3_def)
    ultimately show ?thesis
      using l2(2) cfl_marksD [OF l2(4)] l'
      by (auto simp: l3_def max_def simp del: set_map)
  qed
qed

lemma AbandonUnscannableBelow_wf:
  assumes wf: "cfl_wf l"
    and ab: "BRCFScanLedgerAbandonUnscannableBelow l lo floor = (low, cnt, l')"
  shows "cfl_wf l'"
proof (cases "lo = 0 \<or> floor = 0 \<or> floor \<le> unscannable_lo l lo")
  case True
  then have "l' = l"
    using ab AbandonUnscannableBelow_noop [of lo floor l]
      AbandonUnscannableBelow_post(2) [OF cfl_wfD(3) [OF wf] _ _ ab] by auto
  then show ?thesis using wf by simp
next
  case False
  then have lt: "unscannable_lo l lo < floor" and ne: "lo \<noteq> 0" "floor \<noteq> 0" by auto
  from AbandonUnscannableBelow_post(4) [OF cfl_wfD(3) [OF wf] ne ab lt]
  obtain l0 where post: "cfl_shape l'" "set (cfl_heights l') = {h \<in> set (cfl_heights l). floor \<le> h}"
    "set (cfl_gaveUp l') = {h \<in> set (cfl_gaveUp l). floor \<le> h}"
    "cfl_requestedThrough l' = cfl_requestedThrough l"
    "cfl_abandonedBelow l' = max (cfl_abandonedBelow l) floor"
    "l' = cfLedgerAdvance l0" "cfl_scannedThrough l0 = cfl_scannedThrough l" by blast
  have "holes l' = {h \<in> holes l. floor \<le> h}"
    unfolding holes_def post(2,3) by auto
  moreover have "cfl_scannedThrough l' \<le> cfl_requestedThrough l'"
    using cfLedgerAdvance_requested [of l0] post(4,6,7) cfl_wfD(6) [OF wf] by simp
  ultimately show ?thesis
    using post(1,4,5) cfl_wfD(4,5) [OF wf] by (simp add: cfl_wf_def)
qed

lemma RewindTo_zero: "BRCFScanLedgerRewindTo l 0 = (False, l)"
  by (simp add: BRCFScanLedgerRewindTo_def)

lemma take_filter_less:
  fixes xs :: "'a::linorder list"
  assumes "sorted_wrt (<) xs"
  shows "(if lower_bound xs h < length xs then take (lower_bound xs h) xs else xs) =
    filter (\<lambda>x. x < h) xs"
proof (cases "lower_bound xs h < length xs")
  case True
  then show ?thesis by (simp add: take_lower_bound [OF assms])
next
  case False
  have "take (lower_bound xs h) xs = xs" using False by simp
  then show ?thesis using take_lower_bound [OF assms, of h] False by simp
qed

lemma RewindTo_post:
  assumes shape: "cfl_shape l" and "nxt \<noteq> 0"
    and rw: "BRCFScanLedgerRewindTo l nxt = (changed, l')"
  shows "cfl_shape l'"
    "cfl_heights l' = filter (\<lambda>h. h < nxt) (cfl_heights l)"
    "cfl_gaveUp l' = filter (\<lambda>h. h < nxt) (cfl_gaveUp l)"
    "cfl_start l' = min (cfl_start l) nxt"
    "cfl_requestedThrough l' = min (cfl_requestedThrough l) (nxt - 1)"
    "cfl_abandonedBelow l' = cfl_abandonedBelow l"
    "\<exists>l0. l' = cfLedgerAdvance l0 \<and> cfl_scannedThrough l0 = min (cfl_scannedThrough l) (nxt - 1)"
proof -
  note sh = cfl_shapeD [OF shape]
  have pos: "0 < nxt" using assms(2) by (simp add: word_gt_0)
  let ?ko = "lower_bound (cfl_heights l) nxt"
  let ?kg = "gaveUpLowerBound l nxt"
  define l5 where "l5 = l\<lparr>cfl_start := min (cfl_start l) nxt,
    cfl_scannedThrough := min (cfl_scannedThrough l) (nxt - 1),
    cfl_requestedThrough := min (cfl_requestedThrough l) (nxt - 1),
    cfl_outstanding := (if ?ko < length (cfl_outstanding l) then take ?ko (cfl_outstanding l)
                        else cfl_outstanding l),
    cfl_gaveUp := (if ?kg < length (cfl_gaveUp l) then take ?kg (cfl_gaveUp l) else cfl_gaveUp l),
    cfl_gaveUpRearmCycles := (if ?kg < length (cfl_gaveUp l)
       then take ?kg (cfl_gaveUpRearmCycles l) else cfl_gaveUpRearmCycles l),
    cfl_gaveUpOffersLive := (if ?kg < length (cfl_gaveUp l)
       then take ?kg (cfl_gaveUpOffersLive l) else cfl_gaveUpOffersLive l)\<rparr>"
  have mins: "min (cfl_start l) nxt = (if nxt < cfl_start l then nxt else cfl_start l)"
    "min a (nxt - 1) = (if nxt \<le> a then nxt - 1 else a)" for a
    using word_minus_one_less_iff [OF pos, of a] by (auto simp: min_def)
  have "snd (BRCFScanLedgerRewindTo l nxt) = cfLedgerAdvance l5"
    using assms(2) unfolding l5_def mins
    by (cases "nxt < cfl_start l"; cases "nxt \<le> cfl_scannedThrough l";
        cases "nxt \<le> cfl_requestedThrough l"; cases "?ko < length (cfl_outstanding l)";
        cases "?kg < length (cfl_gaveUp l)")
       (simp_all add: BRCFScanLedgerRewindTo_def Let_def cfLedgerLowerBound_heights)
  then have l': "l' = cfLedgerAdvance l5" by (simp add: rw)
  have h: "cfl_heights l5 = filter (\<lambda>h. h < nxt) (cfl_heights l)"
    using take_filter_less [OF sh(1), of nxt] by (auto simp: l5_def take_map split: if_splits)
  have g: "cfl_gaveUp l5 = filter (\<lambda>h. h < nxt) (cfl_gaveUp l)"
    using take_filter_less [OF sh(2), of nxt] by (simp add: l5_def)
  have "cfl_shape l5"
  proof -
    have "length (cfl_gaveUpRearmCycles l5) = length (cfl_gaveUp l5)"
      "length (cfl_gaveUpOffersLive l5) = length (cfl_gaveUp l5)"
      "length (cfl_outstanding l5) \<le> CF_OUTSTANDING_MAX"
      "length (cfl_gaveUp l5) \<le> CF_GAVEUP_MAX"
      using sh(3-6) by (auto simp: l5_def)
    then show ?thesis
      using sh(1,2) by (simp add: cfl_shape_def h g sorted_wrt_filter)
  qed
  then show "cfl_shape l'" by (simp add: l' cfl_shape_def)
  show "cfl_heights l' = filter (\<lambda>h. h < nxt) (cfl_heights l)"
    "cfl_gaveUp l' = filter (\<lambda>h. h < nxt) (cfl_gaveUp l)"
    using h g by (simp_all add: l')
  show "cfl_start l' = min (cfl_start l) nxt"
    "cfl_requestedThrough l' = min (cfl_requestedThrough l) (nxt - 1)"
    "cfl_abandonedBelow l' = cfl_abandonedBelow l"
    by (simp_all add: l' l5_def)
  show "\<exists>l0. l' = cfLedgerAdvance l0 \<and> cfl_scannedThrough l0 = min (cfl_scannedThrough l) (nxt - 1)"
    by (rule exI [of _ l5]) (simp add: l' l5_def)
qed


lemma RewindTo_wf:
  assumes wf: "cfl_wf l" and rw: "BRCFScanLedgerRewindTo l nxt = (changed, l')"
  shows "cfl_wf l'" and "nxt \<noteq> 0 \<Longrightarrow> holes l' = {h \<in> holes l. h < nxt}"
proof -
  have main: "cfl_wf l' \<and> holes l' = {h \<in> holes l. h < nxt}" if ne: "nxt \<noteq> 0"
  proof -
    note post = RewindTo_post [OF cfl_wfD(3) [OF wf] ne rw]
    have pos: "0 < nxt" using ne by (simp add: word_gt_0)
    have h: "holes l' = {h \<in> holes l. h < nxt}"
      unfolding holes_def post(2,3) by auto
    obtain l0 where l0: "l' = cfLedgerAdvance l0"
      "cfl_scannedThrough l0 = min (cfl_scannedThrough l) (nxt - 1)" using post(7) by blast
    have "cfl_scannedThrough l0 \<le> cfl_requestedThrough l0"
      using l0 post(5) cfl_wfD(6) [OF wf] by (simp add: min_le_iff_disj)
    then have "cfl_scannedThrough l' \<le> cfl_requestedThrough l'"
      using cfLedgerAdvance_requested [of l0] l0(1) by simp
    then show ?thesis
      using post(1,5,6) h cfl_wfD(4,5) [OF wf] word_le_minus_one_iff [OF pos]
      by (simp add: cfl_wf_def)
  qed
  show "cfl_wf l'"
  proof (cases "nxt = 0")
    case True
    then show ?thesis using rw wf by (simp add: RewindTo_zero)
  qed (use main in simp)
  show "nxt \<noteq> 0 \<Longrightarrow> holes l' = {h \<in> holes l. h < nxt}" using main by simp
qed

end
