(* ===== verification/Machine.thy ===== *)
theory Machine
  imports Prelude
begin

text \<open>
  Runs of a guarded step function, and the interface of an invariant: a component that shows each
  guarded step keeps its invariant gets it for every run and every reachable state.
\<close>

fun run :: "('e \<Rightarrow> 's \<Rightarrow> 's) \<Rightarrow> 's \<Rightarrow> 'e list \<Rightarrow> 's" where
  "run step s [] = s"
| "run step s (e # es) = run step (step e s) es"

fun run_ok :: "('e \<Rightarrow> 's \<Rightarrow> 's) \<Rightarrow> ('e \<Rightarrow> 's \<Rightarrow> bool) \<Rightarrow> 's \<Rightarrow> 'e list \<Rightarrow> bool" where
  "run_ok step pre s [] = True"
| "run_ok step pre s (e # es) = (pre e s \<and> run_ok step pre (step e s) es)"

lemma run_append: "run step s (xs @ ys) = run step (run step s xs) ys"
  by (induction xs arbitrary: s) auto

lemma run_ok_append:
  "run_ok step pre s (xs @ ys) \<longleftrightarrow> run_ok step pre s xs \<and> run_ok step pre (run step s xs) ys"
  by (induction xs arbitrary: s) auto

inductive reachable :: "('e \<Rightarrow> 's \<Rightarrow> 's) \<Rightarrow> ('e \<Rightarrow> 's \<Rightarrow> bool) \<Rightarrow> 's \<Rightarrow> 's \<Rightarrow> bool"
  for step :: "'e \<Rightarrow> 's \<Rightarrow> 's" and pre :: "'e \<Rightarrow> 's \<Rightarrow> bool" and s0 :: 's where
  reachable_init: "reachable step pre s0 s0"
| reachable_step: "reachable step pre s0 s \<Longrightarrow> pre e s \<Longrightarrow> reachable step pre s0 (step e s)"

lemma reachable_run:
  "run_ok step pre s es \<Longrightarrow> reachable step pre s0 s \<Longrightarrow> reachable step pre s0 (run step s es)"
  by (induction es arbitrary: s) (auto intro: reachable_step)

locale guarded_machine =
  fixes step :: "'e \<Rightarrow> 's \<Rightarrow> 's" and pre :: "'e \<Rightarrow> 's \<Rightarrow> bool" and inv :: "'s \<Rightarrow> bool"
  assumes step_inv: "inv s \<Longrightarrow> pre e s \<Longrightarrow> inv (step e s)"
begin

lemma run_inv: "inv s \<Longrightarrow> run_ok step pre s es \<Longrightarrow> inv (run step s es)"
  by (induction es arbitrary: s) (auto intro: step_inv)

lemma reachable_inv: "reachable step pre s0 s \<Longrightarrow> inv s0 \<Longrightarrow> inv s"
  by (induction rule: reachable.induct) (auto intro: step_inv)

end

text \<open>A machine whose steps also never decrease a measure of progress.\<close>

locale monotone_machine = guarded_machine step pre inv
  for step :: "'e \<Rightarrow> 's \<Rightarrow> 's" and pre :: "'e \<Rightarrow> 's \<Rightarrow> bool" and inv :: "'s \<Rightarrow> bool" +
  fixes mark :: "'s \<Rightarrow> 'm::preorder"
  assumes step_mark: "inv s \<Longrightarrow> pre e s \<Longrightarrow> mark s \<le> mark (step e s)"
begin

lemma run_mark: "inv s \<Longrightarrow> run_ok step pre s es \<Longrightarrow> mark s \<le> mark (run step s es)"
proof (induction es arbitrary: s)
  case Nil
  show ?case by simp
next
  case (Cons e es)
  then show ?case
    using step_mark [of s e] step_inv [of s e] Cons.IH [of "step e s"] by (auto intro: order_trans)
qed

end

end
