(* ===== verification/ScanLedgerRun.thy ===== *)
theory ScanLedgerRun
  imports ScanLedgerInv Machine
begin

text \<open>
  Runs of the scan ledger.  \<open>ledger_step\<close> is one public operation; \<open>account_step\<close> runs it beside
  three ghost sets that describe the current branch of the block chain: the heights whose filter was
  evaluated, the heights the ledger handed back to its caller in a report (evicted, abandoned or
  structurally unscannable), and the heights a call leaves untracked without a report, which
  \<open>step_lost\<close> writes out call by call.  The invariant \<open>account_inv\<close> says that every height up to the
  request mark is a hole or in one of the three sets, and that every height under the high-water mark
  or the abandoned floor is in one of them; \<open>gapless_ok\<close> is the calling discipline under which the
  third set stays empty.
\<close>

section \<open>Operations as steps\<close>

datatype ledger_op =
    Record u32 u32 u128 u16 u32
  | Evaluated u32
  | HeaderRace u32
  | LostPeer u128 u16
  | RetireCappedOp
  | NextRerequest u32
  | Commit u32 u32 u128 u16 u32
  | OffersMissed u32 u32
  | ReArm u32
  | ReArmRun u32 nat
  | RetireFloor u32
  | AbandonGaveUp u32
  | AbandonUnscannable u32 u32
  | Rewind u32

fun ledger_step :: "ledger_op \<Rightarrow> scan_ledger \<Rightarrow> scan_ledger" where
  "ledger_step (Record a b p q t) l = BRCFScanLedgerRecordRequested l a b p q t"
| "ledger_step (Evaluated h) l = BRCFScanLedgerMarkEvaluated l h"
| "ledger_step (HeaderRace h) l = BRCFScanLedgerMarkHeaderRace l h"
| "ledger_step (LostPeer p q) l = BRCFScanLedgerReArmPeer l p q"
| "ledger_step RetireCappedOp l = BRCFScanLedgerRetireCapped l"
| "ledger_step (NextRerequest t) l = snd (BRCFScanLedgerNextRerequest l t)"
| "ledger_step (Commit a b p q t) l = BRCFScanLedgerCommitRerequest l a b p q t"
| "ledger_step (OffersMissed a b) l = BRCFScanLedgerMarkOffersMissedLivePeer l a b"
| "ledger_step (ReArm h) l = snd (BRCFScanLedgerReArmGaveUp l h)"
| "ledger_step (ReArmRun h k) l = snd (BRCFScanLedgerReArmParkedRun l h k)"
| "ledger_step (RetireFloor f) l = snd (BRCFScanLedgerRetireAbandonedTo l f)"
| "ledger_step (AbandonGaveUp c) l = snd (snd (snd (snd (BRCFScanLedgerAbandonGaveUpBelow l c))))"
| "ledger_step (AbandonUnscannable lo f) l =
     snd (snd (BRCFScanLedgerAbandonUnscannableBelow l lo f))"
| "ledger_step (Rewind n) l = snd (BRCFScanLedgerRewindTo l n)"

text \<open>
  Every operation keeps \<open>cfl_wf\<close>; the one side condition is that no request reaches the sentinel
  height \<open>0xFFFFFFFF\<close>, at which \<open>hi + 1\<close> of an abandonment would wrap.
\<close>

definition ledger_ok :: "scan_ledger \<Rightarrow> bool" where
  "ledger_ok l \<longleftrightarrow> cfl_wf l \<and> cfl_requestedThrough l < UINT32_MAX_VAL"

lemma step_wf:
  assumes "cfl_wf l" "cfl_requestedThrough l < UINT32_MAX_VAL"
  shows "cfl_wf (ledger_step opr l)"
proof (cases opr)
  case (Record a b p q t)
  then show ?thesis
    using RecordRequestedDropped_wf [OF assms(1)]
    by (metis BRCFScanLedgerRecordRequested_def ledger_step.simps(1) prod.collapse)
next
  case (AbandonGaveUp c)
  then show ?thesis
    using AbandonGaveUpBelow_wf(1) [OF assms(1) _ assms(2)]
    by (metis ledger_step.simps(12) prod.collapse)
next
  case (AbandonUnscannable lo f)
  then show ?thesis
    using AbandonUnscannableBelow_wf [OF assms(1)]
    by (metis ledger_step.simps(13) prod.collapse)
next
  case (Rewind n)
  then show ?thesis
    using RewindTo_wf(1) [OF assms(1)] by (metis ledger_step.simps(14) prod.collapse)
qed (use assms MarkEvaluated_wf MarkHeaderRace_wf ReArmPeer_wf(1) RetireCapped_wf NextRerequest_wf
    CommitRerequest_wf(1) MarkOffersMissed_wf(1) ReArmGaveUp_holes(2) ReArmParkedRun_wf(1)
    RetireAbandonedTo_wf(1) in simp_all)

section \<open>Where every height went\<close>

text \<open>
  \<open>accounted l D\<close>: every requested height from \<open>start\<close> on is a hole or in \<open>D\<close>, and so is every height
  the scan has passed, and every height below the abandoned floor.
\<close>

definition accounted :: "scan_ledger \<Rightarrow> u32 set \<Rightarrow> bool" where
  "accounted l D \<longleftrightarrow>
     (\<forall>h. cfl_start l \<le> h \<and> h \<le> cfl_requestedThrough l \<longrightarrow> h \<in> holes l \<or> h \<in> D) \<and>
     (\<forall>h. cfl_start l \<le> h \<and> h \<le> cfl_scannedThrough l \<longrightarrow> h \<in> D) \<and>
     (\<forall>h. cfl_start l \<le> h \<and> h < cfl_abandonedBelow l \<longrightarrow> h \<in> D)"

lemma accountedD:
  assumes "accounted l D" "cfl_start l \<le> h"
  shows "h \<le> cfl_requestedThrough l \<Longrightarrow> h \<in> holes l \<or> h \<in> D"
    "h \<le> cfl_scannedThrough l \<Longrightarrow> h \<in> D" "h < cfl_abandonedBelow l \<Longrightarrow> h \<in> D"
  using assms by (auto simp: accounted_def)

text \<open>A step keeps the account when the heights the mark moved over are requested and no holes.\<close>

definition scan_grows :: "scan_ledger \<Rightarrow> scan_ledger \<Rightarrow> bool" where
  "scan_grows l l' \<longleftrightarrow> (\<forall>h. cfl_scannedThrough l < h \<longrightarrow> h \<le> cfl_scannedThrough l' \<longrightarrow>
     h \<le> cfl_requestedThrough l' \<and> h \<notin> holes l')"

lemma scan_grows_same: "cfl_scannedThrough l' = cfl_scannedThrough l \<Longrightarrow> scan_grows l l'"
  by (auto simp: scan_grows_def)

lemma Advance_wf_rev:
  assumes "cfl_wf (cfLedgerAdvance l)" shows "cfl_wf l"
  using assms cfLedgerAdvance_mono [of l]
  by (auto simp: cfl_wf_def cfl_shape_def dest: order_trans)

lemma scan_grows_Advance:
  assumes wf: "cfl_wf (cfLedgerAdvance l0)" and top: "cfl_requestedThrough l0 < UINT32_MAX_VAL"
    and le: "cfl_scannedThrough l0 \<le> cfl_scannedThrough l"
  shows "scan_grows l (cfLedgerAdvance l0)"
proof -
  have wf0: "cfl_wf l0"
    by (rule Advance_wf_rev [OF wf])
  have "h \<le> cfl_requestedThrough l0 \<and> h \<notin> holes l0"
    if h: "cfl_scannedThrough l < h" "h \<le> cfl_scannedThrough (cfLedgerAdvance l0)" for h
  proof (intro conjI notI)
    show "h \<le> cfl_requestedThrough l0"
      using cfl_wfD(6) [OF wf] h by simp
    assume "h \<in> holes l0"
    moreover have "cfl_scannedThrough l0 < h" "0 < h"
      using h le by (auto simp: word_neq_0_conv [symmetric])
    ultimately show False
      using cfLedgerAdvance_below_holes [OF wf0 _ _ _ top, of h] h by auto
  qed
  then show ?thesis
    by (auto simp: scan_grows_def)
qed

lemma accounted_step:
  assumes acc: "accounted l D" and D: "D \<subseteq> D'" and st: "cfl_start l' = cfl_start l"
    and req: "\<And>h. cfl_start l \<le> h \<Longrightarrow> h \<le> cfl_requestedThrough l' \<Longrightarrow> h \<in> holes l' \<or> h \<in> D'"
    and sg: "scan_grows l l'"
    and fl: "\<And>h. cfl_start l \<le> h \<Longrightarrow> cfl_abandonedBelow l \<le> h \<Longrightarrow> h < cfl_abandonedBelow l' \<Longrightarrow> h \<in> D'"
  shows "accounted l' D'"
proof -
  have "h \<in> D'" if "cfl_start l \<le> h" "h \<le> cfl_scannedThrough l'" for h
  proof (cases "h \<le> cfl_scannedThrough l")
    case True
    then show ?thesis using accountedD(2) [OF acc that(1)] D by auto
  next
    case False
    then show ?thesis using sg that req [OF that(1)] by (auto simp: scan_grows_def)
  qed
  moreover have "h \<in> D'" if "cfl_start l \<le> h" "h < cfl_abandonedBelow l'" for h
    using accountedD(3) [OF acc that(1)] fl [OF that(1)] that D by (meson linorder_not_less subsetD)
  ultimately show ?thesis
    using req by (auto simp: accounted_def st)
qed

text \<open>The frequent case: no height leaves the holes and the request mark stays.\<close>

lemma accounted_same_holes:
  assumes acc: "accounted l D" and st: "cfl_start l' = cfl_start l"
    and h: "holes l' = holes l" and req: "cfl_requestedThrough l' = cfl_requestedThrough l"
    and sg: "scan_grows l l'" and fl: "cfl_abandonedBelow l' \<le> cfl_abandonedBelow l"
  shows "accounted l' D"
  by (rule accounted_step [OF acc order_refl st _ sg])
    (use accountedD(1) [OF acc] fl h req in \<open>auto dest: order.strict_trans2\<close>)

lemma accounted_same:
  "accounted l D \<Longrightarrow> cfl_marks l' = cfl_marks l \<Longrightarrow> holes l' = holes l \<Longrightarrow> accounted l' D"
  by (simp add: accounted_def cfl_marks_def)

section \<open>The account kept beside a run\<close>

record account =
  acc_ledger :: scan_ledger
  acc_evaluated :: "u32 set"
  acc_surfaced :: "u32 set"
  acc_lost :: "u32 set"

text \<open>
  What a step hands its caller to report: the range of an overflow that is no longer tracked, the
  range of an abandonment, the band of an unscannable prefix.
\<close>

definition reported_range :: "nat \<times> u32 \<times> u32 \<Rightarrow> u32 set" where
  "reported_range r = (case r of (n, lo, hi) \<Rightarrow> if 0 < n then {lo..hi} else {})"

fun step_surfaced :: "ledger_op \<Rightarrow> scan_ledger \<Rightarrow> u32 set" where
  "step_surfaced (Record a b p q t) l =
     (case BRCFScanLedgerRecordRequestedDropped l a b p q t of
        (n, None, l') \<Rightarrow> {}
      | (n, Some (lo, hi), l') \<Rightarrow> reported_range (n, lo, hi) - holes l')"
| "step_surfaced (AbandonGaveUp c) l =
     (case BRCFScanLedgerAbandonGaveUpBelow l c of (low, n, lo, hi, l') \<Rightarrow> reported_range (n, lo, hi))"
| "step_surfaced (AbandonUnscannable lo f) l =
     (case BRCFScanLedgerAbandonUnscannableBelow l lo f of
        (low, n, l') \<Rightarrow> reported_range (unat n, f - n, f - 1))"
| "step_surfaced _ l = {}"

text \<open>
  The heights a call leaves without a hole and without a report.  A request that starts above the
  request mark passes over the heights between; a header race above the mark does the same, and on a
  full array it evicts the lowest hole and tells nobody; an unscannable band whose low edge is above
  the scan frontier drops the holes below the edge too, and raises the floor over the heights there
  that were never asked for, but reports only the band; and after a rewind below the abandoned floor
  the heights of the new branch under that floor are refused by every later request.
\<close>

fun step_lost :: "ledger_op \<Rightarrow> scan_ledger \<Rightarrow> u32 set" where
  "step_lost (Record a b p q t) l =
     (if b < a \<or> b < cfl_abandonedBelow l then {}
      else {h. cfl_requestedThrough l < h \<and> cfl_abandonedBelow l \<le> h \<and> h < a})"
| "step_lost (HeaderRace x) l =
     (if x < cfl_abandonedBelow l then {}
      else {h. cfl_requestedThrough l < h \<and> cfl_abandonedBelow l \<le> h \<and> h < x} \<union>
           (holes l - holes (BRCFScanLedgerMarkHeaderRace l x)))"
| "step_lost (AbandonUnscannable lo f) l =
     (case BRCFScanLedgerAbandonUnscannableBelow l lo f of
        (low, n, l') \<Rightarrow> if n = 0 then {}
          else {h. BRCFScanLedgerLowestNeededHeight l \<le> h \<and> h < lo \<and>
                   (h \<in> holes l \<or> cfl_requestedThrough l < h)})"
| "step_lost (Rewind nxt) l = {h. nxt \<le> h \<and> h < cfl_abandonedBelow l}"
| "step_lost _ l = {}"

declare step_surfaced.simps [simp del] step_lost.simps [simp del]

fun account_step :: "ledger_op \<Rightarrow> account \<Rightarrow> account" where
  "account_step (Evaluated h) a =
     \<lparr>acc_ledger = ledger_step (Evaluated h) (acc_ledger a),
      acc_evaluated = insert h (acc_evaluated a), acc_surfaced = acc_surfaced a,
      acc_lost = acc_lost a\<rparr>"
| "account_step (Rewind nxt) a =
     (if nxt = 0 then a
      else \<lparr>acc_ledger = ledger_step (Rewind nxt) (acc_ledger a),
            acc_evaluated = {h \<in> acc_evaluated a. h < nxt},
            acc_surfaced = {h \<in> acc_surfaced a. h < nxt},
            acc_lost = {h \<in> acc_lost a. h < nxt} \<union> step_lost (Rewind nxt) (acc_ledger a)\<rparr>)"
| "account_step opr a =
     \<lparr>acc_ledger = ledger_step opr (acc_ledger a), acc_evaluated = acc_evaluated a,
      acc_surfaced = acc_surfaced a \<union> step_surfaced opr (acc_ledger a),
      acc_lost = acc_lost a \<union> step_lost opr (acc_ledger a)\<rparr>"

text \<open>
  The one rule on every run: no height reaches the sentinel \<open>0xFFFFFFFF\<close>.  \<open>gapless_ok\<close> adds a
  discipline that not every caller follows: requests go forward without a gap, a header race is
  marked for a height already requested while the array has room, the low edge of an unscannable
  band is at most the scan frontier, and a rewind does not go below the abandoned floor.
\<close>

fun call_ok :: "ledger_op \<Rightarrow> account \<Rightarrow> bool" where
  "call_ok (Record a b p q t) s \<longleftrightarrow> b < UINT32_MAX_VAL"
| "call_ok (HeaderRace h) s \<longleftrightarrow> h < UINT32_MAX_VAL"
| "call_ok _ s = True"

fun gapless_ok :: "ledger_op \<Rightarrow> account \<Rightarrow> bool" where
  "gapless_ok (Record a b p q t) s \<longleftrightarrow>
     a \<le> cfl_requestedThrough (acc_ledger s) + 1 \<and> b < UINT32_MAX_VAL"
| "gapless_ok (HeaderRace h) s \<longleftrightarrow>
     h \<le> cfl_requestedThrough (acc_ledger s) \<and> h < UINT32_MAX_VAL \<and>
     (h \<in> set (cfl_heights (acc_ledger s)) \<or>
      length (cfl_outstanding (acc_ledger s)) < CF_OUTSTANDING_MAX)"
| "gapless_ok (AbandonUnscannable lo f) s \<longleftrightarrow> lo \<le> BRCFScanLedgerLowestNeededHeight (acc_ledger s)"
| "gapless_ok (Rewind nxt) s \<longleftrightarrow> cfl_abandonedBelow (acc_ledger s) \<le> nxt"
| "gapless_ok _ s = True"

lemma gapless_call_ok: "gapless_ok opr s \<Longrightarrow> call_ok opr s"
  by (cases opr) auto

definition acc_done :: "account \<Rightarrow> u32 set" where
  "acc_done a = acc_evaluated a \<union> acc_surfaced a \<union> acc_lost a"

definition account_inv :: "account \<Rightarrow> bool" where
  "account_inv a \<longleftrightarrow> ledger_ok (acc_ledger a) \<and> accounted (acc_ledger a) (acc_done a)"

definition account_init :: "u32 \<Rightarrow> account" where
  "account_init start =
     \<lparr>acc_ledger = BRCFScanLedgerInit start, acc_evaluated = {}, acc_surfaced = {},
      acc_lost = {}\<rparr>"

lemma account_init_inv:
  assumes "0 < start"
  shows "account_inv (account_init start)"
proof -
  have "start - 1 < start"
    using assms word_minus_one_less_iff by blast
  moreover have "start - 1 < UINT32_MAX_VAL"
    using calculation UINT32_MAX_top [of start] by (rule order.strict_trans2)
  ultimately show ?thesis
    using Init_wf [of start] assms
    by (auto simp: account_inv_def account_init_def ledger_ok_def accounted_def BRCFScanLedgerInit_def
        acc_done_def)
qed

lemma ledger_okD:
  assumes "ledger_ok l"
  shows "cfl_wf l" "cfl_requestedThrough l < UINT32_MAX_VAL" "cfl_shape l"
  using assms by (auto simp: ledger_ok_def cfl_wf_def)

lemma accounted_mono: "accounted l D \<Longrightarrow> D \<subseteq> D' \<Longrightarrow> accounted l D'"
  by (auto simp: accounted_def)

section \<open>Each step keeps the account\<close>

lemma account_Evaluated:
  assumes ok: "ledger_ok l" and acc: "accounted l D"
  shows "accounted (BRCFScanLedgerMarkEvaluated l h) (insert h D)"
proof (rule accounted_step [OF acc])
  have "\<exists>l0. BRCFScanLedgerMarkEvaluated l h = cfLedgerAdvance l0 \<and>
      cfl_scannedThrough l0 = cfl_scannedThrough l \<and> cfl_requestedThrough l0 = cfl_requestedThrough l"
    by (auto simp: BRCFScanLedgerMarkEvaluated_def Let_def)
  then show "scan_grows l (BRCFScanLedgerMarkEvaluated l h)"
    using scan_grows_Advance MarkEvaluated_wf [OF ledger_okD(1) [OF ok]] ledger_okD(2) [OF ok]
    by (metis order_refl)
qed (use accountedD(1) [OF acc] MarkEvaluated_holes(1) [OF ledger_okD(3) [OF ok]] in \<open>auto\<close>)

lemma account_Record:
  assumes ok: "ledger_ok l" and acc: "accounted l D"
    and btop: "b < UINT32_MAX_VAL"
  shows "accounted (ledger_step (Record a b p q t) l)
    (D \<union> step_surfaced (Record a b p q t) l \<union> step_lost (Record a b p q t) l)"
proof (cases "b < a \<or> b < cfl_abandonedBelow l")
  case True
  then show ?thesis
    using acc RecordRequestedDropped_noop [OF True, of p q t]
    by (simp add: step_surfaced.simps step_lost.simps BRCFScanLedgerRecordRequested_def)
next
  case False
  then have ab: "a \<le> b" "cfl_abandonedBelow l \<le> b" by auto
  obtain n r l' where rec: "BRCFScanLedgerRecordRequestedDropped l a b p q t = (n, r, l')"
    by (metis prod_cases3)
  note post = RecordRequestedDropped_post [OF ledger_okD(3) [OF ok] ab rec]
  have l': "ledger_step (Record a b p q t) l = l'"
    by (simp add: BRCFScanLedgerRecordRequested_def rec)
  let ?S = "step_surfaced (Record a b p q t) l \<union> step_lost (Record a b p q t) l"
  have lost: "h \<in> ?S" if "cfl_requestedThrough l < h" "cfl_abandonedBelow l \<le> h" "h < a" for h
    using that False by (simp add: step_lost.simps)
  have surf: "h \<in> ?S" if "h \<in> set (cfl_heights l) \<union> {max a (cfl_abandonedBelow l)..b}"
      "h \<notin> holes l'" "h \<noteq> CF_LEDGER_NO_DROP" for h
    using post(8) [OF that(1) _ that(3)] that(2)
    by (auto simp: rec reported_range_def holes_def step_surfaced.simps)
  have gu: "cfl_gaveUp l' = cfl_gaveUp l"
    using post(6) by (simp add: cfl_parks_def)
  have "accounted l' (D \<union> ?S)"
  proof (rule accounted_step [OF acc])
    fix h assume h: "cfl_start l \<le> h" "h \<le> cfl_requestedThrough l'"
    show "h \<in> holes l' \<or> h \<in> D \<union> ?S"
    proof (rule ccontr)
      assume out: "\<not> ?thesis"
      have "h < CF_LEDGER_NO_DROP"
        using h(2) post(4) ledger_okD(2) [OF ok] btop
        by (auto simp: cf_constants max_def split: if_splits)
      moreover have "h \<in> set (cfl_heights l) \<union> {max a (cfl_abandonedBelow l)..b}"
      proof (cases "h \<le> cfl_requestedThrough l")
        case True
        then show ?thesis
          using accountedD(1) [OF acc h(1)] out gu by (auto simp: holes_def)
      next
        case False
        have fl: "cfl_abandonedBelow l \<le> h"
          using accountedD(3) [OF acc h(1)] out by (meson UnI1 linorder_not_less)
        then have "a \<le> h"
          using lost [of h] False out by (meson UnI2 linorder_not_le)
        moreover note fl
        moreover have "h \<le> b"
          using False h(2) post(4) by (auto simp: max_def split: if_splits)
        ultimately show ?thesis
          by simp
      qed
      ultimately show False
        using surf [of h] out by (metis UnI2 less_irrefl)
    qed
  qed (use post in \<open>auto intro: scan_grows_same\<close>)
  then show ?thesis unfolding l' by (simp add: Un_assoc)
qed

lemma holes_MarkHeaderRace_miss:
  assumes shape: "cfl_shape l" and miss: "h \<notin> set (cfl_heights l)" and fl: "cfl_abandonedBelow l \<le> h"
  shows "h \<in> holes (BRCFScanLedgerMarkHeaderRace l h)"
    "length (cfl_outstanding l) < CF_OUTSTANDING_MAX \<Longrightarrow>
     holes l \<subseteq> holes (BRCFScanLedgerMarkHeaderRace l h)"
proof -
  obtain d l1 where ins: "cfLedgerInsertOutstanding l h 0 0 0 = (d, l1)"
    and eqs: "cfl_heights (BRCFScanLedgerMarkHeaderRace l h) = cfl_heights l1"
      "cfl_parks (BRCFScanLedgerMarkHeaderRace l h) = cfl_parks l"
    by (rule MarkHeaderRace_miss [OF shape miss fl])
  note heights = cfLedgerInsertOutstanding_set [OF cfl_shapeD(1) [OF shape], of h 0 0 0,
      unfolded ins snd_conv]
  show "h \<in> holes (BRCFScanLedgerMarkHeaderRace l h)"
    "length (cfl_outstanding l) < CF_OUTSTANDING_MAX \<Longrightarrow>
     holes l \<subseteq> holes (BRCFScanLedgerMarkHeaderRace l h)"
    using eqs heights by (auto simp: holes_def cfl_parks_def)
qed

lemma holes_MarkHeaderRace_hit:
  assumes wf: "cfl_wf l" and hit: "h \<in> set (cfl_heights l)" and fl: "cfl_abandonedBelow l \<le> h"
  shows "holes (BRCFScanLedgerMarkHeaderRace l h) = holes l"
  unfolding MarkHeaderRace_hit [OF cfl_wfD(3) [OF wf] hit fl]
  by (rule cfl_wf_same_heights(2) [OF wf set_headerRace_same])

lemma account_HeaderRace:
  assumes ok: "ledger_ok l" and acc: "accounted l D"
  shows "accounted (BRCFScanLedgerMarkHeaderRace l h) (D \<union> step_lost (HeaderRace h) l)"
proof (cases "h < cfl_abandonedBelow l")
  case True
  then show ?thesis using acc by (simp add: MarkHeaderRace_below step_lost.simps)
next
  case False
  then have fl: "cfl_abandonedBelow l \<le> h" by simp
  note shape = ledger_okD(3) [OF ok]
  show ?thesis
  proof (cases "h \<in> set (cfl_heights l)")
    case True
    have "cfl_marks (BRCFScanLedgerMarkHeaderRace l h) = cfl_marks l"
      unfolding MarkHeaderRace_hit [OF shape True fl] by (rule set_headerRace_same(3))
    then show ?thesis
      using accounted_mono [OF accounted_same [OF acc]] holes_MarkHeaderRace_hit [OF ledger_okD(1) [OF ok] True fl]
      by blast
  next
    case miss: False
    let ?l = "BRCFScanLedgerMarkHeaderRace l h" and ?L = "step_lost (HeaderRace h) l"
    have eqs: "cfl_start ?l = cfl_start l" "cfl_scannedThrough ?l = cfl_scannedThrough l"
        "cfl_abandonedBelow ?l = cfl_abandonedBelow l"
        "cfl_requestedThrough ?l = max (cfl_requestedThrough l) h"
      by (rule MarkHeaderRace_miss [OF shape miss fl]; simp)+
    have L: "?L = {x. cfl_requestedThrough l < x \<and> cfl_abandonedBelow l \<le> x \<and> x < h} \<union>
        (holes l - holes ?l)"
      using leD [OF fl] by (simp add: step_lost.simps)
    have "x \<in> holes ?l \<or> x \<in> D \<union> ?L" if x: "cfl_start l \<le> x" "x \<le> cfl_requestedThrough ?l" for x
    proof (cases "x \<le> cfl_requestedThrough l")
      case True
      then show ?thesis using accountedD(1) [OF acc x(1)] by (auto simp: L)
    next
      case False
      then have "x \<le> h" using x(2) eqs(4) by (simp add: max_def split: if_splits)
      then show ?thesis
        using False accountedD(3) [OF acc x(1)] holes_MarkHeaderRace_miss(1) [OF shape miss fl]
        by (cases "x = h") (auto simp: L not_le order.strict_iff_order)
    qed
    then show ?thesis
      using eqs by (intro accounted_step [OF acc Un_upper1 eqs(1)]) (auto intro: scan_grows_same)
  qed
qed

lemma account_ReArmGaveUp:
  assumes ok: "ledger_ok l" and acc: "accounted l D"
  shows "accounted (snd (BRCFScanLedgerReArmGaveUp l h)) D \<and>
    ledger_ok (snd (BRCFScanLedgerReArmGaveUp l h))"
proof (cases "h < cfl_abandonedBelow l \<or> h \<notin> set (cfl_gaveUp l) \<or>
    length (cfl_outstanding l) \<ge> CF_OUTSTANDING_MAX")
  case True
  then show ?thesis
    using assms ReArmGaveUp_refuse [OF ledger_okD(3) [OF ok] True] by simp
next
  case False
  then have in_g: "h \<in> set (cfl_gaveUp l)" by simp
  have h: "h \<le> cfl_requestedThrough l"
    using cfl_wfD(5) [OF ledger_okD(1) [OF ok]] in_g by (simp add: holes_def)
  obtain l' where l': "BRCFScanLedgerReArmGaveUp l h = (True, l')"
    and eqs: "cfl_start l' = cfl_start l" "cfl_abandonedBelow l' = cfl_abandonedBelow l"
      "cfl_requestedThrough l' = max (cfl_requestedThrough l) h"
      "\<exists>l0. l' = cfLedgerAdvance l0 \<and> cfl_scannedThrough l0 = cfl_scannedThrough l"
    using ReArmGaveUp_accept [OF ledger_okD(3) [OF ok], of h] False by (metis linorder_not_less)
  have req: "cfl_requestedThrough l' = cfl_requestedThrough l"
    using eqs(3) h by simp
  have wf: "cfl_wf l'" and hol: "holes l' = holes l"
    using ReArmGaveUp_holes [OF ledger_okD(1) [OF ok], of h] l' by auto
  have "scan_grows l l'"
    using eqs(4) wf req scan_grows_Advance [of _ l] ledger_okD(2) [OF ok]
    by (metis cfLedgerAdvance_simps(2) order_refl)
  then show ?thesis
    using accounted_same_holes [OF acc eqs(1) hol req] eqs(2) wf req ledger_okD(2) [OF ok]
    by (simp add: l' ledger_ok_def)
qed


lemma ok_rearm_update:
  assumes ok: "ledger_ok l" and acc: "accounted l D"
  defines "l' \<equiv> \<lambda>i. l\<lparr>cfl_outstanding := (cfl_outstanding l)[i := rearm_entry (cfl_outstanding l ! i)]\<rparr>"
  shows "accounted (l' i) D \<and> ledger_ok (l' i)"
proof -
  have "cfl_marks (l' i) = cfl_marks l"
    by (simp add: l'_def cfl_marks_def)
  then show ?thesis
    using accounted_same [OF acc] rearm_update_wf [OF ledger_okD(1) [OF ok], of i] ledger_okD(2) [OF ok]
    by (simp add: l'_def ledger_ok_def)
qed

lemma account_rearmRunLoop:
  "ledger_ok l \<Longrightarrow> accounted l D \<Longrightarrow>
   accounted (snd (rearmRunLoop k n h l)) D \<and> ledger_ok (snd (rearmRunLoop k n h l))"
proof (induction k arbitrary: n h l)
  case 0
  then show ?case by simp
next
  case (Suc k)
  let ?l = "\<lambda>i. l\<lparr>cfl_outstanding := (cfl_outstanding l)[i := rearm_entry (cfl_outstanding l ! i)]\<rparr>"
  note upd = ok_rearm_update [OF Suc.prems]
  obtain b l2 where r: "BRCFScanLedgerReArmGaveUp l h = (b, l2)"
    by fastforce
  then have r2: "accounted l2 D" "ledger_ok l2"
    using account_ReArmGaveUp [OF Suc.prems, of h] by auto
  show ?case
    unfolding rearmRunLoop_Suc Let_def r
    using Suc.prems upd Suc.IH [OF conjunct2 [OF upd] conjunct1 [OF upd]] Suc.IH [OF r2(2,1)] r2
    by (simp split: bool.splits del: rearmRunLoop.simps)
qed

lemma account_Advance:
  assumes ok: "ledger_ok l" and acc: "accounted l D"
  shows "accounted (cfLedgerAdvance l) D \<and> ledger_ok (cfLedgerAdvance l)"
proof -
  have wf: "cfl_wf (cfLedgerAdvance l)"
    by (rule cfLedgerAdvance_wf [OF ledger_okD(1) [OF ok]])
  show ?thesis
    using accounted_same_holes [OF acc _ _ _ scan_grows_Advance [OF wf ledger_okD(2) [OF ok] order_refl]]
      wf ledger_okD(2) [OF ok]
    by (simp add: ledger_ok_def)
qed

lemma account_ReArmParkedRun:
  assumes "ledger_ok l" "accounted l D"
  shows "accounted (snd (BRCFScanLedgerReArmParkedRun l h k)) D \<and>
    ledger_ok (snd (BRCFScanLedgerReArmParkedRun l h k))"
proof -
  obtain n l' where r: "rearmRunLoop k 0 h l = (n, l')"
    by fastforce
  show ?thesis
    using account_rearmRunLoop [OF assms, of k 0 h] account_Advance [of l' D] assms
    by (auto simp: BRCFScanLedgerReArmParkedRun_def r)
qed

lemma account_AbandonGaveUp:
  assumes ok: "ledger_ok l" and acc: "accounted l D"
  shows "accounted (ledger_step (AbandonGaveUp c) l) (D \<union> step_surfaced (AbandonGaveUp c) l)"
proof -
  obtain low n lo hi l' where ab: "BRCFScanLedgerAbandonGaveUpBelow l c = (low, n, lo, hi, l')"
    by (metis prod.collapse)
  note shape = ledger_okD(3) [OF ok]
  note post = AbandonGaveUpBelow_post [OF shape ab]
  let ?t = "abandon_target l c" and ?S = "step_surfaced (AbandonGaveUp c) l"
  have eq: "ledger_step (AbandonGaveUp c) l = l'"
    by (simp add: ab)
  have S: "?S = (if 0 < n then {lo..hi} else {})"
    by (simp add: ab reported_range_def step_surfaced.simps)
  have dropped: "h \<in> ?S" if "h \<in> set (cfl_gaveUp l)" "h < ?t" for h
  proof -
    have "filter (\<lambda>g. g < ?t) (cfl_gaveUp l) \<noteq> []"
      using that by (auto simp: filter_empty_conv)
    then have n: "0 < n"
      using post(4) by simp
    moreover have "lo \<le> h \<and> h \<le> hi"
      using that post(10) [OF n] by (simp add: Min_le Max_ge)
    ultimately show ?thesis by (simp add: S)
  qed
  have hol: "h \<in> holes l' \<or> h \<in> ?S" if "h \<in> holes l" for h
    using that dropped [of h] post(2,3) by (cases "h < ?t") (auto simp: holes_def)
  have "accounted l' (D \<union> ?S)"
  proof (rule accounted_step [OF acc])
    show "h \<in> holes l' \<or> h \<in> D \<union> ?S" if "cfl_start l \<le> h" "h \<le> cfl_requestedThrough l'" for h
      using accountedD(1) [OF acc that(1)] that(2) post(7) hol by auto
    show "h \<in> D \<union> ?S"
      if h: "cfl_start l \<le> h" "cfl_abandonedBelow l \<le> h" "h < cfl_abandonedBelow l'" for h
    proof (rule ccontr)
      assume out: "h \<notin> D \<union> ?S"
      have n: "0 < n"
        proof (rule ccontr)
        assume "\<not> 0 < n"
        then show False using post(9) h by simp
      qed
      let ?G = "{g \<in> set (cfl_gaveUp l). g < ?t}"
      have "?G \<noteq> {}" "finite ?G"
        using n post(4) by (auto simp: filter_empty_conv)
      then have hi: "hi \<in> ?G"
        unfolding conjunct1 [OF conjunct2 [OF post(10) [OF n]]] by (intro Max_in)
      have top: "hi < UINT32_MAX_VAL"
        using cfl_wfD(5) [OF ledger_okD(1) [OF ok], of hi] hi ledger_okD(2) [OF ok]
        by (auto simp: holes_def)
      have "h < hi + 1"
        using post(10) [OF n] h by (auto simp: max_def split: if_splits)
      then have "h \<le> hi"
        using word_less_plus_one_iff [OF top] by simp
      then have "h \<le> cfl_requestedThrough l" "h < ?t"
        using cfl_wfD(5) [OF ledger_okD(1) [OF ok], of hi] hi by (auto simp: holes_def)
      then have "h \<in> holes l"
        using accountedD(1) [OF acc h(1)] out by auto
      then show False
        using dropped [of h] out \<open>h < ?t\<close> abandon_target_le_outstanding [OF cfl_shapeD(1) [OF shape], of h c]
        by (auto simp: holes_def)
    qed
  qed (use post(5) scan_grows_same [OF post(6)] in simp_all)
  then show ?thesis unfolding eq .
qed


lemma unscannable_lo_done:
  assumes ok: "ledger_ok l" and acc: "accounted l D"
    and h: "cfl_start l \<le> h" "h < unscannable_lo l lo"
  shows "h \<in> D \<or> BRCFScanLedgerLowestNeededHeight l \<le> h \<and> h < lo \<and>
    (h \<in> holes l \<or> cfl_requestedThrough l < h)"
proof (cases "h \<le> cfl_scannedThrough l \<or> h < cfl_abandonedBelow l")
  case True
  then show ?thesis using accountedD [OF acc h(1)] by blast
next
  case False
  then have gt: "cfl_scannedThrough l < h" "cfl_abandonedBelow l \<le> h" by auto
  then have low: "BRCFScanLedgerLowestNeededHeight l \<le> h"
    using word_plus_one_le_iff [OF gt(1), of h]
    by (simp add: BRCFScanLedgerLowestNeededHeight_def Let_def)
  have "h < lo"
  proof (rule ccontr)
    assume "\<not> h < lo"
    then have "h < cfl_scannedThrough l + 1"
      using h(2) gt by (auto simp: unscannable_lo_def Let_def not_less split: if_splits)
    then show False
      using gt(1) word_less_plus_one_iff [OF gt(1), of h] by simp
  qed
  then show ?thesis
    using low accountedD(1) [OF acc h(1)] by auto
qed

lemma account_AbandonUnscannable:
  assumes ok: "ledger_ok l" and acc: "accounted l D"
  shows "accounted (ledger_step (AbandonUnscannable lo f) l)
    (D \<union> (step_surfaced (AbandonUnscannable lo f) l \<union> step_lost (AbandonUnscannable lo f) l))"
proof -
  obtain low n l' where ab: "BRCFScanLedgerAbandonUnscannableBelow l lo f = (low, n, l')"
    by (cases "BRCFScanLedgerAbandonUnscannableBelow l lo f") auto
  let ?S = "step_surfaced (AbandonUnscannable lo f) l \<union> step_lost (AbandonUnscannable lo f) l"
  have eq: "ledger_step (AbandonUnscannable lo f) l = l'"
    by (simp add: ab)
  consider (zero) "lo = 0 \<or> f = 0" | (none) "lo \<noteq> 0" "f \<noteq> 0" "f \<le> unscannable_lo l lo"
    | (band) "lo \<noteq> 0" "f \<noteq> 0" "unscannable_lo l lo < f"
    by (meson linorder_not_le)
  then show ?thesis
  proof cases
    case zero
    then show ?thesis
      using acc AbandonUnscannableBelow_noop [OF zero, of l] ab
      by (simp add: step_surfaced.simps step_lost.simps reported_range_def)
  next
    case none
    then show ?thesis
      using accounted_mono [OF acc] AbandonUnscannableBelow_post(2) [OF ledger_okD(3) [OF ok] none(1,2) ab none(3)]
      unfolding eq by simp
  next
    case band
    note shape = ledger_okD(3) [OF ok]
    have n: "n = f - unscannable_lo l lo"
      by (rule AbandonUnscannableBelow_post(3) [OF shape band(1,2) ab band(3)])
    have post: "set (cfl_heights l') = {h \<in> set (cfl_heights l). f \<le> h}"
      "set (cfl_gaveUp l') = {h \<in> set (cfl_gaveUp l). f \<le> h}" "cfl_start l' = cfl_start l"
      "cfl_requestedThrough l' = cfl_requestedThrough l"
      "cfl_abandonedBelow l' = max (cfl_abandonedBelow l) f"
      "\<exists>l0. l' = cfLedgerAdvance l0 \<and> cfl_scannedThrough l0 = cfl_scannedThrough l"
      using AbandonUnscannableBelow_post(4) [OF shape band(1,2) ab band(3)] by blast+
    have "0 < f" "n \<noteq> 0"
      using band n by (auto simp: word_neq_0_conv [symmetric])
    then have S: "?S = {unscannable_lo l lo..f - 1} \<union> {h. BRCFScanLedgerLowestNeededHeight l \<le> h \<and>
        h < lo \<and> (h \<in> holes l \<or> cfl_requestedThrough l < h)}"
      by (simp add: step_surfaced.simps step_lost.simps ab reported_range_def n unat_gt_0)
    have below: "h \<in> D \<union> ?S" if "cfl_start l \<le> h" "h < f" for h
    proof (cases "h < unscannable_lo l lo")
      case True
      then show ?thesis using unscannable_lo_done [OF ok acc that(1)] unfolding S by blast
    next
      case False
      then show ?thesis
        using that(2) word_le_minus_one_iff [OF \<open>0 < f\<close>, of h] by (simp add: S not_less)
    qed
    have "accounted l' (D \<union> ?S)"
    proof (rule accounted_step [OF acc])
      have keep: "x \<in> holes l'" if "x \<in> holes l" "f \<le> x" for x
        using that unfolding holes_def post(1,2) by blast
      show "h \<in> holes l' \<or> h \<in> D \<union> ?S" if h: "cfl_start l \<le> h" "h \<le> cfl_requestedThrough l'" for h
      proof (cases "h < f")
        case True
        then show ?thesis using below [OF h(1)] by blast
      next
        case False
        then show ?thesis
          using accountedD(1) [OF acc h(1)] h(2) post(4) keep [of h] by (auto simp: not_less)
      qed
      obtain l0 where l0: "l' = cfLedgerAdvance l0" "cfl_scannedThrough l0 = cfl_scannedThrough l"
        using post(6) by blast
      show "scan_grows l l'"
        using scan_grows_Advance [of l0 l] AbandonUnscannableBelow_wf [OF ledger_okD(1) [OF ok] ab]
          ledger_okD(2) [OF ok] post(4) l0
        by simp
      show "h \<in> D \<union> ?S" if "cfl_start l \<le> h" "cfl_abandonedBelow l \<le> h" "h < cfl_abandonedBelow l'" for h
        using below [OF that(1)] that post(5) by (auto simp: max_def split: if_splits)
    qed (use post in auto)
    then show ?thesis unfolding eq .
  qed
qed

lemma account_Rewind:
  assumes ok: "ledger_ok l" and acc: "accounted l D" and nxt: "nxt \<noteq> 0"
  shows "accounted (ledger_step (Rewind nxt) l) ({h \<in> D. h < nxt} \<union> step_lost (Rewind nxt) l)"
proof -
  obtain ch l' where rw: "BRCFScanLedgerRewindTo l nxt = (ch, l')"
    by fastforce
  have eq: "ledger_step (Rewind nxt) l = l'"
    by (simp add: rw)
  note shape = ledger_okD(3) [OF ok]
  note post = RewindTo_post [OF shape nxt rw]
  have wf: "cfl_wf l'" and hol: "holes l' = {h \<in> holes l. h < nxt}"
    using RewindTo_wf [OF ledger_okD(1) [OF ok] rw] nxt by auto
  let ?D = "{h \<in> D. h < nxt} \<union> step_lost (Rewind nxt) l"
  have pos: "0 < nxt" using nxt by (simp add: word_neq_0_conv)
  have lt: "h < nxt" if "h \<le> cfl_requestedThrough l'" for h
    using that post(5) word_le_minus_one_iff [OF pos, of h] by simp
  obtain l0 where l0: "l' = cfLedgerAdvance l0" "cfl_scannedThrough l0 = min (cfl_scannedThrough l) (nxt - 1)"
    using post(7) by blast
  have req: "cfl_requestedThrough l' \<le> cfl_requestedThrough l"
    using post(5) by simp
  have req0: "cfl_requestedThrough l0 < UINT32_MAX_VAL"
    using l0(1) req ledger_okD(2) [OF ok] by (metis cfLedgerAdvance_simps(2) order.strict_trans1)
  have sg: "scan_grows l l'"
    unfolding l0(1) by (rule scan_grows_Advance) (use wf l0 req0 in simp_all)
  have start: "cfl_start l \<le> h" if "cfl_start l' \<le> h" "h < nxt" for h
    using that post(4) by (auto simp: min_def split: if_splits)
  have A1: "h \<in> holes l' \<or> h \<in> ?D" if "cfl_start l' \<le> h" "h \<le> cfl_requestedThrough l'" for h
    using accountedD(1) [OF acc start [OF that(1) lt [OF that(2)]] order_trans [OF that(2) req]]
      lt [OF that(2)] hol by blast
  have A2: "h \<in> ?D" if "cfl_start l' \<le> h" "h \<le> cfl_scannedThrough l'" for h
  proof -
    have h: "h \<le> cfl_requestedThrough l'"
      using that(2) cfl_wfD(6) [OF wf] by (rule order_trans)
    show ?thesis
    proof (cases "h \<le> cfl_scannedThrough l")
      case True
      then show ?thesis
        using accountedD(2) [OF acc start [OF that(1) lt [OF h]]] lt [OF h] by simp
    next
      case False
      then show ?thesis
        using sg that(2) A1 [OF that(1) h] by (auto simp: scan_grows_def not_le)
    qed
  qed
  have A3: "h \<in> ?D" if "cfl_start l' \<le> h" "h < cfl_abandonedBelow l'" for h
    using that(2) accountedD(3) [OF acc start [OF that(1)]] unfolding post(6)
    by (cases "h < nxt") (auto simp: step_lost.simps not_less)
  have "accounted l' ?D"
    unfolding accounted_def using A1 A2 A3 by blast
  then show ?thesis unfolding eq .
qed


lemma accounted_UNIV: "accounted l UNIV"
  by (simp add: accounted_def)

lemma Retire_floor_req:
  "cfl_requestedThrough (snd (BRCFScanLedgerRetireAbandonedTo l f)) = cfl_requestedThrough l"
  by (simp add: BRCFScanLedgerRetireAbandonedTo_def)

lemma Record_requested:
  assumes shape: "cfl_shape l"
  shows "cfl_requestedThrough (ledger_step (Record a b p q t) l) \<le> max (cfl_requestedThrough l) b"
proof (cases "b < a \<or> b < cfl_abandonedBelow l")
  case True
  then show ?thesis
    using RecordRequestedDropped_noop [OF True, of p q t]
    by (simp add: BRCFScanLedgerRecordRequested_def)
next
  case False
  obtain n r l' where rec: "BRCFScanLedgerRecordRequestedDropped l a b p q t = (n, r, l')"
    by (metis prod_cases3)
  show ?thesis
    using RecordRequestedDropped_post(4) [OF shape _ _ rec] False
    by (simp add: BRCFScanLedgerRecordRequested_def rec not_less)
qed

lemma HeaderRace_requested:
  assumes shape: "cfl_shape l"
  shows "cfl_requestedThrough (BRCFScanLedgerMarkHeaderRace l h) \<le> max (cfl_requestedThrough l) h"
proof (cases "h < cfl_abandonedBelow l")
  case True
  then show ?thesis by (simp add: MarkHeaderRace_below)
next
  case False
  then have fl: "cfl_abandonedBelow l \<le> h" by simp
  show ?thesis
  proof (cases "h \<in> set (cfl_heights l)")
    case True
    have "cfl_requestedThrough (set_headerRace l i) = cfl_requestedThrough l" for i
      by (simp add: set_headerRace_def)
    then show ?thesis
      by (simp add: MarkHeaderRace_hit [OF shape True fl])
  next
    case False
    then show ?thesis
      by (rule MarkHeaderRace_miss [OF shape _ fl]) simp
  qed
qed

lemma AbandonUnscannable_requested:
  assumes shape: "cfl_shape l"
  shows "cfl_requestedThrough (ledger_step (AbandonUnscannable lo f) l) = cfl_requestedThrough l"
proof -
  obtain low n l' where ab: "BRCFScanLedgerAbandonUnscannableBelow l lo f = (low, n, l')"
    by (cases "BRCFScanLedgerAbandonUnscannableBelow l lo f") auto
  show ?thesis
    using AbandonUnscannableBelow_noop [of lo f l] AbandonUnscannableBelow_post(2,4) [OF shape _ _ ab]
    by (cases "lo = 0 \<or> f = 0"; cases "f \<le> unscannable_lo l lo") (auto simp: ab not_le)
qed

lemma AbandonGaveUp_requested:
  assumes shape: "cfl_shape l"
  shows "cfl_requestedThrough (ledger_step (AbandonGaveUp c) l) = cfl_requestedThrough l"
proof -
  obtain low n lo hi l' where ab: "BRCFScanLedgerAbandonGaveUpBelow l c = (low, n, lo, hi, l')"
    by (metis prod.collapse)
  show ?thesis
    using AbandonGaveUpBelow_post(7) [OF shape ab] by (simp add: ab)
qed

lemma Rewind_requested:
  assumes shape: "cfl_shape l"
  shows "cfl_requestedThrough (ledger_step (Rewind nxt) l) \<le> cfl_requestedThrough l"
proof -
  obtain ch l' where rw: "BRCFScanLedgerRewindTo l nxt = (ch, l')"
    by fastforce
  show ?thesis
    using RewindTo_post(5) [OF shape _ rw] rw by (cases "nxt = 0") (auto simp: RewindTo_zero)
qed

text \<open>Every step that follows the calling rules keeps the request mark under the sentinel.\<close>

lemma step_requested:
  assumes ok: "ledger_ok (acc_ledger s)" and pre: "call_ok opr s"
  shows "cfl_requestedThrough (ledger_step opr (acc_ledger s)) < UINT32_MAX_VAL"
proof -
  let ?l = "acc_ledger s"
  note shape = ledger_okD(3) [OF ok] and top = ledger_okD(2) [OF ok]
  note ok_rearm = conjunct2 [OF account_ReArmGaveUp [OF ok accounted_UNIV]]
    conjunct2 [OF account_ReArmParkedRun [OF ok accounted_UNIV]]
  have marks: "cfl_requestedThrough l' < UINT32_MAX_VAL" if "cfl_marks l' = cfl_marks ?l" for l'
    using that top by (simp add: cfl_marks_def)
  show ?thesis
  proof (cases opr)
    case (Record a b p q t)
    then have "max (cfl_requestedThrough ?l) b < UINT32_MAX_VAL"
      using pre top by (simp add: max_def)
    then show ?thesis
      unfolding Record using Record_requested [OF shape] by (rule order.strict_trans1 [rotated])
  next
    case (HeaderRace h)
    then have "max (cfl_requestedThrough ?l) h < UINT32_MAX_VAL"
      using pre top by simp
    then show ?thesis
      unfolding HeaderRace ledger_step.simps using HeaderRace_requested [OF shape]
      by (rule order.strict_trans1 [rotated])
  next
    case (LostPeer p q)
    show ?thesis unfolding LostPeer ledger_step.simps by (rule marks [OF ReArmPeer_same(3)])
  next
    case RetireCappedOp
    show ?thesis
      unfolding RetireCappedOp ledger_step.simps by (rule marks [OF RetireCapped_post(2) [OF shape]])
  next
    case (NextRerequest t)
    show ?thesis
      unfolding NextRerequest ledger_step.simps by (rule marks [OF NextRerequest_post(2) [OF shape]])
  next
    case (Commit a b p q t)
    show ?thesis unfolding Commit ledger_step.simps by (rule marks [OF CommitRerequest_same(3)])
  next
    case (OffersMissed a b)
    show ?thesis unfolding OffersMissed ledger_step.simps by (rule marks [OF MarkOffersMissed_same(3)])
  next
    case (Rewind nxt)
    show ?thesis
      unfolding Rewind using Rewind_requested [OF shape] top by (rule order.strict_trans1)
  qed (use top ok_rearm in \<open>simp_all add: Retire_floor_req AbandonGaveUp_requested [OF shape]
      AbandonUnscannable_requested [OF shape] ledger_okD(2) del: ledger_step.simps(12,13)\<close>)
qed

lemma step_ok:
  "ledger_ok (acc_ledger s) \<Longrightarrow> call_ok opr s \<Longrightarrow> ledger_ok (ledger_step opr (acc_ledger s))"
  using step_requested step_wf by (simp add: ledger_ok_def)

text \<open>The ledger of a stepped account, and what is accounted for after it.\<close>

lemma account_step_ledger: "acc_ledger (account_step opr a) = ledger_step opr (acc_ledger a)"
  by (cases opr) (auto simp: RewindTo_zero)

lemma account_step_inv:
  assumes inv: "account_inv a" and pre: "call_ok opr a"
  shows "account_inv (account_step opr a)"
proof -
  let ?l = "acc_ledger a" and ?D = "acc_done a" and ?a' = "account_step opr a"
  have ok: "ledger_ok ?l" and acc: "accounted ?l ?D"
    using inv by (auto simp: account_inv_def)
  note shape = ledger_okD(3) [OF ok] and wf = ledger_okD(1) [OF ok]
  note same = accounted_same [OF acc]
  have "accounted (ledger_step opr ?l) (acc_done ?a')"
  proof (cases opr)
    case (Record x y p q t)
    then show ?thesis
      using account_Record [OF ok acc] pre by (simp add: acc_done_def Un_ac)
  next
    case (Evaluated h)
    then show ?thesis
      using account_Evaluated [OF ok acc, of h] by (simp add: acc_done_def)
  next
    case (HeaderRace h)
    then show ?thesis
      using account_HeaderRace [OF ok acc, of h] by (simp add: acc_done_def step_surfaced.simps Un_ac)
  next
    case (AbandonGaveUp c)
    then show ?thesis
      using account_AbandonGaveUp [OF ok acc] by (simp add: acc_done_def step_lost.simps Un_ac)
  next
    case (AbandonUnscannable lo f)
    then show ?thesis
      using account_AbandonUnscannable [OF ok acc] by (simp add: acc_done_def Un_ac)
  next
    case (Rewind nxt)
    show ?thesis
    proof (cases "nxt = 0")
      case True
      then show ?thesis using acc Rewind by (simp add: RewindTo_zero)
    next
      case False
      then show ?thesis
        using account_Rewind [OF ok acc False] Rewind
        by (simp add: acc_done_def Collect_disj_eq [symmetric] Un_assoc [symmetric] conj_disj_distribR disj_assoc)
    qed
  next
    case (LostPeer p q)
    then show ?thesis
      using same [OF ReArmPeer_same(3) ReArmPeer_wf(2) [OF wf]]
      by (simp add: acc_done_def step_surfaced.simps step_lost.simps)
  next
    case RetireCappedOp
    then show ?thesis
      using same [OF RetireCapped_post(2,3) [OF shape]] by (simp add: acc_done_def step_surfaced.simps step_lost.simps)
  next
    case (NextRerequest t)
    then show ?thesis
      using same [OF NextRerequest_post(2,3) [OF shape]] by (simp add: acc_done_def step_surfaced.simps step_lost.simps)
  next
    case (Commit x y p q t)
    then show ?thesis
      using same [OF CommitRerequest_same(3) CommitRerequest_wf(2) [OF wf]]
      by (simp add: acc_done_def step_surfaced.simps step_lost.simps)
  next
    case (OffersMissed x y)
    then show ?thesis
      using same [OF MarkOffersMissed_same(3) MarkOffersMissed_wf(2) [OF wf]]
      by (simp add: acc_done_def step_surfaced.simps step_lost.simps)
  next
    case (ReArm h)
    then show ?thesis
      using account_ReArmGaveUp [OF ok acc, of h] by (simp add: acc_done_def step_surfaced.simps step_lost.simps)
  next
    case (ReArmRun h k)
    then show ?thesis
      using account_ReArmParkedRun [OF ok acc, of h k] by (simp add: acc_done_def step_surfaced.simps step_lost.simps)
  next
    case (RetireFloor f)
    have "accounted (snd (BRCFScanLedgerRetireAbandonedTo ?l f)) ?D"
      by (rule accounted_same_holes [OF acc _ RetireAbandonedTo_wf(2) [OF wf]])
        (auto simp: BRCFScanLedgerRetireAbandonedTo_def intro: scan_grows_same)
    then show ?thesis
      using RetireFloor by (simp add: acc_done_def step_surfaced.simps step_lost.simps)
  qed
  then show ?thesis
    using step_ok [OF ok pre] by (simp add: account_inv_def account_step_ledger)
qed

section \<open>Runs\<close>

interpretation scan_account: guarded_machine account_step call_ok account_inv
  by unfold_locales (rule account_step_inv)

text \<open>A call that follows the discipline loses no height.\<close>

lemma gapless_step_lost:
  assumes ok: "ledger_ok (acc_ledger a)" and pre: "gapless_ok opr a"
  shows "step_lost opr (acc_ledger a) = {}"
proof (cases opr)
  case (Record x y p q t)
  let ?r = "cfl_requestedThrough (acc_ledger a)"
  have "x \<le> h" if "?r < h" for h
    using pre that word_plus_one_le_iff [OF that, of h] by (auto simp: Record intro: order_trans)
  then show ?thesis
    by (auto simp: Record step_lost.simps not_less[symmetric])
next
  case (HeaderRace x)
  let ?l = "acc_ledger a"
  have "holes ?l \<subseteq> holes (BRCFScanLedgerMarkHeaderRace ?l x)" if "cfl_abandonedBelow ?l \<le> x"
    using pre holes_MarkHeaderRace_hit [OF ledger_okD(1) [OF ok] _ that]
      holes_MarkHeaderRace_miss(2) [OF ledger_okD(3) [OF ok] _ that]
    by (auto simp: HeaderRace)
  then show ?thesis
    using pre by (auto simp: HeaderRace step_lost.simps)
qed (use pre in \<open>auto simp: step_lost.simps split: prod.splits\<close>)

interpretation gapless_scan:
  guarded_machine account_step gapless_ok "\<lambda>a. account_inv a \<and> acc_lost a = {}"
proof unfold_locales
  fix a opr assume a: "account_inv a \<and> acc_lost a = {}" and pre: "gapless_ok opr a"
  have "step_lost opr (acc_ledger a) = {}"
    using gapless_step_lost [OF _ pre] a by (simp add: account_inv_def)
  then have "acc_lost (account_step opr a) = {}"
    using a by (cases opr) auto
  then show "account_inv (account_step opr a) \<and> acc_lost (account_step opr a) = {}"
    using account_step_inv [OF _ gapless_call_ok [OF pre]] a by blast
qed

text \<open>Without a rewind the high-water mark only rises.\<close>

definition forward_ok :: "ledger_op \<Rightarrow> account \<Rightarrow> bool" where
  "forward_ok opr a \<longleftrightarrow> call_ok opr a \<and> (case opr of Rewind n \<Rightarrow> False | _ \<Rightarrow> True)"

lemma ReArmGaveUp_scanned:
  assumes shape: "cfl_shape l"
  shows "cfl_scannedThrough l \<le> cfl_scannedThrough (snd (BRCFScanLedgerReArmGaveUp l h))"
proof (cases "h < cfl_abandonedBelow l \<or> h \<notin> set (cfl_gaveUp l) \<or>
    length (cfl_outstanding l) \<ge> CF_OUTSTANDING_MAX")
  case True
  then show ?thesis using ReArmGaveUp_refuse [OF shape True] by simp
next
  case False
  then have *: "cfl_abandonedBelow l \<le> h" "h \<in> set (cfl_gaveUp l)"
    "length (cfl_outstanding l) < CF_OUTSTANDING_MAX" by auto
  show ?thesis
    by (rule ReArmGaveUp_accept [OF shape *]) simp
qed

lemma rearmRunLoop_scanned:
  "cfl_wf l \<Longrightarrow> cfl_scannedThrough l \<le> cfl_scannedThrough (snd (rearmRunLoop k n h l))"
proof (induction k arbitrary: n h l)
  case 0
  then show ?case by simp
next
  case (Suc k)
  obtain b l1 where re: "BRCFScanLedgerReArmGaveUp l h = (b, l1)" by force
  have l1: "cfl_wf l1"
    using ReArmGaveUp_holes(2) [OF Suc.prems, of h] by (simp add: re)
  have le: "cfl_scannedThrough l \<le> cfl_scannedThrough l1"
    using ReArmGaveUp_scanned [OF cfl_wfD(3) [OF Suc.prems], of h] by (simp add: re)
  note a = Suc.IH [OF rearm_update_wf(1) [OF Suc.prems]] and b = order_trans [OF le Suc.IH [OF l1]]
  show ?case
    unfolding rearmRunLoop_Suc Let_def re
    using a b le by (simp split: bool.splits del: rearmRunLoop.simps)
qed

lemma step_scanned:
  assumes ok: "ledger_ok l" and fwd: "\<not> (\<exists>n. opr = Rewind n)"
  shows "cfl_scannedThrough l \<le> cfl_scannedThrough (ledger_step opr l)"
proof -
  note shape = ledger_okD(3) [OF ok] and wf = ledger_okD(1) [OF ok]
  have marks: "cfl_scannedThrough l \<le> cfl_scannedThrough l'" if "cfl_marks l' = cfl_marks l" for l'
    using that by (simp add: cfl_marks_def)
  show ?thesis
  proof (cases opr)
    case (Record a b p q t)
    show ?thesis
    proof (cases "b < a \<or> b < cfl_abandonedBelow l")
      case True
      then show ?thesis
        using RecordRequestedDropped_noop [OF True, of p q t] Record
        by (simp add: BRCFScanLedgerRecordRequested_def)
    next
      case False
      obtain n r l' where rec: "BRCFScanLedgerRecordRequestedDropped l a b p q t = (n, r, l')"
        by (metis prod_cases3)
      show ?thesis
        using RecordRequestedDropped_post(3) [OF shape _ _ rec] False Record
        by (simp add: BRCFScanLedgerRecordRequested_def rec not_less)
    qed
  next
    case (Evaluated h)
    have "\<exists>l0. BRCFScanLedgerMarkEvaluated l h = cfLedgerAdvance l0 \<and>
        cfl_scannedThrough l0 = cfl_scannedThrough l"
      by (auto simp: BRCFScanLedgerMarkEvaluated_def Let_def)
    then show ?thesis
      using cfLedgerAdvance_mono Evaluated by (metis ledger_step.simps(2))
  next
    case (HeaderRace h)
    show ?thesis
    proof (cases "h < cfl_abandonedBelow l")
      case True
      then show ?thesis by (simp add: HeaderRace MarkHeaderRace_below)
    next
      case False
      then have fl: "cfl_abandonedBelow l \<le> h" by simp
      show ?thesis
      proof (cases "h \<in> set (cfl_heights l)")
        case True
        have "cfl_scannedThrough (set_headerRace l i) = cfl_scannedThrough l" for i
          by (simp add: set_headerRace_def)
        then show ?thesis
          by (simp add: HeaderRace MarkHeaderRace_hit [OF shape True fl])
      next
        case False
        then show ?thesis
          by (rule MarkHeaderRace_miss [OF shape _ fl]) (simp add: HeaderRace)
      qed
    qed
  next
    case (LostPeer p q)
    show ?thesis unfolding LostPeer ledger_step.simps by (rule marks [OF ReArmPeer_same(3)])
  next
    case RetireCappedOp
    show ?thesis
      unfolding RetireCappedOp ledger_step.simps by (rule marks [OF RetireCapped_post(2) [OF shape]])
  next
    case (NextRerequest t)
    show ?thesis
      unfolding NextRerequest ledger_step.simps by (rule marks [OF NextRerequest_post(2) [OF shape]])
  next
    case (Commit a b p q t)
    show ?thesis unfolding Commit ledger_step.simps by (rule marks [OF CommitRerequest_same(3)])
  next
    case (OffersMissed a b)
    show ?thesis unfolding OffersMissed ledger_step.simps by (rule marks [OF MarkOffersMissed_same(3)])
  next
    case (ReArm h)
    then show ?thesis using ReArmGaveUp_scanned [OF shape] by simp
  next
    case (ReArmRun h k)
    obtain n l' where r: "rearmRunLoop k 0 h l = (n, l')" by fastforce
    then have "cfl_scannedThrough l \<le> cfl_scannedThrough l'"
      using rearmRunLoop_scanned [OF wf, of k 0 h] by simp
    then show ?thesis
      using ReArmRun cfLedgerAdvance_mono [of l']
      by (auto simp: BRCFScanLedgerReArmParkedRun_def r intro: order_trans)
  next
    case (RetireFloor f)
    then show ?thesis by (simp add: BRCFScanLedgerRetireAbandonedTo_def)
  next
    case (AbandonGaveUp c)
    obtain low n lo hi l' where ab: "BRCFScanLedgerAbandonGaveUpBelow l c = (low, n, lo, hi, l')"
      by (metis prod.collapse)
    show ?thesis
      using AbandonGaveUpBelow_post(6) [OF shape ab] AbandonGaveUp by (simp add: ab)
  next
    case (AbandonUnscannable lo f)
    obtain low n l' where ab: "BRCFScanLedgerAbandonUnscannableBelow l lo f = (low, n, l')"
      by (cases "BRCFScanLedgerAbandonUnscannableBelow l lo f") auto
    show ?thesis
    proof (cases "lo = 0 \<or> f = 0 \<or> f \<le> unscannable_lo l lo")
      case True
      then have "l' = l"
        using AbandonUnscannableBelow_noop [of lo f l] AbandonUnscannableBelow_post(2) [OF shape _ _ ab] ab
        by auto
      then show ?thesis using AbandonUnscannable ab by simp
    next
      case False
      then obtain l0 where "l' = cfLedgerAdvance l0" "cfl_scannedThrough l0 = cfl_scannedThrough l"
        using AbandonUnscannableBelow_post(4) [OF shape _ _ ab] by (auto simp: not_le)
      then show ?thesis
        using cfLedgerAdvance_mono [of l0] AbandonUnscannable ab by simp
    qed
  qed (use fwd in simp)
qed

interpretation forward_scan:
  monotone_machine account_step forward_ok account_inv "\<lambda>a. cfl_scannedThrough (acc_ledger a)"
proof unfold_locales
  show "account_inv (account_step opr a)" if "account_inv a" "forward_ok opr a" for a opr
    using account_step_inv that by (simp add: forward_ok_def)
  show "cfl_scannedThrough (acc_ledger a) \<le> cfl_scannedThrough (acc_ledger (account_step opr a))"
    if "account_inv a" "forward_ok opr a" for a opr
  proof -
    have "\<not> (\<exists>n. opr = Rewind n)"
      using that(2) by (auto simp: forward_ok_def)
    then show ?thesis
      using step_scanned [of "acc_ledger a" opr] that(1) by (simp add: account_inv_def account_step_ledger)
  qed
qed

end
