(* ===== verification/ScanLedgerProps.thy ===== *)
theory ScanLedgerProps
  imports ScanLedgerRun
begin

text \<open>
  The properties of the scan ledger's height operations (\<open>src/BRCFScanLedger.c\<close>), each with a
  concrete instance on \<open>sample_ledger\<close>.
\<close>

section \<open>The merge behind the hole ranges\<close>

abbreviation range_set :: "u32 \<times> u32 \<Rightarrow> u32 set" where
  "range_set r \<equiv> {fst r..snd r}"

text \<open>Ranges in order, none empty, with at least one height between two of them.\<close>

definition ranges_ok :: "(u32 \<times> u32) list \<Rightarrow> bool" where
  "ranges_ok rs \<longleftrightarrow> (\<forall>r\<in>set rs. fst r \<le> snd r) \<and>
     sorted_wrt (\<lambda>r r'. unat (snd r) + 1 < unat (fst r')) rs"

abbreviation with_cur :: "(u32 \<times> u32) option \<Rightarrow> (u32 \<times> u32) list \<Rightarrow> (u32 \<times> u32) list" where
  "with_cur cur out \<equiv> out @ (case cur of None \<Rightarrow> [] | Some r \<Rightarrow> [r])"

definition scan_from :: "u32 set \<Rightarrow> (u32 \<times> u32) option \<Rightarrow> (u32 \<times> u32) list \<Rightarrow> bool" where
  "scan_from H cur out \<longleftrightarrow> ranges_ok (with_cur cur out) \<and> (cur = None \<longrightarrow> out = []) \<and>
     (\<forall>r h. cur = Some r \<longrightarrow> h \<in> H \<longrightarrow> snd r < h)"

lemma Icc_plus_one:
  fixes a b c :: u32
  assumes "a \<le> b" "b < c"
  shows "{a..b + 1} = insert (b + 1) {a..b}"
proof -
  have "x \<le> b + 1 \<longleftrightarrow> x = b + 1 \<or> x \<le> b" for x
    using word_less_plus_one_iff [OF assms(2), of x] by (auto simp: order.order_iff_strict)
  moreover have "a < b + 1"
    using word_less_plus_one_iff [OF assms(2), of a] assms(1) by simp
  ultimately show ?thesis using assms(1) by (auto intro: order.strict_implies_order)
qed

text \<open>The merge takes the lowest height of the two arrays.\<close>

lemma merge_pick:
  fixes os gs :: "u32 list"
  assumes "sorted_wrt (<) os" "sorted_wrt (<) gs" and "\<not> (os = [] \<and> gs = [])"
  defines "fromOut \<equiv> os \<noteq> [] \<and> (gs = [] \<or> hd os \<le> hd gs)"
  defines "h \<equiv> if fromOut then hd os else hd gs"
  defines "gs' \<equiv> if fromOut then (if gs \<noteq> [] \<and> hd gs = h then tl gs else gs) else tl gs"
  defines "os' \<equiv> if fromOut then tl os else os"
  shows "set os \<union> set gs = insert h (set os' \<union> set gs')"
    and "sorted_wrt (<) os'" and "sorted_wrt (<) gs'" and "x \<in> set os' \<union> set gs' \<Longrightarrow> h < x"
proof -
  consider (o) o' ot where "os = o' # ot" "gs = []" | (g) g gt where "os = []" "gs = g # gt"
    | (b) o' ot g gt where "os = o' # ot" "gs = g # gt"
    using assms(3) by (cases os; cases gs) auto
  then have all: "set os \<union> set gs = insert h (set os' \<union> set gs') \<and> sorted_wrt (<) os' \<and>
      sorted_wrt (<) gs' \<and> (\<forall>x\<in>set os' \<union> set gs'. h < x)"
  proof cases
    case b
    consider "o' < g" | "o' = g" | "g < o'" by (rule linorder_cases)
    then show ?thesis
      using assms(1,2) b by cases (auto simp: os'_def gs'_def h_def fromOut_def)
  qed (use assms(1,2) in \<open>auto simp: os'_def gs'_def h_def fromOut_def\<close>)
  then show "set os \<union> set gs = insert h (set os' \<union> set gs')" "sorted_wrt (<) os'"
    "sorted_wrt (<) gs'" "x \<in> set os' \<union> set gs' \<Longrightarrow> h < x"
    by blast+
qed

lemma ranges_ok_snoc:
  "ranges_ok (rs @ [r]) \<longleftrightarrow>
     ranges_ok rs \<and> fst r \<le> snd r \<and> (\<forall>q\<in>set rs. unat (snd q) + 1 < unat (fst r))"
  by (auto simp: ranges_ok_def sorted_wrt_append)

lemma scan_from_first:
  assumes "scan_from (insert h H) None out" and "\<And>x. x \<in> H \<Longrightarrow> h < x"
  shows "scan_from H (Some (h, h)) out"
  using assms by (auto simp: scan_from_def ranges_ok_def)

lemma scan_from_extend:
  assumes "scan_from (insert h H) (Some (s, e)) out" and "\<And>x. x \<in> H \<Longrightarrow> h < x" and "h = e + 1"
  shows "scan_from H (Some (s, h)) out"
  using assms word_less_plus_one_iff [of e h s]
  by (auto simp: scan_from_def ranges_ok_snoc)

lemma scan_from_close:
  assumes sc: "scan_from (insert h H) (Some (s, e)) out" and lt: "\<And>x. x \<in> H \<Longrightarrow> h < x"
    and gap: "h \<noteq> e + 1"
  shows "scan_from H (Some (h, h)) (out @ [(s, e)])"
proof -
  have e: "e < h" using sc by (auto simp: scan_from_def)
  have "unat e + 1 \<noteq> unat h"
    using gap unat_plus_one [OF e] by (auto simp: word_unat_eq_iff)
  moreover have "unat e < unat h" using e by (simp add: word_less_nat_alt)
  ultimately have "unat e + 1 < unat h" by simp
  moreover have "unat (snd q) + 1 < unat h" if "q \<in> set out" for q
  proof -
    have "unat (snd q) + 1 < unat s" "s \<le> e"
      using sc that by (auto simp: scan_from_def ranges_ok_snoc)
    then show ?thesis using e by (simp add: word_less_nat_alt word_le_nat_alt)
  qed
  moreover have "ranges_ok (out @ [(s, e)])"
    using sc by (simp add: scan_from_def)
  ultimately have "ranges_ok ((out @ [(s, e)]) @ [(h, h)])"
    unfolding ranges_ok_snoc [of "out @ [(s, e)]"] by auto
  then show ?thesis
    using lt by (simp add: scan_from_def)
qed


lemma scan_from_covered:
  assumes "scan_from (insert h H) (Some (s, e)) out" and "h = e + 1"
  shows "{s..h} = insert h {s..e}"
  using assms Icc_plus_one [of s e h] by (auto simp: scan_from_def ranges_ok_snoc)

lemma holeRangesLoop_ok:
  assumes "sorted_wrt (<) os" "sorted_wrt (<) gs" "scan_from (set os \<union> set gs) cur out"
    and "length out < cap"
  shows "ranges_ok (holeRangesLoop cap os gs cur out) \<and>
    length (holeRangesLoop cap os gs cur out) \<le> cap \<and>
    (length (holeRangesLoop cap os gs cur out) < cap \<longrightarrow>
      \<Union> (range_set ` set (holeRangesLoop cap os gs cur out)) =
      \<Union> (range_set ` set (with_cur cur out)) \<union> set os \<union> set gs)"
  using assms
proof (induction cap os gs cur out rule: holeRangesLoop.induct)
  case (1 cap os gs cur out)
  show ?case
  proof (cases "os = [] \<and> gs = []")
    case True
    then show ?thesis
      using "1.prems" by (cases cur) (auto simp: holeRangesLoop.simps [of cap "[]" "[]"] scan_from_def ranges_ok_def)
  next
    case ne: False
    define fromOut where "fromOut = (os \<noteq> [] \<and> (gs = [] \<or> hd os \<le> hd gs))"
    define h where "h = (if fromOut then hd os else hd gs)"
    define gs' where "gs' = (if fromOut then (if gs \<noteq> [] \<and> hd gs = h then tl gs else gs) else tl gs)"
    define os' where "os' = (if fromOut then tl os else os)"
    have eq: "holeRangesLoop cap os gs cur out =
      (case cur of
         None \<Rightarrow> holeRangesLoop cap os' gs' (Some (h, h)) out
       | Some (curStart, curEnd) \<Rightarrow>
           if h = curEnd then holeRangesLoop cap os' gs' cur out
           else if h = curEnd + 1 then holeRangesLoop cap os' gs' (Some (curStart, h)) out
           else if length (out @ [(curStart, curEnd)]) = cap then out @ [(curStart, curEnd)]
           else holeRangesLoop cap os' gs' (Some (h, h)) (out @ [(curStart, curEnd)]))"
      by (subst holeRangesLoop.simps)
        (simp only: ne if_False Let_def os'_def gs'_def h_def fromOut_def)
    note pick = merge_pick [OF "1.prems"(1,2) ne, folded fromOut_def, folded h_def,
        folded gs'_def os'_def]
    note sc = "1.prems"(3) [unfolded pick(1)]
    note IH = "1.IH" [OF ne fromOut_def h_def gs'_def os'_def]
    show ?thesis
    proof (cases cur)
      case None
      have "out = []" using sc None by (simp add: scan_from_def)
      then show ?thesis
        unfolding eq using IH(1) [OF None pick(2,3) scan_from_first [OF sc [unfolded None] pick(4)] "1.prems"(4)]
          ne pick(1)
        by (simp add: None)
    next
      case (Some r)
      obtain s e where r: "r = (s, e)" by fastforce
      note Some = Some [unfolded r]
      have "e < h" using sc Some by (auto simp: scan_from_def)
      then have e: "h \<noteq> e" by auto
      show ?thesis
      proof (cases "h = e + 1")
        case True
        then show ?thesis
          unfolding eq using IH(3) [OF Some refl _ True pick(2,3) scan_from_extend [OF sc [unfolded Some] pick(4) True]
              "1.prems"(4)] ne pick(1) e scan_from_covered [OF sc [unfolded Some] True]
          by (simp add: Some Un_assoc)
      next
        case False
        let ?out = "out @ [(s, e)]"
        have rok: "ranges_ok ?out" using sc Some by (simp add: scan_from_def)
        show ?thesis
        proof (cases "length ?out = cap")
          case True
          then show ?thesis
            unfolding eq using ne e False rok
            by (simp add: Some)
        next
          case small: False
          then have "length ?out < cap" using "1.prems"(4) by simp
          then show ?thesis
            unfolding eq using IH(4) [OF Some refl _ False refl small pick(2,3)
                scan_from_close [OF sc [unfolded Some] pick(4) False]] ne pick(1) e False small
            by (simp add: Some Un_assoc)
        qed
      qed
    qed
  qed
qed

section \<open>The doubling loop\<close>

lemma backoffLoop_unat:
  assumes "0 < unat d" and "unat d \<le> 120"
  shows "unat (backoffLoop k d) = min 120 (unat d * 2 ^ k)"
  using assms
proof (induction k arbitrary: d)
  case 0
  then show ?case by simp
next
  case (Suc k)
  have dbl: "unat (push_bit 1 d) = 2 * unat d"
    using Suc.prems by (simp add: push_bit_eq_mult unat_word_ariths)
  show ?case
  proof (cases "60 \<le> unat d")
    case True
    then have "(120::nat) \<le> unat d * 2 ^ Suc k"
      using mult_le_mono [OF True, of 2 "2 ^ Suc k"] by simp
    moreover have "push_bit 1 d \<ge> CF_REREQ_BACKOFF_CAP_SECS"
      using True dbl by (simp add: word_le_nat_alt cf_constants)
    ultimately show ?thesis
      by (simp add: Let_def cf_constants)
  next
    case False
    have "\<not> push_bit 1 d \<ge> CF_REREQ_BACKOFF_CAP_SECS"
      using False dbl by (simp add: word_le_nat_alt cf_constants)
    then show ?thesis
      using Suc.IH [of "push_bit 1 d"] False Suc.prems(1) dbl by (simp add: Let_def mult_ac)
  qed
qed

section \<open>A sample ledger for the witnesses\<close>

definition sample_entry :: "u32 \<Rightarrow> u8 \<Rightarrow> cf_outstanding" where
  "sample_entry h k = \<lparr>cfo_height = h, cfo_peer = 7, cfo_port = 8333, cfo_requestedAt = 100,
     cfo_attempts = k, cfo_headerRace = 0, cfo_rearmCycles = 0, cfo_offersReachedLivePeer = 1\<rparr>"

definition sample_ledger :: scan_ledger where
  "sample_ledger = (BRCFScanLedgerInit 10)\<lparr>cfl_scannedThrough := 10, cfl_requestedThrough := 30,
     cfl_outstanding := [sample_entry 14 5, sample_entry 15 0, sample_entry 16 0, sample_entry 20 0],
     cfl_gaveUp := [11, 12, 25], cfl_gaveUpRearmCycles := [3, 3, 0],
     cfl_gaveUpOffersLive := [1, 1, 1]\<rparr>"

lemmas sample_defs = sample_ledger_def sample_entry_def BRCFScanLedgerInit_def cf_constants

lemma sample_wf: "cfl_wf sample_ledger"
  by (simp add: cfl_wf_def cfl_shape_def holes_def sample_defs)

lemma sample_ok: "ledger_ok sample_ledger"
  by (simp add: ledger_ok_def sample_wf) (simp add: sample_defs)

section \<open>Properties\<close>

text \<open>
  C1.  Every height is accounted for, and only four kinds of call lose one.  Start a scan at any
  positive height and run any sequence of ledger operations below the sentinel height, whatever the
  callers pass.  On the current branch, every height from the start of the scan up to the highest one
  requested is still tracked as a hole, or its filter was evaluated, or it was handed back to the
  caller in a report (overflow, abandonment, unscannable band), or it is one of the heights
  \<open>step_lost\<close> names for a call that leaves them behind unreported; every height at or below the
  high-water mark, and every height below the abandoned floor, was evaluated, reported or lost that
  way.  And no height is lost in a run whose requests leave no gap, whose unscannable bands start at
  or below the scan frontier, whose header races find the height requested and the array not full,
  and whose rewinds stay at or above the abandoned floor.
\<close>

theorem scan_accounts_for_every_height:
  fixes start :: u32 and ops :: "ledger_op list"
  assumes "0 < start" and "run_ok account_step call_ok (account_init start) ops"
  shows "let a = run account_step (account_init start) ops; l = acc_ledger a in
    (\<forall>h. cfl_start l \<le> h \<and> h \<le> cfl_requestedThrough l \<longrightarrow>
      h \<in> holes l \<or> h \<in> acc_evaluated a \<or> h \<in> acc_surfaced a \<or> h \<in> acc_lost a) \<and>
    (\<forall>h. cfl_start l \<le> h \<and> (h \<le> cfl_scannedThrough l \<or> h < cfl_abandonedBelow l) \<longrightarrow>
      h \<in> acc_evaluated a \<or> h \<in> acc_surfaced a \<or> h \<in> acc_lost a) \<and>
    (run_ok account_step gapless_ok (account_init start) ops \<longrightarrow> acc_lost a = {})"
proof -
  let ?a = "run account_step (account_init start) ops"
  have "account_inv ?a"
    by (rule scan_account.run_inv [OF account_init_inv assms(2)]) fact
  moreover have "acc_lost ?a = {}" if "run_ok account_step gapless_ok (account_init start) ops"
    using gapless_scan.run_inv [OF _ that] account_init_inv [OF assms(1)]
    by (simp add: account_init_def)
  ultimately show ?thesis
    by (auto simp: account_inv_def acc_done_def Let_def dest: accountedD)
qed

text \<open>
  Two runs.  The first keeps the discipline.  In the second an unscannable band that starts at 12,
  above the frontier 11, drops the hole 11 unreported; then a rewind to 10, below the floor 14, leaves
  the heights 10 to 13 of the new branch unscanned although the mark passes them.
\<close>

definition sample_gapless_run :: "ledger_op list" where
  "sample_gapless_run = [Record 10 12 7 8333 100, Evaluated 10, NextRerequest 200, RetireCappedOp,
     AbandonGaveUp 12, Rewind 12]"

definition sample_band_run :: "ledger_op list" where
  "sample_band_run = [Record 10 12 7 8333 100, Evaluated 10, AbandonUnscannable 12 14]"

definition sample_rewound_run :: "ledger_op list" where
  "sample_rewound_run = sample_band_run @ [Rewind 10, Record 10 15 7 8333 200, Evaluated 14, Evaluated 15]"

lemmas sample_run_defs = sample_gapless_run_def sample_band_run_def sample_rewound_run_def

lemma account_run_ledger:
  "acc_ledger (run account_step a ops) = fold ledger_step ops (acc_ledger a)"
  by (induction ops arbitrary: a) (simp_all add: account_step_ledger)

lemma sample_run_marks:
  "(let l = fold ledger_step [Record 10 12 7 8333 100, Evaluated 10] (BRCFScanLedgerInit 10) in
     BRCFScanLedgerLowestNeededHeight l = 11 \<and> cfl_heights l = [11, 12] \<and> cfl_gaveUp l = [] \<and>
     cfl_requestedThrough l = 12 \<and> fst (snd (BRCFScanLedgerAbandonUnscannableBelow l 12 14)) = 2)"
  "cfl_abandonedBelow (fold ledger_step sample_band_run (BRCFScanLedgerInit 10)) = 14"
  "cfl_requestedThrough (fold ledger_step (sample_band_run @ [Rewind 10]) (BRCFScanLedgerInit 10)) = 9"
  "(let l = fold ledger_step sample_rewound_run (BRCFScanLedgerInit 10) in
     cfl_start l = 10 \<and> cfl_scannedThrough l = 15 \<and> cfl_requestedThrough l = 15)"
  "cfl_abandonedBelow (fold ledger_step (butlast sample_gapless_run) (BRCFScanLedgerInit 10)) = 0"
  unfolding sample_run_defs by code_simp+

lemma sample_init_ledger: "acc_ledger (account_init 10) = BRCFScanLedgerInit 10"
  by (simp add: account_init_def)

lemma sample_band_lost: "acc_lost (run account_step (account_init 10) sample_band_run) = {11}"
proof -
  let ?ops = "[Record 10 12 7 8333 100, Evaluated 10]"
  obtain a where a: "a = run account_step (account_init 10) ?ops" by blast
  obtain l where l: "l = fold ledger_step ?ops (BRCFScanLedgerInit 10)" by blast
  have al: "acc_ledger a = l"
    unfolding a l account_run_ledger sample_init_ledger ..
  obtain low n l' where ab: "BRCFScanLedgerAbandonUnscannableBelow l 12 14 = (low, n, l')"
    by (metis prod_cases3)
  have facts: "BRCFScanLedgerLowestNeededHeight l = 11" "cfl_heights l = [11, 12]" "cfl_gaveUp l = []"
    "cfl_requestedThrough l = 12" "n = 2"
    using sample_run_marks(1) unfolding l [symmetric] Let_def ab by simp_all
  have "{h :: u32. 11 \<le> h \<and> h < 12 \<and> (h = 11 \<or> h = 12 \<or> 12 < h)} = {11}"
    by auto
  then have lost: "step_lost (AbandonUnscannable 12 14) l = {11}"
    unfolding step_lost.simps ab by (simp add: facts holes_def)
  have "acc_lost a = {}"
    using gapless_scan.run_inv [of "account_init 10" ?ops] account_init_inv [of 10]
    unfolding a by (simp add: account_init_def BRCFScanLedgerInit_def cf_constants)
  then have "acc_lost (account_step (AbandonUnscannable 12 14) a) = {11}"
    using lost al by simp
  then show ?thesis
    unfolding a sample_band_run_def by simp
qed

lemma sample_rewound_lost:
  "acc_lost (run account_step (account_init 10) sample_rewound_run) = {h. 10 \<le> h \<and> h < 14}"
proof -
  obtain a where a: "a = run account_step (account_init 10) sample_band_run" by blast
  obtain b where b: "b = account_step (Rewind 10) a" by blast
  have "cfl_abandonedBelow (acc_ledger a) = 14"
    unfolding a account_run_ledger sample_init_ledger by (rule sample_run_marks(2))
  moreover have "acc_lost a = {11}"
    unfolding a by (rule sample_band_lost)
  ultimately have lost: "acc_lost b = {h. 10 \<le> h \<and> h < 14}"
    by (auto simp: b step_lost.simps)
  have "b = run account_step (account_init 10) (sample_band_run @ [Rewind 10])"
    by (simp add: a b run_append)
  then have "cfl_requestedThrough (acc_ledger b) = 9"
    by (simp only: account_run_ledger sample_init_ledger sample_run_marks(3))
  moreover have "\<not> x < 10" if "9 < x" for x :: u32
    using word_plus_one_le_iff [OF that, of x] that by auto
  ultimately have "step_lost (Record 10 15 7 8333 200) (acc_ledger b) = {}"
    by (auto simp: step_lost.simps)
  moreover have "run account_step (account_init 10) sample_rewound_run =
      account_step (Evaluated 15) (account_step (Evaluated 14)
        (account_step (Record 10 15 7 8333 200) b))"
    by (simp add: sample_rewound_run_def run_append a b del: account_step.simps)
  ultimately show ?thesis
    using lost by simp
qed

lemma scan_accounts_for_every_height_witness:
  "(let a = run account_step (account_init 10) sample_rewound_run; l = acc_ledger a in
    cfl_start l = 10 \<and> cfl_scannedThrough l = 15 \<and> acc_lost a = {h. 10 \<le> h \<and> h < 14} \<and>
    (\<forall>h. cfl_start l \<le> h \<and> h \<le> cfl_scannedThrough l \<longrightarrow>
      h \<in> acc_evaluated a \<or> h \<in> acc_surfaced a \<or> h \<in> acc_lost a)) \<and>
   acc_lost (run account_step (account_init 10) sample_gapless_run) = {}"
proof -
  have "gapless_ok (Rewind 12) (run account_step (account_init 10) (butlast sample_gapless_run))"
    by (simp only: gapless_ok.simps account_run_ledger sample_init_ledger sample_run_marks(5)) simp
  moreover have "run_ok account_step gapless_ok (account_init 10) (butlast sample_gapless_run)"
    by (simp add: sample_run_defs account_init_def BRCFScanLedgerInit_def cf_constants)
  ultimately have g1: "run_ok account_step gapless_ok (account_init 10) sample_gapless_run"
    using run_ok_append [of account_step gapless_ok _ "butlast sample_gapless_run" "[Rewind 12]"]
    by (simp add: sample_gapless_run_def del: run_ok.simps(2) run.simps(2) gapless_ok.simps)
      (simp only: run_ok.simps simp_thms)
  have g: "run_ok account_step call_ok (account_init 10) sample_gapless_run"
    "run_ok account_step call_ok (account_init 10) sample_rewound_run"
    by (simp_all add: sample_run_defs account_init_def BRCFScanLedgerInit_def cf_constants)
  have "acc_ledger (run account_step (account_init 10) sample_rewound_run) =
      fold ledger_step sample_rewound_run (BRCFScanLedgerInit 10)"
    by (simp only: account_run_ledger sample_init_ledger)
  then show ?thesis
    using scan_accounts_for_every_height [OF _ g(1)] scan_accounts_for_every_height [OF _ g(2)]
      g1 sample_run_marks(4) sample_rewound_lost
    unfolding Let_def by simp
qed

text \<open>
  A band whose low edge lies above the scan frontier: every hole under the edge is dropped with the
  band, but the count and the range handed back start at the edge.
\<close>

lemma unscannable_band_drops_unreported_holes:
  assumes ok: "ledger_ok l" and low: "BRCFScanLedgerLowestNeededHeight l \<le> lo" and lo: "lo < f"
    and g: "g \<in> holes l" "g < lo"
    and ab: "BRCFScanLedgerAbandonUnscannableBelow l lo f = (low', n, l')"
  shows "n = f - lo \<and> g \<notin> holes l' \<and> g < f - n"
proof -
  have nz: "lo \<noteq> 0" "f \<noteq> 0"
    using g(2) lo by auto
  have top: "cfl_scannedThrough l < UINT32_MAX_VAL"
    using ledger_okD(1,2) [OF ok] cfl_wfD(6) order.strict_trans1 by blast
  have "cfl_abandonedBelow l \<le> lo" "cfl_scannedThrough l + 1 \<le> lo"
    using low by (auto simp: BRCFScanLedgerLowestNeededHeight_def Let_def split: if_splits)
  then have "cfl_abandonedBelow l \<le> lo" "cfl_scannedThrough l < lo"
    using word_less_plus_one_iff [OF top, of "cfl_scannedThrough l"] by (auto intro: order.strict_trans2)
  then have edge: "unscannable_lo l lo = lo"
    by (auto simp: unscannable_lo_def Let_def not_less)
  note post = AbandonUnscannableBelow_post(3,4) [OF ledger_okD(3) [OF ok] nz ab, unfolded edge, OF lo]
  have n: "n = f - lo"
    by (rule post(1))
  have "f - n = lo"
    unfolding n by simp
  then show ?thesis
    using n post(2) g lo by (auto simp: holes_def)
qed

text \<open>
  Without a rewind the high-water mark never goes back: after any continuation of a run it is at
  least where it was.
\<close>

theorem forward_scan_mark_monotone:
  fixes start :: u32 and xs ys :: "ledger_op list"
  assumes "0 < start" and "run_ok account_step forward_ok (account_init start) (xs @ ys)"
  shows "cfl_scannedThrough (acc_ledger (run account_step (account_init start) xs))
    \<le> cfl_scannedThrough (acc_ledger (run account_step (account_init start) (xs @ ys)))"
proof -
  have ok: "run_ok account_step forward_ok (account_init start) xs"
    "run_ok account_step forward_ok (run account_step (account_init start) xs) ys"
    using assms(2) by (simp_all add: run_ok_append)
  have "account_inv (run account_step (account_init start) xs)"
    by (rule forward_scan.run_inv [OF account_init_inv [OF assms(1)] ok(1)])
  then show ?thesis
    unfolding run_append using forward_scan.run_mark ok(2) by blast
qed

lemma forward_scan_mark_monotone_witness:
  "cfl_scannedThrough (acc_ledger (run account_step (account_init 10) [Record 10 12 7 8333 100]))
   \<le> cfl_scannedThrough (acc_ledger (run account_step (account_init 10)
       ([Record 10 12 7 8333 100] @ [Evaluated 10, RetireCappedOp])))"
  by (rule forward_scan_mark_monotone)
    (simp_all add: forward_ok_def account_init_def BRCFScanLedgerInit_def cf_constants)

text \<open>
  The delay before a height is asked for again doubles with every attempt, from the base of 30
  seconds up to the cap of 120, at every attempt count a byte can hold; only a first header race
  uses its own short delay.
\<close>

theorem rerequest_delay_doubles_to_the_cap:
  "unat (cfLedgerRerequestDelay e) =
     (if cfo_headerRace e \<noteq> 0 \<and> cfo_attempts e = 0 then unat CF_REREQ_HEADERRACE_SECS
      else min (unat CF_REREQ_BACKOFF_CAP_SECS) (unat CF_REREQ_BASE_SECS * 2 ^ unat (cfo_attempts e)))"
proof -
  have "unat (backoffLoop (unat (cfo_attempts e)) CF_REREQ_BASE_SECS) =
      min 120 (30 * 2 ^ unat (cfo_attempts e))"
    using backoffLoop_unat [of CF_REREQ_BASE_SECS] by (simp add: cf_constants)
  moreover from this have "\<not> CF_REREQ_BACKOFF_CAP_SECS < backoffLoop (unat (cfo_attempts e)) CF_REREQ_BASE_SECS"
    by (simp add: word_less_nat_alt cf_constants)
  ultimately show ?thesis
    by (simp add: cfLedgerRerequestDelay_def cf_constants del: word_less_no)
qed

text \<open>
  The pinning hole the abandonment valve watches is the lowest of all holes, there is none only
  when there is no hole, and it counts as offerable exactly when it is an outstanding entry under
  the attempt cap, so that a driver can still ask for it.
\<close>

theorem pinning_hole_is_lowest:
  assumes "cfl_wf l"
  shows "case BRCFScanLedgerPinningHole l of
      None \<Rightarrow> holes l = {}
    | Some (h, offerable, cycles, live) \<Rightarrow> h = Min (holes l) \<and>
        (offerable \<longleftrightarrow> (\<exists>e\<in>set (cfl_outstanding l). cfo_height e = h \<and>
           cfo_attempts e < CF_REREQ_MAX_ATTEMPTS))"
proof -
  note sorted = cfl_wfD(1,2) [OF assms]
  show ?thesis
  proof (cases "cfl_outstanding l")
    case Nil
    then show ?thesis
    proof (cases "cfl_gaveUp l")
      case gs: (Cons g gs)
      have "Min (holes l) = g"
        using sorted_wrt_hd_Min [OF sorted(2)] Nil gs by (simp add: holes_def)
      then show ?thesis
        using Nil gs by (simp add: BRCFScanLedgerPinningHole_def Let_def)
    qed (simp add: BRCFScanLedgerPinningHole_def holes_def)
  next
    case os: (Cons e es)
    have distinct: "distinct (cfl_heights l)"
      by (rule sorted_wrt_less_distinct [OF sorted(1)])
    have e_min: "cfo_height e = Min (set (cfl_heights l))"
      using sorted_wrt_hd_Min [OF sorted(1)] os by simp
    have uniq: "x = e" if "x \<in> set (cfl_outstanding l)" "cfo_height x = cfo_height e" for x
      using that distinct os by (auto simp: rev_image_eqI)
    show ?thesis
    proof (cases "cfl_gaveUp l = [] \<or> cfo_height e \<le> hd (cfl_gaveUp l)")
      case True
      then have "Min (holes l) = cfo_height e"
      proof
        assume ne: "cfo_height e \<le> hd (cfl_gaveUp l)"
        show ?thesis
        proof (cases "cfl_gaveUp l = []")
          case False
          have "Min (holes l) = min (Min (set (cfl_heights l))) (Min (set (cfl_gaveUp l)))"
            unfolding holes_def by (rule Min_Un) (use os False in auto)
          then show ?thesis
            using ne unfolding e_min [symmetric] sorted_wrt_hd_Min [OF sorted(2) False, symmetric]
            by simp
        qed (use e_min in \<open>simp add: holes_def\<close>)
      qed (use e_min in \<open>simp add: holes_def\<close>)
      moreover have "BRCFScanLedgerPinningHole l = Some (cfo_height e, \<not> cfLedgerOutstandingIsParked e,
          cfo_rearmCycles e, cfo_offersReachedLivePeer e)"
        using True os by (auto simp: BRCFScanLedgerPinningHole_def Let_def hd_conv_nth)
      moreover have "(\<exists>x\<in>set (cfl_outstanding l). cfo_height x = cfo_height e \<and>
          cfo_attempts x < CF_REREQ_MAX_ATTEMPTS) \<longleftrightarrow> cfo_attempts e < CF_REREQ_MAX_ATTEMPTS"
        using uniq os by force
      ultimately show ?thesis
        by (simp add: cfLedgerOutstandingIsParked_def not_le)
    next
      case False
      then have gs: "cfl_gaveUp l \<noteq> []" and lt: "hd (cfl_gaveUp l) < cfo_height e" by auto
      have "Min (holes l) = min (Min (set (cfl_heights l))) (Min (set (cfl_gaveUp l)))"
        unfolding holes_def by (rule Min_Un) (use os gs in auto)
      then have "Min (holes l) = hd (cfl_gaveUp l)"
        using lt unfolding e_min [symmetric] sorted_wrt_hd_Min [OF sorted(2) gs, symmetric]
        by simp
      moreover have "cfo_height x \<noteq> hd (cfl_gaveUp l)" if "x \<in> set (cfl_outstanding l)" for x
      proof -
        have "cfo_height e \<le> cfo_height x"
          unfolding e_min using that by (intro Min_le) auto
        then show ?thesis using lt by auto
      qed
      moreover have "BRCFScanLedgerPinningHole l = Some (hd (cfl_gaveUp l), False,
          cfl_gaveUpRearmCycles l ! 0, cfl_gaveUpOffersLive l ! 0)"
        using gs lt os by (auto simp: BRCFScanLedgerPinningHole_def Let_def hd_conv_nth)
      ultimately show ?thesis by auto
    qed
  qed
qed

lemma pinning_hole_is_lowest_witness:
  "BRCFScanLedgerPinningHole sample_ledger = Some (11, False, 3, 1) \<and> Min (holes sample_ledger) = 11"
proof -
  have "BRCFScanLedgerPinningHole sample_ledger = Some (11, False, 3, 1)"
    by (simp add: BRCFScanLedgerPinningHole_def sample_defs)
  then show ?thesis
    using pinning_hole_is_lowest [OF sample_wf] by simp
qed

text \<open>
  The ranges reported for the user are the holes: in order, none empty, none overlapping or
  touching, never more than the caller's arrays hold; and unless those arrays were filled to the
  last slot, their union is exactly the set of outstanding and given-up heights.
\<close>

theorem hole_ranges_cover_exactly_the_holes:
  assumes "cfl_wf l"
  shows "let rs = BRCFScanLedgerHoleRanges l cap in
    length rs \<le> cap \<and> ranges_ok rs \<and>
    (length rs < cap \<longrightarrow> \<Union> ((\<lambda>r. {fst r..snd r}) ` set rs) = holes l)"
proof (cases "cap = 0")
  case True
  then show ?thesis by (simp add: BRCFScanLedgerHoleRanges_def ranges_ok_def)
next
  case False
  have "scan_from (set (cfl_heights l) \<union> set (cfl_gaveUp l)) None []"
    by (simp add: scan_from_def ranges_ok_def)
  then show ?thesis
    using holeRangesLoop_ok [OF cfl_wfD(1,2) [OF assms(1)], of None "[]" cap] False
    by (simp add: BRCFScanLedgerHoleRanges_def holes_def Un_assoc Let_def)
qed

lemma hole_ranges_cover_exactly_the_holes_witness:
  "BRCFScanLedgerHoleRanges sample_ledger 8 = [(11, 12), (14, 16), (20, 20), (25, 25)] \<and>
   \<Union> ((\<lambda>r. {fst r..snd r}) ` set (BRCFScanLedgerHoleRanges sample_ledger 8)) = holes sample_ledger"
proof -
  have "BRCFScanLedgerHoleRanges sample_ledger 8 = [(11, 12), (14, 16), (20, 20), (25, 25)]"
    by (simp add: BRCFScanLedgerHoleRanges_def holeRangesLoop.simps sample_defs)
  then show ?thesis
    using hole_ranges_cover_exactly_the_holes [OF sample_wf, of 8] by (simp add: Let_def)
qed

section \<open>The coalesced re-request run\<close>

text \<open>An entry a driver may ask for again now: under the attempt cap and due.\<close>

definition offerable :: "u32 \<Rightarrow> cf_outstanding \<Rightarrow> bool" where
  "offerable now e \<longleftrightarrow> cfo_attempts e < CF_REREQ_MAX_ATTEMPTS \<and> cfLedgerDue e now"

definition run_member :: "u32 \<Rightarrow> cf_outstanding \<Rightarrow> cf_outstanding \<Rightarrow> bool" where
  "run_member now s e \<longleftrightarrow> offerable now e \<and> cfo_peer e = cfo_peer s \<and> cfo_port e = cfo_port s"

definition good_run :: "u32 \<Rightarrow> cf_outstanding list \<Rightarrow> cf_outstanding \<Rightarrow> cf_outstanding \<Rightarrow> bool" where
  "good_run now es s e \<longleftrightarrow> cfo_height s \<le> cfo_height e \<and>
     cfo_height e - cfo_height s < CF_REREQ_MAX_RANGE \<and>
     (\<forall>h\<in>{cfo_height s..cfo_height e}. \<exists>x\<in>set es. cfo_height x = h \<and> run_member now s x)"

lemma good_run_extend:
  assumes run: "good_run now es s cur" and nx: "nx \<in> set es" "run_member now s nx"
    and h: "cfo_height nx = cfo_height cur + 1" "cfo_height cur < cfo_height nx"
    and cap: "\<not> cfo_height nx - cfo_height s + 1 > CF_REREQ_MAX_RANGE"
  shows "good_run now es s nx"
proof -
  have le: "cfo_height s \<le> cfo_height cur" using run by (simp add: good_run_def)
  have ivl: "{cfo_height s..cfo_height nx} = insert (cfo_height nx) {cfo_height s..cfo_height cur}"
    unfolding h(1) by (rule Icc_plus_one [OF le h(2)])
  have lt: "cfo_height cur - cfo_height s < CF_REREQ_MAX_RANGE"
    using run by (simp add: good_run_def)
  have eq: "cfo_height nx - cfo_height s = (cfo_height cur - cfo_height s) + 1"
    using h(1) by simp
  have "cfo_height nx - cfo_height s < CF_REREQ_MAX_RANGE"
  proof -
    have a: "cfo_height nx - cfo_height s \<le> CF_REREQ_MAX_RANGE"
      unfolding eq using word_plus_one_le_iff [OF lt, of CF_REREQ_MAX_RANGE] lt by simp
    have "cfo_height nx - cfo_height s < cfo_height nx - cfo_height s + 1"
      using a by (intro word_less_plus_one_iff [THEN iffD2, of _ UINT32_MAX_VAL])
        (auto simp: cf_constants intro: order.strict_trans1)
    then show ?thesis using cap by (auto simp: not_less)
  qed
  moreover have "cfo_height s \<le> cfo_height nx" using le h(2) by auto
  ultimately show ?thesis
    using run nx unfolding good_run_def ivl by auto
qed

lemma peekRunEnd_good:
  assumes "good_run now es s cur" and "set rest \<subseteq> set es"
    and "sorted_wrt (<) (cfo_height cur # map cfo_height rest)"
  shows "good_run now es s (peekRunEnd now s cur rest)"
  using assms
proof (induction rest arbitrary: cur)
  case (Cons nx rest)
  show ?case
  proof (cases "cfo_height nx \<noteq> cfo_height cur + 1 \<or> cfo_attempts nx \<ge> CF_REREQ_MAX_ATTEMPTS \<or>
      \<not> cfLedgerDue nx now \<or> cfo_port nx \<noteq> cfo_port s \<or> cfo_peer nx \<noteq> cfo_peer s \<or>
      cfo_height nx - cfo_height s + 1 > CF_REREQ_MAX_RANGE")
    case True
    then show ?thesis using Cons.prems(1) by auto
  next
    case False
    then have mem: "run_member now s nx" "cfo_height nx = cfo_height cur + 1"
      and cap: "\<not> cfo_height nx - cfo_height s + 1 > CF_REREQ_MAX_RANGE"
      by (auto simp: run_member_def offerable_def)
    have "good_run now es s nx"
      by (rule good_run_extend [OF Cons.prems(1) _ mem(1,2) _ cap]) (use Cons.prems(2,3) in auto)
    then show ?thesis
      using Cons.IH [of nx] Cons.prems(2,3) False by auto
  qed
qed simp

text \<open>
  A re-request run covers only heights that may be asked for: each of its heights is
  outstanding, due, under the attempt cap, at or above both the caller's lower bound and the
  abandoned floor, and last asked of the same peer; the run is contiguous, at most
  \<open>CF_REREQ_MAX_RANGE\<close> long, and starts at the lowest height that may be asked for. There is no run
  only when no height may be asked for.
\<close>

theorem peeked_run_is_offerable:
  assumes "cfl_wf l"
  shows "case BRCFScanLedgerPeekRerequestRange l now minHeight of
      None \<Rightarrow> (\<forall>e\<in>set (cfl_outstanding l). minHeight \<le> cfo_height e \<longrightarrow>
         cfl_abandonedBelow l \<le> cfo_height e \<longrightarrow> \<not> offerable now e)
    | Some (a, b) \<Rightarrow> a \<le> b \<and> b - a < CF_REREQ_MAX_RANGE \<and> minHeight \<le> a \<and> cfl_abandonedBelow l \<le> a \<and>
        (\<exists>peer port. \<forall>h\<in>{a..b}. \<exists>e\<in>set (cfl_outstanding l).
           cfo_height e = h \<and> offerable now e \<and> cfo_peer e = peer \<and> cfo_port e = port) \<and>
        (\<forall>e\<in>set (cfl_outstanding l). minHeight \<le> cfo_height e \<longrightarrow>
           cfl_abandonedBelow l \<le> cfo_height e \<longrightarrow> offerable now e \<longrightarrow> a \<le> cfo_height e)"
proof -
  define m where "m = (if minHeight < cfl_abandonedBelow l then cfl_abandonedBelow l else minHeight)"
  define P where "P = (\<lambda>e. cfo_height e < m \<or> \<not> (cfo_attempts e < CF_REREQ_MAX_ATTEMPTS \<and> cfLedgerDue e now))"
  have m: "m \<le> h \<longleftrightarrow> minHeight \<le> h \<and> cfl_abandonedBelow l \<le> h" for h by (auto simp: m_def)
  have P: "\<not> P e \<longleftrightarrow> m \<le> cfo_height e \<and> offerable now e" for e
    by (auto simp: P_def offerable_def)
  have eq: "BRCFScanLedgerPeekRerequestRange l now minHeight =
      (case dropWhile P (cfl_outstanding l) of [] \<Rightarrow> None
       | s # rest \<Rightarrow> Some (cfo_height s, cfo_height (peekRunEnd now s s rest)))"
    unfolding BRCFScanLedgerPeekRerequestRange_def Let_def P_def m_def ..
  show ?thesis
  proof (cases "dropWhile P (cfl_outstanding l)")
    case Nil
    then have "\<forall>e\<in>set (cfl_outstanding l). P e" by simp
    then have "\<not> offerable now e" if "e \<in> set (cfl_outstanding l)" "m \<le> cfo_height e" for e
      using that P by blast
    then show ?thesis
      using m eq Nil by simp
  next
    case (Cons s rest)
    have split: "cfl_outstanding l = takeWhile P (cfl_outstanding l) @ s # rest"
      using takeWhile_dropWhile_id [of P "cfl_outstanding l"] Cons by simp
    have "\<not> P s" using Cons by (metis hd_dropWhile list.distinct(1) list.sel(1))
    then have off: "offerable now s" "m \<le> cfo_height s"
      by (simp_all add: P)
    have sorted: "sorted_wrt (<) (map cfo_height (takeWhile P (cfl_outstanding l)) @
        cfo_height s # map cfo_height rest)"
      using cfl_wfD(1) [OF assms] split by (metis list.simps(9) map_append)
    have in_s: "s \<in> set (cfl_outstanding l)" "set rest \<subseteq> set (cfl_outstanding l)"
      by (subst split, simp)+ auto
    have "good_run now (cfl_outstanding l) s s"
      using in_s(1) off by (auto simp: good_run_def run_member_def cf_constants)
    then have good: "good_run now (cfl_outstanding l) s (peekRunEnd now s s rest)"
      by (rule peekRunEnd_good) (use in_s(2) sorted in \<open>auto simp: sorted_wrt_append\<close>)
    have low: "cfo_height s \<le> cfo_height e"
      if "e \<in> set (cfl_outstanding l)" "m \<le> cfo_height e" "offerable now e" for e
    proof -
      have "e \<notin> set (takeWhile P (cfl_outstanding l))"
        using that(2,3) P set_takeWhileD [of e P] by blast
      then have "e = s \<or> e \<in> set rest"
        using that(1) split by (metis UnE set_ConsD set_append)
      then show ?thesis
        using sorted by (auto simp: sorted_wrt_append)
    qed
    have eq': "BRCFScanLedgerPeekRerequestRange l now minHeight =
        Some (cfo_height s, cfo_height (peekRunEnd now s s rest))"
      by (simp add: eq Cons)
    show ?thesis
      using good off low m unfolding eq' option.case prod.case good_run_def run_member_def by blast
  qed
qed

lemma peeked_run_is_offerable_witness:
  "BRCFScanLedgerPeekRerequestRange sample_ledger 200 0 = Some (15, 16) \<and>
   (\<exists>peer port. \<forall>h\<in>{15..16}. \<exists>e\<in>set (cfl_outstanding sample_ledger).
      cfo_height e = h \<and> offerable 200 e \<and> cfo_peer e = peer \<and> cfo_port e = port)"
proof -
  have "BRCFScanLedgerPeekRerequestRange sample_ledger 200 0 = Some (15, 16)"
    by (simp add: BRCFScanLedgerPeekRerequestRange_def sample_defs cfLedgerDue_def
        cfLedgerRerequestDelay_def Let_def)
  then show ?thesis
    using peeked_run_is_offerable [OF sample_wf, of 0 200] by simp
qed

section \<open>Giving up and abandoning\<close>

text \<open>
  C18.  Retiring capped entries loses nothing: the set of holes is the same before and after, the
  entries still under the attempt cap stay outstanding unchanged, and a capped entry is left
  outstanding only when the given-up array is full.
\<close>

theorem retire_capped_loses_no_hole:
  assumes "cfl_wf l"
  shows "let l' = BRCFScanLedgerRetireCapped l in holes l' = holes l \<and>
    {e \<in> set (cfl_outstanding l). cfo_attempts e < CF_REREQ_MAX_ATTEMPTS} \<subseteq> set (cfl_outstanding l') \<and>
    set (cfl_outstanding l') \<subseteq> set (cfl_outstanding l) \<and>
    ((\<exists>e\<in>set (cfl_outstanding l'). CF_REREQ_MAX_ATTEMPTS \<le> cfo_attempts e) \<longrightarrow>
       length (cfl_gaveUp l') = CF_GAVEUP_MAX)"
  using RetireCapped_post [OF cfl_wfD(3) [OF assms]]
  by (auto simp: Let_def cfLedgerOutstandingIsParked_def not_le)

lemma retire_capped_loses_no_hole_witness:
  "cfl_gaveUp (BRCFScanLedgerRetireCapped sample_ledger) = [11, 12, 14, 25] \<and>
   holes (BRCFScanLedgerRetireCapped sample_ledger) = holes sample_ledger"
proof -
  have "cfl_gaveUp (BRCFScanLedgerRetireCapped sample_ledger) = [11, 12, 14, 25]"
    by (simp add: BRCFScanLedgerRetireCapped_def retireFrom.simps cfLedgerMoveToGaveUp_def
        cfLedgerAddGaveUp_def cfLedgerGaveUpShiftUp_def cfLedgerOutstandingIsParked_def sample_defs
        insert_at_def remove_at_def)
  then show ?thesis
    using retire_capped_loses_no_hole [OF sample_wf] by (simp add: Let_def)
qed

text \<open>
  C14.  Abandoning given-up heights below a clamp is exact: nothing outstanding is touched, the
  given-up heights dropped are those below the clamp and below every outstanding height, the count
  and the bounds returned are theirs, and the floor moves only when something was dropped, to just
  above the highest dropped height and never above an outstanding one.
\<close>

theorem abandon_gave_up_is_exact:
  assumes "ledger_ok l" and "BRCFScanLedgerAbandonGaveUpBelow l clamp = (low, n, lo, hi, l')"
  shows "cfl_outstanding l' = cfl_outstanding l \<and>
    (let dropped = {g \<in> set (cfl_gaveUp l). g < clamp \<and> (\<forall>h\<in>set (cfl_heights l). g < h)} in
     set (cfl_gaveUp l') = set (cfl_gaveUp l) - dropped \<and> n = card dropped \<and>
     (if dropped = {} then cfl_abandonedBelow l' = cfl_abandonedBelow l
      else lo = Min dropped \<and> hi = Max dropped \<and>
        cfl_abandonedBelow l' = max (cfl_abandonedBelow l) (hi + 1) \<and>
        (\<forall>h\<in>set (cfl_heights l). cfl_abandonedBelow l' \<le> h)))"
proof -
  let ?D = "{g \<in> set (cfl_gaveUp l). g < clamp \<and> (\<forall>h\<in>set (cfl_heights l). g < h)}"
  note shape = ledger_okD(3) [OF assms(1)] and wf = ledger_okD(1) [OF assms(1)]
  note post = AbandonGaveUpBelow_post [OF shape assms(2)]
  have target: "g < abandon_target l clamp \<longleftrightarrow> g < clamp \<and> (\<forall>h\<in>set (cfl_heights l). g < h)" for g
    using cfl_shapeD(1) [OF shape]
    by (cases "cfl_outstanding l") (auto simp: abandon_target_def)
  then have D: "{g \<in> set (cfl_gaveUp l). g < abandon_target l clamp} = ?D" by blast
  have dist: "distinct (cfl_gaveUp l)"
    by (rule sorted_wrt_less_distinct [OF cfl_shapeD(2) [OF shape]])
  have n: "n = card ?D"
    using post(4) D distinct_card [OF distinct_filter [OF dist]] by (metis set_filter)
  have gave: "set (cfl_gaveUp l') = set (cfl_gaveUp l) - ?D"
    unfolding post(3) set_filter D [symmetric] by auto
  have "\<forall>h\<in>set (cfl_heights l). cfl_abandonedBelow l' \<le> h"
    using AbandonGaveUpBelow_wf(1) [OF wf assms(2) ledger_okD(2) [OF assms(1)]] cfl_wfD(4) [of l'] post(2)
    by (simp add: holes_def)
  moreover have "if ?D = {} then cfl_abandonedBelow l' = cfl_abandonedBelow l
      else lo = Min ?D \<and> hi = Max ?D \<and> cfl_abandonedBelow l' = max (cfl_abandonedBelow l) (hi + 1)"
  proof (cases "?D = {}")
    case True
    then have "n = 0" unfolding n by (simp only: card.empty)
    then show ?thesis using post(9) True by (simp only: if_True simp_thms)
  next
    case False
    moreover have "finite ?D" by simp
    ultimately have "0 < n" unfolding n using card_gt_0_iff by blast
    then show ?thesis using post(10) False unfolding D by (simp only: if_False simp_thms)
  qed
  ultimately show ?thesis
    using post(2) gave n unfolding Let_def by (simp only: simp_thms split: if_splits)
qed

lemma abandon_gave_up_is_exact_witness:
  "\<exists>low l'. BRCFScanLedgerAbandonGaveUpBelow sample_ledger 20 = (low, 2, 11, 12, l') \<and>
     cfl_abandonedBelow l' = 13 \<and> cfl_outstanding l' = cfl_outstanding sample_ledger"
proof -
  obtain low n lo hi l' where ab: "BRCFScanLedgerAbandonGaveUpBelow sample_ledger 20 = (low, n, lo, hi, l')"
    by (metis prod.collapse)
  have D: "{g \<in> set (cfl_gaveUp sample_ledger). g < 20 \<and>
      (\<forall>h\<in>set (cfl_heights sample_ledger). g < h)} = {11, 12}"
    by (auto simp: sample_defs)
  show ?thesis
    using abandon_gave_up_is_exact [OF sample_ok ab] ab unfolding D Let_def
    by (simp add: sample_defs)
qed

text \<open>
  Surfacing an unscannable band reports exactly what it abandons: the count is positive
  precisely when the abandoned floor rises, the floor then is the one asked for, no hole is left
  below it, and the heights counted are the ones from the low edge (moved up past what was abandoned
  or scanned already) to the floor.
\<close>

theorem unscannable_count_iff_floor_rises:
  assumes "ledger_ok l" and "BRCFScanLedgerAbandonUnscannableBelow l lo floor = (low, n, l')"
  shows "(0 < n \<longleftrightarrow> cfl_abandonedBelow l < cfl_abandonedBelow l') \<and>
    (0 < n \<longrightarrow> cfl_abandonedBelow l' = floor \<and> holes l' = {h \<in> holes l. floor \<le> h} \<and>
       n = floor - unscannable_lo l lo) \<and>
    (n = 0 \<longrightarrow> l' = l)"
proof -
  note shape = ledger_okD(3) [OF assms(1)] and wf = ledger_okD(1) [OF assms(1)]
  consider (zero) "lo = 0 \<or> floor = 0" | (none) "lo \<noteq> 0" "floor \<noteq> 0" "floor \<le> unscannable_lo l lo"
    | (band) "lo \<noteq> 0" "floor \<noteq> 0" "unscannable_lo l lo < floor"
    by (meson linorder_not_le)
  then show ?thesis
  proof cases
    case zero
    then show ?thesis using AbandonUnscannableBelow_noop [OF zero, of l] assms(2) by simp
  next
    case none
    then show ?thesis using AbandonUnscannableBelow_post(2) [OF shape none(1,2) assms(2) none(3)] by simp
  next
    case band
    note p = AbandonUnscannableBelow_post(3,4) [OF shape band(1,2) assms(2) band(3)]
    have "cfl_scannedThrough l < UINT32_MAX_VAL"
      using cfl_wfD(6) [OF wf] ledger_okD(2) [OF assms(1)] by (rule order.strict_trans1)
    then have "h < cfl_scannedThrough l + 1" if "h \<le> cfl_scannedThrough l" for h
      using that word_less_plus_one_iff by blast
    then have "cfl_abandonedBelow l \<le> unscannable_lo l lo"
      by (auto simp: unscannable_lo_def Let_def not_less dest: order.strict_implies_order
          order.strict_trans1)
    then have "cfl_abandonedBelow l < floor" using band(3) by simp
    moreover have "holes l' = {h \<in> holes l. floor \<le> h}"
      using p(2) unfolding holes_def by blast
    moreover have "0 < n" using p(1) band(3) by (auto simp: word_neq_0_conv [symmetric])
    ultimately show ?thesis
      using p band(3) by auto
  qed
qed

lemma unscannable_count_iff_floor_rises_witness:
  "\<exists>low l'. BRCFScanLedgerAbandonUnscannableBelow sample_ledger 11 15 = (low, 4, l') \<and>
     cfl_abandonedBelow l' = 15"
proof -
  obtain low n l' where ab: "BRCFScanLedgerAbandonUnscannableBelow sample_ledger 11 15 = (low, n, l')"
    by (cases "BRCFScanLedgerAbandonUnscannableBelow sample_ledger 11 15") auto
  have lo: "unscannable_lo sample_ledger 11 = 11"
    by (simp add: unscannable_lo_def sample_defs)
  have n: "n = 4"
    using AbandonUnscannableBelow_post(3) [OF ledger_okD(3) [OF sample_ok] _ _ ab] lo by simp
  then show ?thesis
    using unscannable_count_iff_floor_rises [OF sample_ok ab] ab by simp
qed

text \<open>
  Rewinding to a height forgets exactly what is at or above it: the holes left are the ones
  below, both marks drop below it, the start of the scan is at most it, and the floor of abandoned
  heights stays where it was.
\<close>

theorem rewind_forgets_from_the_height:
  assumes "cfl_wf l" and "next \<noteq> 0" and "BRCFScanLedgerRewindTo l next = (changed, l')"
  shows "holes l' = {h \<in> holes l. h < next} \<and> cfl_scannedThrough l' < next \<and>
    cfl_requestedThrough l' = min (cfl_requestedThrough l) (next - 1) \<and>
    cfl_start l' = min (cfl_start l) next \<and> cfl_abandonedBelow l' = cfl_abandonedBelow l \<and> cfl_wf l'"
proof -
  note post = RewindTo_post [OF cfl_wfD(3) [OF assms(1)] assms(2,3)]
  note wf = RewindTo_wf [OF assms(1,3)]
  have pos: "0 < next" using assms(2) by (simp add: word_neq_0_conv)
  have "cfl_scannedThrough l' \<le> next - 1"
    using cfl_wfD(6) [OF wf(1)] post(5) by simp
  then have "cfl_scannedThrough l' < next"
    using word_le_minus_one_iff [OF pos] by blast
  then show ?thesis
    using post(4,5,6) wf assms(2) by simp
qed

lemma rewind_forgets_from_the_height_witness:
  "holes (snd (BRCFScanLedgerRewindTo sample_ledger 15)) = {11, 12, 14}"
proof -
  have "{h \<in> holes sample_ledger. h < 15} = {11, 12, 14}"
    by (auto simp: holes_def sample_defs)
  then show ?thesis
    using rewind_forgets_from_the_height [OF sample_wf _ prod.collapse [symmetric], of 15] by simp
qed

end
