(* ===== verification/Codec.thy ===== *)
theory Codec
  imports Prelude
begin

text \<open>
  The interface of a fixed-width record format: an encoder, a decoder that returns what it read and
  what is left, and what of a value survives (\<open>norm\<close> drops the fields that are not stored).  A
  format that satisfies \<open>codec\<close> gets the round trip of a counted array; one that also satisfies
  \<open>exact_codec\<close> re-encodes every array it can decode to the same bytes.
\<close>

fun get_many :: "(bytes \<Rightarrow> 'a \<times> bytes) \<Rightarrow> nat \<Rightarrow> bytes \<Rightarrow> 'a list \<times> bytes" where
  "get_many d 0 p = ([], p)"
| "get_many d (Suc k) p = (let (x, p) = d p; (xs, p) = get_many d k p in (x # xs, p))"

lemma length_get_many: "length (fst (get_many d k p)) = k"
proof (induction k arbitrary: p)
  case (Suc k)
  then show ?case using Suc.IH [of "snd (d p)"] by (simp add: Let_def split_beta)
qed simp

lemma get_many_length_eq: "get_many d k p = (xs, q) \<Longrightarrow> length xs = k"
  using length_get_many [of d k p] by simp

locale codec =
  fixes enc :: "'a \<Rightarrow> bytes" and dec :: "bytes \<Rightarrow> 'a \<times> bytes"
    and norm :: "'a \<Rightarrow> 'a" and stride :: nat
  assumes length_enc: "length (enc x) = stride"
    and dec_enc: "dec (enc x @ rest) = (norm x, rest)"
begin

lemma many_length: "length (concat (map enc xs)) = length xs * stride"
  by (induction xs) (simp_all add: length_enc)

lemma many_roundtrip:
  "get_many dec (length xs) (concat (map enc xs) @ rest) = (map norm xs, rest)"
  by (induction xs) (simp_all add: dec_enc)

end

locale exact_codec = codec enc dec norm stride
  for enc :: "'a \<Rightarrow> bytes" and dec :: "bytes \<Rightarrow> 'a \<times> bytes"
    and norm :: "'a \<Rightarrow> 'a" and stride :: nat +
  assumes enc_dec: "stride \<le> length p \<Longrightarrow> enc (fst (dec p)) @ snd (dec p) = p"
begin

lemma snd_dec_length: "stride \<le> length p \<Longrightarrow> length (snd (dec p)) = length p - stride"
  using arg_cong [OF enc_dec [of p], of length] length_enc by simp

lemma many_exact:
  "k * stride \<le> length p \<Longrightarrow> get_many dec k p = (xs, q) \<Longrightarrow> concat (map enc xs) @ q = p"
proof (induction k arbitrary: p xs q)
  case 0
  then show ?case by simp
next
  case (Suc k)
  obtain x p1 where d: "dec p = (x, p1)" by fastforce
  obtain ys where ys: "get_many dec k p1 = (ys, q)" "xs = x # ys"
    using Suc.prems(2) d by (auto simp: Let_def split: prod.splits)
  have "stride \<le> length p" using Suc.prems(1) by simp
  then have "enc x @ p1 = p" "length p1 = length p - stride"
    using enc_dec [of p] snd_dec_length [of p] d by auto
  moreover have "concat (map enc ys) @ q = p1"
    using Suc.IH [OF _ ys(1)] Suc.prems(1) calculation(2) by simp
  ultimately show ?case using ys(2) by simp
qed

end

end
