(* ===== verification/ScanLedgerBlob.thy ===== *)
theory ScanLedgerBlob
  imports ScanLedgerInv Codec
begin

text \<open>
  The persisted blob of the scan ledger (\<open>BRCFScanLedgerSerialize\<close> and \<open>BRCFScanLedgerParse\<close> of
  \<open>src/BRCFScanLedger.c\<close>): the writer of the current layout, the reader of versions 1 to 3 with every
  refusal, and the two entry formats as instances of the codec interface.
\<close>

section \<open>The little-endian helpers and the entry formats\<close>

definition cf_putU32 :: "u32 \<Rightarrow> bytes" where
  "cf_putU32 v = [ucast (v AND 0xff), ucast (drop_bit 8 v AND 0xff), ucast (drop_bit 16 v AND 0xff),
     ucast (drop_bit 24 v AND 0xff)]"

definition cf_getU32 :: "bytes \<Rightarrow> u32" where
  "cf_getU32 p = ucast (p ! 0) OR push_bit 8 (ucast (p ! 1)) OR push_bit 16 (ucast (p ! 2)) OR
     push_bit 24 (ucast (p ! 3))"

definition CF_LEDGER_MAGIC :: u32 where "CF_LEDGER_MAGIC = 0x43464C31"
definition CF_LEDGER_VERSION_1 :: u32 where "CF_LEDGER_VERSION_1 = 1"
definition CF_LEDGER_VERSION_2 :: u32 where "CF_LEDGER_VERSION_2 = 2"
definition CF_LEDGER_VERSION_3 :: u32 where "CF_LEDGER_VERSION_3 = 3"
definition CF_LEDGER_VERSION :: u32 where "CF_LEDGER_VERSION = CF_LEDGER_VERSION_3"

lemmas blob_constants = CF_LEDGER_MAGIC_def CF_LEDGER_VERSION_1_def CF_LEDGER_VERSION_2_def
  CF_LEDGER_VERSION_3_def CF_LEDGER_VERSION_def

definition put_out_entry :: "cf_outstanding \<Rightarrow> bytes" where
  "put_out_entry e = cf_putU32 (cfo_height e) @ [cfo_headerRace e, cfo_rearmCycles e]"

text \<open>What a restored outstanding entry starts with: fresh peers, no attempts, an untainted latch.\<close>

definition fresh_entry :: "u32 \<Rightarrow> u8 \<Rightarrow> u8 \<Rightarrow> cf_outstanding" where
  "fresh_entry h race cycles =
     \<lparr>cfo_height = h, cfo_peer = 0, cfo_port = 0, cfo_requestedAt = 0, cfo_attempts = 0,
      cfo_headerRace = race, cfo_rearmCycles = cycles, cfo_offersReachedLivePeer = 1\<rparr>"

definition get_out_entry :: "bool \<Rightarrow> bytes \<Rightarrow> cf_outstanding \<times> bytes" where
  "get_out_entry isV3 p =
     (let h = cf_getU32 p; p = drop 4 p;
          race = p ! 0; p = drop 1 p
      in if isV3 then (fresh_entry h race (p ! 0), drop 1 p) else (fresh_entry h race 0, p))"

definition put_gu_entry :: "u32 \<times> u8 \<times> u8 \<Rightarrow> bytes" where
  "put_gu_entry g = (case g of (h, cycles, live) \<Rightarrow> cf_putU32 h @ [cycles, live])"

definition get_gu_entry :: "bool \<Rightarrow> bytes \<Rightarrow> (u32 \<times> u8 \<times> u8) \<times> bytes" where
  "get_gu_entry isV3 p =
     (let h = cf_getU32 p; p = drop 4 p
      in if isV3 then ((h, p ! 0, p ! 1), drop 2 p) else ((h, 0, 0), p))"

section \<open>Writing\<close>

definition cfLedgerSerializedSize :: "scan_ledger \<Rightarrow> nat" where
  "cfLedgerSerializedSize l =
     4 + 4 + 4 + 4 + 4 + 4 + 4 + length (cfl_outstanding l) * 6 + 4 + length (cfl_gaveUp l) * 6"

text \<open>The bytes written from \<open>buf\<close> on, once the buffer is known to be large enough.\<close>

definition cfLedgerBytes :: "scan_ledger \<Rightarrow> bytes" where
  "cfLedgerBytes l =
     cf_putU32 CF_LEDGER_MAGIC @ cf_putU32 CF_LEDGER_VERSION @ cf_putU32 (cfl_start l) @
     cf_putU32 (cfl_scannedThrough l) @ cf_putU32 (cfl_requestedThrough l) @
     cf_putU32 (cfl_abandonedBelow l) @ cf_putU32 (of_nat (length (cfl_outstanding l))) @
     concat (map put_out_entry (cfl_outstanding l)) @
     cf_putU32 (of_nat (length (cfl_gaveUp l))) @ concat (map put_gu_entry (cfl_parked l))"

text \<open>The returned size, and what was written; \<open>None\<close> for the capacity is a null buffer.\<close>

definition BRCFScanLedgerSerialize :: "scan_ledger \<Rightarrow> nat option \<Rightarrow> nat \<times> bytes option" where
  "BRCFScanLedgerSerialize l cap =
     (let need = cfLedgerSerializedSize l in
      case cap of None \<Rightarrow> (need, None)
      | Some buflen \<Rightarrow> if buflen < need then (need, None) else (need, Some (cfLedgerBytes l)))"

section \<open>Reading\<close>

definition cf_zero_ledger :: scan_ledger where
  "cf_zero_ledger =
     \<lparr>cfl_start = 0, cfl_scannedThrough = 0, cfl_requestedThrough = 0, cfl_abandonedBelow = 0,
      cfl_outstanding = [], cfl_pending = [], cfl_gaveUp = [], cfl_gaveUpRearmCycles = [],
      cfl_gaveUpOffersLive = [], cfl_lastDriveAt = 0, cfl_filterBuf = [], cfl_bufferedBytes = 0,
      cfl_filterBufMagic = CF_FILTER_BUF_MAGIC\<rparr>"

text \<open>The two counted arrays, after the fixed header; \<open>p\<close> is what remains of the buffer.\<close>

definition parse_arrays :: "bool \<Rightarrow> u32 \<Rightarrow> bytes \<Rightarrow> scan_ledger \<Rightarrow> bool \<times> scan_ledger" where
  "parse_arrays isV3 outCount p l =
     (let outEntry = (if isV3 then 6 else 5); guEntry = (if isV3 then 6 else 4) in
      if unat outCount > CF_OUTSTANDING_MAX then (False, l)
      else if length p < unat outCount * outEntry + 4 then (False, l)
      else
        let (outs, p) = get_many (get_out_entry isV3) (unat outCount) p;
            l = l\<lparr>cfl_outstanding := outs\<rparr>;
            gaveUpCount = cf_getU32 p;
            p = drop 4 p
        in if unat gaveUpCount > CF_GAVEUP_MAX then (False, l)
           else if length p < unat gaveUpCount * guEntry then (False, l)
           else
             let (gs, p) = get_many (get_gu_entry isV3) (unat gaveUpCount) p
             in (True, l\<lparr>cfl_gaveUp := map fst gs, cfl_gaveUpRearmCycles := map (fst \<circ> snd) gs,
                        cfl_gaveUpOffersLive := map (snd \<circ> snd) gs\<rparr>))"

definition BRCFScanLedgerParse :: "bytes option \<Rightarrow> bool \<times> scan_ledger" where
  "BRCFScanLedgerParse buf =
     (let l = cf_zero_ledger in
      case buf of
        None \<Rightarrow> (False, l)
      | Some b \<Rightarrow>
          if length b < 24 then (False, l)
          else if cf_getU32 b \<noteq> CF_LEDGER_MAGIC then (False, l)
          else
            let version = cf_getU32 (drop 4 b) in
            if version < CF_LEDGER_VERSION_1 \<or> version > CF_LEDGER_VERSION then (False, l)
            else
              let l = l\<lparr>cfl_start := cf_getU32 (drop 8 b), cfl_scannedThrough := cf_getU32 (drop 12 b),
                        cfl_requestedThrough := cf_getU32 (drop 16 b)\<rparr>;
                  isV3 = (version \<ge> CF_LEDGER_VERSION_3)
              in if version \<ge> CF_LEDGER_VERSION_2 then
                   if length b < 28 then (False, l)
                   else parse_arrays isV3 (cf_getU32 (drop 24 b)) (drop 28 b)
                          (l\<lparr>cfl_abandonedBelow := cf_getU32 (drop 20 b)\<rparr>)
                 else parse_arrays isV3 (cf_getU32 (drop 20 b)) (drop 24 b)
                        (l\<lparr>cfl_abandonedBelow := 0\<rparr>))"

section \<open>The formats are codecs\<close>

lemma ucast_and_ff: "(ucast (w AND 0xff) :: u8) = ucast (w :: u32)"
proof -
  have ff: "(0xff :: u32) = mask 8" by (simp add: mask_eq_exp_minus_1)
  show ?thesis unfolding ff by (rule bit_word_eqI) (auto simp: bit_simps)
qed

lemma cf_putU32_put_le: "cf_putU32 v = put_le 4 v"
  unfolding cf_putU32_def ucast_and_ff by (simp add: put_le_def upt_conv_Cons numeral_eq_Suc)

lemma list4:
  assumes "4 \<le> length p"
  shows "take 4 p = [p ! 0, p ! 1, p ! 2, p ! 3]"
  using assms by (intro nth_equalityI) (auto simp: less_Suc_eq numeral_eq_Suc)

lemma cf_getU32_get_le:
  assumes "4 \<le> length p"
  shows "cf_getU32 p = get_le (take 4 p)"
  unfolding list4 [OF assms] cf_getU32_def
  by (simp add: push_bit_or push_bit_push_bit)

lemma length_cf_putU32 [simp]: "length (cf_putU32 v) = 4"
  by (simp add: cf_putU32_put_le)

lemma cf_get_put [simp]: "cf_getU32 (cf_putU32 v @ rest) = v"
  using get_put_le [where 'a = 32 and k = 4 and w = v]
  by (simp add: cf_getU32_get_le) (simp add: cf_putU32_put_le)

lemma cf_put_get:
  assumes "4 \<le> length p"
  shows "cf_putU32 (cf_getU32 p) = take 4 p"
proof -
  have "length (take 4 p) = 4" using assms by simp
  then show ?thesis
    using put_get_le [where 'a = 32 and bs = "take 4 p"]
    by (simp add: cf_getU32_get_le [OF assms] cf_putU32_put_le)
qed

lemma two_bytes: "2 \<le> length p \<Longrightarrow> p = p ! 0 # p ! 1 # drop 2 p"
  by (cases p; cases "tl p") auto

definition u32_dec :: "bytes \<Rightarrow> u32 \<times> bytes" where
  "u32_dec p = (cf_getU32 p, drop 4 p)"

interpretation u32_codec: exact_codec cf_putU32 u32_dec id 4
  by unfold_locales (simp_all add: u32_dec_def cf_put_get)

interpretation out_codec: exact_codec put_out_entry "get_out_entry True"
  "\<lambda>e. fresh_entry (cfo_height e) (cfo_headerRace e) (cfo_rearmCycles e)" 6
proof unfold_locales
  show "put_out_entry (fst (get_out_entry True p)) @ snd (get_out_entry True p) = p"
    if "6 \<le> length p" for p
    using that two_bytes [of "drop 4 p"] cf_put_get [of p] append_take_drop_id [of 4 p]
    by (simp add: put_out_entry_def get_out_entry_def Let_def fresh_entry_def)
qed (simp_all add: put_out_entry_def get_out_entry_def Let_def)

interpretation gu_codec: exact_codec put_gu_entry "get_gu_entry True" id 6
proof unfold_locales
  show "put_gu_entry (fst (get_gu_entry True p)) @ snd (get_gu_entry True p) = p"
    if "6 \<le> length p" for p
    using that two_bytes [of "drop 4 p"] cf_put_get [of p] append_take_drop_id [of 4 p]
    by (simp add: put_gu_entry_def get_gu_entry_def Let_def)
qed (auto simp: put_gu_entry_def get_gu_entry_def Let_def split: prod.splits)

section \<open>Writing then reading\<close>

text \<open>What survives a restart.\<close>

definition persisted :: "scan_ledger \<Rightarrow> scan_ledger" where
  "persisted l = cf_zero_ledger\<lparr>cfl_start := cfl_start l, cfl_scannedThrough := cfl_scannedThrough l,
     cfl_requestedThrough := cfl_requestedThrough l, cfl_abandonedBelow := cfl_abandonedBelow l,
     cfl_outstanding := map (\<lambda>e. fresh_entry (cfo_height e) (cfo_headerRace e) (cfo_rearmCycles e))
       (cfl_outstanding l),
     cfl_gaveUp := cfl_gaveUp l, cfl_gaveUpRearmCycles := cfl_gaveUpRearmCycles l,
     cfl_gaveUpOffersLive := cfl_gaveUpOffersLive l\<rparr>"

lemma unat_of_nat_small: "n < 2 ^ 32 \<Longrightarrow> unat (of_nat n :: u32) = n"
  by (simp add: unat_of_nat take_bit_nat_eq_self)

lemma parse_arrays_bytes:
  assumes "cfl_shape l"
  shows "parse_arrays True (of_nat (length (cfl_outstanding l)))
     (concat (map put_out_entry (cfl_outstanding l)) @ cf_putU32 (of_nat (length (cfl_gaveUp l))) @
      concat (map put_gu_entry (cfl_parked l)) @ rest) l0 =
    (True, l0\<lparr>cfl_outstanding := map (\<lambda>e. fresh_entry (cfo_height e) (cfo_headerRace e)
        (cfo_rearmCycles e)) (cfl_outstanding l), cfl_gaveUp := cfl_gaveUp l,
      cfl_gaveUpRearmCycles := cfl_gaveUpRearmCycles l, cfl_gaveUpOffersLive := cfl_gaveUpOffersLive l\<rparr>)"
proof -
  note sh = cfl_shapeD [OF assms]
  have len: "length (cfl_parked l) = length (cfl_gaveUp l)"
    using sh(3,4) by simp
  have o: "unat (of_nat (length (cfl_outstanding l)) :: u32) = length (cfl_outstanding l)"
    by (rule unat_of_nat_small) (use sh(5) in \<open>simp add: cf_constants\<close>)
  have g: "unat (of_nat (length (cfl_gaveUp l)) :: u32) = length (cfl_gaveUp l)"
    by (rule unat_of_nat_small) (use sh(6) in \<open>simp add: cf_constants\<close>)
  have gs: "get_many (get_gu_entry True) (length (cfl_gaveUp l))
      (concat (map put_gu_entry (cfl_parked l)) @ rest) = (cfl_parked l, rest)"
    using gu_codec.many_roundtrip [of "cfl_parked l" rest] len by simp
  have proj: "map fst (cfl_parked l) = cfl_gaveUp l" "map (fst \<circ> snd) (cfl_parked l) = cfl_gaveUpRearmCycles l"
    "map (snd \<circ> snd) (cfl_parked l) = cfl_gaveUpOffersLive l"
    using sh(3,4) by (simp_all add: map_map [symmetric] del: map_map)
  show ?thesis
    using sh(5,6) len
    by (simp add: parse_arrays_def o g gs proj Let_def out_codec.many_roundtrip
        out_codec.many_length gu_codec.many_length)
qed

text \<open>
  C19.  The persisted blob round-trips: whatever the ledger holds within its capacities, the size
  query returns the length of what is written, and reading the blob back, whatever follows it in the
  buffer, gives the same marks, heights, re-arm cycles and given-up bytes, with the per-process
  fields (peers, times, attempts, latch) reset as for a fresh process.
\<close>

theorem blob_roundtrip:
  assumes "cfl_shape l" and "BRCFScanLedgerSerialize l (Some cap) = (need, Some b)"
  shows "length b = need \<and> need \<le> cap \<and> BRCFScanLedgerParse (Some (b @ rest)) = (True, persisted l)"
proof -
  have b: "b = cfLedgerBytes l" "need = cfLedgerSerializedSize l" "need \<le> cap"
    using assms(2) by (auto simp: BRCFScanLedgerSerialize_def Let_def split: if_splits)
  have "length b = need"
    using cfl_shapeD(3,4) [OF assms(1)]
    by (simp add: b cfLedgerBytes_def cfLedgerSerializedSize_def out_codec.many_length
        gu_codec.many_length)
  moreover have "BRCFScanLedgerParse (Some (b @ rest)) = (True, persisted l)"
    using parse_arrays_bytes [OF assms(1), of rest]
    by (simp add: b BRCFScanLedgerParse_def cfLedgerBytes_def Let_def blob_constants persisted_def)
  ultimately show ?thesis using b(3) by simp
qed


definition blob_sample :: scan_ledger where
  "blob_sample = cf_zero_ledger\<lparr>cfl_start := 10, cfl_scannedThrough := 10, cfl_requestedThrough := 30,
     cfl_outstanding := [(fresh_entry 14 1 2)\<lparr>cfo_attempts := 3, cfo_peer := 9\<rparr>],
     cfl_gaveUp := [11], cfl_gaveUpRearmCycles := [3], cfl_gaveUpOffersLive := [1]\<rparr>"

lemma blob_sample_shape: "cfl_shape blob_sample"
  by (simp add: cfl_shape_def blob_sample_def cf_zero_ledger_def fresh_entry_def cf_constants)

lemma blob_roundtrip_witness:
  "length (cfLedgerBytes blob_sample) = 44 \<and>
   BRCFScanLedgerParse (Some (cfLedgerBytes blob_sample @ [0xAA])) = (True, persisted blob_sample)"
proof -
  have s: "BRCFScanLedgerSerialize blob_sample (Some 64) = (44, Some (cfLedgerBytes blob_sample))"
    by (simp add: BRCFScanLedgerSerialize_def cfLedgerSerializedSize_def blob_sample_def
        cf_zero_ledger_def)
  show ?thesis
    using blob_roundtrip [OF blob_sample_shape s, of "[0xAA]"] by simp
qed

section \<open>Reading anything\<close>

lemma parse_arrays_bounds:
  assumes "parse_arrays v n p l = (ok, l')" and "cfl_outstanding l = []" "cfl_gaveUp l = []"
    and "cfl_gaveUpRearmCycles l = []" "cfl_gaveUpOffersLive l = []"
  shows "length (cfl_outstanding l') \<le> CF_OUTSTANDING_MAX \<and> length (cfl_gaveUp l') \<le> CF_GAVEUP_MAX \<and>
    length (cfl_gaveUpRearmCycles l') = length (cfl_gaveUp l') \<and>
    length (cfl_gaveUpOffersLive l') = length (cfl_gaveUp l')"
  using assms
  by (auto simp: parse_arrays_def Let_def dest!: get_many_length_eq split: if_splits prod.splits)

text \<open>
  Reading is safe on any input: whatever bytes are given, accepted or refused, the ledger left
  behind keeps both arrays within their capacities and the parked bytes in step with the parked
  heights, holds no pending entry and no buffered filter, and a refusal for its size, magic or
  version leaves it empty.
\<close>

theorem parse_keeps_the_capacities:
  "case BRCFScanLedgerParse buf of (ok, l) \<Rightarrow>
     length (cfl_outstanding l) \<le> CF_OUTSTANDING_MAX \<and> length (cfl_gaveUp l) \<le> CF_GAVEUP_MAX \<and>
     length (cfl_gaveUpRearmCycles l) = length (cfl_gaveUp l) \<and>
     length (cfl_gaveUpOffersLive l) = length (cfl_gaveUp l) \<and>
     cfl_pending l = [] \<and> cfl_filterBuf l = [] \<and>
     (case buf of
        None \<Rightarrow> \<not> ok \<and> l = cf_zero_ledger
      | Some b \<Rightarrow>
          if length b < 24 \<or> cf_getU32 b \<noteq> CF_LEDGER_MAGIC \<or> cf_getU32 (drop 4 b) = 0 \<or>
            cf_getU32 (drop 4 b) > CF_LEDGER_VERSION
          then \<not> ok \<and> l = cf_zero_ledger else True)"
proof -
  have zero: "cfl_outstanding cf_zero_ledger = []" "cfl_gaveUp cf_zero_ledger = []"
    "cfl_gaveUpRearmCycles cf_zero_ledger = []" "cfl_gaveUpOffersLive cf_zero_ledger = []"
    "cfl_pending cf_zero_ledger = []" "cfl_filterBuf cf_zero_ledger = []"
    by (simp_all add: cf_zero_ledger_def)
  have frame: "cfl_pending l' = cfl_pending l \<and> cfl_filterBuf l' = cfl_filterBuf l"
    if "parse_arrays v n p l = (ok, l')" for v n p l ok l'
    using that by (auto simp: parse_arrays_def Let_def split: if_splits prod.splits)
  obtain ok l where P: "BRCFScanLedgerParse buf = (ok, l)" by fastforce
  show ?thesis
  proof (cases buf)
    case None
    then show ?thesis using P zero by (auto simp: BRCFScanLedgerParse_def)
  next
    case (Some b)
    let ?v = "cf_getU32 (drop 4 b)"
    consider (bad) "length b < 24 \<or> cf_getU32 b \<noteq> CF_LEDGER_MAGIC \<or> ?v < 1 \<or> ?v > CF_LEDGER_VERSION"
      | (short) "\<not> (length b < 24 \<or> cf_getU32 b \<noteq> CF_LEDGER_MAGIC \<or> ?v < 1 \<or> ?v > CF_LEDGER_VERSION)"
          "?v \<ge> 2" "length b < 28"
      | (arrays) l0 v n p where "parse_arrays v n p l0 = (ok, l)"
          "cfl_outstanding l0 = []" "cfl_gaveUp l0 = []" "cfl_gaveUpRearmCycles l0 = []"
          "cfl_gaveUpOffersLive l0 = []" "cfl_pending l0 = []" "cfl_filterBuf l0 = []"
          "\<not> (length b < 24 \<or> cf_getU32 b \<noteq> CF_LEDGER_MAGIC \<or> ?v < 1 \<or> ?v > CF_LEDGER_VERSION)"
    proof -
      have "\<not> (length b < 24 \<or> cf_getU32 b \<noteq> CF_LEDGER_MAGIC \<or> ?v < 1 \<or> ?v > CF_LEDGER_VERSION) \<Longrightarrow>
          \<not> (?v \<ge> 2 \<and> length b < 28) \<Longrightarrow> thesis"
        using P that(3) zero by (auto simp: Some BRCFScanLedgerParse_def Let_def blob_constants split: if_splits)
      then show ?thesis using that(1,2) by blast
    qed
    then show ?thesis
    proof cases
      case bad
      then have "ok = False \<and> l = cf_zero_ledger"
        using P by (auto simp: Some BRCFScanLedgerParse_def Let_def CF_LEDGER_VERSION_1_def split: if_splits)
      then show ?thesis using P zero Some by simp
    next
      case short
      then show ?thesis
        using P zero Some by (auto simp: BRCFScanLedgerParse_def Let_def blob_constants split: if_splits)
    next
      case arrays
      then have "?v \<noteq> 0" by auto
      then show ?thesis
        using parse_arrays_bounds [OF arrays(1-5)] frame [OF arrays(1)] arrays(6-) P Some by auto
    qed
  qed
qed

lemma parse_keeps_the_capacities_witness:
  "BRCFScanLedgerParse (Some [1, 2, 3]) = (False, cf_zero_ledger)"
  using parse_keeps_the_capacities [of "Some [1, 2, 3]"]
  by (cases "BRCFScanLedgerParse (Some [1, 2, 3])") auto

section \<open>Reading then writing\<close>

lemma put_get_drop:
  assumes "4 + k \<le> length b"
  shows "cf_putU32 (cf_getU32 (drop k b)) @ drop (4 + k) b = drop k b"
  using cf_put_get [of "drop k b"] append_take_drop_id [of 4 "drop k b"] assms by simp

lemma parse_arrays_exact:
  assumes p: "parse_arrays True n p l = (True, l')"
    and len: "length p = length (cfl_outstanding l') * 6 + 4 + length (cfl_gaveUp l') * 6"
  shows "n = of_nat (length (cfl_outstanding l')) \<and>
    concat (map put_out_entry (cfl_outstanding l')) @ cf_putU32 (of_nat (length (cfl_gaveUp l'))) @
      concat (map put_gu_entry (cfl_parked l')) = p \<and>
    cfl_start l' = cfl_start l \<and> cfl_scannedThrough l' = cfl_scannedThrough l \<and>
    cfl_requestedThrough l' = cfl_requestedThrough l \<and> cfl_abandonedBelow l' = cfl_abandonedBelow l"
proof -
  obtain outs p1 where o: "get_many (get_out_entry True) (unat n) p = (outs, p1)" by fastforce
  obtain gs p2 where g: "get_many (get_gu_entry True) (unat (cf_getU32 p1)) (drop 4 p1) = (gs, p2)"
    by fastforce
  have *: "unat n * 6 + 4 \<le> length p" "unat (cf_getU32 p1) * 6 \<le> length (drop 4 p1)"
    "l' = l\<lparr>cfl_outstanding := outs, cfl_gaveUp := map fst gs,
       cfl_gaveUpRearmCycles := map (fst \<circ> snd) gs, cfl_gaveUpOffersLive := map (snd \<circ> snd) gs\<rparr>"
    using p o g by (auto simp: parse_arrays_def Let_def split: if_splits)
  have p1: "concat (map put_out_entry outs) @ p1 = p" "length outs = unat n"
    using out_codec.many_exact [OF _ o] *(1) get_many_length_eq [OF o] by auto
  have lp1: "length p1 = length p - unat n * 6"
    using arg_cong [OF p1(1), of length] p1(2) by (simp add: out_codec.many_length)
  have p2: "concat (map put_gu_entry gs) @ p2 = drop 4 p1" "length gs = unat (cf_getU32 p1)"
    using gu_codec.many_exact [OF _ g] *(2) get_many_length_eq [OF g] by auto
  have "p2 = []"
    using len *(3) p1(2) p2(2) lp1 arg_cong [OF p2(1), of length] *(1)
    by (simp add: gu_codec.many_length)
  moreover have "cf_putU32 (cf_getU32 p1) @ drop 4 p1 = p1"
    using put_get_drop [of 0 p1] lp1 *(1) by simp
  moreover have "zip (map fst gs) (zip (map (fst \<circ> snd) gs) (map (snd \<circ> snd) gs)) = gs"
    by (induction gs) auto
  ultimately show ?thesis
    using p1 p2 *(3) by (simp add: word_unat_eq_iff)
qed

text \<open>
  A blob of the current version that is accepted and has no bytes beyond its arrays is written
  back byte for byte: reading and writing again never changes a stored ledger.
\<close>

theorem blob_rewrites_identically:
  assumes "BRCFScanLedgerParse (Some b) = (True, l)" and "cf_getU32 (drop 4 b) = CF_LEDGER_VERSION"
    and "length b = cfLedgerSerializedSize l"
  shows "BRCFScanLedgerSerialize l (Some (length b)) = (length b, Some b)"
proof -
  have len: "28 \<le> length b"
    using assms(3) by (simp add: cfLedgerSerializedSize_def)
  let ?l0 = "cf_zero_ledger\<lparr>cfl_start := cf_getU32 (drop 8 b), cfl_scannedThrough := cf_getU32 (drop 12 b),
      cfl_requestedThrough := cf_getU32 (drop 16 b), cfl_abandonedBelow := cf_getU32 (drop 20 b)\<rparr>"
  have magic: "cf_getU32 b = CF_LEDGER_MAGIC"
    and arr: "parse_arrays True (cf_getU32 (drop 24 b)) (drop 28 b) ?l0 = (True, l)"
    using assms(1,2) len
    by (auto simp: BRCFScanLedgerParse_def Let_def blob_constants split: if_splits)
  have *: "cf_getU32 (drop 24 b) = of_nat (length (cfl_outstanding l))"
    "concat (map put_out_entry (cfl_outstanding l)) @ cf_putU32 (of_nat (length (cfl_gaveUp l))) @
      concat (map put_gu_entry (cfl_parked l)) = drop 28 b"
    "cfl_start l = cf_getU32 (drop 8 b)" "cfl_scannedThrough l = cf_getU32 (drop 12 b)"
    "cfl_requestedThrough l = cf_getU32 (drop 16 b)" "cfl_abandonedBelow l = cf_getU32 (drop 20 b)"
    using parse_arrays_exact [OF arr] assms(3) by (simp_all add: cfLedgerSerializedSize_def)
  have put: "cf_putU32 (cf_getU32 (drop k b)) @ drop (4 + k) b = drop k b" if "k \<le> 24" for k
    by (rule put_get_drop) (use that len in simp)
  have "cfLedgerBytes l = b"
    unfolding cfLedgerBytes_def *(3-6) *(1) [symmetric] *(2) magic [symmetric] assms(2) [symmetric]
    using put [of 0] put [of 4] put [of 8] put [of 12] put [of 16] put [of 20] put [of 24] by simp
  then show ?thesis
    using assms(3) by (simp add: BRCFScanLedgerSerialize_def)
qed

lemma blob_rewrites_identically_witness:
  "BRCFScanLedgerSerialize (persisted blob_sample) (Some 44) = (44, Some (cfLedgerBytes blob_sample))"
proof -
  let ?b = "cfLedgerBytes blob_sample"
  have s: "BRCFScanLedgerSerialize blob_sample (Some 64) = (44, Some ?b)"
    by (simp add: BRCFScanLedgerSerialize_def cfLedgerSerializedSize_def blob_sample_def
        cf_zero_ledger_def)
  have len: "length ?b = 44"
    by (simp add: cfLedgerBytes_def blob_sample_def cf_zero_ledger_def put_out_entry_def
        put_gu_entry_def)
  have p: "BRCFScanLedgerParse (Some ?b) = (True, persisted blob_sample)"
    using parse_arrays_bytes [OF blob_sample_shape, of "[]"]
    by (simp add: BRCFScanLedgerParse_def cfLedgerBytes_def Let_def blob_constants persisted_def)
  show ?thesis
    using blob_rewrites_identically [OF p] len
    by (simp add: cfLedgerSerializedSize_def persisted_def blob_sample_def cf_zero_ledger_def)
      (simp add: cfLedgerBytes_def)
qed

end
