(* ===== verification/ScanLedgerBuffer.thy ===== *)
theory ScanLedgerBuffer
  imports ScanLedgerInv Machine
begin

text \<open>
  The two side buffers of the scan ledger (\<open>src/BRCFScanLedger.c\<close>): the raw filters that wait for
  their block header and filter header, bounded in bytes, and the wallet transactions of a block
  whose header is not connected yet.
\<close>

section \<open>The filter buffer\<close>

definition CF_FILTER_BUFFER_MAX_BYTES :: u64 where "CF_FILTER_BUFFER_MAX_BYTES = 262144"
definition CF_FILTER_BUF_SLOTS :: nat where "CF_FILTER_BUF_SLOTS = 2048"
definition CF_FILTER_BUF_MAX_AGE_SECS :: u32 where "CF_FILTER_BUF_MAX_AGE_SECS = 900"

lemmas buf_constants = CF_FILTER_BUFFER_MAX_BYTES_def CF_FILTER_BUF_SLOTS_def
  CF_FILTER_BUF_MAX_AGE_SECS_def

definition cfLedgerFreeFilterBuffer :: "scan_ledger \<Rightarrow> scan_ledger" where
  "cfLedgerFreeFilterBuffer l = l\<lparr>cfl_filterBuf := [], cfl_bufferedBytes := 0\<rparr>"

definition cfLedgerEvictOldestFilter :: "scan_ledger \<Rightarrow> scan_ledger" where
  "cfLedgerEvictOldestFilter l =
     (case cfl_filterBuf l of
        [] \<Rightarrow> l
      | e # es \<Rightarrow> l\<lparr>cfl_filterBuf := es, cfl_bufferedBytes := cfl_bufferedBytes l - cfb_len e\<rparr>)"

text \<open>
  The two eviction loops of \<open>BRCFScanLedgerBufferFilter\<close>: evict the oldest while the buffered bytes
  plus \<open>add\<close> meet the budget and more than \<open>keep\<close> entries are left.
\<close>

function evictWhileOver :: "u64 \<Rightarrow> nat \<Rightarrow> scan_ledger \<Rightarrow> scan_ledger" where
  "evictWhileOver add keep l =
     (if cfl_bufferedBytes l + add \<ge> CF_FILTER_BUFFER_MAX_BYTES \<and> length (cfl_filterBuf l) > keep
      then evictWhileOver add keep (cfLedgerEvictOldestFilter l) else l)"
  by pat_completeness auto
termination
  by (relation "measure (\<lambda>(add, keep, l). length (cfl_filterBuf l))")
    (auto simp: cfLedgerEvictOldestFilter_def split: list.splits)

declare evictWhileOver.simps [simp del]

text \<open>The linear search of the de-dup scan: the index of the entry with this hash, if any.\<close>

fun findFilter :: "u256 \<Rightarrow> cf_filter_entry list \<Rightarrow> nat option" where
  "findFilter h [] = None"
| "findFilter h (e # es) =
     (if cfb_blockHash e = h then Some 0 else map_option Suc (findFilter h es))"

definition BRCFScanLedgerBufferFilter ::
  "scan_ledger \<Rightarrow> u256 \<Rightarrow> bytes \<Rightarrow> u64 \<Rightarrow> u32 \<Rightarrow> bool \<times> scan_ledger" where
  "BRCFScanLedgerBufferFilter l blockHash bs len now =
     (if len > CF_FILTER_BUFFER_MAX_BYTES then (False, l)
      else
        case findFilter blockHash (cfl_filterBuf l) of
          Some i \<Rightarrow>
            let e = cfl_filterBuf l ! i;
                l = l\<lparr>cfl_bufferedBytes := cfl_bufferedBytes l - cfb_len e + len,
                      cfl_filterBuf := (cfl_filterBuf l)[i := e\<lparr>cfb_bytes := bs, cfb_len := len,
                                                                cfb_at := now\<rparr>]\<rparr>
            in (True, evictWhileOver 0 1 l)
        | None \<Rightarrow>
            let l = evictWhileOver len 0 l;
                l = (if length (cfl_filterBuf l) \<ge> CF_FILTER_BUF_SLOTS
                     then cfLedgerEvictOldestFilter l else l);
                entry = \<lparr>cfb_blockHash = blockHash, cfb_bytes = bs, cfb_len = len, cfb_at = now,
                         cfb_firstAt = now\<rparr>
            in (True, l\<lparr>cfl_filterBuf := cfl_filterBuf l @ [entry],
                       cfl_bufferedBytes := cfl_bufferedBytes l + len\<rparr>))"

definition filterAge :: "u32 \<Rightarrow> cf_filter_entry \<Rightarrow> u32" where
  "filterAge nowSec e = (if nowSec \<ge> cfb_firstAt e then nowSec - cfb_firstAt e else 0)"

text \<open>The scan of \<open>BRCFScanLedgerEvictAgedFilters\<close> over the entries from index \<open>i\<close> on.\<close>

fun evictAgedLoop :: "u32 \<Rightarrow> cf_filter_entry list \<Rightarrow> u64 \<Rightarrow> cf_filter_entry list \<times> u64" where
  "evictAgedLoop nowSec [] tot = ([], tot)"
| "evictAgedLoop nowSec (e # es) tot =
     (if filterAge nowSec e > CF_FILTER_BUF_MAX_AGE_SECS
      then evictAgedLoop nowSec es (tot - cfb_len e)
      else let (es, tot) = evictAgedLoop nowSec es tot in (e # es, tot))"

definition BRCFScanLedgerEvictAgedFilters :: "scan_ledger \<Rightarrow> u32 \<Rightarrow> scan_ledger" where
  "BRCFScanLedgerEvictAgedFilters l nowSec =
     (let (es, tot) = evictAgedLoop nowSec (cfl_filterBuf l) (cfl_bufferedBytes l)
      in l\<lparr>cfl_filterBuf := es, cfl_bufferedBytes := tot\<rparr>)"

text \<open>
  Draining.  The two callbacks reach the manager through \<open>ctx\<close>, which is here a state of any type
  that they thread along; \<open>isReady\<close> yields the height of a connected block, \<open>evalFn\<close> whether the
  entry was credited.  \<open>None\<close> is a null callback.
\<close>

fun drainLoop ::
  "('c \<Rightarrow> u256 \<Rightarrow> u32 option \<times> 'c) option \<Rightarrow>
   ('c \<Rightarrow> u32 \<Rightarrow> u256 \<Rightarrow> bytes \<Rightarrow> bool \<times> 'c) option \<Rightarrow> nat \<Rightarrow> nat \<Rightarrow>
   cf_filter_entry list \<Rightarrow> nat \<Rightarrow> u64 \<Rightarrow> 'c \<Rightarrow> cf_filter_entry list \<times> nat \<times> u64 \<times> 'c"
where
  "drainLoop isReady evalFn scratchCap maxDrain [] processed tot c = ([], 0, tot, c)"
| "drainLoop isReady evalFn scratchCap maxDrain (e # es) processed tot c =
     (if \<not> processed < maxDrain then (e # es, 0, tot, c)
      else
        case (case isReady of None \<Rightarrow> (None, c) | Some f \<Rightarrow> f c (cfb_blockHash e)) of
          (None, c) \<Rightarrow>
            let (es, removed, tot, c) =
                  drainLoop isReady evalFn scratchCap maxDrain es processed tot c
            in (e # es, removed, tot, c)
        | (Some height, c) \<Rightarrow>
            let (credited, c) =
                  (case evalFn of None \<Rightarrow> (False, c)
                   | Some f \<Rightarrow> f c height (cfb_blockHash e) (take scratchCap (cfb_bytes e)))
            in if credited then
                 let (es, removed, tot, c) =
                       drainLoop isReady evalFn scratchCap maxDrain es (processed + 1)
                         (tot - cfb_len e) c
                 in (es, removed + 1, tot, c)
               else
                 let (es, removed, tot, c) =
                       drainLoop isReady evalFn scratchCap maxDrain es (processed + 1) tot c
                 in (e # es, removed, tot, c))"

definition BRCFScanLedgerDrainConnected ::
  "scan_ledger \<Rightarrow> ('c \<Rightarrow> u256 \<Rightarrow> u32 option \<times> 'c) option \<Rightarrow>
   ('c \<Rightarrow> u32 \<Rightarrow> u256 \<Rightarrow> bytes \<Rightarrow> bool \<times> 'c) option \<Rightarrow> nat \<Rightarrow> nat \<Rightarrow> 'c \<Rightarrow> nat \<times> scan_ledger \<times> 'c" where
  "BRCFScanLedgerDrainConnected l isReady evalFn scratchCap maxDrain c =
     (let (es, removed, tot, c) =
            drainLoop isReady evalFn scratchCap maxDrain (cfl_filterBuf l) 0 (cfl_bufferedBytes l) c
      in (removed, l\<lparr>cfl_filterBuf := es, cfl_bufferedBytes := tot\<rparr>, c))"

definition BRCFScanLedgerClearFilterBuffer :: "scan_ledger \<Rightarrow> scan_ledger" where
  "BRCFScanLedgerClearFilterBuffer l = cfLedgerFreeFilterBuffer l"

definition BRCFScanLedgerBufferedHashes :: "scan_ledger \<Rightarrow> nat \<Rightarrow> u256 list" where
  "BRCFScanLedgerBufferedHashes l cap = map cfb_blockHash (take cap (cfl_filterBuf l))"

section \<open>Pending confirmations\<close>

fun findPending :: "u256 \<Rightarrow> cf_pending list \<Rightarrow> nat option" where
  "findPending h [] = None"
| "findPending h (p # ps) =
     (if cfp_blockHash p = h then Some 0 else map_option Suc (findPending h ps))"

definition BRCFScanLedgerRecordPending ::
  "scan_ledger \<Rightarrow> u256 \<Rightarrow> u256 list \<Rightarrow> u32 \<Rightarrow> scan_ledger" where
  "BRCFScanLedgerRecordPending l blockHash txHashes now =
     (let txs = take CF_PENDING_TX_MAX txHashes;
          p = \<lparr>cfp_blockHash = blockHash, cfp_txHashes = txs, cfp_recordedAt = now\<rparr>
      in case findPending blockHash (cfl_pending l) of
           Some i \<Rightarrow> l\<lparr>cfl_pending := (cfl_pending l)[i := p]\<rparr>
         | None \<Rightarrow>
             let ps = (if length (cfl_pending l) \<ge> CF_PENDING_CONFIRM_MAX then tl (cfl_pending l)
                       else cfl_pending l)
             in l\<lparr>cfl_pending := ps @ [p]\<rparr>)"

definition BRCFScanLedgerTakePending ::
  "scan_ledger \<Rightarrow> u256 \<Rightarrow> nat \<Rightarrow> u256 list \<times> scan_ledger" where
  "BRCFScanLedgerTakePending l blockHash cap =
     (case findPending blockHash (cfl_pending l) of
        None \<Rightarrow> ([], l)
      | Some i \<Rightarrow> (take cap (cfp_txHashes (cfl_pending l ! i)),
                  l\<lparr>cfl_pending := remove_at i (cfl_pending l)\<rparr>))"

section \<open>The byte budget\<close>

definition buf_size :: "cf_filter_entry list \<Rightarrow> nat" where
  "buf_size es = sum_list (map (\<lambda>e. length (cfb_bytes e)) es)"

lemma buf_size_simps [simp]:
  "buf_size [] = 0" "buf_size (e # es) = length (cfb_bytes e) + buf_size es"
  "buf_size (xs @ ys) = buf_size xs + buf_size ys"
  by (simp_all add: buf_size_def)

text \<open>The counters tell the truth: each length is that of its bytes, the total is their sum.\<close>

definition buf_ok :: "cf_filter_entry list \<Rightarrow> u64 \<Rightarrow> bool" where
  "buf_ok es tot \<longleftrightarrow> (\<forall>e\<in>set es. cfb_len e = of_nat (length (cfb_bytes e))) \<and>
     tot = of_nat (buf_size es) \<and> buf_size es < 2 ^ 32 \<and> distinct (map cfb_blockHash es)"

definition buf_inv :: "scan_ledger \<Rightarrow> bool" where
  "buf_inv l \<longleftrightarrow> buf_ok (cfl_filterBuf l) (cfl_bufferedBytes l) \<and>
     buf_size (cfl_filterBuf l) \<le> unat CF_FILTER_BUFFER_MAX_BYTES \<and>
     (1 < length (cfl_filterBuf l) \<longrightarrow> buf_size (cfl_filterBuf l) < unat CF_FILTER_BUFFER_MAX_BYTES) \<and>
     length (cfl_filterBuf l) \<le> CF_FILTER_BUF_SLOTS"

lemma buf_size_filter_le: "buf_size (filter P es) \<le> buf_size es"
  by (induction es) auto

lemma buf_size_subseq:
  assumes "subseq xs ys" shows "buf_size xs \<le> buf_size ys"
  using assms by (induction rule: list_emb.induct) auto

text \<open>Taking entries out, with their lengths off the total, keeps the counters true.\<close>

lemma buf_ok_remove:
  assumes "buf_ok (xs @ e # ys) tot"
  shows "buf_ok (xs @ ys) (tot - cfb_len e)"
  using assms by (auto simp: buf_ok_def)

lemma buf_ok_append:
  assumes "buf_ok es tot" and "cfb_len e = of_nat (length (cfb_bytes e))"
    and "cfb_blockHash e \<notin> cfb_blockHash ` set es" and "buf_size es + length (cfb_bytes e) < 2 ^ 32"
  shows "buf_ok (es @ [e]) (tot + cfb_len e)"
  using assms by (auto simp: buf_ok_def)

lemma evictOldest_ok:
  "buf_ok (cfl_filterBuf l) (cfl_bufferedBytes l) \<Longrightarrow>
   buf_ok (cfl_filterBuf (cfLedgerEvictOldestFilter l)) (cfl_bufferedBytes (cfLedgerEvictOldestFilter l))"
  using buf_ok_remove [of "[]"] by (auto simp: cfLedgerEvictOldestFilter_def split: list.splits)

lemma evictOldest_buf [simp]: "cfl_filterBuf (cfLedgerEvictOldestFilter l) = tl (cfl_filterBuf l)"
  by (auto simp: cfLedgerEvictOldestFilter_def split: list.splits)

lemma unat_tot: "buf_ok es tot \<Longrightarrow> unat tot = buf_size es"
  by (auto simp: buf_ok_def unat_of_nat take_bit_nat_eq_self)

lemma evictWhileOver_ok:
  assumes "buf_ok (cfl_filterBuf l) (cfl_bufferedBytes l)" and "unat add \<le> 2 ^ 32"
  shows "let l' = evictWhileOver add keep l in buf_ok (cfl_filterBuf l') (cfl_bufferedBytes l') \<and>
    (\<exists>k. cfl_filterBuf l' = drop k (cfl_filterBuf l)) \<and>
    (length (cfl_filterBuf l') \<le> keep \<or>
     buf_size (cfl_filterBuf l') + unat add < unat CF_FILTER_BUFFER_MAX_BYTES)"
  using assms unfolding Let_def
proof (induction add keep l rule: evictWhileOver.induct)
  case (1 add keep l)
  let ?over = "cfl_bufferedBytes l + add \<ge> CF_FILTER_BUFFER_MAX_BYTES \<and> length (cfl_filterBuf l) > keep"
  show ?case
  proof (cases ?over)
    case True
    have "\<exists>k. tl (drop k xs) = drop k (xs :: cf_filter_entry list)" if "xs = []" for xs
      using that by simp
    show ?thesis
      using "1.IH" [OF True evictOldest_ok [OF "1.prems"(1)] "1.prems"(2)] True
      by (subst (1 2 3 4 5) evictWhileOver.simps) (auto simp: drop_Suc [symmetric])
  next
    case False
    have "unat (cfl_bufferedBytes l + add) = buf_size (cfl_filterBuf l) + unat add"
      using unat_tot [OF "1.prems"(1)] "1.prems" by (simp add: buf_ok_def unat_word_ariths)
    moreover have "evictWhileOver add keep l = l"
      using False by (subst evictWhileOver.simps) auto
    moreover have "\<exists>k. cfl_filterBuf l = drop k (cfl_filterBuf l)"
      by (rule exI [of _ 0]) simp
    ultimately show ?thesis
      using "1.prems" False by (auto simp: not_le word_less_nat_alt)
  qed
qed

lemma findFilter_None: "findFilter h es = None \<longleftrightarrow> h \<notin> cfb_blockHash ` set es"
  by (induction es) auto

lemma findFilter_Some:
  "findFilter h es = Some i \<Longrightarrow> i < length es \<and> cfb_blockHash (es ! i) = h"
  by (induction es arbitrary: i) (auto split: if_splits)

lemma buf_size_update:
  "i < length es \<Longrightarrow> buf_size (es[i := e]) + length (cfb_bytes (es ! i)) =
   buf_size es + length (cfb_bytes e)"
  by (induction es arbitrary: i) (auto split: nat.splits)

lemma buf_ok_update:
  assumes "buf_ok es tot" and "i < length es" and "cfb_len e = of_nat (length (cfb_bytes e))"
    and "cfb_blockHash e = cfb_blockHash (es ! i)" and "buf_size es + length (cfb_bytes e) < 2 ^ 32"
  shows "buf_ok (es[i := e]) (tot - cfb_len (es ! i) + cfb_len e)"
proof -
  have old: "cfb_len (es ! i) = of_nat (length (cfb_bytes (es ! i)))"
    using assms(1,2) by (auto simp: buf_ok_def)
  note sz = buf_size_update [OF assms(2), of e]
  have "tot - cfb_len (es ! i) + cfb_len e = of_nat (buf_size (es[i := e]))"
    using assms(1,3) old arg_cong [OF sz, of "of_nat :: nat \<Rightarrow> u64"]
    by (simp add: buf_ok_def algebra_simps)
  moreover have "map cfb_blockHash (es[i := e]) = map cfb_blockHash es"
    by (rule nth_equalityI) (use assms(2,4) in \<open>auto simp: nth_list_update\<close>)
  ultimately show ?thesis
    using assms sz by (auto simp: buf_ok_def dest!: set_update_subset_insert [THEN subsetD])
qed

lemma buf_ok_drop:
  "buf_ok es tot \<Longrightarrow> distinct (map cfb_blockHash (drop k es)) \<and> buf_size (drop k es) \<le> buf_size es"
  by (auto simp: buf_ok_def distinct_drop drop_map [symmetric] intro: buf_size_subseq)

lemma subseq_drop: "subseq (drop k xs) xs"
  by (metis append_take_drop_id list_emb_append2 subseq_order.refl)

lemma BufferFilter_inv:
  assumes inv: "buf_inv l" and len: "len = of_nat (length bs)" "length bs < 2 ^ 64"
  shows "buf_inv (snd (BRCFScanLedgerBufferFilter l h bs len now))"
proof (cases "len > CF_FILTER_BUFFER_MAX_BYTES")
  case True
  then show ?thesis using inv by (simp add: BRCFScanLedgerBufferFilter_def)
next
  case False
  have ulen: "unat len = length bs"
    using len by (simp add: unat_of_nat take_bit_nat_eq_self)
  then have bs: "length bs \<le> unat CF_FILTER_BUFFER_MAX_BYTES"
    using False by (simp add: word_le_nat_alt not_less)
  have ok: "buf_ok (cfl_filterBuf l) (cfl_bufferedBytes l)"
    and sz: "buf_size (cfl_filterBuf l) \<le> unat CF_FILTER_BUFFER_MAX_BYTES"
    and slots: "length (cfl_filterBuf l) \<le> CF_FILTER_BUF_SLOTS"
    using inv by (auto simp: buf_inv_def)
  have max: "unat CF_FILTER_BUFFER_MAX_BYTES = 262144"
    by (simp add: buf_constants)
  show ?thesis
  proof (cases "findFilter h (cfl_filterBuf l)")
    case (Some i)
    then have i: "i < length (cfl_filterBuf l)" by (simp add: findFilter_Some)
    let ?e = "(cfl_filterBuf l ! i)\<lparr>cfb_bytes := bs, cfb_len := len, cfb_at := now\<rparr>"
    let ?l = "l\<lparr>cfl_bufferedBytes := cfl_bufferedBytes l - cfb_len (cfl_filterBuf l ! i) + len,
        cfl_filterBuf := (cfl_filterBuf l)[i := ?e]\<rparr>"
    have "buf_ok (cfl_filterBuf ?l) (cfl_bufferedBytes ?l)"
      using buf_ok_update [OF ok i, of ?e] len sz bs max by simp
    from evictWhileOver_ok [OF this, of 0 1] obtain k where
      post: "buf_ok (cfl_filterBuf (evictWhileOver 0 1 ?l)) (cfl_bufferedBytes (evictWhileOver 0 1 ?l))"
        "cfl_filterBuf (evictWhileOver 0 1 ?l) = drop k (cfl_filterBuf ?l)"
        "length (cfl_filterBuf (evictWhileOver 0 1 ?l)) \<le> 1 \<or>
         buf_size (cfl_filterBuf (evictWhileOver 0 1 ?l)) < unat CF_FILTER_BUFFER_MAX_BYTES"
      by (auto simp: Let_def)
    let ?r = "cfl_filterBuf (evictWhileOver 0 1 ?l)"
    have each: "length (cfb_bytes e) \<le> unat CF_FILTER_BUFFER_MAX_BYTES" if "e \<in> set ?r" for e
    proof -
      have "e = ?e \<or> e \<in> set (cfl_filterBuf l)"
        using that post(2) set_drop_subset [of k "cfl_filterBuf ?l"]
          set_update_subset_insert [of "cfl_filterBuf l" i ?e] by auto
      moreover have "length (cfb_bytes e) \<le> buf_size (cfl_filterBuf l)" if "e \<in> set (cfl_filterBuf l)"
        using that unfolding buf_size_def by (intro member_le_sum_list) auto
      ultimately show ?thesis using bs sz by auto
    qed
    have "buf_size ?r \<le> unat CF_FILTER_BUFFER_MAX_BYTES"
    proof (cases "length ?r \<le> 1")
      case True
      then show ?thesis using each by (cases ?r; cases "tl ?r") auto
    qed (use post(3) in simp)
    then have "buf_inv (evictWhileOver 0 1 ?l)"
      using post slots by (auto simp: buf_inv_def)
    then show ?thesis
      using False Some by (simp add: BRCFScanLedgerBufferFilter_def Let_def)
  next
    case None
    let ?l1 = "evictWhileOver len 0 l"
    obtain k where p1: "buf_ok (cfl_filterBuf ?l1) (cfl_bufferedBytes ?l1)"
        "cfl_filterBuf ?l1 = drop k (cfl_filterBuf l)"
        "length (cfl_filterBuf ?l1) \<le> 0 \<or>
         buf_size (cfl_filterBuf ?l1) + unat len < unat CF_FILTER_BUFFER_MAX_BYTES"
      using evictWhileOver_ok [OF ok, of len 0] ulen bs max by (auto simp: Let_def)
    define l2 where "l2 = (if length (cfl_filterBuf ?l1) \<ge> CF_FILTER_BUF_SLOTS
      then cfLedgerEvictOldestFilter ?l1 else ?l1)"
    have buf2: "cfl_filterBuf l2 = drop (if length (cfl_filterBuf ?l1) \<ge> CF_FILTER_BUF_SLOTS then 1 else 0)
        (cfl_filterBuf ?l1)"
      by (simp add: l2_def drop_Suc)
    have p2: "buf_ok (cfl_filterBuf l2) (cfl_bufferedBytes l2)"
      using evictOldest_ok [OF p1(1)] p1(1) by (simp add: l2_def)
    have le2: "buf_size (cfl_filterBuf l2) \<le> buf_size (cfl_filterBuf ?l1)"
      unfolding buf2 by (intro buf_size_subseq subseq_drop)
    have len2: "length (cfl_filterBuf l2) \<le> length (cfl_filterBuf ?l1)"
      "length (cfl_filterBuf l2) < CF_FILTER_BUF_SLOTS"
      using buf2 p1(2) slots by (auto simp: buf_constants)
    have fresh: "h \<notin> cfb_blockHash ` set (cfl_filterBuf l2)"
      using None [unfolded findFilter_None] buf2 p1(2)
      by (auto dest!: in_set_dropD)
    let ?e = "\<lparr>cfb_blockHash = h, cfb_bytes = bs, cfb_len = len, cfb_at = now, cfb_firstAt = now\<rparr>"
    have bound: "cfl_filterBuf l2 = [] \<or>
        buf_size (cfl_filterBuf l2) + length bs < unat CF_FILTER_BUFFER_MAX_BYTES"
      using p1(3) le2 len2(1) ulen by auto
    have ok3: "buf_ok (cfl_filterBuf l2 @ [?e]) (cfl_bufferedBytes l2 + len)"
      using buf_ok_append [OF p2, of ?e] len fresh bound bs max by auto
    have "buf_inv (l2\<lparr>cfl_filterBuf := cfl_filterBuf l2 @ [?e], cfl_bufferedBytes := cfl_bufferedBytes l2 + len\<rparr>)"
      using ok3 bound len2(2) bs by (auto simp: buf_inv_def)
    then show ?thesis
      using False None by (simp add: BRCFScanLedgerBufferFilter_def Let_def l2_def)
  qed
qed

lemma evictAgedLoop_eq:
  "buf_ok (xs @ es) tot \<Longrightarrow> evictAgedLoop t es tot = (es', tot') \<Longrightarrow>
   es' = filter (\<lambda>e. filterAge t e \<le> CF_FILTER_BUF_MAX_AGE_SECS) es \<and> buf_ok (xs @ es') tot'"
proof (induction es arbitrary: xs tot es' tot')
  case (Cons e es)
  show ?case
  proof (cases "filterAge t e > CF_FILTER_BUF_MAX_AGE_SECS")
    case True
    then show ?thesis
      using Cons.IH [OF buf_ok_remove [OF Cons.prems(1)]] Cons.prems(2) by auto
  next
    case False
    obtain es0 tot0 where r: "evictAgedLoop t es tot = (es0, tot0)" by fastforce
    have "evictAgedLoop t (e # es) tot = (e # es0, tot0)"
      by (simp only: evictAgedLoop.simps False if_False r Let_def prod.case)
    then show ?thesis
      using Cons.IH [of "xs @ [e]" tot, OF _ r] Cons.prems False by auto
  qed
qed simp

lemma buf_inv_subseq:
  assumes "buf_inv l" and "buf_ok es tot" and "subseq es (cfl_filterBuf l)"
  shows "buf_inv (l\<lparr>cfl_filterBuf := es, cfl_bufferedBytes := tot\<rparr>)"
proof -
  have "length es \<le> length (cfl_filterBuf l)" "buf_size es \<le> buf_size (cfl_filterBuf l)"
    using assms(3) list_emb_length buf_size_subseq by auto
  then show ?thesis using assms(1,2) by (auto simp: buf_inv_def)
qed

lemma EvictAged_inv:
  assumes "buf_inv l"
  shows "buf_inv (BRCFScanLedgerEvictAgedFilters l t)"
    and "cfl_filterBuf (BRCFScanLedgerEvictAgedFilters l t) =
      filter (\<lambda>e. filterAge t e \<le> CF_FILTER_BUF_MAX_AGE_SECS) (cfl_filterBuf l)"
proof -
  obtain es tot where e: "evictAgedLoop t (cfl_filterBuf l) (cfl_bufferedBytes l) = (es, tot)"
    by fastforce
  have *: "es = filter (\<lambda>e. filterAge t e \<le> CF_FILTER_BUF_MAX_AGE_SECS) (cfl_filterBuf l)" "buf_ok es tot"
    using evictAgedLoop_eq [of "[]", OF _ e] assms by (auto simp: buf_inv_def)
  show "buf_inv (BRCFScanLedgerEvictAgedFilters l t)"
    using buf_inv_subseq [OF assms *(2)] *(1)
    by (simp add: BRCFScanLedgerEvictAgedFilters_def e)
  show "cfl_filterBuf (BRCFScanLedgerEvictAgedFilters l t) =
      filter (\<lambda>e. filterAge t e \<le> CF_FILTER_BUF_MAX_AGE_SECS) (cfl_filterBuf l)"
    using *(1) by (simp add: BRCFScanLedgerEvictAgedFilters_def e)
qed

text \<open>One entry of a drain is kept, or credited and removed.\<close>

lemma drainLoop_Cons_cases:
  assumes "drainLoop r f sc m (e # es) pr tot c = (es', n, tot', c')" and "pr < m"
  obtains (kept) pr2 c2 es1 where "drainLoop r f sc m es pr2 tot c2 = (es1, n, tot', c')"
      "es' = e # es1" "pr \<le> pr2"
  | (removed) c2 n1 where "drainLoop r f sc m es (pr + 1) (tot - cfb_len e) c2 = (es', n1, tot', c')"
      "n = Suc n1"
proof -
  obtain hgt c1 where rd: "(case r of None \<Rightarrow> (None, c) | Some g \<Rightarrow> g c (cfb_blockHash e)) = (hgt, c1)"
    by fastforce
  obtain credited c2 where ev: "(case f of None \<Rightarrow> (False, c1)
      | Some g \<Rightarrow> g c1 (the hgt) (cfb_blockHash e) (take sc (cfb_bytes e))) = (credited, c2)"
    by fastforce
  obtain a1 n1 t1 d1 where k1: "drainLoop r f sc m es pr tot c1 = (a1, n1, t1, d1)"
    by (metis prod_cases4)
  obtain a2 n2 t2 d2 where k2: "drainLoop r f sc m es (pr + 1) tot c2 = (a2, n2, t2, d2)"
    by (metis prod_cases4)
  obtain a3 n3 t3 d3 where k3: "drainLoop r f sc m es (pr + 1) (tot - cfb_len e) c2 = (a3, n3, t3, d3)"
    by (metis prod_cases4)
  have eq: "drainLoop r f sc m (e # es) pr tot c =
      (case hgt of None \<Rightarrow> (e # a1, n1, t1, d1)
       | Some h \<Rightarrow> if credited then (a3, Suc n3, t3, d3) else (e # a2, n2, t2, d2))"
    using ev assms(2) by (cases hgt) (simp_all only: drainLoop.simps not_True_eq_False if_False rd prod.case
        option.case option.sel Let_def k1 k2 k3 Suc_eq_plus1)
  show thesis
    using assms(1) k1 k2 k3 kept [of pr c1 a1] kept [of "pr + 1" c2 a2] removed [of c2 n3] unfolding eq
    by (auto split: option.splits if_splits)
qed

lemma drainLoop_post:
  "buf_ok (xs @ es) tot \<Longrightarrow> drainLoop r f sc m es pr tot c = (es', n, tot', c') \<Longrightarrow>
   buf_ok (xs @ es') tot' \<and> subseq es' es \<and> length es' + n = length es \<and> n \<le> m - pr"
proof (induction es arbitrary: xs pr tot c es' n tot' c')
  case (Cons e es)
  show ?case
  proof (cases "pr < m")
    case True
    from Cons.prems(2) True show ?thesis
    proof (cases rule: drainLoop_Cons_cases)
      case (kept pr2 c2 es1)
      then show ?thesis using Cons.IH [of "xs @ [e]", OF _ kept(1)] Cons.prems(1) by auto
    next
      case (removed c2 n1)
      then show ?thesis using Cons.IH [OF buf_ok_remove [OF Cons.prems(1)] removed(1)] True by auto
    qed
  qed (use Cons.prems in simp)
qed simp

lemma Drain_inv:
  assumes "buf_inv l" and "BRCFScanLedgerDrainConnected l r f sc m c = (n, l', c')"
  shows "buf_inv l'" and "subseq (cfl_filterBuf l') (cfl_filterBuf l)"
    and "length (cfl_filterBuf l') + n = length (cfl_filterBuf l)" and "n \<le> m"
proof -
  obtain es tot c1 n1 where d: "drainLoop r f sc m (cfl_filterBuf l) 0 (cfl_bufferedBytes l) c = (es, n1, tot, c1)"
    by (metis prod_cases4)
  have "n1 = n" "l' = l\<lparr>cfl_filterBuf := es, cfl_bufferedBytes := tot\<rparr>"
    using assms(2) by (auto simp: BRCFScanLedgerDrainConnected_def d)
  moreover have "buf_ok es tot \<and> subseq es (cfl_filterBuf l) \<and> length es + n1 = length (cfl_filterBuf l) \<and> n1 \<le> m"
    using drainLoop_post [of "[]", OF _ d] assms(1) by (auto simp: buf_inv_def)
  ultimately show "buf_inv l'" "subseq (cfl_filterBuf l') (cfl_filterBuf l)"
    "length (cfl_filterBuf l') + n = length (cfl_filterBuf l)" "n \<le> m"
    using buf_inv_subseq [OF assms(1)] by auto
qed

section \<open>Runs of the buffer\<close>

text \<open>The buffer operations beside the callbacks' state \<open>'c\<close>.\<close>

datatype 'c buffer_op =
    BufferOne u256 bytes u32
  | EvictAged u32
  | Drain "('c \<Rightarrow> u256 \<Rightarrow> u32 option \<times> 'c) option"
      "('c \<Rightarrow> u32 \<Rightarrow> u256 \<Rightarrow> bytes \<Rightarrow> bool \<times> 'c) option" nat nat
  | ClearBuffer

fun buffer_step :: "'c buffer_op \<Rightarrow> scan_ledger \<times> 'c \<Rightarrow> scan_ledger \<times> 'c" where
  "buffer_step (BufferOne h bs now) (l, c) =
     (snd (BRCFScanLedgerBufferFilter l h bs (of_nat (length bs)) now), c)"
| "buffer_step (EvictAged t) (l, c) = (BRCFScanLedgerEvictAgedFilters l t, c)"
| "buffer_step (Drain r f sc m) (l, c) = snd (BRCFScanLedgerDrainConnected l r f sc m c)"
| "buffer_step ClearBuffer (l, c) = (BRCFScanLedgerClearFilterBuffer l, c)"

text \<open>A filter handed over fits in memory: its length is a \<open>size_t\<close>.\<close>

fun buffer_pre :: "'c buffer_op \<Rightarrow> scan_ledger \<times> 'c \<Rightarrow> bool" where
  "buffer_pre (BufferOne h bs now) s \<longleftrightarrow> length bs < 2 ^ 64"
| "buffer_pre _ s = True"

text \<open>Everything of the ledger but its filter buffer.\<close>

definition height_state :: "scan_ledger \<Rightarrow> scan_ledger" where
  "height_state l = l\<lparr>cfl_filterBuf := [], cfl_bufferedBytes := 0\<rparr>"

lemma height_state_update [simp]:
  "height_state (l\<lparr>cfl_filterBuf := es, cfl_bufferedBytes := t\<rparr>) = height_state l"
  "height_state (l\<lparr>cfl_bufferedBytes := t, cfl_filterBuf := es\<rparr>) = height_state l"
  by (simp_all add: height_state_def)

lemma height_state_evict [simp]: "height_state (cfLedgerEvictOldestFilter l) = height_state l"
  by (auto simp: cfLedgerEvictOldestFilter_def split: list.splits)

lemma height_state_evictWhile [simp]: "height_state (evictWhileOver a k l) = height_state l"
  by (induction a k l rule: evictWhileOver.induct) (subst evictWhileOver.simps, simp)

lemma height_state_step: "height_state (fst (buffer_step opr s)) = height_state (fst s)"
proof (cases s)
  case (Pair l c)
  show ?thesis
  proof (cases opr)
    case (BufferOne h bs now)
    then show ?thesis
      by (simp add: Pair BRCFScanLedgerBufferFilter_def Let_def split: option.splits)
  next
    case (Drain r f sc m)
    then show ?thesis
      by (simp add: Pair BRCFScanLedgerDrainConnected_def split: prod.splits)
  qed (simp_all add: Pair BRCFScanLedgerEvictAgedFilters_def BRCFScanLedgerClearFilterBuffer_def
      cfLedgerFreeFilterBuffer_def split: prod.splits)
qed

lemma buffer_step_inv:
  assumes "buf_inv (fst s)" and "buffer_pre opr s"
  shows "buf_inv (fst (buffer_step opr s))"
proof (cases s)
  case (Pair l c)
  show ?thesis
  proof (cases opr)
    case (BufferOne h bs now)
    then show ?thesis using BufferFilter_inv [of l "of_nat (length bs)" bs] assms Pair by simp
  next
    case (EvictAged t)
    then show ?thesis using EvictAged_inv(1) assms Pair by simp
  next
    case (Drain r f sc m)
    then show ?thesis
      using Drain_inv(1) [of l r f sc m c] assms Pair
      by (cases "BRCFScanLedgerDrainConnected l r f sc m c") auto
  qed (simp add: Pair buf_inv_def buf_ok_def BRCFScanLedgerClearFilterBuffer_def cfLedgerFreeFilterBuffer_def
      buf_constants)
qed

interpretation filter_buffer:
  guarded_machine buffer_step buffer_pre "\<lambda>s. buf_inv (fst s) \<and> height_state (fst s) = height_state l0"
  for l0
  by unfold_locales (simp add: buffer_step_inv height_state_step)

lemma buf_inv_Init: "buf_inv (BRCFScanLedgerInit start)"
  by (simp add: buf_inv_def buf_ok_def BRCFScanLedgerInit_def buf_constants)

text \<open>
  C15.  The filter buffer keeps its budget.  After any sequence of buffering, ageing, draining (with
  any callbacks) and clearing, from a fresh ledger: the byte counter is the exact sum of the buffered
  lengths, that sum is within the budget and strictly below it when more than one filter is held, no
  block is buffered twice, the slot count holds, and these operations themselves changed no height, mark
  or pending entry of the ledger (what an evaluation callback of the manager marks in it is a call of its
  own, outside the state the callbacks thread here).
\<close>

theorem buffer_keeps_its_budget:
  assumes "run_ok buffer_step buffer_pre (BRCFScanLedgerInit start, c) ops"
    and "run buffer_step (BRCFScanLedgerInit start, c) ops = (l, c')"
  shows "unat (cfl_bufferedBytes l) = sum_list (map (\<lambda>e. length (cfb_bytes e)) (cfl_filterBuf l)) \<and>
    unat (cfl_bufferedBytes l) \<le> unat CF_FILTER_BUFFER_MAX_BYTES \<and>
    (1 < length (cfl_filterBuf l) \<longrightarrow> cfl_bufferedBytes l < CF_FILTER_BUFFER_MAX_BYTES) \<and>
    distinct (map cfb_blockHash (cfl_filterBuf l)) \<and> length (cfl_filterBuf l) \<le> CF_FILTER_BUF_SLOTS \<and>
    l = (BRCFScanLedgerInit start)\<lparr>cfl_filterBuf := cfl_filterBuf l, cfl_bufferedBytes := cfl_bufferedBytes l\<rparr>"
proof -
  have "buf_inv (fst (run buffer_step (BRCFScanLedgerInit start, c) ops)) \<and>
      height_state (fst (run buffer_step (BRCFScanLedgerInit start, c) ops)) =
      height_state (BRCFScanLedgerInit start)"
    by (rule filter_buffer.run_inv [OF _ assms(1)]) (simp add: buf_inv_Init)
  then have inv: "buf_inv l" and hs: "height_state l = height_state (BRCFScanLedgerInit start)"
    by (simp_all add: assms(2))
  have "l = (BRCFScanLedgerInit start)\<lparr>cfl_filterBuf := cfl_filterBuf l, cfl_bufferedBytes := cfl_bufferedBytes l\<rparr>"
    using hs unfolding height_state_def by (cases l) (auto simp: BRCFScanLedgerInit_def)
  then show ?thesis
    using inv unat_tot [of "cfl_filterBuf l" "cfl_bufferedBytes l"]
    by (auto simp: buf_inv_def buf_ok_def buf_size_def word_less_nat_alt)
qed

lemma buffer_keeps_its_budget_witness:
  "\<exists>l c'. run buffer_step (BRCFScanLedgerInit 10, ())
       [BufferOne 1 [1, 2, 3] 50, BufferOne 2 [4] 51, BufferOne 1 [5] 60] = (l, c') \<and>
     distinct (map cfb_blockHash (cfl_filterBuf l)) \<and>
     unat (cfl_bufferedBytes l) \<le> unat CF_FILTER_BUFFER_MAX_BYTES"
proof -
  let ?ops = "[BufferOne 1 [1, 2, 3] 50, BufferOne 2 [4] 51, BufferOne 1 [5] 60] :: unit buffer_op list"
  obtain l c' where r: "run buffer_step (BRCFScanLedgerInit 10, ()) ?ops = (l, c')" by fastforce
  show ?thesis
    using buffer_keeps_its_budget [OF _ r] r by simp
qed

text \<open>
  Ageing is by the first arrival: an entry leaves exactly when more than
  \<open>CF_FILTER_BUF_MAX_AGE_SECS\<close> have passed since it was first buffered, and buffering the same block
  again replaces its bytes but never makes it younger.
\<close>

theorem ageing_goes_by_first_arrival:
  assumes "buf_inv l" and "findFilter h (cfl_filterBuf l) = Some i" and "length bs < 2 ^ 64"
  shows "cfl_filterBuf (BRCFScanLedgerEvictAgedFilters l t) =
      filter (\<lambda>e. filterAge t e \<le> CF_FILTER_BUF_MAX_AGE_SECS) (cfl_filterBuf l) \<and>
    (\<lambda>e. (cfb_blockHash e, cfb_firstAt e)) `
      set (cfl_filterBuf (snd (BRCFScanLedgerBufferFilter l h bs (of_nat (length bs)) now)))
    \<subseteq> (\<lambda>e. (cfb_blockHash e, cfb_firstAt e)) ` set (cfl_filterBuf l)"
proof
  show "cfl_filterBuf (BRCFScanLedgerEvictAgedFilters l t) =
      filter (\<lambda>e. filterAge t e \<le> CF_FILTER_BUF_MAX_AGE_SECS) (cfl_filterBuf l)"
    by (rule EvictAged_inv(2) [OF assms(1)])
  have i: "i < length (cfl_filterBuf l)" using findFilter_Some [OF assms(2)] by simp
  let ?len = "of_nat (length bs) :: u64"
  let ?e = "(cfl_filterBuf l ! i)\<lparr>cfb_bytes := bs, cfb_len := ?len, cfb_at := now\<rparr>"
  let ?l = "l\<lparr>cfl_bufferedBytes := cfl_bufferedBytes l - cfb_len (cfl_filterBuf l ! i) + ?len,
        cfl_filterBuf := (cfl_filterBuf l)[i := ?e]\<rparr>"
  have drop: "\<exists>k. cfl_filterBuf (evictWhileOver a keep m) = drop k (cfl_filterBuf m)" for a keep m
  proof (induction a keep m rule: evictWhileOver.induct)
    case (1 add keep l)
    show ?case
    proof (cases "cfl_bufferedBytes l + add \<ge> CF_FILTER_BUFFER_MAX_BYTES \<and> length (cfl_filterBuf l) > keep")
      case True
      then show ?thesis
        using "1.IH" by (subst evictWhileOver.simps) (auto simp: drop_Suc [symmetric])
    next
      case False
      then show ?thesis
        by (subst evictWhileOver.simps) (auto intro: exI [of _ 0])
    qed
  qed
  have mem: "e = ?e \<or> e \<in> set (cfl_filterBuf l)" if "e \<in> set (cfl_filterBuf (evictWhileOver 0 1 ?l))" for e
  proof -
    obtain k where "cfl_filterBuf (evictWhileOver 0 1 ?l) = drop k (cfl_filterBuf ?l)"
      using drop by blast
    then have "e \<in> set ((cfl_filterBuf l)[i := ?e])"
      using that by (auto dest: in_set_dropD)
    then show ?thesis
      using set_update_subset_insert [of "cfl_filterBuf l" i ?e] by auto
  qed
  have r: "snd (BRCFScanLedgerBufferFilter l h bs ?len now) = (if ?len > CF_FILTER_BUFFER_MAX_BYTES then l
      else evictWhileOver 0 1 ?l)"
    by (simp add: BRCFScanLedgerBufferFilter_def assms(2) Let_def)
  show "(\<lambda>e. (cfb_blockHash e, cfb_firstAt e)) `
      set (cfl_filterBuf (snd (BRCFScanLedgerBufferFilter l h bs ?len now)))
    \<subseteq> (\<lambda>e. (cfb_blockHash e, cfb_firstAt e)) ` set (cfl_filterBuf l)"
  proof (rule image_subsetI)
    fix e assume "e \<in> set (cfl_filterBuf (snd (BRCFScanLedgerBufferFilter l h bs ?len now)))"
    then have "e = ?e \<or> e \<in> set (cfl_filterBuf l)"
      unfolding r using mem by (auto split: if_splits)
    then show "(cfb_blockHash e, cfb_firstAt e) \<in> (\<lambda>e. (cfb_blockHash e, cfb_firstAt e)) ` set (cfl_filterBuf l)"
      using nth_mem [OF i] by (auto intro: rev_image_eqI)
  qed
qed

definition buffer_sample :: scan_ledger where
  "buffer_sample = (BRCFScanLedgerInit 10)\<lparr>
     cfl_filterBuf := [\<lparr>cfb_blockHash = 1, cfb_bytes = [1, 2, 3], cfb_len = 3, cfb_at = 50, cfb_firstAt = 50\<rparr>,
       \<lparr>cfb_blockHash = 2, cfb_bytes = [4], cfb_len = 1, cfb_at = 900, cfb_firstAt = 900\<rparr>],
     cfl_bufferedBytes := 4\<rparr>"

lemma buffer_sample_inv: "buf_inv buffer_sample"
  by (simp add: buf_inv_def buf_ok_def buffer_sample_def buf_constants)

lemma ageing_goes_by_first_arrival_witness:
  "map cfb_blockHash (cfl_filterBuf (BRCFScanLedgerEvictAgedFilters buffer_sample 1000)) = [2] \<and>
   (\<lambda>e. (cfb_blockHash e, cfb_firstAt e)) `
      set (cfl_filterBuf (snd (BRCFScanLedgerBufferFilter buffer_sample 1 [9] (of_nat (length [9 :: u8])) 990)))
   \<subseteq> {(1, 50), (2, 900)}"
proof -
  have f: "findFilter 1 (cfl_filterBuf buffer_sample) = Some 0"
    by (simp add: buffer_sample_def)
  note ageing_goes_by_first_arrival [OF buffer_sample_inv f, of "[9]"]
  from this [of 1000 990] show ?thesis
    by (simp add: buffer_sample_def filterAge_def buf_constants del: of_nat_Suc)
qed

text \<open>
  Draining keeps what was not credited: at most the given number of entries is removed, exactly
  as many as reported, and the others stay in their order; the buffer's counters stay true whatever
  the callbacks do.
\<close>

theorem drain_removes_what_it_reports:
  assumes "buf_inv l" and "BRCFScanLedgerDrainConnected l isReady evalFn cap maxDrain c = (n, l', c')"
  shows "subseq (cfl_filterBuf l') (cfl_filterBuf l) \<and>
    n = length (cfl_filterBuf l) - length (cfl_filterBuf l') \<and> n \<le> maxDrain \<and>
    unat (cfl_bufferedBytes l') = sum_list (map (\<lambda>e. length (cfb_bytes e)) (cfl_filterBuf l'))"
  using Drain_inv [OF assms] unat_tot [of "cfl_filterBuf l'" "cfl_bufferedBytes l'"]
  by (auto simp: buf_inv_def buf_size_def)

lemma drain_removes_what_it_reports_witness:
  "\<exists>l'. BRCFScanLedgerDrainConnected buffer_sample (Some (\<lambda>c h. (if h = 2 then Some 14 else None, c)))
       (Some (\<lambda>c height h bs. (True, (height, bs) # c))) 1024 8 [] = (1, l', [(14, [4])]) \<and>
     unat (cfl_bufferedBytes l') = 3"
proof -
  let ?r = "Some (\<lambda>c h. (if h = 2 then Some 14 else None, c))"
  let ?f = "Some (\<lambda>c height h bs. (True, (height, bs) # c))"
  have d: "BRCFScanLedgerDrainConnected buffer_sample ?r ?f 1024 8 [] =
    (1, buffer_sample\<lparr>cfl_filterBuf := [hd (cfl_filterBuf buffer_sample)], cfl_bufferedBytes := 3\<rparr>, [(14, [4])])"
    by (simp add: BRCFScanLedgerDrainConnected_def buffer_sample_def)
  show ?thesis
    using drain_removes_what_it_reports [OF buffer_sample_inv d] d by simp
qed


text \<open>
  C20.  A re-buffered filter can be dropped by its own arrival.  When the block's entry is the oldest
  and its larger bytes take the total to the budget while another entry is held, the eviction loop
  removes that very entry, yet the call reports success: the block is not in the buffer afterwards.
\<close>

theorem rebuffered_front_entry_evicts_itself:
  assumes inv: "buf_inv l" and front: "cfl_filterBuf l = e # e2 # es"
    and size: "length bs < unat CF_FILTER_BUFFER_MAX_BYTES"
    and over: "unat CF_FILTER_BUFFER_MAX_BYTES \<le> length bs + buf_size (e2 # es)"
  shows "\<exists>l'. BRCFScanLedgerBufferFilter l (cfb_blockHash e) bs (of_nat (length bs)) now = (True, l') \<and>
    cfb_blockHash e \<notin> cfb_blockHash ` set (cfl_filterBuf l')"
proof -
  have max: "unat CF_FILTER_BUFFER_MAX_BYTES = 262144" by (simp add: buf_constants)
  let ?len = "of_nat (length bs) :: u64"
  have ulen: "unat ?len = length bs"
    using size max by (simp add: unat_of_nat take_bit_nat_eq_self)
  let ?e = "e\<lparr>cfb_bytes := bs, cfb_len := ?len, cfb_at := now\<rparr>"
  let ?t = "cfl_bufferedBytes l - cfb_len e + ?len"
  let ?l = "l\<lparr>cfl_bufferedBytes := ?t, cfl_filterBuf := ?e # e2 # es\<rparr>"
  have ok: "buf_ok (e # e2 # es) (cfl_bufferedBytes l)"
    and sz: "buf_size (e # e2 # es) \<le> 262144"
    using inv front max by (auto simp: buf_inv_def)
  have ok': "buf_ok (?e # e2 # es) ?t"
    using buf_ok_update [OF ok, of 0 ?e] size sz max by simp
  have "unat ?t = length bs + buf_size (e2 # es)"
    using unat_tot [OF ok'] by simp
  then have "?t \<ge> CF_FILTER_BUFFER_MAX_BYTES"
    using over by (simp add: word_le_nat_alt)
  then have step: "evictWhileOver 0 1 ?l = evictWhileOver 0 1 (cfLedgerEvictOldestFilter ?l)"
    by (subst evictWhileOver.simps) simp
  have ok1: "buf_ok (cfl_filterBuf (cfLedgerEvictOldestFilter ?l)) (cfl_bufferedBytes (cfLedgerEvictOldestFilter ?l))"
    by (rule evictOldest_ok) (use ok' in simp)
  obtain k where "cfl_filterBuf (evictWhileOver 0 1 ?l) = drop k (e2 # es)"
    using evictWhileOver_ok [OF ok1, of 0 1] unfolding step by (auto simp: Let_def)
  then have "cfb_blockHash e \<notin> cfb_blockHash ` set (cfl_filterBuf (evictWhileOver 0 1 ?l))"
    using ok by (auto simp: buf_ok_def dest!: in_set_dropD)
  moreover have "BRCFScanLedgerBufferFilter l (cfb_blockHash e) bs ?len now = (True, evictWhileOver 0 1 ?l)"
  proof -
    have "\<not> ?len > CF_FILTER_BUFFER_MAX_BYTES"
      using size ulen by (simp add: word_less_nat_alt)
    then show ?thesis
      by (simp add: BRCFScanLedgerBufferFilter_def front Let_def)
  qed
  ultimately show ?thesis by blast
qed

definition buffer_tight :: scan_ledger where
  "buffer_tight = (BRCFScanLedgerInit 10)\<lparr>
     cfl_filterBuf := [\<lparr>cfb_blockHash = 1, cfb_bytes = [1], cfb_len = 1, cfb_at = 50, cfb_firstAt = 50\<rparr>,
       \<lparr>cfb_blockHash = 2, cfb_bytes = replicate 200000 0, cfb_len = 200000, cfb_at = 51, cfb_firstAt = 51\<rparr>],
     cfl_bufferedBytes := 200001\<rparr>"

lemma rebuffered_front_entry_evicts_itself_witness:
  "\<exists>l'. BRCFScanLedgerBufferFilter buffer_tight 1 (replicate 100000 7)
       (of_nat (length (replicate 100000 (7 :: u8)))) 60 = (True, l') \<and>
     1 \<notin> cfb_blockHash ` set (cfl_filterBuf l')"
proof -
  have inv: "buf_inv buffer_tight"
    by (simp add: buf_inv_def buf_ok_def buffer_tight_def buf_constants)
  have f: "cfl_filterBuf buffer_tight =
      [hd (cfl_filterBuf buffer_tight), hd (tl (cfl_filterBuf buffer_tight))]"
    by (simp add: buffer_tight_def)
  show ?thesis
    using rebuffered_front_entry_evicts_itself [OF inv f, of "replicate 100000 7" 60]
    by (simp add: buffer_tight_def buf_constants)
qed

section \<open>Pending confirmations\<close>

lemma findPending_None: "findPending h ps = None \<longleftrightarrow> h \<notin> cfp_blockHash ` set ps"
  by (induction ps) auto

lemma findPending_Some:
  "findPending h ps = Some i \<Longrightarrow> i < length ps \<and> cfp_blockHash (ps ! i) = h"
  by (induction ps arbitrary: i) (auto split: if_splits)

lemma findPending_append:
  "h \<notin> cfp_blockHash ` set ps \<Longrightarrow> cfp_blockHash p = h \<Longrightarrow> findPending h (ps @ [p]) = Some (length ps)"
  by (induction ps) auto

lemma findPending_update:
  "findPending h ps = Some i \<Longrightarrow> cfp_blockHash p = h \<Longrightarrow> findPending h (ps[i := p]) = Some i"
  by (induction ps arbitrary: i) (auto split: if_splits)

text \<open>
  What is recorded for a block is what its header later takes: taking right after recording
  returns the recorded transactions (the first \<open>CF_PENDING_TX_MAX\<close>, as far as the caller has room),
  whether the block was known before or not, and never more than \<open>CF_PENDING_CONFIRM_MAX\<close> blocks wait.
\<close>

theorem pending_take_returns_recorded:
  assumes "length (cfl_pending l) \<le> CF_PENDING_CONFIRM_MAX"
  shows "let l' = BRCFScanLedgerRecordPending l h txs now in
    fst (BRCFScanLedgerTakePending l' h cap) = take cap (take CF_PENDING_TX_MAX txs) \<and>
    length (cfl_pending l') \<le> CF_PENDING_CONFIRM_MAX \<and>
    length (cfl_pending (snd (BRCFScanLedgerTakePending l' h cap))) = length (cfl_pending l') - 1"
proof (cases "findPending h (cfl_pending l)")
  case (Some i)
  then show ?thesis
    using assms findPending_Some [OF Some] findPending_update [OF Some]
    by (simp add: Let_def BRCFScanLedgerRecordPending_def BRCFScanLedgerTakePending_def)
next
  case None
  let ?ps = "if length (cfl_pending l) \<ge> CF_PENDING_CONFIRM_MAX then tl (cfl_pending l) else cfl_pending l"
  have "h \<notin> cfp_blockHash ` set ?ps"
    using None [unfolded findPending_None] by (cases "cfl_pending l") auto
  moreover have "length ?ps < CF_PENDING_CONFIRM_MAX"
    using assms by (cases "cfl_pending l") (auto simp: cf_constants)
  ultimately show ?thesis
    using None
    by (simp add: Let_def BRCFScanLedgerRecordPending_def BRCFScanLedgerTakePending_def
        findPending_append nth_append)
qed

lemma pending_take_returns_recorded_witness:
  "fst (BRCFScanLedgerTakePending (BRCFScanLedgerRecordPending (BRCFScanLedgerInit 10) 5 [7, 8] 1) 5 1) = [7]"
  using pending_take_returns_recorded [of "BRCFScanLedgerInit 10" 5 "[7, 8]" 1 1]
  by (simp add: Let_def BRCFScanLedgerInit_def cf_constants)

end
