(* ===== verification/AmountParse.thy ===== *)
theory AmountParse
  imports Prelude
begin

text \<open>
  DGB amounts as text (\<open>src/BRAmountParse.h\<close>): the parser's one pass over the characters, its final
  range and decimals checks, and the formatter.  Counters that the code keeps in \<open>int64_t\<close> are \<open>int\<close>:
  each is bounded by the text's length, and the exponent is refused above \<open>2 ^ 31\<close> at every digit.
  Null pointers are not modelled.
\<close>

section \<open>The parser\<close>

definition BR_SATS_PER_DGB :: nat where "BR_SATS_PER_DGB = 100000000"
definition BR_DGB_DECIMALS :: nat where "BR_DGB_DECIMALS = 8"
definition INT64_MAX :: nat where "INT64_MAX = 0x7fffffffffffffff"

definition BRAmountIsSpace :: "char \<Rightarrow> bool" where
  "BRAmountIsSpace c \<longleftrightarrow> c = CHR '' '' \<or> c = CHR 0x09 \<or> c = CHR 0x0A \<or> c = CHR 0x0D \<or> c = CHR 0x0C \<or>
     c = CHR 0x0B"

definition is_digit :: "char \<Rightarrow> bool" where
  "is_digit c \<longleftrightarrow> 48 \<le> (of_char c :: nat) \<and> (of_char c :: nat) \<le> 57"

definition digit_val :: "char \<Rightarrow> nat" where
  "digit_val c = of_char c - 48"

record amount_scan =
  as_negative :: bool
  as_sawDigit :: bool
  as_sawPoint :: bool
  as_inExponent :: bool
  as_expNegative :: bool
  as_expDigits :: nat
  as_signAllowed :: bool
  as_digits :: string
  as_pendingZeros :: nat
  as_fracDigits :: nat
  as_exponent :: int

definition amount_scan_init :: amount_scan where
  "amount_scan_init = \<lparr>as_negative = False, as_sawDigit = False, as_sawPoint = False,
     as_inExponent = False, as_expNegative = False, as_expDigits = 0, as_signAllowed = True,
     as_digits = [], as_pendingZeros = 0, as_fracDigits = 0, as_exponent = 0\<rparr>"

definition AMOUNT_DIGITS_SIZE :: nat where "AMOUNT_DIGITS_SIZE = 24"

text \<open>The inner loop that turns pending zeros into digits: \<open>None\<close> when the digit array is full.\<close>

fun flushZeros :: "nat \<Rightarrow> string \<Rightarrow> string option" where
  "flushZeros 0 ds = Some ds"
| "flushZeros (Suc k) ds =
     (if length ds \<ge> AMOUNT_DIGITS_SIZE then None else flushZeros k (ds @ [CHR ''0'']))"

text \<open>One character of the loop; \<open>None\<close> is \<open>return 0\<close>.\<close>

definition amountDigit :: "amount_scan \<Rightarrow> char \<Rightarrow> amount_scan option" where
  "amountDigit s c =
     (let s = s\<lparr>as_sawDigit := True\<rparr>;
          s = (if as_sawPoint s then s\<lparr>as_fracDigits := as_fracDigits s + 1\<rparr> else s)
      in if c = CHR ''0'' then
           Some (if as_digits s \<noteq> [] then s\<lparr>as_pendingZeros := as_pendingZeros s + 1\<rparr> else s)
         else
           case flushZeros (as_pendingZeros s) (as_digits s) of
             None \<Rightarrow> None
           | Some ds \<Rightarrow>
               if length ds \<ge> AMOUNT_DIGITS_SIZE then None
               else Some (s\<lparr>as_pendingZeros := 0, as_digits := ds @ [c]\<rparr>))"

definition amountStep :: "nat \<Rightarrow> nat \<Rightarrow> char \<Rightarrow> amount_scan \<Rightarrow> amount_scan option" where
  "amountStep commas dots c s =
     (if c = CHR '','' \<and> dots > 0 then Some s
      else if c = CHR '','' \<and> commas \<noteq> 1 then None
      else
        let c = (if c = CHR '','' then CHR ''.'' else c) in
        if as_inExponent s then
          if (c = CHR ''+'' \<or> c = CHR ''-'') \<and> as_signAllowed s then
            Some (s\<lparr>as_expNegative := (c = CHR ''-''), as_signAllowed := False\<rparr>)
          else if \<not> is_digit c then None
          else
            let e = as_exponent s * 10 + int (digit_val c) in
            if e > 2147483648 then None
            else Some (s\<lparr>as_signAllowed := False, as_expDigits := as_expDigits s + 1, as_exponent := e\<rparr>)
        else if (c = CHR ''+'' \<or> c = CHR ''-'') \<and> as_signAllowed s then
          Some (s\<lparr>as_negative := (c = CHR ''-''), as_signAllowed := False\<rparr>)
        else
          let s = s\<lparr>as_signAllowed := False\<rparr> in
          if is_digit c then amountDigit s c
          else if c = CHR ''.'' then
            if as_sawPoint s then None else Some (s\<lparr>as_sawPoint := True\<rparr>)
          else if (c = CHR ''e'' \<or> c = CHR ''E'') \<and> as_sawDigit s then
            Some (s\<lparr>as_inExponent := True, as_signAllowed := True\<rparr>)
          else None)"

fun amountLoop :: "nat \<Rightarrow> nat \<Rightarrow> string \<Rightarrow> amount_scan \<Rightarrow> amount_scan option" where
  "amountLoop commas dots [] s = Some s"
| "amountLoop commas dots (c # cs) s =
     (case amountStep commas dots c s of None \<Rightarrow> None | Some s \<Rightarrow> amountLoop commas dots cs s)"

text \<open>The two accumulation loops on \<open>uint64_t v\<close>, with their overflow tests.\<close>

fun accumDigits :: "string \<Rightarrow> nat \<Rightarrow> nat option" where
  "accumDigits [] v = Some v"
| "accumDigits (c # cs) v =
     (let d = digit_val c in
      if v > (INT64_MAX - d) div 10 then None else accumDigits cs (v * 10 + d))"

fun accumShift :: "nat \<Rightarrow> nat \<Rightarrow> nat option" where
  "accumShift 0 v = Some v"
| "accumShift (Suc k) v = (if v > INT64_MAX div 10 then None else accumShift k (v * 10))"

text \<open>What follows the loop: the checks of the exponent and the scale, and the value.\<close>

definition amountFinish :: "amount_scan \<Rightarrow> int option" where
  "amountFinish s =
     (if \<not> as_sawDigit s then None
      else if as_inExponent s \<and> as_expDigits s = 0 then None
      else
        let e = (if as_inExponent s \<and> as_expNegative s then - as_exponent s else as_exponent s) in
        if as_inExponent s \<and> (e > 2147483647 \<or> e < -2147483648) then None
        else if int (as_fracDigits s) - e > 2147483647 \<or> int (as_fracDigits s) - e < -2147483648 then None
        else if as_digits s = [] then Some 0
        else if as_negative s then None
        else
          let shift = int (as_pendingZeros s) + e - int (as_fracDigits s) + int BR_DGB_DECIMALS in
          if shift < 0 then None
          else if int (length (as_digits s)) + shift > 19 then None
          else
            case accumDigits (as_digits s) 0 of
              None \<Rightarrow> None
            | Some v \<Rightarrow> map_option int (accumShift (nat shift) v))"

definition amountTrim :: "string \<Rightarrow> string" where
  "amountTrim text =
     rev (dropWhile BRAmountIsSpace (rev (dropWhile BRAmountIsSpace text)))"

definition BRAmountParseDGB :: "string \<Rightarrow> int option" where
  "BRAmountParseDGB text =
     (let t = amountTrim text in
      if t = [] then None
      else
        let commas = length (filter (\<lambda>c. c = CHR '','') t);
            dots = length (filter (\<lambda>c. c = CHR ''.'') t)
        in case amountLoop commas dots t amount_scan_init of
             None \<Rightarrow> None
           | Some s \<Rightarrow> amountFinish s)"

section \<open>The formatter\<close>

definition digit_char :: "nat \<Rightarrow> char" where
  "digit_char d = char_of (48 + d)"

text \<open>The digits of the whole part, most significant first.\<close>

fun wholeDigits :: "nat \<Rightarrow> string" where
  "wholeDigits n = (if n < 10 then [digit_char n] else wholeDigits (n div 10) @ [digit_char (n mod 10)])"

declare wholeDigits.simps [simp del]

text \<open>The \<open>k\<close> fraction digits, and without their trailing zeros.\<close>

fun fracDigits :: "nat \<Rightarrow> nat \<Rightarrow> string" where
  "fracDigits 0 n = []"
| "fracDigits (Suc k) n = fracDigits k (n div 10) @ [digit_char (n mod 10)]"

definition stripZeros :: "string \<Rightarrow> string" where
  "stripZeros ds = rev (dropWhile (\<lambda>c. c = CHR ''0'') (rev ds))"

text \<open>The text written, when the buffer holds it and its terminator; \<open>None\<close> is the return value 0.\<close>

definition BRAmountFormatDGB :: "int \<Rightarrow> nat \<Rightarrow> string option" where
  "BRAmountFormatDGB sats outLen =
     (if sats < 0 then None
      else
        let whole = wholeDigits (nat sats div BR_SATS_PER_DGB);
            frac = nat sats mod BR_SATS_PER_DGB
        in if outLen < length whole + 1 then None
           else if frac = 0 then Some whole
           else
             let f = stripZeros (fracDigits BR_DGB_DECIMALS frac) in
             if outLen < length whole + 1 + length f + 1 then None
             else Some (whole @ CHR ''.'' # f))"

section \<open>The value of a digit string\<close>

definition dec_val :: "string \<Rightarrow> nat" where
  "dec_val cs = foldl (\<lambda>v c. v * 10 + digit_val c) 0 cs"

lemma dec_val_simps [simp]: "dec_val [] = 0" "dec_val (cs @ [c]) = dec_val cs * 10 + digit_val c"
  by (simp_all add: dec_val_def)

lemma dec_val_append: "dec_val (xs @ ys) = dec_val xs * 10 ^ length ys + dec_val ys"
proof (induction ys rule: rev_induct)
  case (snoc y ys)
  then show ?case
    by (simp add: append_assoc [symmetric] algebra_simps del: append_assoc)
qed simp

lemma digit_val_less: "is_digit c \<Longrightarrow> digit_val c < 10"
  by (auto simp: is_digit_def digit_val_def)

lemma digit_val_eq_0: "is_digit c \<Longrightarrow> digit_val c = 0 \<longleftrightarrow> c = CHR ''0''"
  using of_char_eq_iff [of c "CHR ''0''"] by (auto simp: is_digit_def digit_val_def)

lemma dec_val_less: "list_all is_digit cs \<Longrightarrow> dec_val cs < 10 ^ length cs"
proof (induction cs rule: rev_induct)
  case (snoc c cs)
  then show ?case using digit_val_less [of c] by simp
qed simp

lemma dec_val_ge:
  assumes "list_all is_digit (c # cs)" and "digit_val c \<noteq> 0"
  shows "10 ^ length cs \<le> dec_val (c # cs)"
proof -
  have "dec_val ([c] @ cs) = digit_val c * 10 ^ length cs + dec_val cs"
    by (subst dec_val_append) (simp add: dec_val_def)
  moreover have "10 ^ length cs \<le> digit_val c * 10 ^ length cs"
    using assms(2) by (cases "digit_val c") auto
  ultimately show ?thesis by (simp only: append_Cons append_Nil)
qed

lemma dec_val_replicate_0: "dec_val (cs @ replicate k (CHR ''0'')) = dec_val cs * 10 ^ k"
proof -
  have "dec_val (replicate k (CHR ''0'')) = 0"
    by (induction k) (simp_all add: replicate_append_same [symmetric] digit_val_def)
  then show ?thesis by (simp add: dec_val_append)
qed

section \<open>The loop on digits\<close>

text \<open>
  After some digits of value \<open>V\<close>, \<open>F\<close> of them behind the point: the significant digits kept, with
  neither a leading nor a trailing zero among them, and the zeros pending behind.
\<close>

definition scan_val :: "amount_scan \<Rightarrow> nat \<Rightarrow> nat \<Rightarrow> bool \<Rightarrow> bool" where
  "scan_val s V F pt \<longleftrightarrow>
     V = dec_val (as_digits s) * 10 ^ as_pendingZeros s \<and> list_all is_digit (as_digits s) \<and>
     (as_digits s = [] \<longrightarrow> as_pendingZeros s = 0) \<and>
     (as_digits s \<noteq> [] \<longrightarrow> digit_val (hd (as_digits s)) \<noteq> 0 \<and> digit_val (last (as_digits s)) \<noteq> 0) \<and>
     length (as_digits s) \<le> AMOUNT_DIGITS_SIZE \<and>
     as_fracDigits s = F \<and> as_sawPoint s = pt \<and> \<not> as_inExponent s \<and> \<not> as_negative s \<and>
     as_exponent s = 0"

lemma flushZeros_eq:
  "length ds \<le> AMOUNT_DIGITS_SIZE \<Longrightarrow> flushZeros k ds =
     (if length ds + k \<le> AMOUNT_DIGITS_SIZE then Some (ds @ replicate k (CHR ''0'')) else None)"
proof (induction k arbitrary: ds)
  case (Suc k)
  then show ?case
    by (cases "length ds \<ge> AMOUNT_DIGITS_SIZE") (auto simp: replicate_append_same [symmetric])
qed simp

lemma significant_ge:
  assumes "list_all is_digit ds" "ds \<noteq> []" "digit_val (hd ds) \<noteq> 0"
  shows "10 ^ (length ds - 1) \<le> dec_val ds"
  using dec_val_ge [of "hd ds" "tl ds"] assms by (cases ds) auto

lemma digit_not_special:
  "is_digit c \<Longrightarrow> c \<noteq> CHR '','' \<and> c \<noteq> CHR ''+'' \<and> c \<noteq> CHR ''-'' \<and> c \<noteq> CHR ''.'' \<and>
     \<not> BRAmountIsSpace c"
  by (auto simp: is_digit_def BRAmountIsSpace_def)

lemma amountStep_digit:
  assumes s: "scan_val s V F pt" and c: "is_digit c"
  shows "case amountStep commas dots c s of
      Some s' \<Rightarrow> scan_val s' (V * 10 + digit_val c) (if pt then F + 1 else F) pt \<and> as_sawDigit s' \<and>
        \<not> as_signAllowed s'
    | None \<Rightarrow> 10 ^ 24 \<le> V * 10 + digit_val c \<and> digit_val c \<noteq> 0"
proof -
  let ?t = "(s\<lparr>as_signAllowed := False, as_sawDigit := True\<rparr>)"
  have step: "amountStep commas dots c s = amountDigit (s\<lparr>as_signAllowed := False\<rparr>) c"
    using s digit_not_special [OF c] c by (simp add: amountStep_def scan_val_def Let_def)
  note sv = s [unfolded scan_val_def]
  show ?thesis
  proof (cases "c = CHR ''0''")
    case True
    then have "digit_val c = 0" by (simp add: digit_val_def)
    then show ?thesis
      using sv True unfolding step by (auto simp: amountDigit_def Let_def scan_val_def)
  next
    case False
    then have nz: "digit_val c \<noteq> 0" using digit_val_eq_0 [OF c] by simp
    let ?D = "as_digits s" and ?z = "as_pendingZeros s"
    have flush: "flushZeros ?z ?D =
        (if length ?D + ?z \<le> AMOUNT_DIGITS_SIZE then Some (?D @ replicate ?z (CHR ''0'')) else None)"
      by (rule flushZeros_eq) (use sv in simp)
    show ?thesis
    proof (cases "length ?D + ?z < AMOUNT_DIGITS_SIZE")
      case True
      let ?ds = "?D @ replicate ?z (CHR ''0'') @ [c]"
      have "dec_val ?ds = V * 10 + digit_val c"
        using sv dec_val_replicate_0 [of ?D ?z]
        by (metis append_assoc dec_val_simps(2))
      moreover have "list_all is_digit ?ds"
        using sv c by (auto simp: list_all_iff is_digit_def)
      moreover have "digit_val (hd ?ds) \<noteq> 0"
        using sv nz by (cases ?D) auto
      ultimately show ?thesis
        using True False nz sv flush unfolding step
        by (auto simp: amountDigit_def Let_def scan_val_def)
    next
      case full: False
      then have none: "amountDigit (s\<lparr>as_signAllowed := False\<rparr>) c = None"
        using False flush by (auto simp: amountDigit_def Let_def)
      have ne: "?D \<noteq> []" using full sv by (auto simp: AMOUNT_DIGITS_SIZE_def)
      have "(10::nat) ^ (length ?D - 1) \<le> dec_val ?D"
        by (rule significant_ge) (use sv ne in auto)
      then have "(10::nat) ^ (length ?D - 1) * 10 ^ ?z \<le> V"
        using sv by simp
      then have "(10::nat) ^ (length ?D - 1 + ?z + 1) \<le> V * 10"
        by (simp add: power_add)
      moreover have "(10::nat) ^ 24 \<le> 10 ^ (length ?D - 1 + ?z + 1)"
        by (rule power_increasing) (use full ne in \<open>auto simp: AMOUNT_DIGITS_SIZE_def neq_Nil_conv\<close>)
      ultimately show ?thesis
        unfolding step none using nz by simp
    qed
  qed
qed

lemma amountLoop_digits:
  assumes "scan_val s V F pt" and "list_all is_digit cs" and "cs = [] \<longrightarrow> s' = s"
  shows "case amountLoop commas dots cs s of
      Some s' \<Rightarrow> scan_val s' (V * 10 ^ length cs + dec_val cs) (if pt then F + length cs else F) pt \<and>
        (as_sawDigit s' \<longleftrightarrow> as_sawDigit s \<or> cs \<noteq> [])
    | None \<Rightarrow> \<exists>p q W. cs = p @ q \<and> W = V * 10 ^ length p + dec_val p \<and> 10 ^ 24 \<le> W \<and> W mod 10 \<noteq> 0"
  using assms
proof (induction cs arbitrary: s V F s')
  case Nil
  then show ?case by (cases pt) simp_all
next
  case (Cons c cs)
  note st = amountStep_digit [OF Cons.prems(1), of c commas dots]
  have c: "is_digit c" "list_all is_digit cs" using Cons.prems(2) by auto
  show ?case
  proof (cases "amountStep commas dots c s")
    case None
    then have "10 ^ 24 \<le> V * 10 + digit_val c \<and> digit_val c \<noteq> 0" using st c(1) by simp
    moreover have "(V * 10 + digit_val c) mod 10 = digit_val c"
      using digit_val_less [OF c(1)] by simp
    ultimately have "c # cs = [c] @ cs \<and> V * 10 + digit_val c = V * 10 ^ length [c] + dec_val [c] \<and>
        10 ^ 24 \<le> V * 10 + digit_val c \<and> (V * 10 + digit_val c) mod 10 \<noteq> 0"
      by (simp add: dec_val_def)
    then show ?thesis
      using None unfolding amountLoop.simps None option.case by blast
  next
    case (Some s1)
    then have s1: "scan_val s1 (V * 10 + digit_val c) (if pt then F + 1 else F) pt" "as_sawDigit s1"
      using st c(1) by auto
    have val: "(V * 10 + digit_val c) * 10 ^ length p + dec_val p = V * 10 ^ length (c # p) + dec_val (c # p)"
      for p
      using dec_val_append [of "[c]" p] by (simp add: dec_val_def algebra_simps)
    note IH = Cons.IH [OF s1(1) c(2), of s1]
    show ?thesis
    proof (cases "amountLoop commas dots cs s1")
      case None
      then obtain p q where "cs = p @ q"
        "10 ^ 24 \<le> (V * 10 + digit_val c) * 10 ^ length p + dec_val p"
        "((V * 10 + digit_val c) * 10 ^ length p + dec_val p) mod 10 \<noteq> 0"
        using IH by auto
      then have "c # cs = (c # p) @ q \<and>
          (V * 10 + digit_val c) * 10 ^ length p + dec_val p = V * 10 ^ length (c # p) + dec_val (c # p) \<and>
          10 ^ 24 \<le> (V * 10 + digit_val c) * 10 ^ length p + dec_val p \<and>
          ((V * 10 + digit_val c) * 10 ^ length p + dec_val p) mod 10 \<noteq> 0"
        using val [of p] by simp
      then show ?thesis
        unfolding amountLoop.simps Some option.case None by blast
    next
      case s': (Some s'')
      then show ?thesis
        using IH Some s1(2) val [of cs] by auto
    qed
  qed
qed


section \<open>The exact value\<close>

text \<open>
  What an amount with significand \<open>V\<close> and \<open>F\<close> decimals is in satoshis: nothing when it is not a
  whole number of satoshis or does not fit a signed 64-bit count.
\<close>

definition exact_sats :: "nat \<Rightarrow> nat \<Rightarrow> int option" where
  "exact_sats V F =
     (if 10 ^ F dvd V * 10 ^ 8 \<and> V * 10 ^ 8 div 10 ^ F \<le> INT64_MAX
      then Some (int (V * 10 ^ 8 div 10 ^ F)) else None)"

lemma pow10_dvd_cancel: "(10::nat) ^ (a + b) dvd x * 10 ^ a \<Longrightarrow> 10 ^ b dvd x"
  by (simp add: power_add mult.commute)

lemma exact_sats_long:
  assumes W: "10 ^ 24 \<le> W" "W mod 10 \<noteq> 0" and V: "V = W * 10 ^ k + r" "r < 10 ^ k"
  shows "exact_sats V F = None"
proof (cases "F \<le> k + 8")
  case True
  have "(10::nat) ^ 24 * 10 ^ k \<le> W * 10 ^ k"
    by (rule mult_le_mono1 [OF W(1)])
  also have "\<dots> \<le> V" by (simp add: V(1))
  finally have "(10::nat) ^ 24 * 10 ^ k \<le> V" .
  then have "(10::nat) ^ 24 * 10 ^ k * 10 ^ 8 \<le> V * 10 ^ 8"
    by (rule mult_le_mono1)
  then have "(10::nat) ^ (24 + (k + 8)) \<le> V * 10 ^ 8"
    by (simp only: power_add mult.assoc)
  then have "(10::nat) ^ (24 + (k + 8)) div 10 ^ F \<le> V * 10 ^ 8 div 10 ^ F"
    by (rule div_le_mono)
  moreover have "(10::nat) ^ (24 + (k + 8)) div 10 ^ F = 10 ^ (24 + (k + 8) - F)"
    using True by (intro power_diff [symmetric]) auto
  moreover have "(10::nat) ^ 24 \<le> 10 ^ (24 + (k + 8) - F)"
    using True by (intro power_increasing) auto
  ultimately have "10 ^ 24 \<le> V * 10 ^ 8 div 10 ^ F" by linarith
  then show ?thesis by (simp add: exact_sats_def INT64_MAX_def)
next
  case False
  then obtain j where F: "F = 8 + (k + 1 + j)"
    using le_Suc_ex [of "k + 9" F] by auto
  have "\<not> 10 ^ F dvd V * 10 ^ 8"
  proof
    assume "10 ^ F dvd V * 10 ^ 8"
    then have "10 ^ (k + 1 + j) dvd V"
      unfolding F by (rule pow10_dvd_cancel)
    then have "10 ^ (k + 1) dvd V"
      by (rule power_le_dvd) simp
    then have d: "10 * 10 ^ k dvd W * 10 ^ k + r"
      by (simp add: V(1))
    then have "10 ^ k dvd W * 10 ^ k + r"
      using dvd_mult_right by blast
    then have "10 ^ k dvd r"
      by (simp add: dvd_add_right_iff)
    then have "r = 0" using V(2) by (auto dest: dvd_imp_le)
    then have "10 dvd W" using d by simp
    then show False using W(2) by (simp add: dvd_eq_mod_eq_0)
  qed
  then show ?thesis by (simp add: exact_sats_def)
qed

lemma accumDigits_eq:
  "list_all is_digit cs \<Longrightarrow> v \<le> INT64_MAX \<Longrightarrow>
   accumDigits cs v = (let x = v * 10 ^ length cs + dec_val cs in if x \<le> INT64_MAX then Some x else None)"
proof (induction cs arbitrary: v)
  case (Cons c cs)
  have c: "digit_val c < 10" using digit_val_less Cons.prems(1) by simp
  have over: "(INT64_MAX - digit_val c) div 10 < v \<longleftrightarrow> \<not> v * 10 + digit_val c \<le> INT64_MAX"
    using c by (auto simp: INT64_MAX_def)
  have val: "v * 10 ^ length (c # cs) + dec_val (c # cs) = (v * 10 + digit_val c) * 10 ^ length cs + dec_val cs"
    using dec_val_append [of "[c]" cs] by (simp add: dec_val_def algebra_simps)
  have "x \<le> x * 10 ^ k + y" for x k y :: nat by (induction k) auto
  then have "v * 10 + digit_val c \<le> (v * 10 + digit_val c) * 10 ^ length cs + dec_val cs" by blast
  then show ?case
    using Cons.IH [of "v * 10 + digit_val c"] Cons.prems over val by (simp add: Let_def)
qed simp

lemma accumShift_eq:
  "v \<le> INT64_MAX \<Longrightarrow>
   accumShift k v = (if v * 10 ^ k \<le> INT64_MAX then Some (v * 10 ^ k) else None)"
proof (induction k arbitrary: v)
  case (Suc k)
  have over: "INT64_MAX div 10 < v \<longleftrightarrow> \<not> v * 10 \<le> INT64_MAX"
    by (auto simp: INT64_MAX_def)
  have "v * 10 ^ Suc k \<le> INT64_MAX \<Longrightarrow> v * 10 \<le> INT64_MAX"
    by (rule le_trans [of _ "v * 10 ^ Suc k"]) simp_all
  then show ?case
    using Suc.IH [of "v * 10"] over by (auto simp: mult.assoc)
qed simp

lemma amountFinish_exact:
  assumes s: "scan_val s V F pt" and saw: "as_sawDigit s" and F: "F < 2 ^ 31"
  shows "amountFinish s = exact_sats V F"
proof -
  let ?D = "as_digits s" and ?z = "as_pendingZeros s"
  note sv = s [unfolded scan_val_def]
  let ?shift = "int ?z - int F + 8"
  have fin: "amountFinish s =
    (if ?D = [] then Some 0
     else if ?shift < 0 then None
     else if int (length ?D) + ?shift > 19 then None
     else case accumDigits ?D 0 of None \<Rightarrow> None | Some v \<Rightarrow> map_option int (accumShift (nat ?shift) v))"
    using sv saw F by (simp add: amountFinish_def BR_DGB_DECIMALS_def Let_def)
  show ?thesis
  proof (cases "?D = []")
    case True
    then show ?thesis using sv fin by (simp add: exact_sats_def)
  next
    case ne: False
    define D where "D = dec_val ?D"
    have V: "V = D * 10 ^ ?z" using sv by (simp add: D_def)
    have dig: "list_all is_digit ?D" using sv by simp
    have "digit_val (last ?D) \<noteq> 0" "digit_val (last ?D) < 10"
      using sv ne digit_val_less [of "last ?D"] by (auto simp: list_all_iff)
    moreover have "D = dec_val (butlast ?D) * 10 + digit_val (last ?D)"
      using dec_val_simps(2) [of "butlast ?D" "last ?D"] ne by (simp add: D_def)
    ultimately have D10: "\<not> 10 dvd D" by presburger
    have Dge: "10 ^ (length ?D - 1) \<le> D"
      unfolding D_def by (rule significant_ge) (use sv ne in auto)
    show ?thesis
    proof (cases "?shift < 0")
      case True
      then obtain j where Fj: "F = (?z + 8) + (1 + j)"
        using le_Suc_ex [of "?z + 9" F] by auto
      have "\<not> 10 ^ F dvd V * 10 ^ 8"
      proof
        assume "10 ^ F dvd V * 10 ^ 8"
        then have "10 ^ ((?z + 8) + (1 + j)) dvd D * 10 ^ (?z + 8)"
          by (simp only: Fj V power_add mult.assoc)
        then have "10 ^ (1 + j) dvd D" by (rule pow10_dvd_cancel)
        then have "10 ^ 1 dvd D" by (rule power_le_dvd) simp
        then show False using D10 by simp
      qed
      then show ?thesis using fin ne True by (simp add: exact_sats_def)
    next
      case False
      define k where "k = nat ?shift"
      have zk: "?z + 8 = F + k" using False by (simp add: k_def)
      have "V * 10 ^ 8 = D * 10 ^ k * 10 ^ F"
        by (simp only: V mult.assoc power_add [symmetric] zk) (simp add: add.commute)
      then have ex: "exact_sats V F = (if D * 10 ^ k \<le> INT64_MAX then Some (int (D * 10 ^ k)) else None)"
        by (simp add: exact_sats_def)
      show ?thesis
      proof (cases "length ?D + k > 19")
        case True
        then have "(10::nat) ^ 19 \<le> 10 ^ (length ?D - 1 + k)"
          using ne by (intro power_increasing) (auto simp: neq_Nil_conv)
        also have "\<dots> \<le> D * 10 ^ k"
          using Dge by (simp add: power_add)
        finally have "\<not> D * 10 ^ k \<le> INT64_MAX" by (simp add: INT64_MAX_def)
        moreover have "int (length ?D) + ?shift > 19" using True False by (simp add: k_def)
        ultimately show ?thesis using fin ne False ex by simp
      next
        case small: False
        have sh: "\<not> int (length ?D) + ?shift > 19" using small False by (simp add: k_def)
        have acc: "accumDigits ?D 0 = (if D \<le> INT64_MAX then Some D else None)"
          using accumDigits_eq [OF dig, of 0] by (simp add: D_def INT64_MAX_def Let_def)
        have "D * 10 ^ k \<le> INT64_MAX \<Longrightarrow> D \<le> INT64_MAX"
          by (rule le_trans [of _ "D * 10 ^ k"]) simp_all
        then show ?thesis
          using fin ne False sh ex acc accumShift_eq [of D k]
          by (cases "D \<le> INT64_MAX") (auto simp: k_def)
      qed
    qed
  qed
qed


section \<open>Plain decimal text\<close>

lemma amountLoop_append:
  "amountLoop cm d (xs @ ys) s =
     (case amountLoop cm d xs s of None \<Rightarrow> None | Some s' \<Rightarrow> amountLoop cm d ys s')"
  by (induction xs arbitrary: s) (auto split: option.splits)

lemma amountStep_point:
  assumes "scan_val s V F False"
  shows "amountStep cm d (CHR ''.'') s =
    Some (s\<lparr>as_signAllowed := False, as_sawPoint := True\<rparr>)"
  using assms by (simp add: amountStep_def scan_val_def is_digit_def Let_def)

lemma exact_sats_long_digits:
  assumes "W = dec_val p" "10 ^ 24 \<le> W" "W mod 10 \<noteq> 0" "list_all is_digit q"
  shows "exact_sats (dec_val (p @ q)) F = None"
  by (rule exact_sats_long [OF assms(2,3), of _ "length q" "dec_val q"])
    (use assms(1) dec_val_less [OF assms(4)] in \<open>simp_all add: dec_val_append\<close>)

definition decimal_text :: "string \<Rightarrow> string \<Rightarrow> string" where
  "decimal_text w f = (if f = [] then w else w @ CHR ''.'' # f)"

lemma scan_val_init: "scan_val amount_scan_init 0 0 False"
  by (simp add: scan_val_def amount_scan_init_def AMOUNT_DIGITS_SIZE_def)

lemma amountLoop_whole:
  assumes "list_all is_digit w"
  shows "case amountLoop cm d w amount_scan_init of
      Some s \<Rightarrow> scan_val s (dec_val w) 0 False \<and> (as_sawDigit s \<longleftrightarrow> w \<noteq> [])
    | None \<Rightarrow> \<exists>p q. w = p @ q \<and> 10 ^ 24 \<le> dec_val p \<and> dec_val p mod 10 \<noteq> 0"
  using amountLoop_digits [OF scan_val_init assms, of amount_scan_init cm d]
  by (auto simp: amount_scan_init_def split: option.splits)

lemma decimal_loop:
  assumes w: "list_all is_digit w" and f: "list_all is_digit f" and ne: "w @ f \<noteq> []"
    and len: "length f < 2 ^ 31"
  shows "(case amountLoop cm d (decimal_text w f) amount_scan_init of
      None \<Rightarrow> None | Some s \<Rightarrow> amountFinish s) = exact_sats (dec_val (w @ f)) (length f)"
proof (cases "amountLoop cm d w amount_scan_init")
  case None
  then obtain p q where pq: "w = p @ q" "10 ^ 24 \<le> dec_val p" "dec_val p mod 10 \<noteq> 0"
    using amountLoop_whole [OF w, of cm d] by auto
  have "exact_sats (dec_val (p @ (q @ f))) (length f) = None"
    by (rule exact_sats_long_digits [OF refl pq(2,3)]) (use w f pq(1) in auto)
  moreover have "w @ f = p @ (q @ f)" using pq(1) by simp
  moreover have "amountLoop cm d (decimal_text w f) amount_scan_init = None"
    using None by (simp add: decimal_text_def amountLoop_append)
  ultimately show ?thesis by (simp only: option.case)
next
  case (Some s1)
  then have s1: "scan_val s1 (dec_val w) 0 False" "as_sawDigit s1 \<longleftrightarrow> w \<noteq> []"
    using amountLoop_whole [OF w, of cm d] by auto
  show ?thesis
  proof (cases "f = []")
    case True
    then show ?thesis
      using Some s1 ne amountFinish_exact [OF s1(1)] by (simp add: decimal_text_def)
  next
    case False
    let ?s = "s1\<lparr>as_signAllowed := False, as_sawPoint := True\<rparr>"
    have s2: "scan_val ?s (dec_val w) 0 True"
      using s1(1) by (simp add: scan_val_def)
    have eq: "amountLoop cm d (decimal_text w f) amount_scan_init = amountLoop cm d f ?s"
      using False Some amountStep_point [OF s1(1)] by (simp add: decimal_text_def amountLoop_append)
    note lp = amountLoop_digits [OF s2 f, of ?s cm d]
    show ?thesis
    proof (cases "amountLoop cm d f ?s")
      case None
      then obtain p q where pq: "f = p @ q" "10 ^ 24 \<le> dec_val w * 10 ^ length p + dec_val p"
          "(dec_val w * 10 ^ length p + dec_val p) mod 10 \<noteq> 0"
        using lp False by auto
      have "exact_sats (dec_val ((w @ p) @ q)) (length f) = None"
        by (rule exact_sats_long_digits [OF _ pq(2,3)]) (use f pq(1) in \<open>auto simp: dec_val_append\<close>)
      then show ?thesis using eq None pq(1) by simp
    next
      case s3: (Some s3)
      then have "scan_val s3 (dec_val w * 10 ^ length f + dec_val f) (length f) True" "as_sawDigit s3"
        using lp False by auto
      then show ?thesis
        using eq s3 amountFinish_exact [of s3 _ "length f" True] len by (simp add: dec_val_append)
    qed
  qed
qed

lemma amountTrim_id:
  assumes "t \<noteq> []" "\<not> BRAmountIsSpace (hd t)" "\<not> BRAmountIsSpace (last t)"
  shows "amountTrim t = t"
proof -
  have 1: "dropWhile BRAmountIsSpace t = t"
    using assms(1,2) by (cases t) auto
  have "dropWhile BRAmountIsSpace (rev t) = rev t"
    using assms(1,3) by (cases t rule: rev_cases) auto
  then show ?thesis by (simp add: amountTrim_def 1)
qed

lemma decimal_text_ends:
  assumes "list_all is_digit w" "list_all is_digit f" "w @ f \<noteq> []"
  shows "decimal_text w f \<noteq> []" "\<not> BRAmountIsSpace (hd (decimal_text w f))"
    "\<not> BRAmountIsSpace (last (decimal_text w f))"
proof -
  have sp: "\<not> BRAmountIsSpace c" if "c \<in> set w \<union> set f \<union> {CHR ''.''}" for c
    using that assms(1,2) digit_not_special by (auto simp: list_all_iff BRAmountIsSpace_def)
  show ne: "decimal_text w f \<noteq> []"
    using assms(3) by (auto simp: decimal_text_def)
  have sub: "set (decimal_text w f) \<subseteq> set w \<union> set f \<union> {CHR ''.''}"
    by (auto simp: decimal_text_def)
  show "\<not> BRAmountIsSpace (hd (decimal_text w f))" "\<not> BRAmountIsSpace (last (decimal_text w f))"
    using sp sub hd_in_set [OF ne] last_in_set [OF ne] by blast+
qed

text \<open>
  C21.  Amount text is read exactly or not at all.  For every plain decimal text, the result is the
  value in satoshis when that is a whole number that fits a signed 64-bit count, however many digits
  the text has; it is refused otherwise, and never rounded.
\<close>

theorem amount_parse_is_exact:
  assumes "list_all is_digit w" and "list_all is_digit f" and "w @ f \<noteq> []" and "length f < 2 ^ 31"
  shows "BRAmountParseDGB (decimal_text w f) =
    (if 10 ^ length f dvd dec_val (w @ f) * 10 ^ 8 \<and>
        dec_val (w @ f) * 10 ^ 8 div 10 ^ length f \<le> INT64_MAX
     then Some (int (dec_val (w @ f) * 10 ^ 8 div 10 ^ length f)) else None)"
proof -
  note ends = decimal_text_ends [OF assms(1-3)]
  show ?thesis
    using decimal_loop [OF assms] amountTrim_id [OF ends] ends(1)
    by (simp add: BRAmountParseDGB_def exact_sats_def Let_def)
qed

lemma amount_parse_is_exact_witness:
  "BRAmountParseDGB ''12.5'' = Some 1250000000 \<and> BRAmountParseDGB ''0.123456789'' = None"
proof
  have "decimal_text ''12'' ''5'' = ''12.5''" "decimal_text ''0'' ''123456789'' = ''0.123456789''"
    by (simp_all add: decimal_text_def)
  moreover have "BRAmountParseDGB (decimal_text ''12'' ''5'') = Some 1250000000"
    using amount_parse_is_exact [of "''12''" "''5''"]
    by (simp add: is_digit_def dec_val_def digit_val_def INT64_MAX_def)
  moreover have "BRAmountParseDGB (decimal_text ''0'' ''123456789'') = None"
    using amount_parse_is_exact [of "''0''" "''123456789''"]
    by (simp add: is_digit_def dec_val_def digit_val_def INT64_MAX_def)
  ultimately show "BRAmountParseDGB ''12.5'' = Some 1250000000"
    "BRAmountParseDGB ''0.123456789'' = None" by simp_all
qed

section \<open>Formatting\<close>

lemma digit_char_props:
  assumes "d < 10"
  shows "is_digit (digit_char d)" "digit_val (digit_char d) = d"
  using assms by (auto simp: is_digit_def digit_val_def digit_char_def)

lemma wholeDigits_props: "list_all is_digit (wholeDigits n) \<and> dec_val (wholeDigits n) = n \<and> wholeDigits n \<noteq> []"
proof (induction n rule: wholeDigits.induct)
  case (1 n)
  show ?case
  proof (cases "n < 10")
    case True
    then show ?thesis
      using digit_char_props [OF True] dec_val_simps(2) [of "[]" "digit_char n"]
      by (subst (1 2 3) wholeDigits.simps) simp
  next
    case False
    then show ?thesis
      using 1 digit_char_props [of "n mod 10"] by (subst (1 2 3) wholeDigits.simps) simp
  qed
qed

lemma fracDigits_props:
  "list_all is_digit (fracDigits k n) \<and> length (fracDigits k n) = k \<and> dec_val (fracDigits k n) = n mod 10 ^ k"
proof (induction k arbitrary: n)
  case (Suc k)
  have "n mod 10 ^ Suc k = (n div 10) mod 10 ^ k * 10 + n mod 10"
    by (simp add: mod_mult2_eq mult.commute)
  then show ?case using Suc digit_char_props [of "n mod 10"] by simp
qed simp

lemma stripZeros_props:
  assumes "list_all is_digit ds"
  obtains k where "ds = stripZeros ds @ replicate k (CHR ''0'')"
proof -
  let ?P = "\<lambda>c. c = CHR ''0''"
  have "ds = stripZeros ds @ rev (takeWhile ?P (rev ds))"
    by (simp only: stripZeros_def rev_append [symmetric] takeWhile_dropWhile_id rev_rev_ident)
  moreover have "takeWhile ?P (rev ds) = replicate (length (takeWhile ?P (rev ds))) (CHR ''0'')"
    by (rule replicate_eqI [symmetric, THEN sym]) (auto dest: set_takeWhileD)
  ultimately show thesis
    using that by (metis rev_replicate)
qed

text \<open>
  Formatting then parsing gives the amount back: every count of satoshis a signed 64-bit number
  can hold survives the trip through its decimal text.
\<close>

theorem amount_format_parse_roundtrip:
  assumes "n \<le> INT64_MAX" and "BRAmountFormatDGB (int n) outLen = Some text"
  shows "BRAmountParseDGB text = Some (int n)"
proof -
  let ?W = "wholeDigits (n div BR_SATS_PER_DGB)" and ?fr = "n mod BR_SATS_PER_DGB"
  let ?d = "fracDigits BR_DGB_DECIMALS ?fr"
  note W = wholeDigits_props [of "n div BR_SATS_PER_DGB"]
  note d = fracDigits_props [of BR_DGB_DECIMALS ?fr]
  obtain k where k: "?d = stripZeros ?d @ replicate k (CHR ''0'')"
    using stripZeros_props [of ?d] d by auto
  define f where "f = (if ?fr = 0 then [] else stripZeros ?d)"
  have f_ne: "?fr \<noteq> 0 \<Longrightarrow> stripZeros ?d \<noteq> []"
  proof
    assume fr: "?fr \<noteq> 0" and e: "stripZeros ?d = []"
    then have "dec_val ?d = 0" using k dec_val_replicate_0 [of "[]" k] by simp
    then show False using d fr by (simp add: BR_SATS_PER_DGB_def BR_DGB_DECIMALS_def)
  qed
  have tx: "text = decimal_text ?W f"
    using assms(2) f_ne
    by (auto simp: BRAmountFormatDGB_def Let_def decimal_text_def f_def split: if_splits)
  have f_dig: "list_all is_digit f"
    using d k by (auto simp: f_def list_all_iff) (metis UnI1 set_append)
  have "\<exists>j. length f + j = 8 \<and> dec_val f * 10 ^ j = ?fr"
  proof (cases "?fr = 0")
    case True
    then show ?thesis by (intro exI [of _ 8]) (simp add: f_def)
  next
    case False
    have "length (stripZeros ?d) + k = 8"
      using arg_cong [OF k, of length] d by (simp add: BR_DGB_DECIMALS_def)
    moreover have "dec_val (stripZeros ?d) * 10 ^ k = ?fr"
      using arg_cong [OF k, of dec_val] d dec_val_replicate_0 [of "stripZeros ?d" k]
      by (simp add: BR_SATS_PER_DGB_def BR_DGB_DECIMALS_def)
    ultimately show ?thesis using False by (auto simp: f_def)
  qed
  then obtain j where j: "length f + j = 8" "dec_val f * 10 ^ j = ?fr" by blast
  have "(dec_val ?W * 10 ^ length f + dec_val f) * 10 ^ 8 =
      (dec_val ?W * 10 ^ length f + dec_val f) * 10 ^ j * 10 ^ length f"
    using j(1) by (metis mult.assoc power_add add.commute)
  also have "(dec_val ?W * 10 ^ length f + dec_val f) * 10 ^ j = n div BR_SATS_PER_DGB * 10 ^ 8 + ?fr"
    using W j by (simp add: add_mult_distrib mult.assoc power_add [symmetric])
  also have "\<dots> = n" by (simp add: BR_SATS_PER_DGB_def)
  finally have "dec_val (?W @ f) * 10 ^ 8 = n * 10 ^ length f"
    by (simp add: dec_val_append)
  moreover have "length f < 2 ^ 31" using j(1) by simp
  moreover have "?W @ f \<noteq> []" using W by simp
  ultimately show ?thesis
    using decimal_loop [of ?W f] W f_dig assms(1) amountTrim_id decimal_text_ends [of ?W f]
    by (simp add: tx BRAmountParseDGB_def exact_sats_def Let_def)
qed

lemma fracDigits_numeral:
  "fracDigits (numeral k) n = fracDigits (pred_numeral k) (n div 10) @ [digit_char (n mod 10)]"
  by (simp add: numeral_eq_Suc [of k])

lemma amount_format_parse_roundtrip_witness:
  "BRAmountFormatDGB (int 203000000) 32 = Some ''2.03'' \<and> BRAmountParseDGB ''2.03'' = Some 203000000"
proof -
  have "BRAmountFormatDGB (int 203000000) 32 = Some ''2.03''"
    by (simp add: BRAmountFormatDGB_def BR_SATS_PER_DGB_def BR_DGB_DECIMALS_def wholeDigits.simps [of 2]
        digit_char_def stripZeros_def fracDigits_numeral char_of_def bit_0 Let_def)
  then show ?thesis
    using amount_format_parse_roundtrip [of 203000000 32] by (simp add: INT64_MAX_def)
qed

end
