(* ===== verification/Script.thy ===== *)
theory Script
  imports Prelude
begin

text \<open>
  Variable-length integers and script elements (the first half of \<open>src/BRAddress.c\<close>) and the dust
  rule that reads scripts (\<open>src/BRDustPolicy.h\<close>).  A pointer into a script is the list of bytes from
  there to the script's end.
\<close>

section \<open>Little-endian integers\<close>

definition UInt16SetLE :: "u16 \<Rightarrow> bytes" where "UInt16SetLE u = put_le 2 u"
definition UInt32SetLE :: "u32 \<Rightarrow> bytes" where "UInt32SetLE u = put_le 4 u"
definition UInt64SetLE :: "u64 \<Rightarrow> bytes" where "UInt64SetLE u = put_le 8 u"
definition UInt16GetLE :: "bytes \<Rightarrow> u16" where "UInt16GetLE p = get_le (take 2 p)"
definition UInt32GetLE :: "bytes \<Rightarrow> u32" where "UInt32GetLE p = get_le (take 4 p)"
definition UInt64GetLE :: "bytes \<Rightarrow> u64" where "UInt64GetLE p = get_le (take 8 p)"

lemma UIntLE_length [simp]:
  "length (UInt16SetLE a) = 2" "length (UInt32SetLE b) = 4" "length (UInt64SetLE c) = 8"
  by (simp_all add: UInt16SetLE_def UInt32SetLE_def UInt64SetLE_def)

lemma UIntLE_get_set [simp]:
  "UInt16GetLE (UInt16SetLE a @ rest) = a" "UInt32GetLE (UInt32SetLE b @ rest) = b"
  "UInt64GetLE (UInt64SetLE c @ rest) = c"
  by (simp_all add: UInt16SetLE_def UInt32SetLE_def UInt64SetLE_def UInt16GetLE_def UInt32GetLE_def
      UInt64GetLE_def get_put_le)

section \<open>Variable-length integers\<close>

definition VAR_INT16_HEADER :: u8 where "VAR_INT16_HEADER = 0xfd"
definition VAR_INT32_HEADER :: u8 where "VAR_INT32_HEADER = 0xfe"
definition VAR_INT64_HEADER :: u8 where "VAR_INT64_HEADER = 0xff"

lemmas var_int_headers = VAR_INT16_HEADER_def VAR_INT32_HEADER_def VAR_INT64_HEADER_def

text \<open>The value and the length stored in \<open>intLen\<close>.  A null buffer is an empty one.\<close>

definition BRVarInt :: "bytes \<Rightarrow> u64 \<times> nat" where
  "BRVarInt buf =
     (let h = (if 1 \<le> length buf then buf ! 0 else 0) in
      if h = VAR_INT16_HEADER then
        (if 3 \<le> length buf then ucast (UInt16GetLE (drop 1 buf)) else 0, 3)
      else if h = VAR_INT32_HEADER then
        (if 5 \<le> length buf then ucast (UInt32GetLE (drop 1 buf)) else 0, 5)
      else if h = VAR_INT64_HEADER then
        (if 9 \<le> length buf then UInt64GetLE (drop 1 buf) else 0, 9)
      else (ucast h, 1))"

text \<open>The bytes written, and \<open>BRVarIntSet\<close> with its buffer: \<open>None\<close> for the capacity is a null buffer,
  which only asks for the size; the result is the returned count and what was written.\<close>

definition varIntBytes :: "u64 \<Rightarrow> bytes" where
  "varIntBytes i =
     (if i < 0xfd then [ucast i]
      else if i \<le> 0xffff then VAR_INT16_HEADER # UInt16SetLE (ucast i)
      else if i \<le> 0xffffffff then VAR_INT32_HEADER # UInt32SetLE (ucast i)
      else VAR_INT64_HEADER # UInt64SetLE i)"

definition BRVarIntSet :: "nat option \<Rightarrow> u64 \<Rightarrow> nat \<times> bytes" where
  "BRVarIntSet cap i =
     (let n = (if i < 0xfd then 1 else if i \<le> 0xffff then 3 else if i \<le> 0xffffffff then 5 else 9) in
      case cap of None \<Rightarrow> (n, [])
      | Some bufLen \<Rightarrow> if n \<le> bufLen then (n, varIntBytes i) else (0, []))"

definition BRVarIntSize :: "u64 \<Rightarrow> nat" where
  "BRVarIntSize i = fst (BRVarIntSet None i)"

section \<open>Script elements\<close>

definition OP_0 :: u8 where "OP_0 = 0x00"
definition OP_PUSHDATA1 :: u8 where "OP_PUSHDATA1 = 0x4c"
definition OP_PUSHDATA2 :: u8 where "OP_PUSHDATA2 = 0x4d"
definition OP_PUSHDATA4 :: u8 where "OP_PUSHDATA4 = 0x4e"
definition OP_1 :: u8 where "OP_1 = 0x51"
definition OP_16 :: u8 where "OP_16 = 0x60"
definition OP_DUP :: u8 where "OP_DUP = 0x76"
definition OP_EQUAL :: u8 where "OP_EQUAL = 0x87"
definition OP_EQUALVERIFY :: u8 where "OP_EQUALVERIFY = 0x88"
definition OP_HASH160 :: u8 where "OP_HASH160 = 0xa9"
definition OP_CHECKSIG :: u8 where "OP_CHECKSIG = 0xac"
definition OP_RETURN :: u8 where "OP_RETURN = 0x6a"
definition MAX_SCRIPT_LENGTH :: nat where "MAX_SCRIPT_LENGTH = 0x100"

lemmas opcodes = OP_0_def OP_PUSHDATA1_def OP_PUSHDATA2_def OP_PUSHDATA4_def OP_1_def OP_16_def
  OP_DUP_def OP_EQUAL_def OP_EQUALVERIFY_def OP_HASH160_def OP_CHECKSIG_def OP_RETURN_def

text \<open>
  The switch shared by \<open>BRScriptElements\<close> and \<open>BRScriptData\<close>: the bytes of the opcode and its length
  field, and the declared data length (meaningful only when those bytes are there).
\<close>

definition scriptHeader :: "bytes \<Rightarrow> nat \<times> nat" where
  "scriptHeader p =
     (let op = p ! 0 in
      if op = OP_PUSHDATA1 then (2, if 2 \<le> length p then unat (p ! 1) else 0)
      else if op = OP_PUSHDATA2 then (3, if 3 \<le> length p then unat (UInt16GetLE (drop 1 p)) else 0)
      else if op = OP_PUSHDATA4 then (5, if 5 \<le> length p then unat (UInt32GetLE (drop 1 p)) else 0)
      else (1, if op > OP_PUSHDATA4 then 0 else unat op))"

lemma scriptHeader_pos: "0 < fst (scriptHeader p)"
  by (simp add: scriptHeader_def Let_def)

text \<open>The loop over what is left of the script; \<open>None\<close> is the early \<open>return 0\<close>.\<close>

function scriptElementsLoop :: "bytes \<Rightarrow> bytes list option" where
  "scriptElementsLoop p =
     (if p = [] then Some []
      else
        let (off, len) = scriptHeader p in
        if off > length p \<or> len > length p - off then None
        else map_option (\<lambda>es. p # es) (scriptElementsLoop (drop (off + len) p)))"
  by pat_completeness auto
termination
proof (relation "measure length")
  fix p x off len
  assume "p \<noteq> []" and x: "x = scriptHeader p" "(off, len) = x"
  moreover have "0 < off"
    using scriptHeader_pos [of p] by (simp flip: x)
  ultimately show "(drop (off + len) p, p) \<in> measure length"
    by simp
qed simp

declare scriptElementsLoop.simps [simp del]

text \<open>
  The elements' pointers; the empty list is the answer 0.  The first argument is the room of the
  caller's array, \<open>None\<close> for the null array with which a caller asks for the count.
\<close>

definition BRScriptElements :: "nat option \<Rightarrow> bytes \<Rightarrow> bytes list" where
  "BRScriptElements elemsCount script =
     (case scriptElementsLoop script of None \<Rightarrow> []
      | Some es \<Rightarrow>
          (case elemsCount of None \<Rightarrow> es | Some room \<Rightarrow> if length es \<le> room then es else []))"

text \<open>The call that sizes an array and the call that fills it, as every caller makes them.\<close>

definition scriptElems :: "bytes \<Rightarrow> bytes list" where
  "scriptElems script = BRScriptElements (Some (length (BRScriptElements None script))) script"

text \<open>The pointer to the data, if any, and its length.\<close>

definition BRScriptData :: "bytes \<Rightarrow> bytes option \<times> nat" where
  "BRScriptData elem =
     (let (off, len) = scriptHeader elem in (if len > 0 then Some (drop off elem) else None, len))"

text \<open>The bytes of a data push; the length field is truncated to its width as the code does.\<close>

definition pushDataBytes :: "bytes \<Rightarrow> bytes" where
  "pushDataBytes d =
     (if length d < unat OP_PUSHDATA1 then [of_nat (length d)] @ d
      else if length d < 0xff then [OP_PUSHDATA1, of_nat (length d)] @ d
      else if length d < 0xffff then [OP_PUSHDATA2] @ UInt16SetLE (of_nat (length d)) @ d
      else [OP_PUSHDATA4] @ UInt32SetLE (of_nat (length d)) @ d)"

definition BRScriptPushData :: "nat option \<Rightarrow> bytes \<Rightarrow> nat \<times> bytes" where
  "BRScriptPushData cap d =
     (let len = length (pushDataBytes d) in
      case cap of None \<Rightarrow> (len, [])
      | Some scriptLen \<Rightarrow> if len \<le> scriptLen then (len, pushDataBytes d) else (0, []))"

text \<open>The pointer to the hash of the three scripts the wallet signs for.\<close>

definition BRScriptPKH :: "bytes \<Rightarrow> bytes option" where
  "BRScriptPKH script =
     (if script = [] \<or> length script > MAX_SCRIPT_LENGTH then None
      else
        let elems = scriptElems script; count = length elems; op = (\<lambda>i. hd (elems ! i)) in
        if count = 0 then None
        else if count = 5 \<and> op 0 = OP_DUP \<and> op 1 = OP_HASH160 \<and> op 2 = 20 \<and> op 3 = OP_EQUALVERIFY \<and>
                op 4 = OP_CHECKSIG then fst (BRScriptData (elems ! 2))
        else if count = 3 \<and> op 0 = OP_HASH160 \<and> op 1 = 20 \<and> op 2 = OP_EQUAL then
          fst (BRScriptData (elems ! 1))
        else if count = 2 \<and> (op 0 = OP_0 \<or> (op 0 \<ge> OP_1 \<and> op 0 \<le> OP_16)) \<and> op 1 = 20 then
          fst (BRScriptData (elems ! 1))
        else None)"

section \<open>Dust\<close>

definition BR_DUST_RELAY_FEE_PER_KB :: int where "BR_DUST_RELAY_FEE_PER_KB = 30000"
definition BR_DUST_MAX_SCRIPT_SIZE :: nat where "BR_DUST_MAX_SCRIPT_SIZE = 10000"
definition BR_DUST_SPEND_SIZE :: int where "BR_DUST_SPEND_SIZE = 148"
definition BR_DUST_WITNESS_SPEND_SIZE :: int where "BR_DUST_WITNESS_SPEND_SIZE = 67"
definition BR_DUST_DD_TOKEN_SCRIPT_SIZE :: nat where "BR_DUST_DD_TOKEN_SCRIPT_SIZE = 34"

lemmas dust_constants = BR_DUST_RELAY_FEE_PER_KB_def BR_DUST_MAX_SCRIPT_SIZE_def
  BR_DUST_SPEND_SIZE_def BR_DUST_WITNESS_SPEND_SIZE_def BR_DUST_DD_TOKEN_SCRIPT_SIZE_def

definition BRDustScriptIsUnspendable :: "bytes \<Rightarrow> bool" where
  "BRDustScriptIsUnspendable script \<longleftrightarrow>
     (length script > 0 \<and> script ! 0 = OP_RETURN) \<or> length script > BR_DUST_MAX_SCRIPT_SIZE"

definition BRDustScriptIsWitnessProgram :: "bytes \<Rightarrow> bool" where
  "BRDustScriptIsWitnessProgram script \<longleftrightarrow>
     \<not> (length script < 4 \<or> length script > 42) \<and>
     \<not> (script ! 0 \<noteq> OP_0 \<and> (script ! 0 < OP_1 \<or> script ! 0 > OP_16)) \<and>
     unat (script ! 1) + 2 = length script"

definition BRDustThreshold :: "bytes \<Rightarrow> int" where
  "BRDustThreshold script =
     (if BRDustScriptIsUnspendable script then 0
      else
        let size = 8 + int (BRVarIntSize (of_nat (length script))) + int (length script);
            size = size + (if BRDustScriptIsWitnessProgram script then BR_DUST_WITNESS_SPEND_SIZE
                           else BR_DUST_SPEND_SIZE)
        in (BR_DUST_RELAY_FEE_PER_KB * size + 999) div 1000)"

definition BRDustIsDigiDollarExempt :: "int \<Rightarrow> bytes \<Rightarrow> bool \<Rightarrow> bool" where
  "BRDustIsDigiDollarExempt amount script txIsDigiDollar \<longleftrightarrow>
     txIsDigiDollar \<and> amount = 0 \<and> length script = BR_DUST_DD_TOKEN_SCRIPT_SIZE \<and> script ! 0 = OP_1"

definition BRDustIsDust :: "int \<Rightarrow> bytes \<Rightarrow> bool \<Rightarrow> bool" where
  "BRDustIsDust amount script txIsDigiDollar \<longleftrightarrow>
     amount < BRDustThreshold script \<and> \<not> BRDustIsDigiDollarExempt amount script txIsDigiDollar"

section \<open>Round trip of the variable-length integer\<close>

lemma ucast_ucast_id:
  fixes i :: u64
  shows "i \<le> 0xff \<Longrightarrow> ucast (ucast i :: u8) = i"
    and "i \<le> 0xffff \<Longrightarrow> ucast (ucast i :: u16) = i"
    and "i \<le> 0xffffffff \<Longrightarrow> ucast (ucast i :: u32) = i"
  by (simp_all add: word_eq_iff_unsigned [where 'a = nat] unsigned_ucast_eq word_le_nat_alt
      take_bit_eq_mod unat_mod)

lemma varint_first_byte:
  fixes i :: u64
  assumes "i < 0xfd"
  shows "(ucast i :: u8) \<noteq> 0xfd" "(ucast i :: u8) \<noteq> 0xfe" "(ucast i :: u8) \<noteq> 0xff"
proof -
  have "ucast (ucast i :: u8) = i"
    using assms by (intro ucast_ucast_id) (simp add: word_le_nat_alt word_less_nat_alt)
  then show "(ucast i :: u8) \<noteq> 0xfd" "(ucast i :: u8) \<noteq> 0xfe" "(ucast i :: u8) \<noteq> 0xff"
    using assms by (auto simp: word_less_nat_alt)
qed

lemma BRVarInt_read: "BRVarInt (varIntBytes i @ rest) = (i, BRVarIntSize i)"
  using varint_first_byte [of i]
  by (auto simp: BRVarInt_def varIntBytes_def BRVarIntSize_def BRVarIntSet_def var_int_headers
      Let_def ucast_ucast_id word_le_nat_alt word_less_nat_alt)

lemma length_varIntBytes: "length (varIntBytes i) = BRVarIntSize i"
  by (auto simp: varIntBytes_def BRVarIntSize_def BRVarIntSet_def Let_def)

text \<open>
  Every 64-bit value written as a variable-length integer is read back, whatever bytes follow,
  with the length that was written; that length is the one \<open>BRVarIntSize\<close> announces, it is 1, 3, 5
  or 9, and \<open>BRVarIntSet\<close> writes nothing exactly when the buffer is smaller.\<close>

theorem varint_roundtrip:
  "BRVarInt (varIntBytes i @ rest) = (i, BRVarIntSize i) \<and>
   length (varIntBytes i) = BRVarIntSize i \<and> BRVarIntSize i \<in> {1, 3, 5, 9} \<and>
   BRVarIntSet (Some bufLen) i =
     (if BRVarIntSize i \<le> bufLen then (BRVarIntSize i, varIntBytes i) else (0, []))"
proof (intro conjI)
  show "BRVarInt (varIntBytes i @ rest) = (i, BRVarIntSize i)" by (rule BRVarInt_read)
  show "length (varIntBytes i) = BRVarIntSize i" by (rule length_varIntBytes)
qed (auto simp: varIntBytes_def BRVarIntSize_def BRVarIntSet_def Let_def)

section \<open>The elements of a script\<close>

text \<open>The bytes an element occupies: its opcode, its length field and its data.\<close>

definition elemExtent :: "bytes \<Rightarrow> bytes" where
  "elemExtent e = take (fst (scriptHeader e) + snd (scriptHeader e)) e"

abbreviation element_fits :: "bytes \<Rightarrow> bool" where
  "element_fits e \<equiv> fst (scriptHeader e) + snd (scriptHeader e) \<le> length e"

lemma scriptElementsLoop_Nil [simp]: "scriptElementsLoop [] = Some []"
  by (simp add: scriptElementsLoop.simps)

lemma scriptElementsLoop_step:
  assumes "p \<noteq> []"
  shows "scriptElementsLoop p =
    (if element_fits p
     then map_option ((#) p) (scriptElementsLoop (drop (fst (scriptHeader p) + snd (scriptHeader p)) p))
     else None)"
  using assms by (subst scriptElementsLoop.simps) (auto split: prod.splits)

lemma scriptElementsLoop_is_Nil [simp]: "scriptElementsLoop p = Some [] \<longleftrightarrow> p = []"
  by (cases "p = []") (auto simp: scriptElementsLoop_step)

lemma scriptElementsLoop_is_Cons:
  "scriptElementsLoop p = Some (e # es) \<longleftrightarrow>
     p \<noteq> [] \<and> e = p \<and> element_fits p \<and>
     scriptElementsLoop (drop (fst (scriptHeader p) + snd (scriptHeader p)) p) = Some es"
  by (cases "p = []") (auto simp: scriptElementsLoop_step)

lemma scriptElementsLoop_partition:
  assumes "scriptElementsLoop p = Some es"
  shows "concat (map elemExtent es) = p"
    and "\<And>e. e \<in> set es \<Longrightarrow> e \<noteq> [] \<and> suffix e p \<and> element_fits e"
proof -
  have "concat (map elemExtent es) = p \<and> (\<forall>e\<in>set es. e \<noteq> [] \<and> suffix e p \<and> element_fits e)"
    using assms
  proof (induction es arbitrary: p)
    case (Cons e es)
    let ?n = "fst (scriptHeader p) + snd (scriptHeader p)"
    have p: "p \<noteq> []" "e = p" "element_fits p" "scriptElementsLoop (drop ?n p) = Some es"
      using Cons.prems by (simp_all add: scriptElementsLoop_is_Cons)
    moreover have "suffix (drop ?n p) p"
      by (simp add: suffix_drop)
    ultimately show ?case
      using Cons.IH [OF p(4)] by (auto simp: elemExtent_def intro: suffix_order.trans)
  qed simp
  then show "concat (map elemExtent es) = p"
    and "\<And>e. e \<in> set es \<Longrightarrow> e \<noteq> [] \<and> suffix e p \<and> element_fits e"
    by auto
qed

lemma scriptElems_loop: "scriptElems s = BRScriptElements None s"
  by (auto simp: scriptElems_def BRScriptElements_def split: option.splits)

lemma scriptElems_SomeD:
  assumes "scriptElems s = es" and "es \<noteq> []"
  shows "scriptElementsLoop s = Some es"
  using assms by (auto simp: scriptElems_loop BRScriptElements_def split: option.splits)

lemma scriptElems_SomeI: "scriptElementsLoop s = Some es \<Longrightarrow> scriptElems s = es"
  by (simp add: scriptElems_loop BRScriptElements_def)

lemma scriptElementsLoop_None_iff_short:
  "scriptElementsLoop s = None \<longleftrightarrow> s \<noteq> [] \<and> scriptElems s = []"
  by (cases "scriptElementsLoop s")
    (auto simp: scriptElems_loop BRScriptElements_def dest: scriptElementsLoop_is_Nil [THEN iffD1])

lemma BRScriptData_in_element:
  assumes "element_fits e" and "BRScriptData e = (Some d, n)"
  shows "suffix d e \<and> n \<le> length d \<and> 0 < n"
  using assms by (auto simp: BRScriptData_def suffix_drop split: prod.splits if_splits)

text \<open>C22. The elements of a script cut it into consecutive pieces: laid end to end, the bytes the
  elements occupy are the script again; every element starts inside the script; and the data of an
  element, where it has data, lies inside the script with its whole declared length, so the pointer
  and the length \<open>BRScriptData\<close> gives can be read without leaving the script.\<close>

theorem script_elements_partition_the_script:
  assumes "es = scriptElems s" and "es \<noteq> []"
  shows "concat (map elemExtent es) = s \<and> (\<forall>e\<in>set es. e \<noteq> [] \<and> suffix e s) \<and>
    (\<forall>e\<in>set es. \<forall>d n. BRScriptData e = (Some d, n) \<longrightarrow> suffix d s \<and> 0 < n \<and> n \<le> length d)"
proof -
  have "scriptElementsLoop s = Some es"
    using scriptElems_SomeD assms by metis
  note part = scriptElementsLoop_partition [OF this]
  have "suffix d s \<and> 0 < n \<and> n \<le> length d"
    if "e \<in> set es" "BRScriptData e = (Some d, n)" for e d n
    using BRScriptData_in_element [OF _ that(2)] part(2) [OF that(1)] suffix_order.trans by blast
  then show ?thesis
    using part by auto
qed

section \<open>Pushes\<close>

lemma pushDataBytes_nonempty [simp]: "pushDataBytes d \<noteq> []"
  by (simp add: pushDataBytes_def)

lemma scriptHeader_bare_push:
  "b < OP_PUSHDATA1 \<Longrightarrow> scriptHeader (b # p) = (1, unat b)"
  by (auto simp: scriptHeader_def opcodes word_less_nat_alt)

lemma scriptHeader_pushDataBytes:
  assumes "length d < 2 ^ 32"
  shows "scriptHeader (pushDataBytes d @ rest) = (length (pushDataBytes d) - length d, length d)"
    and "drop (length (pushDataBytes d) - length d) (pushDataBytes d @ rest) = d @ rest"
proof -
  consider (bare) "length d < 76" | (one) "76 \<le> length d" "length d < 255"
    | (two) "255 \<le> length d" "length d < 65535" | (four) "65535 \<le> length d"
    by linarith
  then show "scriptHeader (pushDataBytes d @ rest) = (length (pushDataBytes d) - length d, length d)"
  proof cases
    case bare
    then have "unat (of_nat (length d) :: u8) = length d"
      by (simp add: unat_of_nat)
    with bare have "(of_nat (length d) :: u8) < OP_PUSHDATA1"
      by (simp add: word_less_nat_alt OP_PUSHDATA1_def)
    from scriptHeader_bare_push [OF this, of "d @ rest"] bare \<open>unat _ = _\<close> show ?thesis
      by (simp add: pushDataBytes_def OP_PUSHDATA1_def)
  next
    case one
    then show ?thesis
      by (simp add: scriptHeader_def pushDataBytes_def opcodes unat_of_nat)
  next
    case two
    then show ?thesis
      by (simp add: scriptHeader_def pushDataBytes_def opcodes unat_of_nat)
  next
    case four
    then show ?thesis
      using assms by (simp add: scriptHeader_def pushDataBytes_def opcodes unat_of_nat)
  qed
  show "drop (length (pushDataBytes d) - length d) (pushDataBytes d @ rest) = d @ rest"
    by (simp add: pushDataBytes_def)
qed

lemma length_pushDataBytes: "length d < length (pushDataBytes d)"
  by (simp add: pushDataBytes_def)

text \<open>The element pointers a concatenation of pushes has: its non-empty tails at the pushes.\<close>

fun pushTails :: "bytes list \<Rightarrow> bytes list" where
  "pushTails [] = []"
| "pushTails (d # ds) = concat (map pushDataBytes (d # ds)) # pushTails ds"

lemma length_pushTails [simp]: "length (pushTails ds) = length ds"
  by (induction ds) auto

lemma pushTails_nth:
  "k < length ds \<Longrightarrow> pushTails ds ! k = concat (map pushDataBytes (drop k ds))"
  by (induction ds arbitrary: k) (auto simp: nth_Cons' drop_Cons')

lemma scriptElementsLoop_pushes:
  assumes "\<forall>d\<in>set ds. length d < 2 ^ 32"
  shows "scriptElementsLoop (concat (map pushDataBytes ds)) = Some (pushTails ds)"
  using assms
proof (induction ds)
  case (Cons d ds)
  note h = scriptHeader_pushDataBytes [of d "concat (map pushDataBytes ds)"]
  have "length d < length (pushDataBytes d)"
    by (rule length_pushDataBytes)
  then show ?case
    using Cons h by (auto simp: scriptElementsLoop_is_Cons)
qed simp

text \<open>
  What \<open>BRScriptPushData\<close> writes is what the script reader reads: a script made of pushes has
  exactly one element per push, and the data of the k-th element begins with the k-th datum and has
  its length (an empty datum is read back as no data).\<close>

theorem pushes_read_back:
  assumes "\<forall>d\<in>set ds. length d < 2 ^ 32"
  shows "length (scriptElems (concat (map pushDataBytes ds))) = length ds \<and>
    (\<forall>k < length ds. BRScriptData (scriptElems (concat (map pushDataBytes ds)) ! k) =
       (if ds ! k = [] then None
        else Some (ds ! k @ concat (map pushDataBytes (drop (Suc k) ds))), length (ds ! k)))"
proof -
  have "BRScriptData (pushTails ds ! k) =
      (if ds ! k = [] then None
       else Some (ds ! k @ concat (map pushDataBytes (drop (Suc k) ds))), length (ds ! k))"
    if "k < length ds" for k
    using that assms scriptHeader_pushDataBytes [of "ds ! k"]
    by (simp add: pushTails_nth BRScriptData_def Cons_nth_drop_Suc [symmetric])
  then show ?thesis
    using scriptElems_SomeI [OF scriptElementsLoop_pushes [OF assms]] by simp
qed

section \<open>The scripts the wallet signs for\<close>

definition p2pkh_script :: "bytes \<Rightarrow> bytes" where
  "p2pkh_script h = [OP_DUP, OP_HASH160, 20] @ h @ [OP_EQUALVERIFY, OP_CHECKSIG]"

definition p2sh_script :: "bytes \<Rightarrow> bytes" where
  "p2sh_script h = [OP_HASH160, 20] @ h @ [OP_EQUAL]"

definition witness_script :: "u8 \<Rightarrow> bytes \<Rightarrow> bytes" where
  "witness_script v h = [v, of_nat (length h)] @ h"

definition is_version_opcode :: "u8 \<Rightarrow> bool" where
  "is_version_opcode v \<longleftrightarrow> v = OP_0 \<or> OP_1 \<le> v \<and> v \<le> OP_16"

lemma scriptHeader_plain:
  "b = 0 \<or> OP_PUSHDATA4 < b \<Longrightarrow> scriptHeader (b # p) = (1, 0)"
  by (auto simp: scriptHeader_def opcodes)

lemma hd_Cons_drop: "p \<noteq> [] \<Longrightarrow> p = hd p # drop 1 p"
  by (cases p) auto

lemma element_plain:
  assumes "scriptElementsLoop p = Some (e # es)" and "hd e = 0 \<or> OP_PUSHDATA4 < hd e"
  shows "\<exists>p'. p = hd e # p' \<and> e = p \<and> scriptElementsLoop p' = Some es"
  using assms scriptHeader_plain [of "hd p" "drop 1 p"] hd_Cons_drop [of p]
  by (cases p) (auto simp: scriptElementsLoop_is_Cons)

lemma element_bare_push:
  assumes "scriptElementsLoop p = Some (e # es)" and "hd e < OP_PUSHDATA1"
  shows "\<exists>h p'. p = hd e # h @ p' \<and> e = p \<and> length h = unat (hd e) \<and> scriptElementsLoop p' = Some es"
proof -
  obtain b q where p: "p = b # q"
    using assms(1) by (cases p) auto
  have "scriptHeader p = (1, unat b)"
    using assms scriptHeader_bare_push [of b q] by (simp add: p scriptElementsLoop_is_Cons)
  then have "p = hd e # take (unat b) q @ drop (unat b) q \<and> e = p \<and>
      length (take (unat b) q) = unat (hd e) \<and> scriptElementsLoop (drop (unat b) q) = Some es"
    using assms by (simp add: p scriptElementsLoop_is_Cons)
  then show ?thesis
    by blast
qed


text \<open>Each of the three shapes the code tests for, as the bytes of the script.\<close>

lemma p2pkh_elements:
  assumes "scriptElementsLoop s = Some [e0, e1, e2, e3, e4]"
    and "hd e0 = OP_DUP" "hd e1 = OP_HASH160" "hd e2 = 20" "hd e3 = OP_EQUALVERIFY" "hd e4 = OP_CHECKSIG"
  shows "\<exists>h. length h = 20 \<and> s = p2pkh_script h \<and> e2 = 20 # h @ [OP_EQUALVERIFY, OP_CHECKSIG]"
proof -
  obtain p1 where "s = OP_DUP # p1" and l1: "scriptElementsLoop p1 = Some [e1, e2, e3, e4]"
    using element_plain [OF assms(1)] assms(2) by (auto simp: opcodes)
  moreover obtain p2 where "p1 = OP_HASH160 # p2" and l2: "scriptElementsLoop p2 = Some [e2, e3, e4]"
    using element_plain [OF l1] assms(3) by (auto simp: opcodes)
  moreover obtain h p3 where "p2 = 20 # h @ p3" "e2 = p2" "length h = 20"
      and l3: "scriptElementsLoop p3 = Some [e3, e4]"
    using element_bare_push [OF l2] assms(4) by (auto simp: opcodes)
  moreover obtain p4 where "p3 = OP_EQUALVERIFY # p4" and l4: "scriptElementsLoop p4 = Some [e4]"
    using element_plain [OF l3] assms(5) by (auto simp: opcodes)
  moreover have "p4 = [OP_CHECKSIG]"
    using element_plain [OF l4] assms(6) by (auto simp: opcodes)
  ultimately show ?thesis
    by (auto simp: p2pkh_script_def)
qed

lemma p2sh_elements:
  assumes "scriptElementsLoop s = Some [e0, e1, e2]"
    and "hd e0 = OP_HASH160" "hd e1 = 20" "hd e2 = OP_EQUAL"
  shows "\<exists>h. length h = 20 \<and> s = p2sh_script h \<and> e1 = 20 # h @ [OP_EQUAL]"
proof -
  obtain p1 where "s = OP_HASH160 # p1" and l1: "scriptElementsLoop p1 = Some [e1, e2]"
    using element_plain [OF assms(1)] assms(2) by (auto simp: opcodes)
  moreover obtain h p2 where "p1 = 20 # h @ p2" "e1 = p1" "length h = 20"
      and l2: "scriptElementsLoop p2 = Some [e2]"
    using element_bare_push [OF l1] assms(3) by (auto simp: opcodes)
  moreover have "p2 = [OP_EQUAL]"
    using element_plain [OF l2] assms(4) by (auto simp: opcodes)
  ultimately show ?thesis
    by (auto simp: p2sh_script_def)
qed

lemma witness_elements:
  assumes "scriptElementsLoop s = Some [e0, e1]"
    and "is_version_opcode (hd e0)" "hd e1 < OP_PUSHDATA1"
  shows "\<exists>h. length h = unat (hd e1) \<and> s = witness_script (hd e0) h \<and> e1 = hd e1 # h"
proof -
  have "hd e0 = 0 \<or> OP_PUSHDATA4 < hd e0"
    using assms(2) by (auto simp: is_version_opcode_def opcodes word_less_nat_alt word_le_nat_alt)
  from element_plain [OF assms(1) this]
  obtain p1 where s: "s = hd e0 # p1" and l1: "scriptElementsLoop p1 = Some [e1]"
    by blast
  from element_bare_push [OF l1 assms(3)]
  obtain h where h: "p1 = hd e1 # h" "e1 = p1" "length h = unat (hd e1)"
    by auto
  have "witness_script (hd e0) h = hd e0 # hd e1 # h"
    by (simp add: witness_script_def h(3))
  then show ?thesis
    using s h by metis
qed

lemma list_length_Suc_cases:
  "length xs = Suc (Suc 0) \<Longrightarrow> \<exists>a b. xs = [a, b]"
  "length xs = Suc (Suc (Suc 0)) \<Longrightarrow> \<exists>a b c. xs = [a, b, c]"
  "length xs = Suc (Suc (Suc (Suc (Suc 0)))) \<Longrightarrow> \<exists>a b c d e. xs = [a, b, c, d, e]"
  unfolding length_Suc_conv by blast+

lemma scriptElementsLoop_standard:
  assumes "length h = 20"
  shows "scriptElementsLoop (p2pkh_script h) = Some [p2pkh_script h, drop 1 (p2pkh_script h),
           drop 2 (p2pkh_script h), [OP_EQUALVERIFY, OP_CHECKSIG], [OP_CHECKSIG]]"
    and "scriptElementsLoop (p2sh_script h) = Some [p2sh_script h, drop 1 (p2sh_script h), [OP_EQUAL]]"
  using assms
  by (simp_all add: p2pkh_script_def p2sh_script_def scriptElementsLoop_step scriptHeader_def opcodes)

lemma scriptElementsLoop_witness:
  assumes "is_version_opcode v" and "length h < 76"
  shows "scriptElementsLoop (witness_script v h) =
           Some [witness_script v h, of_nat (length h) # h]"
proof -
  have "unat (of_nat (length h) :: u8) = length h"
    using assms(2) by (simp add: unat_of_nat)
  then have "scriptHeader (of_nat (length h) # h) = (1, length h)"
    using assms(2) scriptHeader_bare_push [of "of_nat (length h)" h]
    by (simp add: word_less_nat_alt OP_PUSHDATA1_def)
  moreover have "scriptHeader (v # of_nat (length h) # h) = (1, 0)"
    using assms(1)
    by (intro scriptHeader_plain) (auto simp: is_version_opcode_def opcodes word_less_nat_alt word_le_nat_alt)
  ultimately show ?thesis
    by (simp add: witness_script_def scriptElementsLoop_step)
qed


lemma BRScriptData_bare_push:
  assumes "0 < b" "b < OP_PUSHDATA1"
  shows "BRScriptData (b # p) = (Some p, unat b)"
  using assms by (simp add: BRScriptData_def scriptHeader_bare_push word_less_nat_alt)

lemma BRScriptPKH_is_standard:
  assumes p: "BRScriptPKH s = Some p" "h = take 20 p"
  shows "length h = 20 \<and>
     (s = p2pkh_script h \<or> s = p2sh_script h \<or> (\<exists>v. is_version_opcode v \<and> s = witness_script v h))"
proof -
  let ?es = "scriptElems s"
  have b20: "BRScriptData (20 # q) = (Some q, 20)" for q
    by (simp add: BRScriptData_bare_push OP_PUSHDATA1_def)
  from p(1) have "?es \<noteq> []"
    by (auto simp: BRScriptPKH_def Let_def split: if_splits)
  then have l: "scriptElementsLoop s = Some ?es"
    by (rule scriptElems_SomeD [OF refl])
  from p(1) consider
      (pkh) "length ?es = 5" "hd (?es ! 0) = OP_DUP" "hd (?es ! 1) = OP_HASH160" "hd (?es ! 2) = 20"
        "hd (?es ! 3) = OP_EQUALVERIFY" "hd (?es ! 4) = OP_CHECKSIG" "fst (BRScriptData (?es ! 2)) = Some p"
    | (sh) "length ?es = 3" "hd (?es ! 0) = OP_HASH160" "hd (?es ! 1) = 20" "hd (?es ! 2) = OP_EQUAL"
        "fst (BRScriptData (?es ! 1)) = Some p"
    | (wit) "length ?es = 2" "is_version_opcode (hd (?es ! 0))" "hd (?es ! 1) = 20"
        "fst (BRScriptData (?es ! 1)) = Some p"
    by (auto simp: BRScriptPKH_def Let_def is_version_opcode_def split: if_splits)
  then show ?thesis
  proof cases
    case pkh
    then obtain e0 e1 e2 e3 e4 where es: "?es = [e0, e1, e2, e3, e4]"
      using list_length_Suc_cases(3) [of ?es] by auto
    with pkh p2pkh_elements [of s e0 e1 e2 e3 e4] l obtain h' where
      "length h' = 20" "s = p2pkh_script h'" "e2 = 20 # h' @ [OP_EQUALVERIFY, OP_CHECKSIG]" by auto
    then show ?thesis using pkh es p(2) b20 by auto
  next
    case sh
    then obtain e0 e1 e2 where es: "?es = [e0, e1, e2]"
      using list_length_Suc_cases(2) [of ?es] by auto
    with sh p2sh_elements [of s e0 e1 e2] l obtain h' where
      "length h' = 20" "s = p2sh_script h'" "e1 = 20 # h' @ [OP_EQUAL]" by auto
    then show ?thesis using sh es p(2) b20 by auto
  next
    case wit
    then obtain e0 e1 where es: "?es = [e0, e1]"
      using list_length_Suc_cases(1) [of ?es] by auto
    with wit witness_elements [of s e0 e1] l obtain h' where
      "length h' = 20" "s = witness_script (hd e0) h'" "e1 = 20 # h'"
      by (auto simp: OP_PUSHDATA1_def)
    then show ?thesis using wit es p(2) b20 by auto
  qed
qed

lemma BRScriptPKH_of_standard:
  assumes r: "length h = 20 \<and>
     (s = p2pkh_script h \<or> s = p2sh_script h \<or> (\<exists>v. is_version_opcode v \<and> s = witness_script v h))"
  shows "map_option (take 20) (BRScriptPKH s) = Some h"
proof -
  from r consider "s = p2pkh_script h" | "s = p2sh_script h" |
      v where "is_version_opcode v" "s = witness_script v h"
    by blast
  then show ?thesis
  proof cases
    case 1
    with r show ?thesis
      using scriptElems_SomeI [OF scriptElementsLoop_standard(1) [of h]]
      by (simp add: BRScriptPKH_def Let_def p2pkh_script_def BRScriptData_bare_push MAX_SCRIPT_LENGTH_def
          OP_PUSHDATA1_def nth_append)
  next
    case 2
    with r show ?thesis
      using scriptElems_SomeI [OF scriptElementsLoop_standard(2) [of h]]
      by (simp add: BRScriptPKH_def Let_def p2sh_script_def BRScriptData_bare_push MAX_SCRIPT_LENGTH_def
          OP_PUSHDATA1_def nth_append)
  next
    case 3
    with r have "scriptElems s = [v # 20 # h, 20 # h]"
      using scriptElems_SomeI [OF scriptElementsLoop_witness [of v h]] by (simp add: witness_script_def)
    with 3 r show ?thesis
      by (auto simp: BRScriptPKH_def Let_def witness_script_def BRScriptData_bare_push
          MAX_SCRIPT_LENGTH_def OP_PUSHDATA1_def is_version_opcode_def)
  qed
qed

text \<open>
  \<open>BRScriptPKH\<close> finds a hash in exactly three kinds of script, the ones the wallet can sign for:
  pay to public key hash, pay to script hash, and a version 0 to 16 witness program of 20 bytes, each
  with nothing before or after; and the hash it points at is the 20-byte hash of that script.\<close>

theorem script_pkh_is_exactly_the_standard_forms:
  "map_option (take 20) (BRScriptPKH s) = Some h \<longleftrightarrow>
     length h = 20 \<and>
     (s = p2pkh_script h \<or> s = p2sh_script h \<or> (\<exists>v. is_version_opcode v \<and> s = witness_script v h))"
  using BRScriptPKH_is_standard [of s _ h] BRScriptPKH_of_standard [of h s] by auto

section \<open>The dust threshold\<close>

lemma BRVarIntSize_small: "n < 253 \<Longrightarrow> BRVarIntSize (of_nat n) = 1"
  by (simp add: BRVarIntSize_def BRVarIntSet_def word_less_nat_alt unat_of_nat)

lemma BRVarIntSize_script: "n \<le> 10000 \<Longrightarrow> BRVarIntSize (of_nat n) = (if n < 253 then 1 else 3)"
  by (simp add: BRVarIntSize_def BRVarIntSet_def word_less_nat_alt word_le_nat_alt unat_of_nat)

lemma BRDustThreshold_spendable:
  assumes "\<not> BRDustScriptIsUnspendable s"
  shows "BRDustThreshold s =
    30 * (8 + (if length s < 253 then 1 else 3) + int (length s) +
          (if BRDustScriptIsWitnessProgram s then 67 else 148))"
proof -
  have "BRVarIntSize (of_nat (length s)) = (if length s < 253 then 1 else 3)"
    using assms
    by (intro BRVarIntSize_script) (auto simp: BRDustScriptIsUnspendable_def BR_DUST_MAX_SCRIPT_SIZE_def)
  moreover have "(30000 * k + 999) div 1000 = 30 * k" for k :: int
    by linarith
  ultimately show ?thesis
    using assms by (simp add: BRDustThreshold_def dust_constants)
qed

text \<open>
  The dust threshold is zero exactly for an output nobody can spend; for any other script it is
  thirty times the size of the output and of the input that spends it, so it never overflows and lies
  between 2400 (a four-byte witness program) and 304770 (the longest script); and for the three scripts
  the wallet pays to it is 5460 (public key hash), 5400 (script hash) and 2940 or 3300 (a 20- or 32-byte
  witness program).\<close>

theorem dust_threshold_values:
  "(BRDustThreshold s = 0 \<longleftrightarrow> BRDustScriptIsUnspendable s) \<and>
   (BRDustScriptIsUnspendable s \<or> BRDustThreshold s \<in> {2400..304770}) \<and>
   (length h = 20 \<longrightarrow> BRDustThreshold (p2pkh_script h) = 5460 \<and> BRDustThreshold (p2sh_script h) = 5400) \<and>
   (is_version_opcode v \<and> length h \<in> {20, 32} \<longrightarrow>
      BRDustThreshold (witness_script v h) = (if length h = 20 then 2940 else 3300))"
proof (intro conjI impI)
  have "BRDustThreshold s \<in> {2400..304770}" if "\<not> BRDustScriptIsUnspendable s"
    using that by (auto simp: BRDustThreshold_spendable BRDustScriptIsUnspendable_def
        BRDustScriptIsWitnessProgram_def BR_DUST_MAX_SCRIPT_SIZE_def)
  then show "BRDustThreshold s = 0 \<longleftrightarrow> BRDustScriptIsUnspendable s"
    and "BRDustScriptIsUnspendable s \<or> BRDustThreshold s \<in> {2400..304770}"
    by (auto simp: BRDustThreshold_def)
next
  assume h: "length h = 20"
  then have "\<not> BRDustScriptIsUnspendable (p2pkh_script h)" "\<not> BRDustScriptIsWitnessProgram (p2pkh_script h)"
    by (simp_all add: BRDustScriptIsUnspendable_def BRDustScriptIsWitnessProgram_def p2pkh_script_def
        opcodes BR_DUST_MAX_SCRIPT_SIZE_def)
  with h show "BRDustThreshold (p2pkh_script h) = 5460"
    by (simp add: BRDustThreshold_spendable p2pkh_script_def)
  from h have "\<not> BRDustScriptIsUnspendable (p2sh_script h)" "\<not> BRDustScriptIsWitnessProgram (p2sh_script h)"
    by (simp_all add: BRDustScriptIsUnspendable_def BRDustScriptIsWitnessProgram_def p2sh_script_def
        opcodes BR_DUST_MAX_SCRIPT_SIZE_def)
  with h show "BRDustThreshold (p2sh_script h) = 5400"
    by (simp add: BRDustThreshold_spendable p2sh_script_def)
next
  assume h: "is_version_opcode v \<and> length h \<in> {20, 32}"
  then have "unat (of_nat (length h) :: u8) = length h"
    by auto
  with h have "\<not> BRDustScriptIsUnspendable (witness_script v h)" "BRDustScriptIsWitnessProgram (witness_script v h)"
    by (auto simp: BRDustScriptIsUnspendable_def BRDustScriptIsWitnessProgram_def witness_script_def
        opcodes BR_DUST_MAX_SCRIPT_SIZE_def is_version_opcode_def)
  with h show "BRDustThreshold (witness_script v h) = (if length h = 20 then 2940 else 3300)"
    by (auto simp: BRDustThreshold_spendable witness_script_def)
qed

section \<open>The properties at concrete inputs\<close>

lemma script_elements_partition_the_script_witness:
  "concat (map elemExtent (scriptElems (p2sh_script (replicate 20 7)))) = p2sh_script (replicate 20 7) \<and>
   length (scriptElems (p2sh_script (replicate 20 7))) = 3"
proof -
  have "length (scriptElems (p2sh_script (replicate 20 7))) = 3"
    using scriptElems_SomeI [OF scriptElementsLoop_standard(2) [of "replicate 20 7"]] by simp
  then show ?thesis
    using script_elements_partition_the_script
      [of "scriptElems (p2sh_script (replicate 20 7))" "p2sh_script (replicate 20 7)"] by fastforce
qed

lemma pushes_read_back_witness:
  "BRScriptData (scriptElems (concat (map pushDataBytes [[1, 2], [], [3]])) ! 0) =
     (Some [1, 2, 0, 1, 3], 2)"
  using pushes_read_back [of "[[1, 2], [], [3]]"] by (simp add: pushDataBytes_def opcodes)

lemma dust_threshold_values_witness:
  "BRDustThreshold (p2pkh_script (replicate 20 7)) = 5460 \<and>
   BRDustThreshold (witness_script OP_1 (replicate 32 9)) = 3300"
  using dust_threshold_values [of "[]" "replicate 20 7" OP_1]
    dust_threshold_values [of "[]" "replicate 32 9" OP_1]
  by (simp add: is_version_opcode_def opcodes)

end
