(* ===== verification/Hashes.thy ===== *)
theory Hashes
  imports Prelude
begin

text \<open>
  The hash functions of \<open>src/BRCrypto.c\<close>: SHA-1, SHA-224/256/384/512, RIPEMD-160, MD5, SHA3-256,
  Keccak-256 and MurmurHash3.  A block in memory is a byte list; \<open>be32(x[i])\<close> on the (little-endian)
  targets is the big-endian value of four of its bytes, \<open>le32(x[i])\<close> the little-endian one.  The
  arrays of 32-bit state words are lists.  The loop over the data, the padding and the finalisation,
  which every function of the file repeats, are \<open>mdLoop\<close> and \<open>mdHash\<close>.
\<close>

section \<open>Reading words\<close>

definition be32_at :: "bytes \<Rightarrow> nat \<Rightarrow> u32" where "be32_at x i = get_be (take 4 (drop (4 * i) x))"
definition le32_at :: "bytes \<Rightarrow> nat \<Rightarrow> u32" where "le32_at x i = get_le (take 4 (drop (4 * i) x))"
definition be64_at :: "bytes \<Rightarrow> nat \<Rightarrow> u64" where "be64_at x i = get_be (take 8 (drop (8 * i) x))"
definition le64_at :: "bytes \<Rightarrow> nat \<Rightarrow> u64" where "le64_at x i = get_le (take 8 (drop (8 * i) x))"

definition rol32 :: "u32 \<Rightarrow> nat \<Rightarrow> u32" where "rol32 a b = push_bit b a OR drop_bit (32 - b) a"
definition ror32 :: "u32 \<Rightarrow> nat \<Rightarrow> u32" where "ror32 a b = drop_bit b a OR push_bit (32 - b) a"
definition ror64 :: "u64 \<Rightarrow> nat \<Rightarrow> u64" where "ror64 a b = drop_bit b a OR push_bit (64 - b) a"
definition rol64 :: "u64 \<Rightarrow> nat \<Rightarrow> u64" where "rol64 a b = push_bit b a XOR drop_bit (64 - b) a"

section \<open>The loop over blocks, padding and finalisation\<close>

text \<open>
  \<open>for (i = 0; i < len; i += B)\<close> with the break on a partial block; the position reached and the
  state.  The variant with \<open>i <= len\<close> is \<open>mdLoopLe\<close>.
\<close>

function mdLoop :: "nat \<Rightarrow> ('s \<Rightarrow> bytes \<Rightarrow> 's) \<Rightarrow> bytes \<Rightarrow> nat \<Rightarrow> 's \<Rightarrow> nat \<times> 's" where
  "mdLoop B f data i st =
     (if i < length data then
        if i + B > length data \<or> B = 0 then (i, st)
        else mdLoop B f data (i + B) (f st (take B (drop i data)))
      else (i, st))"
  by pat_completeness auto
termination by (relation "measure (\<lambda>(B, f, data, i, st). length data - i)") auto

function mdLoopLe :: "nat \<Rightarrow> ('s \<Rightarrow> bytes \<Rightarrow> 's) \<Rightarrow> bytes \<Rightarrow> nat \<Rightarrow> 's \<Rightarrow> nat \<times> 's" where
  "mdLoopLe B f data i st =
     (if i \<le> length data then
        if i + B > length data \<or> B = 0 then (i, st)
        else mdLoopLe B f data (i + B) (f st (take B (drop i data)))
      else (i, st))"
  by pat_completeness auto
termination by (relation "measure (\<lambda>(B, f, data, i, st). Suc (length data) - i)") auto

declare mdLoop.simps [simp del] mdLoopLe.simps [simp del]

text \<open>
  The tail: the rest of the data, the byte 0x80 and zeros fill a block; when fewer than \<open>L\<close> bytes are
  left for the length the block is compressed and a zero block follows; then the last \<open>L\<close> bytes are
  the length field.
\<close>

definition mdFinish :: "nat \<Rightarrow> nat \<Rightarrow> (u64 \<Rightarrow> bytes) \<Rightarrow> ('s \<Rightarrow> bytes \<Rightarrow> 's) \<Rightarrow> bytes \<Rightarrow> nat \<times> 's \<Rightarrow> 's" where
  "mdFinish B L lenField f data = (\<lambda>(i, st).
     let n = length data - i;
         x = drop i data @ [0x80] @ replicate (B - n - 1) 0;
         (st, x) = (if n \<ge> B - L then (f st x, replicate B 0) else (st, x))
     in f st (take (B - L) x @ lenField (of_nat (length data))))"

definition mdHash :: "nat \<Rightarrow> nat \<Rightarrow> (u64 \<Rightarrow> bytes) \<Rightarrow> ('s \<Rightarrow> bytes \<Rightarrow> 's) \<Rightarrow> 's \<Rightarrow> bytes \<Rightarrow> 's" where
  "mdHash B L lenField f iv data = mdFinish B L lenField f data (mdLoop B f data 0 iv)"

definition mdHashLe :: "nat \<Rightarrow> nat \<Rightarrow> (u64 \<Rightarrow> bytes) \<Rightarrow> ('s \<Rightarrow> bytes \<Rightarrow> 's) \<Rightarrow> 's \<Rightarrow> bytes \<Rightarrow> 's" where
  "mdHashLe B L lenField f iv data = mdFinish B L lenField f data (mdLoopLe B f data 0 iv)"

text \<open>The length in bits as \<open>x[14]\<close> and \<open>x[15]\<close> hold it.\<close>

definition lenFieldBE :: "u64 \<Rightarrow> bytes" where
  "lenFieldBE len = put_be 4 (ucast (drop_bit 29 len) :: u32) @ put_be 4 (ucast (push_bit 3 len) :: u32)"

definition lenFieldLE :: "u64 \<Rightarrow> bytes" where
  "lenFieldLE len = put_le 4 (ucast (push_bit 3 len) :: u32) @ put_le 4 (ucast (drop_bit 29 len) :: u32)"

definition lenField512 :: "u64 \<Rightarrow> bytes" where
  "lenField512 len = replicate 8 0 @ put_be 8 (len * 8)"

section \<open>SHA-1\<close>

definition sha1_f1 :: "u32 \<Rightarrow> u32 \<Rightarrow> u32 \<Rightarrow> u32" where "sha1_f1 x y z = (x AND y) OR (NOT x AND z)"
definition sha1_f2 :: "u32 \<Rightarrow> u32 \<Rightarrow> u32 \<Rightarrow> u32" where "sha1_f2 x y z = x XOR y XOR z"
definition sha1_f3 :: "u32 \<Rightarrow> u32 \<Rightarrow> u32 \<Rightarrow> u32" where
  "sha1_f3 x y z = (x AND y) OR (x AND z) OR (y AND z)"

text \<open>One operation: the working variables and the schedule \<open>x\<close>, extended by one word after 16.\<close>

definition sha1Step :: "bytes \<Rightarrow> u32 \<times> u32 \<times> u32 \<times> u32 \<times> u32 \<times> u32 list \<Rightarrow> nat \<Rightarrow>
    u32 \<times> u32 \<times> u32 \<times> u32 \<times> u32 \<times> u32 list" where
  "sha1Step blk = (\<lambda>(a, b, c, d, e, x) i.
     let z = (if i < 16 then be32_at blk i
              else rol32 (x ! (i - 3) XOR x ! (i - 8) XOR x ! (i - 14) XOR x ! (i - 16)) 1);
         (fx, y) = (if i < 20 then (sha1_f1 b c d, 0x5a827999)
                    else if i < 40 then (sha1_f2 b c d, 0x6ed9eba1)
                    else if i < 60 then (sha1_f3 b c d, 0x8f1bbcdc)
                    else (sha1_f2 b c d, 0xca62c1d6));
         t = rol32 a 5 + fx + e + y + z
     in (t, a, rol32 b 30, c, d, x @ [z]))"

definition BRSHA1Compress :: "u32 list \<Rightarrow> bytes \<Rightarrow> u32 list" where
  "BRSHA1Compress r blk =
     (let (a, b, c, d, e, x) = foldl (sha1Step blk) (r ! 0, r ! 1, r ! 2, r ! 3, r ! 4, []) [0..<80]
      in [r ! 0 + a, r ! 1 + b, r ! 2 + c, r ! 3 + d, r ! 4 + e])"

definition BRSHA1 :: "bytes \<Rightarrow> bytes" where
  "BRSHA1 data = concat (map (put_be 4) (mdHash 64 8 lenFieldBE BRSHA1Compress
     [0x67452301, 0xefcdab89, 0x98badcfe, 0x10325476, 0xc3d2e1f0] data))"

section \<open>SHA-256 and SHA-224\<close>

definition sha2_ch :: "'a::len word \<Rightarrow> 'a word \<Rightarrow> 'a word \<Rightarrow> 'a word" where
  "sha2_ch x y z = (x AND y) XOR (NOT x AND z)"
definition sha2_maj :: "'a::len word \<Rightarrow> 'a word \<Rightarrow> 'a word \<Rightarrow> 'a word" where
  "sha2_maj x y z = (x AND y) XOR (x AND z) XOR (y AND z)"
definition sha256_s0 :: "u32 \<Rightarrow> u32" where "sha256_s0 x = ror32 x 2 XOR ror32 x 13 XOR ror32 x 22"
definition sha256_s1 :: "u32 \<Rightarrow> u32" where "sha256_s1 x = ror32 x 6 XOR ror32 x 11 XOR ror32 x 25"
definition sha256_s2 :: "u32 \<Rightarrow> u32" where "sha256_s2 x = ror32 x 7 XOR ror32 x 18 XOR drop_bit 3 x"
definition sha256_s3 :: "u32 \<Rightarrow> u32" where "sha256_s3 x = ror32 x 17 XOR ror32 x 19 XOR drop_bit 10 x"

text \<open>The constant tables, row by row as in the source.\<close>

definition sha256_k :: "u32 list" where
  "sha256_k = concat [
     [0x428a2f98, 0x71374491, 0xb5c0fbcf, 0xe9b5dba5, 0x3956c25b, 0x59f111f1, 0x923f82a4, 0xab1c5ed5],
     [0xd807aa98, 0x12835b01, 0x243185be, 0x550c7dc3, 0x72be5d74, 0x80deb1fe, 0x9bdc06a7, 0xc19bf174],
     [0xe49b69c1, 0xefbe4786, 0x0fc19dc6, 0x240ca1cc, 0x2de92c6f, 0x4a7484aa, 0x5cb0a9dc, 0x76f988da],
     [0x983e5152, 0xa831c66d, 0xb00327c8, 0xbf597fc7, 0xc6e00bf3, 0xd5a79147, 0x06ca6351, 0x14292967],
     [0x27b70a85, 0x2e1b2138, 0x4d2c6dfc, 0x53380d13, 0x650a7354, 0x766a0abb, 0x81c2c92e, 0x92722c85],
     [0xa2bfe8a1, 0xa81a664b, 0xc24b8b70, 0xc76c51a3, 0xd192e819, 0xd6990624, 0xf40e3585, 0x106aa070],
     [0x19a4c116, 0x1e376c08, 0x2748774c, 0x34b0bcb5, 0x391c0cb3, 0x4ed8aa4a, 0x5b9cca4f, 0x682e6ff3],
     [0x748f82ee, 0x78a5636f, 0x84c87814, 0x8cc70208, 0x90befffa, 0xa4506ceb, 0xbef9a3f7, 0xc67178f2]]"

definition sha256Schedule :: "bytes \<Rightarrow> u32 list" where
  "sha256Schedule x =
     foldl (\<lambda>w i. w @ [sha256_s3 (w ! (i - 2)) + w ! (i - 7) + sha256_s2 (w ! (i - 15)) + w ! (i - 16)])
       (map (be32_at x) [0..<16]) [16..<64]"

definition sha256Step :: "u32 list \<Rightarrow> u32 \<times> u32 \<times> u32 \<times> u32 \<times> u32 \<times> u32 \<times> u32 \<times> u32 \<Rightarrow> nat \<Rightarrow>
    u32 \<times> u32 \<times> u32 \<times> u32 \<times> u32 \<times> u32 \<times> u32 \<times> u32" where
  "sha256Step w = (\<lambda>(a, b, c, d, e, f, g, h) i.
     let t1 = h + sha256_s1 e + sha2_ch e f g + sha256_k ! i + w ! i;
         t2 = sha256_s0 a + sha2_maj a b c
     in (t1 + t2, a, b, c, d + t1, e, f, g))"

definition BRSHA256Compress :: "u32 list \<Rightarrow> bytes \<Rightarrow> u32 list" where
  "BRSHA256Compress r x =
     (let (a, b, c, d, e, f, g, h) = foldl (sha256Step (sha256Schedule x))
            (r ! 0, r ! 1, r ! 2, r ! 3, r ! 4, r ! 5, r ! 6, r ! 7) [0..<64]
      in [r ! 0 + a, r ! 1 + b, r ! 2 + c, r ! 3 + d, r ! 4 + e, r ! 5 + f, r ! 6 + g, r ! 7 + h])"

definition sha224_iv :: "u32 list" where
  "sha224_iv = [0xc1059ed8, 0x367cd507, 0x3070dd17, 0xf70e5939, 0xffc00b31, 0x68581511, 0x64f98fa7, 0xbefa4fa4]"

definition sha256_iv :: "u32 list" where
  "sha256_iv = [0x6a09e667, 0xbb67ae85, 0x3c6ef372, 0xa54ff53a, 0x510e527f, 0x9b05688c, 0x1f83d9ab, 0x5be0cd19]"

definition BRSHA224 :: "bytes \<Rightarrow> bytes" where
  "BRSHA224 data = concat (map (put_be 4) (take 7 (mdHash 64 8 lenFieldBE BRSHA256Compress sha224_iv data)))"

definition BRSHA256 :: "bytes \<Rightarrow> bytes" where
  "BRSHA256 data = concat (map (put_be 4) (take 8 (mdHash 64 8 lenFieldBE BRSHA256Compress sha256_iv data)))"

definition BRSHA256_2 :: "bytes \<Rightarrow> bytes" where
  "BRSHA256_2 data = BRSHA256 (BRSHA256 data)"

section \<open>SHA-512 and SHA-384\<close>

definition sha512_S0 :: "u64 \<Rightarrow> u64" where "sha512_S0 x = ror64 x 28 XOR ror64 x 34 XOR ror64 x 39"
definition sha512_S1 :: "u64 \<Rightarrow> u64" where "sha512_S1 x = ror64 x 14 XOR ror64 x 18 XOR ror64 x 41"
definition sha512_S2 :: "u64 \<Rightarrow> u64" where "sha512_S2 x = ror64 x 1 XOR ror64 x 8 XOR drop_bit 7 x"
definition sha512_S3 :: "u64 \<Rightarrow> u64" where "sha512_S3 x = ror64 x 19 XOR ror64 x 61 XOR drop_bit 6 x"

definition sha512_k :: "u64 list" where
  "sha512_k = concat [
     [0x428a2f98d728ae22, 0x7137449123ef65cd, 0xb5c0fbcfec4d3b2f, 0xe9b5dba58189dbbc, 0x3956c25bf348b538],
     [0x59f111f1b605d019, 0x923f82a4af194f9b, 0xab1c5ed5da6d8118, 0xd807aa98a3030242, 0x12835b0145706fbe],
     [0x243185be4ee4b28c, 0x550c7dc3d5ffb4e2, 0x72be5d74f27b896f, 0x80deb1fe3b1696b1, 0x9bdc06a725c71235],
     [0xc19bf174cf692694, 0xe49b69c19ef14ad2, 0xefbe4786384f25e3, 0x0fc19dc68b8cd5b5, 0x240ca1cc77ac9c65],
     [0x2de92c6f592b0275, 0x4a7484aa6ea6e483, 0x5cb0a9dcbd41fbd4, 0x76f988da831153b5, 0x983e5152ee66dfab],
     [0xa831c66d2db43210, 0xb00327c898fb213f, 0xbf597fc7beef0ee4, 0xc6e00bf33da88fc2, 0xd5a79147930aa725],
     [0x06ca6351e003826f, 0x142929670a0e6e70, 0x27b70a8546d22ffc, 0x2e1b21385c26c926, 0x4d2c6dfc5ac42aed],
     [0x53380d139d95b3df, 0x650a73548baf63de, 0x766a0abb3c77b2a8, 0x81c2c92e47edaee6, 0x92722c851482353b],
     [0xa2bfe8a14cf10364, 0xa81a664bbc423001, 0xc24b8b70d0f89791, 0xc76c51a30654be30, 0xd192e819d6ef5218],
     [0xd69906245565a910, 0xf40e35855771202a, 0x106aa07032bbd1b8, 0x19a4c116b8d2d0c8, 0x1e376c085141ab53],
     [0x2748774cdf8eeb99, 0x34b0bcb5e19b48a8, 0x391c0cb3c5c95a63, 0x4ed8aa4ae3418acb, 0x5b9cca4f7763e373],
     [0x682e6ff3d6b2b8a3, 0x748f82ee5defb2fc, 0x78a5636f43172f60, 0x84c87814a1f0ab72, 0x8cc702081a6439ec],
     [0x90befffa23631e28, 0xa4506cebde82bde9, 0xbef9a3f7b2c67915, 0xc67178f2e372532b, 0xca273eceea26619c],
     [0xd186b8c721c0c207, 0xeada7dd6cde0eb1e, 0xf57d4f7fee6ed178, 0x06f067aa72176fba, 0x0a637dc5a2c898a6],
     [0x113f9804bef90dae, 0x1b710b35131c471b, 0x28db77f523047d84, 0x32caab7b40c72493, 0x3c9ebe0a15c9bebc],
     [0x431d67c49c100d4c, 0x4cc5d4becb3e42b6, 0x597f299cfc657e2a, 0x5fcb6fab3ad6faec, 0x6c44198c4a475817]]"

definition sha512Schedule :: "bytes \<Rightarrow> u64 list" where
  "sha512Schedule x =
     foldl (\<lambda>w i. w @ [sha512_S3 (w ! (i - 2)) + w ! (i - 7) + sha512_S2 (w ! (i - 15)) + w ! (i - 16)])
       (map (be64_at x) [0..<16]) [16..<80]"

definition sha512Step :: "u64 list \<Rightarrow> u64 \<times> u64 \<times> u64 \<times> u64 \<times> u64 \<times> u64 \<times> u64 \<times> u64 \<Rightarrow> nat \<Rightarrow>
    u64 \<times> u64 \<times> u64 \<times> u64 \<times> u64 \<times> u64 \<times> u64 \<times> u64" where
  "sha512Step w = (\<lambda>(a, b, c, d, e, f, g, h) i.
     let t1 = h + sha512_S1 e + sha2_ch e f g + sha512_k ! i + w ! i;
         t2 = sha512_S0 a + sha2_maj a b c
     in (t1 + t2, a, b, c, d + t1, e, f, g))"

definition BRSHA512Compress :: "u64 list \<Rightarrow> bytes \<Rightarrow> u64 list" where
  "BRSHA512Compress r x =
     (let (a, b, c, d, e, f, g, h) = foldl (sha512Step (sha512Schedule x))
            (r ! 0, r ! 1, r ! 2, r ! 3, r ! 4, r ! 5, r ! 6, r ! 7) [0..<80]
      in [r ! 0 + a, r ! 1 + b, r ! 2 + c, r ! 3 + d, r ! 4 + e, r ! 5 + f, r ! 6 + g, r ! 7 + h])"

definition sha384_iv :: "u64 list" where
  "sha384_iv = [0xcbbb9d5dc1059ed8, 0x629a292a367cd507, 0x9159015a3070dd17, 0x152fecd8f70e5939,
     0x67332667ffc00b31, 0x8eb44a8768581511, 0xdb0c2e0d64f98fa7, 0x47b5481dbefa4fa4]"

definition sha512_iv :: "u64 list" where
  "sha512_iv = [0x6a09e667f3bcc908, 0xbb67ae8584caa73b, 0x3c6ef372fe94f82b, 0xa54ff53a5f1d36f1,
     0x510e527fade682d1, 0x9b05688c2b3e6c1f, 0x1f83d9abfb41bd6b, 0x5be0cd19137e2179]"

definition BRSHA384 :: "bytes \<Rightarrow> bytes" where
  "BRSHA384 data = concat (map (put_be 8) (take 6 (mdHash 128 16 lenField512 BRSHA512Compress sha384_iv data)))"

definition BRSHA512 :: "bytes \<Rightarrow> bytes" where
  "BRSHA512 data = concat (map (put_be 8) (take 8 (mdHash 128 16 lenField512 BRSHA512Compress sha512_iv data)))"

section \<open>RIPEMD-160\<close>

definition rmd_f :: "u32 \<Rightarrow> u32 \<Rightarrow> u32 \<Rightarrow> u32" where "rmd_f x y z = x XOR y XOR z"
definition rmd_g :: "u32 \<Rightarrow> u32 \<Rightarrow> u32 \<Rightarrow> u32" where "rmd_g x y z = (x AND y) OR (NOT x AND z)"
definition rmd_h :: "u32 \<Rightarrow> u32 \<Rightarrow> u32 \<Rightarrow> u32" where "rmd_h x y z = (x OR NOT y) XOR z"
definition rmd_i :: "u32 \<Rightarrow> u32 \<Rightarrow> u32 \<Rightarrow> u32" where "rmd_i x y z = (x AND z) OR (y AND NOT z)"
definition rmd_j :: "u32 \<Rightarrow> u32 \<Rightarrow> u32 \<Rightarrow> u32" where "rmd_j x y z = x XOR (y OR NOT z)"

definition rl1 :: "nat list" where "rl1 = [0, 1, 2, 3, 4, 5, 6, 7, 8, 9, 10, 11, 12, 13, 14, 15]"
definition rl2 :: "nat list" where "rl2 = [7, 4, 13, 1, 10, 6, 15, 3, 12, 0, 9, 5, 2, 14, 11, 8]"
definition rl3 :: "nat list" where "rl3 = [3, 10, 14, 4, 9, 15, 8, 1, 2, 7, 0, 6, 13, 11, 5, 12]"
definition rl4 :: "nat list" where "rl4 = [1, 9, 11, 10, 0, 8, 12, 4, 13, 3, 7, 15, 14, 5, 6, 2]"
definition rl5 :: "nat list" where "rl5 = [4, 0, 5, 9, 7, 12, 2, 10, 14, 1, 3, 8, 11, 6, 15, 13]"
definition rr1 :: "nat list" where "rr1 = [5, 14, 7, 0, 9, 2, 11, 4, 13, 6, 15, 8, 1, 10, 3, 12]"
definition rr2 :: "nat list" where "rr2 = [6, 11, 3, 7, 0, 13, 5, 10, 14, 15, 8, 12, 4, 9, 1, 2]"
definition rr3 :: "nat list" where "rr3 = [15, 5, 1, 3, 7, 14, 6, 9, 11, 8, 12, 2, 10, 0, 4, 13]"
definition rr4 :: "nat list" where "rr4 = [8, 6, 4, 1, 3, 11, 15, 0, 5, 12, 2, 13, 9, 7, 10, 14]"
definition rr5 :: "nat list" where "rr5 = [12, 15, 10, 4, 1, 5, 8, 7, 6, 2, 13, 14, 0, 3, 9, 11]"
definition sl1 :: "nat list" where "sl1 = [11, 14, 15, 12, 5, 8, 7, 9, 11, 13, 14, 15, 6, 7, 9, 8]"
definition sl2 :: "nat list" where "sl2 = [7, 6, 8, 13, 11, 9, 7, 15, 7, 12, 15, 9, 11, 7, 13, 12]"
definition sl3 :: "nat list" where "sl3 = [11, 13, 6, 7, 14, 9, 13, 15, 14, 8, 13, 6, 5, 12, 7, 5]"
definition sl4 :: "nat list" where "sl4 = [11, 12, 14, 15, 14, 15, 9, 8, 9, 14, 5, 6, 8, 6, 5, 12]"
definition sl5 :: "nat list" where "sl5 = [9, 15, 5, 11, 6, 8, 13, 12, 5, 12, 13, 14, 11, 8, 5, 6]"
definition sr1 :: "nat list" where "sr1 = [8, 9, 9, 11, 13, 15, 15, 5, 7, 7, 8, 11, 14, 14, 12, 6]"
definition sr2 :: "nat list" where "sr2 = [9, 13, 15, 7, 12, 8, 9, 11, 7, 7, 12, 7, 6, 15, 13, 11]"
definition sr3 :: "nat list" where "sr3 = [9, 7, 15, 11, 8, 6, 6, 14, 12, 13, 5, 14, 13, 13, 7, 5]"
definition sr4 :: "nat list" where "sr4 = [15, 5, 8, 11, 14, 14, 6, 14, 6, 9, 12, 9, 12, 5, 15, 8]"
definition sr5 :: "nat list" where "sr5 = [8, 5, 12, 9, 12, 5, 14, 6, 8, 13, 6, 5, 15, 13, 11, 11]"

type_synonym rmd_vars = "u32 \<times> u32 \<times> u32 \<times> u32 \<times> u32"

text \<open>The \<open>rmd\<close> macro on one line's variables, and a round of sixteen.\<close>

definition rmdStep :: "(u32 \<Rightarrow> u32 \<Rightarrow> u32 \<Rightarrow> u32) \<Rightarrow> u32 \<Rightarrow> bytes \<Rightarrow> rmd_vars \<Rightarrow> nat \<times> nat \<Rightarrow> rmd_vars" where
  "rmdStep fn k blk = (\<lambda>(a, b, c, d, e) (r, s).
     let t = rol32 (a + fn b c d + le32_at blk r + k) s + e in (e, t, b, rol32 c 10, d))"

definition rmdRound :: "(u32 \<Rightarrow> u32 \<Rightarrow> u32 \<Rightarrow> u32) \<Rightarrow> u32 \<Rightarrow> bytes \<Rightarrow> nat list \<Rightarrow> nat list \<Rightarrow> rmd_vars \<Rightarrow> rmd_vars" where
  "rmdRound fn k blk rs ss v = foldl (rmdStep fn k blk) v (zip rs ss)"

definition BRRMDCompress :: "u32 list \<Rightarrow> bytes \<Rightarrow> u32 list" where
  "BRRMDCompress r x =
     (let v = (r ! 0, r ! 1, r ! 2, r ! 3, r ! 4);
          vl = rmdRound rmd_f 0x00000000 x rl1 sl1 v;
          vr = rmdRound rmd_j 0x50a28be6 x rr1 sr1 v;
          vl = rmdRound rmd_g 0x5a827999 x rl2 sl2 vl;
          vr = rmdRound rmd_i 0x5c4dd124 x rr2 sr2 vr;
          vl = rmdRound rmd_h 0x6ed9eba1 x rl3 sl3 vl;
          vr = rmdRound rmd_h 0x6d703ef3 x rr3 sr3 vr;
          vl = rmdRound rmd_i 0x8f1bbcdc x rl4 sl4 vl;
          vr = rmdRound rmd_g 0x7a6d76e9 x rr4 sr4 vr;
          (al, bl, cl, dl, el) = rmdRound rmd_j 0xa953fd4e x rl5 sl5 vl;
          (ar, br, cr, dr, er) = rmdRound rmd_f 0x00000000 x rr5 sr5 vr
      in [r ! 1 + cl + dr, r ! 2 + dl + er, r ! 3 + el + ar, r ! 4 + al + br, r ! 0 + bl + cr])"

definition BRRMD160 :: "bytes \<Rightarrow> bytes" where
  "BRRMD160 data = concat (map (put_le 4) (mdHashLe 64 8 lenFieldLE BRRMDCompress
     [0x67452301, 0xefcdab89, 0x98badcfe, 0x10325476, 0xc3d2e1f0] data))"

definition BRHash160 :: "bytes \<Rightarrow> bytes" where
  "BRHash160 data = BRRMD160 (BRSHA256 data)"

section \<open>MD5\<close>

definition md5_F :: "u32 \<Rightarrow> u32 \<Rightarrow> u32 \<Rightarrow> u32" where "md5_F x y z = z XOR (x AND (y XOR z))"
definition md5_G :: "u32 \<Rightarrow> u32 \<Rightarrow> u32 \<Rightarrow> u32" where "md5_G x y z = y XOR (z AND (x XOR y))"
definition md5_H :: "u32 \<Rightarrow> u32 \<Rightarrow> u32 \<Rightarrow> u32" where "md5_H x y z = x XOR y XOR z"
definition md5_I :: "u32 \<Rightarrow> u32 \<Rightarrow> u32 \<Rightarrow> u32" where "md5_I x y z = y XOR (x OR NOT z)"

definition md5_k :: "u32 list" where
  "md5_k =
    [0xd76aa478, 0xe8c7b756, 0x242070db, 0xc1bdceee, 0xf57c0faf, 0x4787c62a, 0xa8304613, 0xfd469501,
     0x698098d8, 0x8b44f7af, 0xffff5bb1, 0x895cd7be, 0x6b901122, 0xfd987193, 0xa679438e, 0x49b40821,
     0xf61e2562, 0xc040b340, 0x265e5a51, 0xe9b6c7aa, 0xd62f105d, 0x02441453, 0xd8a1e681, 0xe7d3fbc8,
     0x21e1cde6, 0xc33707d6, 0xf4d50d87, 0x455a14ed, 0xa9e3e905, 0xfcefa3f8, 0x676f02d9, 0x8d2a4c8a,
     0xfffa3942, 0x8771f681, 0x6d9d6122, 0xfde5380c, 0xa4beea44, 0x4bdecfa9, 0xf6bb4b60, 0xbebfbc70,
     0x289b7ec6, 0xeaa127fa, 0xd4ef3085, 0x04881d05, 0xd9d4d039, 0xe6db99e5, 0x1fa27cf8, 0xc4ac5665,
     0xf4292244, 0x432aff97, 0xab9423a7, 0xfc93a039, 0x655b59c3, 0x8f0ccc92, 0xffeff47d, 0x85845dd1,
     0x6fa87e4f, 0xfe2ce6e0, 0xa3014314, 0x4e0811a1, 0xf7537e82, 0xbd3af235, 0x2ad7d2bb, 0xeb86d391]"

definition md5_s :: "nat list" where
  "md5_s = [7, 12, 17, 22, 5, 9, 14, 20, 4, 11, 16, 23, 6, 10, 15, 21]"

definition md5Step :: "bytes \<Rightarrow> u32 \<times> u32 \<times> u32 \<times> u32 \<Rightarrow> nat \<Rightarrow> u32 \<times> u32 \<times> u32 \<times> u32" where
  "md5Step blk = (\<lambda>(a, b, c, d) i.
     let (fx, x, s) = (if i < 16 then (md5_F b c d, le32_at blk i, md5_s ! (i mod 4))
                       else if i < 32 then (md5_G b c d, le32_at blk ((5 * i + 1) mod 16), md5_s ! (4 + i mod 4))
                       else if i < 48 then (md5_H b c d, le32_at blk ((3 * i + 5) mod 16), md5_s ! (8 + i mod 4))
                       else (md5_I b c d, le32_at blk ((7 * i) mod 16), md5_s ! (12 + i mod 4)));
         a = a + (fx + x + md5_k ! i);
         a = rol32 a s + b
     in (d, a, b, c))"

definition BRMD5Compress :: "u32 list \<Rightarrow> bytes \<Rightarrow> u32 list" where
  "BRMD5Compress r x =
     (let (a, b, c, d) = foldl (md5Step x) (r ! 0, r ! 1, r ! 2, r ! 3) [0..<64]
      in [r ! 0 + a, r ! 1 + b, r ! 2 + c, r ! 3 + d])"

definition BRMD5 :: "bytes \<Rightarrow> bytes" where
  "BRMD5 data = concat (map (put_le 4) (mdHashLe 64 8 lenFieldLE BRMD5Compress
     [0x67452301, 0xefcdab89, 0x98badcfe, 0x10325476] data))"

section \<open>SHA3-256 and Keccak-256\<close>

definition keccak_k :: "u64 list" where
  "keccak_k =
    [0x0000000000000001, 0x0000000000008082, 0x800000000000808a, 0x8000000080008000, 0x000000000000808b,
     0x0000000080000001, 0x8000000080008081, 0x8000000000008009, 0x000000000000008a, 0x0000000000000088,
     0x0000000080008009, 0x000000008000000a, 0x000000008000808b, 0x800000000000008b, 0x8000000000008089,
     0x8000000000008003, 0x8000000000008002, 0x8000000000000080, 0x000000000000800a, 0x800000008000000a,
     0x8000000080008081, 0x8000000000008080, 0x0000000080000001, 0x8000000080008008]"

definition keccakTheta :: "u64 list \<Rightarrow> u64 list" where
  "keccakTheta r =
     (let a = map (\<lambda>j. r ! j XOR r ! (j + 5) XOR r ! (j + 10) XOR r ! (j + 15) XOR r ! (j + 20)) [0..<5];
          b = [rol64 (a ! 1) 1 XOR a ! 4, rol64 (a ! 2) 1 XOR a ! 0, rol64 (a ! 3) 1 XOR a ! 1,
               rol64 (a ! 4) 1 XOR a ! 2, rol64 (a ! 0) 1 XOR a ! 3]
      in map (\<lambda>i. r ! i XOR b ! (i mod 5)) [0..<25])"

definition keccak_rho :: "nat list" where
  "keccak_rho = [0, 1, 62, 28, 27, 36, 44, 6, 55, 20, 3, 10, 43, 25, 39, 41, 45, 15, 21, 8, 18, 2, 61, 56, 14]"

definition keccakRho :: "u64 list \<Rightarrow> u64 list" where
  "keccakRho r = r ! 0 # map (\<lambda>i. rol64 (r ! i) (keccak_rho ! i)) [1..<25]"

text \<open>The in-place cycle of lane moves: destination and source of each assignment in order.\<close>

definition keccak_moves :: "(nat \<times> nat) list" where
  "keccak_moves =
    [(1, 6), (6, 9), (9, 22), (22, 14), (14, 20), (20, 2), (2, 12), (12, 13), (13, 19), (19, 23), (23, 15),
     (15, 4), (4, 24), (24, 21), (21, 8), (8, 16), (16, 5), (5, 3), (3, 18), (18, 17), (17, 11), (11, 7),
     (7, 10)]"

definition keccakPi :: "u64 list \<Rightarrow> u64 list" where
  "keccakPi r = (let r1 = r ! 1 in (foldl (\<lambda>r (d, s). r[d := r ! s]) r keccak_moves)[10 := r1])"

definition keccakChiRow :: "u64 list \<Rightarrow> nat \<Rightarrow> u64 list" where
  "keccakChiRow r j =
     (let r0 = r ! j; r1 = r ! (1 + j);
          r = r[j := r ! j XOR (NOT r1 AND r ! (2 + j))];
          r = r[1 + j := r ! (1 + j) XOR (NOT (r ! (2 + j)) AND r ! (3 + j))];
          r = r[2 + j := r ! (2 + j) XOR (NOT (r ! (3 + j)) AND r ! (4 + j))];
          r = r[3 + j := r ! (3 + j) XOR (NOT (r ! (4 + j)) AND r0)]
      in r[4 + j := r ! (4 + j) XOR (NOT r0 AND r1)])"

definition keccakChi :: "u64 list \<Rightarrow> u64 list" where
  "keccakChi r = foldl keccakChiRow r [0, 5, 10, 15, 20]"

definition keccakRound :: "u64 list \<Rightarrow> nat \<Rightarrow> u64 list" where
  "keccakRound r i =
     (let r = keccakChi (keccakPi (keccakRho (keccakTheta r))) in r[0 := r ! 0 XOR keccak_k ! i])"

definition BRSHA3Compress :: "nat \<Rightarrow> u64 list \<Rightarrow> bytes \<Rightarrow> u64 list" where
  "BRSHA3Compress blockSize r x =
     foldl keccakRound
       (map (\<lambda>i. if i < blockSize div 8 then r ! i XOR le64_at x i else r ! i) [0..<25]) [0..<24]"

text \<open>The tail of the two sponges: they differ in the domain byte only.\<close>

definition spongeHash :: "u8 \<Rightarrow> bytes \<Rightarrow> u64 list" where
  "spongeHash padByte data =
     (let (i, st) = mdLoopLe 136 (BRSHA3Compress 136) data 0 (replicate 25 0);
          n = length data - i;
          x = drop i data @ replicate (136 - n) 0;
          x = x[n := x ! n OR padByte];
          x = x[135 := x ! 135 OR 0x80]
      in BRSHA3Compress 136 st x)"

definition BRSHA3_256 :: "bytes \<Rightarrow> bytes" where
  "BRSHA3_256 data = concat (map (put_le 8) (take 4 (spongeHash 0x06 data)))"

definition BRKeccak256 :: "bytes \<Rightarrow> bytes" where
  "BRKeccak256 data = concat (map (put_le 8) (take 4 (spongeHash 0x01 data)))"

section \<open>MurmurHash3\<close>

definition murmur_C1 :: u32 where "murmur_C1 = 0xcc9e2d51"
definition murmur_C2 :: u32 where "murmur_C2 = 0x1b873593"

definition fmix32 :: "u32 \<Rightarrow> u32" where
  "fmix32 h =
     (let h = h XOR drop_bit 16 h; h = h * 0x85ebca6b; h = h XOR drop_bit 13 h; h = h * 0xc2b2ae35
      in h XOR drop_bit 16 h)"

definition murmurStep :: "bytes \<Rightarrow> u32 \<Rightarrow> nat \<Rightarrow> u32" where
  "murmurStep data h i =
     (let k = rol32 (le32_at data i * murmur_C1) 15 * murmur_C2 in rol32 (h XOR k) 13 * 5 + 0xe6546b64)"

definition BRMurmur3_32 :: "bytes \<Rightarrow> u32 \<Rightarrow> u32" where
  "BRMurmur3_32 data seed =
     (let len = length data; count = len div 4;
          h = foldl (murmurStep data) seed [0..<count];
          rem = len mod 4;
          k = (if rem \<ge> 3 then push_bit 16 (ucast (data ! (count * 4 + 2))) else 0);
          k = (if rem \<ge> 2 then k XOR push_bit 8 (ucast (data ! (count * 4 + 1))) else k);
          h = (if rem \<ge> 1 then
                 h XOR rol32 ((k XOR ucast (data ! (count * 4))) * murmur_C1) 15 * murmur_C2
               else h)
      in fmix32 (h XOR of_nat len))"

section \<open>The padded message and its blocks\<close>

fun chunks :: "nat \<Rightarrow> 'a list \<Rightarrow> 'a list list" where
  "chunks B xs = (if xs = [] \<or> B = 0 then [] else take B xs # chunks B (drop B xs))"

declare chunks.simps [simp del]

lemma chunks_Nil [simp]: "chunks B [] = []"
  by (simp add: chunks.simps)

lemma chunks_append:
  assumes "length xs = B" and "0 < B"
  shows "chunks B (xs @ ys) = xs # chunks B ys"
  using assms by (subst chunks.simps) auto

lemma chunks_take:
  assumes "B \<le> length xs" and "0 < B"
  shows "chunks B (xs @ ys) = take B xs # chunks B (drop B xs @ ys)"
  using chunks_append [of "take B xs" B "drop B xs @ ys"] assms by (simp flip: append_assoc)

text \<open>The standards' padding: the message, the bit 1, the fewest zeros that fill whole blocks, the
  length field.\<close>

definition md_pad :: "nat \<Rightarrow> nat \<Rightarrow> bytes \<Rightarrow> bytes \<Rightarrow> bytes" where
  "md_pad B L field m =
     m @ [0x80] @ replicate ((B - (length m + 1 + L) mod B) mod B) 0 @ field"

definition sponge_pad :: "nat \<Rightarrow> u8 \<Rightarrow> bytes \<Rightarrow> bytes" where
  "sponge_pad B d m =
     (let q = B - length m mod B in m @ (if q = 1 then [d OR 0x80] else [d] @ replicate (q - 2) 0 @ [0x80]))"

text \<open>What the two loops have in common: they leave less than a block, and the state they return
  stands for the blocks taken.\<close>

definition absorbed :: "nat \<Rightarrow> ('s \<Rightarrow> bytes \<Rightarrow> 's) \<Rightarrow> bytes \<Rightarrow> nat \<Rightarrow> 's \<Rightarrow> nat \<times> 's \<Rightarrow> bool" where
  "absorbed B f data i st r \<longleftrightarrow>
     fst r \<le> length data \<and> length data - fst r < B \<and> length data - fst r = (length data - i) mod B \<and>
     (\<forall>rest. foldl f st (chunks B (drop i data @ rest)) =
             foldl f (snd r) (chunks B (drop (fst r) data @ rest)))"

lemma absorbed_stop:
  "i \<le> length data \<Longrightarrow> length data < i + B \<Longrightarrow> absorbed B f data i st (i, st)"
  by (simp add: absorbed_def)

lemma absorbed_step:
  assumes "i + B \<le> length data" and "0 < B"
    and "absorbed B f data (i + B) (f st (take B (drop i data))) r"
  shows "absorbed B f data i st r"
proof -
  have "length data - i = B + (length data - (i + B))"
    using assms(1) by simp
  then have "(length data - i) mod B = (length data - (i + B)) mod B"
    by (metis mod_add_self1)
  moreover have "chunks B (drop i data @ rest) = take B (drop i data) # chunks B (drop (i + B) data @ rest)"
    for rest
    using assms(1,2) by (subst chunks_take) (auto simp: add.commute)
  ultimately show ?thesis
    using assms(3) by (simp add: absorbed_def)
qed

lemma mdLoop_absorbed:
  "i \<le> length data \<Longrightarrow> 0 < B \<Longrightarrow> absorbed B f data i st (mdLoop B f data i st)"
proof (induction B f data i st rule: mdLoop.induct)
  case (1 B f data i st)
  then show ?case
    by (cases "i + B \<le> length data"; subst mdLoop.simps) (auto intro!: absorbed_step absorbed_stop)
qed

lemma mdLoopLe_absorbed:
  "i \<le> length data \<Longrightarrow> 0 < B \<Longrightarrow> absorbed B f data i st (mdLoopLe B f data i st)"
proof (induction B f data i st rule: mdLoopLe.induct)
  case (1 B f data i st)
  then show ?case
    by (cases "i + B \<le> length data"; subst mdLoopLe.simps) (auto intro!: absorbed_step absorbed_stop)
qed

lemma pad_zeros:
  fixes B L n :: nat
  assumes "n < B" and "0 < L" and "L < B"
  shows "(B - (n + 1 + L) mod B) mod B =
    (if n \<ge> B - L then (B - n - 1) + (B - L) else B - L - n - 1)"
proof (cases "n \<ge> B - L")
  case True
  then have "(n + 1 + L) mod B = n + 1 + L - B"
    using assms by (simp add: le_mod_geq)
  then show ?thesis
    using True assms by simp
next
  case False
  then consider "n + 1 + L = B" | "n + 1 + L < B"
    by linarith
  then show ?thesis
    using False assms by cases auto
qed

text \<open>The contract of a hash with length padding, and what every such hash gets from it.\<close>

locale md_hash =
  fixes B L :: nat and lenField :: "u64 \<Rightarrow> bytes" and f :: "'s \<Rightarrow> bytes \<Rightarrow> 's"
  assumes L_pos: "0 < L" and L_less: "L < B" and length_field: "length (lenField n) = L"
begin

lemma finish_absorbed:
  assumes "absorbed B f data 0 iv r"
  shows "mdFinish B L lenField f data r =
    foldl f iv (chunks B (md_pad B L (lenField (of_nat (length data))) data))"
proof -
  obtain i st where r: "r = (i, st)" by fastforce
  let ?n = "length data - i" and ?t = "drop i data" and ?F = "lenField (of_nat (length data))"
  let ?z = "(B - (length data + 1 + L) mod B) mod B"
  have n: "?n < B" "?n = length data mod B"
    using assms by (auto simp: absorbed_def r)
  have "(length data + 1 + L) mod B = (?n + 1 + L) mod B"
    by (simp only: n(2) add.assoc mod_add_left_eq)
  then have z: "?z = (if ?n \<ge> B - L then (B - ?n - 1) + (B - L) else B - L - ?n - 1)"
    using pad_zeros [OF n(1) L_pos L_less] by simp
  have "foldl f iv (chunks B (md_pad B L ?F data)) =
      foldl f st (chunks B (?t @ [0x80] @ replicate ?z 0 @ ?F))"
    using assms by (simp add: absorbed_def r md_pad_def)
  also have "\<dots> = mdFinish B L lenField f data r"
  proof (cases "?n \<ge> B - L")
    case True
    then have "?t @ [0x80] @ replicate ?z 0 @ ?F =
        (?t @ [0x80] @ replicate (B - ?n - 1) 0) @ (replicate (B - L) 0 @ ?F) @ []"
      by (simp only: z True if_True replicate_add append_assoc append_Nil2)
    moreover have "length (?t @ [0x80] @ replicate (B - ?n - 1) 0) = B"
      and "length (replicate (B - L) 0 @ ?F) = B"
      using n(1) L_less by (auto simp: length_field)
    ultimately have "chunks B (?t @ [0x80] @ replicate ?z 0 @ ?F) =
        [?t @ [0x80] @ replicate (B - ?n - 1) 0, replicate (B - L) 0 @ ?F]"
      using n(1) by (simp only: chunks_append chunks_Nil simp_thms)
    then show ?thesis
      using True by (simp add: mdFinish_def r Let_def min_def)
  next
    case False
    then have "length (?t @ [0x80] @ replicate ?z 0 @ ?F) = B"
      using z n(1) L_less by (simp add: length_field)
    then have "chunks B ((?t @ [0x80] @ replicate ?z 0 @ ?F) @ []) = [?t @ [0x80] @ replicate ?z 0 @ ?F]"
      using n(1) by (simp only: chunks_append chunks_Nil)
    moreover have "take (B - L) (?t @ [0x80] @ replicate (B - ?n - 1) 0) = ?t @ [0x80] @ replicate ?z 0"
    proof -
      have "?z + L = B - ?n - 1" "length (?t @ [0x80::u8] @ replicate ?z 0) = B - L"
        using False z n(1) L_less by auto
      then have "?t @ [0x80] @ replicate (B - ?n - 1) 0 = (?t @ [0x80] @ replicate ?z 0) @ replicate L (0::u8)"
        by (simp only: replicate_add [symmetric] append_assoc)
      then show ?thesis
        using \<open>length _ = B - L\<close> by (metis append_eq_conv_conj)
    qed
    ultimately show ?thesis
      using False by (simp add: mdFinish_def r Let_def)
  qed
  finally show ?thesis by simp
qed

lemma hash_pads:
  "mdHash B L lenField f iv data =
    foldl f iv (chunks B (md_pad B L (lenField (of_nat (length data))) data))"
  "mdHashLe B L lenField f iv data =
    foldl f iv (chunks B (md_pad B L (lenField (of_nat (length data))) data))"
  unfolding mdHash_def mdHashLe_def
  using L_less by (auto intro!: finish_absorbed mdLoop_absorbed mdLoopLe_absorbed)

end

lemma put_be_8_split: "put_be 8 w = put_be 4 (ucast (drop_bit 32 w) :: u32) @ put_be 4 (ucast w :: u32)"
  for w :: u64
proof -
  have "put_le 8 w = put_le 4 (ucast w :: u32) @ put_le 4 (ucast (drop_bit 32 w) :: u32)"
    by (auto simp: put_le_def upt_conv_Cons bit_simps intro!: bit_word_eqI)
  then show ?thesis
    by (simp add: put_be_def)
qed

lemma lenField_standard:
  "lenFieldBE n = put_be 8 (8 * n)" "lenFieldLE n = put_le 8 (8 * n)" "lenField512 n = replicate 8 0 @ put_be 8 (8 * n)"
proof -
  have eight: "8 * n = push_bit 3 n"
    by (simp add: push_bit_eq_mult)
  have hi: "(ucast (drop_bit 32 (push_bit 3 n)) :: u32) = ucast (drop_bit 29 n)"
    by (auto intro!: bit_word_eqI simp: bit_simps)
  show be: "lenFieldBE n = put_be 8 (8 * n)"
    by (simp only: lenFieldBE_def eight put_be_8_split hi)
  show "lenFieldLE n = put_le 8 (8 * n)"
    using arg_cong [OF be, of rev] by (simp add: lenFieldBE_def lenFieldLE_def put_be_def)
  show "lenField512 n = replicate 8 0 @ put_be 8 (8 * n)"
    by (simp add: lenField512_def mult.commute)
qed

lemma length_lenField [simp]:
  "length (lenFieldBE n) = 8" "length (lenFieldLE n) = 8" "length (lenField512 n) = 16"
  by (simp_all add: lenFieldBE_def lenFieldLE_def lenField512_def put_be_def)

interpretation sha1: md_hash 64 8 lenFieldBE BRSHA1Compress by unfold_locales simp_all
interpretation sha256: md_hash 64 8 lenFieldBE BRSHA256Compress by unfold_locales simp_all
interpretation sha512: md_hash 128 16 lenField512 BRSHA512Compress by unfold_locales simp_all
interpretation rmd: md_hash 64 8 lenFieldLE BRRMDCompress by unfold_locales simp_all
interpretation md5: md_hash 64 8 lenFieldLE BRMD5Compress by unfold_locales simp_all

lemma sponge_pads:
  "spongeHash d data =
    foldl (BRSHA3Compress 136) (replicate 25 0) (chunks 136 (sponge_pad 136 d data))"
proof -
  obtain i st where r: "mdLoopLe 136 (BRSHA3Compress 136) data 0 (replicate 25 0) = (i, st)"
    by fastforce
  let ?f = "BRSHA3Compress 136" and ?n = "length data - i" and ?t = "drop i data"
  have a: "absorbed 136 ?f data 0 (replicate 25 0) (i, st)"
    using mdLoopLe_absorbed [of 0 data 136 ?f "replicate 25 0"] by (simp add: r)
  then have n: "?n < 136" "?n = length data mod 136" "length ?t = ?n"
    by (auto simp: absorbed_def)
  define x where "x = (if ?n = 135 then [d OR 0x80] else [d] @ replicate (134 - ?n) 0 @ [0x80])"
  have "136 - length data mod 136 = 1 \<longleftrightarrow> ?n = 135" "136 - length data mod 136 - 2 = 134 - ?n"
    using n(1) by (auto simp flip: n(2))
  then have "foldl ?f (replicate 25 0) (chunks 136 (sponge_pad 136 d data)) = foldl ?f st (chunks 136 (?t @ x))"
    using a by (auto simp: absorbed_def sponge_pad_def x_def Let_def)
  moreover have "chunks 136 ((?t @ x) @ []) = [?t @ x]"
    using n(1,3) by (subst chunks_append) (auto simp: x_def)
  moreover have "spongeHash d data = ?f st (?t @ x)"
  proof -
    have z: "replicate (136 - ?n) (0::u8) = (if ?n = 135 then [0] else [0] @ replicate (134 - ?n) 0 @ [0])"
    proof (cases "?n = 135")
      case False
      then have "136 - ?n = 1 + (134 - ?n) + 1"
        using n(1) by simp
      then show ?thesis
        using False by (simp only: replicate_add) simp
    qed simp
    have "?n \<noteq> 135 \<Longrightarrow> 135 - ?n = Suc (134 - ?n)"
      using n(1) by simp
    with z show ?thesis
      using n(1,3) by (auto simp: spongeHash_def r Let_def x_def nth_append list_update_append list_update_length)
  qed
  ultimately show ?thesis
    by simp
qed

lemma length_foldl:
  "(\<And>r x. length (f r x) = n) \<Longrightarrow> length iv = n \<Longrightarrow> length (foldl f iv xs) = n"
  by (induction xs arbitrary: iv) auto

lemma length_compress [simp]:
  "length (BRSHA1Compress r x) = 5" "length (BRSHA256Compress r x) = 8" "length (BRSHA512Compress s x) = 8"
  "length (BRRMDCompress r x) = 5" "length (BRMD5Compress r x) = 4"
  by (simp_all add: BRSHA1Compress_def BRSHA256Compress_def BRSHA512Compress_def BRRMDCompress_def
      BRMD5Compress_def Let_def split: prod.splits)

lemma length_iv [simp]:
  "length sha224_iv = 8" "length sha256_iv = 8" "length sha384_iv = 8" "length sha512_iv = 8"
  by (simp_all add: sha224_iv_def sha256_iv_def sha384_iv_def sha512_iv_def)

lemma length_keccakRound: "length r = 25 \<Longrightarrow> length (keccakRound r i) = 25"
  by (simp add: keccakRound_def keccakChi_def keccakChiRow_def keccakPi_def keccak_moves_def
      keccakRho_def Let_def)

lemma length_BRSHA3Compress [simp]: "length (BRSHA3Compress n r x) = 25"
proof -
  have "length (foldl keccakRound s is) = 25" if "length s = 25" for s "is"
    using that by (induction "is" arbitrary: s) (auto simp: length_keccakRound)
  then show ?thesis by (simp add: BRSHA3Compress_def)
qed

lemma length_concat_put: "length (concat (map (put_be k) ws)) = k * length ws"
  "length (concat (map (put_le k) ws)) = k * length ws"
  by (induction ws) auto

lemma digest_length [simp]:
  "length (BRSHA1 m) = 20" "length (BRSHA224 m) = 28" "length (BRSHA256 m) = 32" "length (BRSHA384 m) = 48"
  "length (BRSHA512 m) = 64" "length (BRRMD160 m) = 20" "length (BRMD5 m) = 16" "length (BRSHA3_256 m) = 32"
  "length (BRKeccak256 m) = 32"
  by (simp_all add: BRSHA1_def BRSHA224_def BRSHA256_def BRSHA384_def BRSHA512_def BRRMD160_def BRMD5_def
      BRSHA3_256_def BRKeccak256_def length_concat_put sha1.hash_pads sha256.hash_pads sha512.hash_pads
      rmd.hash_pads md5.hash_pads length_foldl sponge_pads)

lemma digest_length_derived [simp]: "length (BRSHA256_2 m) = 32" "length (BRHash160 m) = 20"
  by (simp_all add: BRSHA256_2_def BRHash160_def)

text \<open>C23. Every hash of the file is the iteration of its compression function over the blocks of the
  message padded as its standard says: SHA-1, SHA-224/256 and SHA-384/512 with the bit 1, the fewest
  zeros and the length in bits, big-endian, in 8 or 16 bytes; RIPEMD-160 and MD5 with the length
  little-endian; SHA3-256 and Keccak-256 with the pad10*1 rule and their domain bytes.  In particular
  an empty message, and one that leaves no room for the length in its last block, are padded right,
  and the digest is a function of the padded message only.\<close>

theorem hashes_iterate_over_the_padded_message:
  "let bits = 8 * of_nat (length m) :: u64;
       md32 = chunks 64 (md_pad 64 8 (put_be 8 bits) m);
       md64 = chunks 128 (md_pad 128 16 (replicate 8 0 @ put_be 8 bits) m);
       mdle = chunks 64 (md_pad 64 8 (put_le 8 bits) m)
   in BRSHA1 m = concat (map (put_be 4)
        (foldl BRSHA1Compress [0x67452301, 0xefcdab89, 0x98badcfe, 0x10325476, 0xc3d2e1f0] md32)) \<and>
      BRSHA224 m = concat (map (put_be 4) (take 7 (foldl BRSHA256Compress sha224_iv md32))) \<and>
      BRSHA256 m = concat (map (put_be 4) (foldl BRSHA256Compress sha256_iv md32)) \<and>
      BRSHA384 m = concat (map (put_be 8) (take 6 (foldl BRSHA512Compress sha384_iv md64))) \<and>
      BRSHA512 m = concat (map (put_be 8) (foldl BRSHA512Compress sha512_iv md64)) \<and>
      BRRMD160 m = concat (map (put_le 4)
        (foldl BRRMDCompress [0x67452301, 0xefcdab89, 0x98badcfe, 0x10325476, 0xc3d2e1f0] mdle)) \<and>
      BRMD5 m = concat (map (put_le 4)
        (foldl BRMD5Compress [0x67452301, 0xefcdab89, 0x98badcfe, 0x10325476] mdle)) \<and>
      BRSHA3_256 m = concat (map (put_le 8)
        (take 4 (foldl (BRSHA3Compress 136) (replicate 25 0) (chunks 136 (sponge_pad 136 0x06 m))))) \<and>
      BRKeccak256 m = concat (map (put_le 8)
        (take 4 (foldl (BRSHA3Compress 136) (replicate 25 0) (chunks 136 (sponge_pad 136 0x01 m)))))"
  unfolding Let_def
  by (intro conjI)
    (simp_all add: BRSHA1_def BRSHA224_def BRSHA256_def BRSHA384_def BRSHA512_def BRRMD160_def BRMD5_def
      BRSHA3_256_def BRKeccak256_def sha1.hash_pads sha256.hash_pads sha512.hash_pads rmd.hash_pads
      md5.hash_pads sponge_pads lenField_standard length_foldl)

section \<open>The permutation of FIPS 202\<close>

text \<open>The round function as the standard writes it, on lanes \<open>A x y\<close>: the rotation offsets come from
  the walk \<open>(x, y) \<mapsto> (y, 2x + 3y)\<close> and the round constants from the feedback shift register.\<close>

fun rho_walk :: "nat \<Rightarrow> nat \<times> nat" where
  "rho_walk 0 = (1, 0)"
| "rho_walk (Suc t) = (let (x, y) = rho_walk t in (y, (2 * x + 3 * y) mod 5))"

definition rho_offset :: "nat \<Rightarrow> nat \<Rightarrow> nat" where
  "rho_offset x y =
     (case List.find (\<lambda>t. rho_walk t = (x, y)) [0..<24] of None \<Rightarrow> 0 | Some t \<Rightarrow> (t + 1) * (t + 2) div 2 mod 64)"

definition lfsr_next :: "bool list \<Rightarrow> bool list" where
  "lfsr_next R =
     (let S = False # R; o8 = S ! 8; flip = (\<lambda>k S. S[k := (S ! k \<noteq> o8)])
      in take 8 (flip 6 (flip 5 (flip 4 (flip 0 S)))))"

primrec lfsr_run :: "nat \<Rightarrow> bool list \<Rightarrow> bool list" where
  "lfsr_run 0 R = []"
| "lfsr_run (Suc n) R = hd R # lfsr_run n (lfsr_next R)"

definition rc_bits :: "bool list" where
  "rc_bits = lfsr_run 168 [True, False, False, False, False, False, False, False]"

definition round_constant :: "nat \<Rightarrow> u64" where
  "round_constant i = foldl (\<lambda>w j. if rc_bits ! (j + 7 * i) then w OR push_bit (2 ^ j - 1) 1 else w) 0 [0..<7]"

definition fips_theta :: "(nat \<Rightarrow> nat \<Rightarrow> u64) \<Rightarrow> nat \<Rightarrow> nat \<Rightarrow> u64" where
  "fips_theta A x y =
     (let C = (\<lambda>x. A x 0 XOR A x 1 XOR A x 2 XOR A x 3 XOR A x 4)
      in A x y XOR (word_rotl 1 (C ((x + 1) mod 5)) XOR C ((x + 4) mod 5)))"

definition fips_rho :: "(nat \<Rightarrow> nat \<Rightarrow> u64) \<Rightarrow> nat \<Rightarrow> nat \<Rightarrow> u64" where
  "fips_rho A x y = word_rotl (rho_offset x y) (A x y)"

definition fips_pi :: "(nat \<Rightarrow> nat \<Rightarrow> u64) \<Rightarrow> nat \<Rightarrow> nat \<Rightarrow> u64" where
  "fips_pi A x y = A ((x + 3 * y) mod 5) x"

definition fips_chi :: "(nat \<Rightarrow> nat \<Rightarrow> u64) \<Rightarrow> nat \<Rightarrow> nat \<Rightarrow> u64" where
  "fips_chi A x y = A x y XOR (NOT (A ((x + 1) mod 5) y) AND A ((x + 2) mod 5) y)"

definition fips_iota :: "nat \<Rightarrow> (nat \<Rightarrow> nat \<Rightarrow> u64) \<Rightarrow> nat \<Rightarrow> nat \<Rightarrow> u64" where
  "fips_iota i A x y = (if x = 0 \<and> y = 0 then A x y XOR round_constant i else A x y)"

abbreviation lanes :: "u64 list \<Rightarrow> nat \<Rightarrow> nat \<Rightarrow> u64" where
  "lanes r x y \<equiv> r ! (x + 5 * y)"

abbreviation of_lanes :: "(nat \<Rightarrow> nat \<Rightarrow> u64) \<Rightarrow> u64 list" where
  "of_lanes A \<equiv> map (\<lambda>k. A (k mod 5) (k div 5)) [0..<25]"

lemma lanes_of_lanes: "x < 5 \<Longrightarrow> y < 5 \<Longrightarrow> lanes (of_lanes A) x y = A x y"
  by simp

lemma rol64_rotl:
  assumes "0 < b" "b < 64"
  shows "rol64 a b = word_rotl b a"
proof (rule bit_word_eqI)
  fix n assume n: "n < LENGTH(64)"
  have lo: "(n + (64 - b)) mod 64 = (if n < b then n + 64 - b else n - b)"
    using assms n by (auto simp: le_mod_geq)
  have hi: "\<not> bit a (n + 64 - b)" if "b \<le> n"
    using that bit_imp_le_length [of a "n + 64 - b"] by auto
  have "bit (rol64 a b) n \<longleftrightarrow> (b \<le> n \<and> bit a (n - b)) \<noteq> bit a (n + 64 - b)"
    using assms n by (simp add: rol64_def bit_simps add.commute [of _ n])
  moreover have "bit (word_rotl b a) n \<longleftrightarrow> bit a (if n < b then n + 64 - b else n - b)"
    using assms n lo by (simp add: bit_word_rotl_iff)
  ultimately show "bit (rol64 a b) n = bit (word_rotl b a) n"
    using hi by auto
qed

lemma word_rotl_0: "word_rotl 0 (w :: 'a::len word) = w"
  by (auto intro!: bit_word_eqI simp: bit_word_rotl_iff)

lemma upt_25: "[0..<25] = [0, 1, 2, 3, 4, 5, 6, 7, 8, 9, 10, 11, 12, 13, 14, 15, 16, 17, 18, 19, 20, 21, 22,
    23, 24 :: nat]"
  by (simp add: upt_rec)

lemma upt_5: "[0..<5] = [0, 1, 2, 3, 4 :: nat]" and upt_24: "[Suc 0..<25] = [1, 2, 3, 4, 5, 6, 7, 8, 9, 10, 11,
    12, 13, 14, 15, 16, 17, 18, 19, 20, 21, 22, 23, 24 :: nat]"
  by (simp_all add: upt_rec)

lemma nat_Suc2: "Suc (Suc 0) = 2"
  by simp

lemma keccakTheta_fips: "keccakTheta r = of_lanes (fips_theta (lanes r))"
  by (simp add: keccakTheta_def fips_theta_def upt_25 upt_5 rol64_rotl Let_def xor.assoc nat_Suc2)

lemma rho_offset_table: "rho_offset (k mod 5) (k div 5) = keccak_rho ! k" if "k < 25"
proof -
  have "map (\<lambda>k. rho_offset (k mod 5) (k div 5)) [0..<25] = keccak_rho"
    by code_simp
  then show ?thesis
    using that by (metis (no_types, lifting) add_0 diff_zero length_upt nth_map nth_upt)
qed

lemma keccakRho_fips: "keccakRho r = of_lanes (fips_rho (lanes r))"
proof -
  have "keccakRho r = map (\<lambda>k. word_rotl (keccak_rho ! k) (r ! k)) [0..<25]"
    by (simp add: keccakRho_def upt_25 upt_24 rol64_rotl keccak_rho_def word_rotl_0 nat_Suc2)
  then show ?thesis
    by (simp add: fips_rho_def rho_offset_table)
qed

lemma length_25_cases:
  assumes "length (r :: 'a list) = 25"
  shows "r = map ((!) r) [0..<25]"
  by (metis assms map_nth)

lemma keccakPi_fips:
  assumes "length r = 25"
  shows "keccakPi r = of_lanes (fips_pi (lanes r))"
  unfolding fips_pi_def
  by (subst (1) length_25_cases [OF assms]) (simp add: keccakPi_def keccak_moves_def upt_25 Let_def nat_Suc2)

lemma keccakChi_fips:
  assumes "length r = 25"
  shows "keccakChi r = of_lanes (fips_chi (lanes r))"
  unfolding fips_chi_def
  by (subst (1) length_25_cases [OF assms]) (simp add: keccakChi_def keccakChiRow_def upt_25 Let_def nat_Suc2)

lemma lfsr_run_numeral:
  "lfsr_run (numeral k) [a, b, c, d, e, f, g, h] =
     a # lfsr_run (pred_numeral k) [h, a, b, c, d \<noteq> h, e \<noteq> h, f \<noteq> h, g]"
  by (simp add: numeral_eq_Suc [of k] lfsr_next_def)

lemma rc_bits_table: "rc_bits =
   [True, False, False, False, False, False, False, False, True, False, True, True, False, False, False,
    True, True, True, True, False, True, False, False, False, False, True, True, True, True, True, True,
    True, True, False, False, True, False, False, False, False, True, False, True, False, False, True,
    True, True, True, True, False, True, False, True, False, True, False, True, True, True, False,
    False, False, False, False, True, True, False, False, False, True, False, True, False, True, True,
    False, False, True, True, False, False, True, False, True, True, True, True, True, True, False,
    True, True, True, True, False, False, True, True, False, True, True, True, False, True, True, True,
    False, False, True, False, True, False, True, False, False, True, False, True, False, False, False,
    True, False, False, True, False, True, True, False, True, False, False, False, True, True, False,
    False, True, True, True, False, False, True, True, True, True, False, False, False, True, True,
    False, True, True, False, False, False, False, True, False, False, False, True, False, True, True,
    True]"
  by (simp add: rc_bits_def lfsr_run_numeral)

lemma upt_7: "[0..<7] = [0, 1, 2, 3, 4, 5, 6 :: nat]"
  by (simp add: upt_rec)

lemma round_constants: "i < 24 \<Longrightarrow> round_constant i = keccak_k ! i"
proof -
  have "[0..<24] = [0, 1, 2, 3, 4, 5, 6, 7, 8, 9, 10, 11, 12, 13, 14, 15, 16, 17, 18, 19, 20, 21, 22, 23]"
    by (simp add: upt_rec)
  then have "map round_constant [0..<24] = keccak_k"
    by (simp add: round_constant_def rc_bits_table upt_7 keccak_k_def)
  then show "i < 24 \<Longrightarrow> round_constant i = keccak_k ! i"
    by (metis (no_types, lifting) add_0 diff_zero length_upt nth_map nth_upt)
qed

text \<open>
  A round of the code's Keccak permutation, with its in-place lane moves and its tables of
  rotation amounts and round constants, is the composition theta, rho, pi, chi, iota of FIPS 202 on
  the 5 by 5 lanes, where the rotation amounts and the constants are those the standard derives.\<close>

theorem keccak_round_is_fips_202:
  assumes "length r = 25" and "i < 24"
  shows "keccakRound r i = of_lanes (fips_iota i (fips_chi (fips_pi (fips_rho (fips_theta (lanes r))))))"
proof -
  have rho: "of_lanes (fips_rho (lanes (of_lanes A))) = of_lanes (fips_rho A)"
    and pi: "of_lanes (fips_pi (lanes (of_lanes A))) = of_lanes (fips_pi A)" for A
    by (simp_all add: fips_rho_def fips_pi_def)
  have chi: "of_lanes (fips_chi (lanes (of_lanes A))) = of_lanes (fips_chi A)" for A
    by (intro map_cong refl) (simp add: fips_chi_def lanes_of_lanes less_mult_imp_div_less)
  have "keccakChi (keccakPi (keccakRho (keccakTheta r))) =
      of_lanes (fips_chi (fips_pi (fips_rho (fips_theta (lanes r)))))"
    by (simp only: keccakTheta_fips keccakRho_fips rho keccakPi_fips keccakChi_fips pi chi
        length_map length_upt diff_zero)
  then show ?thesis
    using assms by (simp add: keccakRound_def fips_iota_def round_constants upt_25)
qed

theorem keccak_round_is_fips_202_witness:
  "keccakRound (replicate 25 0) 1 ! 0 =
     of_lanes (fips_iota 1 (fips_chi (fips_pi (fips_rho (fips_theta (lanes (replicate 25 0))))))) ! 0"
  by (subst keccak_round_is_fips_202) simp_all

end
