(* ===== verification/Poly1305.thy ===== *)
theory Poly1305
  imports Hashes
begin

text \<open>
  The Poly1305 authenticator of \<open>src/BRCrypto.c\<close>, limb by limb, and its equivalence with the
  polynomial evaluation of RFC 7539 modulo 2^130 - 5.  The accumulator \<open>h\<close> is five 32-bit limbs in
  radix 2^26; the products are 64-bit words.
\<close>

unbundle bit_operations_syntax

type_synonym limbs = "u32 \<times> u32 \<times> u32 \<times> u32 \<times> u32"

section \<open>The code\<close>

text \<open>The clamped key: \<open>r &= 0xffffffc0ffffffc0ffffffc0fffffff\<close> cut into limbs.\<close>

definition polyR :: "bytes \<Rightarrow> limbs" where
  "polyR key32 =
     (let t0 = le32_at key32 0; t1 = le32_at key32 1; t2 = le32_at key32 2; t3 = le32_at key32 3
      in (t0 AND 0x03ffffff,
          (drop_bit 26 t0 OR push_bit 6 t1) AND 0x03ffff03,
          (drop_bit 20 t1 OR push_bit 12 t2) AND 0x03ffc0ff,
          (drop_bit 14 t2 OR push_bit 18 t3) AND 0x03f03fff,
          drop_bit 8 t3 AND 0x000fffff))"

text \<open>\<open>h += x\<close> for a block \<open>x\<close> of 16 bytes; \<open>full\<close> is \<open>i + 16 <= len\<close>.\<close>

definition polyAdd :: "limbs \<Rightarrow> bytes \<Rightarrow> bool \<Rightarrow> limbs" where
  "polyAdd = (\<lambda>(h0, h1, h2, h3, h4) x full.
     let t0 = le32_at x 0; t1 = le32_at x 1; t2 = le32_at x 2; t3 = le32_at x 3
     in (h0 + (t0 AND 0x03ffffff),
         h1 + ((drop_bit 26 t0 OR push_bit 6 t1) AND 0x03ffffff),
         h2 + ((drop_bit 20 t1 OR push_bit 12 t2) AND 0x03ffffff),
         h3 + ((drop_bit 14 t2 OR push_bit 18 t3) AND 0x03ffffff),
         h4 + (drop_bit 8 t3 OR (if full then 0x1000000 else 0))))"

text \<open>\<open>h *= r\<close>: the five 64-bit sums of products.\<close>

definition polyMul :: "limbs \<Rightarrow> limbs \<Rightarrow> u64 \<times> u64 \<times> u64 \<times> u64 \<times> u64" where
  "polyMul = (\<lambda>(h0, h1, h2, h3, h4) (r0, r1, r2, r3, r4).
     let m = (\<lambda>a b. (ucast a :: u64) * ucast b)
     in (m h0 r0 + m h1 r4 * 5 + m h2 r3 * 5 + m h3 r2 * 5 + m h4 r1 * 5,
         m h0 r1 + m h1 r0 + m h2 r4 * 5 + m h3 r3 * 5 + m h4 r2 * 5,
         m h0 r2 + m h1 r1 + m h2 r0 + m h3 r4 * 5 + m h4 r3 * 5,
         m h0 r3 + m h1 r2 + m h2 r1 + m h3 r0 + m h4 r4 * 5,
         m h0 r4 + m h1 r3 + m h2 r2 + m h3 r1 + m h4 r0))"

text \<open>The partial reduction; \<open>carry d\<close> is \<open>(uint32_t)(d >> 26)\<close> and \<open>low d\<close> is \<open>d & 0x03ffffff\<close> stored
  in a 32-bit limb.\<close>

definition carry :: "u64 \<Rightarrow> u32" where "carry d = ucast (drop_bit 26 d)"
definition low :: "u64 \<Rightarrow> u32" where "low d = ucast (d AND 0x03ffffff)"

definition polyReduce :: "u64 \<times> u64 \<times> u64 \<times> u64 \<times> u64 \<Rightarrow> limbs" where
  "polyReduce = (\<lambda>(d0, d1, d2, d3, d4).
     let d1 = d1 + ucast (carry d0); h1 = low d1; d2 = d2 + ucast (carry d1); h2 = low d2;
         d3 = d3 + ucast (carry d2); h3 = low d3; d4 = d4 + ucast (carry d3); h4 = low d4;
         h0 = ucast (d0 AND 0x03ffffff) + carry d4 * 5;
         h1 = h1 + drop_bit 26 h0; h0 = h0 AND 0x03ffffff
     in (h0, h1, h2, h3, h4))"

definition polyBlock :: "limbs \<Rightarrow> limbs \<Rightarrow> bytes \<Rightarrow> bool \<Rightarrow> limbs" where
  "polyBlock r h x full = polyReduce (polyMul (polyAdd h x full) r)"

text \<open>The loop over 16-byte blocks; a short last block is followed by the byte 1 and zeros.\<close>

function polyLoop :: "limbs \<Rightarrow> bytes \<Rightarrow> nat \<Rightarrow> limbs \<Rightarrow> limbs" where
  "polyLoop r data i h =
     (if i < length data then
        polyLoop r data (i + 16)
          (if i + 16 > length data
           then polyBlock r h (drop i data @ [1] @ replicate (16 - (length data - i) - 1) 0) False
           else polyBlock r h (take 16 (drop i data)) True)
      else h)"
  by pat_completeness auto
termination by (relation "measure (\<lambda>(r, data, i, h). length data - i)") auto

declare polyLoop.simps [simp del]

text \<open>The final part: carry, select \<open>h\<close> or \<open>h - p\<close>, repack in radix 2^32, add the pad.\<close>

definition polyCarry :: "limbs \<Rightarrow> limbs" where
  "polyCarry = (\<lambda>(h0, h1, h2, h3, h4).
     let m = 0x03ffffff;
         h2 = h2 + drop_bit 26 h1; h1 = h1 AND m; h3 = h3 + drop_bit 26 h2; h2 = h2 AND m;
         h4 = h4 + drop_bit 26 h3; h3 = h3 AND m; h0 = h0 + drop_bit 26 h4 * 5; h4 = h4 AND m;
         h1 = h1 + drop_bit 26 h0; h0 = h0 AND m
     in (h0, h1, h2, h3, h4))"

definition polyMinusP :: "limbs \<Rightarrow> limbs" where
  "polyMinusP = (\<lambda>(h0, h1, h2, h3, h4).
     let m = 0x03ffffff;
         t0 = h0 + 5; t1 = h1 + drop_bit 26 t0; t0 = t0 AND m; t2 = h2 + drop_bit 26 t1; t1 = t1 AND m;
         t3 = h3 + drop_bit 26 t2; t2 = t2 AND m; t4 = h4 + drop_bit 26 t3 - push_bit 26 1; t3 = t3 AND m
     in (t0, t1, t2, t3, t4))"

definition polySelect :: "limbs \<Rightarrow> limbs \<Rightarrow> limbs" where
  "polySelect = (\<lambda>(h0, h1, h2, h3, h4) (t0, t1, t2, t3, t4).
     let b = drop_bit 31 t4 - 1; s = (\<lambda>h t. (h AND NOT b) OR (t AND b))
     in (s h0 t0, s h1 t1, s h2 t2, s h3 t3, s h4 t4))"

definition polyPack :: "limbs \<Rightarrow> u32 \<times> u32 \<times> u32 \<times> u32" where
  "polyPack = (\<lambda>(h0, h1, h2, h3, h4).
     (h0 OR push_bit 26 h1, drop_bit 6 h1 OR push_bit 20 h2, drop_bit 12 h2 OR push_bit 14 h3,
      drop_bit 18 h3 OR push_bit 8 h4))"

definition polyPad :: "bytes \<Rightarrow> u32 \<times> u32 \<times> u32 \<times> u32 \<Rightarrow> bytes" where
  "polyPad key32 = (\<lambda>(h0, h1, h2, h3).
     let d0 = (ucast h0 :: u64) + ucast (le32_at (drop 16 key32) 0);
         d1 = (ucast h1 :: u64) + ucast (le32_at (drop 16 key32) 1) + drop_bit 32 d0;
         d2 = (ucast h2 :: u64) + ucast (le32_at (drop 16 key32) 2) + drop_bit 32 d1;
         d3 = (ucast h3 :: u64) + ucast (le32_at (drop 16 key32) 3) + drop_bit 32 d2
     in put_le 4 (ucast d0 :: u32) @ put_le 4 (ucast d1 :: u32) @ put_le 4 (ucast d2 :: u32) @
        put_le 4 (ucast d3 :: u32))"

text \<open>\<open>_BRPoly1305Compress\<close> without and with \<open>final\<close>; in the second case the first 16 bytes of \<open>h\<close> in
  memory are the tag.\<close>

definition BRPoly1305Compress :: "limbs \<Rightarrow> bytes \<Rightarrow> bytes \<Rightarrow> limbs" where
  "BRPoly1305Compress h key32 data = polyLoop (polyR key32) data 0 h"

definition BRPoly1305Final :: "limbs \<Rightarrow> bytes \<Rightarrow> bytes \<Rightarrow> bytes" where
  "BRPoly1305Final h key32 data =
     (let h = polyCarry (BRPoly1305Compress h key32 data)
      in polyPad key32 (polyPack (polySelect h (polyMinusP h))))"

definition BRPoly1305 :: "bytes \<Rightarrow> bytes \<Rightarrow> bytes" where
  "BRPoly1305 key32 data = BRPoly1305Final (0, 0, 0, 0, 0) key32 data"

section \<open>Numbers and words\<close>

text \<open>The little-endian number a byte string writes.\<close>

fun le_num :: "bytes \<Rightarrow> nat" where
  "le_num [] = 0"
| "le_num (b # bs) = unat b + 256 * le_num bs"

lemma le_num_append: "le_num (xs @ ys) = le_num xs + 256 ^ length xs * le_num ys"
  by (induction xs) (auto simp: algebra_simps)

lemma le_num_zeros [simp]: "le_num (replicate n 0) = 0"
  by (induction n) auto

lemma byte_less: "unat (b :: u8) < 256"
  using unsigned_less [of b, where ?'a = nat] by simp

lemma le_num_less: "le_num xs < 256 ^ length xs"
proof (induction xs)
  case (Cons x xs)
  have "unat x + 256 * le_num xs < 256 * (le_num xs + 1)"
    using byte_less [of x] by simp
  also have "\<dots> \<le> 256 * 256 ^ length xs"
    using Cons by simp
  finally show ?case by simp
qed simp

lemma nat_bit_small: "u < 2 ^ k \<Longrightarrow> k \<le> n \<Longrightarrow> \<not> bit (u :: nat) n"
  using less_le_trans [of u "2 ^ k" "2 ^ n"] by (simp add: bit_iff_odd)

lemma power_256: "8 \<le> L \<Longrightarrow> (2 ^ L :: nat) = 256 * 2 ^ (L - 8)"
  using power_add [of "2::nat" 8 "L - 8"] by simp

lemma mult_256_mod: "8 \<le> L \<Longrightarrow> 256 * (x mod 2 ^ (L - 8)) = (256 * x) mod (2 ^ L :: nat)"
  by (simp only: power_256 mult_mod_right)

lemma or_shift:
  fixes a b :: "'a::len word"
  assumes "unat a < 2 ^ k" and "k \<le> LENGTH('a)"
  shows "unat (a OR push_bit k b) = unat a + 2 ^ k * (unat b mod 2 ^ (LENGTH('a) - k))"
proof -
  have lo: "\<not> bit a n" if "k \<le> n" for n
    using nat_bit_small [OF assms(1) that] by (simp add: bit_unsigned_iff)
  have "unat (push_bit k b) = (2 ^ k * unat b) mod 2 ^ LENGTH('a)"
    by (simp add: unsigned_push_bit_eq push_bit_nat_def take_bit_eq_mod mult.commute)
  also have "\<dots> = 2 ^ k * (unat b mod 2 ^ (LENGTH('a) - k))"
    using assms(2) by (simp add: mult_mod_right flip: power_add)
  finally have p: "unat (push_bit k b) = 2 ^ k * (unat b mod 2 ^ (LENGTH('a) - k))" .
  have "unat b mod 2 ^ (LENGTH('a) - k) + 1 \<le> 2 ^ (LENGTH('a) - k)"
    by (simp add: Suc_leI)
  then have "2 ^ k * (unat b mod 2 ^ (LENGTH('a) - k)) + 2 ^ k \<le> 2 ^ k * 2 ^ (LENGTH('a) - k)"
    by (metis add_mult_distrib2 mult.right_neutral mult_le_mono2)
  then have "unat a + unat (push_bit k b) < 2 ^ LENGTH('a)"
    using assms by (simp add: p flip: power_add)
  moreover have "a + push_bit k b = a OR push_bit k b"
    using lo by (intro disjunctive_add) (auto simp: bit_push_bit_iff)
  ultimately show ?thesis
    by (metis p unat_add_lem)
qed

lemma and_split:
  fixes a c x y :: nat
  assumes "a < 2 ^ k" "c < 2 ^ k"
  shows "(a + 2 ^ k * x) AND (c + 2 ^ k * y) = (a AND c) + 2 ^ k * (x AND y)"
proof -
  have plus: "u + 2 ^ k * v = u OR push_bit k v" if "u < 2 ^ k" for u v :: nat
  proof -
    have "u + push_bit k v = u OR push_bit k v"
      using nat_bit_small [OF that] by (intro disjunctive_add) (auto simp: bit_push_bit_iff)
    then show ?thesis
      by (simp add: push_bit_eq_mult mult.commute)
  qed
  have "take_bit k (a AND c) = a AND c"
    using assms by (simp add: take_bit_nat_eq_self)
  then have "a AND c < 2 ^ k"
    by (metis take_bit_nat_less_exp)
  then show ?thesis
    unfolding plus [OF assms(1)] plus [OF assms(2)] plus [OF \<open>a AND c < 2 ^ k\<close>]
    using nat_bit_small [OF assms(1)] nat_bit_small [OF assms(2)] by (intro bit_eqI) (auto simp: bit_simps)
qed

lemma unat_get_le: "unat (get_le bs :: 'a::len word) = le_num bs mod 2 ^ LENGTH('a)" if "8 \<le> LENGTH('a)"
proof (induction bs)
  case (Cons b bs)
  have b: "unat (ucast b :: 'a word) = unat b"
    using that byte_less [of b] power_increasing [of 8 "LENGTH('a)" "2::nat"]
    by (simp add: unsigned_ucast_eq take_bit_eq_mod)
  have "unat (ucast b OR push_bit 8 (get_le bs) :: 'a word) =
      unat b + 2 ^ 8 * (unat (get_le bs :: 'a word) mod 2 ^ (LENGTH('a) - 8))"
    using that byte_less [of b] by (subst or_shift) (auto simp: b)
  also have "\<dots> = unat b + 256 * le_num bs mod 2 ^ LENGTH('a)"
  proof -
    have "unat (get_le bs :: 'a word) mod 2 ^ (LENGTH('a) - 8) = le_num bs mod 2 ^ (LENGTH('a) - 8)"
      unfolding Cons.IH by (rule mod_mod_cancel) (simp add: le_imp_power_dvd)
    then show ?thesis
      using mult_256_mod [OF that, of "le_num bs"] by simp
  qed
  also have "\<dots> = (unat b + 256 * le_num bs) mod 2 ^ LENGTH('a)"
  proof -
    have "256 * le_num bs mod 2 ^ LENGTH('a) = 256 * (le_num bs mod 2 ^ (LENGTH('a) - 8))"
      using mult_256_mod [OF that, of "le_num bs"] by simp
    moreover have "le_num bs mod 2 ^ (LENGTH('a) - 8) + 1 \<le> 2 ^ (LENGTH('a) - 8)"
      by (simp add: Suc_leI)
    then have "256 * (le_num bs mod 2 ^ (LENGTH('a) - 8)) + 256 \<le> 2 ^ 8 * 2 ^ (LENGTH('a) - 8)"
      by simp
    ultimately have "unat b + 256 * le_num bs mod 2 ^ LENGTH('a) < 2 ^ LENGTH('a)"
      using byte_less [of b] power_256 [OF that] by simp
    then show ?thesis
      by (metis mod_add_right_eq mod_less)
  qed
  finally show ?case by simp
qed simp

lemma le_num_put_le: "le_num (put_le k w) = unat w mod 256 ^ k" for w :: "'a::len word"
proof (induction k)
  case (Suc k)
  have "put_le (Suc k) w = put_le k w @ [ucast (drop_bit (8 * k) w)]"
    by (simp add: put_le_def)
  moreover have "unat (ucast (drop_bit (8 * k) w) :: u8) = unat w div 256 ^ k mod 256"
    by (simp add: unsigned_ucast_eq take_bit_eq_mod unsigned_drop_bit_eq drop_bit_nat_def power_mult)
  ultimately show ?case
    using Suc by (simp add: le_num_append mod_mult2_eq mult.commute [of 256])
qed (simp add: put_le_def)

section \<open>Limbs\<close>

fun lval :: "limbs \<Rightarrow> nat" where
  "lval (h0, h1, h2, h3, h4) =
     unat h0 + 2 ^ 26 * unat h1 + 2 ^ 52 * unat h2 + 2 ^ 78 * unat h3 + 2 ^ 104 * unat h4"

lemma le_num_words:
  assumes "length x = 16"
  shows "le_num x = unat (le32_at x 0) + 2 ^ 32 * unat (le32_at x 1) + 2 ^ 64 * unat (le32_at x 2) +
    2 ^ 96 * unat (le32_at x 3)"
proof -
  have w: "unat (le32_at x i) = le_num (take 4 (drop (4 * i) x))" for i
    using le_num_less [of "take 4 (drop (4 * i) x)"] power_increasing [of "length (take 4 (drop (4 * i) x))" 4 "256::nat"]
    by (simp add: le32_at_def unat_get_le)
  have "drop 12 x = take 4 (drop 12 x)"
    using assms by simp
  then have "x = take 4 (drop (4 * 0) x) @ take 4 (drop (4 * 1) x) @ take 4 (drop (4 * 2) x) @ take 4 (drop (4 * 3) x)"
    using append_take_drop_id [of 4 x] append_take_drop_id [of 4 "drop 4 x"]
      append_take_drop_id [of 4 "drop 8 x"] by simp
  then have "le_num x = le_num (take 4 (drop (4 * 0) x) @ take 4 (drop (4 * 1) x) @
      take 4 (drop (4 * 2) x) @ take 4 (drop (4 * 3) x))"
    by simp
  then show ?thesis
    unfolding le_num_append w using assms by simp
qed

lemma unat_and_26: "unat (w AND 0x3ffffff :: u32) = unat w mod 2 ^ 26"
  "unat (d AND 0x3ffffff :: u64) = unat d mod 2 ^ 26"
proof -
  have "(0x3ffffff :: u32) = mask 26" "(0x3ffffff :: u64) = mask 26"
    by (simp_all add: mask_eq_exp_minus_1)
  then show "unat (w AND 0x3ffffff :: u32) = unat w mod 2 ^ 26" "unat (d AND 0x3ffffff :: u64) = unat d mod 2 ^ 26"
    by (metis take_bit_eq_mask unsigned_take_bit_eq take_bit_nat_def)+
qed

lemma mod_split: "A < 2 ^ k \<Longrightarrow> k \<le> n \<Longrightarrow> (A + 2 ^ k * y) mod 2 ^ n = A + 2 ^ k * (y mod 2 ^ (n - k))"
  for A y :: nat
proof -
  assume A: "A < 2 ^ k" and "k \<le> n"
  then have p: "(2 ^ n :: nat) = 2 ^ k * 2 ^ (n - k)"
    by (simp flip: power_add)
  have "A + 2 ^ k * (y mod 2 ^ (n - k)) < 2 ^ k * (y mod 2 ^ (n - k) + 1)"
    using A by simp
  also have "\<dots> \<le> 2 ^ k * 2 ^ (n - k)"
    by (intro mult_le_mono2) (simp add: Suc_leI)
  finally have "A + 2 ^ k * (y mod 2 ^ (n - k)) < 2 ^ n"
    by (simp add: p)
  then show ?thesis
    by (metis mod_add_right_eq mod_less mult_mod_right p)
qed

lemma limb_mid:
  fixes t u :: u32
  assumes "k \<le> 26"
  shows "unat (drop_bit (32 - k) t OR push_bit k u) mod 2 ^ 26 =
    unat t div 2 ^ (32 - k) + 2 ^ k * (unat u mod 2 ^ (26 - k))"
proof -
  let ?A = "unat t div 2 ^ (32 - k)"
  have A: "unat (drop_bit (32 - k) t) = ?A"
    by (simp add: unat_drop_bit_eq drop_bit_nat_def)
  have "?A < 2 ^ k"
    using unsigned_less [of t, where ?'a = nat] assms
    by (simp add: less_mult_imp_div_less flip: power_add)
  moreover have "unat u mod 2 ^ (32 - k) mod 2 ^ (26 - k) = unat u mod 2 ^ (26 - k)"
    by (rule mod_mod_cancel) (simp add: le_imp_power_dvd)
  ultimately show ?thesis
    using assms mod_split [of ?A k 26 "unat u mod 2 ^ (32 - k)"] or_shift [of "drop_bit (32 - k) t" k u]
    by (simp add: A)
qed

lemmas limb_mids = limb_mid [of 6, simplified] limb_mid [of 12, simplified] limb_mid [of 18, simplified]

text \<open>The four words of a block cut into five limbs.\<close>

definition polyLimbs :: "bytes \<Rightarrow> limbs" where
  "polyLimbs x =
     (let t0 = le32_at x 0; t1 = le32_at x 1; t2 = le32_at x 2; t3 = le32_at x 3
      in (t0 AND 0x03ffffff, (drop_bit 26 t0 OR push_bit 6 t1) AND 0x03ffffff,
          (drop_bit 20 t1 OR push_bit 12 t2) AND 0x03ffffff, (drop_bit 14 t2 OR push_bit 18 t3) AND 0x03ffffff,
          drop_bit 8 t3))"

lemma limbs_regroup:
  fixes t0 :: nat
  assumes "t0 = 2 ^ 26 * a0 + b0" "t1 = 2 ^ 20 * a1 + b1" "t2 = 2 ^ 14 * a2 + b2" "t3 = 2 ^ 8 * a3 + b3"
  shows "b0 + 2 ^ 26 * (a0 + 2 ^ 6 * b1) + 2 ^ 52 * (a1 + 2 ^ 12 * b2) + 2 ^ 78 * (a2 + 2 ^ 18 * b3) + 2 ^ 104 * a3
    = t0 + 2 ^ 32 * t1 + 2 ^ 64 * t2 + 2 ^ 96 * t3"
  unfolding assms by (simp add: algebra_simps)

lemma lval_polyLimbs:
  assumes "length x = 16"
  shows "lval (polyLimbs x) = le_num x"
proof -
  let ?t = "\<lambda>i. unat (le32_at x i)"
  have "lval (polyLimbs x) = ?t 0 mod 2 ^ 26 + 2 ^ 26 * (?t 0 div 2 ^ 26 + 2 ^ 6 * (?t 1 mod 2 ^ 20)) +
      2 ^ 52 * (?t 1 div 2 ^ 20 + 2 ^ 12 * (?t 2 mod 2 ^ 14)) +
      2 ^ 78 * (?t 2 div 2 ^ 14 + 2 ^ 18 * (?t 3 mod 2 ^ 8)) + 2 ^ 104 * (?t 3 div 2 ^ 8)"
    by (simp add: polyLimbs_def Let_def limb_mids unat_and_26 unat_drop_bit_eq [where n = 8] drop_bit_nat_def)
  also have "\<dots> = le_num x"
    unfolding le_num_words [OF assms] by (rule limbs_regroup) simp_all
  finally show ?thesis .
qed

definition limbs_lt :: "nat \<Rightarrow> nat \<Rightarrow> limbs \<Rightarrow> bool" where
  "limbs_lt b1 b = (\<lambda>(h0, h1, h2, h3, h4). unat h0 < b \<and> unat h1 < b1 \<and> unat h2 < b \<and> unat h3 < b \<and> unat h4 < b)"

lemma polyLimbs_lt: "limbs_lt (2 ^ 26) (2 ^ 26) (polyLimbs x)" "unat (drop_bit 8 (le32_at x 3)) < 2 ^ 24"
proof -
  have "unat (le32_at x 3) < 2 ^ 32"
    using unsigned_less [of "le32_at x 3", where ?'a = nat] by simp
  then show *: "unat (drop_bit 8 (le32_at x 3)) < 2 ^ 24"
    by (simp add: unat_drop_bit_eq drop_bit_nat_def less_mult_imp_div_less)
  then show "limbs_lt (2 ^ 26) (2 ^ 26) (polyLimbs x)"
    by (simp add: limbs_lt_def polyLimbs_def Let_def unat_and_26)
qed

section \<open>One block\<close>

definition P1305 :: nat where "P1305 = 2 ^ 130 - 5"

text \<open>The state between blocks: limbs below 2^26, but for the second, which may carry a little more.\<close>

abbreviation limbs_ok :: "limbs \<Rightarrow> bool" where
  "limbs_ok \<equiv> limbs_lt (2 ^ 26 + 64) (2 ^ 26)"

definition rkey_ok :: "limbs \<Rightarrow> bool" where
  "rkey_ok = (\<lambda>(r0, r1, r2, r3, r4).
     unat r0 < 2 ^ 26 \<and> unat r1 < 2 ^ 26 \<and> unat r2 < 2 ^ 26 \<and> unat r3 < 2 ^ 26 \<and> unat r4 < 2 ^ 20)"

lemma polyAdd_lval:
  assumes "limbs_ok h" and "length x = 16"
  shows "lval (polyAdd h x full) = lval h + le_num x + (if full then 2 ^ 128 else 0)"
    and "limbs_lt (2 ^ 27 + 64) (2 ^ 27) (polyAdd h x full)"
proof -
  obtain h0 h1 h2 h3 h4 where h: "h = (h0, h1, h2, h3, h4)" by (cases h)
  obtain l0 l1 l2 l3 l4 where l: "polyLimbs x = (l0, l1, l2, l3, l4)" by (cases "polyLimbs x")
  let ?m = "l4 OR (if full then 0x1000000 else 0)"
  have add: "polyAdd h x full = (h0 + l0, h1 + l1, h2 + l2, h3 + l3, h4 + ?m)"
    using l by (simp add: h polyAdd_def polyLimbs_def Let_def)
  have hb: "unat h0 < 2 ^ 26" "unat h1 < 2 ^ 26 + 64" "unat h2 < 2 ^ 26" "unat h3 < 2 ^ 26" "unat h4 < 2 ^ 26"
    using assms(1) by (simp_all add: h limbs_lt_def)
  have l4: "unat l4 < 2 ^ 24"
    using polyLimbs_lt(2) [of x] l by (simp add: polyLimbs_def Let_def)
  have lb: "unat l0 < 2 ^ 26" "unat l1 < 2 ^ 26" "unat l2 < 2 ^ 26" "unat l3 < 2 ^ 26"
    using polyLimbs_lt(1) [of x] by (simp_all add: l limbs_lt_def)
  have m: "unat ?m = unat l4 + (if full then 2 ^ 24 else 0)"
    using or_shift [of l4 24 1] l4 by simp
  have s: "unat (h0 + l0) = unat h0 + unat l0" "unat (h1 + l1) = unat h1 + unat l1"
    "unat (h2 + l2) = unat h2 + unat l2" "unat (h3 + l3) = unat h3 + unat l3"
    "unat (h4 + ?m) = unat h4 + unat ?m"
    using hb lb l4 m by (intro unat_plus_small; simp; linarith)+
  have "lval (polyLimbs x) = le_num x"
    by (rule lval_polyLimbs [OF assms(2)])
  then show "lval (polyAdd h x full) = lval h + le_num x + (if full then 2 ^ 128 else 0)"
    unfolding add using m by (simp add: s l h algebra_simps split del: if_split) simp
  show "limbs_lt (2 ^ 27 + 64) (2 ^ 27) (polyAdd h x full)"
    unfolding add limbs_lt_def using s m hb lb l4 by simp
qed

lemma unat_ucast_32_64: "unat (ucast a :: u64) = unat a" for a :: u32
  using unsigned_less [of a, where ?'a = nat] by (simp add: unsigned_ucast_eq take_bit_nat_eq_self)

lemma unat_mult_64: "unat ((ucast a :: u64) * ucast b) = unat a * unat b" for a b :: u32
proof -
  have "unat a * unat b < 2 ^ 32 * 2 ^ 32"
    using unsigned_less [of a, where ?'a = nat] unsigned_less [of b, where ?'a = nat]
    by (intro mult_strict_mono) auto
  then show ?thesis
    by (simp add: unat_ucast_32_64 unat_mult_lem [THEN iffD1])
qed

text \<open>A sum of five products, each multiplied by one or by five, does not wrap.\<close>

lemma unat_mult_5: "unat d < 2 ^ 61 \<Longrightarrow> unat (d * 5) = 5 * unat d" for d :: u64
  using unat_mult_lem [of d 5] by simp

lemma mult_bound: "a < x \<Longrightarrow> b < y \<Longrightarrow> a * b \<le> x * y" for a b x y :: nat
  by (intro mult_le_mono) auto

fun dval :: "u64 \<times> u64 \<times> u64 \<times> u64 \<times> u64 \<Rightarrow> nat" where
  "dval (d0, d1, d2, d3, d4) =
     unat d0 + 2 ^ 26 * unat d1 + 2 ^ 52 * unat d2 + 2 ^ 78 * unat d3 + 2 ^ 104 * unat d4"

lemma mul_mod_p:
  fixes h0 :: nat
  shows "(h0 + 2 ^ 26 * h1 + 2 ^ 52 * h2 + 2 ^ 78 * h3 + 2 ^ 104 * h4) *
      (r0 + 2 ^ 26 * r1 + 2 ^ 52 * r2 + 2 ^ 78 * r3 + 2 ^ 104 * r4) =
    (h0 * r0 + 5 * (h1 * r4) + 5 * (h2 * r3) + 5 * (h3 * r2) + 5 * (h4 * r1)) +
    2 ^ 26 * (h0 * r1 + h1 * r0 + 5 * (h2 * r4) + 5 * (h3 * r3) + 5 * (h4 * r2)) +
    2 ^ 52 * (h0 * r2 + h1 * r1 + h2 * r0 + 5 * (h3 * r4) + 5 * (h4 * r3)) +
    2 ^ 78 * (h0 * r3 + h1 * r2 + h2 * r1 + h3 * r0 + 5 * (h4 * r4)) +
    2 ^ 104 * (h0 * r4 + h1 * r3 + h2 * r2 + h3 * r1 + h4 * r0) +
    P1305 * ((h1 * r4 + h2 * r3 + h3 * r2 + h4 * r1) + 2 ^ 26 * (h2 * r4 + h3 * r3 + h4 * r2) +
      2 ^ 52 * (h3 * r4 + h4 * r3) + 2 ^ 78 * (h4 * r4))"
  by (simp add: P1305_def algebra_simps)

lemma unat_sum_5:
  fixes a b c d e :: u64
  assumes "unat a < 2 ^ 60" "unat b < 2 ^ 60" "unat c < 2 ^ 60" "unat d < 2 ^ 60" "unat e < 2 ^ 60"
  shows "unat (a + b + c + d + e) = unat a + unat b + unat c + unat d + unat e"
proof -
  have "unat (a + b) = unat a + unat b"
    using assms by (intro unat_plus_small) simp
  moreover from this have "unat (a + b + c) = unat a + unat b + unat c"
    using assms by (subst unat_plus_small) auto
  moreover from this have "unat (a + b + c + d) = unat a + unat b + unat c + unat d"
    using assms by (subst unat_plus_small) auto
  ultimately show ?thesis
    using assms by (subst unat_plus_small) auto
qed

text \<open>What a product of limbs and five times it are as numbers.\<close>

lemma limb_product:
  fixes a b :: u32
  assumes "unat a < 2 ^ 27 + 64" "unat b < 2 ^ 26"
  shows "unat ((ucast a :: u64) * ucast b) = unat a * unat b"
    and "unat ((ucast a :: u64) * ucast b * 5) = 5 * (unat a * unat b)"
    and "unat a * unat b \<le> 2 ^ 53 + 2 ^ 32"
proof -
  show "unat ((ucast a :: u64) * ucast b) = unat a * unat b"
    by (rule unat_mult_64)
  show le: "unat a * unat b \<le> 2 ^ 53 + 2 ^ 32"
    using mult_bound [OF assms] by simp
  show "unat ((ucast a :: u64) * ucast b * 5) = 5 * (unat a * unat b)"
    using le by (subst unat_mult_5) (simp_all add: unat_mult_64)
qed

lemma small_product: "unat a < 2 ^ 27 + 64 \<Longrightarrow> unat b < 2 ^ 20 \<Longrightarrow> unat a * unat b \<le> 2 ^ 47 + 2 ^ 26"
  for a b :: u32
  using mult_bound [of "unat a" "2 ^ 27 + 64" "unat b" "2 ^ 20"] by simp

definition dval_lt :: "u64 \<times> u64 \<times> u64 \<times> u64 \<times> u64 \<Rightarrow> bool" where
  "dval_lt = (\<lambda>(d0, d1, d2, d3, d4). unat d0 < 2 ^ 58 \<and> unat d1 < 2 ^ 58 - 2 ^ 32 \<and> unat d2 < 2 ^ 58 - 2 ^ 32 \<and>
     unat d3 < 2 ^ 58 - 2 ^ 32 \<and> unat d4 < 2 ^ 55 + 2 ^ 48)"

lemma polyMul_dval:
  assumes "limbs_lt (2 ^ 27 + 64) (2 ^ 27) h" and "rkey_ok r"
  shows "\<exists>Q. lval h * lval r = dval (polyMul h r) + P1305 * Q" and "dval_lt (polyMul h r)"
proof -
  obtain h0 h1 h2 h3 h4 where h: "h = (h0, h1, h2, h3, h4)" by (cases h)
  obtain r0 r1 r2 r3 r4 where r: "r = (r0, r1, r2, r3, r4)" by (cases r)
  have hb: "unat h0 < 2 ^ 27 + 64" "unat h1 < 2 ^ 27 + 64" "unat h2 < 2 ^ 27 + 64" "unat h3 < 2 ^ 27 + 64"
    "unat h4 < 2 ^ 27 + 64"
    using assms(1) by (simp_all add: h limbs_lt_def)
  have rb: "unat r0 < 2 ^ 26" "unat r1 < 2 ^ 26" "unat r2 < 2 ^ 26" "unat r3 < 2 ^ 26" "unat r4 < 2 ^ 26"
    and r4: "unat r4 < 2 ^ 20"
    using assms(2) by (simp_all add: r rkey_ok_def)
  obtain d0 d1 d2 d3 d4 where d: "polyMul h r = (d0, d1, d2, d3, d4)" by (cases "polyMul h r")
  let ?p = "\<lambda>a b. unat a * unat b"
  let ?m = "\<lambda>a b. (ucast a :: u64) * ucast b"
  have dd: "d0 = ?m h0 r0 + ?m h1 r4 * 5 + ?m h2 r3 * 5 + ?m h3 r2 * 5 + ?m h4 r1 * 5"
    "d1 = ?m h0 r1 + ?m h1 r0 + ?m h2 r4 * 5 + ?m h3 r3 * 5 + ?m h4 r2 * 5"
    "d2 = ?m h0 r2 + ?m h1 r1 + ?m h2 r0 + ?m h3 r4 * 5 + ?m h4 r3 * 5"
    "d3 = ?m h0 r3 + ?m h1 r2 + ?m h2 r1 + ?m h3 r0 + ?m h4 r4 * 5"
    "d4 = ?m h0 r4 + ?m h1 r3 + ?m h2 r2 + ?m h3 r1 + ?m h4 r0"
    using d by (simp_all add: h r polyMul_def Let_def)
  have p60: "unat (?m a b) < 2 ^ 60" "unat (?m a b * 5) < 2 ^ 60"
    if "unat a < 2 ^ 27 + 64" "unat b < 2 ^ 26" for a b :: u32
    using limb_product [OF that] by simp_all
  have ud0: "unat d0 = ?p h0 r0 + 5 * (?p h1 r4) + 5 * (?p h2 r3) + 5 * (?p h3 r2) + 5 * (?p h4 r1)"
    unfolding dd
    by (subst unat_sum_5) (intro p60 hb rb | simp only: limb_product(1,2) [OF hb(1)] limb_product(1,2) [OF hb(2)]
        limb_product(1,2) [OF hb(3)] limb_product(1,2) [OF hb(4)] limb_product(1,2) [OF hb(5)] rb)+
  have ud1: "unat d1 = ?p h0 r1 + ?p h1 r0 + 5 * (?p h2 r4) + 5 * (?p h3 r3) + 5 * (?p h4 r2)"
    unfolding dd
    by (subst unat_sum_5) (intro p60 hb rb | simp only: limb_product(1,2) [OF hb(1)] limb_product(1,2) [OF hb(2)]
        limb_product(1,2) [OF hb(3)] limb_product(1,2) [OF hb(4)] limb_product(1,2) [OF hb(5)] rb)+
  have ud2: "unat d2 = ?p h0 r2 + ?p h1 r1 + ?p h2 r0 + 5 * (?p h3 r4) + 5 * (?p h4 r3)"
    unfolding dd
    by (subst unat_sum_5) (intro p60 hb rb | simp only: limb_product(1,2) [OF hb(1)] limb_product(1,2) [OF hb(2)]
        limb_product(1,2) [OF hb(3)] limb_product(1,2) [OF hb(4)] limb_product(1,2) [OF hb(5)] rb)+
  have ud3: "unat d3 = ?p h0 r3 + ?p h1 r2 + ?p h2 r1 + ?p h3 r0 + 5 * (?p h4 r4)"
    unfolding dd
    by (subst unat_sum_5) (intro p60 hb rb | simp only: limb_product(1,2) [OF hb(1)] limb_product(1,2) [OF hb(2)]
        limb_product(1,2) [OF hb(3)] limb_product(1,2) [OF hb(4)] limb_product(1,2) [OF hb(5)] rb)+
  have ud4: "unat d4 = ?p h0 r4 + ?p h1 r3 + ?p h2 r2 + ?p h3 r1 + ?p h4 r0"
    unfolding dd
    by (subst unat_sum_5) (intro p60 hb rb | simp only: limb_product(1,2) [OF hb(1)] limb_product(1,2) [OF hb(2)]
        limb_product(1,2) [OF hb(3)] limb_product(1,2) [OF hb(4)] limb_product(1,2) [OF hb(5)] rb)+
  note ds = ud0 ud1 ud2 ud3 ud4
  have "lval h * lval r = dval (polyMul h r) +
    P1305 * ((?p h1 r4 + ?p h2 r3 + ?p h3 r2 + ?p h4 r1) + 2 ^ 26 * (?p h2 r4 + ?p h3 r3 + ?p h4 r2) +
      2 ^ 52 * (?p h3 r4 + ?p h4 r3) + 2 ^ 78 * (?p h4 r4))"
    unfolding h r d[unfolded h r] lval.simps dval.simps ds by (rule mul_mod_p)
  then show "\<exists>Q. lval h * lval r = dval (polyMul h r) + P1305 * Q" ..
  have le: "?p a b \<le> 2 ^ 53 + 2 ^ 32" if "unat a < 2 ^ 27 + 64" "unat b < 2 ^ 26" for a b :: u32
    using limb_product(3) [OF that] .
  have bd0: "unat d0 < 2 ^ 58"
    using le [OF hb(1) rb(1)] le [OF hb(2) rb(5)] le [OF hb(3) rb(4)] le [OF hb(4) rb(3)] le [OF hb(5) rb(2)] by (simp add: ud0)
  have bd1: "unat d1 < 2 ^ 58 - 2 ^ 32"
    using le [OF hb(1) rb(2)] le [OF hb(2) rb(1)] le [OF hb(3) rb(5)] le [OF hb(4) rb(4)] le [OF hb(5) rb(3)] by (simp add: ud1)
  have bd2: "unat d2 < 2 ^ 58 - 2 ^ 32"
    using le [OF hb(1) rb(3)] le [OF hb(2) rb(2)] le [OF hb(3) rb(1)] le [OF hb(4) rb(5)] le [OF hb(5) rb(4)] by (simp add: ud2)
  have bd3: "unat d3 < 2 ^ 58 - 2 ^ 32"
    using le [OF hb(1) rb(4)] le [OF hb(2) rb(3)] le [OF hb(3) rb(2)] le [OF hb(4) rb(1)] le [OF hb(5) rb(5)] by (simp add: ud3)
  have bd4: "unat d4 < 2 ^ 55 + 2 ^ 48"
    using small_product [OF hb(1) r4] le [OF hb(2) rb(4)] le [OF hb(3) rb(3)] le [OF hb(4) rb(2)] le [OF hb(5) rb(1)] by (simp add: ud4)
  show "dval_lt (polyMul h r)"
    using bd0 bd1 bd2 bd3 bd4 by (simp add: d dval_lt_def)
qed

lemma unat_carry: "unat d < 2 ^ 58 \<Longrightarrow> unat (carry d) = unat d div 2 ^ 26"
  by (simp add: carry_def unsigned_ucast_eq unat_drop_bit_eq drop_bit_nat_def take_bit_nat_def
      less_mult_imp_div_less)

lemma unat_low: "unat (low d) = unat d mod 2 ^ 26"
  by (simp add: low_def unsigned_ucast_eq unat_and_26 take_bit_nat_def)

lemma reduce_regroup:
  fixes d0 :: nat
  assumes "d0 = 2 ^ 26 * q0 + l0" "d1 + q0 = 2 ^ 26 * q1 + l1" "d2 + q1 = 2 ^ 26 * q2 + l2"
    "d3 + q2 = 2 ^ 26 * q3 + l3" "d4 + q3 = 2 ^ 26 * q4 + l4" "l0 + 5 * q4 = 2 ^ 26 * k + h0"
  shows "d0 + 2 ^ 26 * d1 + 2 ^ 52 * d2 + 2 ^ 78 * d3 + 2 ^ 104 * d4 =
    h0 + 2 ^ 26 * (l1 + k) + 2 ^ 52 * l2 + 2 ^ 78 * l3 + 2 ^ 104 * l4 + P1305 * q4"
  using assms by (simp add: P1305_def)

lemma polyReduce_lval:
  assumes "dval_lt d"
  shows "\<exists>Q. dval d = lval (polyReduce d) + P1305 * Q" and "limbs_ok (polyReduce d)"
proof -
  obtain d0 d1 d2 d3 d4 where d: "d = (d0, d1, d2, d3, d4)" by (cases d)
  have b: "unat d0 < 2 ^ 58" "unat d1 < 2 ^ 58 - 2 ^ 32" "unat d2 < 2 ^ 58 - 2 ^ 32" "unat d3 < 2 ^ 58 - 2 ^ 32"
    "unat d4 < 2 ^ 55 + 2 ^ 48"
    using assms by (simp_all add: d dval_lt_def)
  have c32: "unat (carry e) < 2 ^ 32" for e
    using unsigned_less [of "carry e", where ?'a = nat] by simp
  define e1 where "e1 = d1 + ucast (carry d0)"
  define e2 where "e2 = d2 + ucast (carry e1)"
  define e3 where "e3 = d3 + ucast (carry e2)"
  define e4 where "e4 = d4 + ucast (carry e3)"
  define g where "g = (ucast (d0 AND 0x03ffffff) :: u32) + carry e4 * 5"
  have add: "unat (x + ucast (carry y)) = unat x + unat (carry y)" if "unat x < 2 ^ 58" for x y :: u64
    using that c32 [of y] by (subst unat_plus_small) (simp_all add: unat_ucast_32_64)
  have u1: "unat e1 = unat d1 + unat d0 div 2 ^ 26" and s1: "unat e1 < 2 ^ 58"
    using add [of d1 d0] unat_carry [OF b(1)] c32 [of d0] b by (simp_all add: e1_def)
  have u2: "unat e2 = unat d2 + unat e1 div 2 ^ 26" and s2: "unat e2 < 2 ^ 58"
    using add [of d2 e1] unat_carry [OF s1] c32 [of e1] b by (simp_all add: e2_def)
  have u3: "unat e3 = unat d3 + unat e2 div 2 ^ 26" and s3: "unat e3 < 2 ^ 58"
    using add [of d3 e2] unat_carry [OF s2] c32 [of e2] b by (simp_all add: e3_def)
  have u4: "unat e4 = unat d4 + unat e3 div 2 ^ 26" and s4: "unat e4 < 2 ^ 55 + 2 ^ 48 + 2 ^ 32"
    using add [of d4 e3] unat_carry [OF s3] c32 [of e3] b by (simp_all add: e4_def)
  have c4: "unat (carry e4) = unat e4 div 2 ^ 26"
    using s4 by (intro unat_carry) simp
  then have c4b: "unat (carry e4) < 2 ^ 29 + 2 ^ 22 + 2 ^ 7"
    using s4 by (simp add: less_mult_imp_div_less)
  have l0: "unat (ucast (d0 AND 0x03ffffff) :: u32) = unat d0 mod 2 ^ 26"
    using unat_low [of d0] by (simp add: low_def)
  have "unat (carry e4 * 5) = 5 * unat (carry e4)"
    using c4b unat_mult_lem [of "carry e4" 5] by simp
  moreover have "unat d0 mod 2 ^ 26 < 2 ^ 26"
    by simp
  ultimately have ug: "unat g = unat d0 mod 2 ^ 26 + 5 * (unat e4 div 2 ^ 26)" and sg: "unat g < 2 ^ 32"
    using c4b l0 unat_plus_small [of "ucast (d0 AND 0x03ffffff) :: u32" "carry e4 * 5"]
      unsigned_less [of g, where ?'a = nat]
    by (simp_all add: g_def c4)
  have gd: "unat (drop_bit 26 g) = unat g div 2 ^ 26" "unat g div 2 ^ 26 < 64"
    using sg by (simp_all add: unat_drop_bit_eq drop_bit_nat_def less_mult_imp_div_less)
  have l1: "unat (low e1 + drop_bit 26 g) = unat e1 mod 2 ^ 26 + unat g div 2 ^ 26"
    using gd by (subst unat_plus_small) (simp_all add: unat_low)
  have red: "polyReduce d = (g AND 0x03ffffff, low e1 + drop_bit 26 g, low e2, low e3, low e4)"
    by (simp add: d polyReduce_def Let_def e1_def e2_def e3_def e4_def g_def)
  have "unat d0 + 2 ^ 26 * unat d1 + 2 ^ 52 * unat d2 + 2 ^ 78 * unat d3 + 2 ^ 104 * unat d4 =
      unat g mod 2 ^ 26 + 2 ^ 26 * (unat e1 mod 2 ^ 26 + unat g div 2 ^ 26) + 2 ^ 52 * (unat e2 mod 2 ^ 26) +
      2 ^ 78 * (unat e3 mod 2 ^ 26) + 2 ^ 104 * (unat e4 mod 2 ^ 26) + P1305 * (unat e4 div 2 ^ 26)"
    by (rule reduce_regroup [of _ "unat d0 div 2 ^ 26" "unat d0 mod 2 ^ 26" _ "unat e1 div 2 ^ 26" _ _
          "unat e2 div 2 ^ 26" _ _ "unat e3 div 2 ^ 26"])
      (simp_all add: ug u1 u2 u3 u4)
  then have "dval (d0, d1, d2, d3, d4) = lval (polyReduce d) + P1305 * (unat e4 div 2 ^ 26)"
    by (simp only: dval.simps red lval.simps unat_and_26 l1 unat_low)
  then have "dval d = lval (polyReduce d) + P1305 * (unat e4 div 2 ^ 26)"
    unfolding d .
  then show "\<exists>Q. dval d = lval (polyReduce d) + P1305 * Q" ..
  show "limbs_ok (polyReduce d)"
    using gd by (simp add: red limbs_lt_def unat_and_26 l1 unat_low)
qed

lemma polyBlock_lval:
  assumes "limbs_ok h" and "rkey_ok r" and "length x = 16"
  shows "lval (polyBlock r h x full) mod P1305 =
      ((lval h + le_num x + (if full then 2 ^ 128 else 0)) * lval r) mod P1305"
    and "limbs_ok (polyBlock r h x full)"
proof -
  note a = polyAdd_lval [OF assms(1,3), of full]
  note m = polyMul_dval [OF a(2) assms(2)]
  note d = polyReduce_lval [OF m(2)]
  obtain Q Q' where "lval (polyAdd h x full) * lval r = lval (polyBlock r h x full) + P1305 * Q' + P1305 * Q"
    using m(1) d(1) unfolding polyBlock_def by metis
  then show "lval (polyBlock r h x full) mod P1305 =
      ((lval h + le_num x + (if full then 2 ^ 128 else 0)) * lval r) mod P1305"
    unfolding a(1) by simp
  show "limbs_ok (polyBlock r h x full)"
    unfolding polyBlock_def by (rule d(2))
qed

section \<open>The key and the loop\<close>

definition CLAMP :: nat where "CLAMP = 0x0ffffffc0ffffffc0ffffffc0fffffff"

lemma le32_at_take: "i < 4 \<Longrightarrow> le32_at (take 16 x) i = le32_at x i"
  by (auto simp: le32_at_def drop_take min_def)

lemma polyR_lval:
  assumes "16 \<le> length key"
  shows "lval (polyR key) = le_num (take 16 key) AND CLAMP" and "rkey_ok (polyR key)"
proof -
  obtain l0 l1 l2 l3 l4 where l: "polyLimbs key = (l0, l1, l2, l3, l4)" by (cases "polyLimbs key")
  have "polyLimbs (take 16 key) = polyLimbs key"
    by (simp add: polyLimbs_def Let_def le32_at_take)
  then have v: "lval (l0, l1, l2, l3, l4) = le_num (take 16 key)"
    using lval_polyLimbs [of "take 16 key"] assms l by simp
  have m: "0x3ffff03 = 0x3ffffff AND (0x3ffff03 :: u32)" "0x3ffc0ff = 0x3ffffff AND (0x3ffc0ff :: u32)"
    "0x3f03fff = 0x3ffffff AND (0x3f03fff :: u32)"
    by simp_all
  have r: "polyR key = (l0 AND 0x3ffffff, l1 AND 0x3ffff03, l2 AND 0x3ffc0ff, l3 AND 0x3f03fff, l4 AND 0xfffff)"
    using l by (auto simp: polyR_def polyLimbs_def Let_def and.assoc)
  have lb: "unat l0 < 2 ^ 26" "unat l1 < 2 ^ 26" "unat l2 < 2 ^ 26" "unat l3 < 2 ^ 26" "unat l4 < 2 ^ 26"
    using polyLimbs_lt(1) [of key] by (simp_all add: l limbs_lt_def)
  let ?h = "\<lambda>a b c d e :: nat. a + 2 ^ 26 * (b + 2 ^ 26 * (c + 2 ^ 26 * (d + 2 ^ 26 * e)))"
  have "lval (polyR key) = ?h (unat l0 AND 0x3ffffff) (unat l1 AND 0x3ffff03) (unat l2 AND 0x3ffc0ff)
      (unat l3 AND 0x3f03fff) (unat l4 AND 0xfffff)"
    unfolding r lval.simps unsigned_and_eq by simp
  also have "\<dots> = ?h (unat l0) (unat l1) (unat l2) (unat l3) (unat l4) AND
      ?h 0x3ffffff 0x3ffff03 0x3ffc0ff 0x3f03fff 0xfffff"
    using lb by (subst and_split, simp, simp)+ simp
  also have "?h 0x3ffffff 0x3ffff03 0x3ffc0ff 0x3f03fff 0xfffff = CLAMP"
    by (simp add: CLAMP_def)
  also have "?h (unat l0) (unat l1) (unat l2) (unat l3) (unat l4) = le_num (take 16 key)"
    using v by (simp add: algebra_simps)
  finally show "lval (polyR key) = le_num (take 16 key) AND CLAMP" .
  have mask: "unat (w AND c) \<le> unat c" for w c :: u32
    by (metis word_and_le1 word_le_nat_alt)
  show "rkey_ok (polyR key)"
    using mask [of l0 "0x3ffffff"] mask [of l1 "0x3ffff03"] mask [of l2 "0x3ffc0ff"] mask [of l3 "0x3f03fff"]
      mask [of l4 "0xfffff"]
    by (simp add: r rkey_ok_def)
qed

text \<open>One step of the standard's evaluation: add the block with a one byte after it, multiply by \<open>r\<close>.\<close>

definition poly_step :: "nat \<Rightarrow> nat \<Rightarrow> bytes \<Rightarrow> nat" where
  "poly_step r a c = (a + le_num (c @ [1])) * r mod P1305"

definition poly_eval :: "nat \<Rightarrow> nat \<Rightarrow> bytes \<Rightarrow> nat" where
  "poly_eval r a data = foldl (poly_step r) a (chunks 16 data)"

lemma polyLoop_eval:
  assumes "limbs_ok h" and "rkey_ok r"
  shows "limbs_ok (polyLoop r data i h) \<and>
    lval (polyLoop r data i h) mod P1305 = poly_eval (lval r) (lval h mod P1305) (drop i data)"
  using assms
proof (induction r data i h rule: polyLoop.induct)
  case (1 r data i h)
  show ?case
  proof (cases "i < length data")
    case False
    then show ?thesis
      using 1 by (subst (1 2) polyLoop.simps) (simp add: poly_eval_def)
  next
    case True
    define x where "x = (if i + 16 > length data
      then drop i data @ [1] @ replicate (16 - (length data - i) - 1) (0::u8) else take 16 (drop i data))"
    let ?full = "\<not> i + 16 > length data" and ?c = "take 16 (drop i data)"
    let ?h' = "polyBlock r h x ?full"
    have h': "(if i + 16 > length data
        then polyBlock r h (drop i data @ [1] @ replicate (16 - (length data - i) - 1) 0) False
        else polyBlock r h ?c True) = ?h'"
      by (simp add: x_def)
    have step: "polyLoop r data i h = polyLoop r data (i + 16) ?h'"
      using True h' by (subst polyLoop.simps) simp
    have "length x = 16"
      using True by (auto simp: x_def)
    note b = polyBlock_lval [OF 1(2,3) this, of ?full]
    have "le_num x + (if ?full then 2 ^ 128 else 0) = le_num (?c @ [1])"
    proof (cases "i + 16 > length data")
      case True
      then show ?thesis
        by (simp add: x_def le_num_append)
    next
      case False
      then have "length ?c = 16"
        by simp
      then show ?thesis
        using False by (simp add: x_def le_num_append del: length_take)
    qed
    then have "lval ?h' mod P1305 = poly_step (lval r) (lval h mod P1305) ?c"
      unfolding b(1) poly_step_def
      by (metis (no_types, lifting) add.assoc mod_add_left_eq mod_mult_left_eq)
    moreover have "chunks 16 (drop i data) = ?c # chunks 16 (drop (i + 16) data)"
      using True by (subst chunks.simps) (simp add: add.commute)
    moreover have "limbs_ok (polyLoop r data (i + 16) ?h') \<and>
        lval (polyLoop r data (i + 16) ?h') mod P1305 =
        poly_eval (lval r) (lval ?h' mod P1305) (drop (i + 16) data)"
      using 1(1) [OF True] b(2) 1(3) unfolding h' by blast
    ultimately show ?thesis
      unfolding step by (simp add: poly_eval_def)
  qed
qed

section \<open>The final reduction and the tag\<close>

lemma carry_regroup:
  fixes h0 :: nat
  assumes "h1 = 2 ^ 26 * c1 + m1" "h2 + c1 = 2 ^ 26 * c2 + m2" "h3 + c2 = 2 ^ 26 * c3 + m3"
    "h4 + c3 = 2 ^ 26 * c4 + m4" "h0 + 5 * c4 = 2 ^ 26 * c0 + m0"
  shows "h0 + 2 ^ 26 * h1 + 2 ^ 52 * h2 + 2 ^ 78 * h3 + 2 ^ 104 * h4 =
    m0 + 2 ^ 26 * (m1 + c0) + 2 ^ 52 * m2 + 2 ^ 78 * m3 + 2 ^ 104 * m4 + P1305 * c4"
  using assms by (simp add: P1305_def)

text \<open>A carry out of the top limb can only come all the way up from the second one.\<close>

lemma carry_bound:
  fixes h0 :: nat
  assumes "h1 = 2 ^ 26 * c1 + m1" "h2 + c1 = 2 ^ 26 * c2 + m2" "h3 + c2 = 2 ^ 26 * c3 + m3"
    "h4 + c3 = 2 ^ 26 * c4 + m4" "h0 + 5 * c4 = 2 ^ 26 * c0 + m0"
    and "h0 < 2 ^ 26" "h1 < 2 ^ 26 + 64" "h2 < 2 ^ 26" "h3 < 2 ^ 26" "h4 < 2 ^ 26" "m1 < 2 ^ 26"
  shows "m1 + c0 < 2 ^ 26" "c1 \<le> 1" "c2 \<le> 1" "c3 \<le> 1" "c4 \<le> 1"
proof -
  show c1: "c1 \<le> 1" using assms by simp
  then show c2: "c2 \<le> 1" using assms by simp
  then show c3: "c3 \<le> 1" using assms by simp
  then show c4: "c4 \<le> 1" using assms by simp
  then have c0: "c0 \<le> 1" using assms by simp
  show "m1 + c0 < 2 ^ 26"
  proof (cases "c0 = 0")
    case False
    then have "c4 = 1" using assms c4 by simp
    then have "c3 = 1" using assms c3 by simp
    then have "c2 = 1" using assms c2 by simp
    then have "c1 = 1" using assms c1 by simp
    then show ?thesis using assms c0 by simp
  qed (use assms in simp)
qed

lemma polyCarry_lval:
  assumes "limbs_ok h"
  shows "\<exists>Q. lval h = lval (polyCarry h) + P1305 * Q" and "limbs_lt (2 ^ 26) (2 ^ 26) (polyCarry h)"
proof -
  obtain h0 h1 h2 h3 h4 where h: "h = (h0, h1, h2, h3, h4)" by (cases h)
  have hb: "unat h0 < 2 ^ 26" "unat h1 < 2 ^ 26 + 64" "unat h2 < 2 ^ 26" "unat h3 < 2 ^ 26" "unat h4 < 2 ^ 26"
    using assms by (simp_all add: h limbs_lt_def)
  define e2 where "e2 = h2 + drop_bit 26 h1"
  define e3 where "e3 = h3 + drop_bit 26 e2"
  define e4 where "e4 = h4 + drop_bit 26 e3"
  define e0 where "e0 = h0 + drop_bit 26 e4 * 5"
  let ?c1 = "unat h1 div 2 ^ 26"
  have div64: "n div 2 ^ 26 < 64" if "n < 2 ^ 32" for n :: nat
    using that by (simp add: less_mult_imp_div_less)
  have w32: "unat w < 2 ^ 32" for w :: u32
    using unsigned_less [of w, where ?'a = nat] by simp
  have u2: "unat e2 = unat h2 + unat h1 div 2 ^ 26"
    using hb div64 [OF w32 [of h1]] by (simp add: e2_def unat_plus_small unat_drop_bit_div)
  have u3: "unat e3 = unat h3 + unat e2 div 2 ^ 26"
    using hb div64 [OF w32 [of e2]] by (simp add: e3_def unat_plus_small unat_drop_bit_div)
  have u4: "unat e4 = unat h4 + unat e3 div 2 ^ 26"
    using hb div64 [OF w32 [of e3]] by (simp add: e4_def unat_plus_small unat_drop_bit_div)
  have five: "unat (drop_bit 26 e4 * 5) = 5 * (unat e4 div 2 ^ 26)"
    using div64 [OF w32 [of e4]] unat_mult_lem [of "drop_bit 26 e4" 5] by (simp add: unat_drop_bit_div)
  have u0: "unat e0 = unat h0 + 5 * (unat e4 div 2 ^ 26)"
    using hb div64 [OF w32 [of e4]] five by (simp add: e0_def unat_plus_small)
  have eqs: "unat h1 = 2 ^ 26 * (unat h1 div 2 ^ 26) + unat h1 mod 2 ^ 26"
    "unat h2 + unat h1 div 2 ^ 26 = 2 ^ 26 * (unat e2 div 2 ^ 26) + unat e2 mod 2 ^ 26"
    "unat h3 + unat e2 div 2 ^ 26 = 2 ^ 26 * (unat e3 div 2 ^ 26) + unat e3 mod 2 ^ 26"
    "unat h4 + unat e3 div 2 ^ 26 = 2 ^ 26 * (unat e4 div 2 ^ 26) + unat e4 mod 2 ^ 26"
    "unat h0 + 5 * (unat e4 div 2 ^ 26) = 2 ^ 26 * (unat e0 div 2 ^ 26) + unat e0 mod 2 ^ 26"
    using u0 u2 u3 u4 by simp_all
  have b: "unat h1 mod 2 ^ 26 + unat e0 div 2 ^ 26 < 2 ^ 26"
    by (rule carry_bound(1) [OF eqs hb]) simp
  then have l1: "unat ((h1 AND 0x3ffffff) + drop_bit 26 e0) = unat h1 mod 2 ^ 26 + unat e0 div 2 ^ 26"
    by (subst unat_plus_small) (simp_all add: unat_and_26 unat_drop_bit_div)
  have res: "polyCarry h = (e0 AND 0x3ffffff, (h1 AND 0x3ffffff) + drop_bit 26 e0, e2 AND 0x3ffffff,
      e3 AND 0x3ffffff, e4 AND 0x3ffffff)"
    by (simp add: h polyCarry_def Let_def e0_def e2_def e3_def e4_def)
  have "lval (h0, h1, h2, h3, h4) = lval (polyCarry h) + P1305 * (unat e4 div 2 ^ 26)"
    unfolding res lval.simps unat_and_26 l1 by (rule carry_regroup [OF eqs])
  then have "lval h = lval (polyCarry h) + P1305 * (unat e4 div 2 ^ 26)"
    unfolding h .
  then show "\<exists>Q. lval h = lval (polyCarry h) + P1305 * Q" ..
  show "limbs_lt (2 ^ 26) (2 ^ 26) (polyCarry h)"
    using b by (simp add: res limbs_lt_def unat_and_26 l1)
qed

lemma minus_regroup:
  fixes h0 :: nat
  assumes "h0 + 5 = 2 ^ 26 * a0 + n0" "h1 + a0 = 2 ^ 26 * a1 + n1" "h2 + a1 = 2 ^ 26 * a2 + n2"
    "h3 + a2 = 2 ^ 26 * a3 + n3"
  shows "h0 + 2 ^ 26 * h1 + 2 ^ 52 * h2 + 2 ^ 78 * h3 + 2 ^ 104 * h4 + 5 =
    n0 + 2 ^ 26 * n1 + 2 ^ 52 * n2 + 2 ^ 78 * n3 + 2 ^ 104 * (h4 + a3)"
  using assms by simp

lemma select_cases:
  "drop_bit 31 t4 = (1 :: u32) \<Longrightarrow> polySelect (h0, h1, h2, h3, h4) (t0, t1, t2, t3, t4) = (h0, h1, h2, h3, h4)"
  "drop_bit 31 t4 = (0 :: u32) \<Longrightarrow> polySelect (h0, h1, h2, h3, h4) (t0, t1, t2, t3, t4) = (t0, t1, t2, t3, t4)"
  by (simp_all add: polySelect_def)

lemma polySelect_lval:
  assumes "limbs_lt (2 ^ 26) (2 ^ 26) h"
  shows "lval (polySelect h (polyMinusP h)) = lval h mod P1305"
    and "limbs_lt (2 ^ 26) (2 ^ 26) (polySelect h (polyMinusP h))"
proof -
  obtain h0 h1 h2 h3 h4 where h: "h = (h0, h1, h2, h3, h4)" by (cases h)
  have hb: "unat h0 < 2 ^ 26" "unat h1 < 2 ^ 26" "unat h2 < 2 ^ 26" "unat h3 < 2 ^ 26" "unat h4 < 2 ^ 26"
    using assms by (simp_all add: h limbs_lt_def)
  define t0 where "t0 = h0 + 5"
  define t1 where "t1 = h1 + drop_bit 26 t0"
  define t2 where "t2 = h2 + drop_bit 26 t1"
  define t3 where "t3 = h3 + drop_bit 26 t2"
  define u where "u = h4 + drop_bit 26 t3"
  have u0: "unat t0 = unat h0 + 5"
    using hb by (simp add: t0_def unat_plus_small)
  have a0: "unat t0 div 2 ^ 26 \<le> 1" using u0 hb by simp
  then have u1: "unat t1 = unat h1 + unat t0 div 2 ^ 26"
    using hb by (simp add: t1_def unat_plus_small unat_drop_bit_div)
  then have a1: "unat t1 div 2 ^ 26 \<le> 1" using a0 hb by simp
  then have u2: "unat t2 = unat h2 + unat t1 div 2 ^ 26"
    using hb by (simp add: t2_def unat_plus_small unat_drop_bit_div)
  then have a2: "unat t2 div 2 ^ 26 \<le> 1" using a1 hb by simp
  then have u3: "unat t3 = unat h3 + unat t2 div 2 ^ 26"
    using hb by (simp add: t3_def unat_plus_small unat_drop_bit_div)
  then have a3: "unat t3 div 2 ^ 26 \<le> 1" using a2 hb by simp
  then have u4: "unat u = unat h4 + unat t3 div 2 ^ 26" "unat u \<le> 2 ^ 26"
    using hb by (simp_all add: u_def unat_plus_small unat_drop_bit_div)
  have min: "polyMinusP h = (t0 AND 0x3ffffff, t1 AND 0x3ffffff, t2 AND 0x3ffffff, t3 AND 0x3ffffff, u - 0x4000000)"
    by (simp add: h polyMinusP_def Let_def t0_def t1_def t2_def t3_def u_def)
  have val: "lval (h0, h1, h2, h3, h4) + 5 = unat t0 mod 2 ^ 26 + 2 ^ 26 * (unat t1 mod 2 ^ 26) +
      2 ^ 52 * (unat t2 mod 2 ^ 26) + 2 ^ 78 * (unat t3 mod 2 ^ 26) + 2 ^ 104 * unat u"
    unfolding u4(1) lval.simps
    by (rule minus_regroup [of _ "unat t0 div 2 ^ 26" _ _ "unat t1 div 2 ^ 26" _ _ "unat t2 div 2 ^ 26"])
      (use u0 u1 u2 u3 in simp_all)
  have lt: "unat t0 mod 2 ^ 26 < 2 ^ 26" "unat t1 mod 2 ^ 26 < 2 ^ 26" "unat t2 mod 2 ^ 26 < 2 ^ 26"
    "unat t3 mod 2 ^ 26 < 2 ^ 26"
    by simp_all
  have "lval (polySelect h (polyMinusP h)) = lval h mod P1305 \<and>
    limbs_lt (2 ^ 26) (2 ^ 26) (polySelect h (polyMinusP h))"
  proof (cases "unat u = 2 ^ 26")
    case True
    then have ue: "u = 0x4000000"
      by (simp add: word_unat_eq_iff)
    then have sel: "polySelect h (polyMinusP h) = polyMinusP h"
      unfolding h min[unfolded h] by (intro select_cases(2)) simp
    have "lval (polyMinusP h) + P1305 = lval (h0, h1, h2, h3, h4)"
      using val True ue by (simp add: min unat_and_26 P1305_def)
    moreover have "lval (polyMinusP h) < P1305"
      using val True ue hb by (simp add: min unat_and_26 P1305_def)
    ultimately have "lval (polyMinusP h) = lval h mod P1305"
      by (metis h mod_add_self2 mod_less)
    then show ?thesis
      using sel ue by (simp add: min limbs_lt_def unat_and_26)
  next
    case False
    then have u: "unat u < 2 ^ 26"
      using u4(2) by simp
    have "unat (u - 0x4000000) = 2 ^ 32 + unat u - 2 ^ 26"
      using u by (subst unat_sub_if') (simp add: word_le_nat_alt word_less_nat_alt)
    then have "unat (drop_bit 31 (u - 0x4000000)) = unat (1 :: u32)"
      using u by (simp add: unat_drop_bit_div)
    then have "drop_bit 31 (u - 0x4000000) = 1"
      by (simp only: word_unat_eq_iff)
    then have sel: "polySelect h (polyMinusP h) = h"
      unfolding h min[unfolded h] by (rule select_cases(1))
    have "lval (h0, h1, h2, h3, h4) < P1305"
      using val u lt by (simp add: P1305_def)
    then have "lval h < P1305"
      by (simp only: h)
    then show ?thesis
      using sel assms by simp
  qed
  then show "lval (polySelect h (polyMinusP h)) = lval h mod P1305"
    and "limbs_lt (2 ^ 26) (2 ^ 26) (polySelect h (polyMinusP h))"
    by auto
qed

fun wval :: "u32 \<times> u32 \<times> u32 \<times> u32 \<Rightarrow> nat" where
  "wval (w0, w1, w2, w3) = unat w0 + 2 ^ 32 * unat w1 + 2 ^ 64 * unat w2 + 2 ^ 96 * unat w3"

lemma word32_less: "unat (w :: u32) < 2 ^ 32"
  using unsigned_less [of w, where ?'a = nat] by simp

lemma wval_less: "wval w < 2 ^ 128"
proof -
  obtain w0 w1 w2 w3 where w: "w = (w0, w1, w2, w3)" by (cases w)
  show ?thesis
    using word32_less [of w0] word32_less [of w1] word32_less [of w2] word32_less [of w3] by (simp add: w)
qed

lemma pack_regroup:
  fixes g0 :: nat
  assumes "g1 = 2 ^ 6 * a1 + b1" "g2 = 2 ^ 12 * a2 + b2" "g3 = 2 ^ 18 * a3 + b3" "g4 = 2 ^ 24 * a4 + b4"
  shows "g0 + 2 ^ 26 * g1 + 2 ^ 52 * g2 + 2 ^ 78 * g3 + 2 ^ 104 * g4 =
    (g0 + 2 ^ 26 * b1) + 2 ^ 32 * (a1 + 2 ^ 20 * b2) + 2 ^ 64 * (a2 + 2 ^ 14 * b3) +
    2 ^ 96 * (a3 + 2 ^ 8 * b4) + 2 ^ 128 * a4"
  unfolding assms by (simp add: algebra_simps)

lemma polyPack_wval:
  assumes "limbs_lt (2 ^ 26) (2 ^ 26) g"
  shows "wval (polyPack g) = lval g mod 2 ^ 128"
proof -
  obtain g0 g1 g2 g3 g4 where g: "g = (g0, g1, g2, g3, g4)" by (cases g)
  have gb: "unat g0 < 2 ^ 26" "unat g1 < 2 ^ 26" "unat g2 < 2 ^ 26" "unat g3 < 2 ^ 26"
    using assms by (simp_all add: g limbs_lt_def)
  have "unat (g0 OR push_bit 26 g1) = unat g0 + 2 ^ 26 * (unat g1 mod 2 ^ 6)"
    using gb or_shift [of g0 26 g1] by simp
  moreover have "unat (drop_bit 6 g1 OR push_bit 20 g2) = unat g1 div 2 ^ 6 + 2 ^ 20 * (unat g2 mod 2 ^ 12)"
    using gb or_shift [of "drop_bit 6 g1" 20 g2] by (simp add: unat_drop_bit_div less_mult_imp_div_less)
  moreover have "unat (drop_bit 12 g2 OR push_bit 14 g3) = unat g2 div 2 ^ 12 + 2 ^ 14 * (unat g3 mod 2 ^ 18)"
    using gb or_shift [of "drop_bit 12 g2" 14 g3] by (simp add: unat_drop_bit_div less_mult_imp_div_less)
  moreover have "unat (drop_bit 18 g3 OR push_bit 8 g4) = unat g3 div 2 ^ 18 + 2 ^ 8 * (unat g4 mod 2 ^ 24)"
    using gb or_shift [of "drop_bit 18 g3" 8 g4] by (simp add: unat_drop_bit_div less_mult_imp_div_less)
  ultimately have "lval (g0, g1, g2, g3, g4) = wval (polyPack g) + 2 ^ 128 * (unat g4 div 2 ^ 24)"
    unfolding g polyPack_def prod.case wval.simps lval.simps
    by (simp only: pack_regroup [of "unat g1" "unat g1 div 2 ^ 6" "unat g1 mod 2 ^ 6"
          "unat g2" "unat g2 div 2 ^ 12" "unat g2 mod 2 ^ 12" "unat g3" "unat g3 div 2 ^ 18" "unat g3 mod 2 ^ 18"
          "unat g4" "unat g4 div 2 ^ 24" "unat g4 mod 2 ^ 24"] mult_div_mod_eq)
  then have "lval g mod 2 ^ 128 = wval (polyPack g) mod 2 ^ 128"
    by (simp only: g mod_mult_self2)
  then show ?thesis
    using wval_less [of "polyPack g"] by simp
qed

lemma pad_regroup:
  fixes w0 :: nat
  assumes "w0 + s0 = 2 ^ 32 * q0 + r0" "w1 + s1 + q0 = 2 ^ 32 * q1 + r1" "w2 + s2 + q1 = 2 ^ 32 * q2 + r2"
    "w3 + s3 + q2 = 2 ^ 32 * q3 + r3"
  shows "(w0 + 2 ^ 32 * w1 + 2 ^ 64 * w2 + 2 ^ 96 * w3) + (s0 + 2 ^ 32 * s1 + 2 ^ 64 * s2 + 2 ^ 96 * s3) =
    (r0 + 2 ^ 32 * r1 + 2 ^ 64 * r2 + 2 ^ 96 * r3) + 2 ^ 128 * q3"
  using assms by simp

lemma le_num_put_le_4: "le_num (put_le 4 (w :: u32)) = unat w"
  using word32_less [of w] by (simp add: le_num_put_le)

lemma polyPad_le_num:
  assumes "length key = 32"
  shows "le_num (polyPad key w) = (wval w + le_num (drop 16 key)) mod 2 ^ 128"
proof -
  obtain w0 w1 w2 w3 where w: "w = (w0, w1, w2, w3)" by (cases w)
  let ?s = "\<lambda>i. le32_at (drop 16 key) i"
  define d0 :: u64 where "d0 = ucast w0 + ucast (?s 0)"
  define d1 :: u64 where "d1 = ucast w1 + ucast (?s 1) + drop_bit 32 d0"
  define d2 :: u64 where "d2 = ucast w2 + ucast (?s 2) + drop_bit 32 d1"
  define d3 :: u64 where "d3 = ucast w3 + ucast (?s 3) + drop_bit 32 d2"
  have two: "unat (ucast a + ucast b :: u64) = unat a + unat b" for a b :: u32
    using word32_less [of a] word32_less [of b] by (subst unat_plus_small) (simp_all add: unat_ucast_32_64)
  have three: "unat (ucast a + ucast b + drop_bit 32 d :: u64) = unat a + unat b + unat d div 2 ^ 32"
    for a b :: u32 and d :: u64
  proof -
    have "unat d div 2 ^ 32 < 2 ^ 32"
      using unsigned_less [of d, where ?'a = nat] by (simp add: less_mult_imp_div_less)
    then show ?thesis
      using word32_less [of a] word32_less [of b] two [of a b]
      by (subst unat_plus_small) (simp_all add: unat_drop_bit_div)
  qed
  have low: "unat (ucast d :: u32) = unat d mod 2 ^ 32" for d :: u64
    by (simp add: unsigned_ucast_eq take_bit_nat_def)
  have "polyPad key w = put_le 4 (ucast d0 :: u32) @ put_le 4 (ucast d1 :: u32) @ put_le 4 (ucast d2 :: u32) @
      put_le 4 (ucast d3 :: u32)"
    by (simp add: w polyPad_def Let_def d0_def d1_def d2_def d3_def)
  then have "le_num (polyPad key w) = unat d0 mod 2 ^ 32 + 2 ^ 32 * (unat d1 mod 2 ^ 32) +
      2 ^ 64 * (unat d2 mod 2 ^ 32) + 2 ^ 96 * (unat d3 mod 2 ^ 32)"
    by (simp add: le_num_append le_num_put_le_4 low)
  moreover have "wval (w0, w1, w2, w3) + le_num (drop 16 key) = (unat d0 mod 2 ^ 32 + 2 ^ 32 * (unat d1 mod 2 ^ 32) +
      2 ^ 64 * (unat d2 mod 2 ^ 32) + 2 ^ 96 * (unat d3 mod 2 ^ 32)) + 2 ^ 128 * (unat d3 div 2 ^ 32)"
    using assms unfolding wval.simps
    by (subst le_num_words, simp)
      (rule pad_regroup [of _ _ "unat d0 div 2 ^ 32" _ _ _ "unat d1 div 2 ^ 32" _ _ _ "unat d2 div 2 ^ 32"],
        simp_all add: d0_def d1_def d2_def d3_def two three)
  ultimately have "(wval w + le_num (drop 16 key)) mod 2 ^ 128 = le_num (polyPad key w) mod 2 ^ 128"
    by (simp only: w mod_mult_self2)
  moreover have "length (polyPad key w) = 16"
    by (simp add: w polyPad_def Let_def)
  then have "le_num (polyPad key w) < 2 ^ 128"
    using le_num_less [of "polyPad key w"] by simp
  ultimately show ?thesis
    by simp
qed

lemma length_polyPad [simp]: "length (polyPad key w) = 16"
  by (cases w) (simp add: polyPad_def Let_def)

lemma limbs_ok_zero: "limbs_ok (0, 0, 0, 0, 0)"
  by (simp add: limbs_lt_def)

text \<open>The standard's key and tag.\<close>

definition poly_r :: "bytes \<Rightarrow> nat" where "poly_r key = le_num (take 16 key) AND CLAMP"

definition poly_tag :: "bytes \<Rightarrow> nat \<Rightarrow> nat" where
  "poly_tag key a = (a + le_num (drop 16 key)) mod 2 ^ 128"

lemma Final_eval:
  assumes "length key = 32" and "limbs_ok h"
  shows "le_num (BRPoly1305Final h key data) = poly_tag key (poly_eval (poly_r key) (lval h mod P1305) data)"
proof -
  note R = polyR_lval [of key]
  let ?h = "BRPoly1305Compress h key data"
  have c: "limbs_ok ?h" "lval ?h mod P1305 = poly_eval (poly_r key) (lval h mod P1305) data"
    using polyLoop_eval [OF assms(2), of "polyR key" data 0] R assms(1)
    by (simp_all add: BRPoly1305Compress_def poly_r_def)
  obtain Q where Q: "lval ?h = lval (polyCarry ?h) + P1305 * Q"
    using polyCarry_lval(1) [OF c(1)] by blast
  note s = polySelect_lval [OF polyCarry_lval(2) [OF c(1)]]
  have "lval (polySelect (polyCarry ?h) (polyMinusP (polyCarry ?h))) = lval ?h mod P1305"
    unfolding s(1) Q by simp
  then show ?thesis
    using polyPack_wval [OF s(2)] c(2)
    by (simp add: BRPoly1305Final_def Let_def polyPad_le_num [OF assms(1)] poly_tag_def mod_add_left_eq)
qed

text \<open>C24. The limb arithmetic of the authenticator computes the function of RFC 7539: the tag is the
  16-byte little-endian number ((c1 r^n + ... + cn r) mod (2^130 - 5) + s) mod 2^128, where the c's are
  the 16-byte blocks of the message each with a one byte after it, \<open>r\<close> the clamped first half of the key
  and \<open>s\<close> the second.  In particular no 32-bit or 64-bit intermediate wraps, for any message.\<close>

theorem poly1305_is_the_rfc_function:
  assumes "length key = 32"
  shows "length (BRPoly1305 key data) = 16 \<and>
    le_num (BRPoly1305 key data) =
      (poly_eval (le_num (take 16 key) AND CLAMP) 0 data + le_num (drop 16 key)) mod 2 ^ 128"
proof -
  have "length (BRPoly1305 key data) = 16"
    by (simp add: BRPoly1305_def BRPoly1305Final_def Let_def)
  moreover have "le_num (BRPoly1305 key data) = poly_tag key (poly_eval (poly_r key) 0 data)"
    using Final_eval [OF assms limbs_ok_zero, of data] by (simp add: BRPoly1305_def)
  ultimately show ?thesis
    by (simp add: poly_tag_def poly_r_def)
qed

lemma poly1305_is_the_rfc_function_witness:
  "le_num (BRPoly1305 (1 # replicate 15 0 @ 5 # replicate 15 0) [1, 2, 3]) = 0x01030201 + 5"
proof -
  let ?key = "1 # replicate 15 0 @ 5 # replicate 15 0 :: bytes"
  have "poly_eval 1 0 [1, 2, 3] = 0x01030201"
    by (simp add: poly_eval_def poly_step_def chunks.simps P1305_def)
  moreover have "le_num (take 16 ?key) AND CLAMP = 1" "le_num (drop 16 ?key) = 5"
    by (simp_all add: CLAMP_def)
  ultimately show ?thesis
    using poly1305_is_the_rfc_function [of ?key "[1, 2, 3]"] by simp
qed

end
