(* ===== verification/Aead.thy ===== *)
theory Aead
  imports Poly1305
begin

text \<open>
  The ChaCha20 stream cipher and the ChaCha20-Poly1305 AEAD of \<open>src/BRCrypto.c\<close>: the output of the
  cipher byte by byte, that encryption is undone by decryption, and that decryption accepts exactly
  what encryption produces.
\<close>

section \<open>ChaCha20\<close>

text \<open>The quarter round on the words with indices \<open>a b c d\<close>.\<close>

definition chacha_qr :: "nat \<Rightarrow> nat \<Rightarrow> nat \<Rightarrow> nat \<Rightarrow> u32 list \<Rightarrow> u32 list" where
  "chacha_qr a b c d x =
     (let x = x[a := x ! a + x ! b]; x = x[d := rol32 (x ! d XOR x ! a) 16];
          x = x[c := x ! c + x ! d]; x = x[b := rol32 (x ! b XOR x ! c) 12];
          x = x[a := x ! a + x ! b]; x = x[d := rol32 (x ! d XOR x ! a) 8];
          x = x[c := x ! c + x ! d]
      in x[b := rol32 (x ! b XOR x ! c) 7])"

definition chachaDouble :: "u32 list \<Rightarrow> u32 list" where
  "chachaDouble x =
     (let x = chacha_qr 0 4 8 12 x; x = chacha_qr 1 5 9 13 x; x = chacha_qr 2 6 10 14 x;
          x = chacha_qr 3 7 11 15 x; x = chacha_qr 0 5 10 15 x; x = chacha_qr 1 6 11 12 x;
          x = chacha_qr 2 7 8 13 x
      in chacha_qr 3 4 9 14 x)"

text \<open>The key stream block \<open>b\<close> as bytes in memory.\<close>

definition chachaBlock :: "u32 list \<Rightarrow> bytes" where
  "chachaBlock s =
     (let x = (chachaDouble ^^ 10) s in concat (map (\<lambda>i. put_le 4 (s ! i + x ! i)) [0..<16]))"

definition chachaSigma :: bytes where
  "chachaSigma = [0x65, 0x78, 0x70, 0x61, 0x6e, 0x64, 0x20, 0x33, 0x32, 0x2d, 0x62, 0x79, 0x74, 0x65, 0x20, 0x6b]"

definition chachaInit :: "bytes \<Rightarrow> bytes \<Rightarrow> u64 \<Rightarrow> u32 list" where
  "chachaInit key32 iv8 counter =
     map (le32_at chachaSigma) [0..<4] @ map (le32_at key32) [0..<8] @
     [ucast counter, ucast (drop_bit 32 counter)] @ map (le32_at iv8) [0..<2]"

definition chachaNext :: "u32 list \<Rightarrow> u32 list" where
  "chachaNext s =
     (let s = s[12 := s ! 12 + 1] in if s ! 12 = 0 then s[13 := s ! 13 + 1] else s)"

text \<open>The loop body for byte \<open>i\<close>: a fresh block every 64 bytes.\<close>

definition chachaByte :: "u32 list \<times> bytes \<times> bytes \<Rightarrow> nat \<times> u8 \<Rightarrow> u32 list \<times> bytes \<times> bytes" where
  "chachaByte = (\<lambda>(s, b, out) (i, d).
     let (s, b) = (if i mod 64 = 0 then (chachaNext s, chachaBlock s) else (s, b))
     in (s, b, out @ [d XOR b ! (i mod 64)]))"

definition BRChacha20 :: "bytes \<Rightarrow> bytes \<Rightarrow> bytes \<Rightarrow> u64 \<Rightarrow> bytes" where
  "BRChacha20 key32 iv8 data counter =
     snd (snd (foldl chachaByte (chachaInit key32 iv8 counter, [], []) (List.enumerate 0 data)))"

section \<open>ChaCha20-Poly1305\<close>

text \<open>The counter with the first four nonce bytes in its upper half, and the MAC key.\<close>

definition aeadCounter :: "bytes \<Rightarrow> u64" where
  "aeadCounter nonce12 = push_bit 32 (ucast (le32_at nonce12 0))"

definition aeadMacKey :: "bytes \<Rightarrow> bytes \<Rightarrow> bytes" where
  "aeadMacKey key32 nonce12 = BRChacha20 key32 (drop 4 nonce12) (replicate 32 0) (aeadCounter nonce12)"

text \<open>The whole blocks of a text, then its rest in a zeroed \<open>pad\<close>, if there is a rest.\<close>

definition aeadAbsorb :: "bytes \<Rightarrow> limbs \<Rightarrow> bytes \<Rightarrow> limbs" where
  "aeadAbsorb macKey h text =
     (let n = (length text div 16) * 16;
          h = BRPoly1305Compress h macKey (take n text);
          pad = drop n text @ replicate (16 - length text mod 16) 0
      in if length text mod 16 \<noteq> 0 then BRPoly1305Compress h macKey pad else h)"

definition aeadTag :: "bytes \<Rightarrow> bytes \<Rightarrow> bytes \<Rightarrow> bytes" where
  "aeadTag macKey ad cipher =
     (let h = aeadAbsorb macKey (0, 0, 0, 0, 0) ad;
          h = aeadAbsorb macKey h cipher;
          pad = put_le 8 (of_nat (length ad) :: u64) @ put_le 8 (of_nat (length cipher) :: u64)
      in BRPoly1305Final h macKey pad)"

text \<open>The room of the output buffer is \<open>None\<close> for a null one; the result is the returned length and what
  is written.\<close>

definition BRChacha20Poly1305AEADEncrypt :: "nat option \<Rightarrow> bytes \<Rightarrow> bytes \<Rightarrow> bytes \<Rightarrow> bytes \<Rightarrow> nat \<times> bytes" where
  "BRChacha20Poly1305AEADEncrypt out key32 nonce12 data ad =
     (case out of None \<Rightarrow> (length data + 16, [])
      | Some outLen \<Rightarrow>
          if outLen < length data + 16 \<or> length data div 64 \<ge> 0xffffffff then (0, [])
          else
            let macKey = aeadMacKey key32 nonce12;
                cipher = BRChacha20 key32 (drop 4 nonce12) data (aeadCounter nonce12 + 1)
            in (length data + 16, cipher @ aeadTag macKey ad cipher))"

text \<open>The comparison \<open>(mac[0] ^ h[0]) | (mac[1] ^ h[1]) | (mac[2] ^ h[2]) | (mac[3] ^ h[3]) != 0\<close>: the
  inequality binds tighter than the last \<open>|\<close>.\<close>

definition macDiffers :: "bytes \<Rightarrow> bytes \<Rightarrow> bool" where
  "macDiffers mac h =
     ((le32_at mac 0 XOR le32_at h 0) OR (le32_at mac 1 XOR le32_at h 1) OR (le32_at mac 2 XOR le32_at h 2) OR
      (if le32_at mac 3 XOR le32_at h 3 \<noteq> 0 then 1 else 0) \<noteq> 0)"

definition BRChacha20Poly1305AEADDecrypt :: "nat option \<Rightarrow> bytes \<Rightarrow> bytes \<Rightarrow> bytes \<Rightarrow> bytes \<Rightarrow> nat \<times> bytes" where
  "BRChacha20Poly1305AEADDecrypt out key32 nonce12 data ad =
     (case out of None \<Rightarrow> (if length data < 16 then 0 else length data - 16, [])
      | Some room \<Rightarrow>
          if length data < 16 \<or> (length data - 16) div 64 \<ge> 0xffffffff \<or> room + 16 < length data then (0, [])
          else
            let outLen = length data - 16;
                macKey = aeadMacKey key32 nonce12;
                tag = aeadTag macKey ad (take outLen data);
                outLen = (if macDiffers (drop outLen data) tag then 0 else outLen)
            in (outLen, BRChacha20 key32 (drop 4 nonce12) (take outLen data) (aeadCounter nonce12 + 1)))"

section \<open>The key stream\<close>

lemma halves_no_wrap: "h < 2 ^ 32 \<Longrightarrow> l < 2 ^ 32 \<Longrightarrow> l \<noteq> 2 ^ 32 - 1 \<Longrightarrow> 2 ^ 32 * h + l + 1 < (2 ^ 64 :: nat)"
  by simp

lemma word64_succ_halves:
  fixes c :: u64
  shows "(ucast (c + 1) :: u32) = ucast c + 1"
    and "(ucast (drop_bit 32 (c + 1)) :: u32) =
      (if (ucast c :: u32) + 1 = 0 then ucast (drop_bit 32 c) + 1 else ucast (drop_bit 32 c))"
proof -
  let ?lo = "unat c mod 2 ^ 32" and ?hi = "unat c div 2 ^ 32"
  have c: "unat c = 2 ^ 32 * ?hi + ?lo" "?lo < 2 ^ 32" "?hi < 2 ^ 32"
    using unsigned_less [of c, where ?'a = nat] by (simp_all add: less_mult_imp_div_less)
  have lo: "unat (ucast c :: u32) = ?lo"
    by (simp add: unsigned_ucast_eq take_bit_nat_def)
  have hi: "unat (ucast (drop_bit 32 c) :: u32) = ?hi"
    using c(3) by (simp add: unsigned_ucast_eq unat_drop_bit_div take_bit_nat_def)
  show "(ucast (c + 1) :: u32) = ucast c + 1"
    by (simp add: unsigned_ucast_eq word_unat_eq_iff take_bit_nat_def unat_word_ariths mod_mod_cancel mod_simps)
  have z: "(ucast c :: u32) + 1 = 0 \<longleftrightarrow> ?lo = 2 ^ 32 - 1"
    using c(2) lo by (auto simp: word_unat_eq_iff unat_word_ariths mod_Suc)
  have c1: "unat (c + 1) = (2 ^ 32 * ?hi + ?lo + 1) mod 2 ^ 64"
    using c(1) by (simp add: unat_word_ariths)
  have "unat (ucast (drop_bit 32 (c + 1)) :: u32) = (unat (c + 1) div 2 ^ 32) mod 2 ^ 32"
    by (simp add: unsigned_ucast_eq unat_drop_bit_div take_bit_nat_def)
  also have "\<dots> = (if ?lo = 2 ^ 32 - 1 then (?hi + 1) mod 2 ^ 32 else ?hi)"
  proof (cases "?lo = 2 ^ 32 - 1")
    case True
    then have "unat (c + 1) = (2 ^ 32 * (?hi + 1)) mod (2 ^ 32 * 2 ^ 32)"
      using c1 by simp
    also have "\<dots> = 2 ^ 32 * ((?hi + 1) mod 2 ^ 32)"
      by (simp only: mult_mod_right)
    finally show ?thesis
      using True by simp
  next
    case False
    then have lt: "2 ^ 32 * ?hi + ?lo + 1 < 2 ^ 64" and lo1: "?lo + 1 < 2 ^ 32"
      using c(2) halves_no_wrap [OF c(3) c(2)] by simp_all
    then have "unat (c + 1) = (?lo + 1) + 2 ^ 32 * ?hi"
      unfolding c1 by (subst mod_less) simp_all
    then have "unat (c + 1) div 2 ^ 32 = ?hi"
      using lo1 by (simp only: div_mult_self2 [of "2 ^ 32"]) simp
    then show ?thesis
      using False c(3) by simp
  qed
  finally have "unat (ucast (drop_bit 32 (c + 1)) :: u32) =
      (if ?lo = 2 ^ 32 - 1 then (?hi + 1) mod 2 ^ 32 else ?hi)" .
  then show "(ucast (drop_bit 32 (c + 1)) :: u32) =
      (if (ucast c :: u32) + 1 = 0 then ucast (drop_bit 32 c) + 1 else ucast (drop_bit 32 c))"
    unfolding z by (simp add: word_unat_eq_iff hi unat_word_ariths split: if_splits)
qed

lemma chachaNext_Init: "chachaNext (chachaInit key iv c) = chachaInit key iv (c + 1)"
  using word64_succ_halves [of c]
  by (simp add: chachaNext_def chachaInit_def Let_def upt_rec list_update_append nth_append)

text \<open>Byte \<open>i\<close> of the key stream: byte \<open>i mod 64\<close> of the block with counter \<open>c + i div 64\<close>.\<close>

definition key_stream :: "bytes \<Rightarrow> bytes \<Rightarrow> u64 \<Rightarrow> nat \<Rightarrow> u8" where
  "key_stream key iv c i = chachaBlock (chachaInit key iv (c + of_nat (i div 64))) ! (i mod 64)"

lemma div_64_steps:
  "k mod 64 = 0 \<Longrightarrow> (k + 63) div 64 = k div 64" "k mod 64 = 0 \<Longrightarrow> (k + 64) div 64 = k div 64 + 1"
  "k mod 64 \<noteq> 0 \<Longrightarrow> (k + 63) div 64 = k div 64 + 1" "(k + 64) div 64 = k div 64 + 1"
  "Suc k mod 64 \<noteq> 0 \<Longrightarrow> Suc k div 64 = k div 64" for k :: nat
proof -
  show "k mod 64 = 0 \<Longrightarrow> (k + 63) div 64 = k div 64"
    by (simp add: div_add1_eq [of k 63])
  have "(k mod 64 + 63) div 64 = 1" if "k mod 64 \<noteq> 0"
    using that by (intro div_nat_eqI) auto
  then show "k mod 64 \<noteq> 0 \<Longrightarrow> (k + 63) div 64 = k div 64 + 1"
    by (simp add: div_add1_eq [of k 63])
qed (simp_all add: div_Suc)

lemma chachaByte_stream:
  assumes "s = chachaInit key iv (c + of_nat ((k + 63) div 64))"
    and "k mod 64 \<noteq> 0 \<Longrightarrow> b = chachaBlock (chachaInit key iv (c + of_nat (k div 64)))"
  shows "snd (snd (foldl chachaByte (s, b, out) (List.enumerate k data))) =
    out @ map (\<lambda>(i, d). d XOR key_stream key iv c i) (List.enumerate k data)"
  using assms
proof (induction data arbitrary: k s b out)
  case (Cons d data)
  let ?B = "chachaBlock (chachaInit key iv (c + of_nat (k div 64)))"
  let ?s = "chachaInit key iv (c + of_nat ((Suc k + 63) div 64))"
  have step: "chachaByte (s, b, out) (k, d) = (?s, ?B, out @ [d XOR ?B ! (k mod 64)])"
  proof (cases "k mod 64 = 0")
    case True
    then have "s = chachaInit key iv (c + of_nat (k div 64))"
      using Cons.prems(1) by (simp only: div_64_steps)
    moreover have "(Suc k + 63) div 64 = k div 64 + 1"
      using div_64_steps(4) [of k] by simp
    ultimately show ?thesis
      using True by (simp add: chachaByte_def chachaNext_Init ac_simps del: add_Suc)
  next
    case False
    have "(Suc k + 63) div 64 = k div 64 + 1"
      using div_64_steps(4) [of k] by (simp add: add.commute)
    then have "s = ?s"
      using Cons.prems(1) div_64_steps(3) [OF False] by metis
    then show ?thesis
      using False Cons.prems(2) by (simp add: chachaByte_def)
  qed
  have "Suc k mod 64 \<noteq> 0 \<Longrightarrow> ?B = chachaBlock (chachaInit key iv (c + of_nat (Suc k div 64)))"
    by (simp add: div_Suc)
  from Cons.IH [OF refl this] show ?case
    by (simp add: step key_stream_def)
qed simp

lemma BRChacha20_stream:
  "BRChacha20 key iv data c = map (\<lambda>(i, d). d XOR key_stream key iv c i) (List.enumerate 0 data)"
  using chachaByte_stream [of "chachaInit key iv c" key iv c 0 "[]" "[]" data]
  by (simp add: BRChacha20_def)

lemma length_BRChacha20 [simp]: "length (BRChacha20 key iv data c) = length data"
  by (simp add: BRChacha20_stream)

lemma nth_BRChacha20: "i < length data \<Longrightarrow> BRChacha20 key iv data c ! i = data ! i XOR key_stream key iv c i"
  by (simp add: BRChacha20_stream nth_enumerate_eq)

lemma BRChacha20_twice [simp]: "BRChacha20 key iv (BRChacha20 key iv data c) c = data"
  by (rule nth_equalityI) (simp_all add: nth_BRChacha20 xor.assoc)

lemma BRChacha20_Nil [simp]: "BRChacha20 key iv [] c = []"
  by (simp add: BRChacha20_stream)

section \<open>The tag\<close>

lemma polyLoop_shift: "polyLoop r (a @ b) (length a + i) h = polyLoop r b i h"
proof (induction r b i h rule: polyLoop.induct)
  case (1 r b i h)
  then show ?case
    by (subst (1 2) polyLoop.simps) (auto simp: add.assoc not_less)
qed

lemma polyLoop_prefix:
  assumes "i \<le> length a" and "16 dvd length a - i"
  shows "polyLoop r (a @ b) i h = polyLoop r (a @ b) (length a) (polyLoop r a i h)"
  using assms
proof (induction r a i h rule: polyLoop.induct)
  case (1 r a i h)
  show ?case
  proof (cases "i < length a")
    case True
    then have le: "i + 16 \<le> length a"
      using dvd_imp_le [OF 1(3)] by simp
    then have "16 dvd length a - (i + 16)"
      using 1(3) by (metis diff_diff_left dvd_diff_nat dvd_refl)
    then have IH: "polyLoop r (a @ b) (i + 16) (polyBlock r h (take 16 (drop i a)) True) =
        polyLoop r (a @ b) (length a) (polyLoop r a (i + 16) (polyBlock r h (take 16 (drop i a)) True))"
      using 1(1) [OF True] le by (simp add: not_less)
    have "polyLoop r (a @ b) i h = polyLoop r (a @ b) (i + 16) (polyBlock r h (take 16 (drop i a)) True)"
      using True le by (subst polyLoop.simps) (simp add: not_less)
    moreover have "polyLoop r a i h = polyLoop r a (i + 16) (polyBlock r h (take 16 (drop i a)) True)"
      using True le by (subst polyLoop.simps) (simp add: not_less)
    ultimately show ?thesis
      using IH by simp
  next
    case False
    then have "polyLoop r a i h = h"
      by (subst polyLoop.simps) simp
    then show ?thesis
      using False 1(2) by simp
  qed
qed

lemma Compress_append:
  assumes "16 dvd length a"
  shows "BRPoly1305Compress (BRPoly1305Compress h key a) key b = BRPoly1305Compress h key (a @ b)"
  using polyLoop_prefix [of 0 a "polyR key" b h] polyLoop_shift [of "polyR key" a b 0] assms
  by (simp add: BRPoly1305Compress_def)

lemma Compress_Nil [simp]: "BRPoly1305Compress h key [] = h"
  by (subst BRPoly1305Compress_def, subst polyLoop.simps) simp

definition pad16 :: "bytes \<Rightarrow> bytes" where
  "pad16 text = (if length text mod 16 = 0 then [] else replicate (16 - length text mod 16) 0)"

lemma length_pad16: "16 dvd length (text @ pad16 text)"
proof -
  have "length text + (16 - length text mod 16) = 16 * (length text div 16 + 1)"
  proof -
    have "length text = 16 * (length text div 16) + length text mod 16" "length text mod 16 < 16"
      by simp_all
    then show ?thesis by arith
  qed
  then show ?thesis
    by (auto simp: pad16_def mod_eq_0_iff_dvd)
qed

lemma aeadAbsorb_pads: "aeadAbsorb key h text = BRPoly1305Compress h key (text @ pad16 text)"
proof -
  let ?n = "length text div 16 * 16"
  have "?n \<le> length text"
    by simp
  then have n: "16 dvd length (take ?n text)"
    by (simp only: length_take min.absorb2 dvd_triv_right)
  have "length (drop ?n text) = length text mod 16"
    by (simp add: minus_div_mult_eq_mod)
  then have z: "drop ?n text = [] \<longleftrightarrow> length text mod 16 = 0"
    by (metis length_0_conv)
  have "BRPoly1305Compress (BRPoly1305Compress h key (take ?n text)) key (drop ?n text @ pad16 text) =
      BRPoly1305Compress h key (text @ pad16 text)"
    unfolding Compress_append [OF n] by (simp flip: append_assoc)
  then show ?thesis
    using z by (auto simp: aeadAbsorb_def Let_def pad16_def)
qed

lemma aeadTag_rfc:
  "aeadTag key ad cipher = BRPoly1305 key (ad @ pad16 ad @ cipher @ pad16 cipher @
     put_le 8 (of_nat (length ad) :: u64) @ put_le 8 (of_nat (length cipher) :: u64))"
  using Compress_append [OF length_pad16] 
  by (simp add: aeadTag_def Let_def aeadAbsorb_pads BRPoly1305_def BRPoly1305Final_def)

lemma length_aeadTag [simp]: "length (aeadTag key ad cipher) = 16"
  by (simp add: aeadTag_def Let_def BRPoly1305Final_def)

lemma le_num_inject: "length xs = length ys \<Longrightarrow> le_num xs = le_num ys \<longleftrightarrow> xs = ys"
proof (induction xs ys rule: list_induct2)
  case (Cons x xs y ys)
  have "unat x = unat y \<and> le_num xs = le_num ys" if "unat x + 256 * le_num xs = unat y + 256 * le_num ys"
  proof -
    have "(unat x + 256 * le_num xs) mod 256 = (unat y + 256 * le_num ys) mod 256"
      by (simp only: that)
    then have "unat x = unat y"
      using byte_less [of x] byte_less [of y] by simp
    then show ?thesis
      using that by simp
  qed
  then show ?case
    using Cons.IH by (auto simp: word_unat_eq_iff)
qed simp

lemma macDiffers_iff:
  assumes "length mac = 16" "length h = 16"
  shows "macDiffers mac h \<longleftrightarrow> mac \<noteq> h"
proof -
  have x: "a XOR b = 0 \<longleftrightarrow> a = b" for a b :: u32
    by (metis xor.assoc xor.left_neutral xor_self_eq)
  have "\<not> macDiffers mac h \<longleftrightarrow> le32_at mac 0 = le32_at h 0 \<and> le32_at mac 1 = le32_at h 1 \<and>
      le32_at mac 2 = le32_at h 2 \<and> le32_at mac 3 = le32_at h 3"
    by (auto simp: macDiffers_def or_eq_0_iff x)
  also have "\<dots> \<longleftrightarrow> mac = h"
    using le_num_words [OF assms(1)] le_num_words [OF assms(2)] le_num_inject [of mac h] assms by auto
  finally show ?thesis
    by blast
qed


section \<open>The two properties of the AEAD\<close>

lemma Encrypt_ok:
  assumes "length data div 64 < 0xffffffff" and "length data + 16 \<le> outLen"
  shows "BRChacha20Poly1305AEADEncrypt (Some outLen) key nonce data ad =
    (length data + 16,
     BRChacha20 key (drop 4 nonce) data (aeadCounter nonce + 1) @
     aeadTag (aeadMacKey key nonce) ad (BRChacha20 key (drop 4 nonce) data (aeadCounter nonce + 1)))"
  using assms by (simp add: BRChacha20Poly1305AEADEncrypt_def Let_def)

text \<open>C25. Decryption undoes encryption: for every key, nonce, associated data and plaintext shorter than
  the cipher's limit, what the encryption writes is \<open>length data + 16\<close> bytes, and the decryption with
  the same key, nonce and associated data accepts it and writes the plaintext back, given room.\<close>

theorem aead_decrypt_encrypt:
  assumes "length data div 64 < 0xffffffff" and "length data + 16 \<le> outLen" and "length data \<le> room"
  shows "length (snd (BRChacha20Poly1305AEADEncrypt (Some outLen) key nonce data ad)) = length data + 16 \<and>
    BRChacha20Poly1305AEADDecrypt (Some room) key nonce
      (snd (BRChacha20Poly1305AEADEncrypt (Some outLen) key nonce data ad)) ad = (length data, data)"
  using assms macDiffers_iff
  by (simp add: Encrypt_ok BRChacha20Poly1305AEADDecrypt_def Let_def)

text \<open>C26. Decryption accepts nothing else, and the tag is the standard's: a text for which decryption
  returns a plaintext is, byte for byte, the encryption of that plaintext under the same key, nonce and
  associated data, and its last 16 bytes are the Poly1305 tag, under the first 32 bytes of the key
  stream, of the associated data and the ciphertext, each zero-padded to 16 bytes, and their lengths.
  A text with any other tag yields length zero and no output.\<close>

theorem aead_accepts_only_encryptions:
  assumes "BRChacha20Poly1305AEADDecrypt (Some room) key nonce cipher ad = (n, data)" and "16 \<le> length cipher"
    and "(length cipher - 16) div 64 < 0xffffffff" and "length cipher \<le> room + 16"
  shows "let body = take (length cipher - 16) cipher;
      tag = BRPoly1305 (BRChacha20 key (drop 4 nonce) (replicate 32 0) (aeadCounter nonce))
        (ad @ pad16 ad @ body @ pad16 body @
         put_le 8 (of_nat (length ad) :: u64) @ put_le 8 (of_nat (length body) :: u64))
    in if drop (length cipher - 16) cipher = tag
       then n = length cipher - 16 \<and> length data = n \<and>
         BRChacha20Poly1305AEADEncrypt (Some (length cipher)) key nonce data ad = (length cipher, cipher)
       else n = 0 \<and> data = []"
proof -
  let ?body = "take (length cipher - 16) cipher"
  let ?tag = "aeadTag (aeadMacKey key nonce) ad ?body"
  have d: "macDiffers (drop (length cipher - 16) cipher) ?tag \<longleftrightarrow> drop (length cipher - 16) cipher \<noteq> ?tag"
    using assms(2) by (intro macDiffers_iff) simp_all
  show ?thesis
  proof (cases "drop (length cipher - 16) cipher = ?tag")
    case True
    then have "n = length cipher - 16" and "data = BRChacha20 key (drop 4 nonce) ?body (aeadCounter nonce + 1)"
      using assms d by (auto simp: BRChacha20Poly1305AEADDecrypt_def Let_def not_less)
    moreover have "?body @ ?tag = cipher"
      by (metis True append_take_drop_id)
    ultimately show ?thesis
      using True assms
      by (simp add: Encrypt_ok aeadMacKey_def aeadTag_rfc [symmetric])
  next
    case False
    then show ?thesis
      using assms d by (auto simp: BRChacha20Poly1305AEADDecrypt_def Let_def not_less aeadMacKey_def aeadTag_rfc)
  qed
qed

lemma aead_decrypt_encrypt_witness:
  "BRChacha20Poly1305AEADDecrypt (Some 5) [1] [2]
    (snd (BRChacha20Poly1305AEADEncrypt (Some 40) [1] [2] [7, 8, 9] [5])) [5] = (3, [7, 8, 9])"
  using aead_decrypt_encrypt [of "[7, 8, 9]" 40 5 "[1]" "[2]" "[5]"] by simp

lemma then_branch: "if P then A \<and> B \<and> C else (3 :: nat) = 0 \<and> D \<Longrightarrow> C"
  by (simp split: if_splits)

lemma aead_accepts_only_encryptions_witness:
  "let c = snd (BRChacha20Poly1305AEADEncrypt (Some 40) [1] [2] [7, 8, 9] [5])
   in BRChacha20Poly1305AEADEncrypt (Some 19) [1] [2] [7, 8, 9] [5] = (19, c)"
proof -
  let ?c = "snd (BRChacha20Poly1305AEADEncrypt (Some 40) [1] [2] [7, 8, 9] [5])"
  have c: "length ?c = 19"
    by (simp add: Encrypt_ok)
  have "BRChacha20Poly1305AEADDecrypt (Some 5) [1] [2] ?c [5] = (3, [7, 8, 9])"
    by (simp add: Encrypt_ok BRChacha20Poly1305AEADDecrypt_def Let_def macDiffers_iff)
  note * = aead_accepts_only_encryptions [OF this, unfolded Let_def c]
  show ?thesis
    unfolding Let_def by (rule then_branch, rule *) simp_all
qed

end
