(* ===== verification/KeyDerivation.thy ===== *)
theory KeyDerivation
  imports Hashes
begin

text \<open>
  HMAC, the HMAC-DRBG, PBKDF2, scrypt and the log tags of \<open>src/BRCrypto.c\<close>.  The hash a function is
  given is an argument with its digest length, as in the code; buffers are byte lists, and a buffer
  that the code xors word by word is xored byte by byte.
\<close>

section \<open>HMAC and the HMAC-DRBG\<close>

definition xor_bytes :: "bytes \<Rightarrow> bytes \<Rightarrow> bytes" where
  "xor_bytes a b = map2 (XOR) a b"

definition hmacBlockLen :: "nat \<Rightarrow> nat" where
  "hmacBlockLen hashLen = (if hashLen > 32 then 128 else 64)"

definition BRHMAC :: "(bytes \<Rightarrow> bytes) \<Rightarrow> nat \<Rightarrow> bytes \<Rightarrow> bytes \<Rightarrow> bytes" where
  "BRHMAC hash hashLen key data =
     (let blockLen = hmacBlockLen hashLen;
          key = (if length key > blockLen then hash key else key);
          kipad = map (\<lambda>b. b XOR 0x36) (key @ replicate (blockLen - length key) 0);
          kopad = map (\<lambda>b. b XOR 0x5c) (key @ replicate (blockLen - length key) 0)
      in hash (kopad @ hash (kipad @ data)))"

text \<open>One output block per turn; the result is the state \<open>(K, V)\<close> and the output.\<close>

function drbgOutput :: "(bytes \<Rightarrow> bytes) \<Rightarrow> nat \<Rightarrow> bytes \<Rightarrow> bytes \<Rightarrow> nat \<Rightarrow> nat \<Rightarrow> bytes \<times> bytes" where
  "drbgOutput hash hashLen K V outLen i =
     (if i * hashLen < outLen \<and> 0 < hashLen then
        let V = BRHMAC hash hashLen K V;
            n = (if i * hashLen + hashLen \<le> outLen then hashLen else outLen mod hashLen);
            (V', out) = drbgOutput hash hashLen K V outLen (i + 1)
        in (V', take n V @ out)
      else (V, []))"
  by pat_completeness auto
termination
  by (relation "measure (\<lambda>(hash, hashLen, K, V, outLen, i). outLen - i * hashLen)") auto

text \<open>A null seed, nonce or personalization string is \<open>None\<close>.\<close>

definition BRHMACDRBG :: "(bytes \<Rightarrow> bytes) \<Rightarrow> nat \<Rightarrow> nat \<Rightarrow> bytes \<Rightarrow> bytes \<Rightarrow> bytes option \<Rightarrow> bytes option \<Rightarrow>
    bytes option \<Rightarrow> bytes \<times> bytes \<times> bytes" where
  "BRHMACDRBG hash hashLen outLen K V seed nonce ps =
     (let fresh = (seed \<noteq> None \<or> nonce \<noteq> None \<or> ps \<noteq> None);
          K = (if fresh then replicate hashLen 0x00 else K);
          V = (if fresh then replicate hashLen 0x01 else V);
          bs = (\<lambda>x. case x of None \<Rightarrow> [] | Some b \<Rightarrow> b);
          entropy = bs seed @ bs nonce @ bs ps;
          K = BRHMAC hash hashLen K (take hashLen V @ [0x00] @ entropy);
          V = BRHMAC hash hashLen K V;
          (K, V) = (if fresh then
                      let K = BRHMAC hash hashLen K (take hashLen V @ [0x01] @ entropy)
                      in (K, BRHMAC hash hashLen K V)
                    else (K, V));
          (V, out) = drbgOutput hash hashLen K V outLen 0
      in (K, V, out))"

section \<open>PBKDF2\<close>

text \<open>The inner loop from round \<open>r\<close>, on the last \<open>U\<close> and the sum \<open>T\<close>.\<close>

function pbkdf2Rounds :: "(bytes \<Rightarrow> bytes) \<Rightarrow> nat \<Rightarrow> bytes \<Rightarrow> nat \<Rightarrow> nat \<Rightarrow> bytes \<Rightarrow> bytes \<Rightarrow> bytes" where
  "pbkdf2Rounds hash hashLen pw rounds r U T =
     (if r < rounds then
        let U = BRHMAC hash hashLen pw U in pbkdf2Rounds hash hashLen pw rounds (r + 1) U (xor_bytes T U)
      else T)"
  by pat_completeness auto
termination by (relation "measure (\<lambda>(hash, hashLen, pw, rounds, r, U, T). rounds - r)") auto

definition pbkdf2Block :: "(bytes \<Rightarrow> bytes) \<Rightarrow> nat \<Rightarrow> bytes \<Rightarrow> bytes \<Rightarrow> nat \<Rightarrow> nat \<Rightarrow> bytes" where
  "pbkdf2Block hash hashLen pw salt rounds i =
     (let U = BRHMAC hash hashLen pw (salt @ put_be 4 (of_nat (i + 1) :: u32))
      in pbkdf2Rounds hash hashLen pw rounds 1 U U)"

definition BRPBKDF2 :: "(bytes \<Rightarrow> bytes) \<Rightarrow> nat \<Rightarrow> bytes \<Rightarrow> bytes \<Rightarrow> nat \<Rightarrow> nat \<Rightarrow> bytes" where
  "BRPBKDF2 hash hashLen pw salt rounds dkLen =
     concat (map (\<lambda>i. take (if i * hashLen + hashLen \<le> dkLen then hashLen else dkLen mod hashLen)
                        (pbkdf2Block hash hashLen pw salt rounds i))
       [0..<(dkLen + hashLen - 1) div hashLen])"

section \<open>Scrypt\<close>

text \<open>Memory is a list of 32-bit words; a 64-bit word of the code is two of them.\<close>

text \<open>\<open>x[d] ^= rol32(x[a] + x[b], k)\<close>\<close>

definition salsaOp :: "u32 list \<Rightarrow> nat \<times> nat \<times> nat \<times> nat \<Rightarrow> u32 list" where
  "salsaOp x = (\<lambda>(d, a, b, k). x[d := x ! d XOR rol32 (x ! a + x ! b) k])"

definition salsaColumns :: "(nat \<times> nat \<times> nat \<times> nat) list" where
  "salsaColumns =
    [(4, 0, 12, 7), (8, 4, 0, 9), (12, 8, 4, 13), (0, 12, 8, 18),
     (9, 5, 1, 7), (13, 9, 5, 9), (1, 13, 9, 13), (5, 1, 13, 18),
     (14, 10, 6, 7), (2, 14, 10, 9), (6, 2, 14, 13), (10, 6, 2, 18),
     (3, 15, 11, 7), (7, 3, 15, 9), (11, 7, 3, 13), (15, 11, 7, 18)]"

definition salsaRows :: "(nat \<times> nat \<times> nat \<times> nat) list" where
  "salsaRows =
    [(1, 0, 3, 7), (2, 1, 0, 9), (3, 2, 1, 13), (0, 3, 2, 18),
     (6, 5, 4, 7), (7, 6, 5, 9), (4, 7, 6, 13), (5, 4, 7, 18),
     (11, 10, 9, 7), (8, 11, 10, 9), (9, 8, 11, 13), (10, 9, 8, 18),
     (12, 15, 14, 7), (13, 12, 15, 9), (14, 13, 12, 13), (15, 14, 13, 18)]"

definition salsa20_8 :: "u32 list \<Rightarrow> u32 list" where
  "salsa20_8 b =
     (let x = ((\<lambda>x. foldl salsaOp x (salsaColumns @ salsaRows)) ^^ 4) b in map2 (+) b x)"

text \<open>Block \<open>i\<close> of 16 words, and writing one.\<close>

definition sblock :: "u32 list \<Rightarrow> nat \<Rightarrow> u32 list" where "sblock s i = take 16 (drop (16 * i) s)"

definition put_block :: "u32 list \<Rightarrow> nat \<Rightarrow> u32 list \<Rightarrow> u32 list" where
  "put_block d i b = take (16 * i) d @ b @ drop (16 * i + 16) d"

text \<open>The loop of \<open>_blockmix_salsa8\<close>: \<open>i\<close> counts by two up to \<open>2 r\<close>; block \<open>i\<close> of \<open>src\<close> goes to block
  \<open>i / 2\<close> of \<open>dest\<close> and block \<open>i + 1\<close> to block \<open>r + i / 2\<close>.\<close>

function blockmixLoop :: "u32 list \<Rightarrow> nat \<Rightarrow> nat \<Rightarrow> u32 list \<Rightarrow> u32 list \<Rightarrow> u32 list" where
  "blockmixLoop src r i b dest =
     (if i < 2 * r then
        let b = salsa20_8 (map2 (XOR) b (sblock src i));
            dest = put_block dest (i div 2) b;
            b = salsa20_8 (map2 (XOR) b (sblock src (i + 1)));
            dest = put_block dest (i div 2 + r) b
        in blockmixLoop src r (i + 2) b dest
      else dest)"
  by pat_completeness auto
termination by (relation "measure (\<lambda>(src, r, i, b, dest). 2 * r - i)") auto

definition blockmix_salsa8 :: "u32 list \<Rightarrow> u32 list \<Rightarrow> nat \<Rightarrow> u32 list" where
  "blockmix_salsa8 dest src r = blockmixLoop src r 0 (sblock src (2 * r - 1)) dest"

text \<open>The two loops of the mixing, each doing two turns per pass, on \<open>x\<close>, \<open>y\<close> and the table \<open>v\<close>.\<close>

function romFill :: "nat \<Rightarrow> nat \<Rightarrow> nat \<Rightarrow> u32 list \<Rightarrow> u32 list \<Rightarrow> u32 list list \<Rightarrow> u32 list \<times> u32 list \<times> u32 list list" where
  "romFill n r j x y v =
     (if j < n then
        let v = v[j := x]; y = blockmix_salsa8 y x r; v = v[j + 1 := y]; x = blockmix_salsa8 x y r
        in romFill n r (j + 2) x y v
      else (x, y, v))"
  by pat_completeness auto
termination by (relation "measure (\<lambda>(n, r, j, x, y, v). n - j)") auto

definition integerify :: "nat \<Rightarrow> nat \<Rightarrow> u32 list \<Rightarrow> nat" where
  "integerify n r x =
     (let w = (ucast (x ! ((2 * r - 1) * 16)) OR push_bit 32 (ucast (x ! ((2 * r - 1) * 16 + 1))) :: u64)
      in unat (w AND of_nat (n - 1)))"

function romMix :: "nat \<Rightarrow> nat \<Rightarrow> nat \<Rightarrow> u32 list \<Rightarrow> u32 list \<Rightarrow> u32 list list \<Rightarrow> u32 list" where
  "romMix n r j x y v =
     (if j < n then
        let x = map2 (XOR) x (v ! integerify n r x); y = blockmix_salsa8 y x r;
            y = map2 (XOR) y (v ! integerify n r y); x = blockmix_salsa8 x y r
        in romMix n r (j + 2) x y v
      else x)"
  by pat_completeness auto
termination by (relation "measure (\<lambda>(n, r, j, x, y, v). n - j)") auto

declare blockmixLoop.simps [simp del] romFill.simps [simp del] romMix.simps [simp del]

definition scryptMix :: "nat \<Rightarrow> nat \<Rightarrow> u32 list \<Rightarrow> u32 list" where
  "scryptMix n r x =
     (let (x, y, v) = romFill n r 0 x (replicate (32 * r) 0) (replicate n []) in romMix n r 0 x y v)"

definition BRScrypt :: "nat \<Rightarrow> bytes \<Rightarrow> bytes \<Rightarrow> nat \<Rightarrow> nat \<Rightarrow> nat \<Rightarrow> bytes" where
  "BRScrypt dkLen pw salt n r p =
     (let b = BRPBKDF2 BRSHA256 32 pw salt 1 (128 * r * p);
          b = concat (map (\<lambda>i. concat (map (put_le 4)
                (scryptMix n r (map (\<lambda>j. le32_at b (i * 32 * r + j)) [0..<32 * r])))) [0..<p])
      in BRPBKDF2 BRSHA256 32 pw b 1 dkLen)"

section \<open>Log tags\<close>

definition hex_digit :: "nat \<Rightarrow> char" where "hex_digit n = ''0123456789abcdef'' ! n"

definition no_tag :: string where "no_tag = ''--------''"

text \<open>The key is \<open>None\<close> until it is set.\<close>

definition BRLogTagSetKey :: "bytes option \<Rightarrow> bytes option \<Rightarrow> bytes option" where
  "BRLogTagSetKey state key = (case key of None \<Rightarrow> state | Some k \<Rightarrow> Some (take 32 k))"

definition tag_lower :: "char \<Rightarrow> char" where
  "tag_lower c = (if of_char c \<ge> (65 :: nat) \<and> of_char c \<le> (70 :: nat) then char_of ((of_char c :: nat) + 32) else c)"

definition is_hex_lower :: "char \<Rightarrow> bool" where
  "is_hex_lower c \<longleftrightarrow> (of_char c \<ge> (48 :: nat) \<and> of_char c \<le> (57 :: nat)) \<or> (of_char c \<ge> (97 :: nat) \<and> of_char c \<le> (102 :: nat))"

definition BRLogTxTagHex :: "bytes option \<Rightarrow> string option \<Rightarrow> string" where
  "BRLogTxTagHex tagKey txid =
     (case (tagKey, txid) of
        (Some key, Some txid) \<Rightarrow>
          let hex = map tag_lower (take 64 txid)
          in if length txid < 64 \<or> \<not> list_all is_hex_lower hex then no_tag
             else let mac = BRHMAC BRSHA256 32 key (map of_char hex)
                  in concat (map (\<lambda>b. [hex_digit (unat (drop_bit 4 b)), hex_digit (unat (b AND 0x0f))]) (take 4 mac))
      | _ \<Rightarrow> no_tag)"

definition BRLogTxTag :: "bytes option \<Rightarrow> bytes option \<Rightarrow> string" where
  "BRLogTxTag tagKey txHash =
     (case txHash of None \<Rightarrow> no_tag
      | Some h \<Rightarrow> BRLogTxTagHex tagKey (Some (concat (map (\<lambda>b. [hex_digit (unat (drop_bit 4 b)), hex_digit (unat (b AND 0x0f))])
                    (rev (take 32 h))))))"

section \<open>PBKDF2 is the function of RFC 8018\<close>

lemma pbkdf2Rounds_fold:
  "r \<le> rounds \<Longrightarrow>
     pbkdf2Rounds hash hl pw rounds r ((BRHMAC hash hl pw ^^ r) s) T =
       foldl xor_bytes T (map (\<lambda>j. (BRHMAC hash hl pw ^^ j) s) [Suc r..<Suc rounds])"
proof (induction "rounds - r" arbitrary: r T)
  case 0
  then show ?case by simp
next
  case (Suc d)
  have lt: "r < rounds" using Suc.hyps(2) by linarith
  then have d: "d = rounds - Suc r" "Suc r \<le> rounds" using Suc.hyps(2) by linarith+
  have up: "[Suc r..<Suc rounds] = Suc r # [Suc (Suc r)..<Suc rounds]"
    using lt by (simp add: upt_conv_Cons del: upt_Suc)
  show ?case
    using lt Suc.hyps(1)[OF d] by (simp add: up Let_def del: upt_Suc)
qed

lemma length_foldl_xor:
  "list_all (\<lambda>u. length u = n) us \<Longrightarrow> length t = n \<Longrightarrow> length (foldl xor_bytes t us) = n"
  by (induction us arbitrary: t) (auto simp: xor_bytes_def)

lemma length_BRHMAC: "(\<And>m. length (hash m) = n) \<Longrightarrow> length (BRHMAC hash hl k d) = n"
  by (simp add: BRHMAC_def Let_def)

lemma pbkdf2Block_sum:
  assumes "0 < rounds"
  shows "pbkdf2Block hash hl pw salt rounds i =
     (let U = \<lambda>j. (BRHMAC hash hl pw ^^ j) (salt @ put_be 4 (of_nat (i + 1) :: u32))
      in foldl xor_bytes (U 1) (map U [2..<Suc rounds]))"
proof -
  have one: "Suc 0 \<le> rounds" using assms by simp
  show ?thesis
    using pbkdf2Rounds_fold[OF one, of hash hl pw "salt @ put_be 4 (of_nat (i + 1) :: u32)"]
    by (simp add: pbkdf2Block_def Let_def numeral_2_eq_2 del: upt_Suc)
qed

lemma length_pbkdf2Block:
  assumes "\<And>m. length (hash m) = n" "0 < rounds"
  shows "length (pbkdf2Block hash hl pw salt rounds i) = n"
proof -
  have U: "length ((BRHMAC hash hl pw ^^ Suc j) s) = n" for j s
    using assms(1) by (simp add: length_BRHMAC)
  have "list_all (\<lambda>u. length u = n) (map (\<lambda>j. (BRHMAC hash hl pw ^^ j) s) [2..<Suc rounds])" for s
  proof (clarsimp simp: list_all_iff simp del: upt_Suc)
    fix j :: nat assume "2 \<le> j"
    then obtain k where "j = Suc k" by (cases j) auto
    then show "length ((BRHMAC hash hl pw ^^ j) s) = n" using U by blast
  qed
  then show ?thesis
    using assms U[of 0] by (simp add: pbkdf2Block_sum Let_def length_foldl_xor del: upt_Suc)
qed

text \<open>Blocks of one length, each cut where the output ends, are the cut of the blocks.\<close>

lemma concat_blocks_take:
  "(\<And>i. length (f i) = h) \<Longrightarrow> dk \<le> n * h \<Longrightarrow>
     concat (map (\<lambda>i. take (dk - i * h) (f i)) [0..<n]) = take dk (concat (map f [0..<n]))"
proof (induction n)
  case (Suc n)
  have len: "length (concat (map f [0..<n])) = n * h"
    using Suc.prems(1) by (simp add: length_concat comp_def sum_list_triv)
  show ?case
  proof (cases "dk \<le> n * h")
    case True
    then show ?thesis using Suc len by simp
  next
    case False
    have "concat (map (\<lambda>i. take (dk - i * h) (f i)) [0..<n]) = concat (map f [0..<n])"
    proof (rule arg_cong[where f = concat], rule map_cong[OF refl])
      fix i assume "i \<in> set [0..<n]"
      then have "Suc i \<le> n" by simp
      then have "Suc i * h \<le> n * h" by (rule mult_le_mono1)
      then show "take (dk - i * h) (f i) = f i" using False Suc.prems(1)[of i] by simp
    qed
    then show ?thesis using False len by simp
  qed
qed simp

lemma pbkdf2_cut:
  assumes "0 < (h :: nat)" "i < (dk + h - 1) div h" "length b = h"
  shows "take (if i * h + h \<le> dk then h else dk mod h) b = take (dk - i * h) b"
proof (cases "i * h + h \<le> dk")
  case True
  then show ?thesis using assms(3) by simp
next
  case False
  have "Suc i * h \<le> (dk + h - 1) div h * h" using assms(2) by (intro mult_le_mono1) simp
  also have "\<dots> \<le> dk + h - 1" by simp
  finally have lt: "i * h < dk" using assms(1) by simp
  then have "dk mod h = dk - i * h"
    using False by (metis add.commute add_diff_inverse_nat less_diff_conv2 less_imp_le linorder_not_less mod_less mod_mult_self3 mult.commute nat_less_le)
  then show ?thesis using False by simp
qed

text \<open>
  PBKDF2 is the function of RFC 8018: with \<open>U j\<close> the \<open>j\<close>-fold HMAC of the salt followed by the
  big-endian block number, a block is the exclusive or of \<open>U 1\<close> to \<open>U rounds\<close>, and the derived key
  is the requested number of bytes of the blocks one after another.  This holds for every hash whose
  digests have the announced length, and the key has exactly the requested length.\<close>
theorem pbkdf2_is_rfc_8018:
  assumes "0 < hashLen" "\<And>m. length (hash m) = hashLen" "0 < rounds"
  shows "BRPBKDF2 hash hashLen pw salt rounds dkLen =
      take dkLen (concat (map (\<lambda>i. let U = \<lambda>j. (BRHMAC hash hashLen pw ^^ j) (salt @ put_be 4 (of_nat i :: u32))
                                   in foldl xor_bytes (U 1) (map U [2..<Suc rounds]))
                      [1..<Suc ((dkLen + hashLen - 1) div hashLen)])) \<and>
    length (BRPBKDF2 hash hashLen pw salt rounds dkLen) = dkLen"
proof -
  let ?n = "(dkLen + hashLen - 1) div hashLen"
  let ?f = "pbkdf2Block hash hashLen pw salt rounds"
  have len: "\<And>i. length (?f i) = hashLen" using assms by (simp add: length_pbkdf2Block)
  have "dkLen + hashLen - 1 < Suc ?n * hashLen"
    using assms(1) by (metis add.commute mod_less_divisor mult.commute mult_Suc div_mult_mod_eq add_less_cancel_left)
  then have n: "dkLen \<le> ?n * hashLen" using assms(1) by simp
  have "BRPBKDF2 hash hashLen pw salt rounds dkLen = concat (map (\<lambda>i. take (dkLen - i * hashLen) (?f i)) [0..<?n])"
    unfolding BRPBKDF2_def
    by (rule arg_cong[where f = concat], rule map_cong[OF refl])
       (simp only: set_upt atLeastLessThan_iff pbkdf2_cut[OF assms(1) _ len])
  also have "\<dots> = take dkLen (concat (map ?f [0..<?n]))" using len n by (rule concat_blocks_take)
  finally have eq: "BRPBKDF2 hash hashLen pw salt rounds dkLen = take dkLen (concat (map ?f [0..<?n]))" .
  have "[1..<Suc ?n] = map Suc [0..<?n]" by (simp only: map_Suc_upt One_nat_def)
  moreover have "?f = (\<lambda>i. let U = \<lambda>j. (BRHMAC hash hashLen pw ^^ j) (salt @ put_be 4 (of_nat (Suc i) :: u32))
                              in foldl xor_bytes (U 1) (map U [2..<Suc rounds]))"
    using pbkdf2Block_sum[OF assms(3)] by (intro ext) simp
  moreover have "length (take dkLen (concat (map ?f [0..<?n]))) = dkLen"
    using n len by (simp add: length_concat comp_def sum_list_triv)
  ultimately show ?thesis by (simp only: eq map_map comp_def)
qed

theorem pbkdf2_is_rfc_8018_witness:
  "length (BRPBKDF2 BRSHA256 32 [1, 2] [3] 2 40) = 40"
  by (rule conjunct2[OF pbkdf2_is_rfc_8018]) simp_all

end
