(* ===== verification/HashSet.thy ===== *)
theory HashSet
  imports Machine
begin

text \<open>
  The hash set of \<open>src/BRSet.c\<close>: open addressing with linear probing, a table that grows through a
  list of primes, and a removal that re-adds the run of items after the hole.  An item is the
  pointer the code stores; the hash and the equality are the two functions the set is made with.
  The number of buckets is the length of the table.  A probe that never meets an empty or equal
  bucket never ends in the code and is \<open>None\<close> here, as is an access to a table that was never made.
\<close>

section \<open>The set\<close>

record 'a brset =
  set_table :: "'a option list"
  set_count :: nat
  set_hash :: "'a \<Rightarrow> u64"
  set_eq :: "'a \<Rightarrow> 'a \<Rightarrow> bool"

definition tableSizes :: "nat list" where
  "tableSizes =
    [1, 3, 7, 13, 23, 37, 59, 97, 149, 227, 347, 523, 787, 1187, 1783, 2677, 4019, 6037, 9059, 13591,
     20389, 30593, 45887, 68863, 103307, 154981, 232487, 348739, 523129, 784697, 1177067, 1765609,
     2648419, 3972643, 5958971, 8938469, 13407707, 20111563, 30167359, 45251077, 67876637, 101814991,
     152722489, 229083739, 343625629, 515438447, 773157683, 1159736527, 1739604799, 2609407319, 3914111041]"

definition sizeIndex :: "nat \<Rightarrow> nat" where
  "sizeIndex capacity = length (takeWhile (\<lambda>s. s < capacity) tableSizes)"

text \<open>A capacity past the table sizes leaves the table as it was.\<close>

definition BRSetInit :: "'a brset \<Rightarrow> ('a \<Rightarrow> u64) \<Rightarrow> ('a \<Rightarrow> 'a \<Rightarrow> bool) \<Rightarrow> nat \<Rightarrow> 'a brset" where
  "BRSetInit s h e capacity =
     (let i = sizeIndex capacity;
          s = (if i + 1 < length tableSizes then s\<lparr>set_table := replicate (tableSizes ! (i + 1)) None\<rparr> else s)
      in s\<lparr>set_count := 0, set_hash := h, set_eq := e\<rparr>)"

definition BRSetNew :: "('a \<Rightarrow> u64) \<Rightarrow> ('a \<Rightarrow> 'a \<Rightarrow> bool) \<Rightarrow> nat \<Rightarrow> 'a brset" where
  "BRSetNew h e capacity = BRSetInit \<lparr>set_table = [], set_count = 0, set_hash = h, set_eq = e\<rparr> h e capacity"

section \<open>Probing\<close>

text \<open>From bucket \<open>i\<close> to the first bucket that is empty or holds an item that stops the probe.\<close>

primrec probe :: "'a option list \<Rightarrow> ('a \<Rightarrow> bool) \<Rightarrow> nat \<Rightarrow> nat \<Rightarrow> nat option" where
  "probe t stop 0 i = None"
| "probe t stop (Suc fuel) i =
     (case t ! i of None \<Rightarrow> Some i
      | Some x \<Rightarrow> if stop x then Some i else probe t stop fuel (Suc i mod length t))"

text \<open>Every probe of the code: at most one visit of each bucket, or it does not end.\<close>

definition setFind :: "'a brset \<Rightarrow> 'a \<Rightarrow> nat option" where
  "setFind s item =
     (let size = length (set_table s)
      in if size = 0 then None
         else probe (set_table s) (\<lambda>t. t = item \<or> set_eq s t item) size (unat (set_hash s item) mod size))"

section \<open>Operations\<close>

definition load_limit :: "nat \<Rightarrow> nat" where "load_limit n = ((n + 2) div 3) * 2"

text \<open>The loop of \<open>BRSetUnion\<close> over the other set's table, with the addition as an argument.\<close>

primrec unionLoop :: "('a brset \<Rightarrow> 'a \<Rightarrow> ('a brset \<times> 'a option) option) \<Rightarrow> 'a brset \<Rightarrow> 'a option list \<Rightarrow> 'a brset option" where
  "unionLoop add s [] = Some s"
| "unionLoop add s (b # bs) =
     (case b of None \<Rightarrow> unionLoop add s bs
      | Some x \<Rightarrow> (case add s x of None \<Rightarrow> None | Some (s', r) \<Rightarrow> unionLoop add s' bs))"

text \<open>Growing: the new set is a local variable, so a capacity past the table sizes leaves its table
  undefined.\<close>

definition setGrow :: "('a brset \<Rightarrow> 'a \<Rightarrow> ('a brset \<times> 'a option) option) \<Rightarrow> 'a brset \<Rightarrow> nat \<Rightarrow> 'a brset option" where
  "setGrow add s capacity =
     (if sizeIndex capacity + 1 < length tableSizes then
        case unionLoop add (BRSetNew (set_hash s) (set_eq s) capacity) (set_table s) of
          None \<Rightarrow> None
        | Some n \<Rightarrow> Some (s\<lparr>set_table := set_table n, set_count := set_count n\<rparr>)
      else None)"

text \<open>The first argument bounds how often additions may grow tables inside one another.\<close>

primrec setAdd :: "nat \<Rightarrow> 'a brset \<Rightarrow> 'a \<Rightarrow> ('a brset \<times> 'a option) option" where
  "setAdd 0 s item = None"
| "setAdd (Suc depth) s item =
     (case setFind s item of None \<Rightarrow> None
      | Some i \<Rightarrow>
          let size = length (set_table s);
              t = set_table s ! i;
              s = (if t = None then s\<lparr>set_count := set_count s + 1\<rparr> else s);
              s = s\<lparr>set_table := (set_table s)[i := Some item]\<rparr>
          in if set_count s > load_limit size
             then map_option (\<lambda>s. (s, t)) (setGrow (setAdd depth) s size)
             else Some (s, t))"

text \<open>Each growth moves to a later table size, so one level per size is enough.\<close>

definition BRSetAdd :: "'a brset \<Rightarrow> 'a \<Rightarrow> ('a brset \<times> 'a option) option" where
  "BRSetAdd = setAdd (length tableSizes)"

definition BRSetGrow :: "'a brset \<Rightarrow> nat \<Rightarrow> 'a brset option" where "BRSetGrow = setGrow BRSetAdd"

definition BRSetUnion :: "'a brset \<Rightarrow> 'a brset \<Rightarrow> 'a brset option" where
  "BRSetUnion s other = unionLoop BRSetAdd s (set_table other)"

text \<open>The cleanup loop of the removal, from bucket \<open>i\<close>; it ends within one turn of the table, or not at
  all.\<close>

primrec setCleanup :: "nat \<Rightarrow> nat \<Rightarrow> 'a brset \<Rightarrow> nat \<Rightarrow> 'a brset option" where
  "setCleanup n 0 s i = None"
| "setCleanup n (Suc fuel) s i =
     (case set_table s ! i of None \<Rightarrow> Some s
      | Some t \<Rightarrow>
          (case BRSetAdd (s\<lparr>set_count := set_count s - 1, set_table := (set_table s)[i := None]\<rparr>) t of
             None \<Rightarrow> None
           | Some (s', r) \<Rightarrow> setCleanup n fuel s' (Suc i mod n)))"

definition BRSetRemove :: "'a brset \<Rightarrow> 'a \<Rightarrow> ('a brset \<times> 'a option) option" where
  "BRSetRemove s item =
     (case setFind s item of None \<Rightarrow> None
      | Some i \<Rightarrow>
          let size = length (set_table s); r = set_table s ! i
          in if r = None then Some (s, r)
             else map_option (\<lambda>s. (s, r))
                    (setCleanup size size
                       (s\<lparr>set_count := set_count s - 1, set_table := (set_table s)[i := None]\<rparr>) (Suc i mod size)))"

definition BRSetClear :: "'a brset \<Rightarrow> 'a brset" where
  "BRSetClear s = s\<lparr>set_table := replicate (length (set_table s)) None, set_count := 0\<rparr>"

definition BRSetCount :: "'a brset \<Rightarrow> nat" where "BRSetCount s = set_count s"

text \<open>The result of a search is \<open>None\<close> when it does not end.\<close>

definition BRSetGet :: "'a brset \<Rightarrow> 'a \<Rightarrow> 'a option option" where
  "BRSetGet s item = map_option (\<lambda>i. set_table s ! i) (setFind s item)"

definition BRSetContains :: "'a brset \<Rightarrow> 'a \<Rightarrow> bool option" where
  "BRSetContains s item = map_option (\<lambda>r. r \<noteq> None) (BRSetGet s item)"

primrec intersectsLoop :: "'a brset \<Rightarrow> 'a option list \<Rightarrow> bool option" where
  "intersectsLoop s [] = Some False"
| "intersectsLoop s (b # bs) =
     (case b of None \<Rightarrow> intersectsLoop s bs
      | Some t \<Rightarrow> (case BRSetGet s t of None \<Rightarrow> None
                   | Some (Some y) \<Rightarrow> Some True | Some None \<Rightarrow> intersectsLoop s bs))"

definition BRSetIntersects :: "'a brset \<Rightarrow> 'a brset \<Rightarrow> bool option" where
  "BRSetIntersects s other = intersectsLoop s (set_table other)"

text \<open>The items of a table in the order of the buckets.\<close>

definition bucket_items :: "'a option list \<Rightarrow> 'a list" where
  "bucket_items t = concat (map (\<lambda>b. case b of None \<Rightarrow> [] | Some x \<Rightarrow> [x]) t)"

definition BRSetIterate :: "'a brset \<Rightarrow> 'a option \<Rightarrow> 'a option option" where
  "BRSetIterate s previous =
     map_option (\<lambda>i. case bucket_items (drop i (set_table s)) of [] \<Rightarrow> None | x # xs \<Rightarrow> Some x)
       (case previous of None \<Rightarrow> Some 0 | Some p \<Rightarrow> map_option Suc (setFind s p))"

definition BRSetAll :: "'a brset \<Rightarrow> nat \<Rightarrow> 'a list" where
  "BRSetAll s count = take count (bucket_items (set_table s))"

definition BRSetApply :: "'a brset \<Rightarrow> 'i \<Rightarrow> ('i \<Rightarrow> 'a \<Rightarrow> 'i) \<Rightarrow> 'i" where
  "BRSetApply s info apply_fn = foldl apply_fn info (bucket_items (set_table s))"

primrec minusLoop :: "'a brset \<Rightarrow> 'a option list \<Rightarrow> 'a brset option" where
  "minusLoop s [] = Some s"
| "minusLoop s (b # bs) =
     (case b of None \<Rightarrow> minusLoop s bs
      | Some x \<Rightarrow> (case BRSetRemove s x of None \<Rightarrow> None | Some (s', r) \<Rightarrow> minusLoop s' bs))"

definition BRSetMinus :: "'a brset \<Rightarrow> 'a brset \<Rightarrow> 'a brset option" where
  "BRSetMinus s other = minusLoop s (set_table other)"

text \<open>Each turn of the loop removes an item or advances, so two turns per bucket are enough.\<close>

primrec intersectLoop :: "nat \<Rightarrow> nat \<Rightarrow> 'a brset \<Rightarrow> 'a brset \<Rightarrow> nat \<Rightarrow> 'a brset option" where
  "intersectLoop n 0 other s i = None"
| "intersectLoop n (Suc fuel) other s i =
     (if i < n then
        case set_table s ! i of None \<Rightarrow> intersectLoop n fuel other s (i + 1)
        | Some t \<Rightarrow>
            (case BRSetContains other t of None \<Rightarrow> None
             | Some True \<Rightarrow> intersectLoop n fuel other s (i + 1)
             | Some False \<Rightarrow>
                 (case BRSetRemove s t of None \<Rightarrow> None
                  | Some (s', r) \<Rightarrow> intersectLoop n fuel other s' i))
      else Some s)"

definition BRSetIntersect :: "'a brset \<Rightarrow> 'a brset \<Rightarrow> 'a brset option" where
  "BRSetIntersect s other =
     (let size = length (set_table s) in intersectLoop size (2 * size + 1) other s 0)"

declare setAdd.simps(2) [simp del]

section \<open>Cyclic order of the buckets\<close>

definition between :: "nat \<Rightarrow> nat \<Rightarrow> nat \<Rightarrow> bool" where
  "between a b x \<longleftrightarrow> (if a \<le> b then a \<le> x \<and> x \<le> b else a \<le> x \<or> x \<le> b)"

definition cyc_dist :: "nat \<Rightarrow> nat \<Rightarrow> nat \<Rightarrow> nat" where
  "cyc_dist n a b = (if a \<le> b then b - a else n - a + b)"

lemma cyc_next: "i < n \<Longrightarrow> Suc i mod n = (if Suc i = n then 0 else Suc i)"
  by auto

lemma cyc_dist_less: "a < n \<Longrightarrow> b < n \<Longrightarrow> cyc_dist n a b < n"
  by (auto simp: cyc_dist_def)

lemma cyc_dist_next: "a < n \<Longrightarrow> b < n \<Longrightarrow> a \<noteq> b \<Longrightarrow> cyc_dist n a b = Suc (cyc_dist n (Suc a mod n) b)"
  by (auto simp: cyc_dist_def cyc_next)

lemma between_refl [simp]: "between a b a" "between a b b"
  by (auto simp: between_def)

lemma between_self: "between a a x \<longleftrightarrow> x = a"
  by (auto simp: between_def)

lemma between_next:
  "a < n \<Longrightarrow> b < n \<Longrightarrow> x < n \<Longrightarrow> a \<noteq> b \<Longrightarrow> between a b x \<longleftrightarrow> x = a \<or> between (Suc a mod n) b x"
  by (auto simp: between_def cyc_next)

text \<open>A probe ends at the first bucket that stops it.\<close>

definition stops :: "'a option list \<Rightarrow> ('a \<Rightarrow> bool) \<Rightarrow> nat \<Rightarrow> bool" where
  "stops t stop i = (case t ! i of None \<Rightarrow> True | Some x \<Rightarrow> stop x)"

definition first_stop :: "'a option list \<Rightarrow> ('a \<Rightarrow> bool) \<Rightarrow> nat \<Rightarrow> nat \<Rightarrow> bool" where
  "first_stop t stop a b \<longleftrightarrow> b < length t \<and> stops t stop b \<and>
     (\<forall>x < length t. between a b x \<longrightarrow> x \<noteq> b \<longrightarrow> \<not> stops t stop x)"

lemma probe_step:
  "probe t stop (Suc fuel) i = (if stops t stop i then Some i else probe t stop fuel (Suc i mod length t))"
  by (auto simp: stops_def split: option.splits)

lemma probe_first_stop:
  "first_stop t stop a b \<Longrightarrow> a < length t \<Longrightarrow> cyc_dist (length t) a b < fuel \<Longrightarrow> probe t stop fuel a = Some b"
proof (induction fuel arbitrary: a)
  case (Suc fuel)
  let ?n = "length t" and ?a = "Suc a mod length t"
  have b: "b < ?n" "stops t stop b" using Suc.prems(1) by (auto simp: first_stop_def)
  show ?case
  proof (cases "a = b")
    case True
    then show ?thesis using b by (simp only: probe_step if_True)
  next
    case False
    then have no: "\<not> stops t stop a"
      using Suc.prems by (auto simp: first_stop_def)
    have a: "?a < ?n" by (rule mod_less_divisor) (use b(1) in linarith)
    have "first_stop t stop ?a b"
      using Suc.prems(1,2) b False by (auto simp: first_stop_def between_next)
    moreover have "cyc_dist ?n ?a b < fuel"
      using Suc.prems(2,3) b False cyc_dist_next[of a ?n b] by simp
    ultimately show ?thesis using Suc.IH[OF _ a] no by (simp only: probe_step if_False)
  qed
qed simp

lemma first_stop_exists:
  "a < length t \<Longrightarrow> e < length t \<Longrightarrow> stops t stop e \<Longrightarrow> \<exists>b. first_stop t stop a b \<and> between a e b"
proof (induction "cyc_dist (length t) a e" arbitrary: a)
  case 0
  then have "a = e" by (auto simp: cyc_dist_def split: if_splits)
  then show ?case using 0 by (auto simp: first_stop_def between_self)
next
  case (Suc d)
  let ?n = "length t" and ?a = "Suc a mod length t"
  show ?case
  proof (cases "stops t stop a")
    case True
    then show ?thesis using Suc.prems by (intro exI[of _ a]) (auto simp: first_stop_def between_self)
  next
    case False
    then have ne: "a \<noteq> e" using Suc.prems by auto
    have "d = cyc_dist ?n ?a e"
      using Suc.hyps(2) Suc.prems ne cyc_dist_next[of a ?n e] by simp
    moreover have "?a < ?n" by (rule mod_less_divisor) (use Suc.prems in linarith)
    ultimately obtain b where b: "first_stop t stop ?a b" "between ?a e b"
      using Suc.hyps(1)[of ?a] Suc.prems by blast
    have bn: "b < ?n" "stops t stop b" using b(1) by (auto simp: first_stop_def)
    have "a \<noteq> b" using False bn by auto
    have "between a e b" using Suc.prems ne b(2) bn by (simp add: between_next)
    moreover have "first_stop t stop a b"
      using b(1) Suc.prems bn \<open>a \<noteq> b\<close> False by (auto simp: first_stop_def between_next)
    ultimately show ?thesis by blast
  qed
qed

lemma probe_ends:
  assumes "a < length t" "e < length t" "stops t stop e"
  obtains b where "probe t stop (length t) a = Some b" "first_stop t stop a b" "between a e b"
  using first_stop_exists[OF assms] probe_first_stop[OF _ assms(1)] cyc_dist_less[OF assms(1)]
  by (metis first_stop_def)

section \<open>Tables\<close>

definition keyed :: "('a \<Rightarrow> u64) \<Rightarrow> ('a \<Rightarrow> 'a \<Rightarrow> bool) \<Rightarrow> bool" where
  "keyed h e \<longleftrightarrow> (\<forall>x. e x x) \<and> (\<forall>x y. e x y \<longrightarrow> e y x \<and> h x = h y) \<and> (\<forall>x y z. e x y \<longrightarrow> e y z \<longrightarrow> e x z)"

lemma keyedD:
  assumes "keyed h e"
  shows "e x x" "e x y \<Longrightarrow> e y x" "e x y \<Longrightarrow> h x = h y" "e x y \<Longrightarrow> e y z \<Longrightarrow> e x z"
  using assms unfolding keyed_def by blast+

definition home :: "('a \<Rightarrow> u64) \<Rightarrow> 'a option list \<Rightarrow> 'a \<Rightarrow> nat" where
  "home h t x = unat (h x) mod length t"

definition occ :: "'a option list \<Rightarrow> nat set" where "occ t = {j. j < length t \<and> t ! j \<noteq> None}"

definition items :: "'a option list \<Rightarrow> 'a set" where "items t = {x. \<exists>j < length t. t ! j = Some x}"

text \<open>No hole between the home of an item and its bucket.\<close>

definition placed :: "('a \<Rightarrow> u64) \<Rightarrow> 'a option list \<Rightarrow> nat \<Rightarrow> bool" where
  "placed h t j \<longleftrightarrow> (\<forall>x. t ! j = Some x \<longrightarrow> (\<forall>y < length t. between (home h t x) j y \<longrightarrow> t ! y \<noteq> None))"

definition uniq :: "('a \<Rightarrow> 'a \<Rightarrow> bool) \<Rightarrow> 'a option list \<Rightarrow> bool" where
  "uniq e t \<longleftrightarrow> (\<forall>i < length t. \<forall>j < length t. \<forall>x y. t ! i = Some x \<longrightarrow> t ! j = Some y \<longrightarrow> e x y \<longrightarrow> i = j)"

lemma uniqD: "uniq e t \<Longrightarrow> t ! i = Some x \<Longrightarrow> t ! j = Some y \<Longrightarrow> e x y \<Longrightarrow> i < length t \<Longrightarrow> j < length t \<Longrightarrow> i = j"
  unfolding uniq_def by blast

lemma home_less: "0 < length t \<Longrightarrow> home h t x < length t"
  by (simp add: home_def)

lemma home_cong: "length t = length t' \<Longrightarrow> home h t x = home h t' x"
  by (simp add: home_def)

lemma finite_occ [simp]: "finite (occ t)"
  by (simp add: occ_def)

lemma occ_put: "i < length t \<Longrightarrow> occ (t[i := Some x]) = insert i (occ t)"
  by (auto simp: occ_def nth_list_update)

lemma occ_clear: "occ (t[i := None]) = occ t - {i}"
  by (cases "i < length t") (auto simp: occ_def nth_list_update)

lemma card_occ_le: "card (occ t) \<le> length t"
proof -
  have "occ t \<subseteq> {..<length t}" by (auto simp: occ_def)
  then show ?thesis using card_mono[of "{..<length t}" "occ t"] by simp
qed

lemma some_hole:
  assumes "card (occ t) < length t"
  obtains e where "e < length t" "t ! e = None"
proof -
  have "\<exists>e < length t. t ! e = None"
  proof (rule ccontr)
    assume "\<not> (\<exists>e < length t. t ! e = None)"
    then have "occ t = {..<length t}" by (auto simp: occ_def)
    then show False using assms by simp
  qed
  then show ?thesis using that by blast
qed

section \<open>Searching\<close>

lemma setFind_home:
  assumes "0 < length (set_table s)"
  shows "setFind s item = probe (set_table s) (\<lambda>t. t = item \<or> set_eq s t item) (length (set_table s))
           (home (set_hash s) (set_table s) item)"
  using assms by (simp add: setFind_def home_def Let_def)

lemma stops_absent:
  assumes "\<And>x. x \<in> items t \<Longrightarrow> \<not> stop x" "i < length t"
  shows "stops t stop i \<longleftrightarrow> t ! i = None"
  using assms by (auto simp: stops_def items_def split: option.splits)

text \<open>An item without an equal one is looked for up to the first hole after its home.\<close>

lemma setFind_absent:
  assumes "keyed (set_hash s) (set_eq s)" "\<And>x. x \<in> items (set_table s) \<Longrightarrow> \<not> set_eq s x item"
    and "e < length (set_table s)" "set_table s ! e = None"
  obtains b where "setFind s item = Some b" "b < length (set_table s)" "set_table s ! b = None"
    "between (home (set_hash s) (set_table s) item) e b"
    "\<And>y. y < length (set_table s) \<Longrightarrow> between (home (set_hash s) (set_table s) item) b y \<Longrightarrow> y \<noteq> b \<Longrightarrow> set_table s ! y \<noteq> None"
proof -
  let ?t = "set_table s" and ?stop = "\<lambda>t. t = item \<or> set_eq s t item" and ?a = "home (set_hash s) (set_table s) item"
  have n: "0 < length ?t" using assms(3) by linarith
  have st: "stops ?t ?stop i \<longleftrightarrow> ?t ! i = None" if "i < length ?t" for i
    using assms(2) keyedD(1)[OF assms(1)] that by (intro stops_absent) auto
  obtain b where b: "probe ?t ?stop (length ?t) ?a = Some b" "first_stop ?t ?stop ?a b" "between ?a e b"
  proof (rule probe_ends)
    show "?a < length ?t" using n by (rule home_less)
    show "e < length ?t" by (rule assms(3))
    show "stops ?t ?stop e" using st assms(3,4) by blast
  qed blast
  have "b < length ?t" "?t ! b = None" and y: "\<And>y. y < length ?t \<Longrightarrow> between ?a b y \<Longrightarrow> y \<noteq> b \<Longrightarrow> ?t ! y \<noteq> None"
    using b(2) st by (auto simp: first_stop_def)
  moreover have "setFind s item = Some b" using n b(1) by (simp add: setFind_home)
  ultimately show ?thesis using that b(3) by blast
qed

lemma setFind_present:
  assumes "keyed (set_hash s) (set_eq s)" "uniq (set_eq s) (set_table s)"
    and "j < length (set_table s)" "set_table s ! j = Some x" "set_eq s x item" "placed (set_hash s) (set_table s) j"
  shows "setFind s item = Some j"
proof -
  let ?t = "set_table s" and ?stop = "\<lambda>t. t = item \<or> set_eq s t item" and ?a = "home (set_hash s) (set_table s) item"
  have n: "0 < length ?t" using assms(3) by linarith
  have a: "home (set_hash s) ?t x = ?a" using keyedD(3)[OF assms(1,5)] by (simp add: home_def)
  have "stops ?t ?stop j" using assms(4,5) by (simp add: stops_def)
  moreover have "\<not> stops ?t ?stop y" if y: "y < length ?t" "between ?a j y" "y \<noteq> j" for y
  proof -
    obtain z where z: "?t ! y = Some z" using assms(4,6) y a by (auto simp: placed_def)
    have "\<not> set_eq s z item"
    proof
      assume "set_eq s z item"
      then have "set_eq s z x" using keyedD(2,4)[OF assms(1)] assms(5) by blast
      then show False using uniqD[OF assms(2) z assms(4)] y assms(3) by blast
    qed
    then show ?thesis using z keyedD(1)[OF assms(1)] by (auto simp: stops_def)
  qed
  ultimately have "first_stop ?t ?stop ?a j" using assms(3) by (auto simp: first_stop_def)
  then have "probe ?t ?stop (length ?t) ?a = Some j"
    by (intro probe_first_stop home_less cyc_dist_less n assms(3))
  then show ?thesis using n by (simp add: setFind_home)
qed

section \<open>Adding\<close>

definition table_ok :: "('a \<Rightarrow> u64) \<Rightarrow> ('a \<Rightarrow> 'a \<Rightarrow> bool) \<Rightarrow> 'a option list \<Rightarrow> bool" where
  "table_ok h e t \<longleftrightarrow> keyed h e \<and> uniq e t \<and> (\<forall>j < length t. placed h t j)"

text \<open>The invariant: every item can be found, equal items are not stored twice, the count is exact and
  the load is within the limit.\<close>

definition set_ok :: "'a brset \<Rightarrow> bool" where
  "set_ok s \<longleftrightarrow> table_ok (set_hash s) (set_eq s) (set_table s) \<and> length (set_table s) \<in> set (tl tableSizes) \<and>
     set_count s = card (occ (set_table s)) \<and> set_count s \<le> load_limit (length (set_table s))"

lemma load_limit_less: "n \<in> set (tl tableSizes) \<Longrightarrow> load_limit n < n"
  by (auto simp: tableSizes_def load_limit_def)

lemma itemsI: "j < length t \<Longrightarrow> t ! j = Some x \<Longrightarrow> x \<in> items t"
  by (auto simp: items_def)

lemma itemsE: "x \<in> items t \<Longrightarrow> (\<And>j. j < length t \<Longrightarrow> t ! j = Some x \<Longrightarrow> P) \<Longrightarrow> P"
  by (auto simp: items_def)

lemma items_put:
  assumes "b < length t" "t ! b = None"
  shows "items (t[b := Some x]) = insert x (items t)"
proof (intro set_eqI iffI)
  fix y assume "y \<in> items (t[b := Some x])"
  then show "y \<in> insert x (items t)"
    using assms by (auto elim!: itemsE simp: nth_list_update intro: itemsI split: if_splits)
next
  fix y assume "y \<in> insert x (items t)"
  then consider "y = x" | j where "j < length t" "t ! j = Some y" by (auto elim: itemsE)
  then show "y \<in> items (t[b := Some x])"
  proof cases
    case 1
    then show ?thesis using assms by (intro itemsI[of b]) auto
  next
    case 2
    then show ?thesis using assms by (intro itemsI[of j]) (auto simp: nth_list_update)
  qed
qed

lemma items_clear:
  assumes "uniq e t" "e y y" "b < length t" "t ! b = Some y"
  shows "items (t[b := None]) = items t - {y}"
proof (intro set_eqI iffI)
  fix z assume "z \<in> items (t[b := None])"
  then obtain j where j: "j < length t" "j \<noteq> b" "t ! j = Some z"
    using assms(3) by (auto elim!: itemsE simp: nth_list_update split: if_splits)
  then have "z \<noteq> y" using uniqD[OF assms(1) j(3) assms(4)] assms(2,3) by blast
  then show "z \<in> items t - {y}" using j by (auto intro: itemsI)
next
  fix z assume "z \<in> items t - {y}"
  then obtain j where j: "j < length t" "t ! j = Some z" "z \<noteq> y" by (auto elim: itemsE)
  then show "z \<in> items (t[b := None])"
    using assms(4) by (intro itemsI[of j]) (cases "j = b"; auto)+
qed

lemma items_replace:
  assumes "uniq e t" "e y y" "b < length t" "t ! b = Some y"
  shows "items (t[b := Some x]) = insert x (items t - {y})"
  using items_clear[OF assms] items_put[of b "t[b := None]" x] assms(3) by simp

lemma uniq_put:
  assumes "keyed h e" "uniq e t" "\<And>y. y \<in> items t \<Longrightarrow> e y x \<Longrightarrow> t ! b = Some y" "b < length t"
  shows "uniq e (t[b := Some x])"
proof -
  have new: "i = b" if i: "i < length t" "t ! i = Some y" "e y x" for i y
  proof (rule uniqD[OF assms(2) i(2)])
    show "t ! b = Some y" using itemsI[OF i(1,2)] i(3) by (rule assms(3))
    show "e y y" by (rule keyedD(1)[OF assms(1)])
  qed (rule i(1) assms(4))+
  show ?thesis
    unfolding uniq_def
  proof (intro allI impI)
    fix i j u v
    assume ij: "i < length (t[b := Some x])" "j < length (t[b := Some x])"
      "t[b := Some x] ! i = Some u" "t[b := Some x] ! j = Some v" "e u v"
    have nth: "t[b := Some x] ! k = (if k = b then Some x else t ! k)" for k
      using assms(4) by simp
    have len: "i < length t" "j < length t" using ij by simp_all
    consider "i = b" "j = b" | "i = b" "j \<noteq> b" "u = x" "t ! j = Some v"
      | "i \<noteq> b" "j = b" "v = x" "t ! i = Some u" | "t ! i = Some u" "t ! j = Some v"
      using ij(3,4) unfolding nth by (cases "i = b"; cases "j = b"; simp)
    then show "i = j"
    proof cases
      case 2
      then show ?thesis using new[OF len(2) 2(4)] keyedD(2)[OF assms(1) ij(5)] by simp
    next
      case 3
      then show ?thesis using new[OF len(1) 3(4)] ij(5) by simp
    next
      case 4
      then show ?thesis using uniqD[OF assms(2) 4(1,2) ij(5) len] by simp
    qed simp
  qed
qed

lemma uniq_clear: "uniq e t \<Longrightarrow> uniq e (t[b := None])"
  by (cases "b < length t") (auto simp: uniq_def nth_list_update)

text \<open>Filling a bucket makes no hole.\<close>

lemma placed_put_other:
  "placed h t j \<Longrightarrow> j \<noteq> b \<Longrightarrow> placed h (t[b := Some x]) j"
  by (cases "b < length t") (auto simp: placed_def nth_list_update home_def)

lemma placed_put_self:
  "b < length t \<Longrightarrow> (\<And>y. y < length t \<Longrightarrow> between (home h t x) b y \<Longrightarrow> y \<noteq> b \<Longrightarrow> t ! y \<noteq> None) \<Longrightarrow>
     placed h (t[b := Some x]) b"
  by (auto simp: placed_def nth_list_update home_def)

lemma setAdd_at:
  assumes "setFind s item = Some b"
    and "(if set_table s ! b = None then Suc (set_count s) else set_count s) \<le> load_limit (length (set_table s))"
  shows "setAdd (Suc d) s item =
     Some (s\<lparr>set_count := (if set_table s ! b = None then Suc (set_count s) else set_count s),
             set_table := (set_table s)[b := Some item]\<rparr>, set_table s ! b)"
  using assms by (cases "set_table s ! b") (simp_all add: Let_def setAdd.simps(2))

lemma setAdd_absent:
  assumes "keyed (set_hash s) (set_eq s)" "\<And>x. x \<in> items (set_table s) \<Longrightarrow> \<not> set_eq s x item"
    and "c < length (set_table s)" "set_table s ! c = None"
    and "Suc (set_count s) \<le> load_limit (length (set_table s))"
  obtains b where "b < length (set_table s)" "set_table s ! b = None"
    "between (home (set_hash s) (set_table s) item) c b"
    "\<And>y. y < length (set_table s) \<Longrightarrow> between (home (set_hash s) (set_table s) item) b y \<Longrightarrow> y \<noteq> b \<Longrightarrow> set_table s ! y \<noteq> None"
    "\<And>d. setAdd (Suc d) s item =
       Some (s\<lparr>set_count := Suc (set_count s), set_table := (set_table s)[b := Some item]\<rparr>, None)"
proof (rule setFind_absent[OF assms(1,2,3,4)])
  fix b
  assume b: "setFind s item = Some b" "b < length (set_table s)" "set_table s ! b = None"
    "between (home (set_hash s) (set_table s) item) c b"
    "\<And>y. y < length (set_table s) \<Longrightarrow> between (home (set_hash s) (set_table s) item) b y \<Longrightarrow> y \<noteq> b \<Longrightarrow> set_table s ! y \<noteq> None"
  have "setAdd (Suc d) s item =
       Some (s\<lparr>set_count := Suc (set_count s), set_table := (set_table s)[b := Some item]\<rparr>, None)" for d
    using setAdd_at[OF b(1), of d] b(3) assms(5) by simp
  then show thesis using that[of b] b by blast
qed

text \<open>Adding within the load limit of the table, whatever the depth.\<close>

lemma table_ok_hole:
  assumes "set_ok s"
  obtains c where "c < length (set_table s)" "set_table s ! c = None"
  using assms some_hole[of "set_table s"] load_limit_less[of "length (set_table s)"] by (auto simp: set_ok_def)

lemma put_new:
  assumes ok: "set_ok s" and new: "\<And>y. y \<in> items (set_table s) \<Longrightarrow> \<not> set_eq s y x"
  obtains b where "setFind s x = Some b" "b < length (set_table s)" "set_table s ! b = None"
    "table_ok (set_hash s) (set_eq s) ((set_table s)[b := Some x])"
    "items ((set_table s)[b := Some x]) = insert x (items (set_table s))"
    "card (occ ((set_table s)[b := Some x])) = Suc (set_count s)"
proof -
  let ?t = "set_table s" and ?h = "set_hash s" and ?e = "set_eq s"
  have k: "keyed ?h ?e" and u: "uniq ?e ?t" and p: "\<And>j. j < length ?t \<Longrightarrow> placed ?h ?t j"
    using ok by (auto simp: set_ok_def table_ok_def)
  obtain c where c: "c < length ?t" "?t ! c = None" using ok by (rule table_ok_hole)
  obtain b where b: "setFind s x = Some b" "b < length ?t" "?t ! b = None"
    "\<And>y. y < length ?t \<Longrightarrow> between (home ?h ?t x) b y \<Longrightarrow> y \<noteq> b \<Longrightarrow> ?t ! y \<noteq> None"
    using setFind_absent[OF k new c] by metis
  have "placed ?h (?t[b := Some x]) j" if "j < length ?t" for j
    using placed_put_other[OF p[OF that]] placed_put_self[OF b(2,4)] by (cases "j = b") auto
  moreover have "uniq ?e (?t[b := Some x])"
    using uniq_put[OF k u _ b(2)] new by blast
  moreover have "card (occ (?t[b := Some x])) = Suc (set_count s)"
    using b(2,3) ok by (simp add: occ_put set_ok_def) (simp add: occ_def)
  ultimately show ?thesis
    using that[OF b(1,2,3)] k items_put[OF b(2,3)] by (simp add: table_ok_def)
qed

lemma add_room:
  assumes ok: "set_ok s" and new: "\<And>y. y \<in> items (set_table s) \<Longrightarrow> \<not> set_eq s y x"
    and room: "Suc (set_count s) \<le> load_limit (length (set_table s))"
  obtains s' where "\<And>d. setAdd (Suc d) s x = Some (s', None)" "set_ok s'"
    "items (set_table s') = insert x (items (set_table s))" "set_hash s' = set_hash s" "set_eq s' = set_eq s"
    "length (set_table s') = length (set_table s)" "set_count s' = Suc (set_count s)"
proof (rule put_new[OF ok new])
  fix b
  assume b: "setFind s x = Some b" "b < length (set_table s)" "set_table s ! b = None"
    "table_ok (set_hash s) (set_eq s) ((set_table s)[b := Some x])"
    "items ((set_table s)[b := Some x]) = insert x (items (set_table s))"
    "card (occ ((set_table s)[b := Some x])) = Suc (set_count s)"
  let ?s' = "s\<lparr>set_count := Suc (set_count s), set_table := (set_table s)[b := Some x]\<rparr>"
  have "setAdd (Suc d) s x = Some (?s', None)" for d
    using setAdd_at[OF b(1), of d] b(3) room by simp
  moreover have "set_ok ?s'" using ok b(4,6) room by (simp add: set_ok_def)
  ultimately show thesis using that[of ?s'] b(5) by simp
qed

lemma add_replace:
  assumes ok: "set_ok s" and old: "y \<in> items (set_table s)" "set_eq s y x"
  obtains s' where "\<And>d. setAdd (Suc d) s x = Some (s', Some y)" "set_ok s'"
    "items (set_table s') = insert x (items (set_table s) - {y})" "set_hash s' = set_hash s" "set_eq s' = set_eq s"
    "length (set_table s') = length (set_table s)" "set_count s' = set_count s"
proof -
  let ?t = "set_table s" and ?h = "set_hash s" and ?e = "set_eq s"
  have k: "keyed ?h ?e" and u: "uniq ?e ?t" and p: "\<And>j. j < length ?t \<Longrightarrow> placed ?h ?t j"
    and load: "set_count s \<le> load_limit (length ?t)"
    using ok by (auto simp: set_ok_def table_ok_def)
  obtain j where j: "j < length ?t" "?t ! j = Some y" using old(1) by (auto simp: items_def)
  let ?s' = "s\<lparr>set_table := ?t[j := Some x]\<rparr>"
  have "setFind s x = Some j" using setFind_present[OF k u j old(2) p[OF j(1)]] .
  then have add: "setAdd (Suc d) s x = Some (?s', Some y)" for d
    using setAdd_at[of s x j d] load j by simp
  have hx: "home ?h ?t x = home ?h ?t y" using keyedD(3)[OF k old(2)] by (simp add: home_def)
  have "placed ?h (?t[j := Some x]) i" if "i < length ?t" for i
  proof (cases "i = j")
    case True
    have "placed ?h (?t[j := Some x]) j"
      using p[OF j(1)] j(2) hx by (intro placed_put_self j) (auto simp: placed_def)
    then show ?thesis using True by simp
  qed (rule placed_put_other[OF p[OF that]])
  moreover have "z = y" if z: "z \<in> items ?t" "?e z x" for z
  proof -
    obtain i where i: "i < length ?t" "?t ! i = Some z" using z(1) by (auto simp: items_def)
    have "?e z y" using keyedD(2,4)[OF k] z(2) old(2) by blast
    then have "i = j" using uniqD[OF u i(2) j(2)] i(1) j(1) by blast
    then show ?thesis using i(2) j(2) by simp
  qed
  then have "uniq ?e (?t[j := Some x])"
    using j by (intro uniq_put[OF k u]) auto
  moreover have "occ (?t[j := Some x]) = occ ?t"
    using j by (simp add: occ_put) (auto simp: occ_def)
  ultimately have "set_ok ?s'"
    using ok k by (auto simp: set_ok_def table_ok_def)
  then show ?thesis
    using that[of ?s'] add items_replace[where e = ?e, OF u keyedD(1)[OF k] j] by simp
qed

section \<open>Growing\<close>

lemma bucket_items_simps [simp]:
  "bucket_items [] = []" "bucket_items (None # t) = bucket_items t" "bucket_items (Some x # t) = x # bucket_items t"
  "bucket_items (t @ t') = bucket_items t @ bucket_items t'"
  by (simp_all add: bucket_items_def)

lemma bucket_items_replicate [simp]: "bucket_items (replicate n None) = []"
  by (induction n) auto

lemma set_bucket_items: "set (bucket_items t) = items t"
proof (induction t)
  case (Cons b t)
  have "items (b # t) = set_option b \<union> items t"
    by (force elim!: itemsE simp: less_Suc_eq_0_disj intro: itemsI itemsI[of 0 "b # t"] itemsI[of "Suc j" "b # t" for j])
  then show ?case using Cons by (cases b) auto
qed (simp add: items_def)

lemma length_bucket_items: "length (bucket_items t) = card (occ t)"
proof (induction t rule: rev_induct)
  case (snoc b t)
  have "occ (t @ [b]) = (if b = None then occ t else insert (length t) (occ t))"
    by (auto simp: occ_def nth_append less_Suc_eq)
  moreover have "length t \<notin> occ t" by (simp add: occ_def)
  ultimately show ?case using snoc by (cases b) auto
qed (simp add: occ_def)

lemma uniq_Cons:
  assumes "uniq e (b # t)"
  shows "uniq e t" "b = Some x \<Longrightarrow> y \<in> items t \<Longrightarrow> \<not> e x y"
proof -
  show "uniq e t"
    unfolding uniq_def
  proof (intro allI impI)
    fix i j u v
    assume "i < length t" "j < length t" "t ! i = Some u" "t ! j = Some v" "e u v"
    then have "Suc i = Suc j" by (intro uniqD[OF assms, of "Suc i" u "Suc j" v]) auto
    then show "i = j" by simp
  qed
  assume b: "b = Some x" "y \<in> items t"
  then obtain j where "j < length t" "t ! j = Some y" by (auto elim: itemsE)
  then show "\<not> e x y" using uniqD[OF assms, of 0 x "Suc j" y] b(1) by auto
qed

lemma union_room:
  "set_ok s \<Longrightarrow> uniq (set_eq s) bs \<Longrightarrow> (\<And>y z. y \<in> items (set_table s) \<Longrightarrow> z \<in> items bs \<Longrightarrow> \<not> set_eq s y z) \<Longrightarrow>
   set_count s + length (bucket_items bs) \<le> load_limit (length (set_table s)) \<Longrightarrow>
   \<exists>s'. unionLoop (setAdd (Suc d)) s bs = Some s' \<and> set_ok s' \<and> items (set_table s') = items (set_table s) \<union> items bs \<and>
     set_hash s' = set_hash s \<and> set_eq s' = set_eq s \<and> length (set_table s') = length (set_table s) \<and>
     set_count s' = set_count s + length (bucket_items bs)"
proof (induction bs arbitrary: s)
  case Nil
  then show ?case by (simp add: items_def)
next
  case (Cons b bs)
  have u: "uniq (set_eq s) bs" using Cons.prems(2) by (rule uniq_Cons)
  have it: "items (b # bs) = set_option b \<union> items bs"
    by (cases b) (simp_all add: set_bucket_items[symmetric])
  show ?case
  proof (cases b)
    case None
    then show ?thesis using Cons.IH[OF Cons.prems(1) u] Cons.prems(3,4) it by simp
  next
    case (Some x)
    have new: "\<And>y. y \<in> items (set_table s) \<Longrightarrow> \<not> set_eq s y x"
      using Cons.prems(3) it Some by simp
    have room: "Suc (set_count s) \<le> load_limit (length (set_table s))"
      using Cons.prems(4) Some by simp
    obtain s1 where s1: "\<And>d. setAdd (Suc d) s x = Some (s1, None)" "set_ok s1"
      "items (set_table s1) = insert x (items (set_table s))" "set_hash s1 = set_hash s" "set_eq s1 = set_eq s"
      "length (set_table s1) = length (set_table s)" "set_count s1 = Suc (set_count s)"
      using add_room[OF Cons.prems(1) new room] by metis
    have "\<not> set_eq s1 y z" if "y \<in> items (set_table s1)" "z \<in> items bs" for y z
      using that uniq_Cons(2)[OF Cons.prems(2) Some] Cons.prems(3) it s1(3,5) by auto
    then obtain s' where "unionLoop (setAdd (Suc d)) s1 bs = Some s'" "set_ok s'"
      "items (set_table s') = items (set_table s1) \<union> items bs" "set_hash s' = set_hash s1" "set_eq s' = set_eq s1"
      "length (set_table s') = length (set_table s1)" "set_count s' = set_count s1 + length (bucket_items bs)"
      using Cons.IH[OF s1(2)] s1(3-7) u Cons.prems(4) Some by auto
    then show ?thesis using s1 it Some by auto
  qed
qed

lemma length_tableSizes [simp]: "length tableSizes = 51"
  by (simp add: tableSizes_def)

lemma takeWhile_less_nth:
  fixes xs :: "nat list"
  shows "sorted_wrt (<) xs \<Longrightarrow> k < length xs \<Longrightarrow> length (takeWhile (\<lambda>s. s < xs ! k) xs) = k"
  by (induction xs arbitrary: k) (auto simp: nth_Cons split: nat.splits)

lemma table_size_steps:
  assumes "k < 50"
  shows "sizeIndex (tableSizes ! k) = k" "tableSizes ! k < tableSizes ! Suc k"
    "0 < k \<Longrightarrow> Suc (load_limit (tableSizes ! k)) \<le> load_limit (tableSizes ! Suc k)"
proof -
  have sorted: "sorted_wrt (<) tableSizes"
    by (simp add: tableSizes_def sorted_wrt2[OF transp_on_less] del: sorted_wrt.simps(2) add: sorted_wrt1)
  show "sizeIndex (tableSizes ! k) = k"
    using takeWhile_less_nth[OF sorted] assms by (simp add: sizeIndex_def)
  show "tableSizes ! k < tableSizes ! Suc k"
    using sorted_wrt_nth_less[OF sorted, of k "Suc k"] assms by simp
  have "list_all (\<lambda>(a, b). Suc (load_limit a) \<le> load_limit b) (zip (tl tableSizes) (tl (tl tableSizes)))"
    by (simp add: tableSizes_def load_limit_def)
  moreover assume "0 < k"
  then obtain i where "k = Suc i" by (cases k) auto
  ultimately show "Suc (load_limit (tableSizes ! k)) \<le> load_limit (tableSizes ! Suc k)"
    using assms by (auto simp: list_all_length nth_tl)
qed

lemma set_ok_New:
  assumes "keyed h e" "sizeIndex capacity < 50"
  shows "set_ok (BRSetNew h e capacity)" "items (set_table (BRSetNew h e capacity)) = {}"
    "length (set_table (BRSetNew h e capacity)) = tableSizes ! Suc (sizeIndex capacity)"
    "set_count (BRSetNew h e capacity) = 0" "set_hash (BRSetNew h e capacity) = h" "set_eq (BRSetNew h e capacity) = e"
proof -
  let ?n = "tableSizes ! Suc (sizeIndex capacity)"
  have t: "set_table (BRSetNew h e capacity) = replicate ?n None"
    using assms(2) by (simp add: BRSetNew_def BRSetInit_def Let_def)
  have "?n = tl tableSizes ! sizeIndex capacity" using assms(2) by (simp add: nth_tl)
  then have n: "?n \<in> set (tl tableSizes)" using assms(2) by simp
  show "items (set_table (BRSetNew h e capacity)) = {}" "length (set_table (BRSetNew h e capacity)) = ?n"
    "set_count (BRSetNew h e capacity) = 0" "set_hash (BRSetNew h e capacity) = h" "set_eq (BRSetNew h e capacity) = e"
    by (simp_all add: t set_bucket_items[symmetric]) (simp_all add: BRSetNew_def BRSetInit_def Let_def)
  then show "set_ok (BRSetNew h e capacity)"
    using assms(1) n t by (auto simp: set_ok_def table_ok_def uniq_def placed_def occ_def)
qed

lemma setGrow_spec:
  assumes ok: "table_ok (set_hash s) (set_eq s) (set_table s)" and k: "0 < k" "k < 50" "length (set_table s) = tableSizes ! k"
    and c: "set_count s = card (occ (set_table s))" "set_count s \<le> Suc (load_limit (tableSizes ! k))"
  obtains s' where "setGrow (setAdd (Suc d)) s (length (set_table s)) = Some s'" "set_ok s'"
    "items (set_table s') = items (set_table s)" "set_hash s' = set_hash s" "set_eq s' = set_eq s"
    "length (set_table s') = tableSizes ! Suc k" "set_count s' = set_count s"
proof -
  let ?n = "BRSetNew (set_hash s) (set_eq s) (tableSizes ! k)"
  have si: "sizeIndex (tableSizes ! k) = k" using table_size_steps(1)[OF k(2)] .
  have kd: "keyed (set_hash s) (set_eq s)" and u: "uniq (set_eq s) (set_table s)" using ok by (auto simp: table_ok_def)
  note new = set_ok_New[OF kd, of "tableSizes ! k", unfolded si, OF k(2)]
  have "set_count s \<le> load_limit (tableSizes ! Suc k)"
    using c(2) table_size_steps(3)[OF k(2,1)] by linarith
  then obtain n' where n': "unionLoop (setAdd (Suc d)) ?n (set_table s) = Some n'" "set_ok n'"
    "items (set_table n') = items (set_table s)" "set_hash n' = set_hash s" "set_eq n' = set_eq s"
    "length (set_table n') = tableSizes ! Suc k" "set_count n' = set_count s"
    using union_room[OF new(1), of "set_table s" d] u new c(1) by (auto simp: length_bucket_items)
  let ?s' = "s\<lparr>set_table := set_table n', set_count := set_count n'\<rparr>"
  have "setGrow (setAdd (Suc d)) s (length (set_table s)) = Some ?s'"
    using k n'(1) si by (simp add: setGrow_def)
  moreover have "set_ok ?s'" using n' by (auto simp: set_ok_def)
  ultimately show ?thesis using that[of ?s'] n' by simp
qed

text \<open>The largest table takes no growth, so its load limit bounds what a set can hold.\<close>

definition SET_LIMIT :: nat where "SET_LIMIT = load_limit (last tableSizes)"

lemma size_of_ok:
  assumes "set_ok s"
  obtains k where "0 < k" "k \<le> 50" "length (set_table s) = tableSizes ! k"
proof -
  have "length (set_table s) \<in> set (tl tableSizes)" using assms by (simp add: set_ok_def)
  then obtain i where "i < 50" "tl tableSizes ! i = length (set_table s)" by (auto simp: in_set_conv_nth)
  then show ?thesis using that[of "Suc i"] by (simp add: nth_tl)
qed

text \<open>Adding a member of the set replaces the equal one, if there is one.\<close>

definition member_of :: "'a brset \<Rightarrow> 'a \<Rightarrow> 'a option \<Rightarrow> bool" where
  "member_of s x r \<longleftrightarrow> (case r of None \<Rightarrow> \<forall>y \<in> items (set_table s). \<not> set_eq s y x
     | Some y \<Rightarrow> y \<in> items (set_table s) \<and> set_eq s y x)"

lemma setAdd_spec:
  assumes ok: "set_ok s" and lim: "set_count s < SET_LIMIT"
  obtains s' r where "setAdd (Suc (Suc d)) s x = Some (s', r)" "set_ok s'" "member_of s x r"
    "items (set_table s') = insert x (items (set_table s) - set_option r)" "set_hash s' = set_hash s" "set_eq s' = set_eq s"
    "set_count s' = (if r = None then Suc (set_count s) else set_count s)"
proof (cases "\<exists>y \<in> items (set_table s). set_eq s y x")
  case True
  then obtain y where y: "y \<in> items (set_table s)" "set_eq s y x" by blast
  show ?thesis
  proof (rule add_replace[OF ok y])
    fix s' assume "\<And>d. setAdd (Suc d) s x = Some (s', Some y)" "set_ok s'"
      "items (set_table s') = insert x (items (set_table s) - {y})" "set_hash s' = set_hash s" "set_eq s' = set_eq s"
      "set_count s' = set_count s"
    then show thesis using that[of s' "Some y"] y by (simp add: member_of_def)
  qed
next
  case False
  then have new: "\<And>y. y \<in> items (set_table s) \<Longrightarrow> \<not> set_eq s y x" by blast
  then have m: "member_of s x None" by (simp add: member_of_def)
  show ?thesis
  proof (cases "Suc (set_count s) \<le> load_limit (length (set_table s))")
    case True
    show ?thesis
    proof (rule add_room[OF ok new True])
      fix s' assume "\<And>d. setAdd (Suc d) s x = Some (s', None)" "set_ok s'"
        "items (set_table s') = insert x (items (set_table s))" "set_hash s' = set_hash s" "set_eq s' = set_eq s"
        "set_count s' = Suc (set_count s)"
      then show thesis using that[of s' None] m by simp
    qed
  next
    case full: False
    obtain k where k: "0 < k" "k \<le> 50" "length (set_table s) = tableSizes ! k" using ok by (rule size_of_ok)
    have "k \<noteq> 50"
      using full lim k(3) by (auto simp: SET_LIMIT_def last_conv_nth tableSizes_def)
    then have k50: "k < 50" using k(2) by simp
    obtain b where b: "setFind s x = Some b" "b < length (set_table s)" "set_table s ! b = None"
      "table_ok (set_hash s) (set_eq s) ((set_table s)[b := Some x])"
      "items ((set_table s)[b := Some x]) = insert x (items (set_table s))"
      "card (occ ((set_table s)[b := Some x])) = Suc (set_count s)"
      using put_new[OF ok new] by metis
    let ?s1 = "s\<lparr>set_count := Suc (set_count s), set_table := (set_table s)[b := Some x]\<rparr>"
    have c: "Suc (set_count s) \<le> Suc (load_limit (tableSizes ! k))" using ok k(3) by (simp add: set_ok_def)
    obtain s' where s': "setGrow (setAdd (Suc d)) ?s1 (length (set_table s)) = Some s'" "set_ok s'"
      "items (set_table s') = insert x (items (set_table s))" "set_hash s' = set_hash s" "set_eq s' = set_eq s"
      "set_count s' = Suc (set_count s)"
      by (rule setGrow_spec[of ?s1 k d]) (use b c k k50 in simp_all)
    have "setAdd (Suc (Suc d)) s x = Some (s', None)"
      using b(1,3) full s'(1) by (simp add: setAdd.simps(2) Let_def)
    then show ?thesis using that[of s' None] s' m by simp
  qed
qed

lemma BRSetAdd_depth: "BRSetAdd = setAdd (Suc (Suc 49))"
  by (simp add: BRSetAdd_def eval_nat_numeral)

lemmas BRSetAdd_spec = setAdd_spec[of _ 49, folded BRSetAdd_depth]

section \<open>Searching and removing\<close>

lemma setFind_ok:
  assumes ok: "set_ok s"
  obtains i where "setFind s x = Some i" "i < length (set_table s)" "member_of s x (set_table s ! i)"
proof (cases "\<exists>y \<in> items (set_table s). set_eq s y x")
  case True
  then obtain j y where j: "j < length (set_table s)" "set_table s ! j = Some y" "set_eq s y x"
    by (auto elim: itemsE)
  then have "setFind s x = Some j"
    using ok by (intro setFind_present) (auto simp: set_ok_def table_ok_def)
  then show ?thesis using that[of j] j by (auto simp: member_of_def intro: itemsI)
next
  case False
  then have new: "\<And>y. y \<in> items (set_table s) \<Longrightarrow> \<not> set_eq s y x" by blast
  show ?thesis
  proof (rule put_new[OF ok new])
    fix b assume "setFind s x = Some b" "b < length (set_table s)" "set_table s ! b = None"
    then show thesis using that[of b] new by (simp add: member_of_def)
  qed
qed

lemma BRSetGet_ok: "set_ok s \<Longrightarrow> \<exists>r. BRSetGet s x = Some r \<and> member_of s x r"
  by (rule setFind_ok[of s x]) (auto simp: BRSetGet_def)

lemma member_of_unique:
  assumes "set_ok s" "member_of s x r" "member_of s x r'"
  shows "r = r'"
proof (cases r)
  case None
  then show ?thesis using assms(2,3) by (auto simp: member_of_def split: option.splits)
next
  case (Some y)
  then obtain z where z: "r' = Some z" "y \<in> items (set_table s)" "z \<in> items (set_table s)" "set_eq s y x" "set_eq s z x"
    using assms(2,3) by (auto simp: member_of_def split: option.splits)
  have k: "keyed (set_hash s) (set_eq s)" and u: "uniq (set_eq s) (set_table s)"
    using assms(1) by (auto simp: set_ok_def table_ok_def)
  obtain i where i: "i < length (set_table s)" "set_table s ! i = Some y" using z(2) by (auto elim: itemsE)
  obtain j where j: "j < length (set_table s)" "set_table s ! j = Some z" using z(3) by (auto elim: itemsE)
  have "set_eq s y z" using z(4,5) keyedD(2,4)[OF k] by blast
  then have "i = j" by (rule uniqD[OF u i(2) j(2) _ i(1) j(1)])
  then show ?thesis using i j Some z(1) by simp
qed

text \<open>The state of the cleanup loop at bucket \<open>c\<close> after the removal at bucket \<open>i\<close>: \<open>t0\<close> is the table before
  the removal, \<open>e\<close> its first hole after \<open>i\<close>.  Only buckets from \<open>i\<close> up to before \<open>c\<close> have changed, and
  every item has a clear path from its home unless it waits between \<open>c\<close> and \<open>e\<close>.\<close>

definition cleaning :: "('a \<Rightarrow> u64) \<Rightarrow> ('a \<Rightarrow> 'a \<Rightarrow> bool) \<Rightarrow> 'a option list \<Rightarrow> nat \<Rightarrow> nat \<Rightarrow> nat \<Rightarrow> 'a option list \<Rightarrow> bool" where
  "cleaning h e t0 i he c t \<longleftrightarrow> length t = length t0 \<and> c < length t0 \<and> c \<noteq> i \<and> between i he c \<and> uniq e t \<and>
     (\<forall>y < length t0. \<not> (between i c y \<and> y \<noteq> c) \<longrightarrow> t ! y = t0 ! y) \<and>
     (\<forall>j < length t0. placed h t j \<or> (between c he j \<and> j \<noteq> he))"

lemma between_lt: "a < n \<Longrightarrow> b < n \<Longrightarrow> x < n \<Longrightarrow> between a b x \<Longrightarrow> y < n \<Longrightarrow> \<not> between a b y \<Longrightarrow> between x y b \<and> b \<noteq> y"
  by (auto simp: between_def split: if_splits)

lemma cleaning_step:
  assumes cl: "cleaning h e t0 i he c t" and k: "keyed h e" and ok0: "\<And>j. j < length t0 \<Longrightarrow> placed h t0 j"
    and i: "i < length t0" and hole: "he < length t0" "t0 ! he = None" and ne: "c \<noteq> he" and x: "t ! c = Some x"
    and b: "b < length t0" "t[c := None] ! b = None" "between (home h t x) c b"
      "\<And>y. y < length t0 \<Longrightarrow> between (home h t x) b y \<Longrightarrow> y \<noteq> b \<Longrightarrow> t[c := None] ! y \<noteq> None"
  shows "cleaning h e t0 i he (Suc c mod length t0) (t[c := None, b := Some x])" "between i c b"
proof -
  let ?n = "length t0" and ?t1 = "t[c := None]" and ?t2 = "t[c := None, b := Some x]" and ?c = "Suc c mod length t0"
  have len: "length t = ?n" and c: "c < ?n" "c \<noteq> i" "between i he c" and u: "uniq e t"
    and same: "\<And>y. y < ?n \<Longrightarrow> \<not> (between i c y \<and> y \<noteq> c) \<Longrightarrow> t ! y = t0 ! y"
    and pl: "\<And>j. j < ?n \<Longrightarrow> placed h t j \<or> (between c he j \<and> j \<noteq> he)"
    using cl by (auto simp: cleaning_def)
  have n: "0 < ?n" using i by linarith
  have hm: "home h t y < ?n" for y using len n by (simp add: home_def)
  have x0: "t0 ! c = Some x" using same[of c] c x by simp
  have path0: "t0 ! y \<noteq> None" if "y < ?n" "between (home h t x) c y" for y
    using ok0[OF c(1)] x0 that len by (simp add: placed_def home_cong[of t t0])
  show bt: "between i c b"
  proof (rule ccontr)
    assume no: "\<not> between i c b"
    then have "b \<noteq> c" by auto
    then have "t ! b = None" using b(2) by simp
    moreover have "t ! b = t0 ! b" using same b(1) no by blast
    ultimately show False using path0[OF b(1) b(3)] by simp
  qed
  have c': "?c < ?n" using n by simp
  have hne: "t ! he = None"
  proof -
    have "\<not> (between i c he \<and> he \<noteq> c)" using c i hole(1) ne by (auto simp: between_def split: if_splits)
    then show ?thesis using same[OF hole(1)] hole(2) by simp
  qed
  have ci: "?c \<noteq> i" "between i he ?c" "\<And>y. y < ?n \<Longrightarrow> \<not> (between i ?c y \<and> y \<noteq> ?c) \<Longrightarrow> \<not> (between i c y)"
    using c i hole ne x0 by (auto simp: between_def cyc_next split: if_splits)
  have t2: "?t2 ! y = (if y = b then Some x else if y = c then None else t ! y)" if "y < ?n" for y
    using b(1) c(1) len by (simp add: nth_list_update)
  have same2: "?t2 ! y = t0 ! y" if "y < ?n" "\<not> (between i ?c y \<and> y \<noteq> ?c)" for y
  proof -
    have "\<not> between i c y" using ci(3) that by blast
    then show ?thesis using t2[OF that(1)] same[OF that(1)] bt by auto
  qed
  have pl2: "placed h ?t2 j \<or> (between ?c he j \<and> j \<noteq> he)" if j: "j < ?n" for j
  proof (cases "j = b")
    case True
    have "placed h (?t1[b := Some x]) b"
      using b len by (intro placed_put_self) (auto simp: home_def)
    then show ?thesis using True by simp
  next
    case jb: False
    show ?thesis
    proof (cases "j = c")
      case True
      then show ?thesis using t2[OF j] jb by (simp add: placed_def)
    next
      case jc: False
      show ?thesis
      proof (cases "between c he j \<and> j \<noteq> he")
        case True
        then show ?thesis using between_next[of c ?n he j] c(1) hole(1) j ne jc by simp
      next
        case False
        then have p: "placed h t j" using pl[OF j] by blast
        show ?thesis
        proof (rule ccontr)
          assume no: "\<not> (placed h ?t2 j \<or> (between ?c he j \<and> j \<noteq> he))"
          obtain z y where z: "?t2 ! j = Some z" "y < ?n" "between (home h ?t2 z) j y" "?t2 ! y = None"
            using no len by (auto simp: placed_def)
          have zj: "t ! j = Some z" using z(1) t2[OF j] jb jc by simp
          have hz: "home h ?t2 z = home h t z" by (simp add: home_def)
          have "t ! y \<noteq> None" using p zj z(2,3) len hz by (simp add: placed_def)
          then have "y = c" using z(4) t2[OF z(2)] by (auto split: if_splits)
          then have "between (home h t z) j c" using z(3) hz by simp
          moreover have "\<not> between (home h t z) j he" using p zj hne hole(1) len by (auto simp: placed_def)
          ultimately have "between c he j \<and> j \<noteq> he"
            using between_lt[OF hm j c(1) _ hole(1)] by blast
          then show False using False by simp
        qed
      qed
    qed
  qed
  have "uniq e ?t2"
  proof (rule uniq_put[OF k uniq_clear[OF u]])
    fix y assume "y \<in> items ?t1" "e y x"
    then obtain j where "j < ?n" "j \<noteq> c" "t ! j = Some y"
      using len c(1) by (auto elim!: itemsE simp: nth_list_update split: if_splits)
    then show "?t1 ! b = Some y" using uniqD[OF u _ x \<open>e y x\<close>] len c(1) by auto
  qed (use b(1) len in simp)
  then show "cleaning h e t0 i he ?c ?t2"
    unfolding cleaning_def using len c' ci(1,2) same2 pl2 by auto
qed

text \<open>The items of the buckets below \<open>i\<close> were below \<open>i\<close> before.\<close>

definition below_from :: "'a option list \<Rightarrow> nat \<Rightarrow> 'a option list \<Rightarrow> bool" where
  "below_from t0 i t \<longleftrightarrow> (\<forall>j < i. \<forall>x. t ! j = Some x \<longrightarrow> (\<exists>k < i. t0 ! k = Some x))"

lemma cleanup_loop:
  assumes k: "keyed h e" and ok0: "\<And>j. j < length t0 \<Longrightarrow> placed h t0 j"
    and i: "i < length t0" and hole: "he < length t0" "t0 ! he = None" and n: "length t0 \<in> set (tl tableSizes)"
    and first: "\<And>y. y < length t0 \<Longrightarrow> between i he y \<Longrightarrow> y \<noteq> he \<Longrightarrow> t0 ! y \<noteq> None"
  shows "cleaning h e t0 i he c (set_table s) \<Longrightarrow> set_hash s = h \<Longrightarrow> set_eq s = e \<Longrightarrow>
     set_count s = card (occ (set_table s)) \<Longrightarrow> set_count s \<le> load_limit (length t0) \<Longrightarrow>
     below_from t0 i (set_table s) \<Longrightarrow> cyc_dist (length t0) c he < fuel \<Longrightarrow>
     \<exists>s'. setCleanup (length t0) fuel s c = Some s' \<and> set_ok s' \<and> items (set_table s') = items (set_table s) \<and>
       set_hash s' = h \<and> set_eq s' = e \<and> length (set_table s') = length t0 \<and> set_count s' = set_count s \<and>
       below_from t0 i (set_table s')"
proof (induction fuel arbitrary: s c)
  case (Suc fuel)
  let ?t = "set_table s" and ?n = "length t0"
  note cl = Suc.prems(1)
  have len: "length ?t = ?n" and c: "c < ?n" "between i he c" "c \<noteq> i" and u: "uniq e ?t"
    and same: "\<And>y. y < ?n \<Longrightarrow> \<not> (between i c y \<and> y \<noteq> c) \<Longrightarrow> ?t ! y = t0 ! y"
    using cl by (auto simp: cleaning_def)
  show ?case
  proof (cases "c = he")
    case True
    have "placed h ?t j" if "j < ?n" for j
      using cl that True by (auto simp: cleaning_def between_self)
    then have "set_ok s" using Suc.prems n len u k by (auto simp: set_ok_def table_ok_def)
    moreover have "?t ! c = None" using same[of c] c True hole by simp
    ultimately show ?thesis using Suc.prems len by (intro exI[of _ s]) auto
  next
    case ne: False
    have "?t ! c \<noteq> None" using same[of c] first[of c] c ne by simp
    then obtain x where x: "?t ! c = Some x" by blast
    let ?s1 = "s\<lparr>set_count := set_count s - 1, set_table := ?t[c := None]\<rparr>"
    have it: "items (?t[c := None]) = items ?t - {x}" and xi: "x \<in> items ?t"
      using items_clear[OF u keyedD(1)[OF k]] x c(1) len by (auto intro: itemsI)
    have new: "\<not> e y x" if "y \<in> items (?t[c := None])" for y
    proof
      assume e: "e y x"
      have y: "y \<in> items ?t" "y \<noteq> x" using that it by auto
      obtain j where j: "j < ?n" "?t ! j = Some y" using y(1) len by (auto elim: itemsE)
      have "j = c" by (rule uniqD[OF u j(2) x e]) (use j(1) c(1) len in auto)
      then show False using j(2) x y(2) by simp
    qed
    have occ: "card (occ (?t[c := None])) = set_count s - 1" "0 < set_count s"
    proof -
      have "c \<in> occ ?t" using x c(1) len by (simp add: occ_def)
      then show "card (occ (?t[c := None])) = set_count s - 1" "0 < set_count s"
        using Suc.prems(4) by (simp_all add: occ_clear card_gt_0_iff) blast
    qed
    have room: "Suc (set_count ?s1) \<le> load_limit (length (set_table ?s1))"
      using Suc.prems(5) occ(2) len by simp
    obtain b where b: "b < ?n" "?t[c := None] ! b = None" "between (home h ?t x) c b"
      "\<And>y. y < ?n \<Longrightarrow> between (home h ?t x) b y \<Longrightarrow> y \<noteq> b \<Longrightarrow> ?t[c := None] ! y \<noteq> None"
      "\<And>d. setAdd (Suc d) ?s1 x =
        Some (?s1\<lparr>set_count := Suc (set_count ?s1), set_table := ?t[c := None, b := Some x]\<rparr>, None)"
    proof (rule setAdd_absent[where s = ?s1 and item = x and c = c])
      show "keyed (set_hash ?s1) (set_eq ?s1)" using k Suc.prems by simp
      show "\<And>y. y \<in> items (set_table ?s1) \<Longrightarrow> \<not> set_eq ?s1 y x" using new Suc.prems by simp
      show "c < length (set_table ?s1)" "set_table ?s1 ! c = None" using c(1) len by simp_all
      show "Suc (set_count ?s1) \<le> load_limit (length (set_table ?s1))" by (rule room)
    qed (use len Suc.prems in \<open>auto simp: home_def\<close>)
    let ?s2 = "?s1\<lparr>set_count := Suc (set_count ?s1), set_table := ?t[c := None, b := Some x]\<rparr>"
    note st = cleaning_step[OF cl k ok0 i hole ne x b(1-4)]
    have bl: "b < length (?t[c := None])" using b(1) len by simp
    have it2: "items (set_table ?s2) = items ?t"
      using items_put[OF bl b(2)] it xi by auto
    have below: "below_from t0 i (set_table ?s2)"
      unfolding below_from_def
    proof (intro allI impI)
      fix j y assume j: "j < i" "set_table ?s2 ! j = Some y"
      show "\<exists>l<i. t0 ! l = Some y"
      proof (cases "j = b")
        case True
        have "t0 ! c = Some y" using j(2) True bl same[of c] c(1) x by simp
        moreover have "c < i" using st(2) True j(1) c by (auto simp: between_def split: if_splits)
        ultimately show ?thesis by blast
      next
        case False
        then have "?t ! j = Some y" using j i len by (cases "j = c") auto
        then show ?thesis using Suc.prems(6) j(1) by (auto simp: below_from_def)
      qed
    qed
    have "cyc_dist ?n (Suc c mod ?n) he < fuel"
      using cyc_dist_next[OF c(1) hole(1) ne] Suc.prems(7) by simp
    moreover have "set_count ?s2 = card (occ (set_table ?s2))"
    proof -
      have "card (occ ((?t[c := None])[b := Some x])) = Suc (card (occ (?t[c := None])))"
        using b(2) bl by (subst occ_put) (auto simp: occ_def)
      then show ?thesis using occ by simp
    qed
    ultimately have "\<exists>s'. setCleanup ?n fuel ?s2 (Suc c mod ?n) = Some s' \<and> set_ok s' \<and> items (set_table s') = items (set_table ?s2) \<and>
       set_hash s' = h \<and> set_eq s' = e \<and> length (set_table s') = ?n \<and> set_count s' = set_count ?s2 \<and>
       below_from t0 i (set_table s')"
      using st(1) Suc.prems(2,3,5) below occ(2) by (intro Suc.IH) simp_all
    moreover have "setCleanup ?n (Suc fuel) s c = setCleanup ?n fuel ?s2 (Suc c mod ?n)"
      by (simp only: setCleanup.simps x option.case BRSetAdd_depth b(5) prod.case)
    ultimately show ?thesis using it2 occ(2) by simp
  qed
qed simp

lemma BRSetRemove_ok:
  assumes ok: "set_ok s" and f: "setFind s x = Some i"
  obtains s' where "BRSetRemove s x = Some (s', set_table s ! i)" "set_ok s'"
    "items (set_table s') = items (set_table s) - set_option (set_table s ! i)"
    "set_hash s' = set_hash s" "set_eq s' = set_eq s" "length (set_table s') = length (set_table s)"
    "set_count s' = set_count s - (if set_table s ! i = None then 0 else 1)"
    "below_from (set_table s) i (set_table s')"
proof (cases "set_table s ! i")
  case None
  then show ?thesis using that[of s] ok f by (auto simp: BRSetRemove_def below_from_def)
next
  case (Some r)
  let ?t = "set_table s" and ?h = "set_hash s" and ?e = "set_eq s" and ?n = "length (set_table s)"
  have k: "keyed ?h ?e" and u: "uniq ?e ?t" and p: "\<And>j. j < ?n \<Longrightarrow> placed ?h ?t j" and nn: "?n \<in> set (tl tableSizes)"
    and cnt: "set_count s = card (occ ?t)" "set_count s \<le> load_limit ?n"
    using ok by (auto simp: set_ok_def table_ok_def)
  have i: "i < ?n"
    by (rule setFind_ok[OF ok, of x]) (use f in auto)
  obtain c where c: "c < ?n" "?t ! c = None" using ok by (rule table_ok_hole)
  have "\<exists>he. first_stop ?t (\<lambda>_. False) i he \<and> between i c he"
    using first_stop_exists[OF i c(1), of "\<lambda>_. False"] c(2) by (simp add: stops_def)
  then obtain he where he: "he < ?n" "?t ! he = None" "\<And>y. y < ?n \<Longrightarrow> between i he y \<Longrightarrow> y \<noteq> he \<Longrightarrow> ?t ! y \<noteq> None"
    by (auto simp: first_stop_def stops_def split: option.splits)
  let ?s1 = "s\<lparr>set_count := set_count s - 1, set_table := ?t[i := None]\<rparr>" and ?c = "Suc i mod ?n"
  have ihe: "i \<noteq> he" using Some he(2) by auto
  have cn: "?c < ?n" "?c \<noteq> i" "between i he ?c"
    using i he(1) ihe by (auto simp: between_def cyc_next split: if_splits)
  have "cleaning ?h ?e ?t i he ?c (?t[i := None])"
    unfolding cleaning_def
  proof (intro conjI allI impI)
    show "uniq ?e (?t[i := None])" using u by (rule uniq_clear)
    fix y assume y: "y < ?n"
    { assume "\<not> (between i ?c y \<and> y \<noteq> ?c)"
      then have "y \<noteq> i" using cn by auto
      then show "?t[i := None] ! y = ?t ! y" by simp }
    show "placed ?h (?t[i := None]) y \<or> between ?c he y \<and> y \<noteq> he"
    proof (rule ccontr)
      assume no: "\<not> (placed ?h (?t[i := None]) y \<or> between ?c he y \<and> y \<noteq> he)"
      obtain z w where z: "?t[i := None] ! y = Some z" "w < ?n" "between (home ?h (?t[i := None]) z) y w" "?t[i := None] ! w = None"
        using no by (auto simp: placed_def)
      have yi: "y \<noteq> i" using z(1) i by auto
      then have zy: "?t ! y = Some z" using z(1) by simp
      have hz: "home ?h (?t[i := None]) z = home ?h ?t z" by (simp add: home_def)
      have full: "\<And>v. v < ?n \<Longrightarrow> between (home ?h ?t z) y v \<Longrightarrow> ?t ! v \<noteq> None" using p[OF y] zy by (simp add: placed_def)
      have "w = i" using full[OF z(2)] z(3,4) hz by (cases "w = i") auto
      then have "between (home ?h ?t z) y i" using z(3) hz by simp
      moreover have "\<not> between (home ?h ?t z) y he" using full he(1,2) by blast
      moreover have "home ?h ?t z < ?n" by (rule home_less) (use i in linarith)
      ultimately have "between i he y \<and> y \<noteq> he" using between_lt[OF _ y i _ he(1)] by blast
      then show False using no between_next[OF i he(1) y ihe] yi by blast
    qed
  qed (use cn in simp_all)
  moreover have "set_count ?s1 = card (occ (set_table ?s1))"
    using cnt(1) Some i by (simp add: occ_clear) (simp add: occ_def)
  moreover have "below_from ?t i (set_table ?s1)" by (auto simp: below_from_def)
  moreover have "set_count ?s1 \<le> load_limit ?n" using cnt(2) by simp
  ultimately obtain s' where s': "setCleanup ?n ?n ?s1 ?c = Some s'" "set_ok s'" "items (set_table s') = items (?t[i := None])"
    "set_hash s' = ?h" "set_eq s' = ?e" "length (set_table s') = ?n" "set_count s' = set_count s - 1" "below_from ?t i (set_table s')"
    using cleanup_loop[OF k p i he(1,2) nn he(3), of ?c ?s1 ?n] cyc_dist_less[OF cn(1) he(1)] by auto
  have "BRSetRemove s x = Some (s', Some r)" using f Some s'(1) by (simp add: BRSetRemove_def Let_def)
  then show ?thesis
    using that[of s'] s' Some items_clear[OF u keyedD(1)[OF k] i Some] by simp
qed

section \<open>The set as a whole\<close>

abbreviation set_items :: "'a brset \<Rightarrow> 'a set" where "set_items s \<equiv> items (set_table s)"

lemma card_set_items:
  assumes "set_ok s"
  shows "set_count s = card (set_items s)"
proof -
  let ?t = "set_table s"
  have k: "keyed (set_hash s) (set_eq s)" and u: "uniq (set_eq s) ?t" using assms by (auto simp: set_ok_def table_ok_def)
  have "inj_on (\<lambda>j. the (?t ! j)) (occ ?t)"
  proof (rule inj_onI)
    fix i j assume ij: "i \<in> occ ?t" "j \<in> occ ?t" "the (?t ! i) = the (?t ! j)"
    then obtain x where "?t ! i = Some x" "?t ! j = Some x" by (auto simp: occ_def)
    then show "i = j" using uniqD[OF u _ _ keyedD(1)[OF k]] ij(1,2) by (auto simp: occ_def)
  qed
  moreover have "(\<lambda>j. the (?t ! j)) ` occ ?t = set_items s"
    by (force simp: occ_def elim!: itemsE intro: itemsI)
  ultimately have "card (occ ?t) = card (set_items s)" by (metis card_image)
  then show ?thesis using assms by (simp add: set_ok_def)
qed

lemma others_of_member:
  assumes "set_ok s" "member_of s x r"
  shows "set_items s - set_option r = {y \<in> set_items s. \<not> set_eq s y x}"
proof -
  have "y \<in> set_option r" if "y \<in> set_items s" "set_eq s y x" for y
    using member_of_unique[OF assms, of "Some y"] that by (auto simp: member_of_def)
  moreover have "\<not> set_eq s y x" if "y \<in> set_items s" "y \<notin> set_option r" for y
    using calculation that by blast
  moreover have "set_eq s y x" if "y \<in> set_option r" for y
    using assms(2) that by (auto simp: member_of_def split: option.splits)
  ultimately show ?thesis by blast
qed

lemma BRSetRemove_spec:
  assumes ok: "set_ok s"
  obtains s' r where "BRSetRemove s x = Some (s', r)" "set_ok s'" "member_of s x r"
    "set_items s' = {y \<in> set_items s. \<not> set_eq s y x}" "set_hash s' = set_hash s" "set_eq s' = set_eq s"
proof (rule setFind_ok[OF ok, of x])
  fix i assume i: "setFind s x = Some i" "i < length (set_table s)" "member_of s x (set_table s ! i)"
  show thesis
  proof (rule BRSetRemove_ok[OF ok i(1)])
    fix s' assume "BRSetRemove s x = Some (s', set_table s ! i)" "set_ok s'"
      "set_items s' = set_items s - set_option (set_table s ! i)" "set_hash s' = set_hash s" "set_eq s' = set_eq s"
    then show thesis using that i(3) others_of_member[OF ok i(3)] by simp
  qed
qed

lemma BRSetAdd_items:
  assumes ok: "set_ok s" and lim: "set_count s < SET_LIMIT"
  obtains s' r where "BRSetAdd s x = Some (s', r)" "set_ok s'" "member_of s x r"
    "set_items s' = insert x {y \<in> set_items s. \<not> set_eq s y x}" "set_hash s' = set_hash s" "set_eq s' = set_eq s"
    "set_count s' \<le> Suc (set_count s)"
proof (rule BRSetAdd_spec[OF ok lim, of x])
  fix s' r assume "BRSetAdd s x = Some (s', r)" "set_ok s'" and m: "member_of s x r" and
      "set_items s' = insert x (set_items s - set_option r)" "set_hash s' = set_hash s" "set_eq s' = set_eq s"
      "set_count s' = (if r = None then Suc (set_count s) else set_count s)"
  then show thesis using that[of s' r] others_of_member[OF ok m] by (auto split: if_splits)
qed

lemma set_ok_Clear: "set_ok s \<Longrightarrow> set_ok (BRSetClear s)" "set_items (BRSetClear s) = {}"
  by (auto simp: set_ok_def table_ok_def BRSetClear_def uniq_def placed_def occ_def items_def)

lemma items_Cons: "items (b # bs) = set_option b \<union> items bs"
  by (cases b) (simp_all add: set_bucket_items[symmetric])

lemma union_loop:
  "set_ok s \<Longrightarrow> uniq (set_eq s) bs \<Longrightarrow> set_count s + length (bucket_items bs) \<le> SET_LIMIT \<Longrightarrow>
     \<exists>s'. unionLoop BRSetAdd s bs = Some s' \<and> set_ok s' \<and>
       set_items s' = {y \<in> set_items s. \<forall>z \<in> items bs. \<not> set_eq s y z} \<union> items bs"
proof (induction bs arbitrary: s)
  case Nil
  then show ?case by (simp add: items_def)
next
  case (Cons b bs)
  show ?case
  proof (cases b)
    case None
    then show ?thesis using Cons uniq_Cons(1)[OF Cons.prems(2)] by (simp add: items_Cons)
  next
    case (Some x)
    have lim: "set_count s < SET_LIMIT" using Cons.prems(3) Some by simp
    obtain s1 r where s1: "BRSetAdd s x = Some (s1, r)" "set_ok s1"
      "member_of s x r"
      "set_items s1 = insert x {y \<in> set_items s. \<not> set_eq s y x}" "set_hash s1 = set_hash s" "set_eq s1 = set_eq s"
      "set_count s1 \<le> Suc (set_count s)"
      by (rule BRSetAdd_items[OF Cons.prems(1) lim])
    have "\<exists>s'. unionLoop BRSetAdd s1 bs = Some s' \<and> set_ok s' \<and>
       set_items s' = {y \<in> set_items s1. \<forall>z \<in> items bs. \<not> set_eq s1 y z} \<union> items bs"
      using s1 uniq_Cons(1)[OF Cons.prems(2)] Cons.prems(3) Some by (intro Cons.IH) simp_all
    then show ?thesis
      using s1(1,4,6) Some uniq_Cons(2)[OF Cons.prems(2) Some] by (auto simp: items_Cons)
  qed
qed

lemma minus_loop:
  "set_ok s \<Longrightarrow> \<exists>s'. minusLoop s bs = Some s' \<and> set_ok s' \<and>
     set_items s' = {y \<in> set_items s. \<forall>z \<in> items bs. \<not> set_eq s y z}"
proof (induction bs arbitrary: s)
  case Nil
  then show ?case by (simp add: items_def)
next
  case (Cons b bs)
  show ?case
  proof (cases b)
    case None
    then show ?thesis using Cons by (simp add: items_Cons)
  next
    case (Some x)
    obtain s1 r where s1: "BRSetRemove s x = Some (s1, r)" "set_ok s1"
      "member_of s x r"
      "set_items s1 = {y \<in> set_items s. \<not> set_eq s y x}" "set_hash s1 = set_hash s" "set_eq s1 = set_eq s"
      by (rule BRSetRemove_spec[OF Cons.prems])
    then show ?thesis using Cons.IH[OF s1(2)] Some by (auto simp: items_Cons)
  qed
qed

lemma BRSetContains_ok:
  assumes "set_ok s"
  shows "BRSetContains s x = Some (\<exists>y \<in> set_items s. set_eq s y x)"
  using BRSetGet_ok[OF assms, of x] by (auto simp: BRSetContains_def member_of_def split: option.splits)

lemma intersect_loop:
  assumes other: "set_ok other"
  shows "set_ok s \<Longrightarrow> length (set_table s) = n \<Longrightarrow> i \<le> n \<Longrightarrow>
     (\<And>j y. j < i \<Longrightarrow> set_table s ! j = Some y \<Longrightarrow> \<exists>z \<in> set_items other. set_eq other z y) \<Longrightarrow>
     (n - i) + set_count s < fuel \<Longrightarrow>
     \<exists>s'. intersectLoop n fuel other s i = Some s' \<and> set_ok s' \<and>
       set_items s' = {y \<in> set_items s. \<exists>z \<in> set_items other. set_eq other z y}"
proof (induction fuel arbitrary: s i)
  case (Suc fuel)
  let ?keep = "\<lambda>y. \<exists>z \<in> set_items other. set_eq other z y"
  note ok = Suc.prems(1)
  show ?case
  proof (cases "i < n")
    case False
    then show ?thesis using Suc.prems by (auto elim!: itemsE intro: itemsI)
  next
    case i: True
    show ?thesis
    proof (cases "set_table s ! i = None \<or> (\<exists>y. set_table s ! i = Some y \<and> ?keep y)")
      case True
      then have "intersectLoop n (Suc fuel) other s i = intersectLoop n fuel other s (i + 1)"
        using i by (auto simp: BRSetContains_ok[OF other] split: bool.splits)
      moreover have "\<exists>s'. intersectLoop n fuel other s (i + 1) = Some s' \<and> set_ok s' \<and> set_items s' = {y \<in> set_items s. ?keep y}"
        using Suc.prems i True by (intro Suc.IH) (auto simp: less_Suc_eq)
      ultimately show ?thesis by simp
    next
      case False
      then obtain y where y: "set_table s ! i = Some y" "\<not> ?keep y" by auto
      have k: "keyed (set_hash s) (set_eq s)" and u: "uniq (set_eq s) (set_table s)"
        and p: "placed (set_hash s) (set_table s) i" and len: "i < length (set_table s)"
        using ok i Suc.prems(2) by (auto simp: set_ok_def table_ok_def)
      have f: "setFind s y = Some i" using setFind_present[OF k u len y(1) keyedD(1)[OF k] p] .
      obtain s' where s': "BRSetRemove s y = Some (s', Some y)" "set_ok s'" "set_items s' = set_items s - {y}"
        "length (set_table s') = n" "set_count s' = set_count s - 1" "below_from (set_table s) i (set_table s')"
        using BRSetRemove_ok[OF ok f] y(1) Suc.prems(2) by auto
      have pos: "0 < set_count s"
        using ok y(1) len by (auto simp: set_ok_def card_gt_0_iff occ_def)
      have "\<exists>s''. intersectLoop n fuel other s' i = Some s'' \<and> set_ok s'' \<and> set_items s'' = {y \<in> set_items s'. ?keep y}"
      proof (rule Suc.IH)
        fix j z assume "j < i" "set_table s' ! j = Some z"
        then obtain l where "l < i" "set_table s ! l = Some z" using s'(6) unfolding below_from_def by blast
        then show "?keep z" by (rule Suc.prems(4))
      qed (use s' i Suc.prems(5) pos in auto)
      moreover have "intersectLoop n (Suc fuel) other s i = intersectLoop n fuel other s' i"
        using i y s'(1) by (auto simp: BRSetContains_ok[OF other])
      ultimately show ?thesis using s'(3) y(2) by auto
    qed
  qed
qed simp

lemma intersects_loop:
  "set_ok s \<Longrightarrow> intersectsLoop s bs = Some (\<exists>z \<in> items bs. \<exists>y \<in> set_items s. set_eq s y z)"
proof (induction bs)
  case (Cons b bs)
  show ?case
  proof (cases b)
    case (Some x)
    then show ?thesis using Cons BRSetGet_ok[OF Cons.prems, of x]
      by (auto simp: items_Cons member_of_def split: option.splits)
  qed (use Cons in \<open>simp add: items_Cons\<close>)
qed (simp add: items_def)

section \<open>The interface of a keyed set\<close>

text \<open>What a user of the set relies on: searching, adding and removing act on a set of items that holds
  no two equal ones.\<close>

locale keyed_set =
  fixes ok :: "'s \<Rightarrow> bool" and elems :: "'s \<Rightarrow> 'a set" and same :: "'a \<Rightarrow> 'a \<Rightarrow> bool" and room :: "'s \<Rightarrow> nat"
    and find :: "'s \<Rightarrow> 'a \<Rightarrow> 'a option option"
    and add :: "'s \<Rightarrow> 'a \<Rightarrow> ('s \<times> 'a option) option" and remove :: "'s \<Rightarrow> 'a \<Rightarrow> ('s \<times> 'a option) option"
    and clear :: "'s \<Rightarrow> 's"
  assumes find_law: "ok s \<Longrightarrow> \<exists>r. find s x = Some r \<and> (\<forall>y. r = Some y \<longleftrightarrow> y \<in> elems s \<and> same y x)"
    and add_law: "ok s \<Longrightarrow> 0 < room s \<Longrightarrow> \<exists>s' r. add s x = Some (s', r) \<and> ok s' \<and> room s \<le> Suc (room s') \<and>
      elems s' = insert x {y \<in> elems s. \<not> same y x} \<and> (\<forall>y. r = Some y \<longleftrightarrow> y \<in> elems s \<and> same y x)"
    and remove_law: "ok s \<Longrightarrow> \<exists>s' r. remove s x = Some (s', r) \<and> ok s' \<and> room s \<le> room s' \<and>
      elems s' = {y \<in> elems s. \<not> same y x} \<and> (\<forall>y. r = Some y \<longleftrightarrow> y \<in> elems s \<and> same y x)"
    and clear_law: "ok s \<Longrightarrow> ok (clear s) \<and> elems (clear s) = {} \<and> room s \<le> room (clear s)"

datatype 'a set_op = OpAdd 'a | OpRemove 'a | OpClear

text \<open>The abstract set: the state is the set of items.\<close>

fun spec_op :: "('a \<Rightarrow> 'a \<Rightarrow> bool) \<Rightarrow> 'a set \<Rightarrow> 'a set_op \<Rightarrow> 'a set" where
  "spec_op e S (OpAdd x) = insert x {y \<in> S. \<not> e y x}"
| "spec_op e S (OpRemove x) = {y \<in> S. \<not> e y x}"
| "spec_op e S OpClear = {}"

fun run_set_op :: "('s \<Rightarrow> 'a \<Rightarrow> ('s \<times> 'a option) option) \<Rightarrow> ('s \<Rightarrow> 'a \<Rightarrow> ('s \<times> 'a option) option) \<Rightarrow> ('s \<Rightarrow> 's) \<Rightarrow>
    's \<Rightarrow> 'a set_op \<Rightarrow> 's option" where
  "run_set_op add remove clear s (OpAdd x) = map_option fst (add s x)"
| "run_set_op add remove clear s (OpRemove x) = map_option fst (remove s x)"
| "run_set_op add remove clear s OpClear = Some (clear s)"

primrec run_set_ops :: "('s \<Rightarrow> 'a set_op \<Rightarrow> 's option) \<Rightarrow> 's \<Rightarrow> 'a set_op list \<Rightarrow> 's option" where
  "run_set_ops step s [] = Some s"
| "run_set_ops step s (c # cs) = (case step s c of None \<Rightarrow> None | Some s' \<Rightarrow> run_set_ops step s' cs)"

context keyed_set
begin

lemma step_refines:
  assumes "ok s" "0 < room s"
  shows "\<exists>s'. run_set_op add remove clear s c = Some s' \<and> ok s' \<and> elems s' = spec_op same (elems s) c \<and> room s \<le> Suc (room s')"
proof (cases c)
  case (OpAdd x)
  then show ?thesis using add_law[OF assms, of x] by auto
next
  case (OpRemove x)
  then show ?thesis using remove_law[OF assms(1), of x] by force
next
  case OpClear
  then show ?thesis using clear_law[OF assms(1)] by simp
qed

lemma run_refines:
  "ok s \<Longrightarrow> length cs \<le> room s \<Longrightarrow>
     \<exists>s'. run_set_ops (run_set_op add remove clear) s cs = Some s' \<and> ok s' \<and> elems s' = foldl (spec_op same) (elems s) cs"
proof (induction cs arbitrary: s)
  case (Cons c cs)
  have "0 < room s" using Cons.prems(2) by simp
  then obtain s1 where s1: "run_set_op add remove clear s c = Some s1" "ok s1" "elems s1 = spec_op same (elems s) c"
    "room s \<le> Suc (room s1)"
    using step_refines[OF Cons.prems(1)] by blast
  have "length cs \<le> room s1" using Cons.prems(2) s1(4) by simp
  then show ?case using Cons.IH[OF s1(2)] s1(1,3) by simp
qed simp

end

lemma member_of_iff:
  assumes "set_ok s" "member_of s x r"
  shows "r = Some y \<longleftrightarrow> y \<in> set_items s \<and> set_eq s y x"
  using member_of_unique[OF assms, of "Some y"] assms(2) by (auto simp: member_of_def)

definition brset_ok :: "('a \<Rightarrow> u64) \<Rightarrow> ('a \<Rightarrow> 'a \<Rightarrow> bool) \<Rightarrow> 'a brset \<Rightarrow> bool" where
  "brset_ok h e s \<longleftrightarrow> set_ok s \<and> set_hash s = h \<and> set_eq s = e"

lemma brset_find_law:
  assumes "brset_ok h e s"
  shows "\<exists>r. BRSetGet s x = Some r \<and> (\<forall>y. r = Some y \<longleftrightarrow> y \<in> set_items s \<and> e y x)"
proof -
  have s: "set_ok s" and e: "set_eq s = e" using assms by (auto simp: brset_ok_def)
  obtain r where r: "BRSetGet s x = Some r" "member_of s x r" using BRSetGet_ok[OF s] by blast
  then show ?thesis using member_of_iff[OF s r(2)] by (intro exI[of _ r]) (simp add: e)
qed

lemma brset_add_law:
  assumes "brset_ok h e s" "0 < SET_LIMIT - set_count s"
  shows "\<exists>s' r. BRSetAdd s x = Some (s', r) \<and> brset_ok h e s' \<and> SET_LIMIT - set_count s \<le> Suc (SET_LIMIT - set_count s') \<and>
      set_items s' = insert x {y \<in> set_items s. \<not> e y x} \<and> (\<forall>y. r = Some y \<longleftrightarrow> y \<in> set_items s \<and> e y x)"
proof -
  have s: "set_ok s" and e: "set_eq s = e" "set_hash s = h" using assms by (auto simp: brset_ok_def)
  have lim: "set_count s < SET_LIMIT" using assms(2) by simp
  obtain s' r where s': "BRSetAdd s x = Some (s', r)" "set_ok s'" "member_of s x r"
      "set_items s' = insert x {y \<in> set_items s. \<not> set_eq s y x}" "set_hash s' = set_hash s" "set_eq s' = set_eq s"
      "set_count s' \<le> Suc (set_count s)"
    by (rule BRSetAdd_items[OF s lim])
  have "\<forall>y. r = Some y \<longleftrightarrow> y \<in> set_items s \<and> e y x" using member_of_iff[OF s s'(3)] by (simp add: e)
  moreover have "SET_LIMIT - set_count s \<le> Suc (SET_LIMIT - set_count s')" using s'(7) by linarith
  moreover have "brset_ok h e s'" using s'(2,5,6) e by (simp add: brset_ok_def)
  moreover have "set_items s' = insert x {y \<in> set_items s. \<not> e y x}" using s'(4) by (simp only: e)
  ultimately show ?thesis using s'(1) by blast
qed

lemma brset_remove_law:
  assumes "brset_ok h e s"
  shows "\<exists>s' r. BRSetRemove s x = Some (s', r) \<and> brset_ok h e s' \<and> SET_LIMIT - set_count s \<le> SET_LIMIT - set_count s' \<and>
      set_items s' = {y \<in> set_items s. \<not> e y x} \<and> (\<forall>y. r = Some y \<longleftrightarrow> y \<in> set_items s \<and> e y x)"
proof -
  have s: "set_ok s" and e: "set_eq s = e" "set_hash s = h" using assms by (auto simp: brset_ok_def)
  obtain s' r where s': "BRSetRemove s x = Some (s', r)" "set_ok s'" "member_of s x r"
      "set_items s' = {y \<in> set_items s. \<not> set_eq s y x}" "set_hash s' = set_hash s" "set_eq s' = set_eq s"
    by (rule BRSetRemove_spec[OF s])
  have "finite (set_items s)" by (metis List.finite_set set_bucket_items)
  then have "card (set_items s') \<le> card (set_items s)" using s'(4) by (intro card_mono) auto
  then have "SET_LIMIT - set_count s \<le> SET_LIMIT - set_count s'"
    using card_set_items[OF s] card_set_items[OF s'(2)] by linarith
  moreover have "\<forall>y. r = Some y \<longleftrightarrow> y \<in> set_items s \<and> e y x" using member_of_iff[OF s s'(3)] by (simp add: e)
  moreover have "brset_ok h e s'" using s'(2,5,6) e by (simp add: brset_ok_def)
  ultimately show ?thesis using s'(1,4)[unfolded e] by (intro exI[of _ s'] exI[of _ r]) simp
qed

lemma brset_clear_law:
  assumes "brset_ok h e s"
  shows "brset_ok h e (BRSetClear s) \<and> set_items (BRSetClear s) = {} \<and>
    SET_LIMIT - set_count s \<le> SET_LIMIT - set_count (BRSetClear s)"
  using assms set_ok_Clear(1)[of s] set_ok_Clear(2)[of s] by (simp add: brset_ok_def BRSetClear_def)

interpretation brset: keyed_set "brset_ok h e" set_items e "\<lambda>s. SET_LIMIT - set_count s" BRSetGet BRSetAdd BRSetRemove BRSetClear
  for h :: "'a \<Rightarrow> u64" and e
  by unfold_locales (fact brset_find_law brset_add_law brset_remove_law brset_clear_law)+

section \<open>Properties\<close>

text \<open>C6. The hash table refines a set that holds no two equal items.  After any sequence of additions,
  removals and clears (fewer than the table sizes can hold) from a new set, with growths and the
  cleanup after each removal included, no probe runs forever, the items are those of the abstract
  set, the count is its cardinality, and a search returns the item of the abstract set equal to what
  is looked for, or nothing exactly when there is none.\<close>
theorem hash_set_refines_a_keyed_set:
  assumes "keyed h e" "sizeIndex capacity < 50" "length cs \<le> SET_LIMIT"
  shows "\<exists>s. run_set_ops (run_set_op BRSetAdd BRSetRemove BRSetClear) (BRSetNew h e capacity) cs = Some s \<and>
    set_items s = foldl (spec_op e) {} cs \<and> BRSetCount s = card (foldl (spec_op e) {} cs) \<and>
    (\<forall>x. BRSetContains s x = Some (\<exists>y \<in> foldl (spec_op e) {} cs. e y x) \<and>
       (\<exists>r. BRSetGet s x = Some r \<and> (\<forall>y. r = Some y \<longleftrightarrow> y \<in> foldl (spec_op e) {} cs \<and> e y x)))"
proof -
  let ?s0 = "BRSetNew h e capacity"
  note new = set_ok_New[OF assms(1,2)]
  have "brset_ok h e ?s0" "length cs \<le> SET_LIMIT - set_count ?s0" using new assms(3) by (simp_all add: brset_ok_def)
  from brset.run_refines[OF this] obtain s where
    s: "run_set_ops (run_set_op BRSetAdd BRSetRemove BRSetClear) ?s0 cs = Some s" "brset_ok h e s"
    "set_items s = foldl (spec_op e) {} cs"
    using new(2) by auto
  then show ?thesis
    using brset.find_law[OF s(2)] card_set_items[of s] BRSetContains_ok[of s]
    by (intro exI[of _ s]) (auto simp: brset_ok_def BRSetCount_def)
qed

theorem hash_set_refines_a_keyed_set_witness:
  "\<exists>s. run_set_ops (run_set_op BRSetAdd BRSetRemove BRSetClear)
      (BRSetNew (\<lambda>x :: nat. of_nat (x mod 10)) (\<lambda>x y. x mod 10 = y mod 10) 2)
      [OpAdd 3, OpAdd 14, OpAdd 23, OpRemove 4] = Some s \<and> set_items s = {23}"
  using hash_set_refines_a_keyed_set[of "\<lambda>x :: nat. of_nat (x mod 10)" "\<lambda>x y. x mod 10 = y mod 10" 2
      "[OpAdd 3, OpAdd 14, OpAdd 23, OpRemove 4]"]
  by (fastforce simp: keyed_def sizeIndex_def tableSizes_def SET_LIMIT_def load_limit_def)

text \<open>
  Union, difference, intersection and the test for common items are those of sets up to the
  equality of the set: union keeps the other set's version of an item both have, and no removal
  during the scan of the intersection makes it miss an item.\<close>
theorem hash_set_algebra:
  assumes "set_ok s" "set_ok other" "set_eq other = set_eq s" "set_count s + set_count other \<le> SET_LIMIT"
  shows "\<exists>u m i. BRSetUnion s other = Some u \<and> set_ok u \<and>
      set_items u = {y \<in> set_items s. \<forall>z \<in> set_items other. \<not> set_eq s y z} \<union> set_items other \<and>
    BRSetMinus s other = Some m \<and> set_ok m \<and>
      set_items m = {y \<in> set_items s. \<forall>z \<in> set_items other. \<not> set_eq s y z} \<and>
    BRSetIntersect s other = Some i \<and> set_ok i \<and>
      set_items i = {y \<in> set_items s. \<exists>z \<in> set_items other. set_eq s y z} \<and>
    BRSetIntersects s other = Some (set_items i \<noteq> {})"
proof -
  have k: "keyed (set_hash s) (set_eq s)" and u: "uniq (set_eq s) (set_table other)"
    using assms(1-3) by (auto simp: set_ok_def table_ok_def)
  have sym: "set_eq s y z \<longleftrightarrow> set_eq s z y" for y z using keyedD(2)[OF k] by blast
  have len: "length (bucket_items (set_table other)) = set_count other"
    using assms(2) by (simp add: length_bucket_items set_ok_def)
  obtain v where "BRSetUnion s other = Some v" "set_ok v"
      "set_items v = {y \<in> set_items s. \<forall>z \<in> set_items other. \<not> set_eq s y z} \<union> set_items other"
    using union_loop[OF assms(1) u] assms(4) len by (auto simp: BRSetUnion_def)
  moreover obtain m where "BRSetMinus s other = Some m" "set_ok m"
      "set_items m = {y \<in> set_items s. \<forall>z \<in> set_items other. \<not> set_eq s y z}"
    using minus_loop[OF assms(1), of "set_table other"] by (auto simp: BRSetMinus_def)
  moreover have "set_count s \<le> length (set_table s)"
    using assms(1) card_occ_le[of "set_table s"] by (simp add: set_ok_def)
  then obtain i where "BRSetIntersect s other = Some i" "set_ok i"
      "set_items i = {y \<in> set_items s. \<exists>z \<in> set_items other. set_eq s y z}"
    using intersect_loop[OF assms(2) assms(1) refl, of 0 "2 * length (set_table s) + 1"] assms(3) sym
    by (auto simp: BRSetIntersect_def Let_def)
  ultimately show ?thesis
    using intersects_loop[OF assms(1), of "set_table other"] by (auto simp: BRSetIntersects_def)
qed

theorem hash_set_algebra_witness:
  "\<exists>i. BRSetIntersect (BRSetNew (\<lambda>x :: nat. of_nat (x mod 10)) (=) 2) (BRSetNew (\<lambda>x. of_nat (x mod 10)) (=) 7) = Some i \<and> set_items i = {}"
proof -
  let ?h = "\<lambda>x :: nat. of_nat (x mod 10) :: u64"
  have k: "keyed ?h (=)" by (simp add: keyed_def)
  have i: "sizeIndex 2 < 50" "sizeIndex 7 < 50" by (simp_all add: sizeIndex_def tableSizes_def)
  show ?thesis
    using hash_set_algebra[OF set_ok_New(1)[OF k i(1)] set_ok_New(1)[OF k i(2)]]
      set_ok_New(2,4,6)[OF k i(1)] set_ok_New(4,6)[OF k i(2)]
    by (auto simp: SET_LIMIT_def)
qed

section \<open>Iteration\<close>

text \<open>A loop that feeds each result of \<open>BRSetIterate\<close> back to it.\<close>

primrec iterate_all :: "nat \<Rightarrow> 'a brset \<Rightarrow> 'a option \<Rightarrow> 'a list option" where
  "iterate_all 0 s p = None"
| "iterate_all (Suc fuel) s p =
     (case BRSetIterate s p of None \<Rightarrow> None | Some None \<Rightarrow> Some []
      | Some (Some x) \<Rightarrow> map_option ((#) x) (iterate_all fuel s (Some x)))"

lemma bucket_items_next:
  "bucket_items t = x # xs \<Longrightarrow> \<exists>j < length t. t ! j = Some x \<and> bucket_items (drop (Suc j) t) = xs"
proof (induction t)
  case (Cons b t)
  show ?case
  proof (cases b)
    case None
    then obtain j where "j < length t" "t ! j = Some x" "bucket_items (drop (Suc j) t) = xs" using Cons by auto
    then show ?thesis by (intro exI[of _ "Suc j"]) simp
  next
    case (Some y)
    then show ?thesis using Cons.prems by (intro exI[of _ 0]) simp
  qed
qed simp

lemma iterate_from:
  assumes ok: "set_ok s"
  shows "map_option (\<lambda>i. i) (case p of None \<Rightarrow> Some 0 | Some p \<Rightarrow> map_option Suc (setFind s p)) = Some i \<Longrightarrow>
     length (bucket_items (drop i (set_table s))) < fuel \<Longrightarrow>
     iterate_all fuel s p = Some (bucket_items (drop i (set_table s)))"
proof (induction fuel arbitrary: i p)
  case (Suc fuel)
  let ?t = "set_table s"
  have it: "BRSetIterate s p = Some (case bucket_items (drop i ?t) of [] \<Rightarrow> None | x # xs \<Rightarrow> Some x)"
    using Suc.prems(1) by (simp add: BRSetIterate_def option.map_ident)
  show ?case
  proof (cases "bucket_items (drop i ?t)")
    case Nil
    then show ?thesis using it by simp
  next
    case (Cons x xs)
    obtain j where j0: "j < length (drop i ?t)" "drop i ?t ! j = Some x" "bucket_items (drop (Suc j) (drop i ?t)) = xs"
      using bucket_items_next[OF Cons] by blast
    then have j: "i + j < length ?t" "?t ! (i + j) = Some x" "bucket_items (drop (Suc (i + j)) ?t) = xs"
      by (simp_all add: add.commute)
    have k: "keyed (set_hash s) (set_eq s)" and u: "uniq (set_eq s) ?t" and p: "placed (set_hash s) ?t (i + j)"
      using ok j(1) by (auto simp: set_ok_def table_ok_def)
    have "setFind s x = Some (i + j)" using setFind_present[OF k u j(1,2) keyedD(1)[OF k] p] .
    then have "iterate_all fuel s (Some x) = Some (bucket_items (drop (Suc (i + j)) ?t))"
      using Suc.prems(2) Cons j(3) by (intro Suc.IH) simp_all
    then show ?thesis using it Cons j(3) by simp
  qed
qed simp

lemma distinct_bucket_items: "uniq e t \<Longrightarrow> (\<And>x. e x x) \<Longrightarrow> distinct (bucket_items t)"
proof (induction t)
  case (Cons b t)
  then have "distinct (bucket_items t)" by (blast dest: uniq_Cons(1))
  moreover have "x \<notin> items t" if "b = Some x" for x
    using uniq_Cons(2)[OF Cons.prems(1) that] Cons.prems(2) by blast
  ultimately show ?case by (cases b) (auto simp: set_bucket_items)
qed simp

text \<open>C27. Iterating from the start and feeding each item back visits every item of the set exactly once,
  in the order \<open>BRSetAll\<close> writes them and \<open>BRSetApply\<close> applies its function to them, and then ends.\<close>
theorem hash_set_iteration:
  assumes "set_ok s"
  shows "iterate_all (Suc (BRSetCount s)) s None = Some (BRSetAll s (BRSetCount s)) \<and>
    distinct (BRSetAll s (BRSetCount s)) \<and> set (BRSetAll s (BRSetCount s)) = set_items s \<and>
    BRSetApply s info f = foldl f info (BRSetAll s (BRSetCount s))"
proof -
  have k: "keyed (set_hash s) (set_eq s)" and u: "uniq (set_eq s) (set_table s)"
    using assms by (auto simp: set_ok_def table_ok_def)
  have len: "length (bucket_items (set_table s)) = set_count s"
    using assms by (simp add: length_bucket_items set_ok_def)
  then have all: "BRSetAll s (BRSetCount s) = bucket_items (set_table s)"
    by (simp add: BRSetAll_def BRSetCount_def)
  have "iterate_all (Suc (set_count s)) s None = Some (bucket_items (set_table s))"
    using iterate_from[OF assms, of None 0 "Suc (set_count s)"] len by simp
  then show ?thesis
    using distinct_bucket_items[OF u keyedD(1)[OF k]]
    unfolding all by (simp add: BRSetCount_def set_bucket_items BRSetApply_def)
qed

lemma probe_numeral:
  "probe t stop (numeral k) i = (case t ! i of None \<Rightarrow> Some i
     | Some x \<Rightarrow> if stop x then Some i else probe t stop (pred_numeral k) (Suc i mod length t))"
  by (simp add: numeral_eq_Suc)

text \<open>A set of numbers by their last digit, with the items 3, 13 and 4: the second collides with the first.\<close>

definition sample_set :: "nat option list \<Rightarrow> nat \<Rightarrow> nat brset" where
  "sample_set t n = \<lparr>set_table = t, set_count = n, set_hash = (\<lambda>x. of_nat (x mod 10)), set_eq = (=)\<rparr>"

lemma sample_set_add:
  assumes "brset_ok (\<lambda>x. of_nat (x mod 10)) (=) (sample_set t n)" "length t = 7" "n < 6"
    and "probe t (\<lambda>y. y = x) 7 (unat (of_nat (x mod 10) :: u64) mod 7) = Some i" "t ! i = None"
  shows "BRSetAdd (sample_set t n) x = Some (sample_set (t[i := Some x]) (Suc n), None) \<and>
    brset_ok (\<lambda>x. of_nat (x mod 10)) (=) (sample_set (t[i := Some x]) (Suc n))"
proof -
  have find: "setFind (sample_set t n) x = Some i"
    using assms(2,4) by (simp add: setFind_def sample_set_def)
  have add: "BRSetAdd (sample_set t n) x = Some (sample_set (t[i := Some x]) (Suc n), None)"
    unfolding BRSetAdd_depth setAdd.simps(2) find
    using assms(2,3,5) by (simp add: Let_def load_limit_def sample_set_def)
  have "0 < SET_LIMIT - set_count (sample_set t n)"
    using assms(3) by (simp add: SET_LIMIT_def load_limit_def tableSizes_def sample_set_def)
  from brset_add_law[OF assms(1) this, of x] add show ?thesis by auto
qed

theorem hash_set_iteration_witness:
  "\<exists>s. run_set_ops (run_set_op BRSetAdd BRSetRemove BRSetClear)
      (BRSetNew (\<lambda>x :: nat. of_nat (x mod 10)) (=) 2) [OpAdd 3, OpAdd 13, OpAdd 4] = Some s \<and>
    set_table s = [None, None, None, Some 3, Some 13, Some 4, None] \<and>
    BRSetIterate s None = Some (Some 3) \<and> BRSetIterate s (Some 3) = Some (Some 13) \<and>
    BRSetIterate s (Some 13) = Some (Some 4) \<and> BRSetIterate s (Some 4) = Some None \<and>
    iterate_all 4 s None = Some [3, 13, 4] \<and> BRSetAll s 3 = [3, 13, 4] \<and> set_items s = {3, 13, 4} \<and>
    BRSetApply s 0 (+) = 20"
proof -
  let ?h = "\<lambda>x :: nat. of_nat (x mod 10) :: u64" and ?t = "[None, None, None, Some 3, Some 13, Some 4, None]"
  have k: "keyed ?h (=)" by (simp add: keyed_def)
  have i: "sizeIndex 2 = 1" by (simp add: sizeIndex_def tableSizes_def)
  have empty: "replicate 7 None = [None, None, None, None, None, None, None :: nat option]"
    by (simp add: eval_nat_numeral)
  have new: "BRSetNew ?h (=) 2 = sample_set (replicate 7 None) 0"
    unfolding BRSetNew_def BRSetInit_def i by (simp add: tableSizes_def sample_set_def)
  have 0: "brset_ok ?h (=) (sample_set (replicate 7 None) 0)"
    using set_ok_New[OF k, of 2] by (simp add: i brset_ok_def new)
  have 1: "BRSetAdd (sample_set (replicate 7 None) 0) 3 = Some (sample_set [None, None, None, Some 3, None, None, None] 1, None) \<and>
      brset_ok ?h (=) (sample_set [None, None, None, Some 3, None, None, None] 1)"
    using sample_set_add[OF 0, of 3 3] by (simp add: probe_numeral empty)
  have 2: "BRSetAdd (sample_set [None, None, None, Some 3, None, None, None] 1) 13 =
        Some (sample_set [None, None, None, Some 3, Some 13, None, None] 2, None) \<and>
      brset_ok ?h (=) (sample_set [None, None, None, Some 3, Some 13, None, None] 2)"
    using sample_set_add[OF conjunct2[OF 1], of 13 4] by (simp add: probe_numeral) (simp add: numeral_2_eq_2)
  have 3: "BRSetAdd (sample_set [None, None, None, Some 3, Some 13, None, None] 2) 4 = Some (sample_set ?t 3, None) \<and>
      brset_ok ?h (=) (sample_set ?t 3)"
    using sample_set_add[OF conjunct2[OF 2], of 4 5] by (simp add: probe_numeral)
  have run: "run_set_ops (run_set_op BRSetAdd BRSetRemove BRSetClear) (BRSetNew ?h (=) 2) [OpAdd 3, OpAdd 13, OpAdd 4] =
      Some (sample_set ?t 3)"
    using 1 2 3 by (simp add: new)
  have find: "setFind (sample_set ?t 3) 3 = Some 3" "setFind (sample_set ?t 3) 13 = Some 4"
      "setFind (sample_set ?t 3) 4 = Some 5"
    by (simp_all add: setFind_def sample_set_def Let_def probe_numeral)
  have all: "BRSetAll (sample_set ?t 3) 3 = [3, 13, 4]" "BRSetCount (sample_set ?t 3) = 3"
    by (simp_all add: BRSetAll_def BRSetCount_def bucket_items_def sample_set_def)
  have step: "BRSetIterate (sample_set ?t 3) None = Some (Some 3)" "BRSetIterate (sample_set ?t 3) (Some 3) = Some (Some 13)"
    "BRSetIterate (sample_set ?t 3) (Some 13) = Some (Some 4)" "BRSetIterate (sample_set ?t 3) (Some 4) = Some None"
    by (simp_all add: BRSetIterate_def find) (simp_all add: bucket_items_def sample_set_def)
  have four: "Suc 3 = (4 :: nat)" by simp
  have "set_ok (sample_set ?t 3)" using 3 by (simp add: brset_ok_def)
  from hash_set_iteration[OF this, of 0 "(+)"]
  have it: "iterate_all 4 (sample_set ?t 3) None = Some [3, 13, 4]" "set_items (sample_set ?t 3) = {3, 13, 4}"
    "BRSetApply (sample_set ?t 3) 0 (+) = 20"
    unfolding all four by (simp_all add: all(1))
  have table: "set_table (sample_set ?t 3) = ?t" by (simp add: sample_set_def)
  show ?thesis
    by (intro exI[of _ "sample_set ?t 3"] conjI) (rule run table step it all)+
qed

end
