(* ===== verification/GCSFilter.thy ===== *)
theory GCSFilter
  imports Script Hashes
begin

text \<open>
  The BIP 158 compact block filters of \<open>src/BRGCSFilter.c\<close>: SipHash-2-4, the mapping of a hash into the
  filter's range, the bit reader, the Golomb-Rice decoder, parsing, matching and the filter hashes.
  A pointer that is null with a nonzero length is \<open>None\<close>.
\<close>

section \<open>SipHash-2-4 and the range mapping\<close>

type_synonym sip_state = "u64 \<times> u64 \<times> u64 \<times> u64"

definition SIP_ROTL :: "u64 \<Rightarrow> nat \<Rightarrow> u64" where "SIP_ROTL x b = push_bit b x OR drop_bit (64 - b) x"

definition SIP_ROUND :: "sip_state \<Rightarrow> sip_state" where
  "SIP_ROUND = (\<lambda>(v0, v1, v2, v3).
     let v0 = v0 + v1; v1 = SIP_ROTL v1 13; v1 = v1 XOR v0;
         v0 = SIP_ROTL v0 32;
         v2 = v2 + v3; v3 = SIP_ROTL v3 16; v3 = v3 XOR v2;
         v0 = v0 + v3; v3 = SIP_ROTL v3 21; v3 = v3 XOR v0;
         v2 = v2 + v1; v1 = SIP_ROTL v1 17; v1 = v1 XOR v2;
         v2 = SIP_ROTL v2 32
     in (v0, v1, v2, v3))"

definition sip_absorb :: "u64 \<Rightarrow> sip_state \<Rightarrow> sip_state" where
  "sip_absorb m = (\<lambda>(v0, v1, v2, v3).
     let (v0, v1, v2, v3) = SIP_ROUND (SIP_ROUND (v0, v1, v2, v3 XOR m)) in (v0 XOR m, v1, v2, v3))"

text \<open>The loop over the whole words; it returns the state and the bytes that are left.\<close>

fun sipLoop :: "sip_state \<Rightarrow> bytes \<Rightarrow> sip_state \<times> bytes" where
  "sipLoop v (b0 # b1 # b2 # b3 # b4 # b5 # b6 # b7 # rest) =
     sipLoop (sip_absorb (UInt64GetLE [b0, b1, b2, b3, b4, b5, b6, b7]) v) rest"
| "sipLoop v data = (v, data)"

definition siphash24 :: "u64 \<Rightarrow> u64 \<Rightarrow> bytes \<Rightarrow> u64" where
  "siphash24 k0 k1 data =
     (let (v, tail) = sipLoop (k0 XOR 0x736f6d6570736575, k1 XOR 0x646f72616e646f6d,
                               k0 XOR 0x6c7967656e657261, k1 XOR 0x7465646279746573) data;
          b = push_bit 56 (of_nat (length data)) OR get_le tail;
          (v0, v1, v2, v3) = sip_absorb b v;
          v2 = v2 XOR 0xff;
          (v0, v1, v2, v3) = (SIP_ROUND ^^ 4) (v0, v1, v2, v3)
      in v0 XOR v1 XOR v2 XOR v3)"

text \<open>The arm for a compiler with a 128-bit integer, and the portable one.\<close>

definition fastrange64 :: "u64 \<Rightarrow> u64 \<Rightarrow> u64" where
  "fastrange64 hash F = ucast (drop_bit 64 ((ucast hash :: u128) * ucast F))"

definition fastrange64_portable :: "u64 \<Rightarrow> u64 \<Rightarrow> u64" where
  "fastrange64_portable hash F =
     (let h = drop_bit 32 hash; l = hash AND 0xffffffff; H = drop_bit 32 F; L = F AND 0xffffffff;
          ll = l * L; lh = l * H; hl = h * L; hh = h * H;
          mid = drop_bit 32 ll + (lh AND 0xffffffff) + (hl AND 0xffffffff)
      in hh + drop_bit 32 lh + drop_bit 32 hl + drop_bit 32 mid)"

section \<open>Readers\<close>

definition read_compact_size :: "bytes \<Rightarrow> nat \<Rightarrow> (nat \<times> u64) option" where
  "read_compact_size buf cursor =
     (if cursor \<ge> length buf then None
      else let (v, consumed) = BRVarInt (drop cursor buf)
           in if consumed = 0 \<or> cursor + consumed > length buf then None else Some (cursor + consumed, v))"

record bit_reader =
  br_data :: bytes
  bytePos :: nat
  bitPos :: nat

definition br_init :: "bytes \<Rightarrow> nat \<Rightarrow> bit_reader" where
  "br_init data startByte = \<lparr>br_data = data, bytePos = startByte, bitPos = 0\<rparr>"

text \<open>The bit under the reader, and the reader moved on by one bit.\<close>

definition br_bit :: "bit_reader \<Rightarrow> u8" where
  "br_bit br = drop_bit (7 - bitPos br) (br_data br ! bytePos br) AND 1"

definition br_advance :: "bit_reader \<Rightarrow> bit_reader" where
  "br_advance br =
     (let br = br\<lparr>bitPos := bitPos br + 1\<rparr>
      in if bitPos br \<ge> 8 then br\<lparr>bitPos := 0, bytePos := bytePos br + 1\<rparr> else br)"

primrec br_loop :: "nat \<Rightarrow> bit_reader \<Rightarrow> u64 \<Rightarrow> (u64 \<times> bit_reader) option" where
  "br_loop 0 br v = Some (v, br)"
| "br_loop (Suc n) br v =
     (if bytePos br \<ge> length (br_data br) then None
      else br_loop n (br_advance br) (push_bit 1 v OR ucast (br_bit br)))"

definition br_read :: "bit_reader \<Rightarrow> nat \<Rightarrow> (u64 \<times> bit_reader) option" where
  "br_read br nbits = br_loop nbits br 0"

definition br_at_end :: "bit_reader \<Rightarrow> bool" where "br_at_end br \<longleftrightarrow> bytePos br \<ge> length (br_data br)"

lemma br_read_one:
  "br_read br 1 = (if bytePos br \<ge> length (br_data br) then None else Some (ucast (br_bit br), br_advance br))"
  by (simp add: br_read_def)

lemma br_advance_data [simp]: "br_data (br_advance br) = br_data br"
  by (simp add: br_advance_def Let_def)

text \<open>The unary part of a Golomb-Rice code; it ends because every turn reads a bit.\<close>

function unaryLoop :: "bit_reader \<Rightarrow> u64 \<Rightarrow> (u64 \<times> bit_reader) option" where
  "unaryLoop br q =
     (case br_read br 1 of None \<Rightarrow> None
      | Some (b, br') \<Rightarrow>
          if b = 0 then Some (q, br')
          else if q + 1 > push_bit 32 1 then None
          else unaryLoop br' (q + 1))"
  by pat_completeness auto
termination
proof (relation "measure (\<lambda>(br, q). (length (br_data br) - bytePos br) * 9 + (8 - bitPos br))", simp)
  fix br :: bit_reader and q x2 b br'
  assume "br_read br 1 = Some x2" "(b, br') = x2"
  then have r: "\<not> bytePos br \<ge> length (br_data br)" "br' = br_advance br"
    unfolding br_read_one by (auto split: if_splits)
  then show "((br', q + 1), br, q) \<in> measure (\<lambda>(br, q). (length (br_data br) - bytePos br) * 9 + (8 - bitPos br))"
    by (auto simp: br_advance_def Let_def)
qed

declare unaryLoop.simps [simp del]

definition gr_decode :: "bit_reader \<Rightarrow> nat \<Rightarrow> (u64 \<times> bit_reader) option" where
  "gr_decode br P =
     (case unaryLoop br 0 of None \<Rightarrow> None
      | Some (q, br) \<Rightarrow> (case br_read br P of None \<Rightarrow> None | Some (r, br) \<Rightarrow> Some (push_bit P q + r, br)))"

section \<open>The filter\<close>

record gcs_filter =
  gf_P :: u8
  gf_M :: u32
  gf_k0 :: u64
  gf_k1 :: u64
  gf_N :: u32
  gf_F :: u64
  gf_encoded :: bytes
  gf_values :: "u64 list"

definition BR_GCS_BASIC_FILTER_P :: u8 where "BR_GCS_BASIC_FILTER_P = 19"
definition BR_GCS_BASIC_FILTER_M :: u32 where "BR_GCS_BASIC_FILTER_M = 784931"
definition BR_GCS_MAX_ENCODED_SIZE :: nat where "BR_GCS_MAX_ENCODED_SIZE = 100 * 1024"

primrec decodeLoop :: "nat \<Rightarrow> u8 \<Rightarrow> u64 \<Rightarrow> bit_reader \<Rightarrow> u64 \<Rightarrow> (u64 list \<times> bit_reader) option" where
  "decodeLoop 0 P F br running = Some ([], br)"
| "decodeLoop (Suc n) P F br running =
     (case gr_decode br (unat P) of None \<Rightarrow> None
      | Some (delta, br) \<Rightarrow>
          let running = running + delta
          in if running \<ge> F then None
             else (case decodeLoop n P F br running of None \<Rightarrow> None
                   | Some (vs, br) \<Rightarrow> Some (running # vs, br)))"

definition BRGCSFilterParse :: "bytes option \<Rightarrow> u64 \<Rightarrow> u64 \<Rightarrow> u8 \<Rightarrow> u32 \<Rightarrow> gcs_filter option" where
  "BRGCSFilterParse bytes k0 k1 P M =
     (case bytes of None \<Rightarrow> None
      | Some bytes \<Rightarrow>
          if length bytes > BR_GCS_MAX_ENCODED_SIZE then None
          else if P = 0 \<or> P > 32 \<or> M = 0 then None
          else (case read_compact_size bytes 0 of None \<Rightarrow> None
                | Some (cursor, N64) \<Rightarrow>
                    if N64 > 0xffffffff then None
                    else
                      let N = ucast N64 :: u32;
                          F = ucast N * ucast M;
                          f = \<lparr>gf_P = P, gf_M = M, gf_k0 = k0, gf_k1 = k1, gf_N = N, gf_F = F,
                               gf_encoded = bytes, gf_values = []\<rparr>
                      in if N = 0 then Some f
                         else if unat N > 0xffffffffffffffff div 8 \<or> unat N > (length bytes - cursor) * 8 then None
                         else (case decodeLoop (unat N) P F (br_init bytes cursor) 0 of None \<Rightarrow> None
                               | Some (values, br) \<Rightarrow>
                                   if bytePos br + 1 < length bytes then None
                                   else Some (f\<lparr>gf_values := values\<rparr>))))"

definition BRGCSFilterBasicParse :: "bytes option \<Rightarrow> bytes \<Rightarrow> gcs_filter option" where
  "BRGCSFilterBasicParse bytes blockHash =
     BRGCSFilterParse bytes (UInt64GetLE blockHash) (UInt64GetLE (drop 8 blockHash))
       BR_GCS_BASIC_FILTER_P BR_GCS_BASIC_FILTER_M"

section \<open>Matching\<close>

definition hash_to_range :: "gcs_filter \<Rightarrow> bytes \<Rightarrow> u64" where
  "hash_to_range f element = fastrange64 (siphash24 (gf_k0 f) (gf_k1 f) element) (gf_F f)"

function sortedSearch :: "u64 list \<Rightarrow> u64 \<Rightarrow> nat \<Rightarrow> nat \<Rightarrow> bool" where
  "sortedSearch arr target lo hi =
     (if lo < hi then
        let mid = lo + (hi - lo) div 2
        in if arr ! mid = target then True
           else if arr ! mid < target then sortedSearch arr target (mid + 1) hi
           else sortedSearch arr target lo mid
      else False)"
  by pat_completeness auto
termination by (relation "measure (\<lambda>(arr, target, lo, hi). hi - lo)") auto

declare sortedSearch.simps [simp del]

definition sorted_contains :: "u64 list \<Rightarrow> nat \<Rightarrow> u64 \<Rightarrow> bool" where
  "sorted_contains arr n target = sortedSearch arr target 0 n"

definition BRGCSFilterMatch :: "gcs_filter option \<Rightarrow> bytes option \<Rightarrow> bool" where
  "BRGCSFilterMatch f element =
     (case (f, element) of
        (Some f, Some element) \<Rightarrow> gf_N f \<noteq> 0 \<and> sorted_contains (gf_values f) (unat (gf_N f)) (hash_to_range f element)
      | _ \<Rightarrow> False)"

text \<open>The merge scan of the sorted hashes and the sorted values.\<close>

fun mergeScan :: "u64 list \<Rightarrow> u64 list \<Rightarrow> bool" where
  "mergeScan (q # qs) (v # vs) =
     (if q = v then True else if q < v then mergeScan qs (v # vs) else mergeScan (q # qs) vs)"
| "mergeScan qs vs = False"

definition BRGCSFilterMatchAny :: "gcs_filter option \<Rightarrow> bytes option list option \<Rightarrow> bool" where
  "BRGCSFilterMatchAny f elements =
     (case (f, elements) of
        (Some f, Some es) \<Rightarrow>
          es \<noteq> [] \<and> gf_N f \<noteq> 0 \<and> None \<notin> set es \<and>
          mergeScan (sort (map (\<lambda>e. hash_to_range f (the e)) es)) (take (unat (gf_N f)) (gf_values f))
      | _ \<Rightarrow> False)"

definition BRGCSFilterHash :: "gcs_filter option \<Rightarrow> bytes" where
  "BRGCSFilterHash f = (case f of None \<Rightarrow> replicate 32 0 | Some f \<Rightarrow> BRSHA256_2 (gf_encoded f))"

definition BRGCSFilterHeader :: "bytes \<Rightarrow> bytes \<Rightarrow> bytes" where
  "BRGCSFilterHeader filterHash prevHeader = BRSHA256_2 (take 32 filterHash @ take 32 prevHeader)"

definition BRGCSFilterEncoded :: "gcs_filter option \<Rightarrow> bytes" where
  "BRGCSFilterEncoded f = (case f of None \<Rightarrow> [] | Some f \<Rightarrow> gf_encoded f)"

definition BRGCSFilterN :: "gcs_filter option \<Rightarrow> u32" where
  "BRGCSFilterN f = (case f of None \<Rightarrow> 0 | Some f \<Rightarrow> gf_N f)"

section \<open>Bit strings\<close>

text \<open>The bits of a byte string, most significant first, and the bits that are left for a reader.\<close>

definition byte_bits :: "u8 \<Rightarrow> bool list" where "byte_bits b = map (\<lambda>i. bit b (7 - i)) [0..<8]"

definition bits_of :: "bytes \<Rightarrow> bool list" where "bits_of d = concat (map byte_bits d)"

definition br_pos :: "bit_reader \<Rightarrow> nat" where "br_pos br = 8 * bytePos br + bitPos br"

definition rest_bits :: "bit_reader \<Rightarrow> bool list" where "rest_bits br = drop (br_pos br) (bits_of (br_data br))"

definition br_ok :: "bit_reader \<Rightarrow> bool" where
  "br_ok br \<longleftrightarrow> bitPos br < 8 \<and> br_pos br \<le> 8 * length (br_data br)"

fun bit_num :: "nat \<Rightarrow> bool list \<Rightarrow> nat" where
  "bit_num v [] = v"
| "bit_num v (b # bs) = bit_num (2 * v + of_bool b) bs"

text \<open>The low \<open>k\<close> bits of a number, and the Golomb-Rice code of a number.\<close>

fun low_bits :: "nat \<Rightarrow> nat \<Rightarrow> bool list" where
  "low_bits 0 r = []"
| "low_bits (Suc k) r = low_bits k (r div 2) @ [odd r]"

definition golomb :: "nat \<Rightarrow> nat \<Rightarrow> bool list" where
  "golomb P d = replicate (d div 2 ^ P) True @ False # low_bits P d"

lemma length_byte_bits [simp]: "length (byte_bits b) = 8"
  by (simp add: byte_bits_def)

lemma length_bits_of [simp]: "length (bits_of d) = 8 * length d"
  by (induction d) (simp_all add: bits_of_def)

lemma bits_of_append: "bits_of (d @ d') = bits_of d @ bits_of d'"
  by (simp add: bits_of_def)

lemma bits_of_nth:
  "i < length d \<Longrightarrow> j < 8 \<Longrightarrow> bits_of d ! (8 * i + j) = bit (d ! i) (7 - j)"
proof (induction d arbitrary: i)
  case (Cons b d)
  then show ?case
    by (cases i) (simp_all add: bits_of_def nth_append byte_bits_def)
qed simp

lemma length_low_bits [simp]: "length (low_bits k r) = k"
  by (induction k arbitrary: r) auto

lemma bit_num_append: "bit_num v (bs @ cs) = bit_num (bit_num v bs) cs"
  by (induction bs arbitrary: v) auto

lemma bit_num_low_bits: "bit_num 0 (low_bits k r) = r mod 2 ^ k"
proof (induction k arbitrary: r)
  case (Suc k)
  have "r mod (2 * 2 ^ k) = 2 * (r div 2 mod 2 ^ k) + r mod 2" by (rule mod_mult2_eq)
  then show ?case using Suc by (simp add: bit_num_append odd_iff_mod_2_eq_one of_bool_def)
qed simp

lemma bit_num_snoc: "bit_num v (bs @ [b]) = 2 * bit_num v bs + of_bool b"
  by (simp add: bit_num_append)

lemma low_bits_bit_num: "low_bits (length bs) (bit_num 0 bs) = bs"
  by (induction bs rule: rev_induct) (auto simp: bit_num_snoc)

lemma bit_num_less: "bit_num 0 bs < 2 ^ length bs"
  using bit_num_low_bits[of "length bs" "bit_num 0 bs"] unfolding low_bits_bit_num
  by (metis mod_less_divisor zero_less_numeral zero_less_power)

lemma push_or: "unat (push_bit 1 v OR of_bool b :: u64) = (2 * unat v + of_bool b) mod 2 ^ 64"
proof -
  have "push_bit 1 v OR of_bool b = 2 * v + of_bool b"
    by (cases b) (simp_all add: or_one_eq push_bit_double flip: mult.commute)
  then show ?thesis by (simp add: unat_word_ariths mod_simps)
qed

lemma low_bits_mod: "low_bits k (r mod 2 ^ k) = low_bits k r"
proof -
  have "low_bits (length (low_bits k r)) (bit_num 0 (low_bits k r)) = low_bits k r" by (rule low_bits_bit_num)
  then show ?thesis by (simp add: bit_num_low_bits)
qed

section \<open>The reader reads the bits in order\<close>

lemma ucast_br_bit:
  assumes "br_ok br" "bytePos br < length (br_data br)"
  shows "(ucast (br_bit br) :: u64) = of_bool (hd (rest_bits br))" "rest_bits br \<noteq> []"
    "rest_bits (br_advance br) = tl (rest_bits br)" "br_ok (br_advance br)"
proof -
  have len: "br_pos br < length (bits_of (br_data br))" using assms by (simp add: br_ok_def br_pos_def)
  then show "rest_bits br \<noteq> []" by (simp add: rest_bits_def)
  have "hd (rest_bits br) = bit (br_data br ! bytePos br) (7 - bitPos br)"
    using len assms bits_of_nth[of "bytePos br" "br_data br" "bitPos br"]
    by (simp add: rest_bits_def hd_drop_conv_nth br_ok_def br_pos_def)
  then have "br_bit br = of_bool (hd (rest_bits br))"
    by (simp add: br_bit_def and_one_eq odd_iff_mod_2_eq_one bit_iff_odd_drop_bit)
  then show "(ucast (br_bit br) :: u64) = of_bool (hd (rest_bits br))" by (cases "hd (rest_bits br)") simp_all
  have pos: "br_pos (br_advance br) = Suc (br_pos br)"
    using assms(1) by (simp add: br_advance_def br_ok_def br_pos_def Let_def)
  then show "rest_bits (br_advance br) = tl (rest_bits br)" by (simp add: rest_bits_def drop_Suc tl_drop)
  have "bitPos (br_advance br) < 8" using assms(1) by (simp add: br_advance_def br_ok_def Let_def)
  then show "br_ok (br_advance br)" using pos len by (simp add: br_ok_def)
qed

lemma rest_bits_empty: "br_ok br \<Longrightarrow> rest_bits br = [] \<longleftrightarrow> bytePos br \<ge> length (br_data br)"
  by (auto simp: rest_bits_def br_ok_def br_pos_def)

lemma br_loop_bits:
  "br_ok br \<Longrightarrow> n + k \<le> 64 \<Longrightarrow> unat v < 2 ^ k \<Longrightarrow>
     (case br_loop n br v of
        None \<Rightarrow> length (rest_bits br) < n
      | Some (w, br') \<Rightarrow> n \<le> length (rest_bits br) \<and> unat w = bit_num (unat v) (take n (rest_bits br)) \<and>
          rest_bits br' = drop n (rest_bits br) \<and> br_ok br' \<and> br_data br' = br_data br)"
proof (induction n arbitrary: br v k)
  case (Suc n)
  show ?case
  proof (cases "bytePos br \<ge> length (br_data br)")
    case True
    then show ?thesis using rest_bits_empty[OF Suc.prems(1)] by simp
  next
    case False
    then obtain b bs where r: "rest_bits br = b # bs" using ucast_br_bit(2)[OF Suc.prems(1)] by (cases "rest_bits br") auto
    let ?v = "push_bit 1 v OR ucast (br_bit br)"
    have b: "(ucast (br_bit br) :: u64) = of_bool b" and adv: "rest_bits (br_advance br) = bs" "br_ok (br_advance br)"
      using ucast_br_bit[OF Suc.prems(1)] False r by auto
    have "2 * unat v + of_bool b < 2 ^ Suc k" using Suc.prems(3) by (cases b) auto
    moreover have "(2 :: nat) ^ Suc k \<le> 2 ^ 64" using Suc.prems(2) by (intro power_increasing) auto
    ultimately have v: "unat ?v = 2 * unat v + of_bool b" "unat ?v < 2 ^ Suc k"
      unfolding b push_or by simp_all
    have "n + Suc k \<le> 64" using Suc.prems(2) by simp
    note IH = Suc.IH[OF adv(2) this v(2)]
    have "br_loop (Suc n) br v = br_loop n (br_advance br) ?v" using False by simp
    then show ?thesis using IH r adv(1) v(1) by (auto split: option.splits)
  qed
qed simp

lemma br_read_bits:
  assumes "br_ok br" "n \<le> 64"
  shows "case br_read br n of
        None \<Rightarrow> length (rest_bits br) < n
      | Some (w, br') \<Rightarrow> n \<le> length (rest_bits br) \<and> unat w = bit_num 0 (take n (rest_bits br)) \<and>
          rest_bits br' = drop n (rest_bits br) \<and> br_ok br' \<and> br_data br' = br_data br"
  using br_loop_bits[of br n 0 0, unfolded unsigned_0] assms unfolding br_read_def by simp

section \<open>Golomb-Rice codes\<close>

text \<open>Two readers stand at the same bits of the same data.\<close>

definition reads_to :: "bit_reader \<Rightarrow> bool list \<Rightarrow> bit_reader \<Rightarrow> bool" where
  "reads_to br bs br' \<longleftrightarrow> rest_bits br = bs @ rest_bits br' \<and> br_ok br' \<and> br_data br' = br_data br"

lemma reads_to_trans: "reads_to br bs br1 \<Longrightarrow> reads_to br1 cs br2 \<Longrightarrow> reads_to br (bs @ cs) br2"
  by (simp add: reads_to_def)

lemma read_bit_step:
  assumes "br_ok br" "rest_bits br = b # bs"
  shows "br_read br 1 = Some (of_bool b, br_advance br)" "reads_to br [b] (br_advance br)"
proof -
  have ne: "bytePos br < length (br_data br)" using rest_bits_empty[OF assms(1)] assms(2) by auto
  then show "br_read br 1 = Some (of_bool b, br_advance br)"
    using ucast_br_bit(1)[OF assms(1) ne] ne assms(2) unfolding br_read_one by simp
  show "reads_to br [b] (br_advance br)"
    using ucast_br_bit(3,4)[OF assms(1) ne] assms(2) by (simp add: reads_to_def)
qed

lemma unaryLoop_reads:
  "br_ok br \<Longrightarrow> rest_bits br = replicate n True @ False # bs \<Longrightarrow> unat q + n \<le> 2 ^ 32 \<Longrightarrow>
     \<exists>br'. unaryLoop br q = Some (q + of_nat n, br') \<and> reads_to br (replicate n True @ [False]) br'"
proof (induction n arbitrary: br q)
  case 0
  then show ?case using read_bit_step[OF 0(1), of False bs] by (subst unaryLoop.simps) simp
next
  case (Suc n)
  have r: "br_read br 1 = Some (1, br_advance br)" "reads_to br [True] (br_advance br)"
    using read_bit_step[OF Suc.prems(1)] Suc.prems(2) by auto
  have q: "unat (q + 1) = unat q + 1" using Suc.prems(3) unat_plus_small[of q 1] by simp
  have "\<not> q + 1 > push_bit 32 1"
    using q Suc.prems(3) by (simp add: word_less_nat_alt)
  then have step: "unaryLoop br q = unaryLoop (br_advance br) (q + 1)"
    by (subst unaryLoop.simps) (use r(1) in simp)
  have "\<exists>br'. unaryLoop (br_advance br) (q + 1) = Some (q + 1 + of_nat n, br') \<and>
      reads_to (br_advance br) (replicate n True @ [False]) br'"
    using Suc.prems r(2) q by (intro Suc.IH) (auto simp: reads_to_def)
  then show ?case using step reads_to_trans[OF r(2)] by (auto simp: add.assoc)
qed

lemma unaryLoop_result:
  "br_ok br \<Longrightarrow> unaryLoop br q = Some (q', br') \<Longrightarrow> unat q \<le> 2 ^ 32 \<Longrightarrow>
     \<exists>n. reads_to br (replicate n True @ [False]) br' \<and> unat q' = unat q + n"
proof (induction br q rule: unaryLoop.induct)
  case (1 br q)
  obtain b bs where r: "rest_bits br = b # bs"
    using 1(3) rest_bits_empty[OF 1(2)] br_read_one[of br]
    by (cases "rest_bits br") (auto simp: unaryLoop.simps[of br q])
  note st = read_bit_step[OF 1(2) r]
  show ?case
  proof (cases b)
    case False
    then show ?thesis using 1(3) st by (intro exI[of _ 0]) (simp add: unaryLoop.simps[of br q])
  next
    case True
    then have no: "\<not> q + 1 > push_bit 32 1" and rec: "unaryLoop (br_advance br) (q + 1) = Some (q', br')"
      using 1(3) st(1) by (auto simp: unaryLoop.simps[of br q] split: if_splits)
    have q: "unat (q + 1) = unat q + 1" using 1(4) unat_plus_small[of q 1] by simp
    then have "unat (q + 1) \<le> 2 ^ 32" using no by (simp add: word_less_nat_alt)
    moreover have "br_ok (br_advance br)" using st(2) by (simp add: reads_to_def)
    ultimately obtain n where n: "reads_to (br_advance br) (replicate n True @ [False]) br'" "unat q' = unat q + 1 + n"
      using 1(1)[OF st(1) refl _ no] rec True q by auto
    have "reads_to br ([True] @ replicate n True @ [False]) br'"
      using reads_to_trans[of br "[True]" "br_advance br", OF _ n(1)] st(2) True by simp
    then show ?thesis using n(2) by (intro exI[of _ "Suc n"]) simp
  qed
qed

lemma push_bit_add_nat: "push_bit P (of_nat q) + of_nat r = (of_nat (q * 2 ^ P + r) :: u64)"
  by (simp add: push_bit_eq_mult mult.commute)

lemma gr_decode_reads:
  assumes "br_ok br" "P \<le> 32" "rest_bits br = golomb P d @ bs" "d div 2 ^ P \<le> 2 ^ 32"
  shows "\<exists>br'. gr_decode br P = Some (of_nat d, br') \<and> reads_to br (golomb P d) br'"
proof -
  let ?q = "d div 2 ^ P"
  have r: "rest_bits br = replicate ?q True @ False # (low_bits P d @ bs)"
    using assms(3) by (simp add: golomb_def)
  obtain br1 where u: "unaryLoop br 0 = Some (of_nat ?q, br1)" "reads_to br (replicate ?q True @ [False]) br1"
    using unaryLoop_reads[OF assms(1) r, of 0] assms(4) by auto
  have r1: "rest_bits br1 = low_bits P d @ bs" "br_ok br1" using u(2) r by (auto simp: reads_to_def)
  obtain w br2 where w: "br_read br1 P = Some (w, br2)" "unat w = bit_num 0 (low_bits P d)" "reads_to br1 (low_bits P d) br2"
    using br_read_bits[OF r1(2), of P] assms(2) r1(1) by (auto simp: reads_to_def split: option.splits)
  have "w = of_nat (unat w)" by simp
  then have "w = of_nat (d mod 2 ^ P)" unfolding w(2) bit_num_low_bits .
  then have "push_bit P (of_nat ?q) + w = (of_nat d :: u64)"
    by (simp only: push_bit_add_nat div_mult_mod_eq)
  then have "gr_decode br P = Some (of_nat d, br2)" using u(1) w(1) by (simp add: gr_decode_def)
  moreover have "reads_to br (golomb P d) br2"
    using reads_to_trans[OF u(2) w(3)] by (simp add: golomb_def)
  ultimately show ?thesis by blast
qed

lemma gr_decode_result:
  assumes "br_ok br" "P \<le> 32" "gr_decode br P = Some (d, br')" "length (rest_bits br) \<le> 2 ^ 25"
  shows "reads_to br (golomb P (unat d)) br' \<and> unat d < 2 ^ 58"
proof -
  obtain q br1 w where u: "unaryLoop br 0 = Some (q, br1)" "br_read br1 P = Some (w, br')" "d = push_bit P q + w"
    using assms(3) by (auto simp: gr_decode_def split: option.splits)
  obtain n where n: "reads_to br (replicate n True @ [False]) br1" "unat q = n"
    using unaryLoop_result[OF assms(1) u(1)] by auto
  have n25: "n < 2 ^ 25" using n(1) assms(4) by (simp add: reads_to_def)
  have ok1: "br_ok br1" using n(1) by (simp add: reads_to_def)
  let ?bs = "take P (rest_bits br1)"
  have w: "length ?bs = P" "unat w = bit_num 0 ?bs" "reads_to br1 ?bs br'"
    using br_read_bits[OF ok1, of P] assms(2) u(2) by (auto simp: reads_to_def)
  have wlt: "unat w < 2 ^ P" using bit_num_less[of ?bs] w(1,2) by simp
  have p: "(2 :: nat) ^ P \<le> 2 ^ 32" using assms(2) by (intro power_increasing) auto
  have "n * 2 ^ P + unat w < (n + 1) * 2 ^ P" using wlt by simp
  also have "\<dots> \<le> 2 ^ 25 * 2 ^ 32" using n25 p by (intro mult_le_mono) auto
  finally have lt: "n * 2 ^ P + unat w < 2 ^ 57" by simp
  have "q = of_nat n" unfolding n(2)[symmetric] by simp
  then have "d = of_nat (n * 2 ^ P + unat w)"
    using push_bit_add_nat[of P n "unat w"] u(3) by simp
  then have d: "unat d = n * 2 ^ P + unat w" using lt by (simp only: unat_of_nat) (simp add: take_bit_nat_eq_self)
  have "golomb P (unat d) = replicate n True @ False # low_bits P (unat w)"
    using wlt low_bits_mod[of P "unat d"] low_bits_mod[of P "unat w"] by (simp add: golomb_def d)
  also have "low_bits P (unat w) = ?bs" using low_bits_bit_num[of ?bs] w(1,2) by simp
  finally show ?thesis using reads_to_trans[OF n(1) w(3)] lt d by simp
qed

section \<open>Decoding\<close>

text \<open>The differences of a list of values, and the code of the list.\<close>

fun code_values :: "nat \<Rightarrow> nat \<Rightarrow> nat list \<Rightarrow> bool list" where
  "code_values P prev [] = []"
| "code_values P prev (v # vs) = golomb P (v - prev) @ code_values P v vs"

lemma length_golomb: "length (golomb P d) = d div 2 ^ P + 1 + P"
  by (simp add: golomb_def)

lemma decodeLoop_reads:
  "br_ok br \<Longrightarrow> unat P \<le> 32 \<Longrightarrow> rest_bits br = code_values (unat P) (unat prev) vs @ bs \<Longrightarrow>
     sorted (unat prev # vs) \<Longrightarrow> (\<And>v. v \<in> set vs \<Longrightarrow> v < unat F) \<Longrightarrow> length (rest_bits br) \<le> 2 ^ 25 \<Longrightarrow>
     \<exists>br'. decodeLoop (length vs) P F br prev = Some (map of_nat vs, br') \<and>
       reads_to br (code_values (unat P) (unat prev) vs) br'"
proof (induction vs arbitrary: br prev)
  case Nil
  then show ?case by (simp add: reads_to_def)
next
  case (Cons v vs)
  let ?d = "v - unat prev"
  have r: "rest_bits br = golomb (unat P) ?d @ (code_values (unat P) v vs @ bs)" using Cons.prems(3) by simp
  have "?d div 2 ^ unat P \<le> 2 ^ 25" using Cons.prems(6) unfolding r by (simp add: length_golomb)
  then have "?d div 2 ^ unat P \<le> 2 ^ 32" by simp
  then obtain br1 where g: "gr_decode br (unat P) = Some (of_nat ?d, br1)" "reads_to br (golomb (unat P) ?d) br1"
    using gr_decode_reads[OF Cons.prems(1,2) r] by blast
  have v: "v < unat F" "unat prev \<le> v" using Cons.prems(4,5) by auto
  have vn: "v < 2 ^ 64" using v(1) unsigned_less[of F, where ?'a = nat] by simp
  have "of_nat (unat prev + ?d) = prev + of_nat ?d" by simp
  then have run: "prev + of_nat ?d = of_nat v" using v(2) by simp
  have uv: "unat (of_nat v :: u64) = v" using vn by (simp add: unat_of_nat take_bit_nat_eq_self)
  have r1: "rest_bits br1 = code_values (unat P) (unat (of_nat v :: u64)) vs @ bs" "br_ok br1"
    using g(2) r uv by (auto simp: reads_to_def)
  have "length (rest_bits br1) \<le> 2 ^ 25" using Cons.prems(6) g(2) by (simp add: reads_to_def)
  moreover have "sorted (unat (of_nat v :: u64) # vs)" using Cons.prems(4) uv by simp
  ultimately obtain br2 where d: "decodeLoop (length vs) P F br1 (of_nat v) = Some (map of_nat vs, br2)"
    "reads_to br1 (code_values (unat P) v vs) br2"
    using Cons.IH[OF r1(2) Cons.prems(2) r1(1)] Cons.prems(5) uv by auto
  have "\<not> (of_nat v :: u64) \<ge> F" using v(1) uv by (simp add: word_le_nat_alt)
  then show ?case
    using g(1) d(1) run reads_to_trans[OF g(2) d(2)] by simp
qed

lemma decodeLoop_result:
  "br_ok br \<Longrightarrow> unat P \<le> 32 \<Longrightarrow> decodeLoop n P F br prev = Some (ws, br') \<Longrightarrow> unat prev < 2 ^ 63 \<Longrightarrow>
     length (rest_bits br) \<le> 2 ^ 25 \<Longrightarrow> unat F \<le> 2 ^ 63 \<Longrightarrow>
     reads_to br (code_values (unat P) (unat prev) (map unat ws)) br' \<and> length ws = n \<and>
     sorted (prev # ws) \<and> (\<forall>w \<in> set ws. w < F)"
proof (induction n arbitrary: br prev ws)
  case 0
  then show ?case by (auto simp: reads_to_def)
next
  case (Suc n)
  obtain d br1 us where d: "gr_decode br (unat P) = Some (d, br1)" "\<not> prev + d \<ge> F"
    "decodeLoop n P F br1 (prev + d) = Some (us, br')" "ws = (prev + d) # us"
    using Suc.prems(3) by (auto simp: Let_def split: option.splits if_splits)
  have g: "reads_to br (golomb (unat P) (unat d)) br1" "unat d < 2 ^ 58"
    using gr_decode_result[OF Suc.prems(1,2) d(1) Suc.prems(5)] by auto
  have sum: "unat (prev + d) = unat prev + unat d"
    using Suc.prems(4) g(2) by (intro unat_plus_small) simp
  have lt: "unat (prev + d) < 2 ^ 63" using d(2) Suc.prems(6) by (simp add: word_le_nat_alt)
  have "br_ok br1" "length (rest_bits br1) \<le> 2 ^ 25" using g(1) Suc.prems(5) by (auto simp: reads_to_def)
  then have IH: "reads_to br1 (code_values (unat P) (unat (prev + d)) (map unat us)) br'" "length us = n"
    "sorted ((prev + d) # us)" "\<forall>w \<in> set us. w < F"
    using Suc.IH[OF _ Suc.prems(2) d(3) lt _ Suc.prems(6)] by auto
  have "prev \<le> prev + d" using sum by (simp add: word_le_nat_alt)
  then have "sorted (prev # ws)" using IH(3) d(4) by auto
  moreover have "reads_to br (code_values (unat P) (unat prev) (map unat ws)) br'"
    using reads_to_trans[OF g(1) IH(1)] d(4) sum by simp
  ultimately show ?case using IH(2,4) d(2,4) by auto
qed

section \<open>The range mapping\<close>

lemma fastrange64_value: "unat (fastrange64 h F) = unat h * unat F div 2 ^ 64"
proof -
  have lt: "unat h < 2 ^ 64" "unat F < 2 ^ 64"
    using unsigned_less[of h, where ?'a = nat] unsigned_less[of F, where ?'a = nat] by simp_all
  have "unat h * unat F < 2 ^ 64 * 2 ^ 64" using lt by (intro mult_strict_mono) auto
  then have p: "unat h * unat F < 2 ^ 128" by simp
  have u: "unat (ucast w :: u128) = unat w" for w :: u64
    using unsigned_less[of w, where ?'a = nat] by (simp add: unsigned_ucast_eq take_bit_nat_eq_self)
  have m: "unat ((ucast h :: u128) * ucast F) = unat h * unat F"
    using p by (simp add: unat_word_ariths u)
  have "unat h * unat F div 2 ^ 64 < 2 ^ 64"
    using \<open>unat h * unat F < 2 ^ 64 * 2 ^ 64\<close> by (intro less_mult_imp_div_less) simp
  then show ?thesis
    by (simp add: fastrange64_def unsigned_ucast_eq unat_drop_bit_div m take_bit_nat_eq_self)
qed

lemma fastrange64_less: "0 < F \<Longrightarrow> fastrange64 h F < F"
proof -
  assume "0 < F"
  then have "0 < unat F" by (simp add: word_less_nat_alt)
  moreover have "unat h < 2 ^ 64" using unsigned_less[of h, where ?'a = nat] by simp
  ultimately have "unat h * unat F < 2 ^ 64 * unat F" by simp
  then have "unat h * unat F div 2 ^ 64 < unat F" by (intro less_mult_imp_div_less) (simp add: mult.commute)
  then show ?thesis by (simp add: word_less_nat_alt fastrange64_value)
qed

lemma mult_halves:
  fixes h l H L :: nat
  assumes "h < 2 ^ 32" "l < 2 ^ 32" "H < 2 ^ 32" "L < 2 ^ 32"
  shows "(h * 2 ^ 32 + l) * (H * 2 ^ 32 + L) div 2 ^ 64 =
     h * H + l * H div 2 ^ 32 + h * L div 2 ^ 32 + (l * L div 2 ^ 32 + l * H mod 2 ^ 32 + h * L mod 2 ^ 32) div 2 ^ 32"
proof -
  let ?B = "2 ^ 32 :: nat"
  define a b where "a = l * H div ?B" and "b = l * H mod ?B"
  define c d where "c = h * L div ?B" and "d = h * L mod ?B"
  define x y where "x = l * L div ?B" and "y = l * L mod ?B"
  define u v where "u = (x + b + d) div ?B" and "v = (x + b + d) mod ?B"
  have lh: "l * H = ?B * a + b" and hl: "h * L = ?B * c + d" and ll: "l * L = ?B * x + y" and xbd: "x + b + d = ?B * u + v"
    by (simp_all add: a_def b_def c_def d_def x_def y_def u_def v_def)
  have "y < ?B" "v < ?B" by (simp_all add: y_def v_def)
  then have small: "?B * v + y < ?B * ?B" by (simp add: algebra_simps)
  have "(h * ?B + l) * (H * ?B + L) = h * H * (?B * ?B) + (l * H + h * L) * ?B + l * L"
    by (simp add: algebra_simps)
  also have "\<dots> = h * H * (?B * ?B) + (a + c) * (?B * ?B) + ?B * (x + b + d) + y"
    unfolding lh hl ll by (simp add: algebra_simps)
  also have "\<dots> = (h * H + a + c + u) * (?B * ?B) + (?B * v + y)"
    unfolding xbd by (simp add: algebra_simps)
  finally have "(h * ?B + l) * (H * ?B + L) div (?B * ?B) = h * H + a + c + u"
    using small by (simp add: div_mult_self3)
  moreover have "?B * ?B = 2 ^ 64" by simp
  ultimately show ?thesis by (simp only: a_def b_def c_def d_def x_def u_def)
qed

lemma half_mult_unat:
  fixes a b :: u64
  assumes "unat a < 2 ^ 32" "unat b < 2 ^ 32"
  shows "unat (a * b) = unat a * unat b" "unat a * unat b \<le> (2 ^ 32 - 1) * (2 ^ 32 - 1)"
proof -
  show le: "unat a * unat b \<le> (2 ^ 32 - 1) * (2 ^ 32 - 1)" using assms by (intro mult_le_mono) simp_all
  show "unat (a * b) = unat a * unat b"
    using le by (simp add: unat_word_ariths)
qed

lemma fastrange64_portable_value: "unat (fastrange64_portable hash F) = unat hash * unat F div 2 ^ 64"
proof -
  let ?B = "2 ^ 32 :: nat"
  define h l H L where "h = drop_bit 32 hash" and "l = hash AND mask 32" and "H = drop_bit 32 F" and "L = F AND mask 32"
  have m: "mask 32 = (0xffffffff :: u64)" by (simp add: mask_eq_exp_minus_1)
  have lt: "unat x < 2 ^ 64" for x :: u64 using unsigned_less[of x, where ?'a = nat] by simp
  have u: "unat h = unat hash div ?B" "unat l = unat hash mod ?B" "unat H = unat F div ?B" "unat L = unat F mod ?B"
    by (simp_all only: h_def l_def H_def L_def unat_drop_bit_div unat_and_mask)
  have small: "unat h < ?B" "unat l < ?B" "unat H < ?B" "unat L < ?B"
    using lt[of hash] lt[of F] unfolding u by (simp_all add: less_mult_imp_div_less)
  note ll = half_mult_unat[OF small(2,4)] and lh = half_mult_unat[OF small(2,3)]
    and hl = half_mult_unat[OF small(1,4)] and hh = half_mult_unat[OF small(1,3)]
  define a b c d x where "a = drop_bit 32 (l * H)" and "b = l * H AND mask 32" and "c = drop_bit 32 (h * L)"
    and "d = h * L AND mask 32" and "x = drop_bit 32 (l * L)"
  have v: "unat a = unat l * unat H div ?B" "unat b = unat l * unat H mod ?B" "unat c = unat h * unat L div ?B"
    "unat d = unat h * unat L mod ?B" "unat x = unat l * unat L div ?B"
    by (simp_all only: a_def b_def c_def d_def x_def unat_drop_bit_div unat_and_mask lh(1) hl(1) ll(1))
  have vs: "unat b < ?B" "unat d < ?B" "unat x < ?B" "unat a < ?B" "unat c < ?B"
    using ll(2) lh(2) hl(2) unfolding v by (simp_all add: less_mult_imp_div_less)
  have s1: "unat (x + b) = unat x + unat b" using vs by (intro unat_plus_small) simp
  have s2: "unat (x + b + d) = unat x + unat b + unat d"
    unfolding s1[symmetric] using vs s1 by (intro unat_plus_small) simp
  define e where "e = drop_bit 32 (x + b + d)"
  have e: "unat e = (unat x + unat b + unat d) div ?B" by (simp only: e_def unat_drop_bit_div s2)
  have prod: "(unat h * ?B + unat l) * (unat H * ?B + unat L) = unat hash * unat F"
    by (simp only: u div_mult_mod_eq)
  moreover have "unat hash * unat F < 2 ^ 64 * 2 ^ 64" using lt[of hash] lt[of F] by (intro mult_strict_mono) auto
  ultimately have "(unat h * ?B + unat l) * (unat H * ?B + unat L) div 2 ^ 64 < 2 ^ 64"
    by (intro less_mult_imp_div_less) simp
  then have tot: "unat h * unat H + unat a + unat c + unat e < 2 ^ 64"
    unfolding mult_halves[OF small] by (simp only: v e)
  have t1: "unat (h * H + a) = unat h * unat H + unat a"
    unfolding hh(1)[symmetric] using hh vs by (intro unat_plus_small) simp
  have t2: "unat (h * H + a + c) = unat h * unat H + unat a + unat c"
    unfolding t1[symmetric] using t1 hh(2) vs by (intro unat_plus_small) simp
  have t3: "unat (h * H + a + c + e) = unat h * unat H + unat a + unat c + unat e"
    unfolding t2[symmetric] using t2 tot by (intro unat_plus_small) simp
  have "fastrange64_portable hash F = h * H + a + c + e"
    by (simp add: fastrange64_portable_def Let_def h_def l_def H_def L_def a_def b_def c_def d_def x_def e_def m)
  then have "unat (fastrange64_portable hash F) =
      (unat h * ?B + unat l) * (unat H * ?B + unat L) div 2 ^ 64"
    unfolding mult_halves[OF small] by (simp only: t3 v e)
  then show ?thesis unfolding prod .
qed

text \<open>
  The mapping into the filter's range is the top half of the 128-bit product in both arms of
  \<open>fastrange64\<close>: the portable one loses no carry and agrees with the 128-bit one on every input, and
  the result is below a nonzero range.\<close>
theorem fastrange_arms_agree:
  "fastrange64_portable hash F = fastrange64 hash F \<and>
   unat (fastrange64 hash F) = unat hash * unat F div 2 ^ 64 \<and> (F = 0 \<or> fastrange64 hash F < F)"
proof (intro conjI)
  show "fastrange64_portable hash F = fastrange64 hash F"
    by (simp add: fastrange64_value fastrange64_portable_value word_eq_iff_unsigned[where 'a = nat])
  show "F = 0 \<or> fastrange64 hash F < F"
    using fastrange64_less[of F hash] by (cases "F = 0") (auto simp: word_gt_0)
qed (rule fastrange64_value)

section \<open>Parsing\<close>

text \<open>The encoder of BIP 158: the count, and the code of the values packed into bytes with zero padding.\<close>

function pack_bits :: "bool list \<Rightarrow> bytes" where
  "pack_bits bs = (if bs = [] then []
     else of_nat (bit_num 0 (take 8 bs @ replicate (8 - length bs) False)) # pack_bits (drop 8 bs))"
  by pat_completeness auto
termination by (relation "measure length") auto

declare pack_bits.simps [simp del]

definition gcs_encode :: "nat \<Rightarrow> nat list \<Rightarrow> bytes" where
  "gcs_encode P vs = varIntBytes (of_nat (length vs)) @ pack_bits (code_values P 0 vs)"

lemma low_bits_nth: "i < k \<Longrightarrow> low_bits k r ! i = bit r (k - 1 - i)"
proof (induction k arbitrary: r i)
  case (Suc k)
  show ?case
  proof (cases "i < k")
    case True
    then have "k - i = Suc (k - 1 - i)" by simp
    then have "bit r (k - i) = bit (r div 2) (k - 1 - i)" by (simp only: bit_Suc)
    then show ?thesis using True Suc.IH[OF True, of "r div 2"] by (simp add: nth_append)
  next
    case False
    then show ?thesis using Suc.prems by (simp add: nth_append bit_0 less_Suc_eq)
  qed
qed simp

lemma byte_bits_low: "byte_bits b = low_bits 8 (unat b)"
  by (rule nth_equalityI) (simp_all add: byte_bits_def low_bits_nth bit_unsigned_iff)

lemma byte_bits_num: "length bs = 8 \<Longrightarrow> byte_bits (of_nat (bit_num 0 bs)) = bs"
proof -
  assume len: "length bs = 8"
  have "bit_num 0 bs < 2 ^ 8" using bit_num_less[of bs] len by simp
  then have "unat (of_nat (bit_num 0 bs) :: u8) = bit_num 0 bs" by (simp add: unat_of_nat take_bit_nat_eq_self)
  then show ?thesis using low_bits_bit_num[of bs] len by (simp add: byte_bits_low)
qed

lemma bits_of_pack: "\<exists>k < 8. bits_of (pack_bits bs) = bs @ replicate k False"
proof (induction bs rule: pack_bits.induct)
  case (1 bs)
  show ?case
  proof (cases "bs = []")
    case True
    then show ?thesis by (intro exI[of _ 0]) (simp add: pack_bits.simps bits_of_def)
  next
    case ne: False
    have p: "bits_of (pack_bits bs) = take 8 bs @ replicate (8 - length bs) False @ bits_of (pack_bits (drop 8 bs))"
      using ne by (subst pack_bits.simps) (simp add: bits_of_def byte_bits_num)
    show ?thesis
    proof (cases "length bs \<le> 8")
      case True
      then show ?thesis using p ne
        by (intro exI[of _ "8 - length bs"]) (cases bs; simp add: pack_bits.simps[of "[]"] bits_of_def)
    next
      case False
      then obtain k where "k < 8" "bits_of (pack_bits (drop 8 bs)) = drop 8 bs @ replicate k False"
        using 1[OF ne] by blast
      then show ?thesis using p False by (intro exI[of _ k]) (simp flip: append_assoc)
    qed
  qed
qed

lemma read_count:
  assumes "body \<noteq> []"
  shows "read_compact_size (varIntBytes i @ body) 0 = Some (BRVarIntSize i, i)"
  using assms length_varIntBytes[of i]
  by (auto simp: read_compact_size_def BRVarInt_read BRVarIntSize_def BRVarIntSet_def)

lemma read_compact_size_bounds:
  "read_compact_size buf cursor = Some (c, v) \<Longrightarrow> c \<le> length buf"
  by (auto simp: read_compact_size_def split: prod.splits if_splits)

lemma length_code_values: "length vs \<le> length (code_values P prev vs)"
  by (induction vs arbitrary: prev) (simp_all add: length_golomb trans_le_add2)

lemma br_init_rest: "rest_bits (br_init data c) = bits_of (drop c data)"
proof -
  have "bits_of data = bits_of (take c data) @ bits_of (drop c data)" by (simp flip: bits_of_append)
  then show ?thesis by (cases "c \<le> length data") (simp_all add: rest_bits_def br_init_def br_pos_def)
qed

lemma br_init_ok: "c \<le> length data \<Longrightarrow> br_ok (br_init data c)" "br_data (br_init data c) = data"
  by (simp_all add: br_ok_def br_init_def br_pos_def)

lemma bytePos_rest: "br_ok br \<Longrightarrow> bytePos br + 1 < length (br_data br) \<longleftrightarrow> 8 < length (rest_bits br)"
  by (auto simp: rest_bits_def br_ok_def br_pos_def)

lemma bits_bound: "length d \<le> BR_GCS_MAX_ENCODED_SIZE \<Longrightarrow> length (bits_of d) \<le> 2 ^ 25"
  by (simp add: BR_GCS_MAX_ENCODED_SIZE_def)

lemma unat_mult_32:
  fixes a b :: u32
  shows "unat (ucast a * ucast b :: u64) = unat a * unat b" "unat a * unat b \<le> 2 ^ 63 * 2"
proof -
  have u: "unat (ucast w :: u64) = unat w" "unat w < 2 ^ 32" for w :: u32
    using unsigned_less[of w, where ?'a = nat] by (simp_all add: unsigned_ucast_eq take_bit_nat_eq_self)
  show "unat (ucast a * ucast b :: u64) = unat a * unat b" "unat a * unat b \<le> 2 ^ 63 * 2"
    using half_mult_unat[of "ucast a" "ucast b"] u by simp_all
qed

lemma gcs_parse_code:
  assumes "vs \<noteq> []" "sorted vs" "\<forall>v \<in> set vs. v < length vs * unat M" "0 < P" "P \<le> 32"
    and "bits_of body = code_values (unat P) 0 vs @ tail_bits"
    and "length (varIntBytes (of_nat (length vs)) @ body) \<le> BR_GCS_MAX_ENCODED_SIZE"
  shows "map_option gf_values (BRGCSFilterParse (Some (varIntBytes (of_nat (length vs)) @ body)) k0 k1 P M) =
    (if length tail_bits \<le> 8 then Some (map of_nat vs) else None)"
proof -
  let ?n = "length vs" and ?i = "of_nat (length vs) :: u64" and ?N = "of_nat (length vs) :: u32"
  let ?bytes = "varIntBytes ?i @ body" and ?c = "BRVarIntSize ?i" and ?F = "ucast (of_nat (length vs) :: u32) * ucast M :: u64"
  have nb: "?n \<le> 8 * length body"
    using length_code_values[of vs "unat P" 0] assms(6) length_bits_of[of body] by simp
  then have body: "body \<noteq> []" using assms(1) by auto
  have n: "?n < 2 ^ 25" using nb assms(7) by (simp add: BR_GCS_MAX_ENCODED_SIZE_def)
  have ui: "unat ?i = ?n" "unat ?N = ?n" using n by (simp_all add: unat_of_nat take_bit_nat_eq_self)
  have uc: "(ucast ?i :: u32) = ?N"
    using n by (simp only: word_eq_iff_unsigned[where 'a = nat] unsigned_ucast_eq ui) (simp add: take_bit_nat_eq_self)
  have M0: "M \<noteq> 0" using assms(3) hd_in_set[OF assms(1)] by auto
  have F: "unat ?F = ?n * unat M" using unat_mult_32(1)[of ?N M] ui by simp
  have N0: "?N \<noteq> 0" using ui assms(1) by (metis length_0_conv unsigned_0)
  have len: "length ?bytes - ?c = length body" "?c \<le> length ?bytes" "drop ?c ?bytes = body"
    using length_varIntBytes[of ?i] by simp_all
  let ?br = "br_init ?bytes ?c"
  have r: "rest_bits ?br = code_values (unat P) (unat (0 :: u64)) vs @ tail_bits"
    using assms(6) len by (simp add: br_init_rest)
  have P: "unat P \<le> 32" using assms(5) by (simp add: word_le_nat_alt)
  have "length (rest_bits ?br) \<le> 2 ^ 25"
    using bits_bound[of body] assms(7) len(3) by (simp add: br_init_rest)
  then obtain br' where d: "decodeLoop ?n P ?F ?br 0 = Some (map of_nat vs, br')"
    "reads_to ?br (code_values (unat P) (unat (0 :: u64)) vs) br'"
    using decodeLoop_reads[OF br_init_ok(1)[OF len(2)] P r, of ?F] assms(2,3) F by auto
  have "rest_bits br' = tail_bits" "br_ok br'" "br_data br' = ?bytes"
    using d(2) r by (auto simp: reads_to_def br_init_ok(2))
  then have pos: "bytePos br' + 1 < length ?bytes \<longleftrightarrow> 8 < length tail_bits"
    using bytePos_rest[of br'] by simp
  have "\<not> ?i > 0xffffffff" using ui n by (simp add: word_less_nat_alt)
  moreover have "\<not> unat ?N > 0xffffffffffffffff div 8" "\<not> unat ?N > (length ?bytes - ?c) * 8"
    using ui n nb len(1) by simp_all
  moreover have "\<not> length ?bytes > BR_GCS_MAX_ENCODED_SIZE" "\<not> (P = 0 \<or> P > 32 \<or> M = 0)"
    using assms(4,5,7) M0 by (auto simp: word_gt_0)
  ultimately show ?thesis
    using d(1) pos N0 unfolding BRGCSFilterParse_def
    by (simp add: read_count[OF body] uc ui(2) Let_def del: length_append)
qed

text \<open>C28. A filter is accepted exactly when what follows the code of its values is at most eight bits: for
  every ascending list of values below the range, the parser returns those values for their code
  followed by up to eight bits of any kind, and refuses a longer tail.\<close>
theorem gcs_parse_reads_the_code:
  assumes "vs \<noteq> []" "sorted vs" "\<forall>v \<in> set vs. v < length vs * unat M" "0 < P" "P \<le> 32"
    and "bits_of body = code_values (unat P) 0 vs @ tail_bits"
    and "length (varIntBytes (of_nat (length vs)) @ body) \<le> BR_GCS_MAX_ENCODED_SIZE"
  shows "map_option gf_values (BRGCSFilterParse (Some (varIntBytes (of_nat (length vs)) @ body)) k0 k1 P M) =
    (if length tail_bits \<le> 8 then Some (map of_nat vs) else None)"
  using assms by (rule gcs_parse_code)

lemma sample_code:
  "bits_of [0x54, 0xab] = code_values (unat (3 :: u8)) 0 [5, 9] @ byte_bits 0xab"
proof -
  have "code_values 3 0 [5, 9] = [False, True, False, True, False, True, False, False]"
    by code_simp
  then show ?thesis by (simp add: bits_of_def byte_bits_def upt_rec)
qed

lemma sample_bytes: "varIntBytes (of_nat (length [5, 9 :: nat])) @ [0x54, 0xab] = [2, 0x54, 0xab]"
  by (simp add: varIntBytes_def BRVarIntSet_def)

theorem gcs_parse_reads_the_code_witness:
  "map_option gf_values (BRGCSFilterParse (Some [2, 0x54, 0xab]) 1 2 3 7) = Some [5, 9]"
  using gcs_parse_reads_the_code[of "[5, 9]" 7 3 "[0x54, 0xab]" "byte_bits 0xab" 1 2, unfolded sample_bytes]
  by (simp add: sample_code BR_GCS_MAX_ENCODED_SIZE_def)

section \<open>What a parsed filter is\<close>

lemma gcs_parse_result:
  assumes "BRGCSFilterParse (Some bytes) k0 k1 P M = Some f"
  shows "gf_P f = P" "gf_M f = M" "gf_k0 f = k0" "gf_k1 f = k1" "gf_encoded f = bytes"
    "unat (gf_F f) = unat (gf_N f) * unat M" "length (gf_values f) = unat (gf_N f)"
    "sorted (gf_values f)" "\<forall>v \<in> set (gf_values f). v < gf_F f"
proof -
  obtain cursor N64 where c: "\<not> length bytes > BR_GCS_MAX_ENCODED_SIZE" "\<not> (P = 0 \<or> P > 32 \<or> M = 0)"
    "read_compact_size bytes 0 = Some (cursor, N64)" "\<not> N64 > 0xffffffff"
    using assms by (auto simp: BRGCSFilterParse_def split: if_splits option.splits)
  let ?N = "ucast N64 :: u32" and ?F = "ucast (ucast N64 :: u32) * ucast M :: u64"
  let ?f = "\<lparr>gf_P = P, gf_M = M, gf_k0 = k0, gf_k1 = k1, gf_N = ?N, gf_F = ?F, gf_encoded = bytes, gf_values = []\<rparr>"
  have F: "unat ?F = unat ?N * unat M" by (rule unat_mult_32)
  have cl: "cursor \<le> length bytes" using read_compact_size_bounds[OF c(3)] .
  have P: "unat P \<le> 32" using c(2) by (simp add: word_le_nat_alt word_less_nat_alt)
  have "f = ?f \<and> ?N = 0 \<or> (\<exists>vs br. decodeLoop (unat ?N) P ?F (br_init bytes cursor) 0 = Some (vs, br) \<and>
      f = ?f\<lparr>gf_values := vs\<rparr> \<and> \<not> unat ?N > (length bytes - cursor) * 8)"
    using assms c by (auto simp: BRGCSFilterParse_def Let_def split: if_splits option.splits)
  then have "gf_P f = P \<and> gf_M f = M \<and> gf_k0 f = k0 \<and> gf_k1 f = k1 \<and> gf_encoded f = bytes \<and>
    unat (gf_F f) = unat (gf_N f) * unat M \<and> length (gf_values f) = unat (gf_N f) \<and>
    sorted (gf_values f) \<and> (\<forall>v \<in> set (gf_values f). v < gf_F f)"
  proof (elim disjE exE conjE)
    assume "f = ?f" "?N = 0"
    then show ?thesis using F by simp
  next
    fix vs br
    assume d: "decodeLoop (unat ?N) P ?F (br_init bytes cursor) 0 = Some (vs, br)" "f = ?f\<lparr>gf_values := vs\<rparr>"
      "\<not> unat ?N > (length bytes - cursor) * 8"
    have l: "length (rest_bits (br_init bytes cursor)) \<le> 2 ^ 25"
      using bits_bound[of "drop cursor bytes"] c(1) by (simp add: br_init_rest)
    have "unat ?N \<le> 2 ^ 20" using d(3) c(1) by (simp add: BR_GCS_MAX_ENCODED_SIZE_def)
    moreover have "unat M \<le> 2 ^ 32" using unsigned_less[of M, where ?'a = nat] by simp
    ultimately have "unat ?N * unat M \<le> 2 ^ 20 * 2 ^ 32" by (rule mult_le_mono)
    then have "unat ?F \<le> 2 ^ 63" unfolding F by simp
    then show ?thesis
      using decodeLoop_result[OF br_init_ok(1)[OF cl] P d(1) _ l] F d(2) by auto
  qed
  then show "gf_P f = P" "gf_M f = M" "gf_k0 f = k0" "gf_k1 f = k1" "gf_encoded f = bytes"
    "unat (gf_F f) = unat (gf_N f) * unat M" "length (gf_values f) = unat (gf_N f)"
    "sorted (gf_values f)" "\<forall>v \<in> set (gf_values f). v < gf_F f" by auto
qed

lemma sortedSearch_mem:
  "sorted xs \<Longrightarrow> hi \<le> length xs \<Longrightarrow> sortedSearch xs t lo hi \<longleftrightarrow> (\<exists>i. lo \<le> i \<and> i < hi \<and> xs ! i = t)"
proof (induction xs t lo hi rule: sortedSearch.induct)
  case (1 xs t lo hi)
  show ?case
  proof (cases "lo < hi")
    case False
    then show ?thesis by (subst sortedSearch.simps) auto
  next
    case lt: True
    define mid where "mid = lo + (hi - lo) div 2"
    have mid: "lo \<le> mid" "mid < hi" using lt by (auto simp: mid_def)
    have mono: "i \<le> j \<Longrightarrow> j < hi \<Longrightarrow> xs ! i \<le> xs ! j" for i j
      using 1(3,4) by (simp add: sorted_nth_mono)
    consider "xs ! mid = t" | "xs ! mid < t" | "t < xs ! mid" by fastforce
    then show ?thesis
    proof cases
      case 1
      then show ?thesis using lt mid by (subst sortedSearch.simps) (auto simp: mid_def[symmetric] Let_def)
    next
      case 2
      have "sortedSearch xs t lo hi = sortedSearch xs t (mid + 1) hi"
        using lt 2 by (subst sortedSearch.simps) (auto simp: mid_def[symmetric] Let_def)
      also have "\<dots> \<longleftrightarrow> (\<exists>i. mid + 1 \<le> i \<and> i < hi \<and> xs ! i = t)"
        using "1.IH"(1)[OF lt mid_def] "1.prems" 2 by simp
      also have "\<dots> \<longleftrightarrow> (\<exists>i. lo \<le> i \<and> i < hi \<and> xs ! i = t)"
      proof -
        have nx: "mid + 1 \<le> i" if "i < hi" "xs ! i = t" for i
          using that 2 mid mono[of i mid] by (cases "i \<le> mid") auto
        have "(mid + 1 \<le> i \<and> i < hi \<and> xs ! i = t) = (lo \<le> i \<and> i < hi \<and> xs ! i = t)" for i
          using mid(1) nx[of i] by auto
        then show ?thesis by simp
      qed
      finally show ?thesis .
    next
      case 3
      have "sortedSearch xs t lo hi = sortedSearch xs t lo mid"
        using lt 3 by (subst sortedSearch.simps) (auto simp: mid_def[symmetric] Let_def)
      also have "\<dots> \<longleftrightarrow> (\<exists>i. lo \<le> i \<and> i < mid \<and> xs ! i = t)"
        using "1.IH"(2)[OF lt mid_def] "1.prems" 3 mid by auto
      also have "\<dots> \<longleftrightarrow> (\<exists>i. lo \<le> i \<and> i < hi \<and> xs ! i = t)"
      proof -
        have nx: "i < mid" if "i < hi" "xs ! i = t" for i
          using that 3 mono[of mid i] by (cases "mid \<le> i") auto
        have "(lo \<le> i \<and> i < mid \<and> xs ! i = t) = (lo \<le> i \<and> i < hi \<and> xs ! i = t)" for i
          using mid(2) nx[of i] by auto
        then show ?thesis by simp
      qed
      finally show ?thesis .
    qed
  qed
qed

lemma mergeScan_common: "sorted qs \<Longrightarrow> sorted vs \<Longrightarrow> mergeScan qs vs \<longleftrightarrow> (\<exists>q \<in> set qs. q \<in> set vs)"
proof (induction qs vs rule: mergeScan.induct)
  case (1 q qs v vs)
  consider "q = v" | "q < v" | "v < q" by fastforce
  then show ?case
  proof cases
    case 2
    then have "q \<notin> set (v # vs)" using 1(4) by auto
    then show ?thesis using 1 2 by auto
  next
    case 3
    then have "v \<notin> set (q # qs)" using 1(3) by auto
    then show ?thesis using 1 3 by auto
  qed simp
qed auto

lemma match_mem:
  assumes "BRGCSFilterParse (Some bytes) k0 k1 P M = Some f"
  shows "BRGCSFilterMatch (Some f) (Some e) \<longleftrightarrow> hash_to_range f e \<in> set (gf_values f)"
proof -
  note r = gcs_parse_result[OF assms]
  have "sorted_contains (gf_values f) (unat (gf_N f)) t \<longleftrightarrow> t \<in> set (gf_values f)" for t
    using sortedSearch_mem[OF r(8), of "length (gf_values f)" t 0] r(7)
    by (auto simp: sorted_contains_def in_set_conv_nth)
  moreover have "gf_N f = 0 \<Longrightarrow> gf_values f = []" using r(7) by simp
  ultimately show ?thesis by (auto simp: BRGCSFilterMatch_def)
qed

text \<open>
  Whatever bytes a filter was parsed from, its values are the announced number, ascending and below
  the range, so the binary search of a match is exact membership of the element's hash, and the merge
  scan of \<open>BRGCSFilterMatchAny\<close> answers exactly whether one of the elements matches.\<close>
theorem gcs_match_is_membership:
  assumes "BRGCSFilterParse (Some bytes) k0 k1 P M = Some f"
  shows "length (gf_values f) = unat (BRGCSFilterN (Some f)) \<and> sorted (gf_values f) \<and>
    list_all (\<lambda>v. v < gf_F f) (gf_values f) \<and> unat (gf_F f) = unat (gf_N f) * unat M \<and>
    (BRGCSFilterMatch (Some f) (Some e) \<longleftrightarrow> hash_to_range f e \<in> set (gf_values f)) \<and>
    (BRGCSFilterMatchAny (Some f) (Some (map Some es)) \<longleftrightarrow> (\<exists>e \<in> set es. BRGCSFilterMatch (Some f) (Some e)))"
proof -
  note r = gcs_parse_result[OF assms]
  have "BRGCSFilterMatchAny (Some f) (Some (map Some es)) \<longleftrightarrow>
      es \<noteq> [] \<and> gf_N f \<noteq> 0 \<and> mergeScan (sort (map (hash_to_range f) es)) (gf_values f)"
    using r(7) by (auto simp: BRGCSFilterMatchAny_def comp_def)
  also have "\<dots> \<longleftrightarrow> gf_N f \<noteq> 0 \<and> (\<exists>e \<in> set es. hash_to_range f e \<in> set (gf_values f))"
    using r(8) by (auto simp: mergeScan_common)
  also have "\<dots> \<longleftrightarrow> (\<exists>e \<in> set es. hash_to_range f e \<in> set (gf_values f))"
    using r(7) by auto
  finally show ?thesis
    using r(6-9) match_mem[OF assms] by (auto simp: BRGCSFilterN_def list_all_iff)
qed

theorem gcs_match_is_membership_witness:
  "\<exists>f. BRGCSFilterParse (Some [2, 0x54, 0xab]) 1 2 3 7 = Some f \<and>
     (BRGCSFilterMatch (Some f) (Some [7]) \<longleftrightarrow> hash_to_range f [7] \<in> set (gf_values f))"
proof -
  have "map_option gf_values (BRGCSFilterParse (Some [2, 0x54, 0xab]) 1 2 3 7) = Some [5, 9]"
    using gcs_parse_code[of "[5, 9]" 7 3 "[0x54, 0xab]" "byte_bits 0xab" 1 2, unfolded sample_bytes]
    by (simp add: sample_code BR_GCS_MAX_ENCODED_SIZE_def)
  then obtain f where f: "BRGCSFilterParse (Some [2, 0x54, 0xab]) 1 2 3 7 = Some f" by blast
  from gcs_match_is_membership[OF f, of "[7]" "[]"] show ?thesis using f by blast
qed

section \<open>No false negatives\<close>

text \<open>The values of the filter of a list of elements.\<close>

definition gcs_values :: "u64 \<Rightarrow> u64 \<Rightarrow> u32 \<Rightarrow> bytes list \<Rightarrow> nat list" where
  "gcs_values k0 k1 M es =
     sort (map (\<lambda>e. unat (fastrange64 (siphash24 k0 k1 e) (of_nat (length es) * ucast M))) es)"

lemma gcs_parse_encoded:
  assumes "vs \<noteq> []" "sorted vs" "\<forall>v \<in> set vs. v < length vs * unat M" "0 < P" "P \<le> 32"
    and "length (gcs_encode (unat P) vs) \<le> BR_GCS_MAX_ENCODED_SIZE"
  obtains f where "BRGCSFilterParse (Some (gcs_encode (unat P) vs)) k0 k1 P M = Some f" "gf_values f = map of_nat vs"
proof -
  obtain k where k: "k < 8" "bits_of (pack_bits (code_values (unat P) 0 vs)) = code_values (unat P) 0 vs @ replicate k False"
    using bits_of_pack by blast
  have "map_option gf_values (BRGCSFilterParse (Some (gcs_encode (unat P) vs)) k0 k1 P M) = Some (map of_nat vs)"
    using gcs_parse_code[OF assms(1-5) k(2) assms(6)[unfolded gcs_encode_def], of k0 k1] k(1) by (simp add: gcs_encode_def)
  then show ?thesis using that by blast
qed

lemma length_pack_bits: "length vs \<le> 8 * length (pack_bits (code_values P 0 vs))"
proof -
  obtain k where "bits_of (pack_bits (code_values P 0 vs)) = code_values P 0 vs @ replicate k False"
    using bits_of_pack by blast
  then have "8 * length (pack_bits (code_values P 0 vs)) = length (code_values P 0 vs) + k"
    by (metis length_append length_bits_of length_replicate)
  then show ?thesis using length_code_values[of vs P 0] by linarith
qed

text \<open>C29. A filter encoded from a list of elements is accepted by the parser and matches every one of them,
  alone or among others: a block is never skipped for an element its filter was built with.\<close>
theorem gcs_no_false_negatives:
  assumes "es \<noteq> []" "0 < P" "P \<le> 32" "M \<noteq> 0"
    and "length (gcs_encode (unat P) (gcs_values k0 k1 M es)) \<le> BR_GCS_MAX_ENCODED_SIZE"
  shows "\<exists>f. BRGCSFilterParse (Some (gcs_encode (unat P) (gcs_values k0 k1 M es))) k0 k1 P M = Some f \<and>
    list_all (\<lambda>e. BRGCSFilterMatch (Some f) (Some e)) es \<and> unat (BRGCSFilterN (Some f)) = length es"
proof -
  let ?vs = "gcs_values k0 k1 M es" and ?F = "of_nat (length es) * ucast M :: u64"
  have len: "length ?vs = length es" by (simp add: gcs_values_def)
  have "length es \<le> 8 * length (gcs_encode (unat P) ?vs)"
    using length_pack_bits[of ?vs "unat P"] len by (simp add: gcs_encode_def)
  then have n: "length es < 2 ^ 32" using assms(5) by (simp add: BR_GCS_MAX_ENCODED_SIZE_def)
  have un: "unat (of_nat (length es) :: u32) = length es" using n by (simp add: unat_of_nat take_bit_nat_eq_self)
  have uc: "(ucast (of_nat (length es) :: u32) :: u64) = of_nat (length es)"
    using n by (simp only: word_eq_iff_unsigned[where 'a = nat] unsigned_ucast_eq un) (simp add: unat_of_nat take_bit_nat_eq_self)
  have F: "unat ?F = length es * unat M" using unat_mult_32(1)[of "of_nat (length es)" M] un uc by simp
  have "0 < length es * unat M" using assms(1,4) by (simp add: unat_gt_0)
  then have F0: "0 < ?F" using F by (simp add: word_less_nat_alt)
  have "?vs \<noteq> []" using assms(1) len by auto
  moreover have "sorted ?vs" by (simp add: gcs_values_def)
  moreover have "\<forall>v \<in> set ?vs. v < length ?vs * unat M"
    using fastrange64_less[OF F0] F len by (auto simp: gcs_values_def word_less_nat_alt)
  ultimately obtain f where f: "BRGCSFilterParse (Some (gcs_encode (unat P) ?vs)) k0 k1 P M = Some f" "gf_values f = map of_nat ?vs"
    using gcs_parse_encoded[OF _ _ _ assms(2,3,5)] by metis
  note r = gcs_parse_result[OF f(1)]
  have N: "unat (gf_N f) = length es" using r(7) f(2) len by simp
  then have "gf_F f = ?F" using r(6) F by (simp add: word_eq_iff_unsigned[where 'a = nat])
  then have "hash_to_range f e \<in> set (gf_values f)" if "e \<in> set es" for e
    using that r(3,4) f(2) by (force simp: hash_to_range_def gcs_values_def)
  then show ?thesis using f(1) match_mem[OF f(1)] N by (auto simp: list_all_iff BRGCSFilterN_def)
qed

lemma code_values_length:
  "sorted (prev # vs) \<Longrightarrow> \<forall>v \<in> set vs. v < B \<Longrightarrow> length (code_values P prev vs) \<le> length vs * (P + 1) + (B - prev)"
proof (induction vs arbitrary: prev)
  case (Cons v vs)
  have "sorted (v # vs)" "\<forall>v \<in> set vs. v < B" using Cons.prems by auto
  then have "length (code_values P v vs) \<le> length vs * (P + 1) + (B - v)" by (rule Cons.IH)
  moreover have "length (golomb P (v - prev)) \<le> (v - prev) + (P + 1)"
    by (simp add: length_golomb)
  moreover have "(B - v) + (v - prev) \<le> B - prev" using Cons.prems by auto
  ultimately show ?case by simp
qed simp

lemma length_pack_le: "length (pack_bits bs) \<le> length bs"
proof (induction bs rule: pack_bits.induct)
  case (1 bs)
  show ?case
  proof (cases "bs = []")
    case False
    then have "length (pack_bits (drop 8 bs)) \<le> length bs - 8" "0 < length bs" using 1 by auto
    then have "Suc (length (pack_bits (drop 8 bs))) \<le> length bs" by linarith
    then show ?thesis using False by (subst pack_bits.simps) simp
  qed (simp add: pack_bits.simps)
qed

theorem gcs_no_false_negatives_witness:
  "\<exists>f. BRGCSFilterParse (Some (gcs_encode 3 (gcs_values 1 2 7 [[1], [2, 3]]))) 1 2 3 7 = Some f \<and>
     BRGCSFilterMatch (Some f) (Some [2, 3])"
proof -
  let ?es = "[[1], [2, 3]] :: bytes list" and ?vs = "gcs_values 1 2 7 [[1], [2, 3]]"
  have len: "length ?vs = 2" by (simp only: gcs_values_def length_sort length_map) simp
  have "\<forall>v \<in> set ?vs. v < 14"
    using fastrange64_less[of 14] by (auto simp: gcs_values_def word_less_nat_alt)
  moreover have "sorted ?vs" unfolding gcs_values_def by (rule sorted_sort)
  ultimately have "length (code_values 3 0 ?vs) \<le> length ?vs * (3 + 1) + (14 - 0)"
    by (intro code_values_length) simp_all
  then have "length (gcs_encode (unat (3 :: u8)) ?vs) \<le> BR_GCS_MAX_ENCODED_SIZE"
    using length_pack_le[of "code_values 3 0 ?vs"] length_varIntBytes[of "of_nat (length ?vs)"]
    by (simp add: gcs_encode_def BR_GCS_MAX_ENCODED_SIZE_def len BRVarIntSize_def BRVarIntSet_def)
  then show ?thesis
    using gcs_no_false_negatives[of ?es 3 7 1 2] by auto
qed

end
