(* ===== verification/Base58.thy ===== *)
theory Base58
  imports Hashes
begin

text \<open>
  Base58 and base58check of \<open>src/BRBase58.c\<close>.  A C string is the list of its characters before the
  terminator, the capacity of an output buffer is \<open>None\<close> for a null pointer, and a function that
  fills one returns its result with what it wrote.  The arms the build takes are modelled: the
  macros \<open>BASE58_INPUT_BOUND_UNFIXED\<close> and \<open>BASE58_STRICT_ALPHABET_UNFIXED\<close>, which bring an older
  behaviour back, are undefined.  The lengths are taken to be below the range of \<open>size_t\<close> divided by
  138.  A buffer of digits is read as a number (\<open>digits_val\<close>); both inner loops multiply that number
  and add a digit, the buffers are large enough for the result, and a digit string without leading
  zeros is determined by its value, which gives the two round trips.
\<close>

section \<open>Encoding and decoding\<close>

definition b58_chars :: string where
  "b58_chars = ''123456789ABCDEFGHJKLMNPQRSTUVWXYZabcdefghijkmnopqrstuvwxyz''"

text \<open>The inner loops, from the last byte of the buffer to the first, with the carry that is left.\<close>

primrec b58_encode_step :: "bytes \<Rightarrow> u32 \<Rightarrow> bytes \<times> u32" where
  "b58_encode_step [] carry = ([], carry)"
| "b58_encode_step (b # bs) carry =
     (let (bs, carry) = b58_encode_step bs carry;
          carry = carry + push_bit 8 (ucast b)
      in (ucast (carry mod 58) # bs, carry div 58))"

primrec b58_decode_step :: "bytes \<Rightarrow> u32 \<Rightarrow> bytes \<times> u32" where
  "b58_decode_step [] carry = ([], carry)"
| "b58_decode_step (b # bs) carry =
     (let (bs, carry) = b58_decode_step bs carry;
          carry = carry + ucast b * 58
      in (ucast (carry AND 0xff) # bs, drop_bit 8 carry))"

text \<open>The digits of the data after its leading zeros, without leading zero digits.\<close>

definition b58_digits :: "bytes \<Rightarrow> bytes" where
  "b58_digits data =
     dropWhile (\<lambda>d. d = 0)
       (foldl (\<lambda>buf b. fst (b58_encode_step buf (ucast b))) (replicate (length data * 138 div 100 + 1) 0) data)"

definition BRBase58Encode :: "nat option \<Rightarrow> bytes \<Rightarrow> nat \<times> string" where
  "BRBase58Encode cap data =
     (let zcount = length (takeWhile (\<lambda>b. b = 0) data);
          digits = b58_digits (drop zcount data);
          len = zcount + length digits + 1;
          str = replicate zcount (b58_chars ! 0) @ map (\<lambda>d. b58_chars ! unat d) digits
      in case cap of None \<Rightarrow> (len, []) | Some strLen \<Rightarrow> if len \<le> strLen then (len, str) else (0, []))"

definition BR_BASE58_MAX_STR_LEN :: nat where "BR_BASE58_MAX_STR_LEN = 128"

definition in_range :: "char \<Rightarrow> char \<Rightarrow> char \<Rightarrow> bool" where
  "in_range a b c \<longleftrightarrow> (of_char a :: nat) \<le> of_char c \<and> (of_char c :: nat) \<le> of_char b"

definition b58_digit :: "char \<Rightarrow> u32" where
  "b58_digit c =
     (if in_range (CHR ''1'') (CHR ''9'') c then of_char c - of_char (CHR ''1'')
      else if in_range (CHR ''A'') (CHR ''H'') c then of_char c + (9 - of_char (CHR ''A''))
      else if in_range (CHR ''J'') (CHR ''N'') c then of_char c + (17 - of_char (CHR ''J''))
      else if in_range (CHR ''P'') (CHR ''Z'') c then of_char c + (22 - of_char (CHR ''P''))
      else if in_range (CHR ''a'') (CHR ''k'') c then of_char c + (33 - of_char (CHR ''a''))
      else if in_range (CHR ''m'') (CHR ''z'') c then of_char c + (44 - of_char (CHR ''m''))
      else 0xffffffff)"

text \<open>The loop over the characters after the leading ones; \<open>None\<close> at a character outside the alphabet.\<close>

primrec b58_decode_chars :: "bytes \<Rightarrow> string \<Rightarrow> bytes option" where
  "b58_decode_chars buf [] = Some buf"
| "b58_decode_chars buf (c # cs) =
     (if b58_digit c \<ge> 58 then None else b58_decode_chars (fst (b58_decode_step buf (b58_digit c))) cs)"

definition BRBase58Decode :: "nat option \<Rightarrow> string \<Rightarrow> nat \<times> bytes" where
  "BRBase58Decode cap str =
     (if length str > BR_BASE58_MAX_STR_LEN then (0, [])
      else
        let zcount = length (takeWhile (\<lambda>c. c = CHR ''1'') str)
        in case b58_decode_chars (replicate (BR_BASE58_MAX_STR_LEN * 733 div 1000 + 1) 0) (drop zcount str) of
             None \<Rightarrow> (0, [])
           | Some buf \<Rightarrow>
               let rest = dropWhile (\<lambda>b. b = 0) buf;
                   len = zcount + length rest
               in (case cap of None \<Rightarrow> (len, [])
                   | Some dataLen \<Rightarrow> if len \<le> dataLen then (len, replicate zcount 0 @ rest) else (0, [])))"

definition BRBase58CheckEncode :: "nat option \<Rightarrow> bytes \<Rightarrow> nat \<times> string" where
  "BRBase58CheckEncode cap data = BRBase58Encode cap (data @ take 4 (BRSHA256_2 data))"

definition BRBase58CheckDecode :: "nat option \<Rightarrow> string \<Rightarrow> nat \<times> bytes" where
  "BRBase58CheckDecode cap str =
     (let (len, buf) = BRBase58Decode (Some BR_BASE58_MAX_STR_LEN) str;
          len = (if len \<ge> 4 then
                   let len = len - 4 in if take 4 (drop len buf) \<noteq> take 4 (BRSHA256_2 (take len buf)) then 0 else len
                 else 0)
      in case cap of None \<Rightarrow> (len, [])
         | Some dataLen \<Rightarrow> if len \<le> dataLen then (len, take len buf) else (0, []))"

section \<open>Positional values\<close>

fun digits_val :: "nat \<Rightarrow> bytes \<Rightarrow> nat" where
  "digits_val B [] = 0"
| "digits_val B (d # ds) = unat d * B ^ length ds + digits_val B ds"

definition digits_ok :: "nat \<Rightarrow> bytes \<Rightarrow> bool" where "digits_ok B ds \<longleftrightarrow> list_all (\<lambda>d. unat d < B) ds"

lemma digits_ok_simps [simp]: "digits_ok B []" "digits_ok B (d # ds) \<longleftrightarrow> unat d < B \<and> digits_ok B ds"
  by (simp_all add: digits_ok_def)

lemma byte_less_256: "unat (b :: u8) < 256"
  using unsigned_less[of b, where ?'a = nat] by simp

lemma digits_ok_256 [simp]: "digits_ok 256 ds"
  by (simp add: digits_ok_def list_all_iff byte_less_256)

lemma digits_val_less: "digits_ok B ds \<Longrightarrow> digits_val B ds < B ^ length ds"
proof (induction ds)
  case (Cons d ds)
  then have "unat d * B ^ length ds + digits_val B ds < unat d * B ^ length ds + B ^ length ds" by simp
  also have "\<dots> = (unat d + 1) * B ^ length ds" by simp
  also have "\<dots> \<le> B * B ^ length ds" using Cons.prems by (intro mult_le_mono1) simp
  finally show ?case by simp
qed simp

lemma digits_val_append: "digits_val B (xs @ ys) = digits_val B xs * B ^ length ys + digits_val B ys"
  by (induction xs) (simp_all add: algebra_simps power_add)

lemma digits_val_zeros [simp]: "digits_val B (replicate n 0) = 0"
  by (induction n) simp_all

lemma digits_val_strip: "digits_val B (dropWhile (\<lambda>d. d = 0) ds) = digits_val B ds"
  by (induction ds) simp_all

lemma digits_ok_dropWhile: "digits_ok B ds \<Longrightarrow> digits_ok B (dropWhile P ds)"
  by (induction ds) auto

text \<open>Two digit strings without leading zeros and with one value are the same.\<close>

lemma digits_val_leading: "digits_ok B (d # ds) \<Longrightarrow> d \<noteq> 0 \<Longrightarrow> B ^ length ds \<le> digits_val B (d # ds)"
proof -
  assume "d \<noteq> 0"
  then have "1 \<le> unat d" by (simp add: unat_gt_0 Suc_le_eq)
  then have "1 * B ^ length ds \<le> unat d * B ^ length ds" by (rule mult_le_mono1)
  then have "B ^ length ds \<le> unat d * B ^ length ds" by (simp only: mult_1)
  then show ?thesis unfolding digits_val.simps by linarith
qed

lemma digits_same_length:
  "digits_ok B xs \<Longrightarrow> digits_ok B ys \<Longrightarrow> length xs = length ys \<Longrightarrow> digits_val B xs = digits_val B ys \<Longrightarrow> xs = ys"
proof (induction xs ys rule: list_induct2')
  case (4 x xs y ys)
  let ?n = "B ^ length xs"
  have lt: "digits_val B xs < ?n" "digits_val B ys < ?n" using 4 digits_val_less by fastforce+
  have eq: "unat x * ?n + digits_val B xs = unat y * ?n + digits_val B ys" using 4(4,5) by simp
  have div: "(a * ?n + r) div ?n = a" if "r < ?n" for a r
    using that by (metis add.commute div_less div_mult_self3 less_nat_zero_code mult.commute add_0)
  have "unat x = (unat x * ?n + digits_val B xs) div ?n" using div[OF lt(1)] by simp
  also have "\<dots> = unat y" unfolding eq using div[OF lt(2)] by simp
  finally have "unat x = unat y" .
  then have "x = y" "digits_val B xs = digits_val B ys" using eq by (simp_all add: word_eq_iff_unsigned[where 'a = nat])
  then show ?case using 4 by simp
qed auto

lemma digits_unique:
  assumes "digits_ok B xs" "digits_ok B ys" "digits_val B xs = digits_val B ys"
    and "xs = [] \<or> hd xs \<noteq> 0" "ys = [] \<or> hd ys \<noteq> 0"
  shows "xs = ys"
proof -
  have short: "length us \<le> length vs"
    if "digits_ok B us" "digits_ok B vs" "digits_val B us = digits_val B vs" "us = [] \<or> hd us \<noteq> 0" for us vs
  proof (rule ccontr)
    assume n: "\<not> length us \<le> length vs"
    then obtain u us' where us: "us = u # us'" by (cases us) auto
    have B: "0 < B" using that(1) us by (cases B) auto
    have "B ^ length vs \<le> B ^ length us'" using n us B by (intro power_increasing) auto
    also have "\<dots> \<le> digits_val B us" using that(1,4) us by (simp only: us) (rule digits_val_leading; simp)
    finally show False using digits_val_less[OF that(2)] that(3) by simp
  qed
  have "length xs = length ys" using short[OF assms(1,2,3,4)] short[OF assms(2,1) assms(3)[symmetric] assms(5)] by simp
  then show ?thesis using digits_same_length assms by blast
qed

section \<open>The inner loops multiply and add\<close>

lemma encode_step_spec:
  "digits_ok 58 bs \<Longrightarrow> unat c < 2 ^ 24 \<Longrightarrow>
     length (fst (b58_encode_step bs c)) = length bs \<and> digits_ok 58 (fst (b58_encode_step bs c)) \<and>
     unat (snd (b58_encode_step bs c)) < 2 ^ 24 \<and>
     digits_val 58 (fst (b58_encode_step bs c)) + unat (snd (b58_encode_step bs c)) * 58 ^ length bs =
       256 * digits_val 58 bs + unat c"
proof (induction bs)
  case (Cons b bs)
  obtain bs1 c1 where r: "b58_encode_step bs c = (bs1, c1)" by fastforce
  have IH: "length bs1 = length bs" "digits_ok 58 bs1" "unat c1 < 2 ^ 24"
    "digits_val 58 bs1 + unat c1 * 58 ^ length bs = 256 * digits_val 58 bs + unat c"
    using Cons r by auto
  have b: "unat b < 58" using Cons.prems by simp
  let ?c = "c1 + push_bit 8 (ucast b)"
  have ub: "unat (ucast b :: u32) = unat b" using byte_less_256[of b] by (simp add: unsigned_ucast_eq take_bit_nat_eq_self)
  have up: "unat (push_bit 8 (ucast b) :: u32) = 256 * unat b"
  proof -
    have "unat (ucast b * 2 ^ 8 :: u32) = unat b * 2 ^ 8 mod 2 ^ 32" by (simp add: unat_word_ariths ub)
    then show ?thesis using b by (simp add: push_bit_eq_mult)
  qed
  have c: "unat ?c = unat c1 + 256 * unat b"
    using IH(3) b up unat_plus_small[of c1 "push_bit 8 (ucast b)"] by simp
  define q m where "q = unat ?c div 58" and "m = unat ?c mod 58"
  have m: "m < 58" and qm: "unat ?c = 58 * q + m" by (simp_all add: q_def m_def)
  have d: "unat (?c div 58) = q" "unat (ucast (?c mod 58) :: u8) = m"
    using m by (simp_all add: q_def m_def unat_div unat_mod unsigned_ucast_eq take_bit_nat_eq_self)
  have "q < 2 ^ 24" using c IH(3) b unfolding q_def by simp
  moreover have "m * 58 ^ length bs + digits_val 58 bs1 + q * (58 * 58 ^ length bs) =
      256 * (unat b * 58 ^ length bs + digits_val 58 bs) + unat c"
  proof -
    have "m * 58 ^ length bs + digits_val 58 bs1 + q * (58 * 58 ^ length bs) =
        (58 * q + m) * 58 ^ length bs + digits_val 58 bs1" by (simp add: algebra_simps)
    also have "\<dots> = (unat c1 + 256 * unat b) * 58 ^ length bs + digits_val 58 bs1" using qm c by simp
    also have "\<dots> = 256 * (unat b * 58 ^ length bs) + (digits_val 58 bs1 + unat c1 * 58 ^ length bs)"
      by (simp add: algebra_simps)
    finally show ?thesis using IH(4) by simp
  qed
  ultimately show ?case using IH(1,2) m by (simp add: r d Let_def)
qed simp

lemma decode_step_spec:
  "unat c < 2 ^ 24 \<Longrightarrow>
     length (fst (b58_decode_step bs c)) = length bs \<and> unat (snd (b58_decode_step bs c)) < 2 ^ 24 \<and>
     digits_val 256 (fst (b58_decode_step bs c)) + unat (snd (b58_decode_step bs c)) * 256 ^ length bs =
       58 * digits_val 256 bs + unat c"
proof (induction bs)
  case (Cons b bs)
  obtain bs1 c1 where r: "b58_decode_step bs c = (bs1, c1)" by fastforce
  have IH: "length bs1 = length bs" "unat c1 < 2 ^ 24"
    "digits_val 256 bs1 + unat c1 * 256 ^ length bs = 58 * digits_val 256 bs + unat c"
    using Cons r by auto
  let ?c = "c1 + ucast b * 58"
  have ub: "unat (ucast b :: u32) = unat b" using byte_less_256[of b] by (simp add: unsigned_ucast_eq take_bit_nat_eq_self)
  have um: "unat (ucast b * 58 :: u32) = unat b * 58"
    using byte_less_256[of b] by (simp add: unat_word_ariths ub)
  have c: "unat ?c = unat c1 + unat b * 58"
    using IH(2) byte_less_256[of b] um unat_plus_small[of c1 "ucast b * 58"] by simp
  define q m where "q = unat ?c div 256" and "m = unat ?c mod 256"
  have m: "m < 256" and qm: "unat ?c = 256 * q + m" by (simp_all add: q_def m_def)
  have mask: "(0xff :: u32) = mask 8" by (simp add: mask_eq_exp_minus_1)
  have "unat (?c AND 0xff) = m" "unat (drop_bit 8 ?c) = q"
    unfolding mask unat_and_mask unat_drop_bit_div by (simp_all add: m_def q_def)
  then have d: "unat (drop_bit 8 ?c) = q" "unat (ucast (?c AND 0xff) :: u8) = m"
    using m by (simp_all add: unsigned_ucast_eq take_bit_nat_eq_self)
  have "q < 2 ^ 24" using c IH(2) byte_less_256[of b] unfolding q_def by simp
  moreover have "m * 256 ^ length bs + digits_val 256 bs1 + q * (256 * 256 ^ length bs) =
      58 * (unat b * 256 ^ length bs + digits_val 256 bs) + unat c"
  proof -
    have "m * 256 ^ length bs + digits_val 256 bs1 + q * (256 * 256 ^ length bs) =
        (256 * q + m) * 256 ^ length bs + digits_val 256 bs1" by (simp add: algebra_simps)
    also have "\<dots> = (unat c1 + unat b * 58) * 256 ^ length bs + digits_val 256 bs1" using qm c by simp
    also have "\<dots> = 58 * (unat b * 256 ^ length bs) + (digits_val 256 bs1 + unat c1 * 256 ^ length bs)"
      by (simp add: algebra_simps)
    finally show ?thesis using IH(3) by simp
  qed
  ultimately show ?case using IH(1) by (simp add: r d Let_def)
qed simp

section \<open>The buffers are large enough\<close>

lemma le_mult_power: "0 < B \<Longrightarrow> x \<le> x * B ^ n" for x B :: nat
  by simp

lemma b58_room: "256 ^ n \<le> (58 :: nat) ^ (n * 138 div 100 + 1)"
proof -
  have base: "(256 :: nat) ^ 100 \<le> 58 ^ 138" by simp
  have "((256 :: nat) ^ n) ^ 100 = (256 ^ 100) ^ n" by (simp only: power_mult [symmetric] mult.commute)
  also have "\<dots> \<le> (58 ^ 138) ^ n" using base by (rule power_mono) simp
  also have "\<dots> = 58 ^ (n * 138)" by (simp only: power_mult [symmetric] mult.commute)
  also have "\<dots> \<le> 58 ^ ((n * 138 div 100 + 1) * 100)"
  proof (rule power_increasing)
    show "n * 138 \<le> (n * 138 div 100 + 1) * 100"
      using dividend_less_times_div[of 100 "n * 138"] by simp
  qed simp
  also have "\<dots> = (58 ^ (n * 138 div 100 + 1)) ^ 100" by (simp only: power_mult)
  finally show ?thesis by (simp only: power_mono_iff zero_le zero_less_numeral)
qed

lemma encode_fold:
  "digits_ok 58 buf \<Longrightarrow> (digits_val 58 buf + 1) * 256 ^ length data \<le> 58 ^ length buf \<Longrightarrow>
     (let r = foldl (\<lambda>buf b. fst (b58_encode_step buf (ucast b))) buf data
      in digits_ok 58 r \<and> digits_val 58 r = digits_val 58 buf * 256 ^ length data + digits_val 256 data)"
proof (induction data arbitrary: buf)
  case (Cons b data)
  let ?r = "b58_encode_step buf (ucast b)"
  have ub: "unat (ucast b :: u32) = unat b" using byte_less_256[of b] by (simp add: unsigned_ucast_eq take_bit_nat_eq_self)
  have spec: "length (fst ?r) = length buf" "digits_ok 58 (fst ?r)"
    "digits_val 58 (fst ?r) + unat (snd ?r) * 58 ^ length buf = 256 * digits_val 58 buf + unat b"
    using encode_step_spec[OF Cons.prems(1), of "ucast b"] byte_less_256[of b] by (simp_all add: ub)
  have fits: "(256 * digits_val 58 buf + unat b + 1) * 256 ^ length data \<le> 58 ^ length buf"
  proof -
    have "(256 * digits_val 58 buf + unat b + 1) * 256 ^ length data \<le> ((digits_val 58 buf + 1) * 256) * 256 ^ length data"
      using byte_less_256[of b] by (intro mult_le_mono1) simp
    also have "\<dots> = (digits_val 58 buf + 1) * 256 ^ length (b # data)" by (simp only: length_Cons power_Suc mult.assoc)
    finally show ?thesis using Cons.prems(2) by linarith
  qed
  have "256 * digits_val 58 buf + unat b + 1 \<le> (256 * digits_val 58 buf + unat b + 1) * 256 ^ length data"
    by (rule le_mult_power) simp
  then have "256 * digits_val 58 buf + unat b < 58 ^ length buf" using fits by linarith
  then have "unat (snd ?r) * 58 ^ length buf < 1 * 58 ^ length buf" using spec(3) by linarith
  then have "unat (snd ?r) = 0" by (simp only: mult_less_cancel2) simp
  then have val: "digits_val 58 (fst ?r) = 256 * digits_val 58 buf + unat b" using spec(3) by simp
  show ?case using Cons.IH[OF spec(2)] fits by (simp add: spec(1) val Let_def algebra_simps)
qed (simp add: Let_def)

lemma decode_fold:
  "list_all (\<lambda>c. b58_digit c < 58) cs \<Longrightarrow> (digits_val 256 buf + 1) * 58 ^ length cs \<le> 256 ^ length buf \<Longrightarrow>
     \<exists>r. b58_decode_chars buf cs = Some r \<and>
         digits_val 256 r = digits_val 256 buf * 58 ^ length cs + digits_val 58 (map (\<lambda>c. ucast (b58_digit c)) cs)"
proof (induction cs arbitrary: buf)
  case (Cons c cs)
  let ?r = "b58_decode_step buf (b58_digit c)"
  let ?d = "unat (b58_digit c)"
  have d: "?d < 58" using Cons.prems(1) by (simp add: word_less_nat_alt)
  then have ud: "unat (ucast (b58_digit c) :: u8) = ?d" by (simp add: unsigned_ucast_eq take_bit_nat_eq_self)
  have spec: "length (fst ?r) = length buf"
    "digits_val 256 (fst ?r) + unat (snd ?r) * 256 ^ length buf = 58 * digits_val 256 buf + ?d"
    using decode_step_spec[of "b58_digit c" buf] d by simp_all
  have fits: "(58 * digits_val 256 buf + ?d + 1) * 58 ^ length cs \<le> 256 ^ length buf"
  proof -
    have "(58 * digits_val 256 buf + ?d + 1) * 58 ^ length cs \<le> ((digits_val 256 buf + 1) * 58) * 58 ^ length cs"
      using d by (intro mult_le_mono1) simp
    also have "\<dots> = (digits_val 256 buf + 1) * 58 ^ length (c # cs)" by (simp only: length_Cons power_Suc mult.assoc)
    finally show ?thesis using Cons.prems(2) by linarith
  qed
  have "58 * digits_val 256 buf + ?d + 1 \<le> (58 * digits_val 256 buf + ?d + 1) * 58 ^ length cs"
    by (rule le_mult_power) simp
  then have "58 * digits_val 256 buf + ?d < 256 ^ length buf" using fits by linarith
  then have "unat (snd ?r) * 256 ^ length buf < 1 * 256 ^ length buf" using spec(2) by linarith
  then have "unat (snd ?r) = 0" by (simp only: mult_less_cancel2) simp
  then have val: "digits_val 256 (fst ?r) = 58 * digits_val 256 buf + ?d" using spec(2) by simp
  have "(digits_val 256 (fst ?r) + 1) * 58 ^ length cs \<le> 256 ^ length (fst ?r)" using fits by (simp add: val spec(1))
  from Cons.IH[OF _ this] obtain r where "b58_decode_chars (fst ?r) cs = Some r"
    "digits_val 256 r = digits_val 256 (fst ?r) * 58 ^ length cs + digits_val 58 (map (\<lambda>c. ucast (b58_digit c)) cs)"
    using Cons.prems(1) by auto
  then show ?case using Cons.prems(1) by (simp add: val ud algebra_simps not_le)
qed simp

lemma b58_decode_chars_None: "\<not> list_all (\<lambda>c. b58_digit c < 58) cs \<Longrightarrow> b58_decode_chars buf cs = None"
  by (induction cs arbitrary: buf) auto

lemma b58_digits_spec:
  "digits_ok 58 (b58_digits data)" "digits_val 58 (b58_digits data) = digits_val 256 data"
  "b58_digits data = [] \<or> hd (b58_digits data) \<noteq> 0"
proof -
  let ?z = "replicate (length data * 138 div 100 + 1) 0 :: bytes"
  have z: "digits_ok 58 ?z" by (simp add: digits_ok_def list_all_iff)
  have "(digits_val 58 ?z + 1) * 256 ^ length data \<le> 58 ^ length ?z" using b58_room[of "length data"] by simp
  note r = encode_fold[OF z this, unfolded Let_def]
  show "digits_ok 58 (b58_digits data)" "digits_val 58 (b58_digits data) = digits_val 256 data"
    using r unfolding b58_digits_def by (simp_all add: digits_ok_dropWhile digits_val_strip)
  show "b58_digits data = [] \<or> hd (b58_digits data) \<noteq> 0"
    unfolding b58_digits_def using hd_dropWhile[of "\<lambda>d. d = 0"] by blast
qed

section \<open>The alphabet\<close>

lemma b58_digit_map: "map b58_digit b58_chars = map of_nat [0..<58]"
  by (simp add: b58_chars_def b58_digit_def in_range_def upt_rec)

lemma length_b58_chars [simp]: "length b58_chars = 58"
  by (simp add: b58_chars_def)

lemma b58_digit_of_char: "d < 58 \<Longrightarrow> b58_digit (b58_chars ! d) = of_nat d"
  using arg_cong[OF b58_digit_map, of "\<lambda>xs. xs ! d"] by simp

lemma in_range_set: "in_range a b c \<Longrightarrow> c \<in> set (map char_of [of_char a ..< (of_char b :: nat) + 1])"
  unfolding in_range_def set_map set_upt by (rule image_eqI[where x = "of_char c"]) auto

lemma b58_digit_in_alphabet: "b58_digit c < 58 \<Longrightarrow> c \<in> set b58_chars"
proof -
  have r: "set (map char_of [of_char (CHR ''1'') ..< (of_char (CHR ''9'') :: nat) + 1]) \<subseteq> set b58_chars"
    "set (map char_of [of_char (CHR ''A'') ..< (of_char (CHR ''H'') :: nat) + 1]) \<subseteq> set b58_chars"
    "set (map char_of [of_char (CHR ''J'') ..< (of_char (CHR ''N'') :: nat) + 1]) \<subseteq> set b58_chars"
    "set (map char_of [of_char (CHR ''P'') ..< (of_char (CHR ''Z'') :: nat) + 1]) \<subseteq> set b58_chars"
    "set (map char_of [of_char (CHR ''a'') ..< (of_char (CHR ''k'') :: nat) + 1]) \<subseteq> set b58_chars"
    "set (map char_of [of_char (CHR ''m'') ..< (of_char (CHR ''z'') :: nat) + 1]) \<subseteq> set b58_chars"
    by (simp_all add: b58_chars_def char_of_def bit_0 upt_rec)
  assume "b58_digit c < 58"
  then have "in_range (CHR ''1'') (CHR ''9'') c \<or> in_range (CHR ''A'') (CHR ''H'') c \<or> in_range (CHR ''J'') (CHR ''N'') c \<or>
    in_range (CHR ''P'') (CHR ''Z'') c \<or> in_range (CHR ''a'') (CHR ''k'') c \<or> in_range (CHR ''m'') (CHR ''z'') c"
    by (rule contrapos_pp) (simp add: b58_digit_def)
  then show ?thesis by (elim disjE; blast dest: in_range_set r[THEN subsetD])
qed

lemma b58_char_of_digit:
  assumes "b58_digit c < 58"
  shows "b58_chars ! unat (b58_digit c) = c"
proof -
  obtain i where i: "i < 58" "c = b58_chars ! i"
    using b58_digit_in_alphabet[OF assms] by (metis in_set_conv_nth length_b58_chars)
  then have "unat (b58_digit c) = i" by (simp add: b58_digit_of_char unsigned_of_nat take_bit_nat_eq_self)
  then show ?thesis using i by simp
qed

lemma b58_digit_one: "b58_digit (CHR ''1'') = 0" "b58_chars ! 0 = CHR ''1''"
  by (simp_all add: b58_digit_def in_range_def b58_chars_def)

section \<open>Round trips\<close>

definition b58_string :: "bytes \<Rightarrow> string" where
  "b58_string data =
     (let z = length (takeWhile (\<lambda>b. b = 0) data)
      in replicate z (CHR ''1'') @ map (\<lambda>d. b58_chars ! unat d) (b58_digits (drop z data)))"

definition b58_value :: "string \<Rightarrow> bytes" where
  "b58_value s =
     (let z = length (takeWhile (\<lambda>c. c = CHR ''1'') s)
      in replicate z 0 @ dropWhile (\<lambda>b. b = 0)
           (the (b58_decode_chars (replicate (BR_BASE58_MAX_STR_LEN * 733 div 1000 + 1) 0) (drop z s))))"

definition b58_text :: "string \<Rightarrow> bool" where
  "b58_text s \<longleftrightarrow> length s \<le> BR_BASE58_MAX_STR_LEN \<and> list_all (\<lambda>c. b58_digit c < 58) s"

lemma BRBase58Encode_string:
  "BRBase58Encode (Some n) data =
     (if length (b58_string data) + 1 \<le> n then (length (b58_string data) + 1, b58_string data) else (0, []))"
  by (simp add: BRBase58Encode_def b58_string_def Let_def b58_digit_one)

lemma split_leading:
  obtains rest where "xs = replicate (length (takeWhile (\<lambda>x. x = a) xs)) a @ rest" "rest = [] \<or> hd rest \<noteq> a"
    "drop (length (takeWhile (\<lambda>x. x = a) xs)) xs = rest"
proof
  have "replicate (length (takeWhile (\<lambda>x. x = a) xs)) a = takeWhile (\<lambda>x. x = a) xs"
    by (rule replicate_length_same) (blast dest: set_takeWhileD)
  then show "xs = replicate (length (takeWhile (\<lambda>x. x = a) xs)) a @ dropWhile (\<lambda>x. x = a) xs" by simp
  show "dropWhile (\<lambda>x. x = a) xs = [] \<or> hd (dropWhile (\<lambda>x. x = a) xs) \<noteq> a" using hd_dropWhile[of "\<lambda>x. x = a" xs] by blast
  show "drop (length (takeWhile (\<lambda>x. x = a) xs)) xs = dropWhile (\<lambda>x. x = a) xs" by (simp add: dropWhile_eq_drop)
qed

lemma leading_of:
  "rest = [] \<or> hd rest \<noteq> a \<Longrightarrow> length (takeWhile (\<lambda>x. x = a) (replicate z a @ rest)) = z"
  by (induction z) (cases rest; auto)+

lemma decode_buffer:
  assumes "b58_text s" "z = length (takeWhile (\<lambda>c. c = CHR ''1'') s)"
  obtains r where "b58_decode_chars (replicate (BR_BASE58_MAX_STR_LEN * 733 div 1000 + 1) 0) (drop z s) = Some r"
    "digits_val 256 r = digits_val 58 (map (\<lambda>c. ucast (b58_digit c)) (drop z s))"
proof -
  let ?z = "replicate (BR_BASE58_MAX_STR_LEN * 733 div 1000 + 1) 0 :: bytes"
  have ok: "list_all (\<lambda>c. b58_digit c < 58) (drop z s)"
    using assms(1) by (auto simp: b58_text_def list_all_iff dest: in_set_dropD)
  have "(58 :: nat) ^ length (drop z s) \<le> 58 ^ 128"
    using assms(1) by (intro power_increasing) (auto simp: b58_text_def BR_BASE58_MAX_STR_LEN_def)
  also have "\<dots> \<le> 256 ^ length ?z" by (simp add: BR_BASE58_MAX_STR_LEN_def)
  finally have "(digits_val 256 ?z + 1) * 58 ^ length (drop z s) \<le> 256 ^ length ?z"
    by (simp only: digits_val_zeros add_0 mult_1)
  from decode_fold[OF ok this] show ?thesis using that by (simp only: digits_val_zeros mult_0 add_0) blast
qed

lemma BRBase58Decode_value:
  "BRBase58Decode (Some n) s =
     (if b58_text s \<and> length (b58_value s) \<le> n then (length (b58_value s), b58_value s) else (0, []))"
proof (cases "b58_text s")
  case True
  let ?z = "length (takeWhile (\<lambda>c. c = CHR ''1'') s)"
  obtain r where "b58_decode_chars (replicate (BR_BASE58_MAX_STR_LEN * 733 div 1000 + 1) 0) (drop ?z s) = Some r"
    using decode_buffer[OF True refl] by metis
  then show ?thesis using True by (simp add: BRBase58Decode_def b58_value_def b58_text_def Let_def)
next
  case False
  let ?z = "length (takeWhile (\<lambda>c. c = CHR ''1'') s)"
  obtain rest where s: "s = replicate ?z (CHR ''1'') @ rest" "drop ?z s = rest"
    by (rule split_leading[of s "CHR ''1''"]) blast
  have "\<not> length s \<le> BR_BASE58_MAX_STR_LEN \<or> \<not> list_all (\<lambda>c. b58_digit c < 58) (drop ?z s)"
  proof (rule ccontr)
    assume "\<not> ?thesis"
    then have "length s \<le> BR_BASE58_MAX_STR_LEN" "list_all (\<lambda>c. b58_digit c < 58) rest" using s(2) by auto
    then have "list_all (\<lambda>c. b58_digit c < 58) (replicate ?z (CHR ''1'') @ rest)"
      by (auto simp: b58_digit_one list_all_iff)
    then show False using False \<open>length s \<le> _\<close> unfolding b58_text_def s(1)[symmetric] by simp
  qed
  then show ?thesis using False b58_decode_chars_None by (auto simp: BRBase58Decode_def Let_def)
qed

lemma ub32: "ucast (ucast (d :: u8) :: u32) = d"
  by (rule bit_word_eqI) (simp add: bit_simps)

lemma unat_ucast_byte: "unat (ucast (d :: u8) :: u32) = unat d"
  using byte_less_256[of d] by (simp add: unsigned_ucast_eq take_bit_nat_eq_self)

lemma unat_b58_digit:
  assumes "b58_digit c < 58"
  shows "unat (ucast (b58_digit c) :: u8) = unat (b58_digit c)"
proof -
  have "unat (b58_digit c) < 2 ^ 8" using assms by (simp add: word_less_nat_alt)
  then show ?thesis by (simp add: unsigned_ucast_eq take_bit_nat_eq_self)
qed

lemma b58_value_of_string:
  assumes "length (b58_string data) \<le> BR_BASE58_MAX_STR_LEN"
  shows "b58_text (b58_string data)" "b58_value (b58_string data) = data"
proof -
  let ?z = "length (takeWhile (\<lambda>b. b = 0) data)"
  obtain rest where data: "data = replicate ?z 0 @ rest" "rest = [] \<or> hd rest \<noteq> 0" "drop ?z data = rest"
    by (rule split_leading[of data 0]) blast
  let ?ds = "b58_digits rest"
  let ?cs = "map (\<lambda>d. b58_chars ! unat d) ?ds"
  note ds = b58_digits_spec[of rest]
  have str: "b58_string data = replicate ?z (CHR ''1'') @ ?cs" by (simp add: b58_string_def data(3) Let_def)
  have digit: "b58_digit (b58_chars ! unat d) = ucast d" if "d \<in> set ?ds" for d
    using ds(1) that b58_digit_of_char[of "unat d"] by (simp add: digits_ok_def list_all_iff)
  then have ret: "map (\<lambda>c. ucast (b58_digit c)) ?cs = ?ds"
    unfolding map_map by (intro map_idI) (simp add: ub32)
  have small: "b58_digit c < 58" if "c \<in> set ?cs" for c
    using that ds(1) by (auto simp: digits_ok_def list_all_iff b58_digit_of_char word_less_nat_alt unat_ucast_byte)
  have head: "?cs = [] \<or> hd ?cs \<noteq> CHR ''1''"
  proof (cases ?ds)
    case (Cons d l)
    then have d: "d \<noteq> 0" "d \<in> set ?ds" using ds(3) by auto
    have "(ucast d :: u32) \<noteq> 0" using d(1) unat_ucast_byte[of d] by (metis unsigned_0 unat_eq_0)
    then show ?thesis using d digit[of d] b58_digit_one(1) Cons by auto
  qed simp
  show btxt: "b58_text (b58_string data)"
    using assms small by (auto simp: b58_text_def str list_all_iff b58_digit_one)
  have z: "length (takeWhile (\<lambda>c. c = CHR ''1'') (b58_string data)) = ?z" unfolding str by (rule leading_of[OF head])
  then have drop: "drop ?z (b58_string data) = ?cs" by (simp add: str)
  obtain r where r: "b58_decode_chars (replicate (BR_BASE58_MAX_STR_LEN * 733 div 1000 + 1) 0) ?cs = Some r"
    "digits_val 256 r = digits_val 58 (map (\<lambda>c. ucast (b58_digit c)) ?cs)"
    using decode_buffer[OF btxt z[symmetric]] unfolding drop by blast
  have "dropWhile (\<lambda>b. b = 0) r = rest"
  proof (rule digits_unique[of 256])
    show "digits_val 256 (dropWhile (\<lambda>b. b = 0) r) = digits_val 256 rest"
      using r(2) ds(2) unfolding ret by (simp add: digits_val_strip)
    show "dropWhile (\<lambda>b. b = 0) r = [] \<or> hd (dropWhile (\<lambda>b. b = 0) r) \<noteq> 0" using hd_dropWhile[of "\<lambda>b. b = 0" r] by blast
  qed (use data(2) in simp_all)
  then show "b58_value (b58_string data) = data" using r(1) data(1) by (simp add: b58_value_def z drop Let_def)
qed

lemma b58_string_of_value:
  assumes "b58_text s"
  shows "b58_string (b58_value s) = s"
proof -
  let ?z = "length (takeWhile (\<lambda>c. c = CHR ''1'') s)"
  obtain cs where s: "s = replicate ?z (CHR ''1'') @ cs" "cs = [] \<or> hd cs \<noteq> CHR ''1''" "drop ?z s = cs"
    by (rule split_leading[of s "CHR ''1''"]) blast
  let ?f = "\<lambda>c. ucast (b58_digit c) :: u8"
  obtain r where r: "b58_decode_chars (replicate (BR_BASE58_MAX_STR_LEN * 733 div 1000 + 1) 0) cs = Some r"
    "digits_val 256 r = digits_val 58 (map ?f cs)"
    using decode_buffer[OF assms refl] unfolding s(3) by blast
  let ?rest = "dropWhile (\<lambda>b. b = 0) r"
  have small: "b58_digit c < 58" if "c \<in> set cs" for c
    using assms that s(3) by (auto simp: b58_text_def list_all_iff dest: in_set_dropD)
  have uf: "unat (?f c) = unat (b58_digit c)" if "c \<in> set cs" for c
    using small[OF that] by (rule unat_b58_digit)
  have head: "?rest = [] \<or> hd ?rest \<noteq> 0" using hd_dropWhile[of "\<lambda>b. b = 0" r] by blast
  have val: "b58_value s = replicate ?z 0 @ ?rest" using r(1) by (simp add: b58_value_def s(3) Let_def)
  have z: "length (takeWhile (\<lambda>b. b = 0) (b58_value s)) = ?z" unfolding val by (rule leading_of[OF head])
  have "b58_digits ?rest = map ?f cs"
  proof (rule digits_unique[of 58])
    show "digits_val 58 (b58_digits ?rest) = digits_val 58 (map ?f cs)"
      using r(2) by (simp add: b58_digits_spec(2) digits_val_strip)
    show "digits_ok 58 (map ?f cs)" using uf small by (auto simp: digits_ok_def list_all_iff word_less_nat_alt)
    show "map ?f cs = [] \<or> hd (map ?f cs) \<noteq> 0"
    proof (cases cs)
      case (Cons c l)
      have "unat (?f c) \<noteq> 0"
      proof
        assume "unat (?f c) = 0"
        then have "b58_digit c = 0" using uf[of c] Cons by (simp add: unat_eq_0)
        then have "c = CHR ''1''" using b58_char_of_digit[of c] b58_digit_one(2) by simp
        then show False using s(2) Cons by simp
      qed
      then show ?thesis using Cons by auto
    qed simp
  qed (use b58_digits_spec in simp_all)
  then have "map (\<lambda>d. b58_chars ! unat d) (b58_digits ?rest) = cs"
    using uf small b58_char_of_digit by (simp add: map_idI)
  then show ?thesis using s(1) z val by (simp add: b58_string_def Let_def)
qed

lemma b58_value_shorter:
  assumes "b58_text s"
  shows "length (b58_value s) \<le> length s"
proof -
  let ?z = "length (takeWhile (\<lambda>c. c = CHR ''1'') s)"
  let ?ds = "map (\<lambda>c. ucast (b58_digit c) :: u8) (drop ?z s)"
  obtain r where r: "b58_decode_chars (replicate (BR_BASE58_MAX_STR_LEN * 733 div 1000 + 1) 0) (drop ?z s) = Some r"
    "digits_val 256 r = digits_val 58 ?ds"
    using decode_buffer[OF assms refl] by blast
  let ?rest = "dropWhile (\<lambda>b. b = 0) r"
  have z: "?z \<le> length s" by (rule length_takeWhile_le)
  have "unat (ucast (b58_digit c) :: u8) < 58" if "c \<in> set s" for c
    using assms that unat_b58_digit[of c] by (simp add: b58_text_def list_all_iff word_less_nat_alt)
  then have "digits_ok 58 ?ds" by (auto simp: digits_ok_def list_all_iff dest: in_set_dropD)
  then have "digits_val 58 ?ds < 58 ^ length ?ds" by (rule digits_val_less)
  also have "\<dots> \<le> (256 :: nat) ^ length ?ds" by (rule power_mono) simp_all
  finally have up: "digits_val 256 ?rest < 256 ^ (length s - ?z)" using r(2) by (simp add: digits_val_strip)
  have "length ?rest \<le> length s - ?z"
  proof (cases ?rest)
    case (Cons d l)
    have "d \<noteq> 0" using Cons hd_dropWhile[of "\<lambda>b. b = 0" r] by simp
    then have "256 ^ length l \<le> digits_val 256 ?rest" unfolding Cons by (intro digits_val_leading) (simp_all add: byte_less_256)
    then have "(256 :: nat) ^ length l < 256 ^ (length s - ?z)" using up by linarith
    then have "length l < length s - ?z" by (simp only: power_strict_increasing_iff)
    then show ?thesis unfolding Cons by simp
  next
    case Nil
    show ?thesis unfolding Nil by simp
  qed
  then show ?thesis using r(1) z by (simp add: b58_value_def Let_def)
qed

lemma BRBase58Encode_size_query:
  "BRBase58Encode None data = (length (b58_string data) + 1, [])"
  by (simp add: BRBase58Encode_def b58_string_def Let_def)

lemma b58_decode_iff:
  assumes "data \<noteq> []"
  shows "BRBase58Decode (Some n) s = (length data, data) \<longleftrightarrow>
    length data \<le> n \<and> length s \<le> BR_BASE58_MAX_STR_LEN \<and> s = b58_string data"
proof
  assume "BRBase58Decode (Some n) s = (length data, data)"
  then have "b58_text s" "data = b58_value s" "length data \<le> n"
    using assms unfolding BRBase58Decode_value by (auto split: if_splits)
  then show "length data \<le> n \<and> length s \<le> BR_BASE58_MAX_STR_LEN \<and> s = b58_string data"
    using b58_string_of_value[of s] by (simp add: b58_text_def)
next
  assume "length data \<le> n \<and> length s \<le> BR_BASE58_MAX_STR_LEN \<and> s = b58_string data"
  then show "BRBase58Decode (Some n) s = (length data, data)"
    using b58_value_of_string[of data] by (auto simp: BRBase58Decode_value)
qed

lemma b58check_decode_iff:
  assumes "p \<noteq> []"
  shows "BRBase58CheckDecode (Some n) s = (length p, p) \<longleftrightarrow>
    length p \<le> n \<and> length s \<le> BR_BASE58_MAX_STR_LEN \<and> s = b58_string (p @ take 4 (BRSHA256_2 p))"
    (is "?L \<longleftrightarrow> ?R")
proof
  let ?sum = "take 4 (BRSHA256_2 p)"
  assume ?L
  then obtain len buf where d: "BRBase58Decode (Some BR_BASE58_MAX_STR_LEN) s = (len, buf)" "4 \<le> len" "len - 4 = length p"
    "take 4 (drop (len - 4) buf) = take 4 (BRSHA256_2 (take (len - 4) buf))" "take (len - 4) buf = p" "length p \<le> n"
    using assms unfolding BRBase58CheckDecode_def by (auto simp: Let_def split: prod.splits if_splits)
  have len: "len = length buf" using d(1,2) unfolding BRBase58Decode_value by (auto split: if_splits)
  then have "take 4 (drop (len - 4) buf) = drop (len - 4) buf" using d(2) by simp
  then have buf: "buf = p @ ?sum" using d(4,5) by (metis append_take_drop_id)
  then have "BRBase58Decode (Some BR_BASE58_MAX_STR_LEN) s = (length (p @ ?sum), p @ ?sum)" using d(1) len by simp
  then show ?R using b58_decode_iff[of "p @ ?sum" BR_BASE58_MAX_STR_LEN s] d(6) assms by blast
next
  let ?sum = "take 4 (BRSHA256_2 p)"
  assume R: ?R
  then have sl: "length s \<le> BR_BASE58_MAX_STR_LEN" "s = b58_string (p @ ?sum)" by blast+
  have "length (b58_string (p @ ?sum)) \<le> BR_BASE58_MAX_STR_LEN" unfolding sl(2)[symmetric] by (rule sl(1))
  note v = b58_value_of_string[OF this]
  have "length (p @ ?sum) \<le> length s" using b58_value_shorter[OF v(1)] R unfolding v(2) by simp
  then have "length (p @ ?sum) \<le> BR_BASE58_MAX_STR_LEN" using R by linarith
  then have "BRBase58Decode (Some BR_BASE58_MAX_STR_LEN) s = (length (p @ ?sum), p @ ?sum)"
    using b58_decode_iff[of "p @ ?sum" BR_BASE58_MAX_STR_LEN s] sl assms by blast
  moreover have "length ?sum = 4" by (simp add: digest_length_derived)
  ultimately show ?L using R unfolding BRBase58CheckDecode_def by (simp add: Let_def)
qed

lemma b58check_decode_length: "BRBase58CheckDecode (Some n) s = (len, p) \<Longrightarrow> length p = len"
  unfolding BRBase58CheckDecode_def BRBase58Decode_value by (auto simp: Let_def split: if_splits)

lemma BRBase58CheckEncode_string:
  "BRBase58CheckEncode (Some n) p =
     (let str = b58_string (p @ take 4 (BRSHA256_2 p))
      in if length str + 1 \<le> n then (length str + 1, str) else (0, []))"
  by (simp add: BRBase58CheckEncode_def BRBase58Encode_string Let_def)

text \<open>The length of a text, from above and from below.\<close>

lemma length_encode_step [simp]: "length (fst (b58_encode_step buf c)) = length buf"
  by (induction buf) (auto simp: Let_def split: prod.splits)

lemma length_b58_string: "length (b58_string data) \<le> length data * 138 div 100 + 1"
proof -
  let ?z = "length (takeWhile (\<lambda>b. b = 0) data)"
  have fl: "length (foldl (\<lambda>buf b. fst (b58_encode_step buf (ucast b))) buf ds) = length buf" for buf ds
    by (induction ds arbitrary: buf) simp_all
  have "length (b58_digits (drop ?z data)) \<le> (length data - ?z) * 138 div 100 + 1"
    unfolding b58_digits_def by (intro order.trans[OF length_dropWhile_le]) (simp only: fl length_replicate length_drop)
  moreover have "?z \<le> length data" by (rule length_takeWhile_le)
  moreover have "z + ((l - z) * 138 div 100 + 1) \<le> l * 138 div 100 + 1" if "z \<le> l" for z l :: nat
  proof -
    have "z + (l - z) * 138 div 100 = (z * 100 + (l - z) * 138) div 100" by simp
    also have "\<dots> \<le> l * 138 div 100"
    proof (rule div_le_mono)
      have "z * 100 + (l - z) * 138 \<le> z * 138 + (l - z) * 138" by simp
      also have "\<dots> = l * 138" using that by (simp add: algebra_simps)
      finally show "z * 100 + (l - z) * 138 \<le> l * 138" .
    qed
    finally show ?thesis by simp
  qed
  ultimately have "?z + length (b58_digits (drop ?z data)) \<le> length data * 138 div 100 + 1"
    by (meson add_left_mono order.trans)
  then show ?thesis by (simp add: b58_string_def Let_def)
qed

lemma b58_string_short:
  assumes "length (b58_string data) = m" "hd (b58_string data) \<noteq> CHR ''1''" "0 < m"
  shows "58 ^ (m - 1) < (256 :: nat) ^ length data"
proof -
  define z where "z = length (takeWhile (\<lambda>b. b = 0) data)"
  have str: "b58_string data = replicate z (CHR ''1'') @ map (\<lambda>d. b58_chars ! unat d) (b58_digits (drop z data))"
    by (simp add: b58_string_def Let_def z_def)
  have "z = 0" using assms(2) unfolding str by (cases z) simp_all
  then have "length (b58_digits data) = m" using assms(1) unfolding str by simp
  then obtain d ds where ds: "b58_digits data = d # ds" "length ds = m - 1" using assms(3) by (cases "b58_digits data") auto
  have ok: "digits_ok 58 (d # ds)" "d \<noteq> 0" using b58_digits_spec(1,3)[of data] unfolding ds(1) by simp_all
  have "58 ^ (m - 1) \<le> digits_val 58 (b58_digits data)"
    unfolding ds(1) ds(2)[symmetric] by (rule digits_val_leading[OF ok])
  also have "\<dots> = digits_val 256 data" by (rule b58_digits_spec(2))
  also have "\<dots> < 256 ^ length data" by (rule digits_val_less) (rule digits_ok_256)
  finally show ?thesis .
qed

text \<open>
  Base58 decoding is the inverse of encoding: a string of at most 128 characters decodes to a given
  non-empty byte string exactly when encoding those bytes writes that string, so every byte string has one
  text (leading zero bytes included), every accepted text is the one the encoder writes, and nothing but an
  encoding decodes.\<close>

theorem base58_decode_inverts_encode:
  "BRBase58Decode (Some (length (b # bs))) s = (length (b # bs), b # bs) \<longleftrightarrow>
     length s \<le> BR_BASE58_MAX_STR_LEN \<and> BRBase58Encode (Some (length s + 1)) (b # bs) = (length s + 1, s)"
  using b58_decode_iff[of "b # bs"] by (auto simp: BRBase58Encode_string)

text \<open>C30. The checked form: a string of at most 128 characters decodes to a non-empty payload exactly when
  encoding the payload with the first four bytes of its double SHA-256 writes that string; any change of
  the text or of the checksum is answered 0 or with another payload.\<close>

theorem base58check_decode_inverts_encode:
  "BRBase58CheckDecode (Some (length (b # bs))) s = (length (b # bs), b # bs) \<longleftrightarrow>
     length s \<le> BR_BASE58_MAX_STR_LEN \<and> BRBase58CheckEncode (Some (length s + 1)) (b # bs) = (length s + 1, s)"
  using b58check_decode_iff[of "b # bs"] by (auto simp: BRBase58CheckEncode_string Let_def)

end
