(* ===== verification/Bech32.thy ===== *)
theory Bech32
  imports Base58 Script
begin

text \<open>
  The bech32 and bech32m texts of witness programs (\<open>src/BRBech32.c\<close>).  A C string is the list of its
  characters; a function that fills buffers returns its result with what it wrote.
\<close>

section \<open>The checksum step\<close>

definition polymod :: "u32 \<Rightarrow> u32" where
  "polymod x =
     push_bit 5 (x AND 0x1ffffff) XOR
     (- (drop_bit 25 x AND 1) AND 0x3b6a57b2) XOR (- (drop_bit 26 x AND 1) AND 0x26508e6d) XOR
     (- (drop_bit 27 x AND 1) AND 0x1ea119fa) XOR (- (drop_bit 28 x AND 1) AND 0x3d4233dd) XOR
     (- (drop_bit 29 x AND 1) AND 0x2a1462b3)"

definition islower :: "char \<Rightarrow> bool" where "islower c \<longleftrightarrow> in_range (CHR ''a'') (CHR ''z'') c"
definition isupper :: "char \<Rightarrow> bool" where "isupper c \<longleftrightarrow> in_range (CHR ''A'') (CHR ''Z'') c"
definition tolower :: "char \<Rightarrow> char" where
  "tolower c = (if isupper c then char_of (of_char c + (32 :: nat)) else c)"

definition checksum_const :: "u8 \<Rightarrow> u32" where
  "checksum_const ver = (if ver = 0 then 1 else 0x2bc830a3)"

definition printable :: "char \<Rightarrow> bool" where
  "printable c \<longleftrightarrow> (33 :: nat) \<le> of_char c \<and> (of_char c :: nat) \<le> 126"

text \<open>The checksum of the human readable part, high bits, a zero and low bits.\<close>

definition hrp_high :: "u32 \<Rightarrow> string \<Rightarrow> u32" where
  "hrp_high = foldl (\<lambda>chk ch. polymod chk XOR drop_bit 5 (of_char (tolower ch)))"

definition hrp_low :: "u32 \<Rightarrow> string \<Rightarrow> u32" where
  "hrp_low = foldl (\<lambda>chk ch. polymod chk XOR (of_char ch AND 0x1f))"

section \<open>Decoding\<close>

text \<open>The search for the last separator, from the terminator of the string towards its start.\<close>

primrec sepLoop :: "string \<Rightarrow> nat \<Rightarrow> nat" where
  "sepLoop addr 0 = 0"
| "sepLoop addr (Suc sep) = (if (addr @ [CHR 0x00]) ! Suc sep \<noteq> CHR ''1'' then sepLoop addr sep else Suc sep)"

definition bech32_digit :: "char \<Rightarrow> u8 option" where
  "bech32_digit ch =
     (let c = tolower ch in
      if c = CHR ''q'' then Some 0 else if c = CHR ''p'' then Some 1 else if c = CHR ''z'' then Some 2
      else if c = CHR ''r'' then Some 3 else if c = CHR ''y'' then Some 4 else if c = CHR ''9'' then Some 5
      else if c = CHR ''x'' then Some 6 else if c = CHR ''8'' then Some 7 else if c = CHR ''g'' then Some 8
      else if c = CHR ''f'' then Some 9 else if c = CHR ''2'' then Some 10 else if c = CHR ''t'' then Some 11
      else if c = CHR ''v'' then Some 12 else if c = CHR ''d'' then Some 13 else if c = CHR ''w'' then Some 14
      else if c = CHR ''0'' then Some 15 else if c = CHR ''s'' then Some 16 else if c = CHR ''3'' then Some 17
      else if c = CHR ''j'' then Some 18 else if c = CHR ''n'' then Some 19 else if c = CHR ''5'' then Some 20
      else if c = CHR ''4'' then Some 21 else if c = CHR ''k'' then Some 22 else if c = CHR ''h'' then Some 23
      else if c = CHR ''c'' then Some 24 else if c = CHR ''e'' then Some 25 else if c = CHR ''6'' then Some 26
      else if c = CHR ''m'' then Some 27 else if c = CHR ''u'' then Some 28 else if c = CHR ''a'' then Some 29
      else if c = CHR ''7'' then Some 30 else if c = CHR ''l'' then Some 31 else None)"

text \<open>Symbol \<open>j\<close> goes to the five bits from bit \<open>5 j\<close> of the buffer on.\<close>

definition put_symbol :: "bytes \<Rightarrow> nat \<Rightarrow> u8 \<Rightarrow> bytes" where
  "put_symbol buf j c =
     (let x = (j mod 8) * 5 - ((j mod 8) * 5 div 8) * 8;
          k = (j div 8) * 5 + (j mod 8) * 5 div 8;
          buf = buf[k := buf ! k OR ucast (drop_bit x (push_bit 3 (ucast c :: u32)))]
      in if x > 3 then buf[k + 1 := buf ! (k + 1) OR ucast (push_bit (11 - x) (ucast c :: u32))] else buf)"

text \<open>
  The loop over the characters after the separator.  \<open>i\<close> is the index of the next one and \<open>j + 1\<close> (the
  loop starts at \<open>j = -1\<close>) the argument \<open>k\<close>; \<open>None\<close> is the return at a character outside the alphabet.
\<close>

fun symLoop :: "nat \<Rightarrow> string \<Rightarrow> nat \<Rightarrow> nat \<Rightarrow> u32 \<Rightarrow> u8 \<Rightarrow> bytes \<Rightarrow> (u32 \<times> u8 \<times> bytes) option" where
  "symLoop addrLen [] i k chk ver buf = Some (chk, ver, buf)"
| "symLoop addrLen (ch # chs) i k chk ver buf =
     (case bech32_digit ch of None \<Rightarrow> None
      | Some c \<Rightarrow>
          let chk = polymod chk XOR ucast c;
              ver = (if k = 0 then c else ver)
          in if k = 0 \<or> i + 6 \<ge> addrLen then symLoop addrLen chs (i + 1) (k + 1) chk ver buf
             else symLoop addrLen chs (i + 1) (k + 1) chk ver (put_symbol buf (k - 1) c))"

definition BRBech32Decode :: "string \<Rightarrow> nat \<times> string \<times> bytes" where
  "BRBech32Decode addr =
     (let addrLen = length addr;
          upper = list_ex isupper addr;
          lower = list_ex islower addr;
          sep = sepLoop addr addrLen
      in if \<not> list_all printable addr then (0, [], [])
         else if addrLen < 8 \<or> addrLen > 90 \<or> sep < 1 \<or> sep + 2 + 6 > addrLen \<or> (upper \<and> lower) then (0, [], [])
         else
           let hrp = take sep addr;
               chk = hrp_low (polymod (hrp_high 1 hrp)) hrp
           in case symLoop addrLen (drop (sep + 1) addr) (sep + 1) 0 chk 0xff (replicate 52 0) of
                None \<Rightarrow> (0, [], [])
              | Some (chk, ver, buf) \<Rightarrow>
                  let bufLen = (addrLen - (sep + 2 + 6)) * 5 div 8
                  in if chk \<noteq> checksum_const ver \<or> ver > 16 \<or> bufLen < 2 \<or> bufLen > 40 then (0, [], [])
                     else (2 + bufLen, map tolower hrp,
                           (if ver = 0 then OP_0 else ver + OP_1 - 1) # of_nat bufLen # take bufLen buf))"

section \<open>Encoding\<close>

definition bech32_chars :: string where "bech32_chars = ''qpzry9x8gf2tvdw0s3jn54khce6mua7l''"

text \<open>
  One round of the regrouping loop on the running checksum, the symbols written so far and the byte
  the last round left in \<open>b\<close>.
\<close>

definition regroup :: "bytes \<Rightarrow> u32 \<times> bytes \<times> u8 \<Rightarrow> nat \<Rightarrow> u32 \<times> bytes \<times> u8" where
  "regroup data st j =
     (let (chk, out, a) = st;
          n = unat (data ! 1);
          b = (if j < n then data ! (2 + j) else 0);
          x = (j mod 5) * 8 - ((j mod 5) * 8 div 5) * 5;
          c = ucast ((push_bit (5 - x) (ucast a) OR drop_bit (3 + x) (ucast b)) AND (0x1f :: u32));
          (chk, out) = (if j < n \<or> j mod 5 > 0 then (polymod chk XOR ucast c, out @ [c]) else (chk, out));
          c = (if x \<ge> 2 then ucast (drop_bit (x - 2) (ucast b) AND (0x1f :: u32)) else c);
          (chk, out) = (if x \<ge> 2 \<and> j < n then (polymod chk XOR ucast c, out @ [c]) else (chk, out))
      in (chk, out, b))"

definition checksum_symbols :: "u32 \<Rightarrow> bytes" where
  "checksum_symbols chk = map (\<lambda>j. ucast (drop_bit ((5 - j) * 5) chk AND 0x1f)) [0..<6]"

text \<open>
  \<open>None\<close> is undefined behaviour: the program ends before the bytes its length byte announces, or the
  text does not fit the 91 characters of the buffer it is built in, which is asserted only after the
  writes.
\<close>

definition BRBech32Encode :: "string \<Rightarrow> bytes \<Rightarrow> (nat \<times> string) option" where
  "BRBech32Encode hrp data =
     (if length hrp > 84 \<or> \<not> list_all (\<lambda>c. printable c \<and> \<not> isupper c) hrp then Some (0, [])
      else
        let chk = hrp_low (polymod (hrp_high 1 hrp)) hrp
        in if length data < 2 then None
           else if data ! 0 > OP_0 \<and> data ! 0 < OP_1 then Some (0, [])
           else
             let ver = (if data ! 0 \<ge> OP_1 then data ! 0 + 1 - OP_1 else 0)
             in if ver > 16 \<or> data ! 1 < 2 \<or> data ! 1 > 40 then Some (0, [])
                else if length data < 2 + unat (data ! 1) then None
                else
                  let (chk, out, b) = foldl (regroup data) (polymod chk XOR ucast ver, [ver], 0) [0..<unat (data ! 1) + 1];
                      chk = ((polymod ^^ 6) chk) XOR checksum_const ver;
                      addr = hrp @ ''1'' @ map (\<lambda>c. bech32_chars ! unat c) (out @ checksum_symbols chk);
                      i = length addr + 1
                  in if i \<le> 91 then Some (i, addr) else None)"

section \<open>The checksum is linear\<close>

lemma minus_bit_and: "- (drop_bit n x AND 1) AND g = (if bit x n then g else 0)" for x g :: u32
proof -
  have "drop_bit n x AND 1 = of_bool (bit x n)"
    by (rule bit_word_eqI) (auto simp: bit_simps)
  then show ?thesis by (cases "bit x n") simp_all
qed

lemma polymod_bits:
  "polymod x = push_bit 5 (take_bit 25 x) XOR (if bit x 25 then 0x3b6a57b2 else 0) XOR
     (if bit x 26 then 0x26508e6d else 0) XOR (if bit x 27 then 0x1ea119fa else 0) XOR
     (if bit x 28 then 0x3d4233dd else 0) XOR (if bit x 29 then 0x2a1462b3 else 0)"
proof -
  have "(0x1ffffff :: u32) = mask 25" by (simp add: mask_eq_exp_minus_1)
  then show ?thesis by (simp add: polymod_def minus_bit_and take_bit_eq_mask)
qed

lemma if_xor: "(if a \<noteq> b then g else 0) = (if a then g else 0) XOR (if b then g else (0 :: u32))"
  by simp

lemma polymod_xor: "polymod (x XOR y) = polymod x XOR polymod y"
  unfolding polymod_bits bit_xor_iff take_bit_xor push_bit_xor if_xor by (simp only: xor.assoc xor.commute xor.left_commute)

lemma polymod_zero [simp]: "polymod 0 = 0"
  by (simp add: polymod_bits)

lemma polymod_small:
  assumes "take_bit 25 x = x"
  shows "polymod x = push_bit 5 x"
proof -
  have "\<not> bit x n" if "25 \<le> n" for n using that assms by (metis bit_take_bit_iff not_less)
  then show ?thesis using assms by (simp add: polymod_bits)
qed

lemma polymod_range: "polymod x = take_bit 30 (polymod x)"
proof (rule bit_word_eqI)
  fix n assume n: "n < LENGTH(32)"
  have g: "(g :: u32) = take_bit 30 g \<Longrightarrow> 30 \<le> n \<Longrightarrow> \<not> bit g n" for g by (metis bit_take_bit_iff not_less)
  have "\<not> bit (polymod x) n" if "30 \<le> n"
    using that by (auto simp add: polymod_bits bit_xor_iff bit_push_bit_iff bit_take_bit_iff g)
  then show "bit (polymod x) n = bit (take_bit 30 (polymod x)) n" by (cases "n < 30") (simp_all add: bit_take_bit_iff)
qed

text \<open>The step is one to one: the low five bits of the constants are independent.\<close>

lemma polymod_eq_0:
  assumes "polymod x = 0" "take_bit 30 x = x"
  shows "x = 0"
proof -
  have low: "bit (polymod x) k = False" if "k < 32" for k using assms(1) by simp
  have top: "\<not> bit x 25" "\<not> bit x 26" "\<not> bit x 27" "\<not> bit x 28" "\<not> bit x 29"
    using low[of 0] low[of 1] low[of 2] low[of 3] low[of 4]
    by (auto simp: polymod_bits bit_xor_iff bit_push_bit_iff split: if_splits)
  then have z: "push_bit 5 (take_bit 25 x) = 0" using assms(1) by (simp add: polymod_bits)
  show ?thesis
  proof (rule bit_word_eqI)
    fix n assume n: "n < LENGTH(32)"
    have "n < 25 \<or> n = 25 \<or> n = 26 \<or> n = 27 \<or> n = 28 \<or> n = 29 \<or> 30 \<le> n" by arith
    moreover have "\<not> bit x n" if "30 \<le> n" using assms(2) that by (metis bit_take_bit_iff not_less)
    moreover have "\<not> bit x n" if "n < 25"
      using arg_cong[OF z, of "\<lambda>w. bit w (n + 5)"] that by (simp add: bit_push_bit_iff bit_take_bit_iff)
    ultimately show "bit x n = bit 0 n" using top by auto
  qed
qed

text \<open>The checksum over a list of symbols.\<close>

definition feed :: "u32 \<Rightarrow> bytes \<Rightarrow> u32" where
  "feed = foldl (\<lambda>chk c. polymod chk XOR ucast c)"

lemma feed_simps [simp]: "feed chk [] = chk" "feed chk (c # cs) = feed (polymod chk XOR ucast c) cs"
  "feed chk (cs @ ds) = feed (feed chk cs) ds"
  by (simp_all add: feed_def)

lemma polymod_pow_xor: "(polymod ^^ n) (x XOR y) = (polymod ^^ n) x XOR (polymod ^^ n) y"
  by (induction n) (simp_all add: polymod_xor)

lemma feed_linear: "feed (x XOR y) cs = (polymod ^^ length cs) x XOR feed y cs"
proof (induction cs arbitrary: x y)
  case (Cons c cs)
  have "polymod (x XOR y) XOR ucast c = polymod x XOR (polymod y XOR ucast c)"
    by (simp add: polymod_xor xor.assoc)
  then show ?case using Cons by (simp add: funpow_swap1)
qed simp

lemma feed_split: "feed x cs = (polymod ^^ length cs) x XOR feed 0 cs"
  using feed_linear[of x 0 cs] by simp

text \<open>Six symbols that spell a number of thirty bits add exactly that number.\<close>

lemma feed_number:
  "n \<le> 6 \<Longrightarrow> feed 0 (map (\<lambda>j. ucast (drop_bit ((5 - j) * 5) w AND 0x1f)) [0..<n]) =
     drop_bit ((6 - n) * 5) (take_bit 30 (w :: u32))"
proof (induction n)
  case (Suc n)
  let ?k = "(5 - n) * 5"
  let ?m = "drop_bit (?k + 5) (take_bit 30 w)"
  have k: "(6 - n) * 5 = ?k + 5" "(6 - Suc n) * 5 = ?k" using Suc.prems by auto
  have mask: "(0x1f :: u32) = mask 5" by (simp add: mask_eq_exp_minus_1)
  have IH: "feed 0 (map (\<lambda>j. ucast (drop_bit ((5 - j) * 5) w AND 0x1f)) [0..<n]) = ?m" using Suc k(1) by simp
  have "take_bit 25 ?m = ?m" by (rule bit_word_eqI) (auto simp: bit_simps)
  note p = polymod_small[OF this]
  have sym: "(ucast (ucast (drop_bit ?k w AND 0x1f) :: u8) :: u32) = take_bit 5 (drop_bit ?k w)"
    unfolding mask by (rule bit_word_eqI) (auto simp: bit_simps)
  have "push_bit 5 ?m XOR take_bit 5 (drop_bit ?k w) = drop_bit ?k (take_bit 30 w)"
  proof (rule bit_word_eqI)
    fix i assume i: "i < LENGTH(32)"
    have "?k + i < 30" if "i < 5" using that by auto
    then show "bit (push_bit 5 ?m XOR take_bit 5 (drop_bit ?k w)) i = bit (drop_bit ?k (take_bit 30 w)) i"
      using i by (cases "i < 5") (auto simp: bit_simps add.assoc)
  qed
  then show ?case unfolding k(2) by (simp add: IH p sym)
qed (simp add: drop_bit_take_bit)

lemma feed_checksum_symbols:
  assumes "take_bit 30 chk = chk"
  shows "feed 0 (checksum_symbols chk) = chk"
  using feed_number[of 6 chk] assms by (simp add: checksum_symbols_def)

text \<open>A changed symbol changes the checksum, whatever follows it.\<close>

lemma polymod_pow_neq_0: "x \<noteq> 0 \<Longrightarrow> take_bit 30 x = x \<Longrightarrow> (polymod ^^ n) x \<noteq> 0"
proof (induction n)
  case (Suc n)
  have "take_bit 30 ((polymod ^^ n) x) = (polymod ^^ n) x"
    using Suc.prems(2) polymod_range by (cases n) simp_all
  then show ?case using Suc polymod_eq_0 by auto
qed simp

lemma xor_right_cancel: "x XOR z = y XOR z \<Longrightarrow> x = y" for x y z :: u32
proof -
  assume "x XOR z = y XOR z"
  then have "(x XOR z) XOR z = (y XOR z) XOR z" by (rule arg_cong)
  then show "x = y" by (simp add: xor.assoc)
qed

lemma feed_one_symbol:
  assumes "unat c < 32" "unat d < 32" "c \<noteq> d"
  shows "feed chk (xs @ c # ys) \<noteq> feed chk (xs @ d # ys)"
proof
  let ?p = "polymod (feed chk xs)"
  assume "feed chk (xs @ c # ys) = feed chk (xs @ d # ys)"
  then have "feed (?p XOR ucast c) ys = feed (?p XOR ucast d) ys" by simp
  then have "(polymod ^^ length ys) (?p XOR ucast c) XOR feed 0 ys = (polymod ^^ length ys) (?p XOR ucast d) XOR feed 0 ys"
    by (simp only: feed_split[of "?p XOR ucast c" ys] feed_split[of "?p XOR ucast d" ys])
  then have "(polymod ^^ length ys) (?p XOR ucast c) = (polymod ^^ length ys) (?p XOR ucast d)" by (rule xor_right_cancel)
  then have "(polymod ^^ length ys) ?p XOR (polymod ^^ length ys) (ucast c) =
      (polymod ^^ length ys) ?p XOR (polymod ^^ length ys) (ucast d)" by (simp only: polymod_pow_xor)
  then have "(polymod ^^ length ys) (ucast c) = (polymod ^^ length ys) (ucast d)"
    by (metis xor_right_cancel xor.commute)
  then have "(polymod ^^ length ys) (ucast c XOR ucast d) = 0" by (simp only: polymod_pow_xor xor_self_eq)
  moreover have "take_bit 30 (ucast c XOR ucast d :: u32) = ucast c XOR ucast d"
    by (rule bit_word_eqI) (auto simp: bit_simps dest: bit_imp_le_length)
  ultimately have "(ucast c XOR ucast d :: u32) = 0" using polymod_pow_neq_0 by blast
  then have "(ucast c :: u32) = ucast d" by (rule xor_right_cancel[where z = "ucast d", OF trans]) simp
  then have "ucast (ucast c :: u32) = (ucast (ucast d :: u32) :: u8)" by (rule arg_cong)
  then show False using assms(3) by (simp only: ub32)
qed

section \<open>Regrouping bits\<close>

text \<open>Bit \<open>p\<close> of a byte string and of a symbol string, the most significant bit first.\<close>

definition byte_bit :: "bytes \<Rightarrow> nat \<Rightarrow> bool" where "byte_bit bs p = bit (bs ! (p div 8)) (7 - p mod 8)"
definition sym_bit :: "bytes \<Rightarrow> nat \<Rightarrow> bool" where "sym_bit cs p = bit (cs ! (p div 5)) (4 - p mod 5)"

definition new_symbols :: "nat \<Rightarrow> nat \<Rightarrow> u8 \<Rightarrow> u8 \<Rightarrow> bytes" where
  "new_symbols n j a b =
     (let x = 8 * j mod 5
      in (if j < n \<or> j mod 5 > 0 then [ucast ((push_bit (5 - x) (ucast a) OR drop_bit (3 + x) (ucast b)) AND (0x1f :: u32))] else []) @
         (if x \<ge> 2 \<and> j < n then [ucast (drop_bit (x - 2) (ucast b) AND (0x1f :: u32))] else []))"

lemma pending_bits: "(j mod 5) * 8 - ((j mod 5) * 8 div 5) * 5 = 8 * j mod (5 :: nat)"
  by (metis minus_mult_div_eq_mod mod_mult_right_eq mult.commute)

lemma written_bits: "(j mod 8) * 5 - ((j mod 8) * 5 div 8) * 8 = 5 * j mod (8 :: nat)"
  by (metis minus_mult_div_eq_mod mod_mult_right_eq mult.commute)

lemma written_byte: "(j div 8) * 5 + (j mod 8) * 5 div 8 = 5 * j div (8 :: nat)"
proof -
  have "5 * j = (j mod 8) * 5 + ((j div 8) * 5) * 8" using div_mult_mod_eq[of j 8] by linarith
  then have "5 * j div 8 = (j div 8) * 5 + (j mod 8) * 5 div 8" by (metis div_mult_self1 zero_neq_numeral add.commute)
  then show ?thesis by simp
qed

lemma regroup_new:
  "regroup data (chk, out, a) j =
     (let n = unat (data ! 1); b = (if j < n then data ! (2 + j) else 0); cs = new_symbols n j a b
      in (feed chk cs, out @ cs, b))"
  unfolding regroup_def pending_bits new_symbols_def by (auto simp: Let_def)

lemma first_symbol_bit:
  assumes "i < 5" "x < 5"
  shows "bit (ucast ((push_bit (5 - x) (ucast a) OR drop_bit (3 + x) (ucast b)) AND (0x1f :: u32)) :: u8) (4 - i) =
    (if i < x then bit (a :: u8) (x - i - 1) else bit (b :: u8) (7 - (i - x)))"
proof -
  have mask: "(0x1f :: u32) = mask 5" by (simp add: mask_eq_exp_minus_1)
  have "\<not> bit b (7 + x - i)" if "i < x" using that bit_imp_le_length[of b "7 + x - i"] by auto
  then show ?thesis using assms unfolding mask by (auto simp: bit_simps)
qed

lemma second_symbol_bit:
  assumes "i < 5" "2 \<le> x" "x < 5"
  shows "bit (ucast (drop_bit (x - 2) (ucast b) AND (0x1f :: u32)) :: u8) (4 - i) = bit (b :: u8) (2 + x - i)"
proof -
  have mask: "(0x1f :: u32) = mask 5" by (simp add: mask_eq_exp_minus_1)
  show ?thesis using assms unfolding mask by (auto simp: bit_simps)
qed

lemma symbol_small: "unat (ucast (w AND (0x1f :: u32)) :: u8) < 32"
proof -
  have mask: "(0x1f :: u32) = mask 5" by (simp add: mask_eq_exp_minus_1)
  have "ucast (w AND (0x1f :: u32)) = take_bit 5 (ucast w :: u8)" unfolding mask by (rule bit_word_eqI) (auto simp: bit_simps)
  then show ?thesis by (simp add: unsigned_take_bit_eq take_bit_nat_less_exp[of 5, simplified])
qed

lemma new_symbols_small: "c \<in> set (new_symbols n j a b) \<Longrightarrow> unat c < 32"
  by (auto simp: new_symbols_def Let_def symbol_small split: if_splits)

definition regrouped :: "nat \<Rightarrow> bytes \<Rightarrow> nat \<Rightarrow> bytes \<Rightarrow> bool" where
  "regrouped n bs j cs \<longleftrightarrow> length cs = 8 * j div 5 \<and> list_all (\<lambda>c. unat c < 32) cs \<and>
     (\<forall>p < 5 * length cs. sym_bit cs p = byte_bit bs p)"

lemma sym_bit_append:
  "sym_bit (cs @ ds) p = (if p < 5 * length cs then sym_bit cs p else sym_bit ds (p - 5 * length cs))"
proof -
  have "(p - 5 * l) mod 5 = p mod 5" if "5 * l \<le> p" for l :: nat
    using that by (metis le_add_diff_inverse mod_mult_self4 add.commute mult.commute mod_mult_self2)
  moreover have "p div 5 < l \<longleftrightarrow> p < 5 * l" for l by auto
  moreover have "p div 5 - l = (p - 5 * l) div 5" for l :: nat by (simp add: div_le_mono)
  ultimately show ?thesis by (auto simp: sym_bit_def nth_append)
qed

lemma sym_bit_one: "i < 5 \<Longrightarrow> sym_bit (c # cs) i = bit c (4 - i)"
  by (simp add: sym_bit_def)

lemma byte_bit_at: "r < 8 \<Longrightarrow> byte_bit bs (8 * k + r) = bit (bs ! k) (7 - r)"
  by (simp add: byte_bit_def)

lemma byte_bit_near:
  assumes "5 * l + x = 8 * j" "x < 5" "i < 5"
  shows "byte_bit bs (5 * l + i) = (if i < x then bit (bs ! (j - 1)) (x - i - 1) else bit (bs ! j) (7 - (i - x)))"
proof (cases "i < x")
  case True
  then have "5 * l + i = 8 * (j - 1) + (8 - (x - i))" "7 - (8 - (x - i)) = x - i - 1"
    using assms by (cases j; auto)+
  then show ?thesis using True assms(2) byte_bit_at[of "8 - (x - i)" bs "j - 1"] by simp
next
  case False
  then have "5 * l + i = 8 * j + (i - x)" using assms by auto
  then show ?thesis using False assms(3) byte_bit_at[of "i - x" bs j] by simp
qed

lemma byte_bit_next:
  assumes "5 * l + x = 8 * j" "2 \<le> x" "x < 5" "i < 5"
  shows "byte_bit bs (5 * (l + 1) + i) = bit (bs ! j) (2 + x - i)"
proof -
  have "5 * (l + 1) + i = 8 * j + (5 + i - x)" "7 - (5 + i - x) = 2 + x - i" using assms by auto
  then show ?thesis using assms byte_bit_at[of "5 + i - x" bs j] by simp
qed

lemma next_length:
  "8 * (j + 1) div 5 = 8 * j div 5 + (if 2 \<le> 8 * j mod 5 then 2 else 1)" for j :: nat
proof -
  define l x where "l = 8 * j div 5" and "x = 8 * j mod 5"
  have "8 * (j + 1) = 5 * l + x + 8" "x < 5" by (simp_all add: l_def x_def)
  then show ?thesis unfolding l_def[symmetric] x_def[symmetric] by auto
qed

lemma regroup_step:
  assumes inv: "regrouped n bs j cs" and j: "j < n" and n: "length bs = n"
    and a: "a = (if j = 0 then 0 else bs ! (j - 1))"
  shows "regrouped n bs (j + 1) (cs @ new_symbols n j a (bs ! j))"
proof -
  define l x where "l = 8 * j div 5" and "x = 8 * j mod 5"
  have lx: "5 * l + x = 8 * j" "x < 5" by (simp_all add: l_def x_def)
  let ?c1 = "ucast ((push_bit (5 - x) (ucast a) OR drop_bit (3 + x) (ucast (bs ! j))) AND (0x1f :: u32)) :: u8"
  let ?c2 = "ucast (drop_bit (x - 2) (ucast (bs ! j)) AND (0x1f :: u32)) :: u8"
  have new: "new_symbols n j a (bs ! j) = ?c1 # (if 2 \<le> x then [?c2] else [])"
    using j by (simp add: new_symbols_def x_def[symmetric] Let_def)
  have len: "length cs = l" using inv by (simp add: regrouped_def l_def)
  have one: "sym_bit (?c1 # ds) i = byte_bit bs (5 * l + i)" if "i < 5" for i ds
  proof -
    have "a = bs ! (j - 1)" if "i < x" using that a lx by (cases j) auto
    then show ?thesis unfolding sym_bit_one[OF that] first_symbol_bit[OF that lx(2)] byte_bit_near[OF lx that] by simp
  qed
  have two: "sym_bit (?c1 # ?c2 # []) (5 + i) = byte_bit bs (5 * (l + 1) + i)" if "i < 5" "2 \<le> x" for i
    using that lx second_symbol_bit[OF that lx(2)] byte_bit_next[OF lx(1) that(2) lx(2) that(1)]
      sym_bit_append[of "[?c1]" "[?c2]" "5 + i"] by (simp add: sym_bit_one)
  have "sym_bit (cs @ new_symbols n j a (bs ! j)) p = byte_bit bs p"
    if p: "p < 5 * length (cs @ new_symbols n j a (bs ! j))" for p
  proof (cases "p < 5 * l")
    case True
    then show ?thesis using inv by (simp add: sym_bit_append len regrouped_def)
  next
    case False
    define i where "i = p - 5 * l"
    have pi: "p = 5 * l + i" using False by (simp add: i_def)
    show ?thesis
    proof (cases "i < 5")
      case True
      then show ?thesis using one by (simp add: sym_bit_append len new pi)
    next
      case False
      then have x: "2 \<le> x" and i5: "i - 5 < 5" using p by (auto simp: pi new len split: if_splits)
      have "5 * l + i = 5 * (l + 1) + (i - 5)" using False by auto
      then show ?thesis using two[OF i5 x] False x by (simp add: sym_bit_append len new pi)
    qed
  qed
  moreover have "length (cs @ new_symbols n j a (bs ! j)) = 8 * (j + 1) div 5"
    unfolding next_length by (simp add: len new l_def x_def)
  ultimately show ?thesis using inv new_symbols_small by (auto simp: regrouped_def list_all_iff)
qed

lemma regroup_fold:
  assumes n: "n = unat (data ! 1)" and len: "2 + n \<le> length data" and "j \<le> n"
  defines "bs \<equiv> take n (drop 2 data)"
  shows "\<exists>cs. foldl (regroup data) (chk, out, 0) [0..<j] = (feed chk cs, out @ cs, if j = 0 then 0 else bs ! (j - 1)) \<and>
    regrouped n bs j cs"
  using assms(3)
proof (induction j)
  case 0
  show ?case by (simp add: regrouped_def)
next
  case (Suc j)
  then obtain cs where cs: "foldl (regroup data) (chk, out, 0) [0..<j] = (feed chk cs, out @ cs, if j = 0 then 0 else bs ! (j - 1))"
    "regrouped n bs j cs" by auto
  have b: "data ! (2 + j) = bs ! j" "length bs = n" using Suc.prems len by (simp_all add: bs_def)
  let ?new = "new_symbols n j (if j = 0 then 0 else bs ! (j - 1)) (bs ! j)"
  have "foldl (regroup data) (chk, out, 0) [0..<Suc j] = (feed chk (cs @ ?new), out @ (cs @ ?new), bs ! j)"
    using Suc.prems b(1) by (simp add: cs(1) regroup_new n[symmetric, simplified] Let_def)
  moreover have "regrouped n bs (j + 1) (cs @ ?new)" using Suc.prems b by (intro regroup_step cs(2)) simp_all
  ultimately show ?case by (intro exI[of _ "cs @ ?new"]) simp
qed

lemma new_symbols_end:
  "new_symbols n n a 0 = (if 8 * n mod 5 > 0
     then [ucast ((push_bit (5 - 8 * n mod 5) (ucast a) OR drop_bit (3 + 8 * n mod 5) (ucast (0 :: u8))) AND (0x1f :: u32))] else [])"
proof -
  have "8 * n mod 5 = 8 * (n mod 5) mod 5" by (simp only: mod_mult_right_eq)
  moreover have "n mod 5 = 0 \<or> n mod 5 = 1 \<or> n mod 5 = 2 \<or> n mod 5 = 3 \<or> n mod 5 = 4"
    using mod_less_divisor[of 5 n] by linarith
  ultimately have "8 * n mod 5 > 0 \<longleftrightarrow> n mod 5 > 0" by auto
  then show ?thesis by (simp add: new_symbols_def Let_def)
qed

text \<open>The whole regrouping: the symbols spell the bits of the program, then zeros.\<close>

lemma regroup_all:
  assumes n: "n = unat (data ! 1)" and len: "2 + n \<le> length data"
  defines "bs \<equiv> take n (drop 2 data)"
  obtains cs where "foldl (regroup data) (chk, out, 0) [0..<n + 1] = (feed chk cs, out @ cs, 0)"
    "length cs = (8 * n + 4) div 5" "list_all (\<lambda>c. unat c < 32) cs"
    "\<And>p. p < 8 * n \<Longrightarrow> sym_bit cs p = byte_bit bs p"
proof -
  let ?a = "if n = 0 then 0 else bs ! (n - 1)"
  obtain cs where cs: "foldl (regroup data) (chk, out, 0) [0..<n] = (feed chk cs, out @ cs, ?a)" "regrouped n bs n cs"
    using regroup_fold[OF n len order.refl, of chk out] unfolding bs_def by blast
  define l x where "l = 8 * n div 5" and "x = 8 * n mod 5"
  have lx: "5 * l + x = 8 * n" "x < 5" by (simp_all add: l_def x_def)
  let ?new = "new_symbols n n ?a 0"
  have new: "?new = (if x > 0 then [ucast ((push_bit (5 - x) (ucast ?a) OR drop_bit (3 + x) (ucast (0 :: u8))) AND (0x1f :: u32))] else [])"
    unfolding new_symbols_end x_def ..
  have l: "length cs = l" using cs(2) by (simp add: regrouped_def l_def)
  show ?thesis
  proof
    show "foldl (regroup data) (chk, out, 0) [0..<n + 1] = (feed chk (cs @ ?new), out @ (cs @ ?new), 0)"
      by (simp add: cs(1) regroup_new n[symmetric, simplified] Let_def)
    show "length (cs @ ?new) = (8 * n + 4) div 5"
      using lx by (simp add: new l) linarith
    show "list_all (\<lambda>c. unat c < 32) (cs @ ?new)"
      using cs(2) new_symbols_small by (auto simp: regrouped_def list_all_iff)
    show "sym_bit (cs @ ?new) p = byte_bit bs p" if p: "p < 8 * n" for p
    proof (cases "p < 5 * l")
      case True
      then show ?thesis using cs(2) by (simp add: sym_bit_append l regrouped_def)
    next
      case False
      define i where "i = p - 5 * l"
      have pi: "p = 5 * l + i" "i < x" "i < 5" "0 < x" using False p lx by (auto simp: i_def)
      let ?c = "ucast ((push_bit (5 - x) (ucast ?a) OR drop_bit (3 + x) (ucast (0 :: u8))) AND (0x1f :: u32)) :: u8"
      have "sym_bit (cs @ ?new) (5 * l + i) = sym_bit ?new i" unfolding sym_bit_append l by simp
      also have "\<dots> = bit ?c (4 - i)" unfolding new using pi(4) by (simp only: if_True sym_bit_one[OF pi(3)])
      also have "\<dots> = bit ?a (x - i - 1)" unfolding first_symbol_bit[OF pi(3) lx(2)] using pi(2) by simp
      also have "\<dots> = byte_bit bs (5 * l + i)" unfolding byte_bit_near[OF lx pi(3)] using pi(2) p by simp
      finally show ?thesis unfolding pi(1) .
    qed
  qed
qed

section \<open>Writing symbols into bytes\<close>

lemma small_symbol_bit:
  assumes "unat c < 32" "5 \<le> i"
  shows "\<not> bit c i"
proof
  assume "bit c i"
  then have "bit (unat c) i" by (simp add: bit_unsigned_iff)
  moreover have "(32 :: nat) \<le> 2 ^ i" using power_increasing[OF assms(2), of "2 :: nat"] by simp
  ultimately show False using assms(1) by (simp add: bit_iff_odd)
qed

lemma put_symbol_bit:
  assumes c: "unat c < 32" and buf: "5 * j div 8 + 1 < length buf" and p: "p < 8 * length buf"
  shows "byte_bit (put_symbol buf j c) p \<longleftrightarrow> byte_bit buf p \<or> (5 * j \<le> p \<and> p < 5 * j + 5 \<and> bit c (4 - (p - 5 * j)))"
proof -
  define x k where "x = 5 * j mod 8" and "k = 5 * j div 8"
  have j: "5 * j = 8 * k + x" "x < 8" by (simp_all add: x_def k_def)
  define m r where "m = p div 8" and "r = p mod 8"
  have pm: "p = 8 * m + r" "r < 8" by (simp_all add: m_def r_def)
  note hi = small_symbol_bit[OF c]
  let ?w1 = "ucast (drop_bit x (push_bit 3 (ucast c :: u32))) :: u8"
  let ?w2 = "ucast (push_bit (11 - x) (ucast c :: u32)) :: u8"
  have put: "put_symbol buf j c = (if x > 3 then (buf[k := buf ! k OR ?w1])[k + 1 := buf ! (k + 1) OR ?w2] else buf[k := buf ! k OR ?w1])"
    unfolding put_symbol_def written_bits written_byte by (simp add: Let_def x_def k_def)
  have b1: "bit ?w1 (7 - r) \<longleftrightarrow> x \<le> r \<and> r < x + 5 \<and> bit c (4 + x - r)"
  proof -
    have "x \<le> r" if "bit c (4 + x - r)"
    proof (rule ccontr)
      assume "\<not> x \<le> r"
      then have "5 \<le> 4 + x - r" by simp
      then show False using hi that by blast
    qed
    moreover have "x + 7 - r - 3 = 4 + x - r" by simp
    ultimately show ?thesis using pm(2) j(2) by (auto simp: bit_simps)
  qed
  have b2: "bit ?w2 (7 - r) \<longleftrightarrow> r + 4 \<le> x \<and> bit c (x - r - 4)"
    using pm(2) j(2) by (auto simp: bit_simps add.commute[of r 4])
  have len: "k + 1 < length buf" "m < length buf" using buf p by (simp_all add: k_def m_def)
  consider "m = k" | "m = k + 1" | "m < k" | "k + 1 < m" by linarith
  then show ?thesis
  proof cases
    case 1
    then have "5 * j \<le> p \<longleftrightarrow> x \<le> r" "p < 5 * j + 5 \<longleftrightarrow> r < x + 5" "p - 5 * j = r - x" using j pm by auto
    moreover have "4 - (r - x) = 4 + x - r" if "x \<le> r" using that by auto
    ultimately show ?thesis using 1 b1 len by (auto simp: put byte_bit_def m_def[symmetric] r_def[symmetric] bit_or_iff)
  next
    case 2
    then have "5 * j \<le> p" "p < 5 * j + 5 \<longleftrightarrow> r + 4 \<le> x" "p - 5 * j = 8 + r - x" using j pm by auto
    moreover have "4 - (8 + r - x) = x - r - 4" if "r + 4 \<le> x" using that j(2) by auto
    ultimately show ?thesis using 2 b2 len by (auto simp: put byte_bit_def m_def[symmetric] r_def[symmetric] bit_or_iff)
  next
    case 3
    then have "\<not> 5 * j \<le> p" using j pm by auto
    then show ?thesis using 3 by (simp add: put byte_bit_def m_def[symmetric])
  next
    case 4
    then have "\<not> p < 5 * j + 5" using j pm by auto
    then show ?thesis using 4 by (simp add: put byte_bit_def m_def[symmetric])
  qed
qed

lemma length_put_symbol [simp]: "length (put_symbol buf j c) = length buf"
  by (simp add: put_symbol_def Let_def)

fun puts :: "bytes \<Rightarrow> nat \<Rightarrow> bytes \<Rightarrow> bytes" where
  "puts buf j [] = buf"
| "puts buf j (c # cs) = puts (put_symbol buf j c) (Suc j) cs"

lemma length_puts [simp]: "length (puts buf j cs) = length buf"
  by (induction cs arbitrary: buf j) simp_all

lemma puts_bit:
  "list_all (\<lambda>c. unat c < 32) cs \<Longrightarrow> 5 * (j + length cs) div 8 + 1 < length buf \<Longrightarrow> p < 8 * length buf \<Longrightarrow>
     byte_bit (puts buf j cs) p \<longleftrightarrow> byte_bit buf p \<or> (5 * j \<le> p \<and> p < 5 * (j + length cs) \<and> sym_bit cs (p - 5 * j))"
proof (induction cs arbitrary: buf j)
  case (Cons c cs)
  have "5 * j div 8 \<le> 5 * (j + length (c # cs)) div 8" by (rule div_le_mono) simp
  then have fits: "5 * j div 8 + 1 < length buf" using Cons.prems(2) by linarith
  have IH: "byte_bit (puts buf j (c # cs)) p \<longleftrightarrow> byte_bit (put_symbol buf j c) p \<or>
      (5 * Suc j \<le> p \<and> p < 5 * (Suc j + length cs) \<and> sym_bit cs (p - 5 * Suc j))"
    using Cons.prems by (simp add: Cons.IH)
  have "sym_bit (c # cs) (p - 5 * j) = sym_bit cs (p - 5 * Suc j)" if "5 * Suc j \<le> p"
  proof -
    have "p - 5 * j - 5 * length [c] = p - 5 * Suc j" "\<not> p - 5 * j < 5 * length [c]" using that by auto
    then show ?thesis using sym_bit_append[of "[c]" cs "p - 5 * j"] by (simp only: append.simps if_False)
  qed
  moreover have "sym_bit (c # cs) (p - 5 * j) = bit c (4 - (p - 5 * j))" if "p < 5 * j + 5"
    using that by (intro sym_bit_one) simp
  ultimately show ?case
    using Cons.prems(1,3) put_symbol_bit[OF _ fits, of c p] unfolding IH
    by (cases "p < 5 * j + 5") auto
qed auto

lemma symLoop_data:
  "map bech32_digit chs = map Some ds \<Longrightarrow> i + length chs = addrLen \<Longrightarrow>
     symLoop addrLen chs i (Suc j) chk ver buf = Some (feed chk ds, ver, puts buf j (take (length ds - 6) ds))"
proof (induction chs arbitrary: ds i j chk buf)
  case (Cons ch chs)
  then obtain d ds' where ds: "ds = d # ds'" "bech32_digit ch = Some d" "map bech32_digit chs = map Some ds'" by auto
  have len: "length chs = length ds'" using arg_cong[OF ds(3), of length] by simp
  note IH = Cons.IH[OF ds(3), of "Suc i" "Suc j"]
  show ?case
  proof (cases "length chs < 6")
    case True
    then have "length ds' - 6 = 0" "length ds - 6 = 0" using len ds(1) by simp_all
    then show ?thesis using True Cons.prems(2) IH ds(1,2) by simp
  next
    case False
    then have "length ds - 6 = Suc (length ds' - 6)" using len ds(1) by simp
    then show ?thesis using False Cons.prems(2) IH ds(1,2) by simp
  qed
qed simp

lemma symLoop_all:
  assumes "map bech32_digit chs = map Some (v # ds)" "i + length chs = addrLen"
  shows "symLoop addrLen chs i 0 chk ver buf = Some (feed chk (v # ds), v, puts buf 0 (take (length ds - 6) ds))"
proof -
  obtain ch chs' where "chs = ch # chs'" "bech32_digit ch = Some v" "map bech32_digit chs' = map Some ds"
    using assms(1) by (cases chs) auto
  then show ?thesis using symLoop_data[of chs' ds "Suc i" addrLen 0] assms(2) by simp
qed

lemma symLoop_digits:
  "symLoop addrLen chs i k chk ver buf = Some r \<Longrightarrow> \<exists>ds. map bech32_digit chs = map Some ds"
proof (induction chs arbitrary: i k chk ver buf)
  case (Cons ch chs)
  then obtain c where c: "bech32_digit ch = Some c" by (cases "bech32_digit ch") auto
  then have "\<exists>ds. map bech32_digit chs = map Some ds"
    using Cons.prems by (auto simp: Let_def split: if_splits dest: Cons.IH)
  then obtain ds where "map bech32_digit chs = map Some ds" ..
  then show ?case using c by (intro exI[of _ "c # ds"]) simp
qed simp

section \<open>The alphabet and the separator\<close>

lemma bech32_digit_map: "map bech32_digit bech32_chars = map (\<lambda>d. Some (of_nat d)) [0..<32]"
  by (simp add: bech32_chars_def bech32_digit_def tolower_def isupper_def in_range_def upt_rec)

lemma length_bech32_chars [simp]: "length bech32_chars = 32"
  by (simp add: bech32_chars_def)

lemma bech32_digit_of_char: "unat d < 32 \<Longrightarrow> bech32_digit (bech32_chars ! unat d) = Some d"
  using arg_cong[OF bech32_digit_map, of "\<lambda>xs. xs ! unat d"] by simp

lemma bech32_chars_plain: "list_all (\<lambda>c. printable c \<and> \<not> isupper c \<and> c \<noteq> CHR ''1'') bech32_chars"
  by (simp add: bech32_chars_def printable_def isupper_def in_range_def)

lemma bech32_char_plain: "unat d < 32 \<Longrightarrow> printable (bech32_chars ! unat d) \<and> \<not> isupper (bech32_chars ! unat d) \<and> bech32_chars ! unat d \<noteq> CHR ''1''"
  using bech32_chars_plain by (simp add: list_all_length)

lemma tolower_id: "\<not> isupper c \<Longrightarrow> tolower c = c"
  by (simp add: tolower_def)

lemma sepLoop_found:
  assumes "CHR ''1'' \<notin> set rest"
  shows "m \<le> length rest + 1 \<Longrightarrow> sepLoop (hrp @ CHR ''1'' # rest) (length hrp + m) = length hrp"
proof (induction m)
  case 0
  show ?case by (cases "length hrp") (simp_all add: nth_append)
next
  case (Suc m)
  have "(rest @ [CHR 0x00]) ! m \<noteq> CHR ''1''"
    using assms Suc.prems by (auto simp: nth_append in_set_conv_nth)
  then have "((hrp @ CHR ''1'' # rest) @ [CHR 0x00]) ! Suc (length hrp + m) \<noteq> CHR ''1''"
    by (simp add: nth_append)
  then show ?case using Suc by simp
qed

section \<open>Round trip\<close>

lemma bytes_eq_bits:
  assumes "length xs = length ys" "\<And>p. p < 8 * length xs \<Longrightarrow> byte_bit xs p = byte_bit ys p"
  shows "xs = ys"
proof (rule nth_equalityI)
  fix i assume i: "i < length xs"
  show "xs ! i = ys ! i"
  proof (rule bit_word_eqI)
    fix n assume n: "n < LENGTH(8)"
    have "8 * i + (7 - n) < 8 * length xs" using i by linarith
    from assms(2)[OF this] show "bit (xs ! i) n = bit (ys ! i) n" using n by (simp add: byte_bit_at)
  qed
qed (rule assms(1))

definition witness_version :: "u8 \<Rightarrow> u8" where
  "witness_version op = (if op \<ge> OP_1 then op + 1 - OP_1 else 0)"

definition program_ok :: "bytes \<Rightarrow> bool" where
  "program_ok data \<longleftrightarrow> 2 + unat (data ! 1) \<le> length data \<and> 2 \<le> unat (data ! 1) \<and> unat (data ! 1) \<le> 40 \<and>
     (data ! 0 = OP_0 \<or> OP_1 \<le> data ! 0 \<and> data ! 0 \<le> OP_16)"

definition hrp_ok :: "string \<Rightarrow> bool" where
  "hrp_ok hrp \<longleftrightarrow> length hrp \<le> 84 \<and> list_all (\<lambda>c. printable c \<and> \<not> isupper c) hrp"

definition hrp_checksum :: "string \<Rightarrow> u32" where
  "hrp_checksum hrp = hrp_low (polymod (hrp_high 1 hrp)) hrp"

lemma version_opcode:
  assumes "op = OP_0 \<or> OP_1 \<le> op \<and> op \<le> OP_16"
  shows "witness_version op \<le> 16" "(if witness_version op = 0 then OP_0 else witness_version op + OP_1 - 1) = op"
proof -
  have "witness_version op \<le> 16 \<and> (if witness_version op = 0 then OP_0 else witness_version op + OP_1 - 1) = op"
  proof (cases "op = OP_0")
    case False
    then have le: "OP_1 \<le> op" "op \<le> OP_16" using assms by auto
    then have u: "0x51 \<le> unat op" "unat op \<le> 0x60" by (simp_all add: OP_1_def OP_16_def word_le_nat_alt)
    have "unat (op + 1 - OP_1) = unat op - 0x50"
    proof -
      have "op + 1 - OP_1 = op - 0x50" by (simp add: OP_1_def)
      then show ?thesis unfolding \<open>op + 1 - OP_1 = _\<close> using u by (simp add: unat_sub word_le_nat_alt)
    qed
    then have v: "unat (witness_version op) = unat op - 0x50" using le(1) by (simp add: witness_version_def)
    then have "witness_version op \<noteq> 0" "witness_version op \<le> 16" using u by (auto simp: word_le_nat_alt)
    moreover have "witness_version op + OP_1 - 1 = op" using le(1) by (simp add: witness_version_def)
    ultimately show ?thesis by simp
  qed (simp add: witness_version_def OP_0_def OP_1_def)
  then show "witness_version op \<le> 16" "(if witness_version op = 0 then OP_0 else witness_version op + OP_1 - 1) = op" by simp_all
qed

lemma encode_form:
  assumes "hrp_ok hrp" "program_ok data"
  obtains cs where
    "BRBech32Encode hrp data =
       (let ver = witness_version (data ! 0);
            chk = (polymod ^^ 6) (feed (hrp_checksum hrp) (ver # cs)) XOR checksum_const ver;
            addr = hrp @ CHR ''1'' # map (\<lambda>c. bech32_chars ! unat c) (ver # cs @ checksum_symbols chk)
        in if length addr < 91 then Some (length addr + 1, addr) else None)"
    "length cs = (8 * unat (data ! 1) + 4) div 5" "list_all (\<lambda>c. unat c < 32) cs"
    "\<And>p. p < 8 * unat (data ! 1) \<Longrightarrow> sym_bit cs p = byte_bit (take (unat (data ! 1)) (drop 2 data)) p"
proof -
  let ?ver = "witness_version (data ! 0)"
  obtain cs where cs: "foldl (regroup data) (polymod (hrp_checksum hrp) XOR ucast ?ver, [?ver], 0) [0..<unat (data ! 1) + 1] =
      (feed (polymod (hrp_checksum hrp) XOR ucast ?ver) cs, [?ver] @ cs, 0)"
    "length cs = (8 * unat (data ! 1) + 4) div 5" "list_all (\<lambda>c. unat c < 32) cs"
    "\<And>p. p < 8 * unat (data ! 1) \<Longrightarrow> sym_bit cs p = byte_bit (take (unat (data ! 1)) (drop 2 data)) p"
    using assms(2) by (elim regroup_all[OF refl, of data "polymod (hrp_checksum hrp) XOR ucast ?ver" "[?ver]", rotated]) (simp_all add: program_ok_def)
  have ok: "\<not> (length hrp > 84 \<or> \<not> list_all (\<lambda>c. printable c \<and> \<not> isupper c) hrp)" using assms(1) by (simp add: hrp_ok_def)
  have len: "\<not> length data < 2" "\<not> length data < 2 + unat (data ! 1)" using assms(2) by (simp_all add: program_ok_def)
  have op: "\<not> (data ! 0 > OP_0 \<and> data ! 0 < OP_1)" using assms(2) by (auto simp: program_ok_def)
  have n: "\<not> (?ver > 16 \<or> data ! 1 < 2 \<or> data ! 1 > 40)"
    using assms(2) version_opcode(1)[of "data ! 0"] by (simp add: program_ok_def word_less_nat_alt word_le_nat_alt not_less)
  show ?thesis
  proof (rule that[OF _ cs(2,3,4)])
    show "BRBech32Encode hrp data =
       (let ver = ?ver; chk = (polymod ^^ 6) (feed (hrp_checksum hrp) (ver # cs)) XOR checksum_const ver;
            addr = hrp @ CHR ''1'' # map (\<lambda>c. bech32_chars ! unat c) (ver # cs @ checksum_symbols chk)
        in if length addr < 91 then Some (length addr + 1, addr) else None)"
      unfolding BRBech32Encode_def if_not_P[OF ok] if_not_P[OF len(1)] if_not_P[OF op] if_not_P[OF len(2)]
        witness_version_def[symmetric] hrp_checksum_def[symmetric] if_not_P[OF n] Let_def cs(1) by simp
  qed
qed

lemma encode_accepts:
  assumes "BRBech32Encode hrp data = Some (i, s)" "i \<noteq> 0"
  shows "hrp_ok hrp" "program_ok data"
proof -
  let ?ver = "witness_version (data ! 0)"
  have 1: "\<not> (length hrp > 84 \<or> \<not> list_all (\<lambda>c. printable c \<and> \<not> isupper c) hrp)"
  proof
    assume "length hrp > 84 \<or> \<not> list_all (\<lambda>c. printable c \<and> \<not> isupper c) hrp"
    then have "BRBech32Encode hrp data = Some (0, [])" unfolding BRBech32Encode_def by (rule if_P)
    then show False using assms by simp
  qed
  note d = assms(1)[unfolded BRBech32Encode_def if_not_P[OF 1] Let_def witness_version_def[symmetric]]
  have 2: "\<not> length data < 2" using d by auto
  note d = d[unfolded if_not_P[OF 2]]
  have 3: "\<not> (data ! 0 > OP_0 \<and> data ! 0 < OP_1)" using d assms(2) by auto
  note d = d[unfolded if_not_P[OF 3]]
  have 4: "\<not> (?ver > 16 \<or> data ! 1 < 2 \<or> data ! 1 > 40)" using d assms(2) by auto
  note d = d[unfolded if_not_P[OF 4]]
  have 5: "\<not> length data < 2 + unat (data ! 1)" using d by auto
  show "hrp_ok hrp" using 1 by (simp add: hrp_ok_def)
  have "data ! 0 = OP_0 \<or> OP_1 \<le> data ! 0 \<and> data ! 0 \<le> OP_16"
  proof (cases "data ! 0 = OP_0")
    case False
    then have le: "OP_1 \<le> data ! 0" using 3 by (auto simp: OP_0_def word_gt_0 not_less)
    then have u: "0x51 \<le> unat (data ! 0)" by (simp add: OP_1_def word_le_nat_alt)
    have "data ! 0 + 1 - OP_1 = data ! 0 - 0x50" by (simp add: OP_1_def)
    then have "unat ?ver = unat (data ! 0) - 0x50"
      unfolding witness_version_def if_P[OF le] \<open>data ! 0 + 1 - OP_1 = _\<close> using u by (simp add: unat_sub word_le_nat_alt)
    then show ?thesis using 4 le u by (auto simp: OP_16_def word_le_nat_alt word_less_nat_alt)
  qed simp
  then show "program_ok data" using 4 5 by (auto simp: program_ok_def word_less_nat_alt)
qed

lemma hrp_text_plain: "hrp_ok hrp \<Longrightarrow> list_all (\<lambda>c. printable c \<and> \<not> isupper c) hrp"
  by (simp add: hrp_ok_def)

lemma checksum_symbols_small: "list_all (\<lambda>c. unat c < 32) (checksum_symbols chk)"
  by (simp add: checksum_symbols_def list_all_iff symbol_small)

lemma length_checksum_symbols [simp]: "length (checksum_symbols chk) = 6"
  by (simp add: checksum_symbols_def)

lemma feed_range: "cs \<noteq> [] \<Longrightarrow> take_bit 30 (feed chk cs) = feed chk cs"
proof (induction cs rule: rev_induct)
  case (snoc c cs)
  have "take_bit 30 (ucast c :: u32) = ucast c" by (rule bit_word_eqI) (auto simp: bit_simps dest: bit_imp_le_length)
  then show ?case using polymod_range[of "feed chk cs"] by simp
qed simp

lemma one_plain: "printable (CHR ''1'')" "\<not> isupper (CHR ''1'')"
  by (simp_all add: printable_def isupper_def in_range_def)

text \<open>Decoding a text whose parts are known: the part in front of the last separator and the symbols.\<close>

lemma decode_parts:
  assumes hrp: "hrp \<noteq> []" "list_all (\<lambda>c. printable c \<and> \<not> isupper c) hrp"
    and chs: "list_all (\<lambda>c. printable c \<and> \<not> isupper c) chs" "CHR ''1'' \<notin> set chs"
    and digits: "map bech32_digit chs = map Some (v # ds)"
    and len: "6 \<le> length ds" "length hrp + length ds \<le> 88"
  shows "BRBech32Decode (hrp @ CHR ''1'' # chs) =
    (let bufLen = (length ds - 6) * 5 div 8
     in if feed (hrp_checksum hrp) (v # ds) \<noteq> checksum_const v \<or> v > 16 \<or> bufLen < 2 \<or> bufLen > 40 then (0, [], [])
        else (2 + bufLen, hrp, (if v = 0 then OP_0 else v + OP_1 - 1) # of_nat bufLen #
                take bufLen (puts (replicate 52 0) 0 (take (length ds - 6) ds))))"
proof -
  let ?s = "hrp @ CHR ''1'' # chs"
  have lc: "length chs = length ds + 1" using arg_cong[OF digits, of length] by simp
  have ls: "length ?s = length hrp + length ds + 2" using lc by simp
  have printable: "list_all printable ?s" and lower: "\<not> list_ex isupper ?s"
    using hrp(2) chs(1) one_plain by (auto simp: list_all_iff list_ex_iff)
  from sepLoop_found[OF chs(2) order.refl, of hrp] have sep: "sepLoop ?s (length ?s) = length hrp" by simp
  have tl: "map tolower hrp = hrp" using hrp(2) by (intro map_idI) (simp add: list_all_iff tolower_id)
  have dr: "drop (length hrp + 1) ?s = chs" and tk: "take (length hrp) ?s = hrp" by simp_all
  have sum: "length hrp + 1 + length chs = length ?s" by simp
  have cond: "\<not> (length ?s < 8 \<or> length ?s > 90 \<or> length hrp < 1 \<or> length hrp + 2 + 6 > length ?s \<or> (list_ex isupper ?s \<and> list_ex islower ?s))"
    using hrp(1) len lower unfolding ls by (simp add: Suc_le_eq)
  have bl: "length ?s - (length hrp + 2 + 6) = length ds - 6" unfolding ls by simp
  show ?thesis
    unfolding BRBech32Decode_def Let_def sep if_not_P[OF cond] tk hrp_checksum_def[symmetric] dr symLoop_all[OF digits sum] bl tl
    using printable by simp
qed

lemma symbols_decode:
  "list_all (\<lambda>c. unat c < 32) cs \<Longrightarrow> map bech32_digit (map (\<lambda>c. bech32_chars ! unat c) cs) = map Some cs"
  by (auto simp: list_all_iff bech32_digit_of_char)

lemma symbols_plain:
  "list_all (\<lambda>c. unat c < 32) cs \<Longrightarrow> list_all (\<lambda>c. printable c \<and> \<not> isupper c) (map (\<lambda>c. bech32_chars ! unat c) cs)"
  "list_all (\<lambda>c. unat c < 32) cs \<Longrightarrow> CHR ''1'' \<notin> set (map (\<lambda>c. bech32_chars ! unat c) cs)"
  using bech32_char_plain by (fastforce simp: list_all_iff)+

lemma regroup_back:
  assumes n: "length bs = n" "n \<le> 40" and cs: "length cs = (8 * n + 4) div 5" "list_all (\<lambda>c. unat c < 32) cs"
    and bits: "\<And>p. p < 8 * n \<Longrightarrow> sym_bit cs p = byte_bit bs p"
  shows "length cs * 5 div 8 = n" "take n (puts (replicate 52 0) 0 cs) = bs"
proof -
  have "8 * n \<le> length cs * 5" "length cs * 5 < 8 * n + 8" unfolding cs(1) by presburger+
  then show "length cs * 5 div 8 = n" by auto
  have fits: "5 * (0 + length cs) div 8 + 1 < length (replicate 52 (0 :: u8))" using n(2) cs(1) by auto
  show "take n (puts (replicate 52 0) 0 cs) = bs"
  proof (rule bytes_eq_bits)
    show "length (take n (puts (replicate 52 0) 0 cs)) = length bs" using n by simp
    fix p assume "p < 8 * length (take n (puts (replicate 52 0) 0 cs))"
    then have p: "p < 8 * n" using n by simp
    then have "byte_bit (take n (puts (replicate 52 0) 0 cs)) p = byte_bit (puts (replicate 52 0) 0 cs) p"
      by (simp add: byte_bit_def less_mult_imp_div_less mult.commute)
    also have "\<dots> \<longleftrightarrow> byte_bit (replicate 52 0) p \<or> (5 * 0 \<le> p \<and> p < 5 * (0 + length cs) \<and> sym_bit cs (p - 5 * 0))"
      using p n(2) by (intro puts_bit cs(2) fits) simp
    also have "\<dots> \<longleftrightarrow> byte_bit bs p"
    proof -
      have "p div 8 < 52" using p n(2) by auto
      then have "\<not> byte_bit (replicate 52 0) p" by (simp add: byte_bit_def)
      moreover have "p < 5 * length cs" using p \<open>8 * n \<le> length cs * 5\<close> by simp
      ultimately show ?thesis using bits[OF p] by simp
    qed
    finally show "byte_bit (take n (puts (replicate 52 0) 0 cs)) p = byte_bit bs p" .
  qed
qed

lemma checksum_accepts:
  "feed h (v # cs @ checksum_symbols ((polymod ^^ 6) (feed h (v # cs)) XOR checksum_const v)) = checksum_const v"
proof -
  let ?K = "feed h (v # cs)"
  let ?c = "(polymod ^^ 6) ?K XOR checksum_const v"
  have "take_bit 30 (polymod ((polymod ^^ 5) ?K)) = polymod ((polymod ^^ 5) ?K)" using polymod_range[of "(polymod ^^ 5) ?K"] by simp
  moreover have "(polymod ^^ 6) ?K = polymod ((polymod ^^ 5) ?K)" by (simp add: eval_nat_numeral)
  moreover have "take_bit 30 (checksum_const v) = checksum_const v" by (simp add: checksum_const_def)
  ultimately have "take_bit 30 ?c = ?c" by (simp only: take_bit_xor)
  then have sums: "feed 0 (checksum_symbols ?c) = ?c" by (rule feed_checksum_symbols)
  have "feed h (v # cs @ checksum_symbols ?c) = feed ?K (checksum_symbols ?c)" by simp
  also have "\<dots> = (polymod ^^ 6) ?K XOR ?c" using feed_split[of ?K "checksum_symbols ?c"] sums by simp
  also have "\<dots> = ((polymod ^^ 6) ?K XOR (polymod ^^ 6) ?K) XOR checksum_const v" by (simp only: xor.assoc)
  finally show ?thesis by simp
qed

lemma bech32_round_trip:
  assumes e: "BRBech32Encode hrp data = Some (i, s)" "i \<noteq> 0" and hrp: "hrp \<noteq> []"
  shows "BRBech32Decode s = (2 + unat (data ! 1), hrp, take (2 + unat (data ! 1)) data)"
    "length s = length hrp + (8 * unat (data ! 1) + 4) div 5 + 8" "i = length s + 1"
proof -
  let ?n = "unat (data ! 1)"
  let ?v = "witness_version (data ! 0)"
  note ok = encode_accepts[OF e]
  obtain cs where cs: "BRBech32Encode hrp data =
       (let ver = ?v;
            chk = (polymod ^^ 6) (feed (hrp_checksum hrp) (ver # cs)) XOR checksum_const ver;
            addr = hrp @ CHR ''1'' # map (\<lambda>c. bech32_chars ! unat c) (ver # cs @ checksum_symbols chk)
        in if length addr < 91 then Some (length addr + 1, addr) else None)"
    "length cs = (8 * ?n + 4) div 5" "list_all (\<lambda>c. unat c < 32) cs"
    "\<And>p. p < 8 * ?n \<Longrightarrow> sym_bit cs p = byte_bit (take ?n (drop 2 data)) p"
    using encode_form[OF ok] by blast
  define sums where "sums = checksum_symbols ((polymod ^^ 6) (feed (hrp_checksum hrp) (?v # cs)) XOR checksum_const ?v)"
  have si: "s = hrp @ CHR ''1'' # map (\<lambda>c. bech32_chars ! unat c) (?v # cs @ sums)" "length s < 91" "i = length s + 1"
    using e(1) unfolding cs(1) Let_def sums_def[symmetric] by (simp_all split: if_splits) (auto)
  have six: "length sums = 6" by (simp add: sums_def)
  show "length s = length hrp + (8 * ?n + 4) div 5 + 8" "i = length s + 1" using si six cs(2) by simp_all
  have n: "2 \<le> ?n" "?n \<le> 40" "2 + ?n \<le> length data" "length (take ?n (drop 2 data)) = ?n" using ok(2) by (auto simp: program_ok_def)
  have op: "data ! 0 = OP_0 \<or> OP_1 \<le> data ! 0 \<and> data ! 0 \<le> OP_16" using ok(2) by (simp add: program_ok_def)
  note v = version_opcode[OF op]
  have small: "list_all (\<lambda>c. unat c < 32) (?v # cs @ sums)"
    using cs(3) checksum_symbols_small v(1) by (simp add: sums_def word_le_nat_alt)
  note rb = regroup_back[OF n(4,2) cs(2,3,4)]
  have "BRBech32Decode s =
    (let bufLen = (length (cs @ sums) - 6) * 5 div 8
     in if feed (hrp_checksum hrp) (?v # cs @ sums) \<noteq> checksum_const ?v \<or> ?v > 16 \<or> bufLen < 2 \<or> bufLen > 40 then (0, [], [])
        else (2 + bufLen, hrp, (if ?v = 0 then OP_0 else ?v + OP_1 - 1) # of_nat bufLen #
                take bufLen (puts (replicate 52 0) 0 (take (length (cs @ sums) - 6) (cs @ sums)))))"
    unfolding si(1)
    by (rule decode_parts[OF hrp hrp_text_plain[OF ok(1)] symbols_plain[OF small] symbols_decode[OF small]])
      (use si six in simp_all)
  also have "\<dots> = (2 + ?n, hrp, data ! 0 # data ! 1 # take ?n (drop 2 data))"
    unfolding Let_def checksum_accepts[of "hrp_checksum hrp" ?v cs, folded sums_def]
    using six rb n v by (simp add: not_less)
  also have "data ! 0 # data ! 1 # take ?n (drop 2 data) = take (2 + ?n) data"
    using n(3) by (cases data rule: list.exhaust; cases "tl data") auto
  finally show "BRBech32Decode s = (2 + ?n, hrp, take (2 + ?n) data)" .
qed

section \<open>What a decoded text says\<close>

lemma bech32_digit_small: "bech32_digit ch = Some d \<Longrightarrow> unat d < 32"
  by (auto simp: bech32_digit_def Let_def split: if_splits)

lemma symLoop_length: "symLoop addrLen chs i k chk ver buf = Some (chk', ver', buf') \<Longrightarrow> length buf' = length buf"
proof (induction chs arbitrary: i k chk ver buf)
  case (Cons ch chs)
  from Cons.prems show ?case by (auto simp: Let_def split: option.splits if_splits dest!: Cons.IH)
qed simp

lemma decode_accepts:
  assumes "BRBech32Decode s = (len, hrp, data)" "len \<noteq> 0"
  defines "sep \<equiv> sepLoop s (length s)"
  obtains v ds where "map bech32_digit (drop (sep + 1) s) = map Some (v # ds)"
    "feed (hrp_checksum (take sep s)) (v # ds) = checksum_const v" "v \<le> 16" "1 \<le> sep" "sep + 8 \<le> length s" "length s \<le> 90"
    "2 \<le> len - 2" "len - 2 \<le> 40" "len = 2 + (length s - (sep + 8)) * 5 div 8" "hrp = map tolower (take sep s)"
    "data = (if v = 0 then OP_0 else v + OP_1 - 1) # of_nat (len - 2) # tl (tl data)" "length data = len"
proof -
  let ?bad = "length s < 8 \<or> length s > 90 \<or> sep < 1 \<or> sep + 2 + 6 > length s \<or> (list_ex isupper s \<and> list_ex islower s)"
  let ?loop = "symLoop (length s) (drop (sep + 1) s) (sep + 1) 0 (hrp_checksum (take sep s)) 0xff (replicate 52 0)"
  note d = assms(1)[unfolded BRBech32Decode_def Let_def sep_def[symmetric] hrp_checksum_def[symmetric]]
  have 1: "list_all printable s" using d assms(2) by (cases "list_all printable s") auto
  note d = d[unfolded eqTrueI[OF 1] not_True_eq_False if_False]
  have 2: "\<not> ?bad" using d assms(2) by (cases ?bad) auto
  note d = d[unfolded if_not_P[OF 2]]
  obtain chk v buf where l: "?loop = Some (chk, v, buf)" using d assms(2) by (cases ?loop) auto
  obtain us where us: "map bech32_digit (drop (sep + 1) s) = map Some us" using symLoop_digits[OF l] by blast
  have "length us = length s - (sep + 1)" using arg_cong[OF us, of length] by simp
  then obtain v' ds where ds: "us = v' # ds" using 2 by (cases us) auto
  have sum: "sep + 1 + length (drop (sep + 1) s) = length s" using 2 by auto
  from l symLoop_all[OF us[unfolded ds] sum] have l': "chk = feed (hrp_checksum (take sep s)) (v # ds)" "v' = v" by auto
  let ?n = "(length s - (sep + 8)) * 5 div 8"
  have n: "length s - (sep + 2 + 6) = length s - (sep + 8)" by simp
  note d = d[unfolded l option.case prod.case n]
  have 3: "\<not> (chk \<noteq> checksum_const v \<or> v > 16 \<or> ?n < 2 \<or> ?n > 40)"
    using d assms(2) by (cases "chk \<noteq> checksum_const v \<or> v > 16 \<or> ?n < 2 \<or> ?n > 40") auto
  note d = d[unfolded if_not_P[OF 3]]
  have "length buf = 52" using symLoop_length[OF l] by simp
  then show ?thesis
    using that[OF us[unfolded ds l'(2)]] l'(1) 2 3 d by auto
qed

lemma the_digits: "map bech32_digit chs = map Some ds \<Longrightarrow> ds = map (\<lambda>c. the (bech32_digit c)) chs"
  by (induction chs arbitrary: ds) auto

lemma separator_at:
  assumes "CHR ''1'' \<notin> set chs"
  shows "sepLoop (hrp @ CHR ''1'' # chs) (length (hrp @ CHR ''1'' # chs)) = length hrp"
  using sepLoop_found[OF assms order.refl, of hrp] by simp

lemma accepted_symbols:
  assumes "fst (BRBech32Decode (hrp @ CHR ''1'' # chs)) \<noteq> 0" "CHR ''1'' \<notin> set chs"
  obtains v ds where "map bech32_digit chs = map Some (v # ds)" "feed (hrp_checksum hrp) (v # ds) = checksum_const v"
proof -
  let ?s = "hrp @ CHR ''1'' # chs"
  obtain len h data where d: "BRBech32Decode ?s = (len, h, data)" by (cases "BRBech32Decode ?s") auto
  then have "len \<noteq> 0" using assms(1) by simp
  have sep: "drop (length hrp + 1) ?s = chs" "take (length hrp) ?s = hrp" by simp_all
  obtain v ds where "map bech32_digit (drop (sepLoop ?s (length ?s) + 1) ?s) = map Some (v # ds)"
    "feed (hrp_checksum (take (sepLoop ?s (length ?s)) ?s)) (v # ds) = checksum_const v"
    by (rule decode_accepts[OF d \<open>len \<noteq> 0\<close>], rule that)
  then show ?thesis using that unfolding separator_at[OF assms(2)] sep by blast
qed

section \<open>Properties\<close>

text \<open>C31. The text of a witness program decodes to that program and its human readable part: the bytes are
  regrouped into symbols and back without loss, and the six checksum symbols the encoder appends are
  exactly the ones the decoder accepts, with the constant of bech32 for version 0 and of bech32m for the
  versions above.\<close>

theorem bech32_decode_of_encode:
  "BRBech32Encode hrp data = Some (i, s) \<Longrightarrow> i \<noteq> 0 \<Longrightarrow> hrp \<noteq> [] \<Longrightarrow>
     BRBech32Decode s = (2 + unat (data ! 1), hrp, take (2 + unat (data ! 1)) data)"
  by (rule bech32_round_trip(1))

text \<open>C32. One wrong character behind the version is always noticed: when a text is accepted and one of the
  characters after the version symbol is replaced by any character of another value, other than the
  separator, the changed text is refused.\<close>

theorem bech32_detects_a_wrong_character:
  assumes "fst (BRBech32Decode (hrp @ CHR ''1'' # v # xs @ c # ys)) \<noteq> 0"
    and "CHR ''1'' \<notin> set (v # xs @ c # d # ys)" and "bech32_digit d \<noteq> bech32_digit c"
  shows "fst (BRBech32Decode (hrp @ CHR ''1'' # v # xs @ d # ys)) = 0"
proof (rule ccontr)
  assume n: "\<not> ?thesis"
  have one: "CHR ''1'' \<notin> set (v # xs @ c # ys)" "CHR ''1'' \<notin> set (v # xs @ d # ys)" using assms(2) by auto
  obtain w ds where a: "map bech32_digit (v # xs @ c # ys) = map Some (w # ds)" "feed (hrp_checksum hrp) (w # ds) = checksum_const w"
    using accepted_symbols[OF assms(1) one(1)] by blast
  obtain u es where b: "map bech32_digit (v # xs @ d # ys) = map Some (u # es)" "feed (hrp_checksum hrp) (u # es) = checksum_const u"
    using accepted_symbols[OF n one(2)] by blast
  let ?t = "\<lambda>c. the (bech32_digit c)"
  have "w = ?t v" "ds = map ?t xs @ ?t c # map ?t ys" "u = ?t v" "es = map ?t xs @ ?t d # map ?t ys"
    using the_digits[OF a(1)] the_digits[OF b(1)] by simp_all
  then have eq: "feed (hrp_checksum hrp) ((w # map ?t xs) @ ?t c # map ?t ys) = feed (hrp_checksum hrp) ((w # map ?t xs) @ ?t d # map ?t ys)"
    using a(2) b(2) by simp
  have "bech32_digit c \<in> set (map bech32_digit (v # xs @ c # ys))" "bech32_digit d \<in> set (map bech32_digit (v # xs @ d # ys))"
    by simp_all
  then obtain c' d' where cd: "bech32_digit c = Some c'" "bech32_digit d = Some d'" unfolding a(1) b(1) by auto
  then show False using feed_one_symbol[of c' d' "hrp_checksum hrp" "w # map ?t xs" "map ?t ys"] eq assms(3) bech32_digit_small by auto
qed

text \<open>The witnesses use the first test vector of the bech32 documents.\<close>

definition sample_program :: bytes where
  "sample_program = [0x00, 0x14, 0x75, 0x1e, 0x76, 0xe8, 0x19, 0x91, 0x96, 0xd4, 0x54,
     0x94, 0x1c, 0x45, 0xd1, 0xb3, 0xa3, 0x23, 0xf1, 0x43, 0x3b, 0xd6]"

definition sample_text :: string where
  "sample_text = ''bc1qw508d6qejxtdg4y5r3zarvary0c5xw7kv8f3t4''"

lemma sample_checksum: "hrp_low (polymod (hrp_high 1 ''bc'')) ''bc'' = 36798531"
  by (simp add: hrp_high_def hrp_low_def polymod_def tolower_def isupper_def in_range_def)

lemma sample_symbols:
  "foldl (regroup sample_program) (polymod 36798531 XOR ucast (0 :: u8), [0], 0) [0..<21] =
     (158975213, [0, 14, 20, 15, 7, 13, 26, 0, 25, 18, 6, 11, 13, 8, 21, 4, 20, 3, 17, 2,
        29, 3, 12, 29, 3, 4, 15, 24, 20, 6, 14, 30, 22], 0)"
  by (simp add: regroup_new new_symbols_def sample_program_def polymod_def upt_rec)

lemma polymod_six: "(polymod ^^ 6) x = polymod (polymod (polymod (polymod (polymod (polymod x)))))"
  by (simp add: eval_nat_numeral)

lemma sample_sum: "(polymod ^^ 6) 158975213 XOR checksum_const 0 = 410305909"
  unfolding polymod_six by (simp add: polymod_def checksum_const_def)

lemma sample_encodes: "BRBech32Encode ''bc'' sample_program = Some (43, sample_text)"
proof -
  have "list_all (\<lambda>c. printable c \<and> \<not> isupper c) ''bc''" by (simp add: printable_def isupper_def in_range_def)
  moreover have "length sample_program = 22" "sample_program ! 0 = 0" "sample_program ! 1 = 20" by (simp_all add: sample_program_def)
  moreover have "checksum_symbols 410305909 = [12, 7, 9, 17, 11, 21]"
    by (simp add: checksum_symbols_def upt_rec)
  ultimately show ?thesis
    unfolding BRBech32Encode_def by (simp add: sample_checksum sample_symbols[simplified] sample_sum OP_0_def OP_1_def sample_text_def bech32_chars_def)
qed

lemma bech32_decode_of_encode_witness: "BRBech32Decode sample_text = (22, ''bc'', sample_program)"
  using bech32_decode_of_encode[OF sample_encodes] by (simp add: sample_program_def)

lemma bech32_detects_a_wrong_character_witness:
  "fst (BRBech32Decode ''bc1qw508d6qejxtdg4y5r3zarvary0c5xw7kv8f3t5'') = 0"
proof -
  have d: "BRBech32Decode sample_text = (22, ''bc'', sample_program)"
    using bech32_round_trip(1)[OF sample_encodes] by (simp add: sample_program_def)
  show ?thesis
    using bech32_detects_a_wrong_character[of "''bc''" "CHR ''q''" "''w508d6qejxtdg4y5r3zarvary0c5xw7kv8f3t''" "CHR ''4''" "[]" "CHR ''5''"] d
    by (simp add: sample_text_def bech32_digit_def tolower_def isupper_def in_range_def)
qed

text \<open>
  Bounds of the buffers.  Whatever text is decoded, what is written fits the buffers of 84 characters and
  42 bytes and is a version opcode, the length of the program and a program of 2 to 40 bytes; so the
  assertion that the separator lies below 84 holds always.\<close>

theorem bech32_decode_fits:
  "case BRBech32Decode s of (len, hrp, data) \<Rightarrow>
     len = 0 \<and> hrp = [] \<and> data = [] \<or>
     4 \<le> len \<and> len \<le> 42 \<and> length data = len \<and> unat (data ! 1) = len - 2 \<and>
     (data ! 0 = OP_0 \<or> OP_1 \<le> data ! 0 \<and> data ! 0 \<le> OP_16) \<and> 1 \<le> length hrp \<and> length hrp \<le> 82"
proof -
  obtain len hrp data where d: "BRBech32Decode s = (len, hrp, data)" by (cases "BRBech32Decode s") auto
  show ?thesis
  proof (cases "len = 0")
    case True
    then show ?thesis using d by (auto simp: BRBech32Decode_def Let_def split: if_splits option.splits)
  next
    case False
    let ?sep = "sepLoop s (length s)"
    obtain v ds where v: "v \<le> 16" "1 \<le> ?sep" "?sep + 8 \<le> length s" "length s \<le> 90"
      "2 \<le> len - 2" "len - 2 \<le> 40" "hrp = map tolower (take ?sep s)"
      "data = (if v = 0 then OP_0 else v + OP_1 - 1) # of_nat (len - 2) # tl (tl data)" "length data = len"
      by (rule decode_accepts[OF d False], rule that)
    have op: "(if v = 0 then OP_0 else v + OP_1 - 1) = OP_0 \<or>
        OP_1 \<le> (if v = 0 then OP_0 else v + OP_1 - 1) \<and> (if v = 0 then OP_0 else v + OP_1 - 1) \<le> OP_16"
    proof (cases "v = 0")
      case False
      then have "1 \<le> unat v" "unat v \<le> 16" using v(1) by (simp_all add: word_le_nat_alt Suc_le_eq unat_gt_0)
      moreover from this have "unat (v + 0x50) = unat v + 0x50" by (simp add: unat_plus_small)
      moreover have vo: "v + OP_1 - 1 = v + 0x50" by (simp add: OP_1_def)
      moreover have "unat OP_1 = 0x51" "unat OP_16 = 0x60" by (simp_all add: OP_1_def OP_16_def)
      ultimately show ?thesis unfolding vo using False by (simp add: word_le_nat_alt)
    qed simp
    have "unat (of_nat (len - 2) :: u8) = len - 2" using v(6) by (simp add: unsigned_of_nat take_bit_nat_eq_self)
    moreover have "data ! 0 = (if v = 0 then OP_0 else v + OP_1 - 1)" "data ! 1 = of_nat (len - 2)"
      using arg_cong[OF v(8), of "\<lambda>xs. xs ! 0"] arg_cong[OF v(8), of "\<lambda>xs. xs ! 1"] by simp_all
    ultimately show ?thesis using d v op by auto
  qed
qed

lemma bech32_overflow_iff:
  "hrp_ok hrp \<Longrightarrow> program_ok data \<Longrightarrow>
     BRBech32Encode hrp data = None \<longleftrightarrow> length hrp + (8 * unat (data ! 1) + 4) div 5 > 82"
  by (rule encode_form; assumption?) (auto simp: Let_def)

text \<open>C40. The encoder builds the text in a buffer of 91 characters and asserts the bound only after it has written:
  for a program it accepts the writes run past the buffer exactly when the human readable part is longer
  than 82 characters less the symbols of the program.  The longest program takes 64 symbols, so up to 18
  characters are always safe.\<close>

theorem bech32_encode_overflows_iff:
  "hrp_ok hrp \<Longrightarrow> program_ok data \<Longrightarrow>
     BRBech32Encode hrp data = None \<longleftrightarrow> length hrp + (8 * unat (data ! 1) + 4) div 5 > 82"
  by (rule bech32_overflow_iff)

lemma bech32_encode_overflows_iff_witness: "BRBech32Encode (replicate 19 CHR ''x'') (0x51 # 40 # replicate 40 0) = None"
  by (subst bech32_encode_overflows_iff)
    (simp_all add: hrp_ok_def program_ok_def list_all_iff printable_def isupper_def in_range_def OP_1_def OP_16_def)

lemma bech32_encode_empty_hrp_not_decoded: "fst (BRBech32Decode (CHR ''1'' # s)) = 0 \<or> CHR ''1'' \<in> set s"
proof (rule ccontr)
  assume n: "\<not> ?thesis"
  obtain len hrp data where d: "BRBech32Decode ([] @ CHR ''1'' # s) = (len, hrp, data)" by (cases "BRBech32Decode ([] @ CHR ''1'' # s)") auto
  then have "len \<noteq> 0" using n by simp
  have "1 \<le> sepLoop ([] @ CHR ''1'' # s) (length ([] @ CHR ''1'' # s))" by (rule decode_accepts[OF d \<open>len \<noteq> 0\<close>])
  then show False using separator_at[of s "[]"] n by simp
qed

end
