(* ===== verification/Address.thy ===== *)
theory Address
  imports Bech32
begin

text \<open>
  Addresses: \<open>src/BRAddress.c\<close> from the network's prefixes on, and the network switch of
  \<open>src/BRNetwork.c\<close>, whose value every function that calls \<open>BRNetworkIsTestnet\<close> takes as its first
  argument.  An address is the list of its characters; the room of an output buffer is \<open>None\<close> for a
  null pointer.  The arms the build takes are modelled; the macros \<open>ZERO_VLA_UNFIXED\<close> and
  \<open>WITNESS_PROGRAM_LEN_UNFIXED\<close>, which bring older behaviour back, are undefined.
\<close>

section \<open>The network\<close>

definition BRSetNetwork :: "int \<Rightarrow> bool" where "BRSetNetwork isTestnet \<longleftrightarrow> isTestnet \<noteq> 0"

definition DD_ACTIVATION_HEIGHT_MAINNET :: u32 where "DD_ACTIVATION_HEIGHT_MAINNET = 23627520"
definition DD_ACTIVATION_HEIGHT_TESTNET :: u32 where "DD_ACTIVATION_HEIGHT_TESTNET = 600"

definition BRNetworkDigiDollarActivationHeight :: "bool \<Rightarrow> u32" where
  "BRNetworkDigiDollarActivationHeight testnet =
     (if testnet then DD_ACTIVATION_HEIGHT_TESTNET else DD_ACTIVATION_HEIGHT_MAINNET)"

definition DIGIBYTE_PUBKEY_LEGACY :: u8 where "DIGIBYTE_PUBKEY_LEGACY = 30"
definition DIGIBYTE_SCRIPT_ADDRESS_LEGACY :: u8 where "DIGIBYTE_SCRIPT_ADDRESS_LEGACY = 5"
definition DIGIBYTE_SCRIPT_ADDRESS :: u8 where "DIGIBYTE_SCRIPT_ADDRESS = 63"
definition BITCOIN_PUBKEY_ADDRESS_TEST :: u8 where "BITCOIN_PUBKEY_ADDRESS_TEST = 111"
definition BITCOIN_SCRIPT_ADDRESS_TEST :: u8 where "BITCOIN_SCRIPT_ADDRESS_TEST = 196"

lemmas prefixes = DIGIBYTE_PUBKEY_LEGACY_def DIGIBYTE_SCRIPT_ADDRESS_LEGACY_def DIGIBYTE_SCRIPT_ADDRESS_def
  BITCOIN_PUBKEY_ADDRESS_TEST_def BITCOIN_SCRIPT_ADDRESS_TEST_def

definition BRDigiByteBech32Hrp :: "bool \<Rightarrow> string" where
  "BRDigiByteBech32Hrp testnet = (if testnet then ''dgbt'' else ''dgb'')"

section \<open>From scripts to addresses\<close>

definition pubkeyVersion :: "bool \<Rightarrow> u8" where
  "pubkeyVersion testnet = (if testnet then BITCOIN_PUBKEY_ADDRESS_TEST else DIGIBYTE_PUBKEY_LEGACY)"

definition scriptVersion :: "bool \<Rightarrow> u8" where
  "scriptVersion testnet = (if testnet then BITCOIN_SCRIPT_ADDRESS_TEST else DIGIBYTE_SCRIPT_ADDRESS)"

definition BRAddressFromScriptPubKey :: "bool \<Rightarrow> nat option \<Rightarrow> bytes \<Rightarrow> nat \<times> string" where
  "BRAddressFromScriptPubKey testnet addrLen script =
     (if script = [] \<or> length script > MAX_SCRIPT_LENGTH then (0, [])
      else
        let elems = scriptElems script; count = length elems; op = (\<lambda>i. hd (elems ! i));
            hash20 = (\<lambda>i. take 20 (the (fst (BRScriptData (elems ! i)))))
        in if count = 0 then (0, [])
           else if count = 5 \<and> op 0 = OP_DUP \<and> op 1 = OP_HASH160 \<and> op 2 = 20 \<and> op 3 = OP_EQUALVERIFY \<and>
                   op 4 = OP_CHECKSIG then
             BRBase58CheckEncode addrLen (pubkeyVersion testnet # hash20 2)
           else if count = 3 \<and> op 0 = OP_HASH160 \<and> op 1 = 20 \<and> op 2 = OP_EQUAL then
             BRBase58CheckEncode addrLen (scriptVersion testnet # hash20 1)
           else if count = 2 \<and> (op 0 = OP_0 \<and> (op 1 = 20 \<or> op 1 = 32) \<or>
                   op 0 \<ge> OP_1 \<and> op 0 \<le> OP_16 \<and> op 1 \<ge> 2 \<and> op 1 \<le> 40) then
             (let (r, a) = the (BRBech32Encode (BRDigiByteBech32Hrp testnet) script)
              in case addrLen of None \<Rightarrow> (r, []) | Some n \<Rightarrow> if r > n then (0, []) else (r, a))
           else (0, []))"

definition BRAddressFromScriptSig :: "bool \<Rightarrow> nat option \<Rightarrow> bytes \<Rightarrow> nat \<times> string" where
  "BRAddressFromScriptSig testnet addrLen script =
     (if script = [] \<or> length script > MAX_SCRIPT_LENGTH then (0, [])
      else
        let elems = scriptElems script; count = length elems;
            op = (\<lambda>i. hd (elems ! (count - i)));
            (d, l) = BRScriptData (elems ! (count - 1))
        in if count = 0 then (0, [])
           else if count \<ge> 2 \<and> op 2 \<le> OP_PUSHDATA4 \<and> (op 1 = 65 \<or> op 1 = 33) then
             (case d of Some d \<Rightarrow>
                if l \<noteq> 65 \<and> l \<noteq> 33 then (0, [])
                else BRBase58CheckEncode addrLen (pubkeyVersion testnet # BRHash160 (take l d))
              | None \<Rightarrow> (0, []))
           else if count \<ge> 2 \<and> op 2 \<le> OP_PUSHDATA4 \<and> op 1 \<le> OP_PUSHDATA4 \<and> op 1 > 0 then
             (case d of Some d \<Rightarrow> BRBase58CheckEncode addrLen (scriptVersion testnet # BRHash160 (take l d))
              | None \<Rightarrow> (0, []))
           else (0, []))"

definition BRAddressFromWitness :: "nat option \<Rightarrow> bytes \<Rightarrow> nat" where
  "BRAddressFromWitness addrLen witness = 0"

section \<open>From addresses to scripts\<close>

definition BRWitnessProgramIsPayable :: "bytes \<Rightarrow> bool" where
  "BRWitnessProgramIsPayable data \<longleftrightarrow>
     length data \<ge> 2 \<and> length data = 2 + unat (data ! 1) \<and>
     (if data ! 0 = OP_0 then data ! 1 = 20 \<or> data ! 1 = 32 else data ! 0 = OP_1 \<and> data ! 1 = 32)"

text \<open>What a script is written to: its bytes if there is room, else the answer 0.\<close>

definition put_script :: "nat option \<Rightarrow> bytes \<Rightarrow> nat \<times> bytes" where
  "put_script scriptLen script =
     (case scriptLen of None \<Rightarrow> (length script, [])
      | Some n \<Rightarrow> if length script \<le> n then (length script, script) else (0, []))"

definition BRAddressScriptPubKey :: "bool \<Rightarrow> nat option \<Rightarrow> string \<Rightarrow> nat \<times> bytes" where
  "BRAddressScriptPubKey testnet scriptLen addr =
     (case BRBase58CheckDecode (Some 42) addr of (n, data) \<Rightarrow>
        if n = 21 then
          if data ! 0 = pubkeyVersion testnet then
            put_script scriptLen ([OP_DUP, OP_HASH160, 20] @ take 20 (drop 1 data) @ [OP_EQUALVERIFY, OP_CHECKSIG])
          else if data ! 0 = scriptVersion testnet \<or> data ! 0 = DIGIBYTE_SCRIPT_ADDRESS_LEGACY then
            put_script scriptLen ([OP_HASH160, 20] @ take 20 (drop 1 data) @ [OP_EQUAL])
          else (0, [])
        else
          (case BRBech32Decode addr of (dataLen, hrp, data) \<Rightarrow>
             if dataLen > 2 \<and> hrp = BRDigiByteBech32Hrp testnet \<and> BRWitnessProgramIsPayable data
             then put_script scriptLen data else (0, [])))"

definition BRAddressIsValid :: "bool \<Rightarrow> string \<Rightarrow> bool" where
  "BRAddressIsValid testnet addr \<longleftrightarrow>
     (case BRBase58CheckDecode (Some 42) addr of (n, data) \<Rightarrow>
        if n = 21 then
          if testnet then data ! 0 = BITCOIN_PUBKEY_ADDRESS_TEST \<or> data ! 0 = BITCOIN_SCRIPT_ADDRESS_TEST
          else data ! 0 = DIGIBYTE_PUBKEY_LEGACY \<or> data ! 0 = DIGIBYTE_SCRIPT_ADDRESS_LEGACY \<or>
               data ! 0 = DIGIBYTE_SCRIPT_ADDRESS
        else
          (case BRBech32Decode addr of (dataLen, hrp, data) \<Rightarrow>
             dataLen > 2 \<and> hrp = BRDigiByteBech32Hrp testnet \<and> BRWitnessProgramIsPayable data))"

text \<open>The hash of an address; \<open>None\<close> is the result 0, which writes nothing.\<close>

definition BRAddressHash160 :: "string \<Rightarrow> bytes option" where
  "BRAddressHash160 addr =
     (case BRBase58CheckDecode (Some 41) addr of (n, data) \<Rightarrow>
        if n = 21 then Some (take 20 (drop 1 data))
        else case BRBech32Decode addr of (n, hrp, data) \<Rightarrow>
          if n = 22 then Some (take 20 (drop 2 data)) else None)"

text \<open>Addresses in hash tables: a C string of at most 75 characters in a \<open>BRAddress\<close>.\<close>

definition BRAddressHash :: "string \<Rightarrow> u32" where
  "BRAddressHash addr = BRMurmur3_32 (map of_char addr) 0"

definition BRAddressEq :: "string \<Rightarrow> string \<Rightarrow> bool" where
  "BRAddressEq addr otherAddr \<longleftrightarrow> take 76 addr = take 76 otherAddr"

section \<open>The address of a script the wallet pays to\<close>

definition payable_script :: "bytes \<Rightarrow> bool" where
  "payable_script s \<longleftrightarrow>
     (\<exists>h. length h = 20 \<and> (s = p2pkh_script h \<or> s = p2sh_script h \<or> s = witness_script OP_0 h)) \<or>
     (\<exists>h. length h = 32 \<and> (s = witness_script OP_0 h \<or> s = witness_script OP_1 h))"

lemma BRScriptData_20: "BRScriptData (20 # q) = (Some q, 20)"
  by (simp add: BRScriptData_bare_push OP_PUSHDATA1_def)

lemma from_p2pkh:
  assumes "length h = 20"
  shows "BRAddressFromScriptPubKey t cap (p2pkh_script h) = BRBase58CheckEncode cap (pubkeyVersion t # h)"
  using scriptElems_SomeI[OF scriptElementsLoop_standard(1)[OF assms]] assms
  by (simp add: BRAddressFromScriptPubKey_def Let_def p2pkh_script_def BRScriptData_20 MAX_SCRIPT_LENGTH_def)

lemma from_p2sh:
  assumes "length h = 20"
  shows "BRAddressFromScriptPubKey t cap (p2sh_script h) = BRBase58CheckEncode cap (scriptVersion t # h)"
  using scriptElems_SomeI[OF scriptElementsLoop_standard(2)[OF assms]] assms
  by (simp add: BRAddressFromScriptPubKey_def Let_def p2sh_script_def BRScriptData_20 MAX_SCRIPT_LENGTH_def OP_HASH160_def OP_DUP_def)

lemma from_witness:
  assumes "v = OP_0 \<and> (length h = 20 \<or> length h = 32) \<or> v = OP_1 \<and> length h = 32"
  shows "BRAddressFromScriptPubKey t cap (witness_script v h) =
     (let (r, a) = the (BRBech32Encode (BRDigiByteBech32Hrp t) (witness_script v h))
      in case cap of None \<Rightarrow> (r, []) | Some n \<Rightarrow> if r > n then (0, []) else (r, a))"
proof -
  have "is_version_opcode v" "length h < 76" using assms by (auto simp: is_version_opcode_def OP_1_def OP_16_def)
  from scriptElems_SomeI[OF scriptElementsLoop_witness[OF this]] assms show ?thesis
    by (auto simp: BRAddressFromScriptPubKey_def Let_def witness_script_def MAX_SCRIPT_LENGTH_def OP_1_def OP_16_def)
qed

lemma wallet_hrp_ok: "hrp_ok (BRDigiByteBech32Hrp t)" "BRDigiByteBech32Hrp t \<noteq> []" "length (BRDigiByteBech32Hrp t) \<le> 4"
  "hd (BRDigiByteBech32Hrp t) = CHR ''d''" "3 \<le> length (BRDigiByteBech32Hrp t)"
  by (simp_all add: BRDigiByteBech32Hrp_def hrp_ok_def printable_def isupper_def in_range_def)

lemma witness_program_ok:
  assumes "v = OP_0 \<or> v = OP_1" "2 \<le> length h" "length h \<le> 40"
  shows "program_ok (witness_script v h)" "unat (witness_script v h ! 1) = length h"
proof -
  show "unat (witness_script v h ! 1) = length h" using assms(3) by (simp add: witness_script_def unat_of_nat)
  then show "program_ok (witness_script v h)" using assms by (auto simp: program_ok_def witness_script_def OP_1_def OP_16_def)
qed

lemma witness_text:
  assumes "v = OP_0 \<or> v = OP_1" "2 \<le> length h" "length h \<le> 40"
  obtains a where "BRBech32Encode (BRDigiByteBech32Hrp t) (witness_script v h) = Some (length a + 1, a)"
    "BRBech32Decode a = (2 + length h, BRDigiByteBech32Hrp t, witness_script v h)"
    "length a = length (BRDigiByteBech32Hrp t) + (8 * length h + 4) div 5 + 8" "hd a = CHR ''d''"
proof -
  let ?hrp = "BRDigiByteBech32Hrp t" and ?w = "witness_script v h"
  note w = witness_program_ok[OF assms]
  have "(8 * length h + 4) div 5 \<le> 64" using assms(3) by auto
  then have "\<not> BRBech32Encode ?hrp ?w = None"
    using bech32_overflow_iff[OF wallet_hrp_ok(1) w(1), of t] wallet_hrp_ok(3)[of t] w(2) by simp
  then obtain i a where ia: "BRBech32Encode ?hrp ?w = Some (i, a)" by (cases "BRBech32Encode ?hrp ?w") auto
  have form: "i \<noteq> 0 \<and> (\<exists>rest. a = ?hrp @ rest)"
    by (rule encode_form[OF wallet_hrp_ok(1)[of t] w(1)]) (use ia in \<open>auto simp: Let_def split: if_splits\<close>)
  note r = bech32_round_trip[OF ia conjunct1[OF form] wallet_hrp_ok(2)]
  have "take (2 + length h) ?w = ?w" by (simp add: witness_script_def)
  moreover have "hd a = CHR ''d''" using form wallet_hrp_ok(2,4)[of t] by (auto simp: hd_append)
  ultimately show ?thesis using that[of a] r ia w(2) by simp
qed

text \<open>A long text that does not begin with a one is the base58check text of more than 21 bytes, or of none.\<close>

lemma not_b58check:
  assumes "43 \<le> length s" "hd s \<noteq> CHR ''1''"
  shows "fst (BRBase58CheckDecode (Some n) s) \<noteq> 21"
proof
  assume n: "fst (BRBase58CheckDecode (Some n) s) = 21"
  then obtain p where p: "BRBase58CheckDecode (Some n) s = (21, p)" by (cases "BRBase58CheckDecode (Some n) s") auto
  then have len: "length p = 21" by (rule b58check_decode_length)
  then have "p \<noteq> []" by auto
  from p b58check_decode_iff[OF this, of n s] len have s: "s = b58_string (p @ take 4 (BRSHA256_2 p))" by simp
  have "58 ^ (length s - 1) < (256 :: nat) ^ length (p @ take 4 (BRSHA256_2 p))"
    using assms by (intro b58_string_short) (simp_all add: s[symmetric], use assms in auto)
  also have "\<dots> = 256 ^ 25" using len by simp
  also have "\<dots> \<le> 58 ^ 42" by simp
  also have "\<dots> \<le> 58 ^ (length s - 1)" using assms(1) by (intro power_increasing) simp_all
  finally show False by simp
qed

lemma b58_address:
  assumes "length h = 20"
  obtains a where "BRBase58CheckEncode (Some 76) (v # h) = (length a + 1, a)" "length a \<le> 36"
    "\<And>n. 21 \<le> n \<Longrightarrow> BRBase58CheckDecode (Some n) a = (21, v # h)"
proof -
  let ?a = "b58_string ((v # h) @ take 4 (BRSHA256_2 (v # h)))"
  have "length ?a \<le> 36" using length_b58_string[of "(v # h) @ take 4 (BRSHA256_2 (v # h))"] assms by simp
  moreover from this have "BRBase58CheckEncode (Some 76) (v # h) = (length ?a + 1, ?a)"
    unfolding BRBase58CheckEncode_string by (simp add: Let_def)
  moreover have "BRBase58CheckDecode (Some n) ?a = (21, v # h)" if "21 \<le> n" for n
    using b58check_decode_iff[of "v # h" n ?a] that assms calculation(1) by (simp add: BR_BASE58_MAX_STR_LEN_def)
  ultimately show ?thesis using that by blast
qed

lemma versions_differ:
  "scriptVersion t \<noteq> pubkeyVersion t" "DIGIBYTE_SCRIPT_ADDRESS_LEGACY \<noteq> pubkeyVersion t"
  by (simp_all add: scriptVersion_def pubkeyVersion_def prefixes)

lemma payable_of_witness:
  assumes "v = OP_0 \<and> (length h = 20 \<or> length h = 32) \<or> v = OP_1 \<and> length h = 32"
  shows "BRWitnessProgramIsPayable (witness_script v h)"
  using assms by (auto simp: BRWitnessProgramIsPayable_def witness_script_def OP_1_def OP_0_def)

lemma witness_payable:
  assumes "BRWitnessProgramIsPayable data"
  shows "payable_script data"
proof -
  have len: "2 \<le> length data" "length data = 2 + unat (data ! 1)"
    and kind: "if data ! 0 = OP_0 then data ! 1 = 20 \<or> data ! 1 = 32 else data ! 0 = OP_1 \<and> data ! 1 = 32"
    using assms unfolding BRWitnessProgramIsPayable_def by blast+
  obtain v n h where d: "data = v # n # h" using len(1) by (cases data rule: remdups_adj.cases) simp_all
  have n: "length h = unat n" using len(2) d by simp
  then have "data = witness_script v h" using d by (simp add: witness_script_def)
  moreover have "v = OP_0 \<and> (length h = 20 \<or> length h = 32) \<or> v = OP_1 \<and> length h = 32"
    using kind n unfolding d by (auto split: if_splits)
  ultimately show ?thesis unfolding payable_script_def by blast
qed

lemma pkh_of_standard:
  "length h = 20 \<Longrightarrow> s = p2pkh_script h \<or> s = p2sh_script h \<or> s = witness_script OP_0 h \<Longrightarrow>
     map_option (take 20) (BRScriptPKH s) = Some h"
  by (rule BRScriptPKH_of_standard) (auto simp: is_version_opcode_def)

lemma pkh_of_32:
  assumes "length h = 32" "v = OP_0 \<or> v = OP_1"
  shows "BRScriptPKH (witness_script v h) = None"
proof (rule ccontr)
  assume "BRScriptPKH (witness_script v h) \<noteq> None"
  then obtain p where "BRScriptPKH (witness_script v h) = Some p" by auto
  from BRScriptPKH_is_standard[OF this refl] assms show False
    by (auto simp: witness_script_def p2pkh_script_def p2sh_script_def opcodes)
qed

lemma round_trip_b58:
  assumes "length h = 20" "s = p2pkh_script h \<and> v = pubkeyVersion t \<or> s = p2sh_script h \<and> v = scriptVersion t"
  shows "\<exists>a. BRAddressFromScriptPubKey t (Some 76) s = (length a + 1, a) \<and>
     BRAddressScriptPubKey t (Some (length s)) a = (length s, s) \<and> BRAddressIsValid t a \<and>
     BRAddressHash160 a = map_option (take 20) (BRScriptPKH s)"
proof -
  obtain a where enc: "BRBase58CheckEncode (Some 76) (v # h) = (length a + 1, a)"
    and dec: "\<And>n. 21 \<le> n \<Longrightarrow> BRBase58CheckDecode (Some n) a = (21, v # h)"
    by (rule b58_address[OF assms(1), of v], rule that)
  have a: "BRBase58CheckEncode (Some 76) (v # h) = (length a + 1, a)"
    "BRBase58CheckDecode (Some 42) a = (21, v # h)" "BRBase58CheckDecode (Some 41) a = (21, v # h)"
    using enc dec[of 42] dec[of 41] by simp_all
  have "BRAddressFromScriptPubKey t (Some 76) s = (length a + 1, a)"
    using assms a(1) from_p2pkh from_p2sh by auto
  moreover have "BRAddressScriptPubKey t (Some (length s)) a = (length s, s)"
    using assms a(2) versions_differ[of t]
    by (auto simp: BRAddressScriptPubKey_def put_script_def p2pkh_script_def p2sh_script_def)
  moreover have "BRAddressIsValid t a"
    using assms(2) a(2) by (auto simp: BRAddressIsValid_def pubkeyVersion_def scriptVersion_def)
  moreover have "BRAddressHash160 a = Some h" using a(3) assms(1) by (simp add: BRAddressHash160_def)
  moreover have "map_option (take 20) (BRScriptPKH s) = Some h" using assms by (intro pkh_of_standard) auto
  ultimately show ?thesis by auto
qed

lemma round_trip_witness:
  assumes "v = OP_0 \<and> (length h = 20 \<or> length h = 32) \<or> v = OP_1 \<and> length h = 32"
  defines "s \<equiv> witness_script v h"
  shows "\<exists>a. BRAddressFromScriptPubKey t (Some 76) s = (length a + 1, a) \<and>
     BRAddressScriptPubKey t (Some (length s)) a = (length s, s) \<and> BRAddressIsValid t a \<and>
     BRAddressHash160 a = map_option (take 20) (BRScriptPKH s)"
proof -
  have v: "v = OP_0 \<or> v = OP_1" "2 \<le> length h" "length h \<le> 40" and h: "length h = 20 \<or> length h = 32" using assms by auto
  obtain a where a: "BRBech32Encode (BRDigiByteBech32Hrp t) s = Some (length a + 1, a)"
    "BRBech32Decode a = (2 + length h, BRDigiByteBech32Hrp t, s)"
    "length a = length (BRDigiByteBech32Hrp t) + (8 * length h + 4) div 5 + 8" "hd a = CHR ''d''"
    unfolding s_def by (rule witness_text[OF v])
  have len: "43 \<le> length a" "length a + 1 \<le> 76" using a(3) h wallet_hrp_ok(3,5)[of t] by auto
  have b: "fst (BRBase58CheckDecode (Some n) a) \<noteq> 21" for n using not_b58check[OF len(1)] a(4) by simp
  have "BRAddressFromScriptPubKey t (Some 76) s = (length a + 1, a)"
    unfolding s_def from_witness[OF assms(1)] using a(1) len(2) by (simp add: s_def)
  moreover have "BRAddressScriptPubKey t (Some (length s)) a = (length s, s)"
    using b[of 42] a(2) v(2) payable_of_witness[OF assms(1)]
    by (auto simp: BRAddressScriptPubKey_def put_script_def s_def split: prod.splits)
  moreover have "BRAddressIsValid t a"
    using b[of 42] a(2) v(2) payable_of_witness[OF assms(1)] by (auto simp: BRAddressIsValid_def s_def split: prod.splits)
  moreover have "BRAddressHash160 a = (if length h = 20 then Some h else None)"
    using b[of 41] a(2) h by (auto simp: BRAddressHash160_def s_def witness_script_def split: prod.splits)
  moreover have "map_option (take 20) (BRScriptPKH s) = (if length h = 20 then Some h else None)"
    using assms(1) pkh_of_standard[of h s] pkh_of_32[of h v] by (auto simp: s_def)
  ultimately show ?thesis by auto
qed

text \<open>C33. An address stands for its script: every script of a kind the wallet pays to (pay to public key hash, pay to
  script hash, version 0 programs of 20 or 32 bytes, version 1 programs of 32) has on either network an
  address that fits a \<open>BRAddress\<close>, is valid there, and is turned back into exactly that script; and the
  hash taken from the address is the hash \<open>BRScriptPKH\<close> finds in the script, none for a 32-byte program.\<close>

theorem address_round_trip:
  assumes "payable_script s"
  shows "\<exists>a. BRAddressFromScriptPubKey t (Some 76) s = (length a + 1, a) \<and>
     BRAddressScriptPubKey t (Some (length s)) a = (length s, s) \<and> BRAddressIsValid t a \<and>
     BRAddressHash160 a = map_option (take 20) (BRScriptPKH s)"
  using assms round_trip_b58 round_trip_witness unfolding payable_script_def by blast

lemma address_round_trip_witness:
  "\<exists>a. BRAddressScriptPubKey False (Some 25) a = (25, p2pkh_script (replicate 20 7)) \<and> BRAddressIsValid False a"
proof -
  have "payable_script (p2pkh_script (replicate 20 7))"
    unfolding payable_script_def by (intro disjI1 exI[of _ "replicate 20 7"]) simp
  moreover have "length (p2pkh_script (replicate 20 7)) = 25" by (simp add: p2pkh_script_def)
  ultimately show ?thesis using address_round_trip[of "p2pkh_script (replicate 20 7)" False] by auto
qed

text \<open>C8. Nothing else is paid to: whatever text is given, the script written for it is of one of those kinds; and a
  text is valid exactly when a script is written for it, except that on the test network a script is
  also written for the main network's old script-hash prefix 5, which is not valid there.\<close>

theorem address_pays_only_known_scripts:
  "(case BRAddressScriptPubKey t (Some n) a of (k, s) \<Rightarrow> k = 0 \<and> s = [] \<or> k = length s \<and> k \<le> n \<and> payable_script s) \<and>
   (BRAddressIsValid t a \<longleftrightarrow> fst (BRAddressScriptPubKey t None a) \<noteq> 0 \<and>
      \<not> (t \<and> (\<exists>h. BRBase58CheckDecode (Some 42) a = (21, DIGIBYTE_SCRIPT_ADDRESS_LEGACY # h))))"
proof
  obtain m data where d: "BRBase58CheckDecode (Some 42) a = (m, data)" by fastforce
  obtain l hrp prog where w: "BRBech32Decode a = (l, hrp, prog)" by (cases "BRBech32Decode a") auto
  have shape: "\<exists>v h. data = v # h \<and> length h = 20" if "m = 21"
    using b58check_decode_length[OF d] that by (cases data) auto
  show "case BRAddressScriptPubKey t (Some n) a of (k, s) \<Rightarrow> k = 0 \<and> s = [] \<or> k = length s \<and> k \<le> n \<and> payable_script s"
  proof (cases "m = 21")
    case True
    then obtain v h where vh: "data = v # h" "length h = 20" using shape by blast
    then have "payable_script (p2pkh_script h)" "payable_script (p2sh_script h)" unfolding payable_script_def by blast+
    then show ?thesis
      using vh True by (auto simp: BRAddressScriptPubKey_def d put_script_def p2pkh_script_def p2sh_script_def)
  next
    case False
    then show ?thesis using witness_payable[of prog] by (auto simp: BRAddressScriptPubKey_def d w put_script_def)
  qed
  show "BRAddressIsValid t a \<longleftrightarrow> fst (BRAddressScriptPubKey t None a) \<noteq> 0 \<and>
      \<not> (t \<and> (\<exists>h. BRBase58CheckDecode (Some 42) a = (21, DIGIBYTE_SCRIPT_ADDRESS_LEGACY # h)))"
  proof (cases "m = 21")
    case True
    then obtain v h where vh: "data = v # h" "length h = 20" using shape by blast
    then show ?thesis using True
      by (cases t) (auto simp: BRAddressIsValid_def BRAddressScriptPubKey_def d put_script_def pubkeyVersion_def scriptVersion_def prefixes)
  next
    case False
    have "prog \<noteq> []" if "BRWitnessProgramIsPayable prog" using that by (auto simp: BRWitnessProgramIsPayable_def)
    then show ?thesis using False by (auto simp: BRAddressIsValid_def BRAddressScriptPubKey_def d w put_script_def)
  qed
qed

end
