(* ===== verification/MerkleBlock.thy ===== *)
theory MerkleBlock
  imports Script Hashes KeyDerivation Codec
begin

text \<open>
  Block headers and merkle trees: \<open>src/BRMerkleBlock.c\<close> up to the difficulty arithmetic.  A 256-bit
  hash is a word whose bytes in memory are its little-endian ones.  A null pointer for an array is the
  empty list; the counts are fields of their own, as in the structure, and \<open>mb_ok\<close> says that they are
  the lengths.  Recursion over the tree goes by the number of levels below a node, which is
  \<open>_ceil_log2(totalTx) - depth\<close>.
\<close>

section \<open>The block\<close>

record merkle_block =
  mb_blockHash :: u256
  mb_powHash :: u256
  mb_version :: u32
  mb_prevBlock :: u256
  mb_merkleRoot :: u256
  mb_timestamp :: u32
  mb_target :: u32
  mb_nonce :: u32
  mb_totalTx :: u32
  mb_hashes :: "u256 list"
  mb_hashesCount :: nat
  mb_flags :: bytes
  mb_flagsLen :: nat
  mb_height :: u32
  mb_unjudged :: u32

definition UInt256Get :: "bytes \<Rightarrow> u256" where "UInt256Get b32 = get_le (take 32 b32)"
definition UInt256Set :: "u256 \<Rightarrow> bytes" where "UInt256Set u = put_le 32 u"

definition BLOCK_UNKNOWN_HEIGHT :: u32 where "BLOCK_UNKNOWN_HEIGHT = 0x7fffffff"
definition BLOCK_MAX_TIME_DRIFT :: u32 where "BLOCK_MAX_TIME_DRIFT = 7200"
definition MAX_PROOF_OF_WORK :: u32 where "MAX_PROOF_OF_WORK = 0x1e0fffff"

definition BRMerkleBlockNew :: merkle_block where
  "BRMerkleBlockNew = \<lparr>mb_blockHash = 0, mb_powHash = 0, mb_version = 0, mb_prevBlock = 0, mb_merkleRoot = 0,
     mb_timestamp = 0, mb_target = 0, mb_nonce = 0, mb_totalTx = 0, mb_hashes = [], mb_hashesCount = 0,
     mb_flags = [], mb_flagsLen = 0, mb_height = BLOCK_UNKNOWN_HEIGHT, mb_unjudged = 0\<rparr>"

definition BRMerkleBlockSetTxHashes :: "merkle_block \<Rightarrow> u256 list \<Rightarrow> bytes \<Rightarrow> merkle_block" where
  "BRMerkleBlockSetTxHashes block hashes flags = block\<lparr>mb_hashes := hashes, mb_flags := flags\<rparr>"

definition BRMerkleBlockCopy :: "merkle_block \<Rightarrow> merkle_block" where
  "BRMerkleBlockCopy block =
     BRMerkleBlockSetTxHashes (block\<lparr>mb_hashes := [], mb_flags := []\<rparr>)
       (take (mb_hashesCount block) (mb_hashes block)) (take (mb_flagsLen block) (mb_flags block))"

section \<open>The wire form\<close>

definition headerBytes :: "merkle_block \<Rightarrow> bytes" where
  "headerBytes block =
     UInt32SetLE (mb_version block) @ UInt256Set (mb_prevBlock block) @ UInt256Set (mb_merkleRoot block) @
     UInt32SetLE (mb_timestamp block) @ UInt32SetLE (mb_target block) @ UInt32SetLE (mb_nonce block)"

text \<open>The bytes from \<open>off\<close> on, none past the end, where the code guards the subtraction.\<close>

definition takeUInt256 :: "bytes \<Rightarrow> u256 \<times> bytes" where
  "takeUInt256 p = (UInt256Get p, drop 32 p)"

interpretation hash256: exact_codec UInt256Set takeUInt256 id 32
proof
  fix p :: bytes assume "32 \<le> length p"
  then have "length (take 32 p) = 32" by simp
  then have "put_le 32 (get_le (take 32 p) :: u256) = take 32 p" using put_get_le[of "take 32 p", where 'a = 256] by simp
  then show "UInt256Set (fst (takeUInt256 p)) @ snd (takeUInt256 p) = p"
    by (simp add: UInt256Set_def takeUInt256_def UInt256Get_def)
qed (simp_all add: UInt256Set_def takeUInt256_def UInt256Get_def get_put_le)

definition BRMerkleBlockParse :: "bytes \<Rightarrow> merkle_block option" where
  "BRMerkleBlockParse buf =
     (if length buf < 80 then None
      else
        let block = BRMerkleBlockNew
              \<lparr>mb_version := UInt32GetLE buf, mb_prevBlock := UInt256Get (drop 4 buf),
               mb_merkleRoot := UInt256Get (drop 36 buf), mb_timestamp := UInt32GetLE (drop 68 buf),
               mb_target := UInt32GetLE (drop 72 buf), mb_nonce := UInt32GetLE (drop 76 buf)\<rparr>;
            block =
              (if 84 \<le> length buf then
                 let off = 84;
                     (n, len) = BRVarInt (drop off buf);
                     off = off + len;
                     count = (if unat n > length (drop off buf) div 32 then 0 else unat n);
                     hashes = (if off + count * 32 \<le> length buf then fst (get_many takeUInt256 count (drop off buf)) else []);
                     off = off + count * 32;
                     (n, len) = BRVarInt (drop off buf);
                     off = off + len;
                     flagsLen = (if unat n > length (drop off buf) then 0 else unat n);
                     flags = (if off + flagsLen \<le> length buf then take flagsLen (drop off buf) else [])
                 in block\<lparr>mb_totalTx := UInt32GetLE (drop 80 buf), mb_hashesCount := count, mb_hashes := hashes,
                          mb_flagsLen := flagsLen, mb_flags := flags\<rparr>
               else block)
        in Some (block\<lparr>mb_blockHash := UInt256Get (BRSHA256_2 (take 80 buf))\<rparr>))"

text \<open>The bytes written; the capacity \<open>None\<close> is the null buffer, which asks for the length.\<close>

definition blockBytes :: "merkle_block \<Rightarrow> bytes" where
  "blockBytes block =
     headerBytes block @
     (if mb_totalTx block > 0 then
        UInt32SetLE (mb_totalTx block) @
        varIntBytes (of_nat (mb_hashesCount block)) @ concat (map UInt256Set (take (mb_hashesCount block) (mb_hashes block))) @
        varIntBytes (of_nat (mb_flagsLen block)) @ take (mb_flagsLen block) (mb_flags block)
      else [])"

definition BRMerkleBlockSerialize :: "merkle_block \<Rightarrow> nat option \<Rightarrow> nat \<times> bytes" where
  "BRMerkleBlockSerialize block cap =
     (let len = 80 + (if mb_totalTx block > 0 then
                4 + BRVarIntSize (of_nat (mb_hashesCount block)) + mb_hashesCount block * 32 +
                BRVarIntSize (of_nat (mb_flagsLen block)) + mb_flagsLen block else 0)
      in case cap of None \<Rightarrow> (len, [])
         | Some bufLen \<Rightarrow> if len \<le> bufLen then (len, blockBytes block) else (0, []))"

section \<open>Merkle trees\<close>

definition merklePair :: "u256 \<Rightarrow> u256 \<Rightarrow> u256" where
  "merklePair a b = UInt256Get (BRSHA256_2 (UInt256Set a @ UInt256Set b))"

text \<open>The shift loop of \<open>_ceil_log2\<close> after its first shift.\<close>

function shiftLoop :: "u32 \<Rightarrow> nat \<Rightarrow> nat" where
  "shiftLoop x r = (let x = drop_bit 1 x in if x \<noteq> 0 then shiftLoop x (r + 1) else r)"
  by pat_completeness auto
termination
proof (relation "measure (\<lambda>(x, r). unat x)")
  fix x xa :: u32 and r :: nat
  assume "xa = drop_bit 1 x" "xa \<noteq> 0"
  then have "unat xa \<noteq> 0" by (simp only: unat_eq_0 not_False_eq_True)
  moreover have "unat xa = unat x div 2" using \<open>xa = _\<close> unat_drop_bit_div[of 1 x] by simp
  ultimately show "((xa, r + 1), x, r) \<in> measure (\<lambda>(x, r). unat x)" by simp
qed simp

declare shiftLoop.simps [simp del]

definition ceil_log2 :: "u32 \<Rightarrow> nat" where
  "ceil_log2 x = shiftLoop x (if x AND (x - 1) \<noteq> 0 then 1 else 0)"

text \<open>The flag bit a node consumes.\<close>

definition flagBit :: "merkle_block \<Rightarrow> nat \<Rightarrow> bool" where
  "flagBit block i = (ucast (mb_flags block ! (i div 8)) AND (push_bit (i mod 8) 1 :: u32) \<noteq> 0)"

abbreviation node_left :: "merkle_block \<Rightarrow> nat \<Rightarrow> nat \<Rightarrow> bool" where
  "node_left block hashIdx flagIdx \<equiv> flagIdx div 8 < mb_flagsLen block \<and> hashIdx < mb_hashesCount block"

text \<open>The matched hashes written so far with the two indices; \<open>cap\<close> is \<open>SIZE_MAX\<close> for a counting call.\<close>

primrec txHashesR :: "merkle_block \<Rightarrow> nat \<Rightarrow> nat \<Rightarrow> u256 list \<times> nat \<times> nat \<Rightarrow> u256 list \<times> nat \<times> nat" where
  "txHashesR block cap 0 st =
     (let (txs, hashIdx, flagIdx) = st in
      if node_left block hashIdx flagIdx then
        (if flagBit block flagIdx \<and> length txs < cap then txs @ [mb_hashes block ! hashIdx] else txs, hashIdx + 1, flagIdx + 1)
      else st)"
| "txHashesR block cap (Suc k) st =
     (let (txs, hashIdx, flagIdx) = st in
      if node_left block hashIdx flagIdx then
        if \<not> flagBit block flagIdx then (txs, hashIdx + 1, flagIdx + 1)
        else txHashesR block cap k (txHashesR block cap k (txs, hashIdx, flagIdx + 1))
      else st)"

definition SIZE_MAX_VAL :: nat where "SIZE_MAX_VAL = 0xffffffffffffffff"

definition BRMerkleBlockTxHashes :: "merkle_block \<Rightarrow> nat option \<Rightarrow> u256 list" where
  "BRMerkleBlockTxHashes block cap =
     fst (txHashesR block (case cap of None \<Rightarrow> SIZE_MAX_VAL | Some n \<Rightarrow> n) (ceil_log2 (mb_totalTx block)) ([], 0, 0))"

text \<open>The root of a partial tree with the indices after it.\<close>

primrec rootR :: "merkle_block \<Rightarrow> nat \<Rightarrow> nat \<times> nat \<Rightarrow> u256 \<times> nat \<times> nat" where
  "rootR block 0 st =
     (let (hashIdx, flagIdx) = st in
      if node_left block hashIdx flagIdx then (mb_hashes block ! hashIdx, hashIdx + 1, flagIdx + 1)
      else (0, hashIdx, flagIdx))"
| "rootR block (Suc k) st =
     (let (hashIdx, flagIdx) = st in
      if node_left block hashIdx flagIdx then
        if flagBit block flagIdx then
          let (h0, st) = rootR block k (hashIdx, flagIdx + 1);
              (h1, hashIdx, flagIdx) = rootR block k st
          in if h0 \<noteq> 0 \<and> h0 \<noteq> h1 then (merklePair h0 (if h1 = 0 then h0 else h1), hashIdx, flagIdx)
             else (0, SIZE_MAX_VAL, flagIdx)
        else (mb_hashes block ! hashIdx, hashIdx + 1, flagIdx + 1)
      else (0, hashIdx, flagIdx))"

text \<open>The root of a whole block: the comparison of the row, the row above it, the loop.\<close>

fun hasTwins :: "u256 list \<Rightarrow> bool" where
  "hasTwins (a # b # row) \<longleftrightarrow> a = b \<or> hasTwins row"
| "hasTwins _ \<longleftrightarrow> False"

fun hashPairs :: "u256 list \<Rightarrow> u256 list" where
  "hashPairs (a # b # row) = merklePair a b # hashPairs row"
| "hashPairs _ = []"

definition evenRow :: "u256 list \<Rightarrow> u256 list" where
  "evenRow row = (if odd (length row) then row @ [last row] else row)"

lemma length_hashPairs: "length (hashPairs row) = length row div 2"
  by (induction row rule: hashPairs.induct) auto

lemma length_evenRow: "length (evenRow row) = 2 * ((length row + 1) div 2)"
  by (auto simp: evenRow_def elim: oddE evenE)

function rootLoop :: "u256 list \<Rightarrow> u256 option" where
  "rootLoop row =
     (if length row > 1 then if hasTwins row then None else rootLoop (hashPairs (evenRow row))
      else Some (row ! 0))"
  by pat_completeness auto
termination by (relation "measure length") (auto simp: length_hashPairs length_evenRow)

declare rootLoop.simps [simp del]

definition BRMerkleRootFromTxHashes :: "u256 list \<Rightarrow> u256 option" where
  "BRMerkleRootFromTxHashes txHashes =
     (if txHashes = [] then None
      else if length txHashes = 1 then Some (txHashes ! 0)
      else rootLoop txHashes)"

section \<open>Proof of work and validity\<close>

datatype pow_algo = Scrypt | Sha256d | Groestl | Skein | Qubit | Odo

text \<open>\<open>None\<close> is \<open>BLOCK_ALGO_UNKNOWN\<close>.\<close>

definition BRMerkleBlockAlgo :: "merkle_block \<Rightarrow> pow_algo option" where
  "BRMerkleBlockAlgo block =
     (let v = mb_version block AND 0xf00 in
      if v = 0 then Some Scrypt else if v = 0x200 then Some Sha256d else if v = 0x400 then Some Groestl
      else if v = 0x600 then Some Skein else if v = 0x800 then Some Qubit else if v = 0xe00 then Some Odo
      else None)"

definition BRMerkleBlockAlgoName :: "pow_algo option \<Rightarrow> string" where
  "BRMerkleBlockAlgoName algo =
     (case algo of Some Scrypt \<Rightarrow> ''scrypt'' | Some Sha256d \<Rightarrow> ''sha256d'' | Some Groestl \<Rightarrow> ''groestl''
      | Some Skein \<Rightarrow> ''skein'' | Some Qubit \<Rightarrow> ''qubit'' | Some Odo \<Rightarrow> ''odo'' | None \<Rightarrow> ''unknown'')"

text \<open>The vendored hash functions: Groestl, Skein and Qubit of the header, Odocrypt of the header and its key.\<close>

record pow_hashes =
  ph_groestl :: "bytes \<Rightarrow> u256"
  ph_skein :: "bytes \<Rightarrow> u256"
  ph_qubit :: "bytes \<Rightarrow> u256"
  ph_odo :: "bytes \<Rightarrow> u32 \<Rightarrow> u32 \<Rightarrow> u256"

definition ODOCRYPT_CHAPECHANGE_INTERVAL :: u32 where "ODOCRYPT_CHAPECHANGE_INTERVAL = 864000"
definition ODOCRYPT_SHAPECHANGE_INTERVAL_TESTNET :: u32 where "ODOCRYPT_SHAPECHANGE_INTERVAL_TESTNET = 86400"

definition BRMerkleBlockPoWHash :: "bool \<Rightarrow> pow_hashes \<Rightarrow> merkle_block \<Rightarrow> u256 option" where
  "BRMerkleBlockPoWHash testnet ph block =
     (let buf = headerBytes block in
      case BRMerkleBlockAlgo block of
        Some Sha256d \<Rightarrow> Some (UInt256Get (BRSHA256_2 buf))
      | Some Scrypt \<Rightarrow> Some (UInt256Get (BRScrypt 32 buf buf 1024 1 1))
      | Some Groestl \<Rightarrow> Some (ph_groestl ph buf)
      | Some Skein \<Rightarrow> Some (ph_skein ph buf)
      | Some Qubit \<Rightarrow> Some (ph_qubit ph buf)
      | Some Odo \<Rightarrow> Some (ph_odo ph buf (mb_timestamp block)
          (if testnet then ODOCRYPT_SHAPECHANGE_INTERVAL_TESTNET else ODOCRYPT_CHAPECHANGE_INTERVAL))
      | None \<Rightarrow> None)"

text \<open>The comparison of the hash with the target, from the most significant byte down.\<close>

primrec powMeets :: "bytes \<Rightarrow> bytes \<Rightarrow> nat \<Rightarrow> bool" where
  "powMeets pow t 0 = True"
| "powMeets pow t (Suc i) = (if pow ! i < t ! i then True else if pow ! i > t ! i then False else powMeets pow t i)"

text \<open>
  The target written at its place in 32 bytes; \<open>None\<close> is a write past them, which the range check of
  the target excludes.
\<close>

definition targetBytes :: "u32 \<Rightarrow> bytes option" where
  "targetBytes compact =
     (let size = unat (drop_bit 24 compact); target = compact AND 0x00ffffff in
      if size > 3 then
        if size + 1 \<le> 32 then Some (replicate (size - 3) 0 @ UInt32SetLE target @ replicate (32 - (size + 1)) 0) else None
      else Some (UInt32SetLE (drop_bit ((3 - size) * 8) target) @ replicate 28 0))"

text \<open>
  The verdict and whether a mismatch is counted; \<open>level\<close> is \<open>DGB_HEADER_POW_CHECK\<close>.
\<close>

definition BRMerkleBlockIsValid :: "nat \<Rightarrow> bool \<Rightarrow> pow_hashes \<Rightarrow> merkle_block \<Rightarrow> u32 \<Rightarrow> bool \<times> bool" where
  "BRMerkleBlockIsValid level testnet ph block currentTime =
     (let maxsize = drop_bit 24 MAX_PROOF_OF_WORK; maxtarget = MAX_PROOF_OF_WORK AND 0x00ffffff;
          size = drop_bit 24 (mb_target block); target = mb_target block AND 0x00ffffff;
          root = fst (rootR block (ceil_log2 (mb_totalTx block)) (0, 0));
          r = True;
          r = (if mb_totalTx block > 0 \<and> root \<noteq> mb_merkleRoot block then False else r);
          r = (if mb_timestamp block > currentTime + BLOCK_MAX_TIME_DRIFT then False else r);
          r = (if target = 0 \<or> target AND 0x00800000 \<noteq> 0 \<or> size > maxsize \<or> (size = maxsize \<and> target > maxtarget)
               then False else r)
      in if level \<ge> 1 \<and> r then
           let meets = (case BRMerkleBlockPoWHash testnet ph block of None \<Rightarrow> False
                        | Some pow \<Rightarrow> (case targetBytes (mb_target block) of None \<Rightarrow> False
                                       | Some t \<Rightarrow> powMeets (UInt256Set pow) t 32))
           in (if \<not> meets \<and> level \<ge> 2 then False else r, \<not> meets)
         else (r, False))"

definition BRMerkleBlockContainsTxHash :: "merkle_block \<Rightarrow> u256 \<Rightarrow> bool" where
  "BRMerkleBlockContainsTxHash block txHash \<longleftrightarrow>
     list_ex (\<lambda>i. mb_hashes block ! i = txHash) [0..<mb_hashesCount block]"

definition BRMerkleBlockVerifyDifficulty :: "bool \<Rightarrow> merkle_block \<Rightarrow> merkle_block option \<Rightarrow> bool" where
  "BRMerkleBlockVerifyDifficulty testnet block previous =
     (case previous of None \<Rightarrow> False
      | Some p \<Rightarrow> \<not> (mb_prevBlock block \<noteq> mb_blockHash p \<or> mb_height block \<noteq> mb_height p + 1))"

definition BRMerkleBlockHash :: "merkle_block \<Rightarrow> u32" where
  "BRMerkleBlockHash block = ucast (mb_blockHash block)"

definition BRMerkleBlockEq :: "merkle_block \<Rightarrow> merkle_block \<Rightarrow> bool" where
  "BRMerkleBlockEq block otherBlock \<longleftrightarrow> mb_blockHash block = mb_blockHash otherBlock"

section \<open>The height of a tree\<close>

fun merkle_depth :: "nat \<Rightarrow> nat" where
  "merkle_depth n = (if n \<le> 1 then 0 else Suc (merkle_depth ((n + 1) div 2)))"

declare merkle_depth.simps [simp del]

lemma merkle_depth_bounds:
  "0 < n \<Longrightarrow> n \<le> 2 ^ merkle_depth n \<and> (n = 1 \<or> 2 ^ (merkle_depth n - 1) < n)"
proof (induction n rule: merkle_depth.induct)
  case (1 n)
  show ?case
  proof (cases "n \<le> 1")
    case False
    let ?m = "(n + 1) div 2"
    have IH: "?m \<le> 2 ^ merkle_depth ?m" "?m = 1 \<or> 2 ^ (merkle_depth ?m - 1) < ?m" using 1 False by auto
    have d: "merkle_depth n = Suc (merkle_depth ?m)" using False by (subst merkle_depth.simps) simp
    have "n \<le> 2 * ?m" "2 * ?m \<le> n + 1" by auto
    moreover have "2 ^ merkle_depth ?m < n"
    proof (cases "?m = 1")
      case True
      then have "merkle_depth ?m = 0" by (subst merkle_depth.simps) simp
      then show ?thesis using False by simp
    next
      case False
      then have m2: "2 \<le> ?m" using \<open>\<not> n \<le> 1\<close> by auto
      then have "merkle_depth ?m \<noteq> 0" by (subst merkle_depth.simps) simp
      then have "2 ^ merkle_depth ?m = 2 * (2 :: nat) ^ (merkle_depth ?m - 1)" by (cases "merkle_depth ?m") simp_all
      moreover have "2 ^ (merkle_depth ?m - 1) + 1 \<le> ?m" using IH(2) False by simp
      ultimately show ?thesis using \<open>2 * ?m \<le> n + 1\<close> by linarith
    qed
    ultimately show ?thesis using IH(1) unfolding d by simp
  qed (use 1 in \<open>auto simp: merkle_depth.simps\<close>)
qed

lemma shiftLoop_floor:
  "0 < x \<Longrightarrow> \<exists>f. shiftLoop x r = r + f \<and> 2 ^ f \<le> unat x \<and> unat x < 2 ^ (f + 1)"
proof (induction x r rule: shiftLoop.induct)
  case (1 x r)
  let ?y = "drop_bit 1 x"
  have y: "unat ?y = unat x div 2" using unat_drop_bit_div[of 1 x] by simp
  have x: "0 < unat x" using 1(2) by (simp add: word_less_nat_alt)
  show ?case
  proof (cases "?y = 0")
    case True
    then have "unat x div 2 = 0" using y by simp
    then have "unat x = 1" using x by auto
    then show ?thesis using True by (subst shiftLoop.simps) (simp add: Let_def)
  next
    case False
    then obtain f where "shiftLoop ?y (r + 1) = r + 1 + f" "2 ^ f \<le> unat ?y" "unat ?y < 2 ^ (f + 1)"
      using 1(1)[OF refl False] by (auto simp: word_gt_0)
    moreover from this have "shiftLoop x r = r + Suc f" using False by (subst shiftLoop.simps) (simp add: Let_def)
    ultimately show ?thesis using y by (intro exI[of _ "Suc f"]) auto
  qed
qed

lemma power_of_two_test:
  fixes x :: u32
  assumes "2 ^ f \<le> unat x" "unat x < 2 ^ (f + 1)" "f < 32"
  shows "x AND (x - 1) = 0 \<longleftrightarrow> unat x = 2 ^ f"
proof
  assume z: "x AND (x - 1) = 0"
  show "unat x = 2 ^ f"
  proof (rule ccontr)
    assume n: "unat x \<noteq> 2 ^ f"
    have u: "unat (x - 1) = unat x - 1" using assms(1) by (intro unat_minus_one) (auto simp: word_neq_0_conv word_less_nat_alt intro: less_le_trans[of 0 "2 ^ f"])
    have bit: "bit w f" if "2 ^ f \<le> unat w" "unat w < 2 ^ (f + 1)" for w :: u32
    proof -
      have "unat w div 2 ^ f = 1" using that by (simp add: div_nat_eqI)
      then have "bit (unat w) f" by (simp add: bit_iff_odd)
      then show ?thesis by (simp add: bit_unsigned_iff)
    qed
    have "bit x f" "bit (x - 1) f" using assms(1,2) n u by (auto intro!: bit)
    then have "bit (x AND (x - 1)) f" by (simp add: bit_and_iff)
    then show False using z by simp
  qed
next
  assume "unat x = 2 ^ f"
  moreover have "unat (push_bit f 1 :: u32) = 2 ^ f"
  proof -
    have "(2 :: nat) ^ f < 2 ^ 32" using assms(3) by (intro power_strict_increasing) simp_all
    then have "unat (of_nat (2 ^ f) :: u32) = 2 ^ f" unfolding unat_of_nat by simp
    moreover have "push_bit f 1 = (of_nat (2 ^ f) :: u32)" by (simp add: push_bit_of_1)
    ultimately show ?thesis by (simp only:)
  qed
  ultimately have "x = push_bit f 1" by (metis unsigned_word_eqI)
  then have "x - 1 = mask f" "x = push_bit f 1" by (simp_all add: mask_eq_exp_minus_1 push_bit_of_1)
  then show "x AND (x - 1) = 0" by (intro bit_word_eqI) (auto simp: bit_simps)
qed

lemma ceil_log2_bounds:
  assumes "0 < x"
  shows "unat x \<le> 2 ^ ceil_log2 x \<and> (unat x = 1 \<or> 2 ^ (ceil_log2 x - 1) < unat x) \<and> ceil_log2 x \<le> 32"
proof -
  obtain f where f: "\<And>r. shiftLoop x r = r + f" "2 ^ f \<le> unat x" "unat x < 2 ^ (f + 1)"
  proof -
    obtain f where f0: "shiftLoop x 0 = 0 + f" "2 ^ f \<le> unat x" "unat x < 2 ^ (f + 1)" using shiftLoop_floor[OF assms, of 0] by blast
    have "shiftLoop x r = r + f" for r
    proof -
      obtain g where g: "shiftLoop x r = r + g" "2 ^ g \<le> unat x" "unat x < 2 ^ (g + 1)" using shiftLoop_floor[OF assms, of r] by blast
      have "(2 :: nat) ^ g < 2 ^ (f + 1)" "(2 :: nat) ^ f < 2 ^ (g + 1)" using f0(2,3) g(2,3) by linarith+
      then have "g < f + 1" "f < g + 1" by (simp_all only: power_strict_increasing_iff one_less_numeral_iff semiring_norm(76))
      then show ?thesis using g(1) by simp
    qed
    then show ?thesis using that f0 by blast
  qed
  have "2 ^ f < (2 :: nat) ^ 32" using f(2) unsigned_less[of x, where ?'a = nat] by simp
  then have f32: "f < 32" by (simp only: power_strict_increasing_iff one_less_numeral_iff semiring_norm(76))
  have c: "ceil_log2 x = (if unat x = 2 ^ f then f else f + 1)"
    unfolding ceil_log2_def f(1) using power_of_two_test[OF f(2,3) f32] by simp
  show ?thesis
  proof (cases "unat x = 2 ^ f")
    case True
    then show ?thesis using f32 unfolding c by (cases f) auto
  qed (use f f32 c in auto)
qed

lemma ceil_log2_is_depth:
  assumes "0 < n" "n < 2 ^ 32"
  shows "ceil_log2 (of_nat n) = merkle_depth n"
proof -
  have u: "unat (of_nat n :: u32) = n" using assms(2) by (simp add: unsigned_of_nat take_bit_nat_eq_self)
  then have "0 < (of_nat n :: u32)" using assms(1) by (simp add: word_less_nat_alt)
  note c = ceil_log2_bounds[OF this, unfolded u] and d = merkle_depth_bounds[OF assms(1)]
  show ?thesis
  proof (cases "n = 1")
    case True
    moreover have "ceil_log2 1 = 0" by code_simp
    ultimately show ?thesis by (simp add: merkle_depth.simps)
  next
    case False
    have le: "i \<le> j" if "2 ^ (i - 1) < n" "n \<le> 2 ^ j" for i j
    proof -
      have "2 ^ (i - 1) < (2 :: nat) ^ j" using that by linarith
      then have "i - 1 < j" by (simp only: power_strict_increasing_iff one_less_numeral_iff semiring_norm(76))
      then show ?thesis by simp
    qed
    show ?thesis by (rule antisym; rule le) (use c d False in auto)
  qed
qed

section \<open>Whole trees\<close>

text \<open>A value is the root of a tree of height \<open>k\<close> whose leaves are in \<open>S\<close> and whose hashed pairs are in \<open>P\<close>.\<close>

inductive tree_root :: "u256 set \<Rightarrow> (u256 \<times> u256) set \<Rightarrow> nat \<Rightarrow> u256 \<Rightarrow> bool" for S P where
  leaf: "v \<in> S \<Longrightarrow> tree_root S P 0 v"
| node: "tree_root S P k a \<Longrightarrow> tree_root S P k b \<Longrightarrow> (a, b) \<in> P \<Longrightarrow> tree_root S P (Suc k) (merklePair a b)"

inductive_cases tree_root_leafE: "tree_root S P 0 v"
inductive_cases tree_root_nodeE: "tree_root S P (Suc k) v"

fun rowPairs :: "u256 list \<Rightarrow> (u256 \<times> u256) list" where
  "rowPairs (a # b # row) = (a, b) # rowPairs row"
| "rowPairs _ = []"

lemma hashPairs_map: "hashPairs row = map (\<lambda>(a, b). merklePair a b) (rowPairs row)"
  by (induction row rule: rowPairs.induct) auto

lemma rowPairs_sub: "(a, b) \<in> set (rowPairs row) \<Longrightarrow> a \<in> set row \<and> b \<in> set row"
  by (induction row rule: rowPairs.induct) auto

lemma set_evenRow: "row \<noteq> [] \<Longrightarrow> set (evenRow row) = set row"
  by (auto simp: evenRow_def)

text \<open>All pairs the loop hashes.\<close>

function loopPairs :: "u256 list \<Rightarrow> (u256 \<times> u256) list" where
  "loopPairs row = (if length row > 1 then rowPairs (evenRow row) @ loopPairs (hashPairs (evenRow row)) else [])"
  by pat_completeness auto
termination by (relation "measure length") (auto simp: length_hashPairs length_evenRow)

declare loopPairs.simps [simp del]

lemma length_rowUp: "length (hashPairs (evenRow row)) = (length row + 1) div 2"
  by (simp add: length_hashPairs length_evenRow)

lemma rootLoop_tree:
  "rootLoop row = Some r \<Longrightarrow> row \<noteq> [] \<Longrightarrow> (\<And>v. v \<in> set row \<Longrightarrow> tree_root S P k v) \<Longrightarrow> set (loopPairs row) \<subseteq> P \<Longrightarrow>
     tree_root S P (k + merkle_depth (length row)) r"
proof (induction row arbitrary: k rule: rootLoop.induct)
  case (1 row)
  show ?case
  proof (cases "1 < length row")
    case True
    let ?up = "hashPairs (evenRow row)"
    have ok: "\<not> hasTwins row" "rootLoop ?up = Some r" using 1(2) True by (auto simp: rootLoop.simps[of row] split: if_splits)
    have P: "set (rowPairs (evenRow row)) \<subseteq> P" "set (loopPairs ?up) \<subseteq> P" using 1(5) True by (simp_all add: loopPairs.simps[of row])
    have up: "tree_root S P (Suc k) v" if v: "v \<in> set ?up" for v
    proof -
      obtain a b where ab: "(a, b) \<in> set (rowPairs (evenRow row))" "v = merklePair a b" using v by (auto simp: hashPairs_map)
      then have "a \<in> set row" "b \<in> set row" using rowPairs_sub[OF ab(1)] set_evenRow[OF 1(3)] by auto
      then show ?thesis using ab P(1) 1(4) by (auto intro: tree_root.node)
    qed
    have ne: "?up \<noteq> []" using True length_rowUp[of row] by (auto simp flip: length_0_conv)
    from 1(1)[OF True ok(1) ok(2) ne up P(2)]
    have "tree_root S P (Suc k + merkle_depth ((length row + 1) div 2)) r" by (simp add: length_rowUp)
    then show ?thesis using True by (subst merkle_depth.simps) simp
  next
    case False
    then obtain v where "row = [v]" using 1(3) by (cases row) auto
    then show ?thesis using 1(2,4) by (simp add: rootLoop.simps merkle_depth.simps)
  qed
qed

section \<open>The root commits to the list\<close>

lemma odd_last_twins: "odd (length row) \<Longrightarrow> hasTwins (row @ [last row])"
proof (induction row rule: hasTwins.induct)
  case (1 a b row)
  then have "row \<noteq> []" "odd (length row)" by auto
  then show ?case using 1(1) by simp
qed auto

lemma rowPairs_inj: "rowPairs xs = rowPairs ys \<Longrightarrow> even (length xs) \<Longrightarrow> even (length ys) \<Longrightarrow> xs = ys"
proof (induction xs arbitrary: ys rule: rowPairs.induct)
  case (1 a b xs)
  then obtain c d zs where "ys = c # d # zs" by (cases ys rule: rowPairs.cases) auto
  then show ?case using 1 by auto
next
  case "2_1"
  then show ?case by (cases ys rule: rowPairs.cases) auto
qed auto

lemma evenRow_inj:
  assumes "evenRow xs = evenRow ys" "\<not> hasTwins xs" "\<not> hasTwins ys"
  shows "xs = ys"
proof -
  have one: "us = vs" if "us @ [last us] = vs" "odd (length us)" "\<not> hasTwins vs" for us vs :: "u256 list"
    using that odd_last_twins[of us] by simp
  show ?thesis using assms one[of xs ys] one[of ys xs] by (auto simp: evenRow_def split: if_splits)
qed

lemma even_evenRow: "even (length (evenRow row))"
  by (simp add: evenRow_def)

lemma rootLoop_unique:
  "rootLoop xs = Some r \<Longrightarrow> rootLoop ys = Some r \<Longrightarrow> xs \<noteq> [] \<Longrightarrow> ys \<noteq> [] \<Longrightarrow>
     merkle_depth (length xs) = merkle_depth (length ys) \<Longrightarrow>
     inj_on (\<lambda>(a, b). merklePair a b) (set (loopPairs xs) \<union> set (loopPairs ys)) \<Longrightarrow> xs = ys"
proof (induction xs arbitrary: ys rule: rootLoop.induct)
  case (1 xs)
  show ?case
  proof (cases "1 < length xs")
    case True
    have deep: "1 < n \<longleftrightarrow> merkle_depth n \<noteq> 0" for n by (subst merkle_depth.simps) simp
    have ys: "1 < length ys" using True 1(6) deep[of "length xs"] deep[of "length ys"] by simp
    let ?ux = "hashPairs (evenRow xs)" and ?uy = "hashPairs (evenRow ys)"
    have x: "\<not> hasTwins xs" "rootLoop ?ux = Some r" using 1(2) True by (auto simp: rootLoop.simps[of xs] split: if_splits)
    have y: "\<not> hasTwins ys" "rootLoop ?uy = Some r" using 1(3) ys by (auto simp: rootLoop.simps[of ys] split: if_splits)
    have px: "set (loopPairs xs) = set (rowPairs (evenRow xs)) \<union> set (loopPairs ?ux)" using True by (simp add: loopPairs.simps[of xs])
    have py: "set (loopPairs ys) = set (rowPairs (evenRow ys)) \<union> set (loopPairs ?uy)" using ys by (simp add: loopPairs.simps[of ys])
    have ne: "?ux \<noteq> []" "?uy \<noteq> []" using True ys length_rowUp[of xs] length_rowUp[of ys] by (auto simp flip: length_0_conv)
    have dep: "merkle_depth (length ?ux) = merkle_depth (length ?uy)"
      using 1(6) True ys by (simp add: length_rowUp merkle_depth.simps[of "length xs"] merkle_depth.simps[of "length ys"])
    have inj: "inj_on (\<lambda>(a, b). merklePair a b) (set (loopPairs ?ux) \<union> set (loopPairs ?uy))"
      "inj_on (\<lambda>(a, b). merklePair a b) (set (rowPairs (evenRow xs)) \<union> set (rowPairs (evenRow ys)))"
      by (rule inj_on_subset[OF 1(7)]; auto simp: px py)+
    have "?ux = ?uy" by (rule 1(1)[OF True x(1) x(2) y(2) ne dep inj(1)])
    then have "rowPairs (evenRow xs) = rowPairs (evenRow ys)"
      unfolding hashPairs_map using inj_on_map_eq_map[OF inj(2)] by blast
    then have "evenRow xs = evenRow ys" by (rule rowPairs_inj[OF _ even_evenRow even_evenRow])
    then show ?thesis using evenRow_inj x(1) y(1) by blast
  next
    case False
    have "\<not> 1 < length ys"
      using 1(6) False by (auto simp: merkle_depth.simps[of "length xs"] merkle_depth.simps[of "length ys"] split: if_splits)
    with False 1(4,5) obtain a b where "xs = [a]" "ys = [b]" by (cases xs; cases ys) auto
    then show ?thesis using 1(2,3) by (simp add: rootLoop.simps)
  qed
qed

lemma rootFrom_loop: "BRMerkleRootFromTxHashes xs = (if xs = [] then None else rootLoop xs)"
  by (simp add: BRMerkleRootFromTxHashes_def rootLoop.simps[of xs])

section \<open>Partial trees\<close>

text \<open>The pairs the walk over a partial tree hashes.\<close>

primrec rootPairs :: "merkle_block \<Rightarrow> nat \<Rightarrow> nat \<times> nat \<Rightarrow> (u256 \<times> u256) list" where
  "rootPairs block 0 st = []"
| "rootPairs block (Suc k) st =
     (let (hashIdx, flagIdx) = st in
      if node_left block hashIdx flagIdx \<and> flagBit block flagIdx then
        let (h0, st1) = rootR block k (hashIdx, flagIdx + 1); (h1, st2) = rootR block k st1
        in rootPairs block k (hashIdx, flagIdx + 1) @ rootPairs block k st1 @
           (if h0 \<noteq> 0 \<and> h0 \<noteq> h1 then [(h0, if h1 = 0 then h0 else h1)] else [])
      else [])"

text \<open>Once a mutation was noticed, nothing more is read.\<close>

lemma rootR_stopped: "mb_hashesCount block \<le> SIZE_MAX_VAL \<Longrightarrow> rootR block k (SIZE_MAX_VAL, fi) = (0, SIZE_MAX_VAL, fi)"
  by (cases k) simp_all

lemma tree_root_merklePair:
  assumes "tree_root S P (Suc k) (merklePair a b)" "inj_on (\<lambda>(a, b). merklePair a b) (P \<union> Q)" "(a, b) \<in> Q"
  shows "tree_root S P k a" "tree_root S P k b"
proof -
  obtain c d where cd: "merklePair a b = merklePair c d" "tree_root S P k c" "tree_root S P k d" "(c, d) \<in> P"
    using tree_root_nodeE[OF assms(1)] by metis
  then have "(a, b) = (c, d)" using inj_onD[OF assms(2), of "(a, b)" "(c, d)"] assms(3) by auto
  then show "tree_root S P k a" "tree_root S P k b" using cd by auto
qed

lemma partial_tree_sound:
  assumes "inj_on (\<lambda>(a, b). merklePair a b) (P \<union> Q)" "\<forall>(a, b)\<in>Z. merklePair a b \<noteq> 0" "mb_hashesCount block \<le> SIZE_MAX_VAL"
  shows "rootR block k (hi, fi) = (md, hi', fi') \<Longrightarrow> hi' \<noteq> SIZE_MAX_VAL \<Longrightarrow> set (rootPairs block k (hi, fi)) \<subseteq> Q \<Longrightarrow>
    txHashesR block cap k (txs, hi, fi) = (txs', hi'', fi'') \<Longrightarrow>
    hi'' = hi' \<and> fi'' = fi' \<and>
    (set (rootPairs block k (hi, fi)) \<subseteq> Z \<longrightarrow> md = 0 \<longrightarrow> set txs' \<subseteq> set txs \<union> {0}) \<and>
    (set (butlast (rootPairs block k (hi, fi))) \<subseteq> Z \<longrightarrow> tree_root S P k md \<longrightarrow> set txs' \<subseteq> set txs \<union> S \<union> {0})"
proof (induction k arbitrary: hi fi md hi' fi' txs txs' hi'' fi'')
  case 0
  then show ?case by (auto split: if_splits elim: tree_root_leafE)
next
  case (Suc k)
  show ?case
  proof (cases "node_left block hi fi \<and> flagBit block fi")
    case False
    then show ?thesis using Suc.prems by (auto split: if_splits)
  next
    case True
    obtain h0 hi1 fi1 where l: "rootR block k (hi, fi + 1) = (h0, hi1, fi1)" by (metis prod.exhaust)
    obtain h1 hi2 fi2 where r: "rootR block k (hi1, fi1) = (h1, hi2, fi2)" by (metis prod.exhaust)
    let ?h = "if h1 = 0 then h0 else h1"
    have root: "(if h0 \<noteq> 0 \<and> h0 \<noteq> h1 then (merklePair h0 ?h, hi2, fi2) else (0, SIZE_MAX_VAL, fi2)) = (md, hi', fi')"
      using Suc.prems(1) True l r by (simp add: Let_def)
    then have h: "h0 \<noteq> 0" "h0 \<noteq> h1" "md = merklePair h0 ?h" "hi' = hi2" "fi' = fi2"
      using Suc.prems(2) by (auto split: if_splits)
    let ?lp = "rootPairs block k (hi, fi + 1)" and ?rp = "rootPairs block k (hi1, fi1)"
    have pairs: "rootPairs block (Suc k) (hi, fi) = ?lp @ ?rp @ [(h0, ?h)]" using True l r h(1,2) by (simp add: Let_def)
    have Q: "set ?lp \<subseteq> Q" "set ?rp \<subseteq> Q" "(h0, ?h) \<in> Q" using Suc.prems(3) unfolding pairs by auto
    have "hi1 \<noteq> SIZE_MAX_VAL" using r h(4) Suc.prems(2) rootR_stopped[OF assms(3), of k fi1] by auto
    obtain txs1 ha fa where tl: "txHashesR block cap k (txs, hi, fi + 1) = (txs1, ha, fa)" by (metis prod.exhaust)
    have IHl: "ha = hi1" "fa = fi1" "set (butlast ?lp) \<subseteq> Z \<longrightarrow> tree_root S P k h0 \<longrightarrow> set txs1 \<subseteq> set txs \<union> S \<union> {0}"
      using Suc.IH[OF l \<open>hi1 \<noteq> SIZE_MAX_VAL\<close> Q(1) tl] by blast+
    have tr: "txHashesR block cap k (txs1, hi1, fi1) = (txs', hi'', fi'')"
      using Suc.prems(4) True tl IHl(1,2) by (simp add: Let_def)
    have "hi2 \<noteq> SIZE_MAX_VAL" using h(4) Suc.prems(2) by simp
    then have IHr: "hi'' = hi2" "fi'' = fi2" "set ?rp \<subseteq> Z \<longrightarrow> h1 = 0 \<longrightarrow> set txs' \<subseteq> set txs1 \<union> {0}"
      "set (butlast ?rp) \<subseteq> Z \<longrightarrow> tree_root S P k h1 \<longrightarrow> set txs' \<subseteq> set txs1 \<union> S \<union> {0}"
      using Suc.IH[OF r _ Q(2) tr] by blast+
    have "md \<noteq> 0" if "set (rootPairs block (Suc k) (hi, fi)) \<subseteq> Z"
    proof -
      have "(h0, ?h) \<in> Z" using that unfolding pairs by auto
      then show ?thesis using assms(2) unfolding h(3) by blast
    qed
    moreover have "set txs' \<subseteq> set txs \<union> S \<union> {0}"
      if "tree_root S P (Suc k) md" "set (butlast (rootPairs block (Suc k) (hi, fi))) \<subseteq> Z"
    proof -
      have Z: "set ?lp \<subseteq> Z" "set ?rp \<subseteq> Z" using that(2) unfolding pairs by (auto simp: butlast_append split: if_splits)
      then have "set (butlast ?lp) \<subseteq> Z" "set (butlast ?rp) \<subseteq> Z" by (auto dest: in_set_butlastD)
      moreover have "tree_root S P k h0" "tree_root S P k ?h"
        using tree_root_merklePair[OF _ assms(1) Q(3)] that(1) unfolding h(3) by blast+
      ultimately show ?thesis using IHl(3) IHr(3,4) Z by (cases "h1 = 0") auto
    qed
    ultimately show ?thesis using IHr(1,2) h(4,5) by blast
  qed
qed

section \<open>A second right branch\<close>

text \<open>
  A block of five transactions has three nodes one level above the leaves' parents' row, so the last
  one has no right sibling.  This partial tree puts a sibling there that holds the hash \<open>x\<close> twice: the
  walk takes the equal children for a mutation, gives the sibling the value zero, and zero is what it
  takes for a missing right branch.
\<close>

definition forged_block :: "u256 \<Rightarrow> u256 \<Rightarrow> u256 \<Rightarrow> merkle_block" where
  "forged_block l m x = BRMerkleBlockNew
     \<lparr>mb_merkleRoot := merklePair l (merklePair m m), mb_target := MAX_PROOF_OF_WORK, mb_totalTx := 5,
      mb_hashes := [l, m, x, x], mb_hashesCount := 4, mb_flags := [0x75], mb_flagsLen := 1\<rparr>"

lemma ceil_log2_5: "ceil_log2 5 = Suc (Suc (Suc 0))"
  by (simp add: ceil_log2_def shiftLoop.simps)

lemma forged_flags:
  "flagBit (forged_block l m x) 0" "\<not> flagBit (forged_block l m x) (Suc 0)" "flagBit (forged_block l m x) (Suc (Suc 0))"
  "\<not> flagBit (forged_block l m x) (Suc (Suc (Suc 0)))" "flagBit (forged_block l m x) (Suc (Suc (Suc (Suc 0))))"
  "flagBit (forged_block l m x) (Suc (Suc (Suc (Suc (Suc 0)))))"
  "flagBit (forged_block l m x) (Suc (Suc (Suc (Suc (Suc (Suc 0))))))"
  by (simp_all add: flagBit_def forged_block_def)

lemma forged_fields:
  "mb_hashes (forged_block l m x) = [l, m, x, x]" "mb_hashesCount (forged_block l m x) = 4"
  "mb_flagsLen (forged_block l m x) = 1" "mb_totalTx (forged_block l m x) = 5"
  "mb_merkleRoot (forged_block l m x) = merklePair l (merklePair m m)" "mb_timestamp (forged_block l m x) = 0"
  "mb_target (forged_block l m x) = MAX_PROOF_OF_WORK"
  by (simp_all add: forged_block_def BRMerkleBlockNew_def)

lemma forged_root:
  assumes "l \<noteq> 0" "m \<noteq> 0" "merklePair m m \<noteq> 0" "l \<noteq> merklePair m m"
  shows "fst (rootR (forged_block l m x) (ceil_log2 5) (0, 0)) = merklePair l (merklePair m m)"
  unfolding ceil_log2_5 using assms by (simp add: forged_flags forged_fields Let_def)

lemma forged_txs: "fst (txHashesR (forged_block l m x) SIZE_MAX_VAL (ceil_log2 5) ([], 0, 0)) = [x, x]"
proof -
  have "0 < SIZE_MAX_VAL" "Suc 0 < SIZE_MAX_VAL" by (simp_all add: SIZE_MAX_VAL_def)
  then show ?thesis unfolding ceil_log2_5 by (simp add: forged_flags forged_fields Let_def)
qed

section \<open>Reading back what was written\<close>

definition mb_ok :: "merkle_block \<Rightarrow> bool" where
  "mb_ok block \<longleftrightarrow> length (mb_hashes block) = mb_hashesCount block \<and> length (mb_flags block) = mb_flagsLen block \<and>
     mb_hashesCount block < 2 ^ 59 \<and> mb_flagsLen block < 2 ^ 63 \<and>
     (mb_totalTx block = 0 \<longrightarrow> mb_hashes block = [] \<and> mb_flags block = [])"

lemma UInt256_get_set [simp]: "UInt256Get (UInt256Set u @ rest) = u" "length (UInt256Set u) = 32"
  by (simp_all add: UInt256Get_def UInt256Set_def get_put_le)

lemma length_headerBytes [simp]: "length (headerBytes block) = 80"
  by (simp add: headerBytes_def)

lemma header_fields:
  "UInt32GetLE (headerBytes b @ rest) = mb_version b" "UInt256Get (drop 4 (headerBytes b @ rest)) = mb_prevBlock b"
  "UInt256Get (drop 36 (headerBytes b @ rest)) = mb_merkleRoot b" "UInt32GetLE (drop 68 (headerBytes b @ rest)) = mb_timestamp b"
  "UInt32GetLE (drop 72 (headerBytes b @ rest)) = mb_target b" "UInt32GetLE (drop 76 (headerBytes b @ rest)) = mb_nonce b"
  by (simp_all add: headerBytes_def)

lemma length_blockBytes:
  assumes "mb_ok block"
  shows "BRMerkleBlockSerialize block None = (length (blockBytes block), [])"
  using assms hash256.many_length[of "mb_hashes block"]
  by (auto simp: BRMerkleBlockSerialize_def blockBytes_def mb_ok_def length_varIntBytes Let_def)

lemma parse_blockBytes:
  assumes "mb_ok b"
  shows "BRMerkleBlockParse (blockBytes b) =
    Some (b\<lparr>mb_blockHash := UInt256Get (BRSHA256_2 (headerBytes b)), mb_powHash := 0,
            mb_height := BLOCK_UNKNOWN_HEIGHT, mb_unjudged := 0\<rparr>)"
proof (cases "mb_totalTx b = 0")
  case True
  then have bytes: "blockBytes b = headerBytes b @ []" and none: "mb_hashes b = []" "mb_flags b = []" "mb_hashesCount b = 0" "mb_flagsLen b = 0"
    using assms by (auto simp: blockBytes_def mb_ok_def)
  show ?thesis
    unfolding bytes BRMerkleBlockParse_def header_fields
    using True none by (simp add: BRMerkleBlockNew_def Let_def)
next
  case False
  let ?h = "concat (map UInt256Set (mb_hashes b))"
  let ?vh = "varIntBytes (of_nat (mb_hashesCount b))" and ?vf = "varIntBytes (of_nat (mb_flagsLen b))"
  let ?tail = "UInt32SetLE (mb_totalTx b) @ ?vh @ ?h @ ?vf @ mb_flags b"
  have ok: "length (mb_hashes b) = mb_hashesCount b" "length (mb_flags b) = mb_flagsLen b"
    "mb_hashesCount b < 2 ^ 64" "mb_flagsLen b < 2 ^ 64" using assms by (auto simp: mb_ok_def)
  have u: "unat (of_nat (mb_hashesCount b) :: u64) = mb_hashesCount b" "unat (of_nat (mb_flagsLen b) :: u64) = mb_flagsLen b"
    using ok(3,4) by (simp_all add: unat_of_nat)
  have bytes: "blockBytes b = headerBytes b @ ?tail" using False ok(1,2) by (simp add: blockBytes_def word_gt_0)
  have lh: "length ?h = mb_hashesCount b * 32" using hash256.many_length[of "mb_hashes b"] ok(1) by simp
  have d80: "drop 80 (headerBytes b @ ?tail) = ?tail" and d84: "drop 84 (headerBytes b @ ?tail) = ?vh @ ?h @ ?vf @ mb_flags b"
    by simp_all
  have t80: "take 80 (headerBytes b @ ?tail) = headerBytes b" by simp
  have v: "BRVarInt (?vh @ rest) = (of_nat (mb_hashesCount b), length ?vh)" "BRVarInt (?vf @ rest) = (of_nat (mb_flagsLen b), length ?vf)" for rest
    by (simp_all add: BRVarInt_read length_varIntBytes)
  have dh: "drop (84 + length ?vh) (headerBytes b @ ?tail) = ?h @ ?vf @ mb_flags b" by simp
  have df: "drop (84 + length ?vh + mb_hashesCount b * 32) (headerBytes b @ ?tail) = ?vf @ mb_flags b"
    by (simp add: lh[symmetric])
  have dd: "drop (84 + length ?vh + mb_hashesCount b * 32 + length ?vf) (headerBytes b @ ?tail) = mb_flags b"
    by (simp add: lh[symmetric])
  have L: "length (headerBytes b @ ?tail) = 84 + length ?vh + mb_hashesCount b * 32 + length ?vf + mb_flagsLen b"
    using lh ok(2) by simp
  have many: "fst (get_many takeUInt256 (mb_hashesCount b) (?h @ ?vf @ mb_flags b)) = mb_hashes b"
    using hash256.many_roundtrip[of "mb_hashes b" "?vf @ mb_flags b"] ok(1) by simp
  have "84 \<le> length (headerBytes b @ ?tail)" unfolding L by simp
  then show ?thesis
    unfolding bytes BRMerkleBlockParse_def header_fields Let_def d80 d84 v prod.case u dh t80
    using ok(2) lh many by (simp add: df dd v u BRMerkleBlockNew_def del: append_assoc)
qed

lemma reads_back:
  "UInt32SetLE (UInt32GetLE (drop n buf)) = take 4 (drop n buf)" if "n + 4 \<le> length buf"
  using that put_get_le[of "take 4 (drop n buf)", where 'a = 32] by (simp add: UInt32SetLE_def UInt32GetLE_def)

lemma reads_back_256:
  "UInt256Set (UInt256Get (drop n buf)) = take 32 (drop n buf)" if "n + 32 \<le> length buf"
  using that put_get_le[of "take 32 (drop n buf)", where 'a = 256] by (simp add: UInt256Set_def UInt256Get_def)

lemma header_written_back:
  assumes "length buf = 80"
  shows "\<exists>b. BRMerkleBlockParse buf = Some b \<and> blockBytes b = buf"
proof -
  have cut: "take 4 (drop 0 buf) @ take 32 (drop 4 buf) @ take 32 (drop 36 buf) @ take 4 (drop 68 buf) @ take 4 (drop 72 buf) @ take 4 (drop 76 buf) = buf"
  proof -
    have "take 4 (drop 76 buf) = drop 76 buf" using assms by simp
    moreover have "take 4 (drop 72 buf) @ drop 76 buf = drop 72 buf" using append_take_drop_id[of 4 "drop 72 buf"] by simp
    moreover have "take 4 (drop 68 buf) @ drop 72 buf = drop 68 buf" using append_take_drop_id[of 4 "drop 68 buf"] by simp
    moreover have "take 32 (drop 36 buf) @ drop 68 buf = drop 36 buf" using append_take_drop_id[of 32 "drop 36 buf"] by simp
    moreover have "take 32 (drop 4 buf) @ drop 36 buf = drop 4 buf" using append_take_drop_id[of 32 "drop 4 buf"] by simp
    ultimately show ?thesis by simp
  qed
  obtain b where b: "BRMerkleBlockParse buf = Some b" "mb_totalTx b = 0" "headerBytes b =
      UInt32SetLE (UInt32GetLE (drop 0 buf)) @ UInt256Set (UInt256Get (drop 4 buf)) @ UInt256Set (UInt256Get (drop 36 buf)) @
      UInt32SetLE (UInt32GetLE (drop 68 buf)) @ UInt32SetLE (UInt32GetLE (drop 72 buf)) @ UInt32SetLE (UInt32GetLE (drop 76 buf))"
    using assms by (auto simp: BRMerkleBlockParse_def BRMerkleBlockNew_def headerBytes_def Let_def)
  have "headerBytes b = buf" unfolding b(3) using assms cut reads_back[of _ buf] reads_back[of 0 buf] reads_back_256[of _ buf] by simp
  then show ?thesis using b by (simp add: blockBytes_def)
qed

lemma BRMerkleBlockCopy_same: "mb_ok block \<Longrightarrow> BRMerkleBlockCopy block = block"
  by (simp add: BRMerkleBlockCopy_def BRMerkleBlockSetTxHashes_def mb_ok_def)

section \<open>Properties\<close>

text \<open>C34. A block whose counts are the lengths of its arrays is read back from the bytes it is written to, with
  the hash of its header and without what is not stored (the height, the judgement); and any header of
  80 bytes is written back as the same bytes.\<close>

theorem merkle_block_roundtrip:
  "mb_ok b \<Longrightarrow>
     BRMerkleBlockParse (snd (BRMerkleBlockSerialize b (Some (fst (BRMerkleBlockSerialize b None))))) =
       Some (b\<lparr>mb_blockHash := UInt256Get (BRSHA256_2 (headerBytes b)), mb_powHash := 0,
               mb_height := BLOCK_UNKNOWN_HEIGHT, mb_unjudged := 0\<rparr>) \<and>
     (length buf = 80 \<longrightarrow> (\<exists>h. BRMerkleBlockParse buf = Some h \<and> snd (BRMerkleBlockSerialize h (Some 80)) = buf))"
proof -
  assume ok: "mb_ok b"
  have "BRMerkleBlockSerialize b (Some (length (blockBytes b))) = (length (blockBytes b), blockBytes b)"
    using length_blockBytes[OF ok] by (simp add: BRMerkleBlockSerialize_def Let_def)
  then have 1: "BRMerkleBlockParse (snd (BRMerkleBlockSerialize b (Some (fst (BRMerkleBlockSerialize b None))))) =
       Some (b\<lparr>mb_blockHash := UInt256Get (BRSHA256_2 (headerBytes b)), mb_powHash := 0,
               mb_height := BLOCK_UNKNOWN_HEIGHT, mb_unjudged := 0\<rparr>)"
    using parse_blockBytes[OF ok] length_blockBytes[OF ok] by simp
  have "\<exists>h. BRMerkleBlockParse buf = Some h \<and> snd (BRMerkleBlockSerialize h (Some 80)) = buf" if len: "length buf = 80"
  proof -
    obtain h where h: "BRMerkleBlockParse buf = Some h" "blockBytes h = buf" using header_written_back[OF len] by blast
    have "mb_totalTx h = 0" using h(1) len by (auto simp: BRMerkleBlockParse_def BRMerkleBlockNew_def Let_def)
    then show ?thesis using h by (simp add: BRMerkleBlockSerialize_def)
  qed
  with 1 show ?thesis by blast
qed

text \<open>C35. The root of a whole block commits to its transactions: two lists of transaction hashes whose trees have the
  same height and for which the root function answers the same root are the same list, provided the
  double SHA-256 sends no two of the pairs hashed for them to one value.  So leaving out, adding,
  replacing or reordering transactions within the height changes the root or is refused, the trick
  of repeating the last ones included.\<close>

theorem merkle_root_commits_to_the_list:
  assumes "BRMerkleRootFromTxHashes xs = Some r" "BRMerkleRootFromTxHashes ys = Some r"
    and "ceil_log2 (of_nat (length xs)) = ceil_log2 (of_nat (length ys))" "length xs < 2 ^ 32" "length ys < 2 ^ 32"
    and "inj_on (\<lambda>(a, b). merklePair a b) (set (loopPairs xs) \<union> set (loopPairs ys))"
  shows "xs = ys"
proof -
  have x: "xs \<noteq> []" "rootLoop xs = Some r" and y: "ys \<noteq> []" "rootLoop ys = Some r"
    using assms(1,2) by (auto simp: rootFrom_loop split: if_splits)
  have "merkle_depth (length xs) = merkle_depth (length ys)"
    using assms(3) ceil_log2_is_depth[OF _ assms(4)] ceil_log2_is_depth[OF _ assms(5)] x(1) y(1) by simp
  then show ?thesis by (rule rootLoop_unique[OF x(2) y(2) x(1) y(1) _ assms(6)])
qed

lemma two_leaves: "loopPairs [1, 2] = [(1, 2)]" "BRMerkleRootFromTxHashes [1, 2] = Some (merklePair 1 2)"
  by (simp_all add: loopPairs.simps evenRow_def BRMerkleRootFromTxHashes_def rootLoop.simps)

lemma merkle_root_commits_to_the_list_witness:
  "BRMerkleRootFromTxHashes [1, 2] = Some (merklePair 1 2) \<and>
   BRMerkleRootFromTxHashes (rev [2, 1]) = Some (merklePair 1 2) \<and>
   inj_on (\<lambda>(a, b). merklePair a b) (set (loopPairs [1, 2]) \<union> set (loopPairs (rev [2, 1]))) \<and>
   [1 :: u256, 2] = rev [2, 1]"
  using merkle_root_commits_to_the_list[of "[1, 2]" "merklePair 1 2" "rev [2, 1]"] two_leaves by simp

text \<open>C5. What a partial tree proves: let the walk over the tree end without noticing a mutation and give the root of a
  block whose full list has the announced number of transactions.  Then every hash the block reports as
  matched is in that list (or is the zero hash), provided the double SHA-256 sends no two of the pairs
  hashed for both to one value and none of the partial tree's, below the root, to zero.\<close>

theorem spv_matches_are_in_the_block:
  assumes "BRMerkleRootFromTxHashes xs = Some r" "mb_totalTx block = of_nat (length xs)" "length xs < 2 ^ 32"
    and "rootR block (ceil_log2 (mb_totalTx block)) (0, 0) = (r, hi, fi)" "hi \<noteq> SIZE_MAX_VAL" "mb_hashesCount block \<le> SIZE_MAX_VAL"
    and "inj_on (\<lambda>(a, b). merklePair a b) (set (loopPairs xs) \<union> set (rootPairs block (ceil_log2 (mb_totalTx block)) (0, 0)))"
    and "\<forall>(a, b)\<in>set (butlast (rootPairs block (ceil_log2 (mb_totalTx block)) (0, 0))). merklePair a b \<noteq> 0"
  shows "set (BRMerkleBlockTxHashes block cap) \<subseteq> set xs \<union> {0}"
proof -
  let ?k = "ceil_log2 (mb_totalTx block)"
  have x: "xs \<noteq> []" "rootLoop xs = Some r" using assms(1) by (auto simp: rootFrom_loop split: if_splits)
  have "tree_root (set xs) (set (loopPairs xs)) (0 + merkle_depth (length xs)) r"
    by (rule rootLoop_tree[OF x(2,1) _ order.refl]) (rule tree_root.leaf)
  moreover have "?k = merkle_depth (length xs)" using ceil_log2_is_depth[OF _ assms(3)] x(1) assms(2) by simp
  ultimately have t: "tree_root (set xs) (set (loopPairs xs)) ?k r" by simp
  obtain txs hi'' fi'' where tx: "txHashesR block (case cap of None \<Rightarrow> SIZE_MAX_VAL | Some n \<Rightarrow> n) ?k ([], 0, 0) = (txs, hi'', fi'')"
    by (metis prod.exhaust)
  from partial_tree_sound[OF assms(7,8,6,4,5) order.refl tx] t show ?thesis by (simp add: BRMerkleBlockTxHashes_def tx)
qed

definition two_leaf_block :: merkle_block where
  "two_leaf_block = BRMerkleBlockNew\<lparr>mb_totalTx := 2, mb_hashes := [1, 2], mb_hashesCount := 2, mb_flags := [5], mb_flagsLen := 1\<rparr>"

lemma spv_matches_are_in_the_block_witness: "set (BRMerkleBlockTxHashes two_leaf_block None) \<subseteq> {1, 2} \<union> {0}"
proof -
  have d: "ceil_log2 2 = Suc 0" by (simp add: ceil_log2_def shiftLoop.simps)
  have f: "flagBit two_leaf_block 0" by (simp add: flagBit_def two_leaf_block_def)
  have fields: "mb_hashes two_leaf_block = [1, 2]" "mb_hashesCount two_leaf_block = 2" "mb_flagsLen two_leaf_block = 1"
    "mb_totalTx two_leaf_block = 2" by (simp_all add: two_leaf_block_def)
  have "rootR two_leaf_block (ceil_log2 2) (0, 0) = (merklePair 1 2, 2, 3)" "rootPairs two_leaf_block (ceil_log2 2) (0, 0) = [(1, 2)]"
    unfolding d using f by (simp_all add: fields Let_def)
  then show ?thesis
    using spv_matches_are_in_the_block[of "[1, 2]" "merklePair 1 2" two_leaf_block 2 3 None] two_leaves
    by (simp add: fields SIZE_MAX_VAL_def)
qed

lemma merkle_block_roundtrip_witness:
  "map_option mb_hashes (BRMerkleBlockParse (snd (BRMerkleBlockSerialize two_leaf_block (Some (fst (BRMerkleBlockSerialize two_leaf_block None)))))) = Some [1, 2]"
proof -
  have "mb_ok two_leaf_block" by (simp add: mb_ok_def two_leaf_block_def)
  from merkle_block_roundtrip[OF this, of "[]"] show ?thesis by (simp add: two_leaf_block_def)
qed

text \<open>C36. The hypothesis that no mutation was noticed is needed, and the code does not check it: a block of five
  transactions, whatever they are, has a header for which a partial tree with an arbitrary hash \<open>x\<close> in
  place of the missing branch passes the whole validity check and reports \<open>x\<close> as matched, unless one of
  the block's own tree nodes is zero.\<close>

theorem forged_match_is_accepted:
  fixes a b c d e x :: u256
  defines "block \<equiv> forged_block (merklePair (merklePair a b) (merklePair c d)) (merklePair e e) x"
  shows "BRMerkleRootFromTxHashes [a, b, c, d, e] = None \<or>
     merklePair (merklePair a b) (merklePair c d) = 0 \<or> merklePair e e = 0 \<or>
     merklePair (merklePair e e) (merklePair e e) = 0 \<or>
     BRMerkleRootFromTxHashes [a, b, c, d, e] = Some (mb_merkleRoot block) \<and>
     BRMerkleBlockIsValid 0 testnet ph block now = (True, False) \<and> BRMerkleBlockTxHashes block None = [x, x]"
proof -
  let ?l = "merklePair (merklePair a b) (merklePair c d)" and ?m = "merklePair e e"
  show ?thesis
  proof (cases "BRMerkleRootFromTxHashes [a, b, c, d, e] = None \<or> ?l = 0 \<or> ?m = 0 \<or> merklePair ?m ?m = 0")
    case False
    then have ok: "rootLoop [a, b, c, d, e] \<noteq> None" "?l \<noteq> 0" "?m \<noteq> 0" "merklePair ?m ?m \<noteq> 0" by (auto simp: rootFrom_loop)
    then have twins: "\<not> hasTwins [a, b, c, d, e]" "\<not> hasTwins [merklePair a b, merklePair c d, ?m]" "?l \<noteq> merklePair ?m ?m"
      and root: "rootLoop [a, b, c, d, e] = Some (merklePair ?l (merklePair ?m ?m))"
      by (auto simp: rootLoop.simps evenRow_def split: if_splits)
    have "fst (rootR block (ceil_log2 5) (0, 0)) = mb_merkleRoot block"
      unfolding block_def forged_fields by (rule forged_root[OF ok(2,3,4) twins(3)])
    then have "BRMerkleBlockIsValid 0 testnet ph block now = (True, False)"
      by (simp add: BRMerkleBlockIsValid_def block_def forged_fields MAX_PROOF_OF_WORK_def)
    moreover have "BRMerkleBlockTxHashes block None = [x, x]"
      unfolding BRMerkleBlockTxHashes_def block_def forged_fields option.case by (rule forged_txs)
    ultimately show ?thesis using root by (simp add: rootFrom_loop block_def forged_fields)
  qed blast
qed

end
