(* ===== verification/Limbs.thy ===== *)
theory Limbs
  imports MerkleBlock
begin

text \<open>
  The 256-bit arithmetic of the difficulty targets in \<open>src/BRMerkleBlock.c\<close>: eight 32-bit limbs, least
  significant first.  The limbs are read as a natural number (\<open>limbs_val\<close>), and every operation is shown
  to be the arithmetic one on that number, modulo 2 to the 256.
\<close>

section \<open>Limb arithmetic\<close>

type_synonym limbs8 = "u32 list"

definition u256FromUInt256 :: "u256 \<Rightarrow> limbs8" where
  "u256FromUInt256 v = map (\<lambda>i. UInt32GetLE (drop (4 * i) (UInt256Set v))) [0..<8]"

definition u256ToUInt256 :: "limbs8 \<Rightarrow> u256" where
  "u256ToUInt256 a = UInt256Get (concat (map UInt32SetLE a))"

definition shiftLeftStep :: "limbs8 \<Rightarrow> nat \<Rightarrow> nat \<Rightarrow> limbs8 \<Rightarrow> nat \<Rightarrow> limbs8" where
  "shiftLeftStep a k s r i =
     (let r = (if i + k + 1 < 8 \<and> s \<noteq> 0 then r[i + k + 1 := r ! (i + k + 1) OR drop_bit (32 - s) (a ! i)] else r)
      in if i + k < 8 then r[i + k := r ! (i + k) OR push_bit s (a ! i)] else r)"

definition u256ShiftLeft :: "limbs8 \<Rightarrow> nat \<Rightarrow> limbs8" where
  "u256ShiftLeft a bits = foldl (shiftLeftStep a (bits div 32) (bits mod 32)) (replicate 8 0) [0..<8]"

definition shiftRightStep :: "limbs8 \<Rightarrow> nat \<Rightarrow> nat \<Rightarrow> limbs8 \<Rightarrow> nat \<Rightarrow> limbs8" where
  "shiftRightStep a k s r i =
     (let r = (if i \<ge> k + 1 \<and> s \<noteq> 0 then r[i - k - 1 := r ! (i - k - 1) OR push_bit (32 - s) (a ! i)] else r)
      in if i \<ge> k then r[i - k := r ! (i - k) OR drop_bit s (a ! i)] else r)"

definition u256ShiftRight :: "limbs8 \<Rightarrow> nat \<Rightarrow> limbs8" where
  "u256ShiftRight a bits = foldl (shiftRightStep a (bits div 32) (bits mod 32)) (replicate 8 0) [0..<8]"

text \<open>The loops from the lowest limb up, and from the highest down (on the reversed limbs).\<close>

fun mulLoop :: "u32 \<Rightarrow> u64 \<Rightarrow> limbs8 \<Rightarrow> limbs8" where
  "mulLoop m carry [] = []"
| "mulLoop m carry (w # ws) = (let n = carry + ucast w * ucast m in ucast n # mulLoop m (drop_bit 32 n) ws)"

definition u256MulU32 :: "limbs8 \<Rightarrow> u32 \<Rightarrow> limbs8" where "u256MulU32 a m = mulLoop m 0 a"

fun divLoop :: "u32 \<Rightarrow> u64 \<Rightarrow> limbs8 \<Rightarrow> limbs8" where
  "divLoop d rem [] = []"
| "divLoop d rem (w # ws) = (let n = push_bit 32 rem OR ucast w in ucast (n div ucast d) # divLoop d (n mod ucast d) ws)"

definition u256DivU32 :: "limbs8 \<Rightarrow> u32 \<Rightarrow> limbs8" where "u256DivU32 a d = rev (divLoop d 0 (rev a))"

fun cmpLoop :: "limbs8 \<Rightarrow> limbs8 \<Rightarrow> int" where
  "cmpLoop (v # vs) (w # ws) = (if v < w then - 1 else if v > w then 1 else cmpLoop vs ws)"
| "cmpLoop _ _ = 0"

definition u256Cmp :: "limbs8 \<Rightarrow> limbs8 \<Rightarrow> int" where "u256Cmp a b = cmpLoop (rev a) (rev b)"

primrec topBitLoop :: "u32 \<Rightarrow> nat \<Rightarrow> nat" where
  "topBitLoop w 0 = 0"
| "topBitLoop w (Suc b) = (if w AND push_bit b 1 \<noteq> 0 then b + 1 else topBitLoop w b)"

primrec bitsLoop :: "limbs8 \<Rightarrow> nat \<Rightarrow> nat" where
  "bitsLoop a 0 = 0"
| "bitsLoop a (Suc i) = (if a ! i = 0 then bitsLoop a i else 32 * i + topBitLoop (a ! i) 32)"

definition u256Bits :: "limbs8 \<Rightarrow> nat" where "u256Bits a = bitsLoop a 8"

section \<open>The number eight limbs stand for\<close>

fun limbs_val :: "limbs8 \<Rightarrow> nat" where
  "limbs_val [] = 0"
| "limbs_val (w # ws) = unat w + 2 ^ 32 * limbs_val ws"

lemma unat_u32: "unat (w :: u32) < 2 ^ 32"
  using unsigned_less[of w] by simp

lemma unat_wide [simp]: "unat (ucast w :: u64) = unat w" for w :: u32
  by (simp add: unsigned_ucast_eq take_bit_nat_eq_self less_le_trans[OF unat_u32])

lemma limbs_val_less: "limbs_val ws < 2 ^ (32 * length ws)"
proof (induction ws)
  case (Cons w ws)
  then have "limbs_val ws + 1 \<le> 2 ^ (32 * length ws)" by simp
  then have "2 ^ 32 * (limbs_val ws + 1) \<le> 2 ^ 32 * 2 ^ (32 * length ws)" by (rule mult_le_mono2)
  then show ?case using unat_u32[of w] by (simp add: power_add)
qed simp

lemma limbs_val_append: "limbs_val (xs @ ys) = limbs_val xs + 2 ^ (32 * length xs) * limbs_val ys"
  by (induction xs) (simp_all add: power_add algebra_simps)

lemma limbs_val_zero [simp]: "limbs_val (replicate n 0) = 0"
  by (induction n) simp_all

lemma limbs_val_eq_0: "limbs_val ws = 0 \<longleftrightarrow> (\<forall>w\<in>set ws. w = 0)"
  by (induction ws) (simp_all add: unat_eq_0)

lemma bit_limbs_val: "bit (limbs_val ws) n \<longleftrightarrow> n < 32 * length ws \<and> bit (ws ! (n div 32)) (n mod 32)"
proof (induction ws arbitrary: n)
  case (Cons w ws)
  show ?case
  proof (cases "n < 32")
    case True
    have "(unat w + 2 ^ 32 * limbs_val ws) div 2 ^ n = unat w div 2 ^ n + 2 ^ (32 - n) * limbs_val ws"
    proof -
      have "(2::nat) ^ 32 = 2 ^ n * 2 ^ (32 - n)" using True by (simp only: flip: power_add) simp
      then have "unat w + 2 ^ 32 * limbs_val ws = unat w + 2 ^ n * (2 ^ (32 - n) * limbs_val ws)" by (simp only: mult.assoc)
      then show ?thesis by (simp only: div_mult_self2) simp
    qed
    then have "bit (limbs_val (w # ws)) n \<longleftrightarrow> odd (unat w div 2 ^ n)"
      using True by (simp add: bit_iff_odd)
    then show ?thesis using True by (simp add: bit_unsigned_iff flip: bit_iff_odd)
  next
    case False
    have "(unat w + 2 ^ 32 * limbs_val ws) div 2 ^ 32 = limbs_val ws"
      using unat_u32[of w] by simp
    then have "(unat w + 2 ^ 32 * limbs_val ws) div 2 ^ n = limbs_val ws div 2 ^ (n - 32)"
      using False by (metis div_exp_eq le_add_diff_inverse linorder_not_less)
    then have "bit (limbs_val (w # ws)) n \<longleftrightarrow> bit (limbs_val ws) (n - 32)"
      by (simp add: bit_iff_odd)
    moreover have "n div 32 = Suc ((n - 32) div 32)" "n mod 32 = (n - 32) mod 32" using False
      by (simp_all add: le_div_geq le_mod_geq)
    ultimately show ?thesis using Cons.IH[of "n - 32"] False by auto
  qed
qed simp

lemma limbs_val_inj: "length xs = length ys \<Longrightarrow> limbs_val xs = limbs_val ys \<Longrightarrow> xs = ys"
proof (induction xs ys rule: list_induct2)
  case (Cons x xs y ys)
  have "unat x = limbs_val (x # xs) mod 2 ^ 32" "unat y = limbs_val (y # ys) mod 2 ^ 32"
    using unat_u32[of x] unat_u32[of y] by simp_all
  then have "unat x = unat y" using Cons.prems by (simp only:)
  then show ?case using Cons by (simp add: word_unat_eq_iff)
qed simp

section \<open>Multiplication, division, comparison\<close>

lemma length_mulLoop [simp]: "length (mulLoop m c ws) = length ws"
  by (induction ws arbitrary: c) (simp_all add: Let_def)

lemma length_divLoop [simp]: "length (divLoop d r ws) = length ws"
  by (induction ws arbitrary: r) (simp_all add: Let_def)

lemma mul_step:
  fixes c :: u64 and w m :: u32
  assumes "unat c < 2 ^ 32"
  shows "unat (c + ucast w * ucast m) = unat c + unat w * unat m"
    and "unat (drop_bit 32 (c + ucast w * ucast m)) < 2 ^ 32"
proof -
  have "unat w * unat m \<le> (2 ^ 32 - 1) * (2 ^ 32 - 1)"
    using unat_u32[of w] unat_u32[of m] by (intro mult_le_mono) simp_all
  then have "unat c + unat w * unat m < 2 ^ 64" using assms by simp
  then show 1: "unat (c + ucast w * ucast m) = unat c + unat w * unat m"
    by (simp add: unat_word_ariths)
  show "unat (drop_bit 32 (c + ucast w * ucast m)) < 2 ^ 32"
    using unsigned_less[of "c + ucast w * ucast m", where ?'a = nat] by (simp add: unat_drop_bit_div less_mult_imp_div_less)
qed

lemma unat_low_limb: "unat (ucast n :: u32) = unat n mod 2 ^ 32" for n :: u64
  by (simp add: unsigned_ucast_eq take_bit_eq_mod)

lemma mulLoop_val:
  "unat c < 2 ^ 32 \<Longrightarrow> limbs_val (mulLoop m c ws) = (unat c + limbs_val ws * unat m) mod 2 ^ (32 * length ws)"
proof (induction ws arbitrary: c)
  case (Cons w ws)
  let ?n = "c + ucast w * ucast m"
  have IH: "limbs_val (mulLoop m (drop_bit 32 ?n) ws) = (unat ?n div 2 ^ 32 + limbs_val ws * unat m) mod 2 ^ (32 * length ws)"
    unfolding Cons.IH[OF mul_step(2)[OF Cons.prems]] by (simp only: unat_drop_bit_div)
  have "limbs_val (mulLoop m c (w # ws)) =
      unat ?n mod 2 ^ 32 + 2 ^ 32 * ((unat ?n div 2 ^ 32 + limbs_val ws * unat m) mod 2 ^ (32 * length ws))"
    unfolding mulLoop.simps Let_def limbs_val.simps IH unat_low_limb ..
  also have "\<dots> = (unat ?n + 2 ^ 32 * (limbs_val ws * unat m)) mod (2 ^ 32 * 2 ^ (32 * length ws))"
    by (simp add: mod_mult2_eq add.commute)
  also have "unat ?n = unat c + unat w * unat m" by (rule mul_step(1)[OF Cons.prems])
  finally show ?case by (simp add: algebra_simps power_add)
qed simp

lemma u256MulU32_val: "length a = 8 \<Longrightarrow> limbs_val (u256MulU32 a m) = limbs_val a * unat m mod 2 ^ 256"
  unfolding u256MulU32_def by (subst mulLoop_val) simp_all

lemma div_step:
  fixes r :: u64 and d w :: u32
  assumes "unat r < unat d"
  shows "unat (push_bit 32 r OR ucast w) = unat r * 2 ^ 32 + unat w"
proof -
  have r: "unat r < 2 ^ 32" using assms unat_u32[of d] by simp
  have "push_bit 32 r AND ucast w = 0"
    by (rule bit_word_eqI) (auto simp: bit_simps dest: bit_imp_le_length)
  then have "push_bit 32 r OR ucast w = push_bit 32 r + ucast w" by (simp add: disjunctive_add_eq_or)
  moreover have "unat (push_bit 32 r) = unat r * 2 ^ 32"
    using r by (simp add: push_bit_eq_mult unat_word_ariths)
  moreover have "unat r * 2 ^ 32 + unat w < 2 ^ 64" using r unat_u32[of w] by simp
  ultimately show ?thesis by (simp add: unat_plus_small)
qed

lemma divLoop_val:
  "unat r < unat d \<Longrightarrow>
     limbs_val (rev (divLoop d r ws)) = (unat r * 2 ^ (32 * length ws) + limbs_val (rev ws)) div unat d"
proof (induction ws arbitrary: r)
  case (Cons w ws)
  let ?n = "push_bit 32 r OR ucast w" and ?p = "2 ^ (32 * length ws) :: nat"
  have n: "unat ?n = unat r * 2 ^ 32 + unat w" by (rule div_step[OF Cons.prems])
  have "unat r + 1 \<le> unat d" using Cons.prems by simp
  then have "(unat r + 1) * 2 ^ 32 \<le> unat d * 2 ^ 32" by (rule mult_le_mono1)
  then have "unat ?n < unat d * 2 ^ 32" using n unat_u32[of w] by simp
  then have q: "unat ?n div unat d < 2 ^ 32" by (simp add: less_mult_imp_div_less mult.commute)
  have quot: "unat (ucast (?n div ucast d) :: u32) = unat ?n div unat d"
    using q by (simp add: unat_low_limb unat_div)
  have rest: "unat (?n mod ucast d) = unat ?n mod unat d" by (simp add: unat_mod)
  have "unat ?n mod unat d < unat d" using Cons.prems by simp
  then have "limbs_val (rev (divLoop d (?n mod ucast d) ws)) = (unat ?n mod unat d * ?p + limbs_val (rev ws)) div unat d"
    using Cons.IH[of "?n mod ucast d"] by (simp add: rest)
  then have "limbs_val (rev (divLoop d r (w # ws))) =
      (unat ?n mod unat d * ?p + limbs_val (rev ws)) div unat d + ?p * (unat ?n div unat d)"
    by (simp add: Let_def limbs_val_append quot)
  also have "\<dots> = (unat ?n mod unat d * ?p + limbs_val (rev ws) + unat d * (?p * (unat ?n div unat d))) div unat d"
    using Cons.prems by simp
  also have "m * ?p + v + unat d * (?p * k) = (unat d * k + m) * ?p + v" for m v k :: nat
    by (simp add: algebra_simps)
  also have "(unat d * (unat ?n div unat d) + unat ?n mod unat d) * ?p + limbs_val (rev ws) = unat r * 2 ^ (32 * length (w # ws)) + limbs_val (rev (w # ws))"
    unfolding mult_div_mod_eq n by (simp add: limbs_val_append power_add algebra_simps)
  finally show ?case .
qed simp

lemma u256DivU32_val: "d \<noteq> 0 \<Longrightarrow> limbs_val (u256DivU32 a d) = limbs_val a div unat d"
  unfolding u256DivU32_def by (subst divLoop_val) (simp_all add: unat_gt_0)

lemma length_mul_div [simp]: "length (u256MulU32 a m) = length a" "length (u256DivU32 a d) = length a"
  by (simp_all add: u256MulU32_def u256DivU32_def)

lemma limbs_val_snoc_less:
  assumes "length vs = length ws" "v < w"
  shows "limbs_val (vs @ [v]) < limbs_val (ws @ [w])"
proof -
  have "unat v + 1 \<le> unat w" using assms(2) by (simp add: word_less_nat_alt)
  then have "2 ^ (32 * length ws) * (unat v + 1) \<le> 2 ^ (32 * length ws) * unat w" by (rule mult_le_mono2)
  then show ?thesis using limbs_val_less[of vs] by (simp add: limbs_val_append assms(1))
qed

lemma cmpLoop_val:
  "length vs = length ws \<Longrightarrow> cmpLoop vs ws = sgn (int (limbs_val (rev vs)) - int (limbs_val (rev ws)))"
proof (induction vs ws rule: list_induct2)
  case (Cons v vs w ws)
  have len: "length (rev vs) = length (rev ws)" "length (rev ws) = length (rev vs)" using Cons.hyps by simp_all
  consider "v < w" | "w < v" | "v = w" by force
  then show ?case
  proof cases
    case 1 then show ?thesis using limbs_val_snoc_less[OF len(1) 1] by simp
  next
    case 2 then show ?thesis using limbs_val_snoc_less[OF len(2) 2] by simp
  next
    case 3 then show ?thesis using Cons by (simp add: limbs_val_append)
  qed
qed simp

lemma u256Cmp_greater: "length a = length b \<Longrightarrow> u256Cmp a b > 0 \<longleftrightarrow> limbs_val a > limbs_val b"
  unfolding u256Cmp_def by (subst cmpLoop_val) auto

section \<open>Shifts\<close>

lemma shiftLeft_prefix:
  assumes "length a = 8" "m \<le> 8"
  shows "length (foldl (shiftLeftStep a k s) (replicate 8 0) [0..<m]) = 8 \<and>
    (\<forall>j<8. foldl (shiftLeftStep a k s) (replicate 8 0) [0..<m] ! j =
       (if k \<le> j \<and> j < m + k then push_bit s (a ! (j - k)) else 0) OR
       (if k + 1 \<le> j \<and> j < m + k + 1 \<and> s \<noteq> 0 then drop_bit (32 - s) (a ! (j - k - 1)) else 0))"
  using assms(2)
proof (induction m)
  case (Suc m)
  then show ?case by (auto simp: shiftLeftStep_def Let_def nth_list_update less_Suc_eq Suc_le_eq ac_simps)
qed auto

lemma shiftRight_prefix:
  assumes "length a = 8" "m \<le> 8"
  shows "length (foldl (shiftRightStep a k s) (replicate 8 0) [0..<m]) = 8 \<and>
    (\<forall>j<8. foldl (shiftRightStep a k s) (replicate 8 0) [0..<m] ! j =
       (if j + k < m then drop_bit s (a ! (j + k)) else 0) OR
       (if j + k + 1 < m \<and> s \<noteq> 0 then push_bit (32 - s) (a ! (j + k + 1)) else 0))"
  using assms(2)
proof (induction m)
  case (Suc m)
  then show ?case by (auto simp: shiftRightStep_def Let_def nth_list_update less_Suc_eq Suc_le_eq ac_simps)
qed auto

lemma split_minus:
  fixes j k t s :: nat
  assumes "t < 32" "s < 32"
  shows "s \<le> t \<Longrightarrow> k \<le> j \<Longrightarrow> (32 * j + t - (32 * k + s)) div 32 = j - k"
    and "s \<le> t \<Longrightarrow> k \<le> j \<Longrightarrow> (32 * j + t - (32 * k + s)) mod 32 = t - s"
    and "t < s \<Longrightarrow> k < j \<Longrightarrow> (32 * j + t - (32 * k + s)) div 32 = j - k - 1"
    and "t < s \<Longrightarrow> k < j \<Longrightarrow> (32 * j + t - (32 * k + s)) mod 32 = 32 + t - s"
proof -
  show "(32 * j + t - (32 * k + s)) div 32 = j - k" "(32 * j + t - (32 * k + s)) mod 32 = t - s" if "s \<le> t" "k \<le> j"
  proof -
    have "32 * j + t - (32 * k + s) = (t - s) + 32 * (j - k)" using that by simp
    moreover have "t - s < 32" using assms by simp
    ultimately show "(32 * j + t - (32 * k + s)) div 32 = j - k" "(32 * j + t - (32 * k + s)) mod 32 = t - s"
      by (simp_all only: div_mult_self2 mod_mult_self2 div_less mod_less)
  qed
  show "(32 * j + t - (32 * k + s)) div 32 = j - k - 1" "(32 * j + t - (32 * k + s)) mod 32 = 32 + t - s" if "t < s" "k < j"
  proof -
    have "32 * j + t - (32 * k + s) = (32 + t - s) + 32 * (j - k - 1)" using that assms by simp
    moreover have "32 + t - s < 32" using assms that by simp
    ultimately show "(32 * j + t - (32 * k + s)) div 32 = j - k - 1" "(32 * j + t - (32 * k + s)) mod 32 = 32 + t - s"
      by (simp_all only: div_mult_self2 mod_mult_self2 div_less mod_less)
  qed
qed

lemma u256ShiftLeft_bit:
  assumes "length a = 8" "n < 256"
  shows "bit (limbs_val (u256ShiftLeft a b)) n \<longleftrightarrow> b \<le> n \<and> bit (limbs_val a) (n - b)"
proof -
  let ?j = "n div 32" and ?t = "n mod 32" and ?k = "b div 32" and ?s = "b mod 32"
  note pre = shiftLeft_prefix[OF assms(1), of 8 ?k ?s, folded u256ShiftLeft_def]
  have j: "?j < 8" using assms(2) by (simp add: less_mult_imp_div_less)
  have n: "n = 32 * ?j + ?t" and b: "b = 32 * ?k + ?s" by simp_all
  have ts: "?t < 32" "?s < 32" by simp_all
  have len: "length (u256ShiftLeft a b) = 8" using pre by simp
  have "bit (limbs_val (u256ShiftLeft a b)) n \<longleftrightarrow>
      ?k \<le> ?j \<and> ?s \<le> ?t \<and> bit (a ! (?j - ?k)) (?t - ?s) \<or>
      ?k + 1 \<le> ?j \<and> ?s \<noteq> 0 \<and> bit (a ! (?j - ?k - 1)) (32 - ?s + ?t)"
    using pre j assms(2) by (auto simp: bit_limbs_val len bit_simps)
  also have "\<dots> \<longleftrightarrow> b \<le> n \<and> bit (limbs_val a) (n - b)"
  proof (cases "?s \<le> ?t")
    case True
    then have "\<not> (?s \<noteq> 0 \<and> bit (a ! (?j - ?k - 1)) (32 - ?s + ?t))" by (auto dest: bit_imp_le_length)
    moreover have "b \<le> n \<longleftrightarrow> ?k \<le> ?j" using True n b ts by linarith
    moreover have "bit (limbs_val a) (n - b) \<longleftrightarrow> bit (a ! (?j - ?k)) (?t - ?s)" if "?k \<le> ?j"
      using split_minus(1,2)[OF ts True that] assms less_imp_diff_less[OF assms(2), of b] by (simp add: bit_limbs_val)
    ultimately show ?thesis using True by blast
  next
    case False
    then have "b \<le> n \<longleftrightarrow> ?k < ?j" using n b ts by linarith
    moreover have "bit (limbs_val a) (n - b) \<longleftrightarrow> bit (a ! (?j - ?k - 1)) (32 - ?s + ?t)" if "?k < ?j"
      using split_minus(3,4)[OF ts _ that] False assms ts(2) less_imp_diff_less[OF assms(2), of b] by (simp add: bit_limbs_val)
    ultimately show ?thesis using False by (auto simp: Suc_le_eq)
  qed
  finally show ?thesis .
qed

lemma u256ShiftRight_bit:
  assumes "length a = 8" "n < 256"
  shows "bit (limbs_val (u256ShiftRight a b)) n \<longleftrightarrow> bit (limbs_val a) (n + b)"
proof -
  let ?j = "n div 32" and ?t = "n mod 32" and ?k = "b div 32" and ?s = "b mod 32"
  note pre = shiftRight_prefix[OF assms(1), of 8 ?k ?s, folded u256ShiftRight_def]
  have j: "?j < 8" using assms(2) by (simp add: less_mult_imp_div_less)
  have nb: "n + b = 32 * (?j + ?k) + (?t + ?s)" by simp
  have len: "length (u256ShiftRight a b) = 8" using pre by simp
  have *: "bit (limbs_val (u256ShiftRight a b)) n \<longleftrightarrow>
      ?j + ?k < 8 \<and> bit (a ! (?j + ?k)) (?t + ?s) \<or>
      ?j + ?k + 1 < 8 \<and> ?s \<noteq> 0 \<and> 32 - ?s \<le> ?t \<and> bit (a ! (?j + ?k + 1)) (?t - (32 - ?s))"
    using pre j assms(2) by (auto simp: bit_limbs_val len bit_simps add.commute)
  show ?thesis
  proof (cases "?t + ?s < 32")
    case True
    then have "(n + b) div 32 = ?j + ?k" "(n + b) mod 32 = ?t + ?s"
      unfolding nb by (simp_all only: div_mult_self4 mod_mult_self4 div_less mod_less)
    moreover have "32 * x + y < 256 \<longleftrightarrow> x < 8" if "y < 32" for x y :: nat using that by arith
    then have "n + b < 256 \<longleftrightarrow> ?j + ?k < 8" unfolding nb using True by blast
    moreover have "\<not> 32 - ?s \<le> ?t" using True by linarith
    ultimately show ?thesis using True assms(1) unfolding * by (auto simp: bit_limbs_val)
  next
    case False
    have "32 * x + y = 32 * (x + 1) + (y - 32)" if "\<not> y < 32" for x y :: nat using that by simp
    then have e: "n + b = 32 * (?j + ?k + 1) + (?t + ?s - 32)" unfolding nb using False by blast
    have ts: "?t < 32" "?s < 32" by simp_all
    then have less: "?t + ?s - 32 < 32" by linarith
    then have "(n + b) div 32 = ?j + ?k + 1" "(n + b) mod 32 = ?t + ?s - 32"
      unfolding e by (simp_all only: div_mult_self4 mod_mult_self4 div_less mod_less)
    moreover have "32 * x + y < 256 \<longleftrightarrow> x < 8" if "y < 32" for x y :: nat using that by arith
    then have "n + b < 256 \<longleftrightarrow> ?j + ?k + 1 < 8" unfolding e using less by blast
    moreover have "\<not> bit (a ! (?j + ?k)) (?t + ?s)" using False by (auto dest: bit_imp_le_length)
    moreover have "?s \<noteq> 0" "32 - ?s \<le> ?t" "?t - (32 - ?s) = ?t + ?s - 32" using False by auto
    ultimately show ?thesis using assms(1) unfolding * by (auto simp: bit_limbs_val)
  qed
qed

lemma length_shift [simp]:
  "length a = 8 \<Longrightarrow> length (u256ShiftLeft a b) = 8" "length a = 8 \<Longrightarrow> length (u256ShiftRight a b) = 8"
  unfolding u256ShiftLeft_def u256ShiftRight_def
  using shiftLeft_prefix[of a 8 "b div 32" "b mod 32"] shiftRight_prefix[of a 8 "b div 32" "b mod 32"] by simp_all

lemma u256ShiftLeft_val: "limbs_val (u256ShiftLeft a b) = limbs_val a * 2 ^ b mod 2 ^ 256" if "length a = 8"
proof -
  have "limbs_val (u256ShiftLeft a b) = take_bit 256 (push_bit b (limbs_val a))"
  proof (rule bit_eqI)
    fix n
    show "bit (limbs_val (u256ShiftLeft a b)) n \<longleftrightarrow> bit (take_bit 256 (push_bit b (limbs_val a))) n"
    proof (cases "n < 256")
      case True then show ?thesis using u256ShiftLeft_bit[OF that True, of b] by (simp add: bit_simps)
    next
      case False then show ?thesis using that by (simp add: bit_simps bit_limbs_val)
    qed
  qed
  then show ?thesis by (simp add: take_bit_eq_mod push_bit_eq_mult)
qed

lemma u256ShiftRight_val: "limbs_val (u256ShiftRight a b) = limbs_val a div 2 ^ b" if "length a = 8"
proof -
  have "limbs_val (u256ShiftRight a b) = drop_bit b (limbs_val a)"
  proof (rule bit_eqI)
    fix n
    show "bit (limbs_val (u256ShiftRight a b)) n \<longleftrightarrow> bit (drop_bit b (limbs_val a)) n"
    proof (cases "n < 256")
      case True then show ?thesis using u256ShiftRight_bit[OF that True, of b] by (simp add: bit_simps add.commute)
    next
      case False then show ?thesis using that by (simp add: bit_simps bit_limbs_val)
    qed
  qed
  then show ?thesis by (simp add: drop_bit_eq_div)
qed

section \<open>Reading and writing 256-bit values\<close>

lemma length_u256FromUInt256 [simp]: "length (u256FromUInt256 v) = 8"
  by (simp add: u256FromUInt256_def)

lemma u256FromUInt256_val: "limbs_val (u256FromUInt256 v) = unat v"
proof (rule bit_eqI)
  fix n
  show "bit (limbs_val (u256FromUInt256 v)) n \<longleftrightarrow> bit (unat v) n"
  proof (cases "n < 256")
    case True
    let ?i = "n div 32" and ?t = "n mod 32"
    have i: "?i < 8" using True by (simp add: less_mult_imp_div_less)
    have "8 * (4 * j + q) + r = 32 * j + (8 * q + r)" for j q r :: nat by simp
    then have e: "8 * (4 * ?i + ?t div 8) + ?t mod 8 = n" by (simp only: mult_div_mod_eq)
    have "?t div 8 < 4" by (simp add: less_mult_imp_div_less)
    then have "bit (UInt32GetLE (drop (4 * ?i) (UInt256Set v))) ?t \<longleftrightarrow> bit (put_le 32 v ! (4 * ?i + ?t div 8)) (?t mod 8)"
      using i by (simp add: UInt32GetLE_def UInt256Set_def bit_get_le)
    also have "\<dots> \<longleftrightarrow> bit v n" using i \<open>?t div 8 < 4\<close> e by (simp add: bit_put_le)
    finally show ?thesis using True i by (simp add: bit_limbs_val u256FromUInt256_def bit_unsigned_iff)
  next
    case False then show ?thesis by (auto simp: bit_limbs_val u256FromUInt256_def bit_unsigned_iff dest: bit_imp_le_length)
  qed
qed

lemma nth_concat_32: "i < 4 * length a \<Longrightarrow> concat (map UInt32SetLE a) ! i = UInt32SetLE (a ! (i div 4)) ! (i mod 4)"
proof (induction a arbitrary: i)
  case (Cons w ws)
  then show ?case by (cases "i < 4") (simp_all add: nth_append le_div_geq le_mod_geq)
qed simp

lemma u256ToUInt256_val:
  assumes "length a = 8"
  shows "unat (u256ToUInt256 a) = limbs_val a"
proof (rule bit_eqI)
  fix n
  have len: "length (concat (map UInt32SetLE a)) = 32" using assms by (simp add: length_concat comp_def sum_list_triv)
  show "bit (unat (u256ToUInt256 a)) n \<longleftrightarrow> bit (limbs_val a) n"
  proof (cases "n < 256")
    case True
    let ?b = "n div 8"
    have b: "?b < 32" using True by (simp add: less_mult_imp_div_less)
    have e: "?b div 4 = n div 32" "8 * (?b mod 4) + n mod 8 = n mod 32"
      using mod_mult2_eq[of n 8 4] by (simp_all add: div_mult2_eq[symmetric])
    have "bit (u256ToUInt256 a) n \<longleftrightarrow> bit (concat (map UInt32SetLE a) ! ?b) (n mod 8)"
      using True b len by (simp add: u256ToUInt256_def UInt256Get_def bit_get_le)
    also have "\<dots> \<longleftrightarrow> bit (UInt32SetLE (a ! (n div 32)) ! (?b mod 4)) (n mod 8)"
      using b assms e by (simp add: nth_concat_32)
    also have "\<dots> \<longleftrightarrow> bit (a ! (n div 32)) (n mod 32)" by (simp add: UInt32SetLE_def bit_put_le e)
    finally show ?thesis using True assms by (simp add: bit_limbs_val bit_unsigned_iff)
  next
    case False then show ?thesis using assms by (auto simp: bit_limbs_val bit_unsigned_iff dest: bit_imp_le_length)
  qed
qed

section \<open>The number of bits\<close>

lemma topBitLoop_bits:
  "topBitLoop w b \<le> b \<and> (\<forall>i. topBitLoop w b \<le> i \<and> i < b \<longrightarrow> \<not> bit w i) \<and>
   (topBitLoop w b \<noteq> 0 \<longrightarrow> bit w (topBitLoop w b - 1))"
proof (induction b)
  case (Suc b)
  have "w AND push_bit b 1 \<noteq> 0 \<longleftrightarrow> bit w b"
    by (simp add: and_exp_eq_0_iff_not_bit push_bit_eq_mult)
  then show ?case using Suc by (auto simp: less_Suc_eq)
qed simp

lemma bitsLoop_bits:
  "n \<le> length a \<Longrightarrow> (\<forall>i. bitsLoop a n \<le> i \<and> i < 32 * n \<longrightarrow> \<not> bit (limbs_val a) i) \<and>
   (bitsLoop a n \<noteq> 0 \<longrightarrow> bit (limbs_val a) (bitsLoop a n - 1)) \<and> bitsLoop a n \<le> 32 * n"
proof (induction n)
  case (Suc n)
  note top = topBitLoop_bits[of "a ! n" 32]
  have limb: "bit (limbs_val a) (32 * n + t) \<longleftrightarrow> bit (a ! n) t" if "t < 32" for t
    using that Suc.prems by (simp add: bit_limbs_val)
  have split: "i = 32 * n + (i - 32 * n) \<and> i - 32 * n < 32" if "32 * n \<le> i" "i < 32 * Suc n" for i
    using that by simp
  show ?case
  proof (cases "a ! n = 0")
    case True
    have "\<not> bit (limbs_val a) i" if "32 * n \<le> i" "i < 32 * Suc n" for i
      using limb[of "i - 32 * n"] split[OF that] True by simp
    then have "\<not> bit (limbs_val a) i" if "bitsLoop a n \<le> i" "i < 32 * Suc n" for i
      using Suc that by (cases "32 * n \<le> i") simp_all
    then show ?thesis using Suc True by simp
  next
    case False
    have nz: "topBitLoop (a ! n) 32 \<noteq> 0"
    proof
      assume "topBitLoop (a ! n) 32 = 0"
      then have "\<not> bit (a ! n) i" if "i < 32" for i using top that by auto
      then have "a ! n = 0" by (intro bit_word_eqI) simp
      then show False using False by simp
    qed
    have above: "\<not> bit (limbs_val a) i" if "32 * n + topBitLoop (a ! n) 32 \<le> i" "i < 32 * Suc n" for i
    proof -
      have "32 * n \<le> i" "topBitLoop (a ! n) 32 \<le> i - 32 * n" using that(1) by simp_all
      then show ?thesis using limb[of "i - 32 * n"] split[OF _ that(2)] top by simp
    qed
    have "32 * n + topBitLoop (a ! n) 32 - 1 = 32 * n + (topBitLoop (a ! n) 32 - 1)" "topBitLoop (a ! n) 32 - 1 < 32"
      using nz top[THEN conjunct1] by linarith+
    then have "bit (limbs_val a) (32 * n + topBitLoop (a ! n) 32 - 1)" using limb top nz by (simp only:) simp
    then show ?thesis using False top above by simp
  qed
qed simp

lemma u256Bits_bounds:
  assumes "length a = 8"
  shows "limbs_val a < 2 ^ u256Bits a" and "u256Bits a \<noteq> 0 \<Longrightarrow> 2 ^ (u256Bits a - 1) \<le> limbs_val a" and "u256Bits a \<le> 256"
proof -
  note b = bitsLoop_bits[of 8 a, folded u256Bits_def]
  have "\<not> bit (limbs_val a) i" if "u256Bits a \<le> i" for i
    using b assms that by (cases "i < 256") (simp_all add: bit_limbs_val)
  then have "take_bit (u256Bits a) (limbs_val a) = limbs_val a"
    by (intro bit_eqI) (metis bit_take_bit_iff not_less)
  then show "limbs_val a < 2 ^ u256Bits a" by (simp add: take_bit_nat_eq_self_iff)
  show "2 ^ (u256Bits a - 1) \<le> limbs_val a" if "u256Bits a \<noteq> 0"
  proof -
    have "odd (limbs_val a div 2 ^ (u256Bits a - 1))" using b that assms by (simp add: bit_iff_odd)
    then have "limbs_val a div 2 ^ (u256Bits a - 1) \<noteq> 0" by (metis even_zero)
    then show ?thesis by (simp add: div_eq_0_iff not_less)
  qed
  show "u256Bits a \<le> 256" using b assms by simp
qed

end
