(* ===== verification/Difficulty.thy ===== *)
theory Difficulty
  imports Limbs "HOL-Library.Multiset" "HOL-Library.Signed_Division"
begin

text \<open>
  The compact form of a difficulty target and the MultiShield V4 target of \<open>src/BRMerkleBlock.c\<close>, on the
  limbs of theory Limbs.
\<close>

section \<open>Compact targets\<close>

text \<open>The limbs with the two flags, sign and overflow.\<close>

definition u256SetCompact :: "u32 \<Rightarrow> limbs8 \<times> bool \<times> bool" where
  "u256SetCompact compact =
     (let size = unat (drop_bit 24 compact);
          word = compact AND 0x007fffff;
          word = (if size \<le> 3 then drop_bit (8 * (3 - size)) word else word);
          a = (replicate 8 0)[0 := word];
          a = (if size \<le> 3 then a else u256ShiftLeft a (8 * (size - 3)))
      in (a, word \<noteq> 0 \<and> compact AND 0x00800000 \<noteq> 0,
          word \<noteq> 0 \<and> (size > 34 \<or> (word > 0xff \<and> size > 33) \<or> (word > 0xffff \<and> size > 32))))"

definition u256GetCompact :: "limbs8 \<Rightarrow> bool \<Rightarrow> u32" where
  "u256GetCompact a negative =
     (let size = (u256Bits a + 7) div 8;
          compact = (if size \<le> 3 then push_bit (8 * (3 - size)) (a ! 0)
                     else u256ShiftRight a (8 * (size - 3)) ! 0);
          (compact, size) = (if compact AND 0x00800000 \<noteq> 0 then (drop_bit 8 compact, size + 1) else (compact, size));
          compact = compact OR push_bit 24 (of_nat size)
      in if negative \<and> compact AND 0x007fffff \<noteq> 0 then compact OR 0x00800000 else compact)"

definition BRTargetFromCompact :: "u32 \<Rightarrow> u256 \<times> bool \<times> bool" where
  "BRTargetFromCompact compact = (case u256SetCompact compact of (a, neg, large) \<Rightarrow> (u256ToUInt256 a, neg, large))"

definition BRTargetToCompact :: "u256 \<Rightarrow> bool \<Rightarrow> u32" where
  "BRTargetToCompact target negative = u256GetCompact (u256FromUInt256 target) negative"

section \<open>The MultiShield V4 target\<close>

record difficulty_v4_params =
  dp_workComputationHeight :: u32
  dp_averagingInterval :: u32
  dp_averagingTargetTimespan :: int
  dp_minActualTimespan :: int
  dp_maxActualTimespan :: int
  dp_localTargetAdjustment :: u32
  dp_powLimitShift :: u32
  dp_allowMinDifficultyBlocks :: bool
  dp_targetSpacing :: int

definition BR_DIFF_V4_NUM_ALGOS :: int where "BR_DIFF_V4_NUM_ALGOS = 5"
definition BR_DIFF_V4_MEDIAN_SPAN :: nat where "BR_DIFF_V4_MEDIAN_SPAN = 11"

definition u256PowLimit :: "difficulty_v4_params \<Rightarrow> limbs8" where
  "u256PowLimit params = u256ShiftRight (replicate 8 0xffffffff) (unat (dp_powLimitShift params))"

definition BRDifficultyV4PowLimitCompact :: "difficulty_v4_params \<Rightarrow> u32" where
  "BRDifficultyV4PowLimitCompact params = u256GetCompact (u256PowLimit params) False"

text \<open>One round of the insertion sort, on the sorted part from its last element to its first.\<close>

fun insertTime :: "int \<Rightarrow> int list \<Rightarrow> int list" where
  "insertTime t [] = [t]"
| "insertTime t (x # xs) = (if x > t then x # insertTime t xs else t # x # xs)"

definition medianTimePast :: "u32 list \<Rightarrow> int" where
  "medianTimePast tms =
     rev (foldl (\<lambda>s t. insertTime (uint t) s) [] (take BR_DIFF_V4_MEDIAN_SPAN tms)) ! (BR_DIFF_V4_MEDIAN_SPAN div 2)"

definition dampedTimespan :: "difficulty_v4_params \<Rightarrow> u32 list \<Rightarrow> u32 list \<Rightarrow> int" where
  "dampedTimespan params lastTimes firstTimes =
     (let span = medianTimePast lastTimes - medianTimePast firstTimes;
          span = dp_averagingTargetTimespan params + ((span - dp_averagingTargetTimespan params) sdiv 4);
          span = (if span < dp_minActualTimespan params then dp_minActualTimespan params else span)
      in if span > dp_maxActualTimespan params then dp_maxActualTimespan params else span)"

text \<open>The loop of an algorithm behind its share, with its early end at the limit.\<close>

primrec easeLoop :: "nat \<Rightarrow> u32 \<Rightarrow> limbs8 \<Rightarrow> limbs8 \<Rightarrow> limbs8" where
  "easeLoop 0 local limit target = target"
| "easeLoop (Suc n) local limit target =
     (let target = u256DivU32 (u256MulU32 target (100 + local)) 100
      in if u256Cmp target limit > 0 then limit else easeLoop n local limit target)"

definition BRDifficultyV4Target :: "difficulty_v4_params \<Rightarrow> u32 list \<Rightarrow> u32 list \<Rightarrow> u32 \<Rightarrow> u32 \<Rightarrow> u32" where
  "BRDifficultyV4Target params lastTimes firstTimes prevAlgoTarget prevAlgoDistance =
     (let actualTimespan = dampedTimespan params lastTimes firstTimes;
          target = fst (u256SetCompact prevAlgoTarget);
          limit = u256PowLimit params;
          target = u256MulU32 target (of_int actualTimespan);
          target = u256DivU32 target (of_int (dp_averagingTargetTimespan params));
          adjustments = BR_DIFF_V4_NUM_ALGOS - 1 - uint prevAlgoDistance;
          local = dp_localTargetAdjustment params;
          target =
            (if adjustments > 0 then
               ((\<lambda>t. u256DivU32 (u256MulU32 t 100) (100 + local)) ^^ nat adjustments) target
             else easeLoop (nat (- adjustments)) local limit target);
          target = (if u256Cmp target limit > 0 then limit else target)
      in u256GetCompact target False)"

text \<open>The verdict counters, of the process and of the calling thread.\<close>

record diff_counts =
  dc_total :: "u32 list"
  dc_thread :: "u32 list"

definition BRMerkleBlockDiffCountAdd :: "nat \<Rightarrow> diff_counts \<Rightarrow> diff_counts" where
  "BRMerkleBlockDiffCountAdd verdict c =
     c\<lparr>dc_total := (dc_total c)[verdict := dc_total c ! verdict + 1], dc_thread := (dc_thread c)[verdict := dc_thread c ! verdict + 1]\<rparr>"

definition BRMerkleBlockDiffCount :: "nat \<Rightarrow> diff_counts \<Rightarrow> u32" where
  "BRMerkleBlockDiffCount verdict c = dc_total c ! verdict"

definition BRMerkleBlockDiffThreadCount :: "nat \<Rightarrow> diff_counts \<Rightarrow> u32" where
  "BRMerkleBlockDiffThreadCount verdict c = dc_thread c ! verdict"

section \<open>Compact targets as numbers\<close>

text \<open>The number of bytes of a value, the compact form of a value, and the value of a compact form.\<close>

fun byte_count :: "nat \<Rightarrow> nat" where
  "byte_count v = (if v = 0 then 0 else Suc (byte_count (v div 256)))"

declare byte_count.simps [simp del]

lemma byte_count_0 [simp]: "byte_count 0 = 0"
  by (simp add: byte_count.simps)

definition compact_of :: "nat \<Rightarrow> nat" where
  "compact_of v =
     (let n = byte_count v; m = (if n \<le> 3 then v * 256 ^ (3 - n) else v div 256 ^ (n - 3))
      in if m \<ge> 2 ^ 23 then m div 256 + 2 ^ 24 * (n + 1) else m + 2 ^ 24 * n)"

definition target_of :: "nat \<Rightarrow> nat" where
  "target_of c =
     (let n = c div 2 ^ 24; m = c mod 2 ^ 23 in if n \<le> 3 then m div 256 ^ (3 - n) else m * 256 ^ (n - 3) mod 2 ^ 256)"

lemma byte_count_bounds: "v < 256 ^ byte_count v \<and> (v \<noteq> 0 \<longrightarrow> 0 < byte_count v \<and> 256 ^ (byte_count v - 1) \<le> v)"
proof (induction v rule: byte_count.induct)
  case (1 v)
  show ?case
  proof (cases "v = 0")
    case False
    note IH = 1[OF False]
    have up: "v < 256 ^ Suc (byte_count (v div 256))" using IH by (simp add: div_less_iff_less_mult mult.commute)
    have "256 ^ byte_count (v div 256) \<le> v"
    proof (cases "v div 256 = 0")
      case True then show ?thesis using False by (simp add: byte_count.simps)
    next
      case ge: False
      then obtain k where k: "byte_count (v div 256) = Suc k" using IH by (cases "byte_count (v div 256)") simp_all
      then have "256 ^ k \<le> v div 256" using IH ge by simp
      then have "256 * 256 ^ k \<le> 256 * (v div 256)" by simp
      also have "\<dots> \<le> v" by simp
      finally show ?thesis by (simp add: k)
    qed
    then show ?thesis using up False by (simp add: byte_count.simps[of v])
  qed (simp add: byte_count.simps)
qed

lemma byte_count_unique:
  assumes "v < 256 ^ n" "n = 0 \<or> 256 ^ (n - 1) \<le> v"
  shows "byte_count v = n"
proof (cases "v = 0")
  case True
  then have "n = 0" using assms(2) by auto
  then show ?thesis using True by (simp add: byte_count.simps)
next
  case False
  note b = byte_count_bounds[of v]
  have n: "n \<noteq> 0" using assms(1) False by (cases n) simp_all
  then have ge: "256 ^ (n - 1) \<le> v" using assms(2) by blast
  have "256 ^ (byte_count v - 1) \<le> v" "v < 256 ^ byte_count v" using b False by blast+
  then have "256 ^ (n - 1) < (256 :: nat) ^ byte_count v" "256 ^ (byte_count v - 1) < (256 :: nat) ^ n"
    using ge assms(1) by (blast intro: le_less_trans)+
  then have "n - 1 < byte_count v" "byte_count v - 1 < n" by (metis one_less_numeral_iff power_strict_increasing_iff semiring_norm(76))+
  then show ?thesis using n b False by linarith
qed

lemma byte_count_bits:
  assumes "length a = 8"
  shows "(u256Bits a + 7) div 8 = byte_count (limbs_val a)"
proof (rule byte_count_unique[symmetric])
  let ?b = "u256Bits a" and ?n = "(u256Bits a + 7) div 8"
  note b = u256Bits_bounds[OF assms]
  have "?b \<le> 8 * ?n" by linarith
  then have "(2::nat) ^ ?b \<le> 2 ^ (8 * ?n)" by (intro power_increasing) simp_all
  then show "limbs_val a < 256 ^ ?n" using b(1) by (simp add: power_mult)
  show "?n = 0 \<or> 256 ^ (?n - 1) \<le> limbs_val a"
  proof (cases "?b = 0")
    case False
    then have "8 * (?n - 1) \<le> ?b - 1" by linarith
    then have "(2::nat) ^ (8 * (?n - 1)) \<le> 2 ^ (?b - 1)" by (intro power_increasing) simp_all
    then show ?thesis using b(2)[OF False] by (simp add: power_mult)
  qed simp
qed

lemma compact_parts:
  obtains e m where "compact_of v = m + 2 ^ 24 * e" "m < 2 ^ 23" "e \<le> 3 \<longrightarrow> m = v * 256 ^ (3 - e)"
    "3 < e \<longrightarrow> m = v div 256 ^ (e - 3)" "3 < e \<longrightarrow> 2 ^ 15 \<le> m"
    "e = byte_count v \<or> e = byte_count v + 1 \<and> m < 2 ^ 16" "m = 0 \<longleftrightarrow> v = 0"
proof -
  let ?n = "byte_count v" and ?m = "if byte_count v \<le> 3 then v * 256 ^ (3 - byte_count v) else v div 256 ^ (byte_count v - 3)"
  note b = byte_count_bounds[of v]
  have split: "(256::nat) ^ ?n = 256 ^ (?n - 3) * 2 ^ 24" if "3 < ?n"
  proof -
    have "(256::nat) ^ ?n = 256 ^ (?n - 3 + 3)" using that by simp
    then show ?thesis by (simp only: power_add) simp
  qed
  have less: "?m < 2 ^ 24"
  proof (cases "?n \<le> 3")
    case True
    have "v * 256 ^ (3 - ?n) < 256 ^ ?n * 256 ^ (3 - ?n)" using b by simp
    then show ?thesis using True by (simp flip: power_add)
  next
    case False
    then show ?thesis using b split by (simp add: less_mult_imp_div_less mult.commute)
  qed
  have ge: "2 ^ 16 \<le> ?m" if "v \<noteq> 0"
  proof (cases "?n \<le> 3")
    case True
    have "(256::nat) ^ (?n - 1) * 256 ^ (3 - ?n) \<le> v * 256 ^ (3 - ?n)" using b that by simp
    moreover have "?n - 1 + (3 - ?n) = 2" using b that True by linarith
    ultimately show ?thesis using True by (simp flip: power_add)
  next
    case False
    have "?n - 1 = 2 + (?n - 3)" using False by simp
    then have "(256::nat) ^ (?n - 1) = 256 ^ (2 + (?n - 3))" by (simp only:)
    also have "\<dots> = 2 ^ 16 * 256 ^ (?n - 3)" by (simp only: power_add) simp
    finally have "2 ^ 16 * 256 ^ (?n - 3) div 256 ^ (?n - 3) \<le> v div 256 ^ (?n - 3)"
      using b that by (intro div_le_mono) simp
    then show ?thesis using False by simp
  qed
  show thesis
  proof (cases "?m \<ge> 2 ^ 23")
    case False
    show thesis
    proof (rule that[of ?m ?n])
      show "compact_of v = ?m + 2 ^ 24 * ?n" using False by (simp add: compact_of_def Let_def)
      have "2 ^ 15 \<le> ?m" if "3 < ?n" using ge that order.trans[of "2 ^ 15" "2 ^ 16 :: nat"] by (cases "v = 0") simp_all
      then show "3 < ?n \<longrightarrow> 2 ^ 15 \<le> ?m" by blast
      show "?m = 0 \<longleftrightarrow> v = 0" using ge by (cases "v = 0") auto
    qed (use False in simp_all)
  next
    case True
    then have nz: "v \<noteq> 0" by (intro notI) simp
    show thesis
    proof (rule that[of "?m div 256" "?n + 1"])
      show "compact_of v = ?m div 256 + 2 ^ 24 * (?n + 1)" using True by (simp add: compact_of_def Let_def)
      show m: "?m div 256 < 2 ^ 23" using less by (simp add: less_mult_imp_div_less)
      show "?n + 1 = ?n \<or> ?n + 1 = ?n + 1 \<and> ?m div 256 < 2 ^ 16" using less by (simp add: less_mult_imp_div_less)
      have ge15: "2 ^ 15 \<le> ?m div 256" using True by (simp add: less_eq_div_iff_mult_less_eq)
      then show "3 < ?n + 1 \<longrightarrow> 2 ^ 15 \<le> ?m div 256" by blast
      show "?m div 256 = 0 \<longleftrightarrow> v = 0" using ge15 nz by simp
      show "?n + 1 \<le> 3 \<longrightarrow> ?m div 256 = v * 256 ^ (3 - (?n + 1))"
      proof
        assume that: "?n + 1 \<le> 3"
        have "3 - ?n = Suc (3 - (?n + 1))" using that by simp
        then show "?m div 256 = v * 256 ^ (3 - (?n + 1))" using that by simp
      qed
      have "?m div 256 = v div 256 ^ (?n + 1 - 3)" if "3 < ?n + 1"
      proof (cases "?n \<le> 3")
        case True
        then have "?n = 3" using that by simp
        then show ?thesis by simp
      next
        case False
        then have "?n + 1 - 3 = Suc (?n - 3)" by simp
        then show ?thesis using False by (simp only: power_Suc2 div_mult2_eq if_False)
      qed
      then show "3 < ?n + 1 \<longrightarrow> ?m div 256 = v div 256 ^ (?n + 1 - 3)" by blast
    qed
  qed
qed

lemma target_of_compact_of:
  assumes "v < 2 ^ 256"
  shows "target_of (compact_of v) \<le> v" and "(v - target_of (compact_of v)) * 2 ^ 15 \<le> v"
    and "compact_of (target_of (compact_of v)) = compact_of v"
proof -
  obtain e m where p: "compact_of v = m + 2 ^ 24 * e" "m < 2 ^ 23" "e \<le> 3 \<longrightarrow> m = v * 256 ^ (3 - e)"
    "3 < e \<longrightarrow> m = v div 256 ^ (e - 3)" "3 < e \<longrightarrow> 2 ^ 15 \<le> m"
    "e = byte_count v \<or> e = byte_count v + 1 \<and> m < 2 ^ 16" "m = 0 \<longleftrightarrow> v = 0"
    by (rule compact_parts[of v])
  have "(m + 2 ^ 24 * e) div 2 ^ 24 = e" using p(2) by simp
  moreover have "(m + 2 ^ 24 * e) mod 2 ^ 23 = m"
    using p(2) mod_mult_self2[of m "2 ^ 23" "2 * e"] by simp
  ultimately have t: "target_of (compact_of v) = (if e \<le> 3 then m div 256 ^ (3 - e) else m * 256 ^ (e - 3) mod 2 ^ 256)"
    unfolding target_of_def p(1) Let_def by (simp only:)
  have "target_of (compact_of v) \<le> v \<and> (v - target_of (compact_of v)) * 2 ^ 15 \<le> v \<and>
        compact_of (target_of (compact_of v)) = compact_of v"
  proof (cases "e \<le> 3")
    case True then show ?thesis using p(3) by (simp add: t)
  next
    case False
    let ?K = "256 ^ (e - 3)" and ?n = "byte_count v"
    have m: "m = v div ?K" "2 ^ 15 \<le> m" using p(4,5) False by simp_all
    have le: "m * ?K \<le> v" using m(1) by (simp add: div_times_less_eq_dividend)
    then have tv: "target_of (compact_of v) = m * ?K" using False assms by (simp add: t)
    have "v - m * ?K = v mod ?K" unfolding m(1) by (rule minus_div_mult_eq_mod)
    then have "(v - m * ?K) * 2 ^ 15 \<le> ?K * 2 ^ 15" by (simp add: less_imp_le)
    also have "\<dots> \<le> m * ?K" using m(2) by simp
    finally have prec: "(v - m * ?K) * 2 ^ 15 \<le> v" using le by simp
    have v0: "v \<noteq> 0" using m by (intro notI) simp
    note b = byte_count_bounds[of v]
    have e: "e = ?n \<or> e = ?n + 1" using p(6) by blast
    have "256 ^ (?n - 1) div ?K * ?K = (256 :: nat) ^ (?n - 1)"
      using e False by (intro dvd_div_mult_self le_imp_power_dvd) linarith
    moreover have "256 ^ (?n - 1) div ?K \<le> m" unfolding m(1) using b v0 by (intro div_le_mono) simp
    ultimately have "256 ^ (?n - 1) \<le> m * ?K" by (metis mult_le_mono1)
    then have bc: "byte_count (m * ?K) = ?n"
      using le b by (intro byte_count_unique) auto
    have "compact_of (m * ?K) = compact_of v"
    proof (cases "e = ?n")
      case True
      then show ?thesis using False bc p(1,2) by (simp add: compact_of_def Let_def)
    next
      case eq: False
      then have e1: "e = ?n + 1" using e by blast
      let ?M = "\<lambda>v. if ?n \<le> 3 then v * 256 ^ (3 - ?n) else v div 256 ^ (?n - 3)"
      have M: "?M (m * ?K) = m * 256"
      proof (cases "?n \<le> 3")
        case True
        then have "?n = 3" using e1 False by simp
        then show ?thesis using e1 by simp
      next
        case ge: False
        then have "e - 3 = Suc (?n - 3)" using e1 by simp
        then show ?thesis using ge by simp
      qed
      have "2 ^ 23 \<le> m * 256" using m(2) by simp
      then show ?thesis unfolding compact_of_def[of "m * ?K"] bc Let_def M p(1) using e1 by simp
    qed
    then show ?thesis using tv le prec by simp
  qed
  then show "target_of (compact_of v) \<le> v" "(v - target_of (compact_of v)) * 2 ^ 15 \<le> v"
    "compact_of (target_of (compact_of v)) = compact_of v" by blast+
qed

section \<open>The words compute them\<close>

lemma unat_mask_eq: "unat (c AND of_nat (2 ^ k - 1)) = unat c mod 2 ^ k" if "k \<le> LENGTH('a)" for c :: "'a::len word"
  using unat_and_mask[of c k] by (simp add: mask_eq_exp_minus_1 of_nat_diff)

lemma length_u256SetCompact [simp]: "length (fst (u256SetCompact c)) = 8"
  by (simp add: u256SetCompact_def Let_def)

lemma word_of_compact: "unat (c AND 0x007fffff) = unat c mod 2 ^ 23" for c :: u32
  using unat_mask_eq[of 23 c] by simp

lemma limbs_val_single: "limbs_val ((replicate 8 0)[0 := w]) = unat w"
proof -
  have "replicate 8 (0::u32) = 0 # replicate 7 0" by (simp flip: replicate_Suc)
  then show ?thesis by simp
qed

lemma compact_small_word:
  "unat (drop_bit (8 * k) (c AND 0x007fffff)) = unat c mod 2 ^ 23 div 256 ^ k" for c :: u32
  unfolding unat_drop_bit_div word_of_compact power_mult by simp

lemma u256SetCompact_val: "limbs_val (fst (u256SetCompact c)) = target_of (unat c)"
proof (cases "unat (drop_bit 24 c) \<le> 3")
  case True
  then have "unat c div 2 ^ 24 \<le> 3" by (simp only: unat_drop_bit_div)
  then show ?thesis using True unfolding u256SetCompact_def Let_def target_of_def
    by (simp only: if_True fst_conv limbs_val_single compact_small_word) (simp only: unat_drop_bit_div)
next
  case False
  then have "\<not> unat c div 2 ^ 24 \<le> 3" by (simp only: unat_drop_bit_div simp_thms)
  moreover have "length ((replicate 8 (0::u32))[0 := c AND 0x007fffff]) = 8" by simp
  ultimately show ?thesis using False unfolding u256SetCompact_def Let_def target_of_def
    by (simp only: if_False fst_conv u256ShiftLeft_val limbs_val_single word_of_compact) (simp add: unat_drop_bit_div power_mult)
qed

lemma u256SetCompact_flags:
  "snd (u256SetCompact c) =
     (let n = unat c div 2 ^ 24; m = (if n \<le> 3 then unat c mod 2 ^ 23 div 256 ^ (3 - n) else unat c mod 2 ^ 23)
      in (m \<noteq> 0 \<and> bit c 23, m \<noteq> 0 \<and> (n > 34 \<or> m > 0xff \<and> n > 33 \<or> m > 0xffff \<and> n > 32)))"
proof -
  have bit: "c AND 0x00800000 \<noteq> 0 \<longleftrightarrow> bit c 23" using and_exp_eq_0_iff_not_bit[of c 23] by simp
  define w where "w = (if unat c div 2 ^ 24 \<le> 3 then drop_bit (8 * (3 - unat c div 2 ^ 24)) (c AND 0x007fffff) else c AND 0x007fffff)"
  have w: "unat w = (if unat c div 2 ^ 24 \<le> 3 then unat c mod 2 ^ 23 div 256 ^ (3 - unat c div 2 ^ 24) else unat c mod 2 ^ 23)"
    unfolding w_def by (simp only: compact_small_word word_of_compact split: if_split) blast
  have "w \<noteq> 0 \<longleftrightarrow> unat w \<noteq> 0" "w > 0xff \<longleftrightarrow> unat w > 0xff" "w > 0xffff \<longleftrightarrow> unat w > 0xffff"
    by (simp_all add: word_less_nat_alt unat_eq_0)
  then show ?thesis
    unfolding u256SetCompact_def Let_def snd_conv unat_drop_bit_div bit w[symmetric] w_def[symmetric] by (simp only:)
qed

lemma limb_0_val: "length a = 8 \<Longrightarrow> unat (a ! 0) = limbs_val a mod 2 ^ 32"
  using unat_u32[of "a ! 0"] by (cases a) simp_all

lemma unat_push_bit_small: "unat w * 2 ^ k < 2 ^ 32 \<Longrightarrow> unat (push_bit k w) = unat w * 2 ^ k" for w :: u32
  by (subst unsigned_push_bit_eq) (simp add: push_bit_eq_mult take_bit_nat_eq_self)

lemma compact_word_parts:
  fixes w :: u32
  assumes "unat w < 2 ^ 23" "n < 256"
  shows "unat (w OR push_bit 24 (of_nat n)) = unat w + 2 ^ 24 * n" and "\<not> bit (w OR push_bit 24 (of_nat n)) 23"
    and "(w OR push_bit 24 (of_nat n)) AND 0x007fffff = w"
proof -
  have w: "\<not> bit w i" if "23 \<le> i" for i
  proof -
    have "unat w div 2 ^ i = 0" using assms(1) power_increasing[of 23 i "2::nat"] that by simp
    then have "\<not> bit (unat w) i" by (simp add: bit_iff_odd)
    then show ?thesis by (auto simp: bit_unsigned_iff dest: bit_imp_le_length)
  qed
  have "w AND push_bit 24 (of_nat n) = 0"
    by (rule bit_word_eqI) (use w in \<open>auto simp: bit_simps\<close>)
  then have "w OR push_bit 24 (of_nat n) = w + push_bit 24 (of_nat n)" by (simp add: disjunctive_add_eq_or)
  moreover have "unat (push_bit 24 (of_nat n) :: u32) = 2 ^ 24 * n"
    using assms(2) by (simp add: push_bit_eq_mult unat_word_ariths unat_of_nat take_bit_eq_mod)
  ultimately show "unat (w OR push_bit 24 (of_nat n)) = unat w + 2 ^ 24 * n"
    using assms unat_plus_small[of w "push_bit 24 (of_nat n)"] by simp
  show "\<not> bit (w OR push_bit 24 (of_nat n)) 23" using w by (simp add: bit_simps)
  have lt: "i < 23" if "bit w i" for i using w that by (meson not_le)
  have e: "(0x007fffff :: u32) = mask 23" by (simp add: mask_eq_exp_minus_1)
  show "(w OR push_bit 24 (of_nat n)) AND 0x007fffff = w"
    unfolding e by (intro bit_word_eqI) (auto simp: bit_simps dest: lt)
qed

lemma u256GetCompact_parts:
  assumes "length a = 8"
  obtains w n where "u256GetCompact a negative =
      (if negative \<and> w \<noteq> 0 then (w OR push_bit 24 (of_nat n)) OR 0x00800000 else w OR push_bit 24 (of_nat n))"
    "unat w < 2 ^ 23" "n < 256" "compact_of (limbs_val a) = unat w + 2 ^ 24 * n"
proof -
  let ?v = "limbs_val a" and ?n = "byte_count (limbs_val a)"
  let ?m = "if ?n \<le> 3 then ?v * 256 ^ (3 - ?n) else ?v div 256 ^ (?n - 3)"
  define c where "c = (if ?n \<le> 3 then push_bit (8 * (3 - ?n)) (a ! 0) else u256ShiftRight a (8 * (?n - 3)) ! 0)"
  have n: "?n \<le> 32" using u256Bits_bounds(3)[OF assms] byte_count_bits[OF assms] by linarith
  note b = byte_count_bounds[of ?v]
  have m: "?m < 2 ^ 24"
  proof (cases "?n \<le> 3")
    case True
    have "?v * 256 ^ (3 - ?n) < 256 ^ ?n * 256 ^ (3 - ?n)" using b by simp
    then show ?thesis using True by (simp flip: power_add)
  next
    case False
    have "(256::nat) ^ ?n = 256 ^ (3 + (?n - 3))" using False by simp
    then have "(256::nat) ^ ?n = 2 ^ 24 * 256 ^ (?n - 3)" by (simp only: power_add) simp
    then show ?thesis using b False by (simp add: less_mult_imp_div_less)
  qed
  have c: "unat c = ?m"
  proof (cases "?n \<le> 3")
    case True
    then have "?v < 2 ^ 24" using b power_increasing[of ?n 3 "256::nat"] by simp
    then have "unat (a ! 0) = ?v" using limb_0_val[OF assms] by simp
    then show ?thesis using True m unfolding c_def
      by (simp add: unat_push_bit_small power_mult)
  next
    case False
    have "unat (u256ShiftRight a (8 * (?n - 3)) ! 0) = ?v div 256 ^ (?n - 3) mod 2 ^ 32"
      using limb_0_val[of "u256ShiftRight a (8 * (?n - 3))"] assms by (simp add: u256ShiftRight_val power_mult)
    then show ?thesis using False m by (simp add: c_def)
  qed
  have top: "c AND 0x00800000 \<noteq> 0 \<longleftrightarrow> 2 ^ 23 \<le> unat c"
  proof -
    have "bit c 23 \<longleftrightarrow> bit (unat c) 23" by (simp add: bit_unsigned_iff)
    then have "c AND 0x00800000 \<noteq> 0 \<longleftrightarrow> odd (unat c div 2 ^ 23)"
      using and_exp_eq_0_iff_not_bit[of c 23] by (simp add: bit_iff_odd)
    moreover have "unat c div 2 ^ 23 < 2" using c m by (simp add: less_mult_imp_div_less)
    moreover have "2 ^ 23 \<le> unat c \<longleftrightarrow> unat c div 2 ^ 23 \<noteq> 0" by (simp add: div_eq_0_iff not_less)
    ultimately show ?thesis by (auto simp: less_2_cases_iff)
  qed
  define w where "w = (if 2 ^ 23 \<le> unat c then drop_bit 8 c else c)"
  define k where "k = (if 2 ^ 23 \<le> unat c then ?n + 1 else ?n)"
  have w: "unat w < 2 ^ 23" "k < 256" "compact_of ?v = unat w + 2 ^ 24 * k"
    using c m n unfolding w_def k_def compact_of_def Let_def
    by (simp_all add: unat_drop_bit_div less_mult_imp_div_less)
  have "u256GetCompact a negative =
      (if negative \<and> (w OR push_bit 24 (of_nat k)) AND 0x007fffff \<noteq> 0
       then (w OR push_bit 24 (of_nat k)) OR 0x00800000 else w OR push_bit 24 (of_nat k))"
    unfolding u256GetCompact_def byte_count_bits[OF assms] Let_def c_def[symmetric] top w_def k_def by simp
  then show thesis using that[OF _ w] compact_word_parts(3)[OF w(1,2)] by simp
qed

lemma u256GetCompact_val: "length a = 8 \<Longrightarrow> unat (u256GetCompact a False) = compact_of (limbs_val a)"
  by (rule u256GetCompact_parts[of a False]) (simp_all add: compact_word_parts)

lemma compact_split:
  fixes m n :: nat
  assumes "m < 2 ^ 23"
  shows "(m + 2 ^ 24 * n + (if t then 2 ^ 23 else 0)) div 2 ^ 24 = n"
    and "(m + 2 ^ 24 * n + (if t then 2 ^ 23 else 0)) mod 2 ^ 23 = m"
    and "(m + 2 ^ 24 * n) div 2 ^ 24 = n" and "(m + 2 ^ 24 * n) mod 2 ^ 23 = m"
proof -
  have 1: "(m + 2 ^ 24 * n + (if t then 2 ^ 23 else 0)) div 2 ^ 24 = n" for t
  proof -
    have "m + 2 ^ 24 * n + (if t then 2 ^ 23 else 0) = (m + (if t then 2 ^ 23 else 0)) + 2 ^ 24 * n" by simp
    moreover have "m + (if t then 2 ^ 23 else 0) < 2 ^ 24" using assms by simp
    ultimately show ?thesis by (simp only: div_mult_self2 div_less)
  qed
  have 2: "(m + 2 ^ 24 * n + (if t then 2 ^ 23 else 0)) mod 2 ^ 23 = m" for t
  proof -
    have "m + 2 ^ 24 * n + (if t then 2 ^ 23 else 0) = m + 2 ^ 23 * (2 * n + (if t then 1 else 0))" by simp
    then show ?thesis using assms by (simp only: mod_mult_self2 mod_less)
  qed
  show "(m + 2 ^ 24 * n + (if t then 2 ^ 23 else 0)) div 2 ^ 24 = n" by (rule 1)
  show "(m + 2 ^ 24 * n + (if t then 2 ^ 23 else 0)) mod 2 ^ 23 = m" by (rule 2)
  show "(m + 2 ^ 24 * n) div 2 ^ 24 = n" "(m + 2 ^ 24 * n) mod 2 ^ 23 = m"
    using 1[of False] 2[of False] by (simp_all only: if_False add_0_right)
qed

text \<open>What reading a written compact form gives.\<close>

lemma compact_read_back:
  assumes "length a = 8"
  shows "limbs_val (fst (u256SetCompact (u256GetCompact a negative))) = target_of (compact_of (limbs_val a))"
    and "snd (u256SetCompact (u256GetCompact a negative)) = (negative \<and> limbs_val a \<noteq> 0, False)"
proof -
  let ?v = "limbs_val a" and ?c = "u256GetCompact a negative"
  obtain w n where g: "?c = (if negative \<and> w \<noteq> 0 then (w OR push_bit 24 (of_nat n)) OR 0x00800000 else w OR push_bit 24 (of_nat n))"
    and wn: "unat w < 2 ^ 23" "n < 256" and cv: "compact_of ?v = unat w + 2 ^ 24 * n"
    by (rule u256GetCompact_parts[OF assms])
  let ?s = "negative \<and> w \<noteq> 0" and ?d = "w OR push_bit 24 (of_nat n)"
  have d: "unat ?d = unat w + 2 ^ 24 * n" "\<not> bit ?d 23" by (rule compact_word_parts[OF wn])+
  have one: "bit (0x00800000 :: u32) 23" by (simp add: bit_iff_odd)
  have "?d AND 0x00800000 = 0" using d(2) and_exp_eq_0_iff_not_bit[of ?d 23] by simp
  then have "?d OR 0x00800000 = ?d + 0x00800000" by (simp add: disjunctive_add_eq_or)
  moreover have "unat w + 2 ^ 24 * n + 2 ^ 23 < 2 ^ 32" using wn by simp
  ultimately have "unat (?d OR 0x00800000) = unat ?d + 2 ^ 23" using d(1) by (simp add: unat_plus_small)
  then have c: "unat ?c = unat w + 2 ^ 24 * n + (if ?s then 2 ^ 23 else 0)" unfolding g using d(1) by simp
  have parts: "unat ?c div 2 ^ 24 = n" "unat ?c mod 2 ^ 23 = unat w" unfolding c by (rule compact_split[OF wn(1)])+
  have "target_of (unat ?c) = target_of (compact_of ?v)" unfolding target_of_def parts cv Let_def compact_split(3,4)[OF wn(1)] ..
  then show "limbs_val (fst (u256SetCompact ?c)) = target_of (compact_of ?v)" by (simp add: u256SetCompact_val)
  obtain e m where p: "compact_of ?v = m + 2 ^ 24 * e" "m < 2 ^ 23" "e \<le> 3 \<longrightarrow> m = ?v * 256 ^ (3 - e)"
    "3 < e \<longrightarrow> m = ?v div 256 ^ (e - 3)" "3 < e \<longrightarrow> 2 ^ 15 \<le> m"
    "e = byte_count ?v \<or> e = byte_count ?v + 1 \<and> m < 2 ^ 16" "m = 0 \<longleftrightarrow> ?v = 0"
    by (rule compact_parts[of ?v])
  have eq: "m + 2 ^ 24 * e = unat w + 2 ^ 24 * n" using p(1) cv by (rule trans[OF sym])
  have em: "m = unat w" "e = n"
    using arg_cong[OF eq, of "\<lambda>x. x mod 2 ^ 23"] arg_cong[OF eq, of "\<lambda>x. x div 2 ^ 24"]
    unfolding compact_split(3,4)[OF p(2)] compact_split(3,4)[OF wn(1)] .
  have "bit ?c 23 \<longleftrightarrow> ?s" unfolding g using d(2) one by (cases ?s) (simp_all only: bit_or_iff if_True if_False simp_thms)
  moreover have "byte_count ?v \<le> 32"
    using u256Bits_bounds(3)[OF assms] byte_count_bits[OF assms] by linarith
  moreover have "(if n \<le> 3 then unat w div 256 ^ (3 - n) else unat w) \<noteq> 0 \<longleftrightarrow> ?v \<noteq> 0"
    using p(3,7) em by auto
  moreover have "w \<noteq> 0 \<longleftrightarrow> ?v \<noteq> 0" using p(7) em by (simp add: unat_eq_0)
  ultimately show "snd (u256SetCompact ?c) = (negative \<and> ?v \<noteq> 0, False)"
    using p(6) em unfolding u256SetCompact_flags Let_def parts by auto
qed

section \<open>The retarget on numbers\<close>

text \<open>The insertion sort keeps its sorted part from the largest element to the smallest.\<close>

lemma mset_insertTime [simp]: "mset (insertTime t s) = add_mset t (mset s)"
  by (induction s) simp_all

lemma sorted_insertTime: "sorted_wrt (\<ge>) s \<Longrightarrow> sorted_wrt (\<ge>) (insertTime t s)"
proof (induction s)
  case (Cons x xs)
  have "set (insertTime t xs) = insert t (set xs)"
    using mset_insertTime[of t xs] by (metis set_mset_add_mset_insert set_mset_mset)
  then show ?case using Cons by auto
qed simp

lemma insertion_sort: "rev (foldl (\<lambda>s t. insertTime (f t) s) [] ts) = sort (map f ts)"
proof -
  have "mset (foldl (\<lambda>s t. insertTime (f t) s) s ts) = mset s + mset (map f ts) \<and>
        (sorted_wrt (\<ge>) s \<longrightarrow> sorted_wrt (\<ge>) (foldl (\<lambda>s t. insertTime (f t) s) s ts))" for s
    by (induction ts arbitrary: s) (simp_all add: sorted_insertTime)
  from this[of "[]"] show ?thesis
    by (intro properties_for_sort[symmetric]) (simp_all add: sorted_wrt_rev)
qed

lemma medianTimePast_median: "medianTimePast ts = sort (map uint (take 11 ts)) ! 5"
  by (simp add: medianTimePast_def insertion_sort BR_DIFF_V4_MEDIAN_SPAN_def)

definition v4_limit :: "difficulty_v4_params \<Rightarrow> nat" where
  "v4_limit params = (2 ^ 256 - 1) div 2 ^ unat (dp_powLimitShift params)"

text \<open>
  The target before it is written in compact form: the last target of the algorithm scaled by the damped
  time span, four blocks of the other algorithms being the share of one block, a step harder for each
  block ahead and a step easier for each block behind, at most the limit.
\<close>

definition v4_value :: "difficulty_v4_params \<Rightarrow> int \<Rightarrow> nat \<Rightarrow> nat \<Rightarrow> nat" where
  "v4_value params timespan prev distance =
     (let base = prev * nat timespan div nat (dp_averagingTargetTimespan params);
          step = 100 + unat (dp_localTargetAdjustment params);
          limit = v4_limit params
      in if distance < 4 then min limit (((\<lambda>t. t * 100 div step) ^^ (4 - distance)) base)
         else min limit (((\<lambda>t. min limit (t * step div 100)) ^^ (distance - 4)) base))"

definition v4_params_ok :: "difficulty_v4_params \<Rightarrow> bool" where
  "v4_params_ok params \<longleftrightarrow>
     0 < dp_averagingTargetTimespan params \<and> dp_averagingTargetTimespan params \<le> 0xffffffff \<and>
     0 < dp_minActualTimespan params \<and> dp_minActualTimespan params \<le> dp_maxActualTimespan params \<and>
     dp_maxActualTimespan params \<le> 0xffffffff \<and>
     v4_limit params * (nat (dp_maxActualTimespan params) * (100 + unat (dp_localTargetAdjustment params))) < 2 ^ 256 \<and>
     unat (dp_localTargetAdjustment params) < 2 ^ 32 - 100"

lemma u256PowLimit_val: "limbs_val (u256PowLimit params) = v4_limit params" "length (u256PowLimit params) = 8"
proof -
  have "replicate 8 x = [x, x, x, x, x, x, x, x]" for x :: u32 by (simp add: numeral_eq_Suc)
  then have "limbs_val (replicate 8 0xffffffff) = 2 ^ 256 - 1" by simp
  then show "limbs_val (u256PowLimit params) = v4_limit params" "length (u256PowLimit params) = 8"
    by (simp_all add: u256PowLimit_def u256ShiftRight_val v4_limit_def)
qed

lemma dampedTimespan_range:
  "dp_minActualTimespan params \<le> dp_maxActualTimespan params \<Longrightarrow>
     dp_minActualTimespan params \<le> dampedTimespan params lt ft \<and> dampedTimespan params lt ft \<le> dp_maxActualTimespan params"
  by (simp add: dampedTimespan_def Let_def)

lemma muldiv_val:
  assumes "length a = 8" "limbs_val a * unat m < 2 ^ 256" "d \<noteq> 0"
  shows "limbs_val (u256DivU32 (u256MulU32 a m) d) = limbs_val a * unat m div unat d"
  using assms by (simp add: u256DivU32_val u256MulU32_val)

lemma hardenLoop_val:
  assumes "length a = 8" "limbs_val a * 100 < 2 ^ 256" "unat d = 100 + k"
  shows "limbs_val (((\<lambda>t. u256DivU32 (u256MulU32 t 100) d) ^^ n) a) = ((\<lambda>t. t * 100 div (100 + k)) ^^ n) (limbs_val a) \<and>
     length (((\<lambda>t. u256DivU32 (u256MulU32 t 100) d) ^^ n) a) = 8 \<and> ((\<lambda>t. t * 100 div (100 + k)) ^^ n) (limbs_val a) \<le> limbs_val a"
proof (induction n)
  case (Suc n)
  let ?b = "((\<lambda>t. u256DivU32 (u256MulU32 t 100) d) ^^ n) a"
  have "limbs_val ?b \<le> limbs_val a" using Suc by simp
  then have "limbs_val ?b * 100 < 2 ^ 256" using assms(2) by linarith
  moreover have "d \<noteq> 0" using assms(3) by auto
  ultimately have v: "limbs_val (u256DivU32 (u256MulU32 ?b 100) d) = limbs_val ?b * 100 div (100 + k)"
    using muldiv_val[of ?b 100 d] Suc assms(3) by simp
  have "x * 100 div (100 + k) \<le> x" for x
    by (metis div_le_mono div_mult_self_is_m le_add1 mult_le_mono2 zero_less_numeral trans_less_add1)
  then show ?case using v Suc by (simp, meson order.trans)
qed (simp add: assms)

lemma capped_stays: "((\<lambda>t. min l (t * (100 + k) div 100)) ^^ n) l = (l :: nat)"
proof -
  have "l \<le> l * (100 + k) div 100" by (simp add: less_eq_div_iff_mult_less_eq)
  then have "min l (l * (100 + k) div 100) = l" by simp
  then show ?thesis by (induction n) simp_all
qed

lemma easeLoop_val:
  assumes "length limit = 8" "unat local = k" "k < 2 ^ 32 - 100" "limbs_val limit * (100 + k) < 2 ^ 256"
  shows "length t = 8 \<Longrightarrow> limbs_val t * (100 + k) < 2 ^ 256 \<Longrightarrow>
     limbs_val (easeLoop n local limit t) = ((\<lambda>t. min (limbs_val limit) (t * (100 + k) div 100)) ^^ n) (limbs_val t) \<and>
     length (easeLoop n local limit t) = 8"
proof (induction n arbitrary: t)
  case (Suc n)
  let ?u = "u256DivU32 (u256MulU32 t (100 + local)) 100"
  have "unat (100 + local) = 100 + k" using assms(2,3) unat_plus_small[of 100 local] by simp
  then have u: "limbs_val ?u = limbs_val t * (100 + k) div 100"
    using muldiv_val[OF Suc.prems(1), of "100 + local" 100] Suc.prems(2) by simp
  have lu: "length ?u = 8" using Suc.prems by simp
  show ?case
  proof (cases "limbs_val ?u > limbs_val limit")
    case True
    then show ?thesis using u lu assms(1) capped_stays[where l = "limbs_val limit" and k = k and n = n]
      by (simp add: Let_def u256Cmp_greater funpow_swap1[symmetric] funpow_Suc_right del: funpow.simps)
  next
    case False
    then have "limbs_val ?u * (100 + k) \<le> limbs_val limit * (100 + k)" by (intro mult_le_mono1) simp
    then have "limbs_val ?u * (100 + k) < 2 ^ 256" using assms(4) by (rule le_less_trans)
    then show ?thesis using Suc.IH[OF lu] u lu assms(1) False
      by (simp add: Let_def u256Cmp_greater funpow_Suc_right del: funpow.simps)
  qed
qed simp

lemma v4_target_val:
  assumes ok: "v4_params_ok params" and prev: "target_of (unat prevTarget) \<le> v4_limit params"
  shows "unat (BRDifficultyV4Target params lt ft prevTarget dist) =
     compact_of (v4_value params (dampedTimespan params lt ft) (target_of (unat prevTarget)) (unat dist))"
proof -
  let ?span = "dampedTimespan params lt ft" and ?prev = "target_of (unat prevTarget)" and ?limit = "v4_limit params"
  let ?ave = "dp_averagingTargetTimespan params" and ?k = "unat (dp_localTargetAdjustment params)"
  let ?max = "dp_maxActualTimespan params"
  note ok' = ok[unfolded v4_params_ok_def]
  have span: "0 < ?span" "?span \<le> ?max"
    using dampedTimespan_range[of params lt ft] ok' by linarith+
  have words: "unat (of_int ?span :: u32) = nat ?span" "unat (of_int ?ave :: u32) = nat ?ave"
    using span ok' by (simp_all add: unat_eq_nat_uint uint_word_of_int_eq take_bit_int_eq_self del: nat_uint_eq)
  define base where "base = u256DivU32 (u256MulU32 (fst (u256SetCompact prevTarget)) (of_int ?span)) (of_int ?ave)"
  have "nat ?span \<le> nat ?max" using span by simp
  then have "?prev * nat ?span \<le> ?limit * nat ?max" using prev by (intro mult_le_mono)
  then have wrap: "?prev * nat ?span * (100 + ?k) < 2 ^ 256"
    using mult_le_mono1[of "?prev * nat ?span" "?limit * nat ?max" "100 + ?k"] ok'
    by (simp only: mult.assoc) (blast intro: le_less_trans)
  have small: "x < 2 ^ 256" "x * 100 < 2 ^ 256" if "x * (100 + j) < 2 ^ 256" for x j :: nat
    using that by (auto simp: algebra_simps)
  have ave: "(of_int ?ave :: u32) \<noteq> 0" using words(2) ok' by (metis nat_0_iff linorder_not_less unsigned_0)
  have base: "limbs_val base = ?prev * nat ?span div nat ?ave"
    unfolding base_def using muldiv_val[OF _ _ ave, of "fst (u256SetCompact prevTarget)" "of_int ?span"] small(1)[OF wrap]
    by (simp add: words u256SetCompact_val)
  have len: "length base = 8" by (simp add: base_def)
  have "limbs_val base \<le> ?prev * nat ?span" unfolding base by simp
  then have bk: "limbs_val base * (100 + ?k) < 2 ^ 256"
    by (rule le_less_trans[OF mult_le_mono1 wrap])
  have "0 < ?max" using ok' by linarith
  then have "nat ?max * (100 + ?k) \<ge> 100 + ?k" by simp
  then have lk: "?limit * (100 + ?k) < 2 ^ 256"
    using mult_le_mono2[of "100 + ?k" "nat ?max * (100 + ?k)" ?limit] ok' by (blast intro: le_less_trans)
  define adj where "adj = (if BR_DIFF_V4_NUM_ALGOS - 1 - uint dist > 0 then
      ((\<lambda>t. u256DivU32 (u256MulU32 t 100) (100 + dp_localTargetAdjustment params)) ^^ nat (BR_DIFF_V4_NUM_ALGOS - 1 - uint dist)) base
      else easeLoop (nat (- (BR_DIFF_V4_NUM_ALGOS - 1 - uint dist))) (dp_localTargetAdjustment params) (u256PowLimit params) base)"
  have d: "uint dist = int (unat dist)" by simp
  have loc: "unat (100 + dp_localTargetAdjustment params) = 100 + ?k"
    using ok' unat_plus_small[of 100 "dp_localTargetAdjustment params"] by simp
  have adj: "length adj = 8 \<and> limbs_val adj =
      (if unat dist < 4 then ((\<lambda>t. t * 100 div (100 + ?k)) ^^ (4 - unat dist)) (limbs_val base)
       else ((\<lambda>t. min ?limit (t * (100 + ?k) div 100)) ^^ (unat dist - 4)) (limbs_val base))"
  proof (cases "unat dist < 4")
    case True
    then have "nat (BR_DIFF_V4_NUM_ALGOS - 1 - uint dist) = 4 - unat dist" "BR_DIFF_V4_NUM_ALGOS - 1 - uint dist > 0"
      unfolding d BR_DIFF_V4_NUM_ALGOS_def by linarith+
    then show ?thesis using hardenLoop_val[OF len small(2)[OF bk] loc] True unfolding adj_def by simp
  next
    case False
    then have "nat (- (BR_DIFF_V4_NUM_ALGOS - 1 - uint dist)) = unat dist - 4" "\<not> BR_DIFF_V4_NUM_ALGOS - 1 - uint dist > 0"
      unfolding d BR_DIFF_V4_NUM_ALGOS_def by linarith+
    then show ?thesis
      using easeLoop_val[OF u256PowLimit_val(2) refl _ _ len bk] lk ok' False unfolding adj_def u256PowLimit_val(1) by simp
  qed
  have "BRDifficultyV4Target params lt ft prevTarget dist =
      u256GetCompact (if u256Cmp adj (u256PowLimit params) > 0 then u256PowLimit params else adj) False"
    unfolding BRDifficultyV4Target_def Let_def adj_def base_def ..
  moreover have "limbs_val (if u256Cmp adj (u256PowLimit params) > 0 then u256PowLimit params else adj) = min ?limit (limbs_val adj)"
    using adj u256PowLimit_val[of params] by (simp add: u256Cmp_greater)
  moreover have "length (if u256Cmp adj (u256PowLimit params) > 0 then u256PowLimit params else adj) = 8"
    using adj u256PowLimit_val(2) by simp
  moreover have "min ?limit (limbs_val adj) = v4_value params ?span ?prev (unat dist)"
    unfolding v4_value_def Let_def base[symmetric] using adj by simp
  ultimately show ?thesis by (simp add: u256GetCompact_val)
qed

section \<open>The claims\<close>

text \<open>C37. Writing a target in compact form and reading it back loses less than one part in 2 to the 15, never rounds
  up, keeps the sign and reports no overflow; and what is read back is written in the same compact form.\<close>

theorem compact_target_round_trip:
  "\<exists>t. BRTargetFromCompact (BRTargetToCompact v negative) = (t, negative \<and> v \<noteq> 0, False) \<and>
     t \<le> v \<and> (unat v - unat t) * 2 ^ 15 \<le> unat v \<and> BRTargetToCompact t False = BRTargetToCompact v False"
proof -
  let ?a = "u256FromUInt256 v"
  let ?b = "fst (u256SetCompact (u256GetCompact ?a negative))"
  have a: "length ?a = 8" "limbs_val ?a = unat v" by (simp_all add: u256FromUInt256_val)
  have v: "unat v < 2 ^ 256" using unsigned_less[of v, where ?'a = nat] by simp
  note rb = compact_read_back[OF a(1), of negative, unfolded a(2)]
  have t: "unat (u256ToUInt256 ?b) = target_of (compact_of (unat v))"
    using rb(1) by (simp add: u256ToUInt256_val)
  have "BRTargetFromCompact (BRTargetToCompact v negative) = (u256ToUInt256 ?b, negative \<and> v \<noteq> 0, False)"
    using rb(2) by (simp add: BRTargetFromCompact_def BRTargetToCompact_def split_beta unat_eq_0)
  moreover have "u256ToUInt256 ?b \<le> v" using target_of_compact_of(1)[OF v] t by (simp add: word_le_nat_alt)
  moreover have "(unat v - unat (u256ToUInt256 ?b)) * 2 ^ 15 \<le> unat v" unfolding t by (rule target_of_compact_of(2)[OF v])
  moreover have "unat (BRTargetToCompact (u256ToUInt256 ?b) False) = unat (BRTargetToCompact v False)"
    by (simp add: BRTargetToCompact_def u256GetCompact_val u256FromUInt256_val t target_of_compact_of(3)[OF v])
  ultimately show ?thesis by (metis word_unat_eq_iff)
qed

text \<open>C7. The limb loops compute the MultiShield V4 target on the natural numbers without a carry lost: the median of
  eleven times at both ends, the damped span, the scaled target, the steps for the algorithm's share, the
  limit.  The target read back from the result never exceeds the limit.\<close>

theorem v4_target_refines_the_retarget:
  assumes "v4_params_ok params" "target_of (unat prevTarget) \<le> v4_limit params"
  shows "unat (BRDifficultyV4Target params lastTimes firstTimes prevTarget dist) =
     compact_of (v4_value params (dampedTimespan params lastTimes firstTimes) (target_of (unat prevTarget)) (unat dist)) \<and>
     unat (fst (BRTargetFromCompact (BRDifficultyV4Target params lastTimes firstTimes prevTarget dist))) \<le> v4_limit params \<and>
     medianTimePast lastTimes = sort (map uint (take 11 lastTimes)) ! 5"
proof -
  let ?r = "BRDifficultyV4Target params lastTimes firstTimes prevTarget dist"
  let ?v = "v4_value params (dampedTimespan params lastTimes firstTimes) (target_of (unat prevTarget)) (unat dist)"
  have 1: "unat ?r = compact_of ?v" by (rule v4_target_val[OF assms])
  have le: "?v \<le> v4_limit params" by (simp add: v4_value_def Let_def)
  have "v4_limit params \<le> 2 ^ 256 - 1" unfolding v4_limit_def by (rule div_le_dividend)
  then have "?v < 2 ^ 256" using le by (simp add: le_less_trans)
  then have "target_of (compact_of ?v) \<le> v4_limit params" using target_of_compact_of(1) le by (blast intro: order.trans)
  then have "unat (fst (BRTargetFromCompact ?r)) \<le> v4_limit params"
    by (simp add: BRTargetFromCompact_def split_beta u256ToUInt256_val u256SetCompact_val 1)
  then show ?thesis using 1 medianTimePast_median by blast
qed

definition mainnet_params :: difficulty_v4_params where
  "mainnet_params = \<lparr>dp_workComputationHeight = 1430000, dp_averagingInterval = 10, dp_averagingTargetTimespan = 750,
     dp_minActualTimespan = 690, dp_maxActualTimespan = 870, dp_localTargetAdjustment = 4, dp_powLimitShift = 20,
     dp_allowMinDifficultyBlocks = False, dp_targetSpacing = 15\<rparr>"

theorem v4_target_refines_the_retarget_witness:
  "unat (BRDifficultyV4Target mainnet_params (replicate 11 900) (replicate 11 100) 0x1b0404cb 5) =
     compact_of (v4_value mainnet_params (dampedTimespan mainnet_params (replicate 11 900) (replicate 11 100))
       (target_of 0x1b0404cb) 5)"
proof -
  have "v4_params_ok mainnet_params" "target_of (unat (0x1b0404cb :: u32)) \<le> v4_limit mainnet_params"
    by (simp_all add: v4_params_ok_def mainnet_params_def v4_limit_def target_of_def)
  from v4_target_refines_the_retarget[OF this, of "replicate 11 900" "replicate 11 100" 5] show ?thesis by simp
qed

end
