(* ===== verification/HeaderCheck.thy ===== *)
theory HeaderCheck
  imports Difficulty Poly1305
begin

text \<open>
  The validity check of a header (\<open>BRMerkleBlockIsValid\<close>) against the numbers: the byte string of the target
  is the value of the compact form, and the byte comparison from the top is the order of the values.
\<close>

lemma powMeets_le:
  "i \<le> length p \<Longrightarrow> i \<le> length t \<Longrightarrow> powMeets p t i \<longleftrightarrow> le_num (take i p) \<le> le_num (take i t)"
proof (induction i)
  case (Suc i)
  have take: "le_num (take (Suc i) q) = le_num (take i q) + 256 ^ i * unat (q ! i)" if "Suc i \<le> length q" for q
    using that by (simp add: take_Suc_conv_app_nth le_num_append)
  have less: "le_num (take (Suc i) q) < le_num (take (Suc i) r)"
    if "q ! i < r ! i" "Suc i \<le> length q" "Suc i \<le> length r" for q r
  proof -
    have "unat (q ! i) + 1 \<le> unat (r ! i)" using that(1) by (simp add: word_less_nat_alt)
    then have "256 ^ i * (unat (q ! i) + 1) \<le> 256 ^ i * unat (r ! i)" by (rule mult_le_mono2)
    moreover have "le_num (take i q) < 256 ^ i" using le_num_less[of "take i q"] that(2) by simp
    ultimately show ?thesis using take[OF that(2)] take[OF that(3)] by simp
  qed
  consider "p ! i < t ! i" | "t ! i < p ! i" | "p ! i = t ! i" by force
  then show ?case
  proof cases
    case 1 then show ?thesis using less[OF 1 Suc.prems] by simp
  next
    case 2 then show ?thesis using less[OF 2 Suc.prems(2,1)] by simp
  next
    case 3 then show ?thesis using Suc take[of p] take[of t] by simp
  qed
qed simp

lemma targetBytes_val:
  assumes "unat c mod 2 ^ 24 < 2 ^ 23" "unat c div 2 ^ 24 \<le> 30"
  shows "\<exists>t. targetBytes c = Some t \<and> length t = 32 \<and> le_num t = target_of (unat c)"
proof -
  let ?n = "unat (drop_bit 24 c)" and ?m = "c AND 0x00ffffff"
  have n: "?n = unat c div 2 ^ 24" by (rule unat_drop_bit_div)
  have "unat ?m = unat c mod 2 ^ 24" using unat_mask_eq[of 24 c] by simp
  moreover have "unat c mod 2 ^ 24 = unat c mod 2 ^ 23"
  proof -
    have "unat c mod 2 ^ 23 = unat c mod 2 ^ 24 mod 2 ^ 23" by (simp add: mod_mod_cancel)
    then show ?thesis using assms(1) by simp
  qed
  ultimately have m: "unat ?m = unat c mod 2 ^ 23" "unat ?m < 2 ^ 23" using assms(1) by simp_all
  show ?thesis
  proof (cases "?n > 3")
    case True
    let ?t = "replicate (?n - 3) 0 @ UInt32SetLE ?m @ replicate (32 - (?n + 1)) 0"
    have "?n + 1 \<le> 32" using assms(2) n by simp
    then have "targetBytes c = Some ?t" "length ?t = 32" using True by (simp_all add: targetBytes_def Let_def)
    moreover have "le_num ?t = 256 ^ (?n - 3) * unat ?m"
      by (simp add: le_num_append UInt32SetLE_def le_num_put_le_4)
    moreover have "256 ^ (?n - 3) * unat ?m < 2 ^ 256"
    proof -
      have "(256::nat) ^ (?n - 3) \<le> 256 ^ 27" using assms(2) n by (intro power_increasing) simp_all
      then have "256 ^ (?n - 3) * unat ?m \<le> 256 ^ 27 * 2 ^ 23" using m(2) by (intro mult_le_mono) simp_all
      also have "\<dots> < 2 ^ 256" by simp
      finally show ?thesis .
    qed
    moreover have "\<not> unat c div 2 ^ 24 \<le> 3" using True unfolding n by linarith
    ultimately have "le_num ?t = target_of (unat c)"
      unfolding target_of_def Let_def n m(1) by (simp only: mult.commute if_False mod_less)
    then show ?thesis using \<open>targetBytes c = Some ?t\<close> \<open>length ?t = 32\<close> by blast
  next
    case False
    let ?t = "UInt32SetLE (drop_bit ((3 - ?n) * 8) ?m) @ replicate 28 0"
    have "targetBytes c = Some ?t" using False by (simp add: targetBytes_def Let_def)
    moreover have "length ?t = 32" by simp
    moreover have "le_num ?t = unat (drop_bit ((3 - ?n) * 8) ?m)"
      by (simp add: le_num_append UInt32SetLE_def le_num_put_le_4)
    moreover have "unat (drop_bit ((3 - ?n) * 8) ?m) = unat ?m div 256 ^ (3 - ?n)"
      unfolding unat_drop_bit_div by (simp add: mult.commute power_mult)
    ultimately show ?thesis using False unfolding target_of_def Let_def n m(1) by auto
  qed
qed

text \<open>C17. With the proof-of-work check compiled in at its rejecting level, a header is valid exactly when its root is
  that of its partial tree, its time is at most two hours ahead, its target is a positive value of at most
  the limit, and the hash of the algorithm its version names is at most that target as a number.\<close>

theorem valid_header_meets_its_target:
  assumes "level \<ge> 2"
  shows "fst (BRMerkleBlockIsValid level testnet ph block now) \<longleftrightarrow>
    (mb_totalTx block > 0 \<longrightarrow> fst (rootR block (ceil_log2 (mb_totalTx block)) (0, 0)) = mb_merkleRoot block) \<and>
    mb_timestamp block \<le> now + BLOCK_MAX_TIME_DRIFT \<and>
    (let size = unat (mb_target block) div 2 ^ 24; mantissa = unat (mb_target block) mod 2 ^ 24
     in 0 < mantissa \<and> mantissa < 2 ^ 23 \<and> (size < 30 \<or> size = 30 \<and> mantissa \<le> 0x0fffff)) \<and>
    (\<exists>pow. BRMerkleBlockPoWHash testnet ph block = Some pow \<and> unat pow \<le> target_of (unat (mb_target block)))"
proof -
  let ?c = "mb_target block"
  let ?size = "unat ?c div 2 ^ 24" and ?m = "unat ?c mod 2 ^ 24"
  have limit: "drop_bit 24 MAX_PROOF_OF_WORK = 30" "MAX_PROOF_OF_WORK AND 0x00ffffff = 0x0fffff"
    by (simp_all add: MAX_PROOF_OF_WORK_def)
  have m: "unat (?c AND 0x00ffffff) = ?m" using unat_mask_eq[of 24 ?c] by simp
  have s: "unat (drop_bit 24 ?c) = ?size" by (rule unat_drop_bit_div)
  have top: "(?c AND 0x00ffffff) AND 0x00800000 \<noteq> 0 \<longleftrightarrow> \<not> ?m < 2 ^ 23"
  proof -
    let ?w = "?c AND 0x00ffffff"
    have "bit ?w 23 \<longleftrightarrow> bit (unat ?w) 23" by (simp only: bit_unsigned_iff) simp
    then have "?w AND 0x00800000 \<noteq> 0 \<longleftrightarrow> odd (?m div 2 ^ 23)"
      using and_exp_eq_0_iff_not_bit[of ?w 23] unfolding m bit_iff_odd[of "?m"] by simp
    moreover have "?m div 2 ^ 23 < 2" by (simp add: less_mult_imp_div_less)
    moreover have "?m < 2 ^ 23 \<longleftrightarrow> ?m div 2 ^ 23 = 0" by (simp add: div_eq_0_iff)
    ultimately show ?thesis by (auto simp: less_2_cases_iff)
  qed
  have range: "(?c AND 0x00ffffff = 0 \<or> (?c AND 0x00ffffff) AND 0x00800000 \<noteq> 0 \<or> drop_bit 24 ?c > 30 \<or>
        (drop_bit 24 ?c = 30 \<and> ?c AND 0x00ffffff > 0x0fffff)) \<longleftrightarrow>
      \<not> (0 < ?m \<and> ?m < 2 ^ 23 \<and> (?size < 30 \<or> ?size = 30 \<and> ?m \<le> 0x0fffff))"
  proof -
    have "?c AND 0x00ffffff = 0 \<longleftrightarrow> ?m = 0" "?c AND 0x00ffffff > 0x0fffff \<longleftrightarrow> ?m > 0x0fffff"
      unfolding m[symmetric] by (simp_all add: unat_eq_0 word_less_nat_alt)
    moreover have "drop_bit 24 ?c > 30 \<longleftrightarrow> ?size > 30" "drop_bit 24 ?c = 30 \<longleftrightarrow> ?size = 30"
      unfolding s[symmetric] by (simp_all add: word_less_nat_alt word_unat_eq_iff)
    ultimately show ?thesis unfolding top by auto
  qed
  have pow: "(case BRMerkleBlockPoWHash testnet ph block of None \<Rightarrow> False
        | Some pow \<Rightarrow> (case targetBytes ?c of None \<Rightarrow> False | Some t \<Rightarrow> powMeets (UInt256Set pow) t 32)) \<longleftrightarrow>
      (\<exists>pow. BRMerkleBlockPoWHash testnet ph block = Some pow \<and> unat pow \<le> target_of (unat ?c))"
    if ok: "?m < 2 ^ 23" "?size \<le> 30"
  proof -
    obtain t where t: "targetBytes ?c = Some t" "length t = 32" "le_num t = target_of (unat ?c)"
      using targetBytes_val[OF ok] by blast
    have "powMeets (UInt256Set w) t 32 \<longleftrightarrow> unat w \<le> target_of (unat ?c)" for w
      using powMeets_le[of 32 "UInt256Set w" t] t unsigned_less[of w, where ?'a = nat]
      by (simp add: UInt256Set_def le_num_put_le)
    then show ?thesis using t(1) by (auto split: option.splits)
  qed
  have "level \<ge> 1" using assms by simp
  then show ?thesis
    using pow assms unfolding BRMerkleBlockIsValid_def Let_def limit range not_less[symmetric]
    by (auto split: if_splits)
qed

theorem valid_header_meets_its_target_witness:
  "fst (BRMerkleBlockIsValid 2 False \<lparr>ph_groestl = \<lambda>_. 5, ph_skein = \<lambda>_. 0, ph_qubit = \<lambda>_. 0, ph_odo = \<lambda>_ _ _. 0\<rparr>
     (BRMerkleBlockNew\<lparr>mb_version := 0x20000402, mb_target := 0x1b0404cb\<rparr>) 0)"
proof -
  have "(2::nat) \<le> 2" by simp
  from valid_header_meets_its_target[OF this] show ?thesis
    by (simp add: BRMerkleBlockNew_def BRMerkleBlockPoWHash_def BRMerkleBlockAlgo_def target_of_def)
qed

end
