(* ===== verification/CFCheckpoints.thy ===== *)
theory CFCheckpoints
  imports MerkleBlock
begin

text \<open>
  The pinned filter headers of the main network (\<open>src/BRCompactFilterCheckpoints.h\<close>): the heights with the
  headers as little-endian numbers of the bytes, in eight parts, and the three functions that read the table.
\<close>

type_synonym cf_checkpoint = "u32 \<times> u256"

definition cf_checkpoints_0 :: "cf_checkpoint list" where
  "cf_checkpoints_0 = [
   (50000, 0x63d06714d1b920863cd3df674ed832389c57692255670091745f9839f63e0884),
   (100000, 0xb50a82bf940e2880cf0148d264cf15bba710b0e0e1ccf6ba8c7912e2943637fc),
   (150000, 0x9eba4ad790d1a4e7c5819e8ec7e31c41f13353d472b7261469cc1071fabf0ef9),
   (200000, 0xcc2d7ce31acbd652698369bf834f08ebbb3431a458d087bbc8b05e0faeb9d1b8),
   (250000, 0x1b5e7c3b3956bce8acb33eaaa85c6b02c942bf9696ad61d510fe89483c3136f5),
   (300000, 0x4edc0cf7a9b6084ebb0b92aa8ec829ca716182e9f66c81080307a44523b7d785),
   (350000, 0xf0022d9bd4bde68c0e8881d0cfe000bab8d09a4a66810db2326f8e44da0cb835),
   (400000, 0x4739f5396cb8053413265ee94070325fed98a8d6044d671cf9994c654c3d18f7),
   (450000, 0xd11cb2e5a3ecb19b61c66c599ae77db091b58a9b4f89e7d5500c5cb633602295),
   (500000, 0x1cc9d916f78a962d546a36c130940dfd9ceb7face12df874d5c4c0a61706e567),
   (550000, 0xc13cb363095551c2fe28fed40ab41a08189c2aa469ae48eccef597e7bdedbf3c),
   (600000, 0xeefa862dc7c75280c9f630799519e1dac777120b698d81649859cb7ac9ba8fa5),
   (650000, 0x01be7bc8464726f48c966394547b0f488eb2d375ccd60011d6e26f556287905d),
   (700000, 0xe513da5f1e47a9d594c0244a9cf43b25481ab35967c7105fc4af36f746b80ff4),
   (750000, 0x31c58e07ab9a1968f2c5c56443388d0089331b3c129de2626988d313898ade17),
   (800000, 0xa3f808b3139b7a2af04eee84ff7e4ac863e8c6913137b07e295991fb7fa5ed29),
   (850000, 0xe00e9dc60ab571f5cab38a78c47e2f68570fba0270939a2a0fc2a4cefb791a67),
   (900000, 0x3275991822a61afe2bc72f3f138783b7ad96e039c82fad5ef84bdbd6b9648ff2),
   (950000, 0x9c8f96b3205d896c095caca98f45efe246ce7f28386943e78e1e21a90c1021fe),
   (1000000, 0x536dad93764757005fe4fffe3a6577c7ef5422d33c2b59ec7c9e557ec339041b),
   (1050000, 0x37b7efd76282550a86e1e56356269bb64a63dcd3e87eb64d3d7ff721638b42f7),
   (1100000, 0x1a9f7856964bb5c3c5a388918759b03c08d0f443d639d9794382a92c28426a22),
   (1150000, 0x356632a15977b6fef9969375c76052d843ea779df505e185e5ee4a690685fcec),
   (1200000, 0x8ed56e47d609daddd4c7ce384fd3155848bc596161c40a1e602a7ed20bb88c35),
   (1250000, 0x7711bf9a2614f9d601a9e2d2a8872f666aaa4d84fd9a02d0f9766d9494776ec0),
   (1300000, 0x89895882af1ecd23cc5ae9bbec9378c44008ae47ead619658d541c88a25ab9d3),
   (1350000, 0xc2b81d3caddab57cc3965a102f55cf75623a5607247b3dfa4e4eb11e26587298),
   (1400000, 0xa4057be6a7ce972bf4ab9173fe8eb798106372d6c6a8430c2a5d120a2cbc7742),
   (1450000, 0x5afe081c1a2abb3333fa7204ad8a81f210faa95a8987deba6b4ce02f843598a0),
   (1500000, 0x8a73ad8d30d6c1047efada6a56cbecc730a4b5add96afdd83a48ab9127f0b008),
   (1550000, 0x20d9863adc036a5f992af9ee12ed131c66b4b70847eceaced061b6d3e6637768),
   (1600000, 0xa9a7196ea767936a9a821536f01aea51e389cbf75ad8b3bf0dcbcf5fc32be655),
   (1650000, 0x8f7302d7088df98093607b7feca7584118db5c877c33a883554d4dee6b8afa55),
   (1700000, 0x674ebce257398b2c80cd436d79bb4003c124979ac94a0f9b63da3e3945e5177a),
   (1750000, 0x9117fed4a9e1cca2daa10f84c7da50f68d6f6b0c006ce28ef00afb4a05b762dc),
   (1800000, 0xf9ed7b8ffdec1f3372449a13f3d9790787de2ce649d41a04436c53e9277c0fbe),
   (1850000, 0x6f0b0f4a5b477d99662a2bd9b95025d6ebbe038cca14717d43d95b9804af546b),
   (1900000, 0x91e11b2fb6c11abd4567c1e9bf1da9296f8b4589e7ef4439976d72a29a4dabd3),
   (1950000, 0xdd22b23de777a6459d5dc3a7a3b944574b2d0a8273698ce76331cb6e0aa1f7e5),
   (2000000, 0x9f858d50cc13bc8d1f667af8e4a8e4ef8a3552d4fc66c3eced2b21b68d5f3780),
   (2050000, 0x00a1aab3e3b1a8a6ec6fd4240c77e15ec9c769cf6f0cb63e8622c0c4a59d3d7d),
   (2100000, 0xe9cd5aa92a0726d394fc821c39b10e73168e20720fa8c9b6d32ed193ba6bbca1),
   (2150000, 0x96bb74727f4faca3d67183b654b3384a82503b4c9c9465ad86910f0dbc63e2f7),
   (2200000, 0x53e7baa377634ae175b837f4cbdac8813fbd9b74b76fd1c07574e647a918bd1e),
   (2250000, 0x3092179bc6932ba5e465d6565abfcda7b878acddd9f44eae1cda2bbf2bd9ab9d),
   (2300000, 0x44d125af586f10e39cc86068a26d88c4de7fcfdc3b8cf16c0eb0de14c4fdc28b),
   (2350000, 0x9e0aeadcdb1e976a77107ab5b73305a543b562257f3d8047d7a76a885f95dab1),
   (2400000, 0x5389dfd6db551146bf10353e480a1b84f261f439427fa88c31b6c9786759e8ec),
   (2450000, 0x14ef6e42dfebbc3cfb86df4b3da10fa7dfcae1a27e5933023ce5c22cdee8526b),
   (2500000, 0x16656b466fed91e2c6a5ea9da981318f4776e582ca61c89a4de17f0cbf2e6c0f),
   (2550000, 0x8a62d9fdebcaff1a03b2fb4447abddde293cfb081a28ccbde9c9cc0cc21656e1),
   (2600000, 0xfd0cf98e68717e924db8e3ba530a9d9fc2bc807336519b97c1b7d5f7e72ab8c7),
   (2650000, 0x8bf64ae0f58b8f0a94d960c18f9e1e30fa9255361850cf8523ef553df5150a11),
   (2700000, 0xa29a48b4c88f13b876388effc2d43d2069197878f3ca2ea959fda2a2b2517a1d),
   (2750000, 0xb5579771d92c60c1db7c0a16f9e43aab49218fd15b9e8dce3ee743779d5d0f8a),
   (2800000, 0x9959f8284ece3cfd306d55f3a3ad4da4c8a193d9ca979a6422876b15ac53dbdb),
   (2850000, 0xd063274fd378616c49f122db1787b3408acff70c8625cb44d4b40c6aeb463912),
   (2900000, 0x460840ab8bcea38539e3ad3ad2d69cc9503e5148dcb1aabed73d6548be312b81),
   (2950000, 0x8d5534e5d6df27384279421883325984c536d2042f18cbb095fe9947cf50a369),
   (3000000, 0x270efd14e6081105be8c31732b2e7a13da16e661e2fbc37e39cd2361fd7147e9),
   (3050000, 0x06075f35e235ba97d4780341f557a1becdd58fef5f113aaf0d2719456db43a4c)]"

definition cf_checkpoints_1 :: "cf_checkpoint list" where
  "cf_checkpoints_1 = [
   (3100000, 0xc534a5b2f27f42c65cc08bdd5bae539749bd1f038f7313a2a3c8842e55655a47),
   (3150000, 0x45f65fdfac186bf14c4f54b5d47baef56b22ab1b62fdfc78b16964fc235e1f48),
   (3200000, 0xf4ee2e89973a359043966062a0734782e302b2bf6a7a81cc02ddba4e2ebc1f4b),
   (3250000, 0xc9c03cbd796ddeaef114fdecc313a496014717af3586faa2bd8daf6b98d77417),
   (3300000, 0x63903568cd272081a0b56f88adfe33984a64f4073f55d65ab219b074c976333e),
   (3350000, 0x89946c9e3e2079c77d3a98fcde695602689111fe53482ccf9ff57ff28b3eea58),
   (3400000, 0xa59179b12a015e3fa6678c1901a227e7c10831ed4290cd896484a50e4aa0bbae),
   (3450000, 0x2c36aa50fbb309d3dec044f19626abf874f8f0a9a74853f7377ccdcfd664b97c),
   (3500000, 0x58663f782031436e71f8e907585547c4c22c5d2ce53346466eaace2a20c76445),
   (3550000, 0x43f11f489eeffcf1606fce2bbc6494a7d8423e09dd242b391d48648028bfb8a1),
   (3600000, 0x20a82d16b8a8fdba8af713dd03bf0be07af030030532a93a2363e931b8ac3ee7),
   (3650000, 0x82c2fd7f1bd4c9cd5a0e923fa108425128711aa60c939bd54a9da6c4b765bb39),
   (3700000, 0xc2be6239edc379cba0f382e15b469a02458d5de55d0234b794834cc8dce4b012),
   (3750000, 0x3fdddc308ebdd6fb157e20388c0d1fcf4315a642c373fe021c021be70f6fc881),
   (3800000, 0xa618a670dffba83cc25a819439a84711d02417198ef2da25f0c94c5332a77e96),
   (3850000, 0xb08c0befb3400f0cf76213127b5df022eaaa43e97e3412a103bb1fcf5438459a),
   (3900000, 0xbd233e1568fdc059a7ba4f03e1b1210883ab73875d8667336be6f8f983fee2e3),
   (3950000, 0x9f4653ca00d9cd3daa738180a4f3ca952fdb9eed01c5bde4c0b55278505dec12),
   (4000000, 0xfdef93e58d6f52f6d56ff7fb3f702fde4ea9e92e54b2af55ebf29d8eaa372f9d),
   (4050000, 0x1bed35ecc5088e9a838948beb3351f3cb3bb138e6e07f79f78ea83291f35aac7),
   (4100000, 0xb51dab836aff4b5af404be45a65a8ab59a25fcff123796a6a2916e3d1a8b759c),
   (4150000, 0x706a139656797e72c117e3f4b2321e786073ab81843afa8e692414eb9fd4f5be),
   (4200000, 0xaecff4e0ffe1cc529ff85d2669c1e20d75f83cda176a8d9a352357c5eb9ee88b),
   (4250000, 0xa127c4e26261081657e18b12bcdf902bab87aa8c99c3692899bf34beb2235515),
   (4300000, 0x24e3e5ebd52f1dc78a287f0dc42af8312705c864069e0ec5eaebf87fc62f2ab1),
   (4350000, 0x04a328b5df61d49b086482069062e6653e0506d7361f5efc8f38755100b8c708),
   (4400000, 0x9c368d7a8deff9bea3d09ba634a7cfd7549fd93f51001d7dbbb4fc489d889faa),
   (4450000, 0x5b79ff8fea8ab7f9acf260d81dd279cffb2f7be0dcbdce3046013ed90c2e6250),
   (4500000, 0xb2de0d57f2551020e6caf051250de6ad22b1f773f2aa982d35e77ecc0efea72b),
   (4550000, 0x9bce6b90e35130b74094b2f22a985903419bcabc62e857ee96ebc8db288a4f17),
   (4600000, 0x5bee87490ef6fce8c9a68d254e9e2c88217dd5f48b5484862eab11b20f065ca3),
   (4650000, 0x6001970a3d43264d1c67468d6a2bc9684359361838708564d46e2c817516eebc),
   (4700000, 0xd1375165b1a5f93c873af907886816532b6edf518d3d0bd76d8f7dbc9d8129dd),
   (4750000, 0x88bdd2568926b08f148a70d728760fef2b4b0d055bb26f39e7fc68113d3305d3),
   (4800000, 0x623302f375473a8a23342e6ca837895485b26eae0c6ebcdfd1893c0bc43fa969),
   (4850000, 0xecba29581ed53210ee4be845cdf2244048706bbdb540f07250c8560e2faba38d),
   (4900000, 0xca9c2be0a81ba90f2dc3b4202ae543cd8fc3bc480f75e606d045c29b1b122d81),
   (4950000, 0xe79f59d940fbf315ffa112950f9131f2d11f2a5d1edb3c7c9b67e7e9b6506c3f),
   (5000000, 0x7d8b4ebfd676dd34b6f9737841e13cbffb3e05bef915bf6bea087351aef9ed6c),
   (5050000, 0x210c0c48cc25f06a53823ae90e7566346b8c790f91781805557f88785d8d4577),
   (5100000, 0x39173619245d726541290ea43ee9473f6fde4cfda7329c3551eb7af38ad2d497),
   (5150000, 0x729d1db64d448fe7b0d7a1d89a2cca060414094292c053c4faaf3ed476d653d3),
   (5200000, 0x460cb5831e9abc12a8577cb98944416963e72ff877db02978e0d4dac2999b5c9),
   (5250000, 0x2484f8f78e23a41a6a85ec05aed304fe0fcb437dbc2ccafe3799abbfaf42a03f),
   (5300000, 0x7d89e8c637f277b99f8c62236907e48ccacfd2e81f36fa0fcc25ee3d6c2c1161),
   (5350000, 0x42cd65b36abdf0364479b058e2a2d8e9a0ebb145f615aa378815c15e9c91a2f8),
   (5400000, 0xec0937e101332331834296bb3a855dad277309a045276042f5366aa6485ea334),
   (5450000, 0x56b8d7787462afb67033831d556b7cd8508ccaecc600814e2a16bcc78ed6acba),
   (5500000, 0x6da51f5a982c7035dc024724f7170a6d78ab29ec1b8b88b1131e5c65d0be98ff),
   (5550000, 0xc1b32ce7cbdf0cb3c61612bf6f11e51a9e1893f0e128a597f34b816198076ec3),
   (5600000, 0xf987f102825693f640ab95f2af57e570c1693ba463d831cd403fcbfb675e7be5),
   (5650000, 0x42ab702ece780f70d7d5665b74a5415b3a703ff7b53a7fca24019a9a86ff3f14),
   (5700000, 0xce53bc6f3d112080efd3e367504a2f1b7794c3a42bfa96d4cbc5909bc0e9508c),
   (5750000, 0xda2041a9319b15c61d1f17925d1a96eb9e7fdb7a1e59c46137d6e6915a48530d),
   (5800000, 0x5e59c0432587bd528c013bf0a4868f190893cc3c2930dc5da49888075c5d6b92),
   (5850000, 0x489bddd053369a0c02ee202fa99939f0b6965ce72c3c3d13ee56a66cb00a7852),
   (5900000, 0x84d2d1bcb227339eded58337cdfe8764e229ef56d47df6d10993026b145c2a7f),
   (5950000, 0x488f4fd10a4de6cd2006984e2a29822a9c95328d5c4adce41e8d9580f38dd55a),
   (6000000, 0xa658e24ce2cf120f6fa09aaa652d16518f687a0cf866d4b2d61e63ae85f580e3),
   (6050000, 0xc36b4e3defca4bff26e1c9d2e863978586bb83753d2008bf47d1d411617e44b2),
   (6100000, 0xb6fd6442fb80c97ce5de795c2fe9021ca5c50c462f5f705a2c7ec3288a807150)]"

definition cf_checkpoints_2 :: "cf_checkpoint list" where
  "cf_checkpoints_2 = [
   (6150000, 0xc812ed087b4a8ae8bd4c7b16b6a5422739e5dab591d0b502d88e05fda05ee10e),
   (6200000, 0xae80d3c9539f13e3fa4314ed18f9b105182176c98f0681f43911f66d580dea29),
   (6250000, 0x5aa33aacf28a50ed7dfb7de6b9c6345587209f884932b7cb81e117f7449823ec),
   (6300000, 0x9c2d56bfcfeb5456b50795ed953af495ab34aba296ae612c4a21bbe56686fab0),
   (6350000, 0xa342f2a3f427e9ae97f1e4ef81e7566b996606c815302309cccdddac764d09e9),
   (6400000, 0xc5b4ffa011f0497b89accfd0d5847326a3d8286a038ff88624a1ee7f0e21f092),
   (6450000, 0x00afb6f9cd83f7ec6a7c7b2d3823dd0227f192780c062dbf22c7df02c6c963af),
   (6500000, 0x007e1558eac4a3ef9ebe4c8768a09006017c8e706a4543f8225237b4a137c998),
   (6550000, 0x9586998e1f124732913d3ce1c9779fa083b152b4be72e02973d10b0d70058254),
   (6600000, 0xb1c017ed607ab0d6f89b9fb44a2f33c4d06734f515e7d62b9d18d60f4a2fab19),
   (6650000, 0xb85a9a5c623a724eb00133b23442d5d8e60071893fe279515cce9de7ce543403),
   (6700000, 0xc3fedc0ca4b4c3acc2dc77177255ac5cd98577fdf5efa369b612f6c0980e0f67),
   (6750000, 0x347a19cb8767ed93b5f6062c8df7c393532f9c1bd2d65cd5e4b925258263babd),
   (6800000, 0x938d62d80b01f2da1243dd40623ddaf0e7cf165870cdc17e904b7f505f0b16aa),
   (6850000, 0xbb4e5c9e8b8c35621f28f6c5e741f4ec24af141d57761983c5264a7fee858700),
   (6900000, 0xf7011cd7ec048e90dafe2c0d36ea43450c8080e3bdcf820c7c3100034725e691),
   (6950000, 0xd9d10d3b4d2cc0a80fa552eaec35dfe97f4373b7c7acfb16607a569fabf93bd1),
   (7000000, 0x7da1cf063ddf1901a350ba57d210c60c14f93f5948ba020dee456a47393d8d9c),
   (7050000, 0x689a014e96197cb87fc261c1bcd7e5700eb196d937390ec704373bf70100e957),
   (7100000, 0x75a564ca1dd95c7f6c6a427277161084da6ac2879464348689c2387f902f1abc),
   (7150000, 0x05047b6c8cbc882520025f712956f4fdcee2ecfabdd36b4e2c7e6acf31fcbc69),
   (7200000, 0x7dd6f0383ad0653d0097d2a5d19ede1b238db577263c2291b4b0eaaa996a88ec),
   (7250000, 0x41a7945f4bfccf34e70e056395d4c989052df770597c2fe8283f65a0a55e51e0),
   (7300000, 0x79c3b2df275b39744df0c64bc467f42d0a16f962ad38abf2c6115b9d81769818),
   (7350000, 0x4621f78b59117af4459bc4e5c9520d475259082428f4818a5e9ab4c158de8c83),
   (7400000, 0xe10f045c2eae15c2f45da1e3ce40dab2c6e8821be9f00384c59633e7f7bb815a),
   (7450000, 0xfcd35c4ad9bc6bcf131c81ead4b3796d70303d87fce6d8547fa0c826c38fe3c7),
   (7500000, 0x0ff17afa995c3921cbd536c284a168cc65569b6f092cf027b0dc3394a066667b),
   (7550000, 0xf811e093eae86274ab2fd71d0423c16d9095827a59e5fed717e596524b99689f),
   (7600000, 0x330459229793c0f5806dede3a74eada32abb66e5d53d006ac872a37744b7f8fe),
   (7650000, 0xd41e06362bdc5558cc771bd6d4301cefc3786eea5dc6940ac9464b3ac08c1d30),
   (7700000, 0x0cfed141e74d0ed5c338bce6bb750744f7f91d29a8d8371df0fabca78bf4738e),
   (7750000, 0x11e7195362fbbd076621c7462df7df4338676bb5e19eee07f5c59eb7f8032868),
   (7800000, 0x289c003f5cad523a49ee28a7edbf7d79162806151ee5476d63c6f68f30ea11ce),
   (7850000, 0x0b7644059e688b7209feb61395d80e266e48b9a0d322e22c89e74061cde4cec4),
   (7900000, 0xc88afd577bdc828c8d586bcd0442197970942bc13984aa5117a41c3e1156798b),
   (7950000, 0x21c278db1f6b61f0a0781778f922f88b41372026f1c514986e31176b88fb3aa9),
   (8000000, 0xd3163d8b891aea8e1af21b809fb7829f221d27cde989cb69745864025969a48e),
   (8050000, 0x9730e13a5eefbfd23c87c57386c5afedb0800429096e021927ea71e546aaa3c5),
   (8100000, 0x6ddd9addb8b5b970f8d7a71617176b92a21279b5f36c210bd7d4a72741ceb883),
   (8150000, 0x5a8486e443d2a7d563ecc897e8ed384fcf8b64878644e17d8e69937b0e94f4c2),
   (8200000, 0x8f62bc60f945b9106d474a8d0f198bc6fdbb25d703b80e7383d57da02c09b219),
   (8250000, 0xb99794dacd7116659da46f68afee8990e740f989060e8797da571f6a8fb4e7ae),
   (8300000, 0x576cd79ef9bc61a8e4bdfef9e98564eb333a170c3ad9467a2e53adabe1dcc877),
   (8350000, 0x149b6ab102a5b66a08a198827a7d6b1181a72c1fce5b331da8756511c36c89c6),
   (8400000, 0x104e2ca87773dc43c01ae9f02913c4787ef74e98de449b304fc191fb731eb114),
   (8450000, 0x1de6923218bc67e30dbdccf3ce6cf63c9737a9a013b7ef373e5133a70acde663),
   (8500000, 0x26658aa5da4915365842180d4456ba6e8f5ddbb6095b3614f3a115248ada1c71),
   (8550000, 0xa56aef5e0cf38630b395809ed87d798f7a129dab8bf5c82611e0189ccae7ba49),
   (8600000, 0x408e84799a88b30c0e98f359bdaec9370230176ccb6127718f91d19318b34f2b),
   (8650000, 0xd5336fade0cc80feb570cd04a8386ed49fd124d977cf2760fb6ccdaaaa11b5b8),
   (8700000, 0x7eecee98ddd22988a0e70fc7dcda29e723f536b6aa141c2fc38473f9011bceb4),
   (8750000, 0xe19ed6c735f695f1bc746379c3983b03d81b9b6928bc48f3348ff259832b05bf),
   (8800000, 0x2e4231da369cf21437e6e2d41942928626d111bebd92f476aa8989793b393173),
   (8850000, 0x3258b338b3b0b35f11c18acef12b9fbd1a440da09dcd3ae44db877153be4e3e9),
   (8900000, 0x6a6304f77834c6722ef816bc24017a79406183544d6b189f0625ae0fee52db7e),
   (8950000, 0xc5bdaf8473832d057ad855f6a3169b86d13e7d6c41133bd1123bc734f60ac46a),
   (9000000, 0xf530928aeea4e63f9bc000e7f3ca8f84cbed5820700883e9b72876af2628715b),
   (9050000, 0x17da297f3f4d880e0b24fe835679c7454bce4ad520b543830d8054b9d8ad772f),
   (9100000, 0x276383d313e7cd239e939a7e9864adf08261f731933fbf5dc4c18ceed3bec67e),
   (9150000, 0x0dcb362a1dbb00d64833a94edd1aff3f411d919b3e4fb3af465928b724a6b00c)]"

definition cf_checkpoints_3 :: "cf_checkpoint list" where
  "cf_checkpoints_3 = [
   (9200000, 0xb276dc161160e9b4b75d8d293deca685c7d956a1549df32365142cf359190a05),
   (9250000, 0x497c52949182ec1657f38236b408215937a19d2c5cf84f1728ab31b96e72794d),
   (9300000, 0xc7f183bba97b90d5bb33873f46d16b3c8d73e6668277b73b87c938b63c5c0087),
   (9350000, 0xe9aaf07af610a41c8958ef71fc476f5d3639f91c2ebd7fc03a3a4fabd84a23d6),
   (9400000, 0xc874121fe2a688da5e6b303e5e6bbaf07c99a90ca98cc1e63e267c4931ce0662),
   (9450000, 0xe9c74499ce196dc887b9329882fbc524ee0ef670a3037a35a1ba4cb572e379d6),
   (9500000, 0x38caf46f456763b92b4df3df624227fb5a2f0b7b34c0b6bf7e114e93e5d2ca41),
   (9550000, 0xe49bdae74ecb74ca55d81b2ea957f13d3db7f6044f2707dff0288759e7e14da4),
   (9600000, 0xa7fba26cabf5243e230c763ce75c6324a276fd0fe27c5636abe4b5b36573f3d5),
   (9650000, 0x837355d6a817779aedea1f677e28dc6524cfcea4aa83280e3354fcd1317430a3),
   (9700000, 0x8687f06f75cd1fbc312f3ee6bf542927916572465769b25e8c121e6e6349077d),
   (9750000, 0xfbe92c5df5e4801aae0d4f24544a28982ed340f9e861cccff40154ad8c3fb962),
   (9800000, 0xe9798fede4bbf2ec5c84293651f8e4faf28ec4779bb46974ae0041750a612f4a),
   (9850000, 0x854ae0ea93e27450d9c5985605db01f4a9f3b27936cb4940694a3c59f0b8c8f1),
   (9900000, 0x3a0bb0e992948c2aa437cf20087bcbc7dd6fe7b191785fa028f5e66e20a64d32),
   (9950000, 0x341a9fb13a1b5347c0c64dc3dcee58af011cbb381b1fd3eb1fa8079d8e404652),
   (10000000, 0x1ff634aea97b7ee8aeb04f28dbc4e318cb1eb7371567822e70e2cf9ea4f731e7),
   (10050000, 0xc3bbc2da6f0e90b4f1037a7e6f29f9679b7bc35a886ea7af5fd04389ba2f64dc),
   (10100000, 0x9afcb3beecb89b8894fdca70d1f571cd476b5ff26335650363ba6f9635b69dab),
   (10150000, 0x8aca3551b486c2187b9027ebfc8f5de3f736a1a009d65e3933b34d49f9faa3ac),
   (10200000, 0x581269841dde76e917f1ed23b403d34512aa4a38815bbfe1b15cfd369d3aa634),
   (10250000, 0x5d0780ce483e65041f2e1ed9c7a0178bffafab6ea2eef84f22d4c08c90e5efa1),
   (10300000, 0x3e91eeace1c21e582f89dc6b3439631eb0c7a5ab5856de20abf318d36e9e11b8),
   (10350000, 0x29f7a41f58fc9cf1ae02cbc8e3c9897decf1e343c05f05717b9a7c2a481b4ebb),
   (10400000, 0x8d4157bf420bf2cee8512e97be7702622b55b3d39a100709c1e30667b423e5f2),
   (10450000, 0xcf9ca1464f083a3ad08314e34de4cdbae2ce9de955c926dfcada2dd2b379e678),
   (10500000, 0x846daf6bd016959c3649a7e0c5fc743b7747a5f9d8d38f069405196f74d4e045),
   (10550000, 0x2b06057080e583d9103d53538dccf84b4891a68837f49f43c1cdafc04163dd64),
   (10600000, 0x8a59f57385777e9158ee2a6dc90842f2656a015e44ad74a1e48e02acbfdf6ede),
   (10650000, 0xeda7ad5585848fd9b22468ec4e17b76fa35c722d9b73fccf238f1a84e89f07dc),
   (10700000, 0xc4727740f30352a57630ee85bd1868c6b5f90490ea3efe1906bc127a410c7d13),
   (10750000, 0x945e11ef1f98139abfe4459ba62db31219bad18988f14280f370718b113ec271),
   (10800000, 0x095fd714711e0f137dad0f0a6c2680137080654174a672bb677bfa294fb5cd55),
   (10850000, 0xfebf570d12dcef19f509b69fcc36579ce5700b9ad54e09122a0bba67851af5bf),
   (10900000, 0x8237e09cc7498f69721c5b039f75cec3bf9b0cdea5b93fd2fdcb01bcddbce6e8),
   (10950000, 0x4cc56644d5275dfc4cde35658db7cb7bf7addc92d11ecc5acf58f2ee541969c7),
   (11000000, 0xb1ed61f2de249217c8483188ba5dfaf33f2b39b8dba08215986615bf2944c901),
   (11050000, 0xf32406655f5eac4729eac3c69a1b79b1344b9b4f8d34e117445d5811ea371cce),
   (11100000, 0xf92725730380b89a508d35630651b0be303a90a645fd57a7cf3bea039f099e1d),
   (11150000, 0x808790b29bcaeb8c223e24e7cb61849f482e748bc6bdbf1122554d847a04b3a1),
   (11200000, 0xf7013056767ffec0795b318f0668e3721e8224bee578dc084ae06e61bb6ca758),
   (11250000, 0xbfa927809957e0e90837818f0a29a9de946c31ffe6bf41463fcd41c86dd6f0c3),
   (11300000, 0x06da0a759063f80a6e230024ac90b4c4854f268f637a8ff9571e9d8c02934b5c),
   (11350000, 0x9ae0f2cdb12da9d233982f90205b04d4d298cea7fb2ba18ad98670a00db6d5f8),
   (11400000, 0x1d1ec31d8e141c485bb53b542e936bed1da1f206204b5e8e56cefcb1b16f7455),
   (11450000, 0x7180c45d958764cf80224371af9b51a8d68ed131f81c3e1d42fb190eb7b5ebfe),
   (11500000, 0xeefac81202ffc8adcf05af0e0e004885322d0ac638c6e651caf1f698bb43b5e0),
   (11550000, 0x1f581013cba049d47117c5feecb55fd962ad5b32db15bfd7d0699ef066df6db6),
   (11600000, 0xb7153676d2c9189f0f03620c9c0d41d63c06e12ce032bfdfb40a159262efef56),
   (11650000, 0x395b3b8e2bfd8388c81c4c3c7a58e874be73eb6cf57f4217c709778470ac6d34),
   (11700000, 0xaf945145a98078d721d12418eb5484a1e4c2df80eb1c7f8685b8910c0e6993a5),
   (11750000, 0x9ed778f47b3bf5ce5eb45e090e8a47ef9b79344213b312bc6792adeafb7c83cd),
   (11800000, 0xc9799d853e186760aa111e03ff745a1213f1ab841f2c49240d6bbad8f22c6cd6),
   (11850000, 0x850c3009c0909986561f22032c2a147e128f2b2a0e969d6bf60cb48e837266b9),
   (11900000, 0x558180b7dfc38e467715655a6455abfc45f7190be125b99c65662e74ae009ebb),
   (11950000, 0x94f7083a01f64d284b4d4546c3f650764b4fccfc4f2f9ea44a5e51eb969835f5),
   (12000000, 0x46ea2fa723fd6148e2317eff0a7001a780979f7591a9edb2569eadaeeaa56105),
   (12050000, 0xdcf397158c875bdbcbef79d69f5d25f9e9fa41c72d60d8e4aa33c0c952992d14),
   (12100000, 0xc122d03ab07662e259bc167338e130de0ddaa99e19f0ba00103d7298bee63ffa),
   (12150000, 0xe386b3e050bc8233d9564245cfa55d3debeca9bcab4b803d78301e33296a5d6a),
   (12200000, 0x1725fd7a46650eeb0e87020606452331458e6330626cd6b69f339c10f771d11b)]"

definition cf_checkpoints_4 :: "cf_checkpoint list" where
  "cf_checkpoints_4 = [
   (12250000, 0x884840a58afdd94495844925aca82f6bf2e781c72a56c0b371499156eef80c13),
   (12300000, 0x71df3988977d79d40559706ca17c5c02875974283e7eefefea09611edeaf9b5e),
   (12350000, 0x5da62fcc2a047ca4de8c8da69376885ed8183de3d2c0466681bc12f7787d73e7),
   (12400000, 0x483cc16affa8558e9cf7e63ebf5901a3f3bd40429ed23484d219a46c88a02c4f),
   (12450000, 0xf3a294b6686cac4f360e50f345b698402850d503d65a27585e9b1425c93c6a97),
   (12500000, 0x99ca43759eafbce030b28f31243a8856dab01f0fa8ed9da1d59223ee8b526726),
   (12550000, 0xc2a1ca227893cefb3b8ac7795aae7b43df8fe69ac42495bb428c107b87f92be5),
   (12600000, 0x3cad2da801e06daaf60a1da8a13bbac12d1e8b6d4c34450bd1a72ca92bd18311),
   (12650000, 0x939d07228e49be6f979b64c9222489c992ba2ad53a41ec08a31a6e3174a932cb),
   (12700000, 0xfe943323196750461ef45a8c49b1dcbfd3973aca2c21a8f32af378d61ef75801),
   (12750000, 0x03b162d89dc82259aabf52670ee2f82b3851597b3daba4da095c708c3dee4ea5),
   (12800000, 0x356360142dd1240a2ee07b108572d8720f7032f4b0906df5759047378b693093),
   (12850000, 0xd0d47ab8ba58c7aec7f94a4602198b02b05a733cac3ba2ebb696ced08aeca519),
   (12900000, 0x053d09235fb6791ebb110749c9b1197f44d8854f8322e07e09c47c97a9e785b3),
   (12950000, 0x81c9c85129cf4516caa3dab630e8063e624476b5fdf6036f42ba1e70212c22b8),
   (13000000, 0xda51a4e463fcbbd9422c62e6149dfe859dd27f00722c0b08b983736ccbefc89d),
   (13050000, 0x01066d02b67a9ce93fbbbed37da94548b343067d22d41dc03a3474a6620fc930),
   (13100000, 0x2ff1e31831e688fdea875edbc4cc14800c5eaf6c2e43bdb3a69f599ec0e9819b),
   (13150000, 0x6faeb27d0a5fa297006f4b77e91c1044480c2c93b9aacb4c0804544c226f36be),
   (13200000, 0x28c569515d01015930718e8b6856543b474c00bec6370a364b0e257e435cd363),
   (13250000, 0x55f70745f6fa1ce48230873056f3ce67d8c64fd7f5297141849fd83cec947407),
   (13300000, 0x7748b29ab11bff25581cb78d651ec3f35b43dc7b0fe6aaf6639c94bae3db03a6),
   (13350000, 0xe71ffdc86c5ad96f88803608c85bcfdca1650ba2cba619944390130b53f9136c),
   (13400000, 0x9b3498801f719edacfc94d6856425783fdca085b505e7099d361d07e06b9cf08),
   (13450000, 0x6f7223b91c5dfc72db6ac3496ecd139dc76fc407c794ae0c5f12548f951bc3e0),
   (13500000, 0x99d86a44d72f464089db349ff97667a62592f141e3e73c1d74e04d77718d641a),
   (13550000, 0xfa05b889a99565caf249d13ee7c704912bf1b6494700a045994b6822cc7c4fae),
   (13600000, 0x8360ccceef3738a0d1a92cadaf52307bbf74dc46c148e881d36c43f286e53644),
   (13650000, 0x167fac89cd78172af4df78551d86282f8fcad11b9d0cbdc1af6868028b1d551f),
   (13700000, 0xb9b9e0eaf6435ae9605e0d5c774091293c46c08d8b69ebaebed3c5a2f1603c4a),
   (13750000, 0x47478eb32704d588298ec4aa7c3193b1c0be086ec4b1b09d9e49455a49097124),
   (13800000, 0x7b2801339f8722a4ea23a7e9c40138b66e3f4e2f486fce71194f9e2061ef9420),
   (13850000, 0xd5cfb0f65817938ba9017dc609d8631d0c9c12bbc28a1c870dddaa8b57f0e8ec),
   (13900000, 0xaebe7e44d6823ebc709051ac7f8bd978a2370803a0f65d7718a167343ca45020),
   (13950000, 0xb61fac8bf29826e6eed04fe40ff27bf751e5e7fcb1589d1f42461b8314d9c3d9),
   (14000000, 0x86491944293bbb24d68da9bef116f57ed583f89fe38f95f8cd40203bf52d7387),
   (14050000, 0xd1b28f8a5240094289793f7a1e90006e194ab9b177bbecdffb6bc7e0e3f33524),
   (14100000, 0x11bcf5118d90b8128d376635f0ff6a005bfd7200e738d30c13e812cb9f6314b4),
   (14150000, 0xfe53123ec2afe3968f001880d9cbdd9275d658555440c5309f06d5438a4e078e),
   (14200000, 0x545ab229973789e8de53c55dd3034673e82c0bb64635e210597e9c9622afd61a),
   (14250000, 0x3f1a22d21a5f9cce2c913d2e4b86bda32106a9a185249b94c8af8afb2821379c),
   (14300000, 0x6babd9b86198f16d9cb3b14fbaf71a05c14f94880015c6311c7cacd8421d7ce2),
   (14350000, 0xc7f0b815f43426be829d4276b38528aee22d4424dd88771364ad6cb5ebc3f48d),
   (14400000, 0x2ca864b1127cfd4b1cff6b2bec5251554327048d639d20a3c6972498c6c842ec),
   (14450000, 0xc1ff61cf778fdd0a152779a1959025b3ae33486a781962e6b9dbb5bd4b960266),
   (14500000, 0xfb62bbe8b5054a4f20dc778dabaf594c7b108517d838df362b322d753e7df895),
   (14550000, 0x1a776fc688d790da4446aec94f6c5a3c844ca0dc71fffea49f9b27b7eb7e4905),
   (14600000, 0x69b37832ade463191740118abbc53703c521a40822ce5e60c5fde215841db6c0),
   (14650000, 0x07e4fba4adbada1e74daed31b4b2af87c2656580fd3d1911b9c483cf90663ce8),
   (14700000, 0x17a2115cd34d5812fbea074dbef4934b430e7c64782b011cd6af61465b152f30),
   (14750000, 0x523dca5a8505934776c37f3a442da241cb210a38ab42d1659d8646e8430dcfe9),
   (14800000, 0x0f333ad91ac1a05d795be28c291d41db0f9b411288c254d9175d7150bee211b4),
   (14850000, 0xb936646da35b5689b32df7393e210dd3670c078e2fea33618e6345b3ff1eae52),
   (14900000, 0x51777af889f78bb73a2f9c792cb58c7b2f0c9f153ab08d1ab1fb89d5d44b22b0),
   (14950000, 0xf3fca5522fa9ba78a8606d53ad1cac32f5357176b94af6cc94285a70836b3e44),
   (15000000, 0x72e8c4824e3c92b08eea34e18cfdf9e026cec307a7f3a21d3eff35f57be0adb3),
   (15050000, 0xe5059525269fc9b06f28b1b755101a723dbb4316a662e12e1ddfaefa36175950),
   (15100000, 0x233053e9257583f787fe842f6bb4ae8e73a008b0a279424db402a0a99bfe194c),
   (15150000, 0xe181f9cd65b92215b9ef23c840076c662c3afe4251c0a3533edfe4edde7a3218),
   (15200000, 0x0b26d4b532cbc39e1368a863e3639cec400c8674a965ff366380017b7b89e71c),
   (15250000, 0xfe4726f56353cde17489ba5ba5f64fbf4ee3994bb968520e974e34d03228b6ca)]"

definition cf_checkpoints_5 :: "cf_checkpoint list" where
  "cf_checkpoints_5 = [
   (15300000, 0xb525d043fbd2909f0cf1fb85ac251055ac81bfeb1950206944ac9603dda59bde),
   (15350000, 0x0ffa19d2c5a0270a8f632fd62ede5c695cf1bc29e2ee97fd4df6226b25619ef8),
   (15400000, 0x12aaa6e5e48024638e3aa94f725b956d2095272878432f5c9fe6a89525789aa0),
   (15450000, 0xc95b479e32235dd192dbc341fc49629ebb36278d9b62d8cd6bdaca235c7ac5a5),
   (15500000, 0x6792d39d0c903972eb275a9286b2151eaa388c3978a99021cef0c7a1845a8b46),
   (15550000, 0xe8337a6bf13b0bf2bcf6906cb8baebe81e7716017baed457a757acdf35368e88),
   (15600000, 0x370a2f6aed9d69cd831a654669558022fe58cbca99e57fb4fe4342457567d1df),
   (15650000, 0x400dcec5e02f2e8e029f009431cd642ad99e2252129f9d1e935e03c57caa4f10),
   (15700000, 0x45a00b6ab2f4cb1a13f8c3c834f16b9288a1c9ee0d21726d95e0e42b43c79bc9),
   (15750000, 0x1294e3c3512bf055a3b018a636b13359b2c252968eed66f89a62da6b56c770eb),
   (15800000, 0x109a49a9a43aec02b896e456fe82b14b0fa68cc9edbddde1aac72fd688d342a9),
   (15850000, 0x8d598eade52c57e115a97f246f6ac515676e9436e481bc6b51cd63e096e03f4e),
   (15900000, 0x9f1b4f5300a8f9900a05278b13948cc0631a603169a7d382a4472c2f2818f651),
   (15950000, 0xf938c785d4ad64f0251290047265b06e3f6417834f31bae78986b40d5199aa8c),
   (16000000, 0x85cee5a642924e13647494ba1abdcd643dfb6075e2bc1109a246ec226abb892c),
   (16050000, 0xef91e05e6b005a5f3b203c6c495e45a650d7d5eb27767e66acb99cac03cc5a1f),
   (16100000, 0x29f3bbe0797eae894d10427f1a8764a084703a6ef78640a2c2bd0f1b3dd71acf),
   (16150000, 0xf39678ffc35ef6cb11eae9f4d68776dbcd8abd150aa49f875bac9c6530fb0c5d),
   (16200000, 0x6190db71c1983d6454cc730d788761f7145ae2012f1fa7a5880be5752e46571e),
   (16250000, 0xff7bc9b4749821da90fdda6bcac81edae8a468ebf9e2027dc92d5d8503565040),
   (16300000, 0x479f4fc31acd8d99c1e87ec5e975397decfa3f3a28e9f2265809dde017fae7fe),
   (16350000, 0x4efcfdda0cd32dac3c404ca76cc88baf672ce4610c8f5d011a9cfa45e7edc326),
   (16400000, 0x830e61d10674c44cd391dace16e98041943b6eab37c282f5b9ac101c92353e7b),
   (16450000, 0x9b4222c1990da66166d5b29a400bfd59b5622697e4181d8d4b9f0fe7c3100f5a),
   (16500000, 0xea1338777050a377cb6b646b2ed871174f7834a7c52ee46c66190352328066b1),
   (16550000, 0xea479a685b2be3a29359426f7e729be86513f0c8a6df81c89a4299c3a323cd06),
   (16600000, 0xb2318fb512039422206d7afb46787b6b6feafe8da824593fbf6aeac451f63e73),
   (16650000, 0x49fba8fcc0f4440c0eaf3c8f8de60e9b91c50ef3020c221c7df812404b7d9020),
   (16700000, 0x93c28439a76f7da2e5a597acee6b2707555b2b19ec5396409dd33a4c21220c4b),
   (16750000, 0x7b87600ac74646ad1decb91afa5fb12c5825e680019858e96adc7af0f07f1349),
   (16800000, 0xbbcd0f0a928c851f5010cb6cfd3ff41b29bdaca6cda113a5aa1b038b9ea7b9fb),
   (16850000, 0xc9b603bc55964874ab2ea141194f083e716c2a5aeee8f56b413d1588f86e583b),
   (16900000, 0x74c00647128d4388f3e7894e90f78ff4abb73ec4a73a912969c54f1b016b83a3),
   (16950000, 0x3957c999c71fcc987b37bb410ae6ac93ff89aa8770461ee419025f3c834118bb),
   (17000000, 0xf7195d104923ed23495a4b747acbfe4de59bf78dfac36eb5f52269f84d7e56e6),
   (17050000, 0x2d471a86e4d22de2e717bb4a92ea8e4add1f4645da9960dad98340654081b802),
   (17100000, 0xf7b4964d9b64706b235645c999664940be1bd6eb80661f83eb92c1784abaea96),
   (17150000, 0x99490e8ae482986b95731071dfabd6677a2a7993d0901b1852c6a1ac9e798377),
   (17200000, 0x824a23650fd091c07e71ff167254e2d8eec53bd74de3aab4e693132e820355f9),
   (17250000, 0xf4b05a42c6e1f32da24b4f3f82608d9457c6d8bb57c14b9900daeeef3618d71d),
   (17300000, 0x7d4d775571e8a2a180b2060db1319d813e6f45703f434483c4259a90d82432fb),
   (17350000, 0xeb8e88495403d7af91c928ba8eba55dabf3fb699f77efb78accbef4dac226832),
   (17400000, 0xcaa74a84ed1cc4a5204810f51c5723a94257c68e280c48f9c138da61290b8c1f),
   (17450000, 0x204e2ed9146ce06dc1109cccdd032a7de2e3d6241144baee8556c8226271797d),
   (17500000, 0xfce10621ecc35f7c13e12b3a4df90fde1a988e7065a9dafe70c0effae5abc110),
   (17550000, 0x973c50f7b14fae7d2961f8fbf0b4ab9f5965675f77636145f15fa74feb14fc32),
   (17600000, 0xcdd11a11e0ae9da1683afac853b7302fda7a3ad787012cf71e3590deeb52902b),
   (17650000, 0x8e68be3bc8a7ade4b68218e296367c0f025490d1e304fa9d9f7b2c22a3a6971f),
   (17700000, 0x1430b8e43b8d78fca780edd44f51efb737b73459e3305b7a9b03c15d5b698668),
   (17750000, 0x802de22d66a83a9f193b88b5a8383d1447dedcbbe477f25e906893769fe18745),
   (17800000, 0x3aece7469943fdf775ba6a14fbc9102775c6a3f96670179ac76484581465e47a),
   (17850000, 0xde85fe43d1c6da5be493dab8739728ee9bad757e0bc57ab5434f14488ff3f5f2),
   (17900000, 0x35c62ebd5a41cf8e04611c03188f99a9c89e79e6e74143c553df88522dd536c8),
   (17950000, 0x0782e4f21ce98ae09d191512d73b6363445c372b262ffb63fd8bc4aeaf58d3e9),
   (18000000, 0xb043859a7d972b605e4b4a5d7d38a326235d20ec05232a01d054b3b2c2afe5e2),
   (18050000, 0x5718aca42057939df3afa24bc6754f22b06df5e527b0f46d1475af8e4664c6c3),
   (18100000, 0x00d3943c2e233d3e31b9d050f9b3a691cf95c15376677e3121588f8c15d2b738),
   (18150000, 0x7cca3faaa94a0f08f52ea4486de9243bb31e7eec251f0d6520d6fcd7b03b8de7),
   (18200000, 0xa4cd7013f4a89bfeddc85afbd1403ed44f2dded12c1b3ef6e8e4d1e11e50c0aa),
   (18250000, 0xa77a6dfd2c3af38bb666bf54ee2939dfac1ef5f1c90d7537bba246971b4a1141),
   (18300000, 0x94627ce76b36d8b9204b86d419855083ea1feff0fcb9786285ab4811286537c2)]"

definition cf_checkpoints_6 :: "cf_checkpoint list" where
  "cf_checkpoints_6 = [
   (18350000, 0xabc430eb7bd6556d2571279ed1d6badd00d105c38597859ad92b8adf79f72ea8),
   (18400000, 0x81345a535f0ff2c51c56536d85bb2450d371b32965bfa6481a996179cd05cf5d),
   (18450000, 0x663204f8fde5c96cb1fa129d43cff2be9ace214e09ac8d64043cf35fcd016c73),
   (18500000, 0xd88efb6c1e1292235fe2080eae7fa26def98069b6fb749cf2311a7737034d741),
   (18550000, 0xc5e5ea47e5769088c2696346b6b35fa87961683120c000b41abfcaf6805d2bcf),
   (18600000, 0x2d5f5bd06b96fb952f54a011574f3e9ed835180fc68c4a3b0540b47ea1410fd5),
   (18650000, 0x44e093e7aed154b31a462802ffef8c4fce9639fee40971f39e7391fe2f3da45a),
   (18700000, 0xd202eeb90e9a782d9eab7ff9b0abf1acadc7a742b6cb1b3a59200f8d2f087734),
   (18750000, 0x5c4778139c3d930e05956668369f9a9d99112cbc3727ebf1efd988b6016675b2),
   (18800000, 0xd01dd9fe31274cd23c533bf30e0cee84654395c201c756794fd58752d4045052),
   (18850000, 0xdd7892e551a75aa2a198be519db783171525d9623be0aa5d08c4e9a3e508fa8a),
   (18900000, 0x530d6f35efd62a6fc4a31899f892378ae36a66fa1243f94ccdef2dbeda8d2ac9),
   (18950000, 0xb2676c5a084935e3f6d6213c95d687727d1696348f549e0bae887c8851b89d48),
   (19000000, 0x232d57bfdee6713a8f07276b0a097856c338254e890c9f5f99e56d6f2840f31b),
   (19050000, 0x1aee9c1457929c9ecdcfd63b5987d6ef733ebec885fa93685d16d5a0e0f2f546),
   (19100000, 0xf510153eee9d3318ae8a79fba56fab34e629d690dbb4951a8d9a7e2c6845539c),
   (19150000, 0x7639db4cc6ee64fd8788d85fef12e6abbfc4cf904f46b08c18da47fc5a702147),
   (19200000, 0x4fe3f3fdfec390fe3e27ae5b0a50738b7f4fa7735c91b09b936f0df4e610f26f),
   (19250000, 0x26086ee0d824405d8d1337ee170b68e957f894affda8be7c05f6c1817f1d8641),
   (19300000, 0x2a72172b2a8cbc48e4771596e6ea58d3d524e80a18ee5964330fb090888569bc),
   (19350000, 0x5ae53d9f24b3f2b0215757434640d41507f12e82cae649c1814bb9e351388d5d),
   (19400000, 0x8457043cdc1446bf9ac3d0d2920b397c5f59448bd8b00527c585fce05fb8e981),
   (19450000, 0x6ece6dfd18b5e9684b544010dd05062a2185745e8c2e0aaebed8b2e0667d76d6),
   (19500000, 0x16fb5c959dac14d3a1de6be07356dc7482a6f2f654736693a35f771f50f772b5),
   (19550000, 0x01ea5d78754d3c9f07c418327ac9c164d66e495d22a229537e19bf46827d8b9c),
   (19600000, 0x150dac66fc5e5127cf6b2fc0e6647090ca345b6d588b7033d8503834f6e7c448),
   (19650000, 0x08f7da5271d39ab776cd937bb98c2216f4240f8424686a6169cd5143e6d71e4d),
   (19700000, 0xc08f1938cc75550cd18edeb51ecfc74b3ea91907cfe533ae816df665f8d2b8eb),
   (19750000, 0x4d9e504dbda9f19216d8629a5f2fe474502998d8f6a5ed25e7af00482d5a26f3),
   (19800000, 0x0d34ff606d94c7609df25eb50eeff0c993d93c8c7f40aa123d1104904ba71db3),
   (19850000, 0x7a76abc10d59b39781c859b2778ce09df57127a9927bdb45e49199d0c42826ef),
   (19900000, 0x74b525d1dc52ed0cecd653cc4c64bfab926ff581ba9a57121d1ef4dce86ef3b4),
   (19950000, 0x7f11e791b60af5633bb570786287c97a37e040f8c4390bba24a1c24d28407312),
   (20000000, 0x822514bac6e1e6102ef214806ab40216242f93c28ff08ae982027a69d3795cb7),
   (20050000, 0x9432f683ee0d50788ccc760eb3126d2dd125686ab88c7b4d3592fb91232f62fd),
   (20100000, 0xc20f2b5a7a9714aa7a7c92f9b4f71425e192c6dcdae3d941830899b12ba2211e),
   (20150000, 0x56d8a9e7c6f68c7b5ac14c4a57a1a1eb148d877e552206ae63595c2affdc77b1),
   (20200000, 0x1aa37c566cb1142faae057692d1448a83825ed1e7615374617e82c0fc0530389),
   (20250000, 0x7b4f96bae4a1b8b20f28df779165a9a75cb7350a6c7e67b0e4662dfea6206c81),
   (20300000, 0xf22996c6c05095c32b74a3fad85496699c3bfb33e8383d3033b94ca4297a3fcb),
   (20350000, 0x4aca45041f16697d567e33e69674bd186e7f16a27b5a0420dfd38c4b36305a37),
   (20400000, 0x0927c4c00098a7028314fda93aa9b1db0ad1f2e13c1550c568f5f2bf472c53c6),
   (20450000, 0x77d7826dba876cd0972daa1edc537a57f397abfc5b53e3e8fc84fa5e451d8eae),
   (20500000, 0x5b7e3fa287ed9bc7db51de114efe0907b2298526acede5e308a1e5ae28ba9d88),
   (20550000, 0xafbe7208ca04797bffe7cfb54fbcaf5e8aba83794223f188cfa024d8885ca09d),
   (20600000, 0x6ed56ae5ad95c0acc1c7ea5ce6aa138eaf66c33b4e295f21c245589be4c6514b),
   (20650000, 0x11fef58fa86f4142d2d8b020e2f3938d150e12d16d668c685d46cf2f552d318f),
   (20700000, 0x5363045728e6e45b108a669536ccfa4049cdb35796ed7d810a70ec90f7e2f833),
   (20750000, 0x797fa0c2724d2715d985892e28ac67d0a5f9cac0729579029789d97545c9a625),
   (20800000, 0xedacc845e306e5ea4d0434c20aa4442dd5d175a4d9edd25b447010bc34693475),
   (20850000, 0x6b3ce05c062fd7fb4e65828ea4432d036cf0e27083e94f29bb4ad87278fd4c44),
   (20900000, 0x8c2674128c38a5cd5e51bcb64d1bf1627ae13e09b8e77336686610efec8062ed),
   (20950000, 0xae7e82a59aa4fa04daf26f9a73ae23ee023d8b79e36987ce65d10a2c21a18003),
   (21000000, 0x8a31cc7729a7b6c645787c5749881c5ca4928bffbdc34ed850552d905ecd4cbf),
   (21050000, 0x94b96819f5a34474e8904d4d7ce456fd0801e6182aff8022d5b63a8f5ad0c587),
   (21100000, 0x67f8c5ec72a993845482fd8e2cd1767fa66fd446e58ac6d6aab152c6cd4b8b95),
   (21150000, 0xfb9d10d0a173f06c3dde8665bb203e76abc139499982eb9ce6fcffb0a4138997),
   (21200000, 0xff5e6674c027118bf04bd355c9f4fa50e11cc959ea3292e905f862d9fd706f94),
   (21250000, 0x70a84fcf52f663f938e268e9026ce6e7992f8e640583f0223e6840c22d3ea3f2),
   (21300000, 0xeda38f34bf31306f28c23f2638211c9ca4d8c48a856927323b42f46ed08ab1d4),
   (21350000, 0x1af1545fe5f725a3cf87c3eaa20e4e5d600fbfc67c5a2c1ba1873f5d68f944ae)]"

definition cf_checkpoints_7 :: "cf_checkpoint list" where
  "cf_checkpoints_7 = [
   (21400000, 0xb13180d9a861cad35fe58e20120310483f3167242fbf5aaeeec16e7001b93444),
   (21450000, 0x161158681f64b953926c6586e395746d8a3b6982849404c1f76dcb801031cc0b),
   (21500000, 0x477e7eb9e1ba84ff69d1d00bb775fd4a24fd2a526504c86d90cc80e6c1ae38dd),
   (21550000, 0xc568f87457d20fa51b0a66f3d27cb66e3fc12d8421e67b3c4ee7b852ec91737a),
   (21600000, 0xbdaa2061ebc93f47564fc96aec6dfe4db7a70157d53359613b9c7baacbf0676f),
   (21650000, 0xbd32126e66e0fc3362233a6ee0e8e22f0f711831e2be611abd85034e1c1cf819),
   (21700000, 0xd3cc7d23b8cebdc3917183acbbfaf23a31518e96b582c4b5162a1a4992e3c9dd),
   (21750000, 0x3f2ea3c8b75a0bc764520a19c52d57cdeae093c677ba244a403f194bb6e8dc7d),
   (21800000, 0x3b11b98058a0d5fb311799e996fe91252e37727df4960fbc0dfccf6069d7be95),
   (21850000, 0xcd0bada8f3e2be952c3f724ed46c4c03947eba2d66c306171b0f8108fa4ef783),
   (21900000, 0xe8c6dfb273cc2b47df5c92c7e1d88109f853af7023010747f5c2113bc9a3bd18),
   (21950000, 0x51b9e11d4ac11a0916f4ee0c9a1ccc8ca3f48871f10950417e8d3659c3c07158),
   (22000000, 0x1a2cb2ffe049799171bfb5a6d044b8d9f4bd745bdc4207bce129db6a9a07e5b9),
   (22050000, 0xf018011d285fe397c882318c4c93c218548c04b23c443a7325a88dcb8afe5774),
   (22100000, 0xfdbd36d0aebd7852f64dc9b5817fe0dfe37a7109e1346b524d60adfb89cddbdd),
   (22150000, 0xc904b5c5b07aae09988b2b625213360e98f71f374cb48cc7d28b3b9e721f0eb3),
   (22200000, 0x350760461d865b27d835891acd545935d714557c2e12cbf27334e86c633aa65f),
   (22250000, 0x486d3580aee4fa01cf953d6e03af9388b1411c8638de38c35fd63389e333d8c8),
   (22300000, 0x98c54585c96ab01ff5f3871a2da0ad3b08bccd3bc9880e1a605efcd36d7748b8),
   (22350000, 0xea0b07218e873d26e0e866cb9d202a9023b3877d7e18d8c5dbaaf1366931eb6c),
   (22400000, 0x5f0e5d9e9f2826222a7eff2155ca4110cbb3f3905b03e634e7ed8ce4d339f058),
   (22450000, 0x93f697ba43b64d375a97ad1fa01c338643db3b97472c72bf3fcd39518a5f8ddb),
   (22500000, 0x6417587734386f42a85cac3e5c62b6bd3e5208fa62172b405617fa96439f728c),
   (22550000, 0x3a8e58fd634304ff5f544e72c854f8f4b2cae81d9b4f64223d1c544bfa8aa597),
   (22600000, 0x212080a99d0789c4b1e7597ad3f07a8a4893641430f9d94378504dd354c5f4aa),
   (22650000, 0x6ca97987f63e9b84b27eec98eef95aead8807c6f8a5c20b0f5adc0eb3ac0356b),
   (22700000, 0x7a0c65cd897fb0d93e35d109156e8767303b09f07dcfb8bb0158049053c68625),
   (22750000, 0x3d559e273c0b069cdcfd17ec187a197f46c757fbdf7b63397d8096b32e6d127c),
   (22800000, 0x0ae1ab25fa3f4b28cb798abe3b43a7a0935e0c97f9c4040bf8e02e75ff6cb076),
   (22850000, 0xdd4c371d223ce3736fc6714ac846100a8bfe2191ded07a42930e0201cee3fb25),
   (22900000, 0x70ed0470f6793e50c01757301e37996c78bb274f507aefba67ff4601ca7f1508),
   (22950000, 0x2abc161b3f138e08240b1ac1fea0e666f6df1501d1239e85c49bedca5c268428),
   (23000000, 0x0cabec9cfd3c7bf1fe0dce0c5846cca329a8b23ecd071a7152ec4f30f57769a2),
   (23050000, 0xc07f3955b8baf6427d9067b3cc44a307a7e7a174b2b81354906720748c76131b),
   (23100000, 0x2e8b8b98fd69f0ec0ae6a3cbca580a2a5fcd21f7c4b2597a9ba49812683436e1),
   (23150000, 0x45fa47c95ec86973bd79ad1f453dfb37553f730340d933c7c0eced6ec63bc26c),
   (23200000, 0xa6df08aa7feee333c06d6b6594537e5cdff8dfb1c40f68802f60fc88544e9b30),
   (23250000, 0x202b14b880b970b386ede122e18f7d580f5eb294b58d48ab76ab03f31effacba),
   (23300000, 0x55b09a7aef1ff96039d74c701d7ae2a764b05245c94f72b4ce874c0f454cd24c),
   (23350000, 0x416b095e7b100992501e7b15c01e9ece54b8cc1122c2a5272efcc728736e83d3),
   (23400000, 0x8b0a7f1310dcbe2201e2b1c530e12fdfc039ef4b6aba85f5dd68956adec18361),
   (23450000, 0xa93b0dc55f6def9b66e34c3a820305bc0c8598c4a7b14deab6fae0d7c1a3008e),
   (23500000, 0x81f55e886ff5b9582b4c346a19d63235cb83c0bc50b04bf06bf0d9ac084aa874),
   (23550000, 0x131f13a185f25c7d116a439bd992ac035dbe3b79e210db4cf6c7b5aed8722e8f),
   (23600000, 0xd00ed3ec2fec6dc8e9dffd89728d8b070580b61b8d911fa84661f8f42a8f954e),
   (23650000, 0xb0aafae2f62cecaf1909c859fc473114e9e1e04d51c0b156d0063aeb08671309),
   (23700000, 0xfdbfac559619aaa06b78bb3235bda69e5d50e0304bb1cca91b52b51cd7a6eba2),
   (23750000, 0x22560c297eb34da7e379ab093fa8f2da8c17c00d2189d9faae4dc1f427e3bd7f),
   (23800000, 0x81144befb344101bf05e12ed8d748a0d4e326a9366d84340ad0581de9cd68735),
   (23850000, 0x1d42e5cf1130979fb7a1d5f2f69e5f3747e75961f5856dc5fc39e6b407a3b330),
   (23900000, 0x7decfb1c4380b0475dd17846fe5fb24a2bceec6700333d879bb784fda413a7f0),
   (23950000, 0x3c03f3481752fcf551af4635623c3b37e88763c9579d7353ba2798e670e00d48),
   (24000000, 0xcc422221bb575f6a3a29b74a3930d37b9566e53c26cbb7052dda761b4b0e571f),
   (24050000, 0x29b781e3a4d1c90046bcad9a822a7cd5796f6ec347ea4660cc342acc37f23931),
   (24100000, 0x989e199e5ec7b3c2092c3fec9714ee9988321b5edf2a80e9fcc8c9241ab3fd8d),
   (24150000, 0x61d010bbbada9cf4417e71a285b1ef9c6c0bfb2363ebcbb1f6d6ee3ac3d3065e),
   (24200000, 0xe26706a0be09f10ef8443f61a3986ed3cca89f2e4efabdda3731522ef05a0cba),
   (24250000, 0xe6f5d5ab3069d257369e36f65b8f3d45afcdff466ac75b26eee380df33d24c7a),
   (24300000, 0x312bd73373d7116322a13d859f468dcf490f23e81a361645cc5c44202fd712d0),
   (24350000, 0xbce2356f58c98b722049efa79e9af538c5bc8ca12e2133c21d4ac41437091750),
   (24400000, 0xce3a5f268ca1073fcbf5b6c8fb9916a26eb2f51204c27ef5501baff99dd55df3)]"

definition BRMainNetCFCheckpoints :: "cf_checkpoint list" where
  "BRMainNetCFCheckpoints =
     cf_checkpoints_0 @ cf_checkpoints_1 @ cf_checkpoints_2 @ cf_checkpoints_3 @ cf_checkpoints_4 @ cf_checkpoints_5 @ cf_checkpoints_6 @ cf_checkpoints_7"

text \<open>The reading loops; the first two as the loop over the rest of the table.\<close>

fun highestAtOrBelow :: "u32 \<Rightarrow> cf_checkpoint option \<Rightarrow> cf_checkpoint list \<Rightarrow> cf_checkpoint option" where
  "highestAtOrBelow height best [] = best"
| "highestAtOrBelow height best (c # cs) = (if fst c \<le> height then highestAtOrBelow height (Some c) cs else best)"

definition BRCFHighestCheckpointAtOrBelow :: "u32 \<Rightarrow> cf_checkpoint option" where
  "BRCFHighestCheckpointAtOrBelow height = highestAtOrBelow height None BRMainNetCFCheckpoints"

definition BRCFTopCheckpointHeight :: u32 where
  "BRCFTopCheckpointHeight = (if BRMainNetCFCheckpoints = [] then 0 else fst (last BRMainNetCFCheckpoints))"

fun checkpointsInRange :: "u32 \<Rightarrow> u32 \<Rightarrow> nat \<Rightarrow> cf_checkpoint list \<Rightarrow> cf_checkpoint list" where
  "checkpointsInRange lo hi outCap [] = []"
| "checkpointsInRange lo hi outCap (c # cs) =
     (if outCap = 0 then []
      else if fst c \<ge> lo \<and> fst c \<le> hi then c # checkpointsInRange lo hi (outCap - 1) cs
      else if fst c > hi then [] else checkpointsInRange lo hi outCap cs)"

definition BRCFCheckpointsInRange :: "u32 \<Rightarrow> u32 \<Rightarrow> nat \<Rightarrow> cf_checkpoint list" where
  "BRCFCheckpointsInRange lo hi outCap = checkpointsInRange lo hi outCap BRMainNetCFCheckpoints"

section \<open>What the loops read\<close>

lemma heights_0: "map fst cf_checkpoints_0 = map (\<lambda>i. of_nat (50000 * (i + 1))) [0..<61]"
  by (simp add: cf_checkpoints_0_def upt_rec)

lemma heights_1: "map fst cf_checkpoints_1 = map (\<lambda>i. of_nat (50000 * (i + 1))) [61..<122]"
  by (simp add: cf_checkpoints_1_def upt_rec)

lemma heights_2: "map fst cf_checkpoints_2 = map (\<lambda>i. of_nat (50000 * (i + 1))) [122..<183]"
  by (simp add: cf_checkpoints_2_def upt_rec)

lemma heights_3: "map fst cf_checkpoints_3 = map (\<lambda>i. of_nat (50000 * (i + 1))) [183..<244]"
  by (simp add: cf_checkpoints_3_def upt_rec)

lemma heights_4: "map fst cf_checkpoints_4 = map (\<lambda>i. of_nat (50000 * (i + 1))) [244..<305]"
  by (simp add: cf_checkpoints_4_def upt_rec)

lemma heights_5: "map fst cf_checkpoints_5 = map (\<lambda>i. of_nat (50000 * (i + 1))) [305..<366]"
  by (simp add: cf_checkpoints_5_def upt_rec)

lemma heights_6: "map fst cf_checkpoints_6 = map (\<lambda>i. of_nat (50000 * (i + 1))) [366..<427]"
  by (simp add: cf_checkpoints_6_def upt_rec)

lemma heights_7: "map fst cf_checkpoints_7 = map (\<lambda>i. of_nat (50000 * (i + 1))) [427..<488]"
  by (simp add: cf_checkpoints_7_def upt_rec)

lemma upt_split: "i \<le> j \<Longrightarrow> j \<le> k \<Longrightarrow> [i..<k] = [i..<j] @ [j..<k]"
  using upt_add_eq_append[of i j "k - j"] by simp

lemma checkpoint_heights:
  "map fst BRMainNetCFCheckpoints = map (\<lambda>i. of_nat (50000 * (i + 1))) [0..<488]"
proof -
  have "[0..<488] = [0..<61] @ [61..<122] @ [122..<183] @ [183..<244] @ [244..<305] @ [305..<366] @ [366..<427] @ [427..<488]"
    using upt_split[of 0 61 488] upt_split[of 61 122 488] upt_split[of 122 183 488] upt_split[of 183 244 488]
      upt_split[of 244 305 488] upt_split[of 305 366 488] upt_split[of 366 427 488] by (simp del: upt.simps upt_rec_numeral)
  then show ?thesis
    by (simp only: BRMainNetCFCheckpoints_def map_append heights_0 heights_1 heights_2 heights_3 heights_4 heights_5 heights_6 heights_7)
qed

lemma checkpoints_ascend: "sorted_wrt (<) (map fst BRMainNetCFCheckpoints)"
proof -
  have small: "(of_nat m :: u32) < of_nat n" if "m < n" "n < 2 ^ 32" for m n
    using that by (simp add: word_less_nat_alt unat_of_nat take_bit_nat_eq_self)
  have "(of_nat (50000 * (i + 1)) :: u32) < of_nat (50000 * (j + 1))" if "i < j" "j < 488" for i j
    using that by (intro small) simp_all
  then show ?thesis by (simp add: checkpoint_heights sorted_wrt_iff_nth_less)
qed

lemma checkpointsInRange_filter:
  "sorted_wrt (<) (map fst cs) \<Longrightarrow>
     checkpointsInRange lo hi cap cs = take cap (filter (\<lambda>c. lo \<le> fst c \<and> fst c \<le> hi) cs)"
proof (induction cs arbitrary: cap)
  case (Cons c cs)
  have above: "filter (\<lambda>c. lo \<le> fst c \<and> fst c \<le> hi) cs = []" if "fst c > hi"
    using Cons.prems that by (auto simp: filter_empty_conv)
  then show ?case using Cons by (cases cap) auto
qed simp

end
