(* ===== verification/FilterChain.thy ===== *)
theory FilterChain
  imports CFCheckpoints GCSFilter Machine
begin

text \<open>
  The compact filter header chain of \<open>src/BRCompactFilterChain.c\<close>: appending batches of filter hashes, cutting
  back, moving the anchor, judging a batch against the pinned checkpoints, verifying one filter, and the
  persisted form.  \<open>None\<close> is the null chain.  A ghost list of filter hashes is what a chain stands for.
\<close>

section \<open>The chain and its operations\<close>

record filter_chain =
  fc_filterType :: u8
  fc_startHeight :: u32
  fc_anchorPrevHeader :: u256
  fc_headers :: "u256 list"
  fc_capacity :: nat

definition BR_COMPACT_FILTER_CHAIN_MAGIC :: u32 where "BR_COMPACT_FILTER_CHAIN_MAGIC = 0x46434243"
definition BR_COMPACT_FILTER_CHAIN_VERSION :: u8 where "BR_COMPACT_FILTER_CHAIN_VERSION = 1"
definition BR_COMPACT_FILTER_CHAIN_MAX :: nat where "BR_COMPACT_FILTER_CHAIN_MAX = 2 * 1024 * 1024"
definition HEADER_LEN :: nat where "HEADER_LEN = 4 + 1 + 1 + 4 + 32 + 4"

datatype append_result = AppendMismatch | AppendOk | AppendLimit | AppendNomem

definition foldHeader :: "u256 \<Rightarrow> u256 \<Rightarrow> u256" where
  "foldHeader prev filterHash = UInt256Get (BRGCSFilterHeader (UInt256Set filterHash) (UInt256Set prev))"

text \<open>The doubling of the capacity; a capacity of zero, which would not grow, is replaced by 64 before.\<close>

function growCap :: "nat \<Rightarrow> nat \<Rightarrow> nat" where
  "growCap newCap need =
     (if newCap \<ge> need \<or> newCap = 0 then newCap
      else if newCap > BR_COMPACT_FILTER_CHAIN_MAX div 2 then BR_COMPACT_FILTER_CHAIN_MAX
      else growCap (newCap * 2) need)"
  by pat_completeness auto
termination by (relation "measure (\<lambda>(newCap, need). need - newCap)") auto

declare growCap.simps [simp del]

text \<open>\<open>alloc\<close> says whether the allocation of that many headers succeeds.\<close>

definition chain_reserve :: "(nat \<Rightarrow> bool) \<Rightarrow> filter_chain \<Rightarrow> nat \<Rightarrow> append_result \<times> filter_chain" where
  "chain_reserve alloc chain need =
     (if need > BR_COMPACT_FILTER_CHAIN_MAX then (AppendLimit, chain)
      else if need \<le> fc_capacity chain then (AppendOk, chain)
      else
        let newCap = growCap (if fc_capacity chain \<noteq> 0 then fc_capacity chain else 64) need in
        if newCap < need then (AppendLimit, chain)
        else if \<not> alloc newCap then (AppendNomem, chain)
        else (AppendOk, chain\<lparr>fc_capacity := newCap\<rparr>))"

definition BRCompactFilterChainNew :: "u8 \<Rightarrow> u32 \<Rightarrow> u256 \<Rightarrow> filter_chain" where
  "BRCompactFilterChainNew filterType startHeight anchorPrevHeader =
     \<lparr>fc_filterType = filterType, fc_startHeight = startHeight, fc_anchorPrevHeader = anchorPrevHeader,
      fc_headers = [], fc_capacity = 0\<rparr>"

definition BRCompactFilterChainType :: "filter_chain option \<Rightarrow> u8" where
  "BRCompactFilterChainType chain = (case chain of None \<Rightarrow> 0 | Some c \<Rightarrow> fc_filterType c)"

definition BRCompactFilterChainStartHeight :: "filter_chain option \<Rightarrow> u32" where
  "BRCompactFilterChainStartHeight chain = (case chain of None \<Rightarrow> 0 | Some c \<Rightarrow> fc_startHeight c)"

definition BRCompactFilterChainCount :: "filter_chain option \<Rightarrow> nat" where
  "BRCompactFilterChainCount chain = (case chain of None \<Rightarrow> 0 | Some c \<Rightarrow> length (fc_headers c))"

definition BRCompactFilterChainNextHeight :: "filter_chain option \<Rightarrow> u32" where
  "BRCompactFilterChainNextHeight chain =
     (case chain of None \<Rightarrow> 0 | Some c \<Rightarrow> fc_startHeight c + of_nat (length (fc_headers c)))"

definition BRCompactFilterChainTipHeader :: "filter_chain option \<Rightarrow> u256" where
  "BRCompactFilterChainTipHeader chain =
     (case chain of None \<Rightarrow> 0
      | Some c \<Rightarrow> if length (fc_headers c) = 0 then fc_anchorPrevHeader c else fc_headers c ! (length (fc_headers c) - 1))"

definition BRCompactFilterChainHeader :: "filter_chain option \<Rightarrow> u32 \<Rightarrow> u256" where
  "BRCompactFilterChainHeader chain height =
     (case chain of None \<Rightarrow> 0
      | Some c \<Rightarrow>
          if fc_startHeight c > 0 \<and> height = fc_startHeight c - 1 then fc_anchorPrevHeader c
          else if height < fc_startHeight c then 0
          else let idx = unat (height - fc_startHeight c) in
               if idx \<ge> length (fc_headers c) then 0 else fc_headers c ! idx)"

text \<open>The headers the append loop writes.\<close>

primrec foldHeaders :: "u256 \<Rightarrow> u256 list \<Rightarrow> u256 list" where
  "foldHeaders prev [] = []"
| "foldHeaders prev (h # hs) = (let hdr = foldHeader prev h in hdr # foldHeaders hdr hs)"

definition BRCompactFilterChainAppendEx ::
    "(nat \<Rightarrow> bool) \<Rightarrow> filter_chain option \<Rightarrow> u256 \<Rightarrow> u256 list option \<Rightarrow> append_result \<times> filter_chain option" where
  "BRCompactFilterChainAppendEx alloc chain prevFilterHeader filterHashes =
     (case chain of None \<Rightarrow> (AppendMismatch, None)
      | Some c \<Rightarrow>
          if (case filterHashes of Some hs \<Rightarrow> hs = [] | None \<Rightarrow> False) then (AppendOk, chain)
          else case filterHashes of None \<Rightarrow> (AppendMismatch, chain)
          | Some hs \<Rightarrow>
              let tip = BRCompactFilterChainTipHeader chain in
              if prevFilterHeader \<noteq> tip then (AppendMismatch, chain)
              else case chain_reserve alloc c (length (fc_headers c) + length hs) of
                  (AppendOk, c') \<Rightarrow> (AppendOk, Some (c'\<lparr>fc_headers := fc_headers c' @ foldHeaders tip hs\<rparr>))
                | (r, c') \<Rightarrow> (r, Some c'))"

definition BRCompactFilterChainAppend ::
    "(nat \<Rightarrow> bool) \<Rightarrow> filter_chain option \<Rightarrow> u256 \<Rightarrow> u256 list option \<Rightarrow> bool \<times> filter_chain option" where
  "BRCompactFilterChainAppend alloc chain prevFilterHeader filterHashes =
     (case BRCompactFilterChainAppendEx alloc chain prevFilterHeader filterHashes of (r, c) \<Rightarrow> (r = AppendOk, c))"

definition BRCompactFilterChainTruncate :: "filter_chain option \<Rightarrow> u32 \<Rightarrow> bool \<times> filter_chain option" where
  "BRCompactFilterChainTruncate chain nextHeight =
     (case chain of None \<Rightarrow> (False, None)
      | Some c \<Rightarrow>
          if nextHeight < fc_startHeight c then (False, chain)
          else let keep = unat (nextHeight - fc_startHeight c) in
               if keep > length (fc_headers c) then (False, chain)
               else (True, Some (c\<lparr>fc_headers := take keep (fc_headers c)\<rparr>)))"

definition BRCompactFilterChainDropBelow :: "filter_chain option \<Rightarrow> u32 \<Rightarrow> nat \<times> filter_chain option" where
  "BRCompactFilterChainDropBelow chain newStart =
     (case chain of None \<Rightarrow> (0, None)
      | Some c \<Rightarrow>
          if newStart \<le> fc_startHeight c then (0, chain)
          else let dropped = unat (newStart - fc_startHeight c) in
               if dropped > length (fc_headers c) then (0, chain)
               else (dropped, Some (c\<lparr>fc_anchorPrevHeader := fc_headers c ! (dropped - 1),
                                      fc_headers := drop dropped (fc_headers c), fc_startHeight := newStart\<rparr>)))"

text \<open>The judgement of a batch: the first height with a checkpoint the folded header differs from.\<close>

fun violationLoop :: "cf_checkpoint list \<Rightarrow> u32 \<Rightarrow> nat \<Rightarrow> u256 \<Rightarrow> u256 list \<Rightarrow> (u32 \<times> u256) option" where
  "violationLoop cps start i h [] = None"
| "violationLoop cps start i h (f # fs) =
     (let h = foldHeader h f; height = start + of_nat i in
      if list_ex (\<lambda>c. fst c = height \<and> h \<noteq> snd c) cps then Some (height, h)
      else violationLoop cps start (i + 1) h fs)"

definition batchViolatesCheckpoints ::
    "filter_chain option \<Rightarrow> u256 list \<Rightarrow> cf_checkpoint list \<Rightarrow> (u32 \<times> u256) option" where
  "batchViolatesCheckpoints chain filterHashes cps =
     (if cps = [] then None
      else violationLoop cps (BRCompactFilterChainNextHeight chain) 0 (BRCompactFilterChainTipHeader chain) filterHashes)"

definition BRCompactFilterChainBatchViolatesCheckpoint ::
    "filter_chain option \<Rightarrow> u256 list option \<Rightarrow> (u32 \<times> u256) option" where
  "BRCompactFilterChainBatchViolatesCheckpoint chain filterHashes =
     (case chain of None \<Rightarrow> None
      | Some _ \<Rightarrow> (case filterHashes of None \<Rightarrow> None
        | Some hs \<Rightarrow>
            if hs = [] then None
            else let start = BRCompactFilterChainNextHeight chain;
                     cps = BRCFCheckpointsInRange start (start + of_nat (length hs) - 1) 16
                 in if cps = [] then None else batchViolatesCheckpoints chain hs cps))"

definition BRCompactFilterChainVerifyFilter :: "filter_chain option \<Rightarrow> u32 \<Rightarrow> bytes option \<Rightarrow> bool" where
  "BRCompactFilterChainVerifyFilter chain height encoded =
     (case chain of None \<Rightarrow> False
      | Some c \<Rightarrow> (case encoded of None \<Rightarrow> False
        | Some bs \<Rightarrow>
            if height < fc_startHeight c then False
            else let idx = unat (height - fc_startHeight c) in
                 if idx \<ge> length (fc_headers c) then False
                 else let prev = (if height = fc_startHeight c then fc_anchorPrevHeader c else fc_headers c ! (idx - 1))
                      in foldHeader prev (UInt256Get (BRSHA256_2 bs)) = fc_headers c ! idx))"

section \<open>The persisted form\<close>

definition chainBytes :: "filter_chain \<Rightarrow> bytes" where
  "chainBytes c =
     UInt32SetLE BR_COMPACT_FILTER_CHAIN_MAGIC @ [BR_COMPACT_FILTER_CHAIN_VERSION] @ [fc_filterType c] @
     UInt32SetLE (fc_startHeight c) @ UInt256Set (fc_anchorPrevHeader c) @
     UInt32SetLE (of_nat (length (fc_headers c))) @ concat (map UInt256Set (fc_headers c))"

text \<open>The buffer length \<open>None\<close> is the null buffer, which asks for the length needed.\<close>

definition BRCompactFilterChainSerialize :: "filter_chain option \<Rightarrow> nat option \<Rightarrow> nat \<times> bytes" where
  "BRCompactFilterChainSerialize chain bufLen =
     (case chain of None \<Rightarrow> (0, [])
      | Some c \<Rightarrow>
          if length (fc_headers c) > 0xffffffff then (0, [])
          else let need = HEADER_LEN + length (fc_headers c) * 32 in
               case bufLen of None \<Rightarrow> (need, [])
               | Some n \<Rightarrow> if n < need then (0, []) else (length (chainBytes c), chainBytes c))"

definition BRCompactFilterChainDeserialize :: "(nat \<Rightarrow> bool) \<Rightarrow> bytes \<Rightarrow> filter_chain option" where
  "BRCompactFilterChainDeserialize alloc buf =
     (if length buf < HEADER_LEN then None
      else if UInt32GetLE buf \<noteq> BR_COMPACT_FILTER_CHAIN_MAGIC then None
      else if buf ! 4 \<noteq> BR_COMPACT_FILTER_CHAIN_VERSION then None
      else
        let filterType = buf ! 5; startHeight = UInt32GetLE (drop 6 buf); anchorPrev = UInt256Get (drop 10 buf);
            count = unat (UInt32GetLE (drop 42 buf)); off = 46
        in if count > BR_COMPACT_FILTER_CHAIN_MAX then None
           else if length buf < off + count * 32 then None
           else let chain = BRCompactFilterChainNew filterType startHeight anchorPrev in
                if count > 0 then
                  case chain_reserve alloc chain count of
                    (AppendOk, chain) \<Rightarrow> Some (chain\<lparr>fc_headers := fst (get_many takeUInt256 count (drop off buf))\<rparr>)
                  | _ \<Rightarrow> None
                else Some chain)"

section \<open>What a chain stands for\<close>

lemma growCap_bounds:
  "0 < c \<Longrightarrow> c \<le> BR_COMPACT_FILTER_CHAIN_MAX \<Longrightarrow> need \<le> BR_COMPACT_FILTER_CHAIN_MAX \<Longrightarrow>
     need \<le> growCap c need \<and> growCap c need \<le> BR_COMPACT_FILTER_CHAIN_MAX"
proof (induction c need rule: growCap.induct)
  case (1 c need)
  have even: "2 * (BR_COMPACT_FILTER_CHAIN_MAX div 2) = BR_COMPACT_FILTER_CHAIN_MAX" by (simp add: BR_COMPACT_FILTER_CHAIN_MAX_def)
  show ?case
  proof (cases "need \<le> c \<or> c > BR_COMPACT_FILTER_CHAIN_MAX div 2")
    case True then show ?thesis using 1 by (subst (1 2) growCap.simps) auto
  next
    case False
    then have "growCap c need = growCap (c * 2) need" using 1(2) by (subst growCap.simps) simp
    moreover have "c * 2 \<le> BR_COMPACT_FILTER_CHAIN_MAX" using False even by linarith
    ultimately show ?thesis using 1(1) 1(2,4) False by simp
  qed
qed

lemma chain_reserve_ok:
  "chain_reserve alloc c need = (AppendOk, c') \<Longrightarrow> fc_capacity c \<le> BR_COMPACT_FILTER_CHAIN_MAX \<Longrightarrow>
     \<exists>cap. c' = c\<lparr>fc_capacity := cap\<rparr> \<and> need \<le> cap \<and> cap \<le> BR_COMPACT_FILTER_CHAIN_MAX \<and> need \<le> BR_COMPACT_FILTER_CHAIN_MAX"
  using growCap_bounds[of "if fc_capacity c \<noteq> 0 then fc_capacity c else 64" need]
  by (cases c) (auto simp: chain_reserve_def Let_def BR_COMPACT_FILTER_CHAIN_MAX_def split: if_splits)

lemma chain_reserve_grows:
  "need \<le> BR_COMPACT_FILTER_CHAIN_MAX \<Longrightarrow> fc_capacity c \<le> BR_COMPACT_FILTER_CHAIN_MAX \<Longrightarrow> (\<And>n. alloc n) \<Longrightarrow>
     \<exists>c'. chain_reserve alloc c need = (AppendOk, c')"
  using growCap_bounds[of "if fc_capacity c \<noteq> 0 then fc_capacity c else 64" need]
  by (auto simp: chain_reserve_def Let_def BR_COMPACT_FILTER_CHAIN_MAX_def not_less split: if_splits)

lemma chain_reserve_other: "chain_reserve alloc c need = (r, c') \<Longrightarrow> r \<noteq> AppendOk \<Longrightarrow> c' = c"
  by (auto simp: chain_reserve_def Let_def split: if_splits)

lemma length_foldHeaders [simp]: "length (foldHeaders p hs) = length hs"
  by (induction hs arbitrary: p) (simp_all add: Let_def)

lemma foldHeaders_append: "foldHeaders p (xs @ ys) = foldHeaders p xs @ foldHeaders (last (p # foldHeaders p xs)) ys"
  by (induction xs arbitrary: p) (simp_all add: Let_def)

lemma foldHeaders_take: "take k (foldHeaders p hs) = foldHeaders p (take k hs)"
  by (induction hs arbitrary: k p) (auto simp: Let_def take_Cons split: nat.splits)

lemma foldHeaders_drop:
  "0 < k \<Longrightarrow> k \<le> length hs \<Longrightarrow> drop k (foldHeaders p hs) = foldHeaders (foldHeaders p hs ! (k - 1)) (drop k hs)"
proof (induction hs arbitrary: k p)
  case (Cons h hs)
  then show ?case by (cases k; cases "k = 1") (auto simp: Let_def nth_Cons')
qed simp

lemma foldHeaders_nth:
  "i < length hs \<Longrightarrow> foldHeaders p hs ! i = foldHeader (if i = 0 then p else foldHeaders p hs ! (i - 1)) (hs ! i)"
  by (induction hs arbitrary: i p) (auto simp: Let_def nth_Cons')

lemma tip_of: "BRCompactFilterChainTipHeader (Some c) = last (fc_anchorPrevHeader c # fc_headers c)"
  by (simp add: BRCompactFilterChainTipHeader_def last_conv_nth)

text \<open>The operations on a chain together with the filter hashes it was built from.\<close>

datatype chain_op = AppendBatch u256 "u256 list" | CutBack u32 | MoveAnchor u32

fun chain_step :: "(nat \<Rightarrow> bool) \<Rightarrow> chain_op \<Rightarrow> filter_chain \<times> u256 list \<Rightarrow> filter_chain \<times> u256 list" where
  "chain_step alloc (AppendBatch prev new) (c, hs) =
     (case BRCompactFilterChainAppendEx alloc (Some c) prev (Some new) of
        (AppendOk, Some c') \<Rightarrow> (c', hs @ new) | (_, Some c') \<Rightarrow> (c', hs) | (_, None) \<Rightarrow> (c, hs))"
| "chain_step alloc (CutBack next) (c, hs) =
     (case BRCompactFilterChainTruncate (Some c) next of
        (True, Some c') \<Rightarrow> (c', take (length (fc_headers c')) hs) | _ \<Rightarrow> (c, hs))"
| "chain_step alloc (MoveAnchor newStart) (c, hs) =
     (case BRCompactFilterChainDropBelow (Some c) newStart of
        (k, Some c') \<Rightarrow> (c', drop k hs) | (_, None) \<Rightarrow> (c, hs))"

definition chain_inv :: "filter_chain \<times> u256 list \<Rightarrow> bool" where
  "chain_inv s \<longleftrightarrow>
     (case s of (c, hs) \<Rightarrow>
        fc_headers c = foldHeaders (fc_anchorPrevHeader c) hs \<and> length hs \<le> fc_capacity c \<and>
        fc_capacity c \<le> BR_COMPACT_FILTER_CHAIN_MAX)"

lemma chain_step_inv:
  assumes "chain_inv s"
  shows "chain_inv (chain_step alloc e s)"
proof -
  obtain c hs where s: "s = (c, hs)" by fastforce
  have inv: "fc_headers c = foldHeaders (fc_anchorPrevHeader c) hs" "length hs \<le> fc_capacity c"
    "fc_capacity c \<le> BR_COMPACT_FILTER_CHAIN_MAX" using assms by (auto simp: s chain_inv_def)
  show ?thesis
  proof (cases e)
    case (AppendBatch prev new)
    obtain r c' where r: "chain_reserve alloc c (length (fc_headers c) + length new) = (r, c')" by fastforce
    show ?thesis
    proof (cases "r = AppendOk \<and> new \<noteq> [] \<and> prev = BRCompactFilterChainTipHeader (Some c)")
      case True
      obtain cap where "c' = c\<lparr>fc_capacity := cap\<rparr>" "length (fc_headers c) + length new \<le> cap" "cap \<le> BR_COMPACT_FILTER_CHAIN_MAX"
        using chain_reserve_ok[of alloc c _ c'] r True inv(3) by blast
      then show ?thesis using True r inv unfolding s AppendBatch
        by (simp add: BRCompactFilterChainAppendEx_def Let_def chain_inv_def foldHeaders_append tip_of)
    next
      case False
      then have "c' = c \<or> r = AppendOk" using chain_reserve_other[OF r] by blast
      then show ?thesis using False r inv unfolding s AppendBatch
        by (auto simp: BRCompactFilterChainAppendEx_def Let_def chain_inv_def split: append_result.splits)
    qed
  next
    case (CutBack n)
    then show ?thesis using inv unfolding s
      by (auto simp: BRCompactFilterChainTruncate_def Let_def chain_inv_def foldHeaders_take min_def)
  next
    case (MoveAnchor n)
    show ?thesis
    proof (cases "n \<le> fc_startHeight c \<or> unat (n - fc_startHeight c) > length (fc_headers c)")
      case True
      then show ?thesis using inv unfolding s MoveAnchor
        by (auto simp: BRCompactFilterChainDropBelow_def Let_def chain_inv_def)
    next
      case False
      then have "n - fc_startHeight c \<noteq> 0" by auto
      then have "0 < unat (n - fc_startHeight c)" by (simp add: unat_gt_0)
      then show ?thesis using False inv unfolding s MoveAnchor
        by (simp add: BRCompactFilterChainDropBelow_def Let_def chain_inv_def foldHeaders_drop)
    qed
  qed
qed

interpretation filter_chain: guarded_machine "chain_step alloc" "\<lambda>_ _. True" chain_inv for alloc
  by unfold_locales (rule chain_step_inv)

lemma chain_run_inv: "chain_inv (run (chain_step alloc) (BRCompactFilterChainNew t s a, []) es)"
proof -
  have "run_ok (chain_step alloc) (\<lambda>_ _. True) x es" for x by (induction es arbitrary: x) simp_all
  moreover have "chain_inv (BRCompactFilterChainNew t s a, [])" by (simp add: chain_inv_def BRCompactFilterChainNew_def)
  ultimately show ?thesis by (rule filter_chain.run_inv[rotated])
qed

text \<open>The pairs of previous header and filter hash hashed for a chain.\<close>

primrec foldPairs :: "u256 \<Rightarrow> u256 list \<Rightarrow> (u256 \<times> u256) list" where
  "foldPairs p [] = []"
| "foldPairs p (h # hs) = (p, h) # foldPairs (foldHeader p h) hs"

lemma foldPairs_append: "foldPairs p (xs @ ys) = foldPairs p xs @ foldPairs (last (p # foldHeaders p xs)) ys"
  by (induction xs arbitrary: p) (simp_all add: Let_def)

lemma foldHeaders_inj:
  "length xs = length ys \<Longrightarrow> last (p # foldHeaders p xs) = last (q # foldHeaders q ys) \<Longrightarrow>
     inj_on (\<lambda>(p, h). foldHeader p h) (set (foldPairs p xs) \<union> set (foldPairs q ys)) \<Longrightarrow> xs = ys \<and> p = q"
proof (induction xs arbitrary: ys rule: rev_induct)
  case (snoc x xs)
  obtain ys' y where ys: "ys = ys' @ [y]" using snoc.prems(1) by (cases ys rule: rev_cases) simp_all
  let ?p = "last (p # foldHeaders p xs)" and ?q = "last (q # foldHeaders q ys')"
  have "foldHeader ?p x = foldHeader ?q y" using snoc.prems(2) by (simp add: ys foldHeaders_append Let_def)
  then have "(?p, x) = (?q, y)"
    using inj_onD[OF snoc.prems(3), of "(?p, x)" "(?q, y)"] by (simp add: ys foldPairs_append)
  moreover have "inj_on (\<lambda>(p, h). foldHeader p h) (set (foldPairs p xs) \<union> set (foldPairs q ys'))"
    using snoc.prems(3) by (rule inj_on_subset) (auto simp: ys foldPairs_append)
  ultimately show ?case using snoc.IH[of ys'] snoc.prems(1) ys by simp
qed simp

section \<open>Checkpoints\<close>

lemma violationLoop_None:
  "violationLoop cps start i h fs = None \<Longrightarrow> j < length fs \<Longrightarrow> c \<in> set cps \<Longrightarrow> fst c = start + of_nat (i + j) \<Longrightarrow>
     foldHeaders h fs ! j = snd c"
proof (induction fs arbitrary: i h j)
  case (Cons f fs)
  let ?h = "foldHeader h f"
  have none: "violationLoop cps start (i + 1) ?h fs = None" "\<not> list_ex (\<lambda>c. fst c = start + of_nat i \<and> ?h \<noteq> snd c) cps"
    using Cons.prems(1) by (simp_all add: Let_def split: if_splits)
  show ?case
  proof (cases j)
    case 0
    then show ?thesis using none(2) Cons.prems(3,4) by (auto simp: list_ex_iff Let_def)
  next
    case (Suc k)
    then show ?thesis using Cons.IH[OF none(1), of k] Cons.prems by (simp add: Let_def)
  qed
qed simp

text \<open>A batch of at most 800000 hashes has at most 16 checkpoints in its range.\<close>

lemma sixteen_checkpoints:
  assumes "n \<le> 800000"
  shows "length (filter (\<lambda>c. s \<le> unat (fst c) \<and> unat (fst c) < s + n) BRMainNetCFCheckpoints) \<le> 16"
proof -
  let ?f = "\<lambda>c :: cf_checkpoint. unat (fst c) div 50000" and ?P = "\<lambda>c. s \<le> unat (fst c) \<and> unat (fst c) < s + n"
  have heights: "map (unat \<circ> fst) BRMainNetCFCheckpoints = map (\<lambda>i. 50000 * (i + 1)) [0..<488]"
  proof -
    have "map (unat \<circ> fst) BRMainNetCFCheckpoints = map unat (map fst BRMainNetCFCheckpoints)" by simp
    also have "\<dots> = map (\<lambda>i. 50000 * (i + 1)) [0..<488]"
      unfolding checkpoint_heights map_map comp_def
    proof (rule map_cong[OF refl])
      fix i assume "i \<in> set [0..<488::nat]"
      then have "50000 * (i + 1) < 2 ^ LENGTH(32)" by simp
      then show "unat (of_nat (50000 * (i + 1)) :: u32) = 50000 * (i + 1)" by (simp only: unat_of_nat mod_less)
    qed
    finally show ?thesis .
  qed
  have "map ?f BRMainNetCFCheckpoints = map (\<lambda>h. h div 50000) (map (unat \<circ> fst) BRMainNetCFCheckpoints)" by simp
  also have "\<dots> = map (\<lambda>i. i + 1) [0..<488]" unfolding heights map_map by (intro map_cong) simp_all
  finally have "distinct (map ?f BRMainNetCFCheckpoints)" by (simp add: distinct_map inj_on_def)
  then have dist: "distinct (map ?f (filter ?P BRMainNetCFCheckpoints))" by (rule distinct_map_filter)
  have mult: "50000 * ?f c = unat (fst c)" if "c \<in> set BRMainNetCFCheckpoints" for c
  proof -
    have "unat (fst c) \<in> set (map (unat \<circ> fst) BRMainNetCFCheckpoints)" using that by force
    then show ?thesis unfolding heights by auto
  qed
  have "set (map ?f (filter ?P BRMainNetCFCheckpoints)) \<subseteq> {(s + 49999) div 50000..<(s + 49999) div 50000 + 16}"
  proof
    fix k assume "k \<in> set (map ?f (filter ?P BRMainNetCFCheckpoints))"
    then have "s \<le> 50000 * k" "50000 * k < s + n" using mult by auto
    then have "s \<le> 50000 * k" "50000 * k < s + 800000" using assms by simp_all
    moreover have "(s + 49999) div 50000 * 50000 \<le> s + 49999" "s + 49999 < (s + 49999) div 50000 * 50000 + 50000"
      using div_mult_mod_eq[of "s + 49999" 50000] mod_less_divisor[of 50000 "s + 49999"] by linarith+
    ultimately show "k \<in> {(s + 49999) div 50000..<(s + 49999) div 50000 + 16}" by simp
  qed
  then have "card (set (map ?f (filter ?P BRMainNetCFCheckpoints))) \<le> 16"
    using card_mono[of "{(s + 49999) div 50000..<(s + 49999) div 50000 + 16}"] by fastforce
  then show ?thesis using distinct_card[OF dist] by simp
qed

section \<open>The claims\<close>

text \<open>C4. A chain is what its filter hashes make it: after any sequence of batches, cuts and moved anchors, whatever
  was refused on the way, the headers are the fold of the accepted hashes from the anchor, they stay within
  the hard cap and the memory reserved, and a filter is accepted for a height exactly when that height is held
  and folding the filter's double SHA-256 onto the previous header gives the header the committed hash gives.\<close>

theorem filter_chain_tracks_its_hashes:
  "case run (chain_step alloc) (BRCompactFilterChainNew filterType startHeight anchor, []) ops of (c, hs) \<Rightarrow>
     fc_headers c = foldHeaders (fc_anchorPrevHeader c) hs \<and>
     length (fc_headers c) \<le> fc_capacity c \<and> fc_capacity c \<le> BR_COMPACT_FILTER_CHAIN_MAX \<and>
     (\<forall>height bs. let i = unat (height - fc_startHeight c); prev = last (fc_anchorPrevHeader c # take i (fc_headers c)) in
        BRCompactFilterChainVerifyFilter (Some c) height (Some bs) \<longleftrightarrow>
          fc_startHeight c \<le> height \<and> i < length hs \<and>
          foldHeader prev (UInt256Get (BRSHA256_2 bs)) = foldHeader prev (hs ! i))"
proof -
  obtain c hs where run: "run (chain_step alloc) (BRCompactFilterChainNew filterType startHeight anchor, []) ops = (c, hs)"
    by fastforce
  then have inv: "fc_headers c = foldHeaders (fc_anchorPrevHeader c) hs" "length hs \<le> fc_capacity c"
    "fc_capacity c \<le> BR_COMPACT_FILTER_CHAIN_MAX"
    using chain_run_inv[of alloc filterType startHeight anchor ops] by (simp_all add: chain_inv_def)
  have "BRCompactFilterChainVerifyFilter (Some c) height (Some bs) \<longleftrightarrow>
      fc_startHeight c \<le> height \<and> i < length hs \<and> foldHeader prev (UInt256Get (BRSHA256_2 bs)) = foldHeader prev (hs ! i)"
    if i: "i = unat (height - fc_startHeight c)" and prev: "prev = last (fc_anchorPrevHeader c # take i (fc_headers c))"
    for height bs i prev
  proof (cases "fc_startHeight c \<le> height \<and> i < length hs")
    case True
    have z: "height = fc_startHeight c \<longleftrightarrow> i = 0" using i by (simp add: unat_eq_0)
    have p: "prev = (if i = 0 then fc_anchorPrevHeader c else fc_headers c ! (i - 1))"
      using True inv(1) unfolding prev by (cases i) (simp_all add: take_Suc_conv_app_nth)
    then have "fc_headers c ! i = foldHeader prev (hs ! i)"
      using True foldHeaders_nth[of i hs "fc_anchorPrevHeader c"] unfolding inv(1) by simp
    moreover have "\<not> height < fc_startHeight c" using True by (simp add: not_less)
    ultimately show ?thesis using True z p inv(1)
      by (simp add: BRCompactFilterChainVerifyFilter_def Let_def i[symmetric])
  next
    case False
    then show ?thesis using i inv(1) by (auto simp: BRCompactFilterChainVerifyFilter_def Let_def not_less not_le)
  qed
  then show ?thesis using inv unfolding run by (simp add: Let_def)
qed

text \<open>C11. The tip header commits to the anchor and to every filter hash under it: two chains of the same length with
  the same tip header have the same anchor and were built from the same filter hashes, provided the double
  SHA-256 sends no two of the pairs folded for them to one value.\<close>

theorem tip_header_commits_to_the_filters:
  assumes "chain_inv (c, hs)" "chain_inv (c', hs')" "BRCompactFilterChainCount (Some c) = BRCompactFilterChainCount (Some c')"
    and "BRCompactFilterChainTipHeader (Some c) = BRCompactFilterChainTipHeader (Some c')"
    and "inj_on (\<lambda>(p, h). foldHeader p h) (set (foldPairs (fc_anchorPrevHeader c) hs) \<union> set (foldPairs (fc_anchorPrevHeader c') hs'))"
  shows "hs = hs' \<and> fc_anchorPrevHeader c = fc_anchorPrevHeader c'"
proof -
  have h: "fc_headers c = foldHeaders (fc_anchorPrevHeader c) hs" "fc_headers c' = foldHeaders (fc_anchorPrevHeader c') hs'"
    using assms(1,2) by (auto simp: chain_inv_def)
  then have "length hs = length hs'" using assms(3) by (simp add: BRCompactFilterChainCount_def)
  then show ?thesis using assms(4,5) foldHeaders_inj unfolding tip_of h by blast
qed

text \<open>Two chains with one header each: the first dropped the older of its two headers, the second was anchored
  above it.\<close>

theorem tip_header_commits_to_the_filters_witness:
  "\<exists>c1 c c'.
     BRCompactFilterChainAppendEx (\<lambda>_. True) (Some (BRCompactFilterChainNew 0 100 5)) 5 (Some [6, 7]) = (AppendOk, Some c1) \<and>
     BRCompactFilterChainDropBelow (Some c1) 101 = (1, Some c) \<and>
     BRCompactFilterChainAppendEx (\<lambda>_. True) (Some (BRCompactFilterChainNew 0 300 (foldHeader 5 6))) (foldHeader 5 6)
       (Some [7]) = (AppendOk, Some c') \<and>
     c \<noteq> c' \<and> chain_inv (c, drop 1 [6, 7]) \<and> chain_inv (c', [7]) \<and>
     BRCompactFilterChainCount (Some c) = BRCompactFilterChainCount (Some c') \<and>
     BRCompactFilterChainTipHeader (Some c) = BRCompactFilterChainTipHeader (Some c') \<and>
     inj_on (\<lambda>(p, h). foldHeader p h)
       (set (foldPairs (fc_anchorPrevHeader c) (drop 1 [6, 7])) \<union> set (foldPairs (fc_anchorPrevHeader c') [7])) \<and>
     drop 1 [6, 7] = [7 :: u256] \<and> fc_anchorPrevHeader c = fc_anchorPrevHeader c'"
proof -
  let ?n = "BRCompactFilterChainNew 0 100 5" and ?n' = "BRCompactFilterChainNew 0 300 (foldHeader 5 6)"
  let ?c1 = "?n\<lparr>fc_capacity := 64, fc_headers := foldHeaders 5 [6, 7]\<rparr>"
  let ?c = "?c1\<lparr>fc_anchorPrevHeader := foldHeader 5 6, fc_headers := drop 1 (fc_headers ?c1), fc_startHeight := 101\<rparr>"
  let ?c' = "?n'\<lparr>fc_capacity := 64, fc_headers := foldHeaders (foldHeader 5 6) [7]\<rparr>"
  let ?h = "drop 1 [6, 7] :: u256 list"
  have append: "BRCompactFilterChainAppendEx (\<lambda>_. True) (Some ?n) 5 (Some [6, 7]) = (AppendOk, Some ?c1)"
    "BRCompactFilterChainAppendEx (\<lambda>_. True) (Some ?n') (foldHeader 5 6) (Some [7]) = (AppendOk, Some ?c')"
    by (simp_all add: BRCompactFilterChainAppendEx_def BRCompactFilterChainNew_def BRCompactFilterChainTipHeader_def
        chain_reserve_def BR_COMPACT_FILTER_CHAIN_MAX_def growCap.simps Let_def)
  have drop: "BRCompactFilterChainDropBelow (Some ?c1) 101 = (1, Some ?c)"
    by (simp add: BRCompactFilterChainDropBelow_def BRCompactFilterChainNew_def Let_def)
  have inv: "chain_inv (?c, ?h)" "chain_inv (?c', [7])"
    by (simp_all add: chain_inv_def BRCompactFilterChainNew_def BR_COMPACT_FILTER_CHAIN_MAX_def Let_def)
  have same: "BRCompactFilterChainCount (Some ?c) = BRCompactFilterChainCount (Some ?c')"
    "BRCompactFilterChainTipHeader (Some ?c) = BRCompactFilterChainTipHeader (Some ?c')"
    by (simp_all add: BRCompactFilterChainNew_def BRCompactFilterChainCount_def BRCompactFilterChainTipHeader_def Let_def)
  have inj: "inj_on (\<lambda>(p, h). foldHeader p h)
      (set (foldPairs (fc_anchorPrevHeader ?c) ?h) \<union> set (foldPairs (fc_anchorPrevHeader ?c') [7]))"
    by (simp add: BRCompactFilterChainNew_def)
  have "?c \<noteq> ?c'" by (simp add: BRCompactFilterChainNew_def)
  then show ?thesis
    using append drop inv same inj tip_header_commits_to_the_filters[OF inv same inj] by blast
qed

lemma violationLoop_restrict:
  "(\<And>k c. k < length fs \<Longrightarrow> fst c = start + of_nat (i + k) \<Longrightarrow> c \<in> set cps \<longleftrightarrow> c \<in> set cps') \<Longrightarrow>
     violationLoop cps start i h fs = violationLoop cps' start i h fs"
proof (induction fs arbitrary: i h)
  case (Cons f fs)
  have "c \<in> set cps \<longleftrightarrow> c \<in> set cps'" if "fst c = start + of_nat i" for c using Cons.prems[of 0 c] that by simp
  then have "list_ex (\<lambda>c. fst c = start + of_nat i \<and> foldHeader h f \<noteq> snd c) cps \<longleftrightarrow>
      list_ex (\<lambda>c. fst c = start + of_nat i \<and> foldHeader h f \<noteq> snd c) cps'"
    unfolding list_ex_iff by blast
  moreover have "violationLoop cps start (i + 1) (foldHeader h f) fs = violationLoop cps' start (i + 1) (foldHeader h f) fs"
    using Cons.prems[of "Suc k" for k] by (intro Cons.IH) simp
  ultimately show ?case by (simp add: Let_def)
qed simp

lemma unat_of_small: "k < 2 ^ 32 \<Longrightarrow> unat (of_nat k :: u32) = k"
  by (simp add: unat_of_nat take_bit_nat_eq_self)

lemma unat_NextHeight:
  "unat (fc_startHeight c) + length (fc_headers c) < 2 ^ 32 \<Longrightarrow>
     unat (BRCompactFilterChainNextHeight (Some c)) = unat (fc_startHeight c) + length (fc_headers c)"
  by (simp add: BRCompactFilterChainNextHeight_def unat_plus_small unat_of_small)

text \<open>The limit of 16 checkpoints per look-up hides none from the judgement.\<close>

lemma look_up_hides_nothing:
  assumes "length hs \<le> 800000" "unat (fc_startHeight c) + length (fc_headers c) + length hs < 2 ^ 32"
  shows "BRCompactFilterChainBatchViolatesCheckpoint (Some c) (Some hs) = batchViolatesCheckpoints (Some c) hs BRMainNetCFCheckpoints"
proof (cases "hs = []")
  case False
  let ?start = "BRCompactFilterChainNextHeight (Some c)" and ?tip = "BRCompactFilterChainTipHeader (Some c)"
  let ?lo = "unat (fc_startHeight c) + length (fc_headers c)"
  have start: "unat ?start = ?lo" using assms(2) by (intro unat_NextHeight) simp
  have e: "?start + of_nat (length hs) - 1 = ?start + of_nat (length hs - 1)" using False by (cases hs) simp_all
  have end_: "unat (?start + of_nat (length hs) - 1) = ?lo + (length hs - 1)"
    unfolding e using assms(2) start by (simp add: unat_plus_small unat_of_small)
  have range: "?start \<le> k \<and> k \<le> ?start + of_nat (length hs) - 1 \<longleftrightarrow> ?lo \<le> unat k \<and> unat k < ?lo + length hs" for k :: u32
    unfolding word_le_nat_alt start end_ using False by (cases hs) auto
  define cps where "cps = BRCFCheckpointsInRange ?start (?start + of_nat (length hs) - 1) 16"
  have "cps = take 16 (filter (\<lambda>c. ?start \<le> fst c \<and> fst c \<le> ?start + of_nat (length hs) - 1) BRMainNetCFCheckpoints)"
    unfolding cps_def BRCFCheckpointsInRange_def by (rule checkpointsInRange_filter[OF checkpoints_ascend])
  also have "\<dots> = filter (\<lambda>c. ?lo \<le> unat (fst c) \<and> unat (fst c) < ?lo + length hs) BRMainNetCFCheckpoints"
    unfolding range using sixteen_checkpoints[OF assms(1), of ?lo] by (rule take_all)
  finally have cps: "cps = \<dots>" .
  have same: "violationLoop cps ?start 0 ?tip hs = violationLoop BRMainNetCFCheckpoints ?start 0 ?tip hs"
  proof (rule violationLoop_restrict)
    fix k and c' :: cf_checkpoint assume k: "k < length hs" and "fst c' = ?start + of_nat (0 + k)"
    then have "unat (fst c') = ?lo + k" using assms(2) start by (simp add: unat_plus_small unat_of_small)
    then show "c' \<in> set cps \<longleftrightarrow> c' \<in> set BRMainNetCFCheckpoints" using k by (simp add: cps)
  qed
  have empty: "violationLoop [] s i h fs = None" for s i h fs by (induction fs arbitrary: i h) (simp_all add: Let_def)
  have "BRMainNetCFCheckpoints \<noteq> []" by (simp add: BRMainNetCFCheckpoints_def cf_checkpoints_0_def)
  then show ?thesis using False same empty[of ?start 0 ?tip hs]
    unfolding BRCompactFilterChainBatchViolatesCheckpoint_def
    by (auto simp: cps_def[symmetric] batchViolatesCheckpoints_def Let_def)
qed (simp add: BRCompactFilterChainBatchViolatesCheckpoint_def batchViolatesCheckpoints_def)

text \<open>C10. A batch that violates no checkpoint and is appended puts the pinned header at every checkpoint height it
  covers; and for a batch of at most 800000 hashes the judgement against the look-up of at most 16 checkpoints is
  the one against the whole pinned table.\<close>

theorem appended_batch_agrees_with_the_checkpoints:
  assumes "batchViolatesCheckpoints (Some c) hs cps = None"
    and "BRCompactFilterChainAppendEx alloc (Some c) prev (Some hs) = (AppendOk, Some c')"
    and "unat (fc_startHeight c) + length (fc_headers c) + length hs < 2 ^ 32"
    and "(h, hdr) \<in> set cps"
    and "unat (fc_startHeight c) + length (fc_headers c) \<le> unat h"
    and "unat h < unat (fc_startHeight c) + length (fc_headers c) + length hs"
  shows "BRCompactFilterChainHeader (Some c') h = hdr \<and>
     (length hs \<le> 800000 \<longrightarrow>
        BRCompactFilterChainBatchViolatesCheckpoint (Some c) (Some hs) = batchViolatesCheckpoints (Some c) hs BRMainNetCFCheckpoints)"
proof -
  let ?start = "BRCompactFilterChainNextHeight (Some c)" and ?tip = "BRCompactFilterChainTipHeader (Some c)"
  let ?lo = "unat (fc_startHeight c) + length (fc_headers c)"
  have hs: "hs \<noteq> []" using assms(5,6) by auto
  have start: "unat ?start = ?lo" using assms(3) by (intro unat_NextHeight) simp
  have "cps \<noteq> []" using assms(4) by auto
  then have "violationLoop cps ?start 0 ?tip hs = None" using assms(1) by (simp add: batchViolatesCheckpoints_def)
  moreover have "h = ?start + of_nat (0 + (unat h - ?lo))"
  proof -
    have "(of_nat (unat h - unat ?start) :: u32) = of_nat (unat h) - of_nat (unat ?start)"
      using assms(5) start by (simp only: of_nat_diff)
    then have "(of_nat (unat h - ?lo) :: u32) = h - ?start" unfolding start by (simp add: start[symmetric])
    then show ?thesis by simp
  qed
  ultimately have fold: "foldHeaders ?tip hs ! (unat h - ?lo) = hdr"
    using violationLoop_None[of cps ?start 0 ?tip hs "unat h - ?lo" "(h, hdr)"] assms(4,5,6) by simp
  have "fc_startHeight c' = fc_startHeight c" "fc_headers c' = fc_headers c @ foldHeaders ?tip hs"
    using assms(2) hs by (auto simp: BRCompactFilterChainAppendEx_def Let_def chain_reserve_def split: if_splits prod.splits append_result.splits)
  moreover have le: "unat (fc_startHeight c) \<le> unat h" using assms(5) by simp
  moreover have "unat (h - fc_startHeight c) = unat h - unat (fc_startHeight c)"
    using le by (simp add: unat_sub word_le_nat_alt)
  moreover have "\<not> (fc_startHeight c > 0 \<and> h = fc_startHeight c - 1)"
  proof
    assume "fc_startHeight c > 0 \<and> h = fc_startHeight c - 1"
    then have "unat h < unat (fc_startHeight c)" by (simp add: unat_minus_one unat_gt_0 word_neq_0_conv)
    then show False using le by simp
  qed
  ultimately have "BRCompactFilterChainHeader (Some c') h = hdr" using fold assms(5,6)
    by (auto simp: BRCompactFilterChainHeader_def Let_def word_less_nat_alt nth_append)
  then show ?thesis using look_up_hides_nothing assms(3) by blast
qed

theorem appended_batch_agrees_with_the_checkpoints_witness:
  "\<exists>c'. BRCompactFilterChainAppendEx (\<lambda>_. True) (Some (BRCompactFilterChainNew 0 50001 5)) 5 (Some [7]) = (AppendOk, Some c') \<and>
     BRCompactFilterChainHeader (Some c') 50001 = foldHeader 5 7"
proof -
  let ?c = "BRCompactFilterChainNew 0 50001 5"
  let ?c' = "?c\<lparr>fc_capacity := 64, fc_headers := [foldHeader 5 7]\<rparr>"
  have fields: "fc_startHeight ?c = 50001" "fc_headers ?c = []" "fc_capacity ?c = 0" "BRCompactFilterChainTipHeader (Some ?c) = 5"
    by (simp_all add: BRCompactFilterChainNew_def BRCompactFilterChainTipHeader_def)
  have append: "BRCompactFilterChainAppendEx (\<lambda>_. True) (Some ?c) 5 (Some [7]) = (AppendOk, Some ?c')"
    by (simp add: BRCompactFilterChainAppendEx_def fields chain_reserve_def BR_COMPACT_FILTER_CHAIN_MAX_def growCap.simps Let_def)
  have "batchViolatesCheckpoints (Some ?c) [7] [(50001, foldHeader 5 7)] = None"
    by (simp add: batchViolatesCheckpoints_def fields Let_def)
  from appended_batch_agrees_with_the_checkpoints[OF this append, of 50001 "foldHeader 5 7"] append
  show ?thesis by (simp add: fields)
qed

lemma length_chainBytes: "length (chainBytes c) = HEADER_LEN + 32 * length (fc_headers c)"
  by (simp add: chainBytes_def HEADER_LEN_def hash256.many_length)

lemma chain_fields:
  assumes "length (fc_headers c) < 2 ^ 32"
  shows "UInt32GetLE (chainBytes c) = BR_COMPACT_FILTER_CHAIN_MAGIC" "chainBytes c ! 4 = BR_COMPACT_FILTER_CHAIN_VERSION"
    "chainBytes c ! 5 = fc_filterType c" "UInt32GetLE (drop 6 (chainBytes c)) = fc_startHeight c"
    "UInt256Get (drop 10 (chainBytes c)) = fc_anchorPrevHeader c"
    "unat (UInt32GetLE (drop 42 (chainBytes c))) = length (fc_headers c)"
    "drop 46 (chainBytes c) = concat (map UInt256Set (fc_headers c))"
  using assms by (simp_all add: chainBytes_def UIntLE_get_set nth_append unat_of_small)

text \<open>A chain that fits the hard cap is read back from the bytes it is written to, with memory to spare: the
  type, the start, the anchor and every header.\<close>

theorem filter_chain_roundtrip:
  assumes "length (fc_headers c) \<le> BR_COMPACT_FILTER_CHAIN_MAX"
  shows "\<exists>cap. BRCompactFilterChainDeserialize (\<lambda>_. True)
       (snd (BRCompactFilterChainSerialize (Some c) (Some (fst (BRCompactFilterChainSerialize (Some c) None))))) =
       Some (c\<lparr>fc_capacity := cap\<rparr>) \<and> length (fc_headers c) \<le> cap \<and> cap \<le> BR_COMPACT_FILTER_CHAIN_MAX"
proof -
  have len: "length (fc_headers c) < 2 ^ 32" using assms by (simp add: BR_COMPACT_FILTER_CHAIN_MAX_def)
  have bytes: "snd (BRCompactFilterChainSerialize (Some c) (Some (fst (BRCompactFilterChainSerialize (Some c) None)))) = chainBytes c"
    using len by (simp add: BRCompactFilterChainSerialize_def Let_def)
  let ?new = "BRCompactFilterChainNew (fc_filterType c) (fc_startHeight c) (fc_anchorPrevHeader c)"
  have new: "fc_capacity ?new = 0" "?new\<lparr>fc_capacity := k, fc_headers := fc_headers c\<rparr> = c\<lparr>fc_capacity := k\<rparr>" for k
    by (cases c; simp add: BRCompactFilterChainNew_def)+
  have many: "fst (get_many takeUInt256 (length (fc_headers c)) (concat (map UInt256Set (fc_headers c)))) = fc_headers c"
    using hash256.many_roundtrip[of "fc_headers c" "[]"] by simp
  show ?thesis
  proof (cases "fc_headers c = []")
    case True
    have "BRCompactFilterChainDeserialize (\<lambda>_. True) (chainBytes c) = Some ?new"
      using True by (simp add: BRCompactFilterChainDeserialize_def length_chainBytes chain_fields[OF len] Let_def HEADER_LEN_def)
    moreover have "?new = c\<lparr>fc_capacity := 0\<rparr>" using True by (cases c) (simp add: BRCompactFilterChainNew_def)
    ultimately have "BRCompactFilterChainDeserialize (\<lambda>_. True) (chainBytes c) = Some (c\<lparr>fc_capacity := 0\<rparr>)" by simp
    then show ?thesis unfolding bytes using True by auto
  next
    case False
    obtain c' where r: "chain_reserve (\<lambda>_. True) ?new (length (fc_headers c)) = (AppendOk, c')"
      using chain_reserve_grows[of _ ?new "\<lambda>_. True"] assms new(1) by auto
    obtain cap where cap: "c' = ?new\<lparr>fc_capacity := cap\<rparr>" "length (fc_headers c) \<le> cap" "cap \<le> BR_COMPACT_FILTER_CHAIN_MAX"
      using chain_reserve_ok[OF r] new(1) by auto
    have "BRCompactFilterChainDeserialize (\<lambda>_. True) (chainBytes c) = Some (c'\<lparr>fc_headers := fc_headers c\<rparr>)"
      using False assms r many
      by (simp add: BRCompactFilterChainDeserialize_def length_chainBytes chain_fields[OF len] Let_def HEADER_LEN_def)
    then show ?thesis unfolding bytes cap(1) new(2) using cap(2,3) by blast
  qed
qed

theorem filter_chain_roundtrip_witness:
  "\<exists>cap. BRCompactFilterChainDeserialize (\<lambda>_. True)
     (snd (BRCompactFilterChainSerialize (Some (BRCompactFilterChainNew 0 9 5\<lparr>fc_headers := [1, 2]\<rparr>)) (Some (46 + 64)))) =
     Some (BRCompactFilterChainNew 0 9 5\<lparr>fc_headers := [1, 2], fc_capacity := cap\<rparr>)"
proof -
  let ?c = "BRCompactFilterChainNew 0 9 5\<lparr>fc_headers := [1, 2]\<rparr>"
  have "length (fc_headers ?c) \<le> BR_COMPACT_FILTER_CHAIN_MAX" by (simp add: BR_COMPACT_FILTER_CHAIN_MAX_def)
  from filter_chain_roundtrip[OF this] show ?thesis
    by (auto simp: BRCompactFilterChainSerialize_def Let_def HEADER_LEN_def)
qed

end
