(* ===== verification/SyncWatchdog.thy ===== *)
theory SyncWatchdog
  imports Complex_Main Machine
begin

text \<open>
  The decisions of the sync watchdogs (\<open>src/BRSyncWatchdog.h\<close>) and the recovery table they read
  (\<open>src/BRCFRecoveryPolicy.h\<close>).  Times and heights are 64-bit signed integers, kept as \<open>int\<close>; the differences
  that wrap in the code wrap here (\<open>wd_wrap\<close>).  Flags are \<open>bool\<close>.  The caller's loop, one reading after the
  other, is a run of steps.
\<close>

section \<open>The recovery table\<close>

datatype cf_recovery_reason = FilterChainWedged | Reanchored | FilterChainCorrupt | ScanLedgerCorrupt | WalletReset | UnknownReason

record cf_recovery_decision =
  dropFilterChain :: bool
  dropScanLedger :: bool

fun BRCFRecoveryDecide :: "cf_recovery_reason \<Rightarrow> cf_recovery_decision" where
  "BRCFRecoveryDecide FilterChainWedged = \<lparr>dropFilterChain = True, dropScanLedger = False\<rparr>"
| "BRCFRecoveryDecide Reanchored = \<lparr>dropFilterChain = True, dropScanLedger = False\<rparr>"
| "BRCFRecoveryDecide FilterChainCorrupt = \<lparr>dropFilterChain = True, dropScanLedger = True\<rparr>"
| "BRCFRecoveryDecide ScanLedgerCorrupt = \<lparr>dropFilterChain = False, dropScanLedger = True\<rparr>"
| "BRCFRecoveryDecide WalletReset = \<lparr>dropFilterChain = True, dropScanLedger = True\<rparr>"
| "BRCFRecoveryDecide UnknownReason = \<lparr>dropFilterChain = True, dropScanLedger = False\<rparr>"

definition BRCFRecoveryMayDropScanLedger :: "cf_recovery_reason \<Rightarrow> bool" where
  "BRCFRecoveryMayDropScanLedger reason = dropScanLedger (BRCFRecoveryDecide reason)"

section \<open>Constants and the convoy window\<close>

definition BR_WD_REANCHOR_GRACE_MS :: int where "BR_WD_REANCHOR_GRACE_MS = 60000"
definition BR_WD_HEALTHY_CF_GAP_BLOCKS :: int where "BR_WD_HEALTHY_CF_GAP_BLOCKS = 100"
definition BR_WD_CF_FROZEN_RECOVERY_MS :: int where "BR_WD_CF_FROZEN_RECOVERY_MS = 120000"
definition BR_WD_CF_CORRUPT_HEAL_MS :: int where "BR_WD_CF_CORRUPT_HEAL_MS = 90000"
definition BR_WD_CF_CORRUPT_HEAL_COOLDOWN_MS :: int where "BR_WD_CF_CORRUPT_HEAL_COOLDOWN_MS = 240000"
definition BR_WD_MAX_CF_CORRUPT_HEALS :: int where "BR_WD_MAX_CF_CORRUPT_HEALS = 3"
definition BR_WD_TIP_STALL_TIMEOUT_MS :: int where "BR_WD_TIP_STALL_TIMEOUT_MS = 1200000"
definition BR_WD_TIP_STALL_FAST_MS :: int where "BR_WD_TIP_STALL_FAST_MS = 180000"
definition BR_WD_TIP_STALL_TIER2_THROTTLE_MS :: int where "BR_WD_TIP_STALL_TIER2_THROTTLE_MS = 3600000"
definition BR_WD_CF_VALVE_RETRY_CYCLE_MS :: int where "BR_WD_CF_VALVE_RETRY_CYCLE_MS = 450000"
definition BR_WD_BIP158_FALLBACK_TIMEOUT_MS :: int where "BR_WD_BIP158_FALLBACK_TIMEOUT_MS = 120000"
definition BR_WD_BLOCK_CATCHUP_GRACE :: int where "BR_WD_BLOCK_CATCHUP_GRACE = 50"
definition BR_WD_ZERO_PEER_RECREATE_THRESHOLD :: int where "BR_WD_ZERO_PEER_RECREATE_THRESHOLD = 3"

definition wd_wrap :: "int \<Rightarrow> int" where "wd_wrap a = signed_take_bit 63 a"
definition brWdSub :: "int \<Rightarrow> int \<Rightarrow> int" where "brWdSub a b = wd_wrap (a - b)"
definition brWdTwice :: "int \<Rightarrow> int" where "brWdTwice a = wd_wrap (a * 2)"

definition BRWatchdogIsScanFrontierArmed :: "int \<Rightarrow> bool" where
  "BRWatchdogIsScanFrontierArmed scanFrontier \<longleftrightarrow> scanFrontier > 1"

definition BRWatchdogSuppressionMaxMs :: "int \<Rightarrow> int" where
  "BRWatchdogSuppressionMaxMs rearmMax = wd_wrap (BR_WD_CF_VALVE_RETRY_CYCLE_MS * (rearmMax + 2))"

definition BRWatchdogIsConvoyWindowFull :: "int \<Rightarrow> int \<Rightarrow> int \<Rightarrow> bool" where
  "BRWatchdogIsConvoyWindowFull blockHeaderFrontier scanFrontier window \<longleftrightarrow>
     BRWatchdogIsScanFrontierArmed scanFrontier \<and> blockHeaderFrontier \<ge> scanFrontier \<and>
     blockHeaderFrontier - scanFrontier \<ge> window"

definition BRWatchdogIsConvoySuppressed :: "int \<Rightarrow> int \<Rightarrow> int \<Rightarrow> bool" where
  "BRWatchdogIsConvoySuppressed abandonmentPendingCycles frontierPinnedMs suppressionMaxMs \<longleftrightarrow>
     abandonmentPendingCycles > 0 \<and> frontierPinnedMs < suppressionMaxMs"

section \<open>The decisions\<close>

datatype post_timeout_action = WdReanchor | WdAwaitReanchor | WdStayOnFilters

definition BRWatchdogDecidePostTimeout :: "bool \<Rightarrow> bool \<Rightarrow> int \<Rightarrow> int \<Rightarrow> int \<Rightarrow> int \<Rightarrow> int \<Rightarrow> post_timeout_action" where
  "BRWatchdogDecidePostTimeout hasReachedSynced reanchoredThisSession msSinceReanchor scanStalledMs
     abandonmentPendingCycles scanFrozenThresholdMs suppressionMaxMs =
     (if hasReachedSynced \<and> \<not> reanchoredThisSession \<and> scanStalledMs \<ge> scanFrozenThresholdMs \<and>
         \<not> BRWatchdogIsConvoySuppressed abandonmentPendingCycles scanStalledMs suppressionMaxMs then WdReanchor
      else if reanchoredThisSession \<and> msSinceReanchor < BR_WD_REANCHOR_GRACE_MS then WdAwaitReanchor
      else WdStayOnFilters)"

definition BRWatchdogIsFilterSyncHealthy :: "int \<Rightarrow> bool \<Rightarrow> bool \<Rightarrow> bool" where
  "BRWatchdogIsFilterSyncHealthy gap cfAdvancedSinceStart blocksCaughtUp \<longleftrightarrow>
     gap \<le> BR_WD_HEALTHY_CF_GAP_BLOCKS \<and> (cfAdvancedSinceStart \<or> blocksCaughtUp)"

definition BRWatchdogShouldRecoverFrozenCf :: "bool \<Rightarrow> int \<Rightarrow> int \<Rightarrow> bool \<Rightarrow> int \<Rightarrow> int \<Rightarrow> int \<Rightarrow> int \<Rightarrow> bool" where
  "BRWatchdogShouldRecoverFrozenCf blockClimbing cfFrozenMs cfNetMax alreadyRecovered scanStalledMs
     abandonmentPendingCycles thresholdMs suppressionMaxMs \<longleftrightarrow>
     \<not> alreadyRecovered \<and> blockClimbing \<and> cfNetMax > 0 \<and> cfFrozenMs \<ge> thresholdMs \<and> scanStalledMs \<ge> thresholdMs \<and>
     \<not> BRWatchdogIsConvoySuppressed abandonmentPendingCycles scanStalledMs suppressionMaxMs"

definition BRWatchdogShouldHealCorruptChain ::
    "bool \<Rightarrow> int \<Rightarrow> int \<Rightarrow> bool \<Rightarrow> int \<Rightarrow> int \<Rightarrow> int \<Rightarrow> int \<Rightarrow> int \<Rightarrow> int \<Rightarrow> int \<Rightarrow> bool" where
  "BRWatchdogShouldHealCorruptChain blocksCaughtUp peerCount cfFrozenMs reanchored msSinceReanchor healsSoFar
     scanStalledMs abandonmentPendingCycles thresholdMs maxHeals suppressionMaxMs \<longleftrightarrow>
     blocksCaughtUp \<and> peerCount > 0 \<and> reanchored \<and> msSinceReanchor \<ge> BR_WD_REANCHOR_GRACE_MS \<and>
     healsSoFar < maxHeals \<and> cfFrozenMs \<ge> thresholdMs \<and> scanStalledMs \<ge> thresholdMs \<and>
     \<not> BRWatchdogIsConvoySuppressed abandonmentPendingCycles scanStalledMs suppressionMaxMs"

definition BRWatchdogIsTipStallArmed :: "int \<Rightarrow> int \<Rightarrow> bool \<Rightarrow> int \<Rightarrow> bool" where
  "BRWatchdogIsTipStallArmed scanStalledMs blockTipStalledMs convoyWindowFull thresholdMs \<longleftrightarrow>
     scanStalledMs \<ge> thresholdMs \<and> (\<not> convoyWindowFull \<or> blockTipStalledMs \<ge> thresholdMs)"

definition BRWatchdogShouldRerequestHeaders :: "int \<Rightarrow> int \<Rightarrow> int \<Rightarrow> bool \<Rightarrow> int \<Rightarrow> bool" where
  "BRWatchdogShouldRerequestHeaders peerCount scanStalledMs blockTipStalledMs convoyWindowFull thresholdMs \<longleftrightarrow>
     peerCount > 0 \<and> BRWatchdogIsTipStallArmed scanStalledMs blockTipStalledMs convoyWindowFull thresholdMs"

definition BRWatchdogShouldForceReconnect :: "int \<Rightarrow> int \<Rightarrow> int \<Rightarrow> bool \<Rightarrow> bool \<Rightarrow> int \<Rightarrow> int \<Rightarrow> int \<Rightarrow> bool" where
  "BRWatchdogShouldForceReconnect peerCount scanStalledMs blockTipStalledMs convoyWindowFull tier1Fired
     abandonmentPendingCycles thresholdMs suppressionMaxMs \<longleftrightarrow>
     peerCount > 0 \<and> tier1Fired \<and>
     \<not> BRWatchdogIsConvoySuppressed abandonmentPendingCycles scanStalledMs suppressionMaxMs \<and>
     BRWatchdogIsTipStallArmed scanStalledMs blockTipStalledMs convoyWindowFull (brWdTwice thresholdMs)"

definition BRWatchdogShouldFastRecover :: "int \<Rightarrow> int \<Rightarrow> int \<Rightarrow> bool \<Rightarrow> int \<Rightarrow> bool" where
  "BRWatchdogShouldFastRecover peerCount scanStalledMs blockTipStalledMs convoyWindowFull thresholdMs \<longleftrightarrow>
     peerCount > 0 \<and> BRWatchdogIsTipStallArmed scanStalledMs blockTipStalledMs convoyWindowFull thresholdMs"

section \<open>The tip-stall watchdog\<close>

record frontier_progress =
  fp_frontier :: int
  fp_lastChangeMs :: int
  fp_changed :: bool

definition BRWatchdogStepScanFrontier :: "int \<Rightarrow> int \<Rightarrow> int \<Rightarrow> int \<Rightarrow> frontier_progress" where
  "BRWatchdogStepScanFrontier prevFrontier prevChangeMs frontierNow nowMs =
     (let p = \<lparr>fp_frontier = prevFrontier, fp_lastChangeMs = prevChangeMs, fp_changed = False\<rparr>;
          moved = \<lparr>fp_frontier = frontierNow, fp_lastChangeMs = nowMs, fp_changed = True\<rparr>
      in if frontierNow = prevFrontier then p
         else if frontierNow > prevFrontier then moved
         else if BRWatchdogIsScanFrontierArmed frontierNow then moved else p)"

record tip_stall_state =
  ts_lastScan :: int
  ts_lastScanChangeMs :: int
  ts_lastTip :: int
  ts_lastTipAdvanceMs :: int
  ts_scanArmed :: bool
  ts_tier1Fired :: bool
  ts_progressed :: bool

definition BRTipStallInit :: "int \<Rightarrow> int \<Rightarrow> int \<Rightarrow> tip_stall_state" where
  "BRTipStallInit tip scan nowMs =
     \<lparr>ts_lastScan = scan, ts_lastScanChangeMs = nowMs, ts_lastTip = tip, ts_lastTipAdvanceMs = nowMs,
      ts_scanArmed = BRWatchdogIsScanFrontierArmed scan, ts_tier1Fired = False, ts_progressed = False\<rparr>"

definition BRTipStallStep :: "tip_stall_state \<Rightarrow> int \<Rightarrow> int \<Rightarrow> int \<Rightarrow> tip_stall_state" where
  "BRTipStallStep s tipNow scanNow nowMs =
     (let scanArmedNow = BRWatchdogIsScanFrontierArmed scanNow; tipAdvanced = tipNow > ts_lastTip s;
          p = BRWatchdogStepScanFrontier (ts_lastScan s) (ts_lastScanChangeMs s) scanNow nowMs;
          progressedNow = (if scanArmedNow then fp_changed p else tipAdvanced)
      in \<lparr>ts_lastScan = fp_frontier p, ts_lastScanChangeMs = fp_lastChangeMs p,
          ts_lastTip = (if tipAdvanced then tipNow else ts_lastTip s),
          ts_lastTipAdvanceMs = (if tipAdvanced then nowMs else ts_lastTipAdvanceMs s),
          ts_scanArmed = scanArmedNow,
          ts_tier1Fired = (if progressedNow then False else ts_tier1Fired s),
          ts_progressed = progressedNow\<rparr>)"

definition BRTipStallScanStalledMs :: "tip_stall_state \<Rightarrow> int \<Rightarrow> int" where
  "BRTipStallScanStalledMs s nowMs =
     (if ts_scanArmed s then brWdSub nowMs (ts_lastScanChangeMs s) else brWdSub nowMs (ts_lastTipAdvanceMs s))"

definition BRTipStallBlockTipStalledMs :: "tip_stall_state \<Rightarrow> int \<Rightarrow> int" where
  "BRTipStallBlockTipStalledMs s nowMs = brWdSub nowMs (ts_lastTipAdvanceMs s)"

datatype tip_stall_action = TipStallNone | TipStallRecreateManager | TipStallRerequestHeaders | TipStallFastRecover

text \<open>The state with its latch, and the two throttle stamps (of tier 2 and of the fast tier).\<close>

definition BRTipStallDecide ::
    "tip_stall_state \<Rightarrow> int \<Rightarrow> int \<Rightarrow> bool \<Rightarrow> int \<Rightarrow> int \<Rightarrow> int \<Rightarrow> int \<Rightarrow> tip_stall_action \<times> tip_stall_state \<times> int \<times> int" where
  "BRTipStallDecide state peerCount abandonmentPendingCycles convoyWindowFull suppressionMaxMs nowMs lastTier2Ms lastFastMs =
     (let scanStalled = BRTipStallScanStalledMs state nowMs; tipStalled = BRTipStallBlockTipStalledMs state nowMs in
      if BRWatchdogShouldForceReconnect peerCount scanStalled tipStalled convoyWindowFull (ts_tier1Fired state)
           abandonmentPendingCycles BR_WD_TIP_STALL_TIMEOUT_MS suppressionMaxMs \<and>
         brWdSub nowMs lastTier2Ms \<ge> BR_WD_TIP_STALL_TIER2_THROTTLE_MS
      then (TipStallRecreateManager, state\<lparr>ts_tier1Fired := False\<rparr>, nowMs, lastFastMs)
      else if BRWatchdogShouldRerequestHeaders peerCount scanStalled tipStalled convoyWindowFull BR_WD_TIP_STALL_TIMEOUT_MS \<and>
              \<not> ts_tier1Fired state
      then (TipStallRerequestHeaders, state\<lparr>ts_tier1Fired := True\<rparr>, lastTier2Ms, lastFastMs)
      else if BRWatchdogShouldFastRecover peerCount scanStalled tipStalled convoyWindowFull BR_WD_TIP_STALL_FAST_MS \<and>
              brWdSub nowMs lastFastMs \<ge> BR_WD_TIP_STALL_FAST_MS
      then (TipStallFastRecover, state, lastTier2Ms, nowMs)
      else (TipStallNone, state, lastTier2Ms, lastFastMs))"

section \<open>The BIP158 watchdog\<close>

record bip158_state =
  bw_startedAtMs :: int
  bw_cfTipAtStart :: int
  bw_lastCfTip :: int
  bw_cfNetMax :: int
  bw_cfNetProgressMs :: int
  bw_lastBlockTip :: int
  bw_lastBlockProgressMs :: int
  bw_scanNetMax :: int
  bw_scanProgressMs :: int
  bw_reanchoredThisSession :: bool
  bw_reanchorAtMs :: int
  bw_cfFrozenRecovered :: bool
  bw_corruptHeals :: int
  bw_lastCorruptHealMs :: int
  bw_corruptHealRotation :: int

datatype bip158_action = Bip158Wait | Bip158Healthy | Bip158RecoverFrozenCf | Bip158HealCorruptChain | Bip158Reanchor

definition BRBip158WatchdogInit :: "int \<Rightarrow> int \<Rightarrow> int \<Rightarrow> int \<Rightarrow> bip158_state" where
  "BRBip158WatchdogInit cfTip blockTip scanFrontier nowMs =
     \<lparr>bw_startedAtMs = nowMs, bw_cfTipAtStart = cfTip, bw_lastCfTip = cfTip, bw_cfNetMax = cfTip,
      bw_cfNetProgressMs = nowMs, bw_lastBlockTip = blockTip, bw_lastBlockProgressMs = nowMs,
      bw_scanNetMax = scanFrontier, bw_scanProgressMs = nowMs, bw_reanchoredThisSession = False, bw_reanchorAtMs = 0,
      bw_cfFrozenRecovered = False, bw_corruptHeals = 0, bw_lastCorruptHealMs = 0, bw_corruptHealRotation = 0\<rparr>"

text \<open>One poll's readings.\<close>

record bip158_reading =
  br_cfTipNow :: int
  br_blockTip :: int
  br_estimatedHeight :: int
  br_scanNow :: int
  br_peerCount :: int
  br_abandonmentPendingCycles :: int
  br_hasReachedSynced :: bool
  br_nowMs :: int

text \<open>The updates of the state before the decision.\<close>

definition bip158_observe :: "bip158_state \<Rightarrow> bip158_reading \<Rightarrow> bip158_state" where
  "bip158_observe s r =
     (let s = s\<lparr>bw_lastCfTip := br_cfTipNow r\<rparr>;
          s = (if br_blockTip r > bw_lastBlockTip s then s\<lparr>bw_lastBlockProgressMs := br_nowMs r\<rparr> else s);
          s = s\<lparr>bw_lastBlockTip := br_blockTip r\<rparr>;
          s = (if br_cfTipNow r > bw_cfNetMax s then s\<lparr>bw_cfNetMax := br_cfTipNow r, bw_cfNetProgressMs := br_nowMs r\<rparr> else s);
          p = BRWatchdogStepScanFrontier (bw_scanNetMax s) (bw_scanProgressMs s) (br_scanNow r) (br_nowMs r)
      in s\<lparr>bw_scanNetMax := fp_frontier p, bw_scanProgressMs := fp_lastChangeMs p\<rparr>)"

text \<open>The action, the state, and the index of the peer to pin, where one is written.\<close>

definition BRBip158WatchdogStep ::
    "int \<Rightarrow> bip158_state \<Rightarrow> bip158_reading \<Rightarrow> bip158_action \<times> bip158_state \<times> int option" where
  "BRBip158WatchdogStep suppressionMaxMs s r =
     (let now = br_nowMs r;
          gap = brWdSub (br_blockTip r) (br_cfTipNow r); elapsed = brWdSub now (bw_startedAtMs s);
          cfAdvancedSinceStart = br_cfTipNow r > bw_cfTipAtStart s;
          blocksCaughtUp = br_estimatedHeight r > 0 \<and> br_blockTip r \<ge> br_estimatedHeight r - BR_WD_BLOCK_CATCHUP_GRACE
      in if BRWatchdogIsFilterSyncHealthy gap cfAdvancedSinceStart blocksCaughtUp then (Bip158Healthy, s, None)
      else
        let advanced = br_cfTipNow r > bw_lastCfTip s; blockClimbing = br_blockTip r > bw_lastBlockTip s;
            s = bip158_observe s r; scanStalled = brWdSub now (bw_scanProgressMs s)
        in if BRWatchdogShouldRecoverFrozenCf blockClimbing (brWdSub now (bw_cfNetProgressMs s)) (bw_cfNetMax s)
                (bw_cfFrozenRecovered s) scanStalled (br_abandonmentPendingCycles r) BR_WD_CF_FROZEN_RECOVERY_MS suppressionMaxMs
           then (Bip158RecoverFrozenCf,
                 (if dropScanLedger (BRCFRecoveryDecide FilterChainWedged) then s\<lparr>bw_scanNetMax := 0\<rparr> else s)
                   \<lparr>bw_cfFrozenRecovered := True, bw_scanProgressMs := now\<rparr>, None)
           else if advanced then (Bip158Wait, s, None)
           else if \<not> blocksCaughtUp then (Bip158Wait, s, None)
           else if BRWatchdogShouldHealCorruptChain blocksCaughtUp (br_peerCount r) (brWdSub now (bw_cfNetProgressMs s))
                     (bw_reanchoredThisSession s) (brWdSub now (bw_reanchorAtMs s)) (bw_corruptHeals s) scanStalled
                     (br_abandonmentPendingCycles r) BR_WD_CF_CORRUPT_HEAL_MS BR_WD_MAX_CF_CORRUPT_HEALS suppressionMaxMs \<and>
                   brWdSub now (bw_lastCorruptHealMs s) \<ge> BR_WD_CF_CORRUPT_HEAL_COOLDOWN_MS
           then (Bip158HealCorruptChain,
                 s\<lparr>bw_corruptHeals := bw_corruptHeals s + 1, bw_lastCorruptHealMs := now,
                   bw_corruptHealRotation := bw_corruptHealRotation s + 1, bw_cfNetMax := 0, bw_cfNetProgressMs := now,
                   bw_lastCfTip := 0, bw_scanNetMax := 0, bw_scanProgressMs := now\<rparr>,
                 Some (bw_corruptHealRotation s))
           else if elapsed \<ge> BR_WD_BIP158_FALLBACK_TIMEOUT_MS \<and>
                   BRWatchdogDecidePostTimeout (br_hasReachedSynced r) (bw_reanchoredThisSession s)
                     (brWdSub now (bw_reanchorAtMs s)) scanStalled (br_abandonmentPendingCycles r)
                     BR_WD_CF_FROZEN_RECOVERY_MS suppressionMaxMs = WdReanchor
           then (Bip158Reanchor, s, None)
           else (Bip158Wait, s, None))"

definition BRBip158WatchdogReanchored :: "bip158_state \<Rightarrow> bool \<Rightarrow> int \<Rightarrow> bip158_state" where
  "BRBip158WatchdogReanchored s issued nowMs =
     (if \<not> issued then s
      else (if dropScanLedger (BRCFRecoveryDecide Reanchored) then s\<lparr>bw_scanNetMax := 0\<rparr> else s)
        \<lparr>bw_reanchoredThisSession := True, bw_reanchorAtMs := nowMs, bw_scanProgressMs := nowMs\<rparr>)"

section \<open>The zero-peer escalation\<close>

datatype zero_peer_action = ZeroPeerNone | ZeroPeerReconnect | ZeroPeerRecreateThenReconnect | ZeroPeerDeferForTor | ZeroPeerKickSync

text \<open>The sync progress is a rational; a progress that is not a number, which compares false, is not modelled.\<close>

definition BRZeroPeerStep :: "int \<Rightarrow> int \<Rightarrow> bool \<Rightarrow> bool \<Rightarrow> rat \<Rightarrow> zero_peer_action \<times> int" where
  "BRZeroPeerStep zeroPeerStreak peerCount torComingUp hasReachedSynced syncProgress =
     (if peerCount > 0 then (if \<not> hasReachedSynced \<and> syncProgress < 1 then ZeroPeerKickSync else ZeroPeerNone, 0)
      else if torComingUp then (ZeroPeerDeferForTor, zeroPeerStreak)
      else if zeroPeerStreak + 1 \<ge> BR_WD_ZERO_PEER_RECREATE_THRESHOLD then (ZeroPeerRecreateThenReconnect, 0)
      else (ZeroPeerReconnect, zeroPeerStreak + 1))"

section \<open>Running the loops\<close>

lemma brWdSub_small: "0 \<le> a \<Longrightarrow> a < 2 ^ 62 \<Longrightarrow> 0 \<le> b \<Longrightarrow> b < 2 ^ 62 \<Longrightarrow> brWdSub a b = a - b"
  by (simp add: brWdSub_def wd_wrap_def signed_take_bit_int_eq_self)

record stall_poll =
  sp_tip :: int
  sp_scan :: int
  sp_peers :: int
  sp_pending :: int
  sp_full :: bool
  sp_now :: int

type_synonym stall_run_state = "tip_stall_state \<times> int \<times> int"

text \<open>One poll of the tip-stall watchdog, as the caller makes it: the observation, then the decision.\<close>

definition stall_step :: "int \<Rightarrow> stall_run_state \<Rightarrow> stall_poll \<Rightarrow> tip_stall_action \<times> stall_run_state" where
  "stall_step maxMs st p =
     (case st of (s, t2, fast) \<Rightarrow>
        BRTipStallDecide (BRTipStallStep s (sp_tip p) (sp_scan p) (sp_now p)) (sp_peers p) (sp_pending p) (sp_full p)
          maxMs (sp_now p) t2 fast)"

fun stall_actions :: "int \<Rightarrow> stall_run_state \<Rightarrow> stall_poll list \<Rightarrow> tip_stall_action list" where
  "stall_actions maxMs st [] = []"
| "stall_actions maxMs st (p # ps) = (case stall_step maxMs st p of (a, st') \<Rightarrow> a # stall_actions maxMs st' ps)"

fun stall_state :: "int \<Rightarrow> stall_run_state \<Rightarrow> stall_poll list \<Rightarrow> stall_run_state" where
  "stall_state maxMs st [] = st"
| "stall_state maxMs st (p # ps) = stall_state maxMs (snd (stall_step maxMs st p)) ps"

lemma stall_actions_append:
  "stall_actions maxMs st (ps @ qs) = stall_actions maxMs st ps @ stall_actions maxMs (stall_state maxMs st ps) qs"
  by (induction ps arbitrary: st) (simp_all add: split_beta)

text \<open>A poll that sees the scan frontier and the block tip where they were, with a peer connected.\<close>

definition frozen_poll :: "tip_stall_state \<Rightarrow> stall_poll \<Rightarrow> bool" where
  "frozen_poll s p \<longleftrightarrow>
     sp_scan p = ts_lastScan s \<and> BRWatchdogIsScanFrontierArmed (sp_scan p) \<and> sp_tip p \<le> ts_lastTip s \<and> sp_peers p > 0 \<and>
     0 \<le> sp_now p \<and> sp_now p < 2 ^ 62"

definition same_clock :: "tip_stall_state \<Rightarrow> tip_stall_state \<Rightarrow> bool" where
  "same_clock s s' \<longleftrightarrow> ts_lastScan s' = ts_lastScan s \<and> ts_lastScanChangeMs s' = ts_lastScanChangeMs s \<and>
     ts_lastTip s' = ts_lastTip s \<and> ts_lastTipAdvanceMs s' = ts_lastTipAdvanceMs s"

lemma frozen_observe:
  assumes "frozen_poll s p"
  shows "same_clock s (BRTipStallStep s (sp_tip p) (sp_scan p) (sp_now p))"
    and "ts_scanArmed (BRTipStallStep s (sp_tip p) (sp_scan p) (sp_now p))"
    and "ts_tier1Fired (BRTipStallStep s (sp_tip p) (sp_scan p) (sp_now p)) = ts_tier1Fired s"
  using assms by (auto simp: frozen_poll_def same_clock_def BRTipStallStep_def BRWatchdogStepScanFrontier_def Let_def)

lemma frozen_step:
  assumes "frozen_poll s p" "stall_step maxMs (s, t2, fast) p = (a, s', t2', fast')"
  shows "same_clock s s'" and "a \<noteq> TipStallRecreateManager \<Longrightarrow> t2' = t2"
    and "a \<noteq> TipStallRecreateManager \<Longrightarrow> ts_tier1Fired s' \<longleftrightarrow> ts_tier1Fired s \<or> a = TipStallRerequestHeaders"
    and "a = TipStallRecreateManager \<Longrightarrow> ts_tier1Fired s"
  using assms(2) frozen_observe[OF assms(1)]
  by (auto simp: stall_step_def BRTipStallDecide_def Let_def same_clock_def BRWatchdogShouldForceReconnect_def split: if_splits)

lemma same_clock_frozen: "same_clock s s' \<Longrightarrow> frozen_poll s' p = frozen_poll s p"
  by (simp add: same_clock_def frozen_poll_def)

lemma same_clock_trans: "same_clock s s' \<Longrightarrow> same_clock s' s'' \<Longrightarrow> same_clock s s''"
  by (simp add: same_clock_def)

lemma frozen_run:
  "(\<And>p. p \<in> set ps \<Longrightarrow> frozen_poll s p) \<Longrightarrow> stall_state maxMs (s, t2, fast) ps = (s', t2', fast') \<Longrightarrow>
     TipStallRecreateManager \<notin> set (stall_actions maxMs (s, t2, fast) ps) \<Longrightarrow>
     same_clock s s' \<and> t2' = t2 \<and>
     (ts_tier1Fired s' \<longleftrightarrow> ts_tier1Fired s \<or> TipStallRerequestHeaders \<in> set (stall_actions maxMs (s, t2, fast) ps))"
proof (induction ps arbitrary: s t2 fast)
  case (Cons p ps)
  obtain a s1 u1 f1 where st: "stall_step maxMs (s, t2, fast) p = (a, s1, u1, f1)" by (metis prod.exhaust)
  have p: "frozen_poll s p" using Cons.prems(1) by simp
  note step = frozen_step[OF p st]
  have "frozen_poll s1 q" if "q \<in> set ps" for q using Cons.prems(1) that same_clock_frozen[OF step(1)] by simp
  then have "same_clock s1 s' \<and> t2' = u1 \<and>
      (ts_tier1Fired s' \<longleftrightarrow> ts_tier1Fired s1 \<or> TipStallRerequestHeaders \<in> set (stall_actions maxMs (s1, u1, f1) ps))"
    using Cons.prems(2,3) st by (intro Cons.IH) simp_all
  then show ?case using step Cons.prems(3) st same_clock_trans[OF step(1)] by auto
qed (simp add: same_clock_def)

lemma recreate_needs_tier1:
  "(\<And>p. p \<in> set ps \<Longrightarrow> frozen_poll s p) \<Longrightarrow> TipStallRecreateManager \<in> set (stall_actions maxMs (s, t2, fast) ps) \<Longrightarrow>
     ts_tier1Fired s \<or> TipStallRerequestHeaders \<in> set (stall_actions maxMs (s, t2, fast) ps)"
proof (induction ps arbitrary: s t2 fast)
  case (Cons p ps)
  obtain a s1 u1 f1 where st: "stall_step maxMs (s, t2, fast) p = (a, s1, u1, f1)" by (metis prod.exhaust)
  have p: "frozen_poll s p" using Cons.prems(1) by simp
  note step = frozen_step[OF p st]
  show ?case
  proof (cases "a = TipStallRecreateManager")
    case False
    have "frozen_poll s1 q" if "q \<in> set ps" for q using Cons.prems(1) that same_clock_frozen[OF step(1)] by simp
    then have "ts_tier1Fired s1 \<or> TipStallRerequestHeaders \<in> set (stall_actions maxMs (s1, u1, f1) ps)"
      using Cons.prems(2) st False by (intro Cons.IH) simp_all
    then show ?thesis using step(3)[OF False] st by auto
  qed (use step(4) in simp)
qed simp

lemma frozen_stalled:
  assumes "frozen_poll s p" "0 \<le> ts_lastScanChangeMs s" "ts_lastScanChangeMs s < 2 ^ 62" "0 \<le> ts_lastTipAdvanceMs s"
    "ts_lastTipAdvanceMs s \<le> ts_lastScanChangeMs s"
  shows "BRTipStallScanStalledMs (BRTipStallStep s (sp_tip p) (sp_scan p) (sp_now p)) (sp_now p) = sp_now p - ts_lastScanChangeMs s"
    and "BRTipStallBlockTipStalledMs (BRTipStallStep s (sp_tip p) (sp_scan p) (sp_now p)) (sp_now p) \<ge> sp_now p - ts_lastScanChangeMs s"
  using frozen_observe[OF assms(1)] assms
  by (simp_all add: BRTipStallScanStalledMs_def BRTipStallBlockTipStalledMs_def same_clock_def brWdSub_small frozen_poll_def)

text \<open>At a poll twenty minutes into the stall the first tier has fired; at one forty minutes in, past the
  suppression, the manager is recreated.\<close>

lemma tier1_fires:
  assumes "frozen_poll s p" "0 \<le> ts_lastScanChangeMs s" "ts_lastScanChangeMs s < 2 ^ 62" "0 \<le> ts_lastTipAdvanceMs s"
    "ts_lastTipAdvanceMs s \<le> ts_lastScanChangeMs s" "sp_now p \<ge> ts_lastScanChangeMs s + BR_WD_TIP_STALL_TIMEOUT_MS"
    "stall_step maxMs (s, t2, fast) p = (a, s', t2', fast')" "a \<noteq> TipStallRecreateManager"
  shows "ts_tier1Fired s'"
proof -
  have armed: "BRWatchdogShouldRerequestHeaders (sp_peers p)
      (BRTipStallScanStalledMs (BRTipStallStep s (sp_tip p) (sp_scan p) (sp_now p)) (sp_now p))
      (BRTipStallBlockTipStalledMs (BRTipStallStep s (sp_tip p) (sp_scan p) (sp_now p)) (sp_now p)) (sp_full p) BR_WD_TIP_STALL_TIMEOUT_MS"
    using frozen_stalled[OF assms(1-5)] assms(1,6)
    by (auto simp: BRWatchdogShouldRerequestHeaders_def BRWatchdogIsTipStallArmed_def frozen_poll_def)
  then show ?thesis using assms(7,8) by (auto simp: stall_step_def BRTipStallDecide_def Let_def split: if_splits)
qed

lemma tier2_fires:
  assumes "frozen_poll s p" "0 \<le> ts_lastScanChangeMs s" "ts_lastScanChangeMs s < 2 ^ 62" "0 \<le> ts_lastTipAdvanceMs s"
    "ts_lastTipAdvanceMs s \<le> ts_lastScanChangeMs s" "sp_now p \<ge> ts_lastScanChangeMs s + 2 * BR_WD_TIP_STALL_TIMEOUT_MS"
    "sp_pending p \<le> 0 \<or> sp_now p \<ge> ts_lastScanChangeMs s + maxMs"
    "0 \<le> t2" "sp_now p \<ge> t2 + BR_WD_TIP_STALL_TIER2_THROTTLE_MS" "ts_tier1Fired s"
  shows "fst (stall_step maxMs (s, t2, fast) p) = TipStallRecreateManager"
proof -
  note st = frozen_stalled[OF assms(1-5)]
  have "brWdTwice BR_WD_TIP_STALL_TIMEOUT_MS = 2 * BR_WD_TIP_STALL_TIMEOUT_MS"
    by (simp add: brWdTwice_def wd_wrap_def BR_WD_TIP_STALL_TIMEOUT_MS_def signed_take_bit_int_eq_self)
  moreover have "brWdSub (sp_now p) t2 = sp_now p - t2"
    using assms(1,8,9) by (intro brWdSub_small) (simp_all add: frozen_poll_def BR_WD_TIP_STALL_TIER2_THROTTLE_MS_def)
  ultimately show ?thesis using st assms(1,6,7,9,10) frozen_observe(3)[OF assms(1)]
    by (auto simp: stall_step_def BRTipStallDecide_def Let_def BRWatchdogShouldForceReconnect_def
        BRWatchdogIsConvoySuppressed_def BRWatchdogIsTipStallArmed_def frozen_poll_def)
qed

section \<open>A session of the BIP158 watchdog\<close>

datatype wd_event = WdPoll bip158_reading | WdReanchorResult bool int

fun wd_step :: "int \<Rightarrow> bip158_state \<Rightarrow> wd_event \<Rightarrow> (bip158_action \<times> int option) option \<times> bip158_state" where
  "wd_step maxMs s (WdPoll r) = (case BRBip158WatchdogStep maxMs s r of (a, s', rot) \<Rightarrow> (Some (a, rot), s'))"
| "wd_step maxMs s (WdReanchorResult issued now) = (None, BRBip158WatchdogReanchored s issued now)"

fun wd_actions :: "int \<Rightarrow> bip158_state \<Rightarrow> wd_event list \<Rightarrow> (bip158_action \<times> int option) list" where
  "wd_actions maxMs s [] = []"
| "wd_actions maxMs s (e # es) =
     (case wd_step maxMs s e of (None, s') \<Rightarrow> wd_actions maxMs s' es | (Some a, s') \<Rightarrow> a # wd_actions maxMs s' es)"

lemma observe_frame:
  "bw_corruptHeals (bip158_observe s r) = bw_corruptHeals s" "bw_corruptHealRotation (bip158_observe s r) = bw_corruptHealRotation s"
  "bw_cfFrozenRecovered (bip158_observe s r) = bw_cfFrozenRecovered s"
  "bw_reanchoredThisSession (bip158_observe s r) = bw_reanchoredThisSession s"
  by (simp_all add: bip158_observe_def Let_def)

lemma bip158_step_cases:
  assumes "BRBip158WatchdogStep maxMs s r = (a, s', rot)"
  shows "a = Bip158HealCorruptChain \<Longrightarrow> bw_corruptHeals s < 3 \<and> rot = Some (bw_corruptHealRotation s) \<and>
      bw_corruptHeals s' = bw_corruptHeals s + 1 \<and> bw_corruptHealRotation s' = bw_corruptHealRotation s + 1 \<and>
      bw_reanchoredThisSession s"
    and "a \<noteq> Bip158HealCorruptChain \<Longrightarrow> bw_corruptHeals s' = bw_corruptHeals s \<and> bw_corruptHealRotation s' = bw_corruptHealRotation s"
    and "a = Bip158RecoverFrozenCf \<Longrightarrow> \<not> bw_cfFrozenRecovered s \<and> bw_cfFrozenRecovered s'"
    and "a \<noteq> Bip158RecoverFrozenCf \<Longrightarrow> bw_cfFrozenRecovered s' = bw_cfFrozenRecovered s"
    and "a \<in> {Bip158RecoverFrozenCf, Bip158HealCorruptChain, Bip158Reanchor} \<Longrightarrow>
      \<not> BRWatchdogIsConvoySuppressed (br_abandonmentPendingCycles r)
          (brWdSub (br_nowMs r) (bw_scanProgressMs (bip158_observe s r))) maxMs"
    and "a = Bip158Reanchor \<Longrightarrow> \<not> bw_reanchoredThisSession s \<and> br_hasReachedSynced r"
    and "bw_reanchoredThisSession s' = bw_reanchoredThisSession s"
proof -
  define suppressed where "suppressed = BRWatchdogIsConvoySuppressed (br_abandonmentPendingCycles r)
    (brWdSub (br_nowMs r) (bw_scanProgressMs (bip158_observe s r))) maxMs"
  obtain c0 c1 c2 c3 c4 c5 t where st: "(a, s', rot) =
      (if c0 then (Bip158Healthy, s, None)
       else if c1 \<and> \<not> bw_cfFrozenRecovered s \<and> \<not> suppressed
       then (Bip158RecoverFrozenCf, bip158_observe s r\<lparr>bw_cfFrozenRecovered := True, bw_scanProgressMs := br_nowMs r\<rparr>, None)
       else if c2 then (Bip158Wait, bip158_observe s r, None) else if c3 then (Bip158Wait, bip158_observe s r, None)
       else if c4 \<and> bw_corruptHeals s < 3 \<and> bw_reanchoredThisSession s \<and> \<not> suppressed
       then (Bip158HealCorruptChain, (bip158_observe s r)
         \<lparr>bw_corruptHeals := bw_corruptHeals s + 1, bw_lastCorruptHealMs := br_nowMs r,
          bw_corruptHealRotation := bw_corruptHealRotation s + 1, bw_cfNetMax := 0, bw_cfNetProgressMs := br_nowMs r,
          bw_lastCfTip := 0, bw_scanNetMax := 0, bw_scanProgressMs := br_nowMs r\<rparr>, Some (bw_corruptHealRotation s))
       else if c5 \<and> br_hasReachedSynced r \<and> \<not> bw_reanchoredThisSession s \<and> \<not> suppressed then (Bip158Reanchor, bip158_observe s r, None)
       else (Bip158Wait, bip158_observe s r, None))"
  proof (rule that)
    show "(a, s', rot) =
      (if BRWatchdogIsFilterSyncHealthy (brWdSub (br_blockTip r) (br_cfTipNow r)) (br_cfTipNow r > bw_cfTipAtStart s)
           (br_estimatedHeight r > 0 \<and> br_blockTip r \<ge> br_estimatedHeight r - BR_WD_BLOCK_CATCHUP_GRACE) then (Bip158Healthy, s, None)
       else if (br_blockTip r > bw_lastBlockTip s \<and> bw_cfNetMax (bip158_observe s r) > 0 \<and>
            brWdSub (br_nowMs r) (bw_cfNetProgressMs (bip158_observe s r)) \<ge> BR_WD_CF_FROZEN_RECOVERY_MS \<and>
            brWdSub (br_nowMs r) (bw_scanProgressMs (bip158_observe s r)) \<ge> BR_WD_CF_FROZEN_RECOVERY_MS) \<and>
          \<not> bw_cfFrozenRecovered s \<and> \<not> suppressed
       then (Bip158RecoverFrozenCf, bip158_observe s r\<lparr>bw_cfFrozenRecovered := True, bw_scanProgressMs := br_nowMs r\<rparr>, None)
       else if br_cfTipNow r > bw_lastCfTip s then (Bip158Wait, bip158_observe s r, None)
       else if \<not> (br_estimatedHeight r > 0 \<and> br_blockTip r \<ge> br_estimatedHeight r - BR_WD_BLOCK_CATCHUP_GRACE)
       then (Bip158Wait, bip158_observe s r, None)
       else if (br_peerCount r > 0 \<and> brWdSub (br_nowMs r) (bw_reanchorAtMs (bip158_observe s r)) \<ge> BR_WD_REANCHOR_GRACE_MS \<and>
            brWdSub (br_nowMs r) (bw_cfNetProgressMs (bip158_observe s r)) \<ge> BR_WD_CF_CORRUPT_HEAL_MS \<and>
            brWdSub (br_nowMs r) (bw_scanProgressMs (bip158_observe s r)) \<ge> BR_WD_CF_CORRUPT_HEAL_MS \<and>
            brWdSub (br_nowMs r) (bw_lastCorruptHealMs (bip158_observe s r)) \<ge> BR_WD_CF_CORRUPT_HEAL_COOLDOWN_MS) \<and>
          bw_corruptHeals s < 3 \<and> bw_reanchoredThisSession s \<and> \<not> suppressed
       then (Bip158HealCorruptChain, (bip158_observe s r)
         \<lparr>bw_corruptHeals := bw_corruptHeals s + 1, bw_lastCorruptHealMs := br_nowMs r,
          bw_corruptHealRotation := bw_corruptHealRotation s + 1, bw_cfNetMax := 0, bw_cfNetProgressMs := br_nowMs r,
          bw_lastCfTip := 0, bw_scanNetMax := 0, bw_scanProgressMs := br_nowMs r\<rparr>, Some (bw_corruptHealRotation s))
       else if (brWdSub (br_nowMs r) (bw_startedAtMs s) \<ge> BR_WD_BIP158_FALLBACK_TIMEOUT_MS \<and>
            brWdSub (br_nowMs r) (bw_scanProgressMs (bip158_observe s r)) \<ge> BR_WD_CF_FROZEN_RECOVERY_MS) \<and>
          br_hasReachedSynced r \<and> \<not> bw_reanchoredThisSession s \<and> \<not> suppressed then (Bip158Reanchor, bip158_observe s r, None)
       else (Bip158Wait, bip158_observe s r, None))"
      unfolding assms[symmetric] BRBip158WatchdogStep_def Let_def suppressed_def
        BRWatchdogShouldRecoverFrozenCf_def BRWatchdogShouldHealCorruptChain_def BRWatchdogDecidePostTimeout_def
        BR_WD_MAX_CF_CORRUPT_HEALS_def observe_frame BRCFRecoveryDecide.simps cf_recovery_decision.simps
      by (intro if_cong refl) (auto split: if_splits)
  qed
  note f = observe_frame[of s r]
  show "a = Bip158HealCorruptChain \<Longrightarrow> bw_corruptHeals s < 3 \<and> rot = Some (bw_corruptHealRotation s) \<and>
      bw_corruptHeals s' = bw_corruptHeals s + 1 \<and> bw_corruptHealRotation s' = bw_corruptHealRotation s + 1 \<and>
      bw_reanchoredThisSession s"
    "a \<noteq> Bip158HealCorruptChain \<Longrightarrow> bw_corruptHeals s' = bw_corruptHeals s \<and> bw_corruptHealRotation s' = bw_corruptHealRotation s"
    "a = Bip158RecoverFrozenCf \<Longrightarrow> \<not> bw_cfFrozenRecovered s \<and> bw_cfFrozenRecovered s'"
    "a \<noteq> Bip158RecoverFrozenCf \<Longrightarrow> bw_cfFrozenRecovered s' = bw_cfFrozenRecovered s"
    "a \<in> {Bip158RecoverFrozenCf, Bip158HealCorruptChain, Bip158Reanchor} \<Longrightarrow>
      \<not> BRWatchdogIsConvoySuppressed (br_abandonmentPendingCycles r)
          (brWdSub (br_nowMs r) (bw_scanProgressMs (bip158_observe s r))) maxMs"
    "a = Bip158Reanchor \<Longrightarrow> \<not> bw_reanchoredThisSession s \<and> br_hasReachedSynced r"
    "bw_reanchoredThisSession s' = bw_reanchoredThisSession s"
    unfolding suppressed_def[symmetric] using st f by (simp_all split: if_splits)
qed

lemma reanchored_frame:
  "bw_corruptHeals (BRBip158WatchdogReanchored s i n) = bw_corruptHeals s"
  "bw_corruptHealRotation (BRBip158WatchdogReanchored s i n) = bw_corruptHealRotation s"
  "bw_cfFrozenRecovered (BRBip158WatchdogReanchored s i n) = bw_cfFrozenRecovered s"
  by (simp_all add: BRBip158WatchdogReanchored_def)

definition heals :: "(bip158_action \<times> int option) list \<Rightarrow> (bip158_action \<times> int option) list" where
  "heals as = filter (\<lambda>(a, _). a = Bip158HealCorruptChain) as"

lemma wd_session:
  "bw_corruptHeals s \<le> 3 \<Longrightarrow>
     bw_corruptHeals s + int (length (heals (wd_actions maxMs s es))) \<le> 3 \<and>
     map snd (heals (wd_actions maxMs s es)) = map (\<lambda>i. Some (bw_corruptHealRotation s + int i)) [0..<length (heals (wd_actions maxMs s es))] \<and>
     length (filter (\<lambda>(a, _). a = Bip158RecoverFrozenCf) (wd_actions maxMs s es)) \<le> (if bw_cfFrozenRecovered s then 0 else 1)"
proof (induction es arbitrary: s)
  case (Cons e es)
  show ?case
  proof (cases e)
    case (WdReanchorResult i n)
    then show ?thesis using Cons.IH[of "BRBip158WatchdogReanchored s i n"] Cons.prems by (simp add: reanchored_frame)
  next
    case (WdPoll r)
    obtain a s' rot where st: "BRBip158WatchdogStep maxMs s r = (a, s', rot)" by (metis prod.exhaust)
    note c = bip158_step_cases[OF st]
    have "bw_corruptHeals s' \<le> 3" using c(1,2) Cons.prems by (cases "a = Bip158HealCorruptChain") auto
    note IH = Cons.IH[OF this]
    have acts: "wd_actions maxMs s (e # es) = (a, rot) # wd_actions maxMs s' es" using st WdPoll by simp
    show ?thesis
    proof (cases "a = Bip158HealCorruptChain")
      case True
      then have h: "heals (wd_actions maxMs s (e # es)) = (a, rot) # heals (wd_actions maxMs s' es)"
        unfolding acts heals_def by simp
      have "map (\<lambda>i. Some (bw_corruptHealRotation s + int i)) [0..<Suc n] =
          Some (bw_corruptHealRotation s) # map (\<lambda>i. Some (bw_corruptHealRotation s + 1 + int i)) [0..<n]" for n
        unfolding upt_conv_Cons[OF zero_less_Suc] by (simp add: map_Suc_upt[symmetric] add.assoc del: upt_Suc)
      then show ?thesis using IH True c(1)[OF True] c(4) unfolding acts h[unfolded acts] by (simp add: add.assoc del: upt_Suc)
    next
      case False
      then have h: "heals (wd_actions maxMs s (e # es)) = heals (wd_actions maxMs s' es)"
        unfolding acts heals_def by simp
      show ?thesis using IH c(2)[OF False] c(3,4) unfolding acts h[unfolded acts]
        by (cases "a = Bip158RecoverFrozenCf") (auto split: if_splits)
    qed
  qed
qed (simp add: heals_def)

lemma zero_peer_escalates:
  "BRZeroPeerStep 0 0 False synced progress = (ZeroPeerReconnect, 1)"
  "BRZeroPeerStep 1 0 False synced progress = (ZeroPeerReconnect, 2)"
  "BRZeroPeerStep 2 0 False synced progress = (ZeroPeerRecreateThenReconnect, 0)"
  by (simp_all add: BRZeroPeerStep_def BR_WD_ZERO_PEER_RECREATE_THRESHOLD_def)

lemma suppression_of_two_rearms: "BRWatchdogSuppressionMaxMs 2 = 1800000"
  by (simp add: BRWatchdogSuppressionMaxMs_def wd_wrap_def BR_WD_CF_VALVE_RETRY_CYCLE_MS_def signed_take_bit_int_eq_self)

section \<open>The claims\<close>

text \<open>C12. When a stall is escalated: while the scan frontier and the block tip stand still and a peer is connected,
  a poll at least twenty minutes into the stall and a later one at least forty minutes in lead to the recreation of
  the peer manager, and to a request for headers before it unless one had been sent, under two conditions on
  the later poll: the throttle of the code lets it act, that is, the last recreation (\<open>t2\<close>) is at least one
  hour ago, and no hole is pinned or the suppression's time is over.  A stall that reaches forty minutes within
  the hour of a recreation waits for a poll after that hour.\<close>

theorem stalled_scan_is_escalated:
  assumes "\<forall>p\<in>set (ps @ p1 # qs @ [p2]). frozen_poll s p"
    and "0 \<le> ts_lastTipAdvanceMs s" "ts_lastTipAdvanceMs s \<le> ts_lastScanChangeMs s" "ts_lastScanChangeMs s < 2 ^ 62"
    and "sp_now p1 \<ge> ts_lastScanChangeMs s + BR_WD_TIP_STALL_TIMEOUT_MS"
    and "sp_now p2 \<ge> ts_lastScanChangeMs s + 2 * BR_WD_TIP_STALL_TIMEOUT_MS"
    and "sp_pending p2 \<le> 0 \<or> sp_now p2 \<ge> ts_lastScanChangeMs s + maxMs"
    and "0 \<le> t2" "sp_now p2 \<ge> t2 + BR_WD_TIP_STALL_TIER2_THROTTLE_MS"
  shows "TipStallRecreateManager \<in> set (stall_actions maxMs (s, t2, fast) (ps @ p1 # qs @ [p2])) \<and>
    (ts_tier1Fired s \<or> TipStallRerequestHeaders \<in> set (stall_actions maxMs (s, t2, fast) (ps @ p1 # qs @ [p2])))"
proof -
  let ?acts = "stall_actions maxMs (s, t2, fast)"
  have rec: "TipStallRecreateManager \<in> set (?acts (ps @ p1 # qs @ [p2]))"
  proof (rule ccontr)
    assume no: "TipStallRecreateManager \<notin> set (?acts (ps @ p1 # qs @ [p2]))"
    let ?all = "ps @ p1 # qs"
    have split: "?acts (ps @ p1 # qs @ [p2]) = ?acts ?all @ stall_actions maxMs (stall_state maxMs (s, t2, fast) ?all) [p2]"
      using stall_actions_append[of maxMs "(s, t2, fast)" ?all "[p2]"] by simp
    obtain s0 t0 f0 where r0: "stall_state maxMs (s, t2, fast) ps = (s0, t0, f0)" by (metis prod.exhaust)
    obtain a s1 t1 f1 where r1: "stall_step maxMs (s0, t0, f0) p1 = (a, s1, t1, f1)" by (metis prod.exhaust)
    have acts: "?acts (ps @ p1 # qs @ [p2]) = ?acts ps @ a # stall_actions maxMs (s1, t1, f1) (qs @ [p2])"
      by (simp add: stall_actions_append r0 r1)
    have 0: "same_clock s s0 \<and> t0 = t2"
      using frozen_run[OF _ r0] assms(1) no unfolding acts by auto
    then have clocks: "ts_lastScanChangeMs s0 = ts_lastScanChangeMs s" "ts_lastTipAdvanceMs s0 = ts_lastTipAdvanceMs s"
      by (simp_all add: same_clock_def)
    have f1: "frozen_poll s0 p1" using assms(1) same_clock_frozen[of s s0] 0 by simp
    have na: "a \<noteq> TipStallRecreateManager" using no unfolding acts by auto
    have tier: "ts_tier1Fired s1"
      using assms(2-5) by (intro tier1_fires[OF f1 _ _ _ _ _ r1 na]) (simp_all add: clocks)
    have 1: "same_clock s s1" "t1 = t2"
      using frozen_step(1,2)[OF f1 r1] na 0 same_clock_trans[of s s0 s1] by auto
    obtain s2 u2 f2 where r2: "stall_state maxMs (s1, t1, f1) qs = (s2, u2, f2)" by (metis prod.exhaust)
    have "same_clock s1 s2 \<and> u2 = t1 \<and> (ts_tier1Fired s2 \<longleftrightarrow> ts_tier1Fired s1 \<or>
        TipStallRerequestHeaders \<in> set (stall_actions maxMs (s1, t1, f1) qs))"
      using assms(1) same_clock_frozen[OF 1(1)] no unfolding acts
      by (intro frozen_run[OF _ r2]) (auto simp: stall_actions_append)
    then have 2: "same_clock s s2" "u2 = t2" "ts_tier1Fired s2" using 1 tier same_clock_trans[of s s1 s2] by auto
    have "fst (stall_step maxMs (s2, u2, f2) p2) = TipStallRecreateManager"
      using assms 2 by (intro tier2_fires) (auto simp: same_clock_frozen[OF 2(1)] same_clock_def)
    then have "TipStallRecreateManager \<in> set (stall_actions maxMs (s1, t1, f1) (qs @ [p2]))"
      by (simp add: stall_actions_append r2 split_beta)
    then show False using no unfolding acts by auto
  qed
  then show ?thesis using recreate_needs_tier1[OF _ rec] assms(1) by blast
qed

theorem stalled_scan_is_escalated_witness:
  "TipStallRecreateManager \<in> set (stall_actions 1800000 (BRTipStallInit 900 500 0, 0, 0)
     (map (\<lambda>t. \<lparr>sp_tip = 900, sp_scan = 500, sp_peers = 3, sp_pending = 1, sp_full = True, sp_now = t\<rparr>) [1200000, 3600000]))"
proof -
  let ?p = "\<lambda>t. \<lparr>sp_tip = 900, sp_scan = 500, sp_peers = 3, sp_pending = 1, sp_full = True, sp_now = t\<rparr>"
  have "\<forall>p\<in>set ([] @ ?p 1200000 # [] @ [?p 3600000]). frozen_poll (BRTipStallInit 900 500 0) p"
    by (simp add: frozen_poll_def BRTipStallInit_def BRWatchdogIsScanFrontierArmed_def)
  from stalled_scan_is_escalated[OF this, of 1800000 0 0] show ?thesis
    by (simp add: BRTipStallInit_def BR_WD_TIP_STALL_TIMEOUT_MS_def BR_WD_TIP_STALL_TIER2_THROTTLE_MS_def)
qed

text \<open>C38. What a session of the BIP158 watchdog may destroy is bounded: over any sequence of polls and re-anchor
  results it heals a corrupt chain at most three times, with the canon peers in rotation from the first, recovers a
  frozen chain at most once, and never does either or re-anchors while a pinned hole suppresses it; only the
  heal, of these, drops the scan ledger.\<close>

theorem watchdog_session_is_bounded:
  "(let acts = wd_actions maxMs (BRBip158WatchdogInit cfTip blockTip scan now) es in
     length (heals acts) \<le> 3 \<and> map snd (heals acts) = map (\<lambda>i. Some (int i)) [0..<length (heals acts)] \<and>
     length (filter (\<lambda>(a, _). a = Bip158RecoverFrozenCf) acts) \<le> 1) \<and>
   (fst (BRBip158WatchdogStep maxMs s r) \<in> {Bip158RecoverFrozenCf, Bip158HealCorruptChain, Bip158Reanchor} \<longrightarrow>
     br_abandonmentPendingCycles r \<le> 0 \<or> brWdSub (br_nowMs r) (bw_scanProgressMs (bip158_observe s r)) \<ge> maxMs) \<and>
   BRCFRecoveryMayDropScanLedger FilterChainCorrupt \<and> \<not> BRCFRecoveryMayDropScanLedger FilterChainWedged \<and>
   \<not> BRCFRecoveryMayDropScanLedger Reanchored"
proof -
  let ?s = "BRBip158WatchdogInit cfTip blockTip scan now"
  have "bw_corruptHeals ?s \<le> 3" "bw_corruptHeals ?s = 0" "bw_corruptHealRotation ?s = 0" "\<not> bw_cfFrozenRecovered ?s"
    by (simp_all add: BRBip158WatchdogInit_def)
  then have "let acts = wd_actions maxMs ?s es in
     length (heals acts) \<le> 3 \<and> map snd (heals acts) = map (\<lambda>i. Some (int i)) [0..<length (heals acts)] \<and>
     length (filter (\<lambda>(a, _). a = Bip158RecoverFrozenCf) acts) \<le> 1"
    using wd_session[of ?s maxMs es] by (simp add: Let_def)
  moreover obtain a s' rot where "BRBip158WatchdogStep maxMs s r = (a, s', rot)" by (metis prod.exhaust)
  ultimately show ?thesis using bip158_step_cases(5)[of maxMs s r a s' rot]
    by (auto simp: BRWatchdogIsConvoySuppressed_def BRCFRecoveryMayDropScanLedger_def)
qed

theorem watchdog_session_is_bounded_witness:
  "length (heals (wd_actions 0 (BRBip158WatchdogInit 5 5 5 0) [])) \<le> 3 \<and>
   (fst (BRBip158WatchdogStep 0 (BRBip158WatchdogInit 5 5 5 0) \<lparr>br_cfTipNow = 5, br_blockTip = 1000, br_estimatedHeight = 2000,
      br_scanNow = 5, br_peerCount = 1, br_abandonmentPendingCycles = 1, br_hasReachedSynced = True, br_nowMs = 200000\<rparr>) =
      Bip158RecoverFrozenCf)"
  using watchdog_session_is_bounded[of 0 5 5 5 0 "[]" "BRBip158WatchdogInit 5 5 5 0"]
  by (simp add: BRBip158WatchdogStep_def BRBip158WatchdogInit_def bip158_observe_def Let_def BRWatchdogIsFilterSyncHealthy_def
      brWdSub_small BR_WD_HEALTHY_CF_GAP_BLOCKS_def BRWatchdogShouldRecoverFrozenCf_def BRWatchdogIsConvoySuppressed_def
      BR_WD_CF_FROZEN_RECOVERY_MS_def BRWatchdogStepScanFrontier_def)

end
