(* ===== verification/Transaction.thy ===== *)
theory Transaction
  imports MerkleBlock Address "HOL-Library.Multiset"
begin

text \<open>
  Transactions (\<open>src/BRTransaction.c\<close>): inputs and outputs, the serialized form and the messages that are
  signed, written into a caller's buffer, and the parser of the signed and of the internal unsigned form.
  A null pointer is \<open>None\<close>; allocations succeed; byte counts are natural numbers.  Writing is modelled with
  the buffer itself, so that what is written where, and what is returned, is what the code does for a buffer that
  is too small as well.
\<close>

section \<open>Inputs, outputs, transactions\<close>

definition TX_VERSION :: u32 where "TX_VERSION = 1"
definition TX_LOCKTIME :: u32 where "TX_LOCKTIME = 0"
definition SIGHASH_DEFAULT :: u8 where "SIGHASH_DEFAULT = 0x00"
definition SIGHASH_ALL :: u32 where "SIGHASH_ALL = 0x01"
definition SIGHASH_NONE :: u32 where "SIGHASH_NONE = 0x02"
definition SIGHASH_SINGLE :: u32 where "SIGHASH_SINGLE = 0x03"
definition SIGHASH_ANYONECANPAY :: u32 where "SIGHASH_ANYONECANPAY = 0x80"
definition SIGHASH_FORKID :: u32 where "SIGHASH_FORKID = 0x40"
definition TX_FEE_PER_KB :: u64 where "TX_FEE_PER_KB = 100000"
definition TX_INPUT_SIZE :: nat where "TX_INPUT_SIZE = 148"
definition TX_UNCONFIRMED :: u32 where "TX_UNCONFIRMED = 0x7fffffff"

record tx_input =
  ti_txHash :: u256
  ti_index :: u32
  ti_address :: string
  ti_amount :: u64
  ti_script :: "bytes option"
  ti_signature :: "bytes option"
  ti_witness :: "bytes option"
  ti_sequence :: u32

record tx_output =
  to_address :: string
  to_amount :: u64
  to_script :: "bytes option"

record transaction =
  tx_txHash :: u256
  tx_wtxHash :: u256
  tx_version :: u32
  tx_inputs :: "tx_input list"
  tx_outputs :: "tx_output list"
  tx_lockTime :: u32
  tx_blockHeight :: u32
  tx_timestamp :: u32
  tx_is_dandelion :: u8
  tx_walletSigCheck :: u32
  tx_walletSigOwned :: u32

text \<open>The bytes behind a pointer and its length field.\<close>

definition held :: "bytes option \<Rightarrow> bytes" where "held p = (case p of None \<Rightarrow> [] | Some b \<Rightarrow> b)"

definition addressOfScript :: "bool \<Rightarrow> bytes \<Rightarrow> string" where
  "addressOfScript testnet script = snd (BRAddressFromScriptPubKey testnet (Some 76) script)"

definition BRTxInputSetAddress :: "bool \<Rightarrow> tx_input \<Rightarrow> string option \<Rightarrow> tx_input" where
  "BRTxInputSetAddress testnet input address =
     (let input = input\<lparr>ti_script := None, ti_address := []\<rparr> in
      case address of None \<Rightarrow> input
      | Some a \<Rightarrow>
          let scriptLen = fst (BRAddressScriptPubKey testnet None a) in
          input\<lparr>ti_address := take 75 a, ti_script := Some (snd (BRAddressScriptPubKey testnet (Some scriptLen) a))\<rparr>)"

definition BRTxInputSetScript :: "bool \<Rightarrow> tx_input \<Rightarrow> bytes option \<Rightarrow> tx_input" where
  "BRTxInputSetScript testnet input script =
     (let input = input\<lparr>ti_script := None, ti_address := []\<rparr> in
      case script of None \<Rightarrow> input
      | Some s \<Rightarrow> input\<lparr>ti_script := Some s, ti_address := addressOfScript testnet s\<rparr>)"

definition BRTxInputSetSignature :: "bool \<Rightarrow> tx_input \<Rightarrow> bytes option \<Rightarrow> tx_input" where
  "BRTxInputSetSignature testnet input signature =
     (let input = input\<lparr>ti_signature := None\<rparr> in
      case signature of None \<Rightarrow> input
      | Some s \<Rightarrow>
          let input = input\<lparr>ti_signature := Some s\<rparr> in
          if ti_address input = [] then input\<lparr>ti_address := snd (BRAddressFromScriptSig testnet (Some 76) s)\<rparr> else input)"

text \<open>The address of a witness is never known (\<open>BRAddressFromWitness\<close> writes none).\<close>

definition BRTxInputSetWitness :: "tx_input \<Rightarrow> bytes option \<Rightarrow> tx_input" where
  "BRTxInputSetWitness input witness = input\<lparr>ti_witness := witness\<rparr>"

definition BRTxOutputSetAddress :: "bool \<Rightarrow> tx_output \<Rightarrow> string option \<Rightarrow> tx_output" where
  "BRTxOutputSetAddress testnet output address =
     (let output = output\<lparr>to_script := None, to_address := []\<rparr> in
      case address of None \<Rightarrow> output
      | Some a \<Rightarrow>
          let scriptLen = fst (BRAddressScriptPubKey testnet None a) in
          output\<lparr>to_address := take 75 a, to_script := Some (snd (BRAddressScriptPubKey testnet (Some scriptLen) a))\<rparr>)"

definition BRTxOutputSetAmount :: "tx_output \<Rightarrow> u64 \<Rightarrow> tx_output" where
  "BRTxOutputSetAmount output amount = output\<lparr>to_amount := amount\<rparr>"

definition BRTxOutputSetScript :: "bool \<Rightarrow> tx_output \<Rightarrow> bytes option \<Rightarrow> tx_output" where
  "BRTxOutputSetScript testnet output script =
     (let output = output\<lparr>to_script := None, to_address := []\<rparr> in
      case script of None \<Rightarrow> output
      | Some s \<Rightarrow> output\<lparr>to_script := Some s, to_address := addressOfScript testnet s\<rparr>)"

definition zeroInput :: tx_input where
  "zeroInput = \<lparr>ti_txHash = 0, ti_index = 0, ti_address = [], ti_amount = 0, ti_script = None, ti_signature = None,
     ti_witness = None, ti_sequence = 0\<rparr>"

definition zeroOutput :: tx_output where
  "zeroOutput = \<lparr>to_address = [], to_amount = 0, to_script = None\<rparr>"

definition BRTransactionNew :: transaction where
  "BRTransactionNew = \<lparr>tx_txHash = 0, tx_wtxHash = 0, tx_version = TX_VERSION, tx_inputs = [], tx_outputs = [],
     tx_lockTime = TX_LOCKTIME, tx_blockHeight = TX_UNCONFIRMED, tx_timestamp = 0, tx_is_dandelion = 0,
     tx_walletSigCheck = 0, tx_walletSigOwned = 0\<rparr>"

text \<open>The new input: only the pointers that are given are set.\<close>

definition newInput :: "bool \<Rightarrow> u256 \<Rightarrow> u32 \<Rightarrow> u64 \<Rightarrow> bytes option \<Rightarrow> bytes option \<Rightarrow> bytes option \<Rightarrow> u32 \<Rightarrow> tx_input" where
  "newInput testnet txHash index amount script signature witness sequence =
     (let input = zeroInput\<lparr>ti_txHash := txHash, ti_index := index, ti_amount := amount, ti_sequence := sequence\<rparr>;
          input = (if script \<noteq> None then BRTxInputSetScript testnet input script else input);
          input = (if signature \<noteq> None then BRTxInputSetSignature testnet input signature else input)
      in if witness \<noteq> None then BRTxInputSetWitness input witness else input)"

definition BRTransactionAddInput ::
    "bool \<Rightarrow> transaction \<Rightarrow> u256 \<Rightarrow> u32 \<Rightarrow> u64 \<Rightarrow> bytes option \<Rightarrow> bytes option \<Rightarrow> bytes option \<Rightarrow> u32 \<Rightarrow> transaction" where
  "BRTransactionAddInput testnet tx txHash index amount script signature witness sequence =
     tx\<lparr>tx_inputs := tx_inputs tx @ [newInput testnet txHash index amount script signature witness sequence]\<rparr>"

definition BRTransactionAddInputBefore ::
    "bool \<Rightarrow> transaction \<Rightarrow> u256 \<Rightarrow> u32 \<Rightarrow> u64 \<Rightarrow> bytes option \<Rightarrow> bytes option \<Rightarrow> bytes option \<Rightarrow> u32 \<Rightarrow> transaction" where
  "BRTransactionAddInputBefore testnet tx txHash index amount script signature witness sequence =
     tx\<lparr>tx_inputs := insert_at 0 (newInput testnet txHash index amount script signature witness sequence) (tx_inputs tx)\<rparr>"

definition BRTransactionAddOutput :: "bool \<Rightarrow> transaction \<Rightarrow> u64 \<Rightarrow> bytes option \<Rightarrow> transaction" where
  "BRTransactionAddOutput testnet tx amount script =
     tx\<lparr>tx_outputs := tx_outputs tx @ [BRTxOutputSetScript testnet (zeroOutput\<lparr>to_amount := amount\<rparr>) script]\<rparr>"

definition BRTransactionCopy :: "bool \<Rightarrow> transaction \<Rightarrow> transaction" where
  "BRTransactionCopy testnet tx =
     (let cpy = tx\<lparr>tx_inputs := [], tx_outputs := [], tx_walletSigCheck := 0, tx_walletSigOwned := 0\<rparr>;
          cpy = foldl (\<lambda>cpy i. BRTransactionAddInput testnet cpy (ti_txHash i) (ti_index i) (ti_amount i) (ti_script i)
                          (ti_signature i) (ti_witness i) (ti_sequence i)) cpy (tx_inputs tx)
      in foldl (\<lambda>cpy out. BRTransactionAddOutput testnet cpy (to_amount out) (to_script out)) cpy (tx_outputs tx))"

text \<open>The shuffle with the values \<open>BRRand\<close> returns, below the bound it is given.\<close>

fun shuffleLoop :: "(u32 \<Rightarrow> u32) list \<Rightarrow> nat \<Rightarrow> tx_output list \<Rightarrow> tx_output list" where
  "shuffleLoop [] i outs = outs"
| "shuffleLoop (rand # rs) i outs =
     (if i + 1 < length outs then
        let j = i + unat (rand (of_nat (length outs) - of_nat i)) in
        shuffleLoop rs (i + 1) (if j \<noteq> i then outs[i := outs ! j, j := outs ! i] else outs)
      else outs)"

definition BRTransactionShuffleOutputs :: "(u32 \<Rightarrow> u32) list \<Rightarrow> transaction \<Rightarrow> transaction" where
  "BRTransactionShuffleOutputs rands tx = tx\<lparr>tx_outputs := shuffleLoop rands 0 (tx_outputs tx)\<rparr>"

section \<open>Writing into a buffer\<close>

text \<open>
  The state of a writing function is its buffer, \<open>None\<close> for a null pointer, and the offset.  A field is
  written where it fits and counted in any case (\<open>put_field\<close>); a nested call gets the rest of the buffer and
  adds what it returns (\<open>sub_call\<close>); at the end the offset is returned when it is within the buffer (\<open>written\<close>).
\<close>

type_synonym out_state = "bytes option \<times> nat"
type_synonym writer = "bytes option \<Rightarrow> out_state"

definition put_field :: "bytes \<Rightarrow> out_state \<Rightarrow> out_state" where
  "put_field bs st =
     (case st of (data, off) \<Rightarrow>
        (map_option (\<lambda>d. if off + length bs \<le> length d then take off d @ bs @ drop (off + length bs) d else d) data,
         off + length bs))"

definition sub_call :: "writer \<Rightarrow> out_state \<Rightarrow> out_state" where
  "sub_call w st =
     (case st of
        (None, off) \<Rightarrow> (None, off + snd (w None))
      | (Some d, off) \<Rightarrow> (Some (take off d @ held (fst (w (Some (drop off d))))), off + snd (w (Some (drop off d)))))"

definition written :: "out_state \<Rightarrow> out_state" where
  "written st = (case st of (data, off) \<Rightarrow> (data, if data = None \<or> off \<le> length (held data) then off else 0))"

definition varIntSet :: "u64 \<Rightarrow> writer" where
  "varIntSet n data =
     (case data of None \<Rightarrow> (None, BRVarIntSize n)
      | Some d \<Rightarrow> if BRVarIntSize n \<le> length d then (Some (varIntBytes n @ drop (BRVarIntSize n) d), BRVarIntSize n)
                  else (Some d, 0))"

definition sizeVar :: "nat \<Rightarrow> writer" where "sizeVar n = varIntSet (of_nat n)"

definition inputData :: "tx_input \<Rightarrow> writer" where
  "inputData input data =
     (let st = (data, 0);
          st = put_field (UInt256Set (ti_txHash input)) st;
          st = put_field (UInt32SetLE (ti_index input)) st;
          st = sub_call (sizeVar (length (held (ti_signature input)))) st;
          st = put_field (held (ti_signature input)) st;
          st = (if ti_amount input \<noteq> 0 then put_field (UInt64SetLE (ti_amount input)) st else st);
          st = put_field (UInt32SetLE (ti_sequence input)) st
      in written st)"

definition putOutput :: "tx_output \<Rightarrow> out_state \<Rightarrow> out_state" where
  "putOutput output st =
     (let st = put_field (UInt64SetLE (to_amount output)) st;
          st = sub_call (sizeVar (length (held (to_script output)))) st
      in put_field (held (to_script output)) st)"

text \<open>All outputs, or the one at an index; \<open>None\<close> is the index \<open>SIZE_MAX\<close>.\<close>

definition outputData :: "transaction \<Rightarrow> nat option \<Rightarrow> writer" where
  "outputData tx index data =
     (let outs = (case index of None \<Rightarrow> tx_outputs tx | Some i \<Rightarrow> take 1 (drop i (tx_outputs tx)))
      in written (foldl (\<lambda>st out. putOutput out st) (data, 0) outs))"

text \<open>The bytes a writing function leaves when it is given the room it asks for.\<close>

definition writtenBytes :: "writer \<Rightarrow> bytes" where
  "writtenBytes w = (case w (Some (replicate (snd (w None)) 0)) of (d, n) \<Rightarrow> take n (held d))"

section \<open>The messages that are signed\<close>

text \<open>The field lists that are hashed.\<close>

definition prevoutsOf :: "transaction \<Rightarrow> bytes" where
  "prevoutsOf tx = concat (map (\<lambda>i. UInt256Set (ti_txHash i) @ UInt32SetLE (ti_index i)) (tx_inputs tx))"

definition amountsOf :: "transaction \<Rightarrow> bytes" where
  "amountsOf tx = concat (map (\<lambda>i. UInt64SetLE (ti_amount i)) (tx_inputs tx))"

definition scriptsOf :: "transaction \<Rightarrow> bytes" where
  "scriptsOf tx = concat (map (\<lambda>i. varIntBytes (of_nat (length (held (ti_script i)))) @ held (ti_script i)) (tx_inputs tx))"

definition sequencesOf :: "transaction \<Rightarrow> bytes" where
  "sequencesOf tx = concat (map (\<lambda>i. UInt32SetLE (ti_sequence i)) (tx_inputs tx))"

definition witnessData :: "transaction \<Rightarrow> nat option \<Rightarrow> u32 \<Rightarrow> writer" where
  "witnessData tx index hashType data =
     (case index of None \<Rightarrow> (data, 0)
      | Some index \<Rightarrow>
        if index \<ge> length (tx_inputs tx) then (data, 0)
        else
          let anyoneCanPay = (hashType AND SIGHASH_ANYONECANPAY \<noteq> 0); sigHash = hashType AND 0x1f;
              zero = UInt256Set 0;
              st = put_field (UInt32SetLE (tx_version tx)) (data, 0);
              st = put_field (if \<not> anyoneCanPay
                     then BRSHA256_2 (prevoutsOf tx)
                     else zero) st;
              st = put_field (if \<not> anyoneCanPay \<and> sigHash \<noteq> SIGHASH_SINGLE \<and> sigHash \<noteq> SIGHASH_NONE
                     then BRSHA256_2 (sequencesOf tx) else zero) st;
              input = tx_inputs tx ! index; script = held (ti_script input);
              input = input\<lparr>ti_signature := ti_script input\<rparr>;
              input = (if length script = 22 \<and> script ! 0 = OP_0 \<and> script ! 1 = 20
                       then input\<lparr>ti_signature := Some ([OP_DUP, OP_HASH160, 20] @ take 20 (drop 2 script) @ [OP_EQUALVERIFY, OP_CHECKSIG])\<rparr>
                       else input);
              st = sub_call (inputData input) st;
              st = put_field (if sigHash \<noteq> SIGHASH_SINGLE \<and> sigHash \<noteq> SIGHASH_NONE
                     then BRSHA256_2 (writtenBytes (outputData tx None))
                     else if sigHash = SIGHASH_SINGLE \<and> index < length (tx_outputs tx)
                     then BRSHA256_2 (writtenBytes (outputData tx (Some index))) else zero) st;
              st = put_field (UInt32SetLE (tx_lockTime tx)) st;
              st = put_field (UInt32SetLE hashType) st
          in written st)"

definition BRKeyTaggedHash :: "string \<Rightarrow> bytes \<Rightarrow> u256" where
  "BRKeyTaggedHash tag msg =
     (let tagHash = BRSHA256 (map of_char tag) in UInt256Get (BRSHA256 (tagHash @ tagHash @ msg)))"

text \<open>The message and its hash; \<open>None\<close> is the refusal.\<close>

definition taprootSighash :: "transaction \<Rightarrow> nat \<Rightarrow> u8 \<Rightarrow> (bytes \<times> u256) option" where
  "taprootSighash tx index hashType =
     (if index \<ge> length (tx_inputs tx) then None
      else if hashType \<noteq> SIGHASH_DEFAULT \<and> hashType \<noteq> ucast SIGHASH_ALL then None
      else if list_ex (\<lambda>i. held (ti_script i) = []) (tx_inputs tx) then None
      else
        let msg = [0x00, hashType] @ UInt32SetLE (tx_version tx) @ UInt32SetLE (tx_lockTime tx) @
                  BRSHA256 (prevoutsOf tx) @ BRSHA256 (amountsOf tx) @ BRSHA256 (scriptsOf tx) @ BRSHA256 (sequencesOf tx) @
                  BRSHA256 (writtenBytes (outputData tx None)) @ [0x00] @ UInt32SetLE (of_nat index)
        in Some (msg, BRKeyTaggedHash ''TapSighash'' msg))"

section \<open>Serialization\<close>

text \<open>
  The items of a stored witness, each a length and its bytes.  The running offset is taken not to wrap: the parser
  stores only witnesses whose items lie within them, and the signer only pushes.
\<close>

function witnessCount :: "bytes \<Rightarrow> nat" where
  "witnessCount w = (if w = [] then 0 else case BRVarInt w of (l, n) \<Rightarrow> Suc (witnessCount (drop (n + unat l) w)))"
  by pat_completeness auto
termination
  by (relation "measure length") (auto simp: BRVarInt_def Let_def split: if_splits)

declare witnessCount.simps [simp del]

text \<open>An input as it is written: for signing the one at \<open>index\<close>, or for the whole transaction (\<open>None\<close>).\<close>

definition inputAsWritten :: "nat option \<Rightarrow> u32 \<Rightarrow> nat \<Rightarrow> tx_input \<Rightarrow> tx_input" where
  "inputAsWritten index sigHash i input =
     (if index = Some i \<or> (index = None \<and> ti_signature input = None) then
        let input = input\<lparr>ti_signature := ti_script input\<rparr> in if index = Some i then input\<lparr>ti_amount := 0\<rparr> else input
      else if index \<noteq> None then
        let input = input\<lparr>ti_signature := None\<rparr>;
            input = (if sigHash = SIGHASH_NONE \<or> sigHash = SIGHASH_SINGLE then input\<lparr>ti_sequence := 0\<rparr> else input)
        in input\<lparr>ti_amount := 0\<rparr>
      else input\<lparr>ti_amount := 0\<rparr>)"

definition putInputs :: "nat option \<Rightarrow> u32 \<Rightarrow> tx_input list \<Rightarrow> out_state \<Rightarrow> out_state" where
  "putInputs index sigHash ins st =
     foldl (\<lambda>st (i, input). sub_call (inputData (inputAsWritten index sigHash i input)) st) st (enumerate 0 ins)"

definition putWitness :: "tx_input \<Rightarrow> out_state \<Rightarrow> out_state" where
  "putWitness input st = put_field (held (ti_witness input)) (sub_call (sizeVar (witnessCount (held (ti_witness input)))) st)"

definition blankOutputs :: "nat \<Rightarrow> out_state \<Rightarrow> out_state" where
  "blankOutputs n st = ((\<lambda>st. sub_call (sizeVar 0) (put_field (UInt64SetLE (- 1)) st)) ^^ n) st"

definition transactionData :: "transaction \<Rightarrow> nat option \<Rightarrow> u32 \<Rightarrow> writer" where
  "transactionData tx index hashType data =
     (let anyoneCanPay = (hashType AND SIGHASH_ANYONECANPAY \<noteq> 0); sigHash = hashType AND 0x1f;
          ins = tx_inputs tx; outs = tx_outputs tx;
          inRange = (case index of None \<Rightarrow> False | Some i \<Rightarrow> i < length ins)
      in
      if hashType AND SIGHASH_FORKID \<noteq> 0 then witnessData tx index hashType data
      else if anyoneCanPay \<and> \<not> inRange then (data, 0)
      else
        let witnessFlag = (index = None \<and> list_ex (\<lambda>i. length (held (ti_witness i)) > 0) ins);
            st = put_field (UInt32SetLE (tx_version tx)) (data, 0);
            st = (if \<not> anyoneCanPay then
                    let st = (if witnessFlag then put_field [0, 1] st else st);
                        st = sub_call (sizeVar (length ins)) st
                    in putInputs index sigHash ins st
                  else
                    let st = sub_call (sizeVar 1) st; input = ins ! the index
                    in sub_call (inputData (input\<lparr>ti_signature := ti_script input, ti_amount := 0\<rparr>)) st);
            st = (if sigHash \<noteq> SIGHASH_SINGLE \<and> sigHash \<noteq> SIGHASH_NONE then
                    sub_call (outputData tx None) (sub_call (sizeVar (length outs)) st)
                  else if sigHash = SIGHASH_SINGLE \<and> index \<noteq> None \<and> the index < length outs then
                    sub_call (outputData tx index) (blankOutputs (the index) (sub_call (sizeVar (the index + 1)) st))
                  else sub_call (sizeVar 0) st);
            st = (if witnessFlag then foldl (\<lambda>st input. putWitness input st) st ins else st);
            st = put_field (UInt32SetLE (tx_lockTime tx)) st;
            st = (if index \<noteq> None then put_field (UInt32SetLE hashType) st else st)
        in written st)"

definition BRTransactionSerialize :: "transaction \<Rightarrow> writer" where
  "BRTransactionSerialize tx = transactionData tx None SIGHASH_ALL"

section \<open>Sizes\<close>

text \<open>The size without and with witness data, estimated for inputs that are not signed.\<close>

definition inputSizes :: "tx_input \<Rightarrow> nat \<times> nat" where
  "inputSizes input =
     (if ti_signature input \<noteq> None \<and> ti_witness input \<noteq> None then
        (32 + 4 + BRVarIntSize (of_nat (length (held (ti_signature input)))) + length (held (ti_signature input)) + 4,
         length (held (ti_witness input)))
      else if held (ti_script input) \<noteq> [] \<and> hd (held (ti_script input)) = OP_0 then (32 + 4 + 1 + 4, TX_INPUT_SIZE)
      else (TX_INPUT_SIZE, 0))"

definition baseSize :: "transaction \<Rightarrow> nat" where
  "baseSize tx =
     8 + BRVarIntSize (of_nat (length (tx_inputs tx))) + BRVarIntSize (of_nat (length (tx_outputs tx))) +
     sum_list (map (fst \<circ> inputSizes) (tx_inputs tx)) +
     sum_list (map (\<lambda>out. 8 + BRVarIntSize (of_nat (length (held (to_script out)))) + length (held (to_script out))) (tx_outputs tx))"

definition witnessSize :: "transaction \<Rightarrow> nat" where
  "witnessSize tx =
     (let witSize = sum_list (map (snd \<circ> inputSizes) (tx_inputs tx))
      in if witSize > 0 then witSize + 2 + length (tx_inputs tx) else witSize)"

definition BRTransactionSize :: "transaction \<Rightarrow> nat" where
  "BRTransactionSize tx = baseSize tx + witnessSize tx"

definition BRTransactionVSize :: "transaction \<Rightarrow> nat" where
  "BRTransactionVSize tx = (baseSize tx * 4 + witnessSize tx + 3) div 4"

definition BRTransactionStandardFee :: "transaction \<Rightarrow> u64" where
  "BRTransactionStandardFee tx = of_nat ((BRTransactionSize tx + 999) div 1000) * TX_FEE_PER_KB"

definition BRTransactionIsSigned :: "transaction \<Rightarrow> bool" where
  "BRTransactionIsSigned tx \<longleftrightarrow> list_all (\<lambda>i. ti_signature i \<noteq> None \<and> ti_witness i \<noteq> None) (tx_inputs tx)"

definition BRTransactionIsStandard :: "transaction \<Rightarrow> bool" where "BRTransactionIsStandard tx \<longleftrightarrow> True"
definition BRTransactionHash :: "transaction \<Rightarrow> u32" where "BRTransactionHash tx = UInt32GetLE (UInt256Set (tx_txHash tx))"
definition BRTransactionEq :: "transaction \<Rightarrow> transaction \<Rightarrow> bool" where
  "BRTransactionEq tx otherTx \<longleftrightarrow> tx = otherTx \<or> tx_txHash tx = tx_txHash otherTx"

section \<open>Parsing\<close>

text \<open>Reading at an offset: zero past the end.\<close>

definition u32_at :: "bytes \<Rightarrow> nat \<Rightarrow> u32" where
  "u32_at buf off = (if off + 4 \<le> length buf then UInt32GetLE (drop off buf) else 0)"

definition u64_at :: "bytes \<Rightarrow> nat \<Rightarrow> u64" where
  "u64_at buf off = (if off + 8 \<le> length buf then UInt64GetLE (drop off buf) else 0)"

definition u256_at :: "bytes \<Rightarrow> nat \<Rightarrow> u256" where
  "u256_at buf off = (if off + 32 \<le> length buf then UInt256Get (drop off buf) else 0)"

text \<open>One input: the input, the offset behind it, and whether it was read in its signed form.\<close>

definition parseInput :: "bool \<Rightarrow> bool \<Rightarrow> bool \<Rightarrow> bytes \<Rightarrow> nat \<Rightarrow> (tx_input \<times> nat \<times> bool) option" where
  "parseInput testnet allowUnsigned witnessFlag buf off =
     (let input = zeroInput\<lparr>ti_txHash := u256_at buf off, ti_index := u32_at buf (off + 32)\<rparr>;
          off = off + 36;
          (n, len) = BRVarInt (drop off buf); sLen = unat n; off = off + len
      in if sLen > length buf - off then None
         else
           let isUnsigned = (allowUnsigned \<and> off + sLen \<le> length buf \<and>
                 fst (BRAddressFromScriptPubKey testnet None (take sLen (drop off buf))) > 0);
               input = (if isUnsigned then (BRTxInputSetScript testnet input (Some (take sLen (drop off buf))))
                                            \<lparr>ti_amount := u64_at buf (off + sLen)\<rparr>
                        else if off + sLen \<le> length buf then BRTxInputSetSignature testnet input (Some (take sLen (drop off buf)))
                        else input);
               off = (if isUnsigned then off + 8 else off) + sLen;
               input = (if \<not> witnessFlag then BRTxInputSetWitness input (Some []) else input)
           in Some (input\<lparr>ti_sequence := u32_at buf off\<rparr>, off + 4, \<not> isUnsigned))"

text \<open>The loop over the inputs; past the end of the buffer the entries stay zero.\<close>

fun parseInputs :: "bool \<Rightarrow> bool \<Rightarrow> bool \<Rightarrow> bytes \<Rightarrow> nat \<Rightarrow> nat \<Rightarrow> (tx_input list \<times> nat \<times> bool) option" where
  "parseInputs testnet allowUnsigned witnessFlag buf off 0 = Some ([], off, True)"
| "parseInputs testnet allowUnsigned witnessFlag buf off (Suc k) =
     (if off > length buf then Some (replicate (Suc k) zeroInput, off, True)
      else case parseInput testnet allowUnsigned witnessFlag buf off of None \<Rightarrow> None
      | Some (input, off, s) \<Rightarrow>
          (case parseInputs testnet allowUnsigned witnessFlag buf off k of None \<Rightarrow> None
           | Some (ins, off, t) \<Rightarrow> Some (input # ins, off, s \<and> t)))"

definition parseOutput :: "bool \<Rightarrow> bytes \<Rightarrow> nat \<Rightarrow> (tx_output \<times> nat) option" where
  "parseOutput testnet buf off =
     (let output = zeroOutput\<lparr>to_amount := u64_at buf off\<rparr>; off = off + 8;
          (n, len) = BRVarInt (drop off buf); sLen = unat n; off = off + len
      in if sLen > length buf - off then None
         else Some (if off + sLen \<le> length buf then BRTxOutputSetScript testnet output (Some (take sLen (drop off buf)))
                    else output, off + sLen))"

fun parseOutputs :: "bool \<Rightarrow> bytes \<Rightarrow> nat \<Rightarrow> nat \<Rightarrow> (tx_output list \<times> nat) option" where
  "parseOutputs testnet buf off 0 = Some ([], off)"
| "parseOutputs testnet buf off (Suc k) =
     (if off > length buf then Some (replicate (Suc k) zeroOutput, off)
      else case parseOutput testnet buf off of None \<Rightarrow> None
      | Some (output, off) \<Rightarrow>
          (case parseOutputs testnet buf off k of None \<Rightarrow> None | Some (outs, off) \<Rightarrow> Some (output # outs, off)))"

text \<open>The length of the witness items of one input.\<close>

fun witnessLen :: "bytes \<Rightarrow> nat \<Rightarrow> nat \<Rightarrow> nat \<Rightarrow> nat option" where
  "witnessLen buf off sLen 0 = Some sLen"
| "witnessLen buf off sLen (Suc items) =
     (let (l, len) = BRVarInt (drop (off + sLen) buf); witItem = unat l; witRem = length buf - (off + sLen)
      in if len > witRem \<or> witItem > witRem - len then None else witnessLen buf off (sLen + witItem + len) items)"

fun parseWitnesses :: "bytes \<Rightarrow> nat \<Rightarrow> tx_input list \<Rightarrow> (tx_input list \<times> nat) option" where
  "parseWitnesses buf off [] = Some ([], off)"
| "parseWitnesses buf off (input # ins) =
     (if off > length buf then Some (input # ins, off)
      else
        let (n, len) = BRVarInt (drop off buf); off = off + len in
        if unat n > length buf - off then None
        else case witnessLen buf off 0 (unat n) of None \<Rightarrow> None
        | Some sLen \<Rightarrow>
            let input = (if off + sLen \<le> length buf then BRTxInputSetWitness input (Some (take sLen (drop off buf))) else input)
            in (case parseWitnesses buf (off + sLen) ins of None \<Rightarrow> None | Some (ins, off) \<Rightarrow> Some (input # ins, off)))"

text \<open>From the number of inputs on.\<close>

definition parseCounted :: "bool \<Rightarrow> bool \<Rightarrow> bytes \<Rightarrow> u32 \<Rightarrow> bool \<Rightarrow> nat \<Rightarrow> u64 \<Rightarrow> transaction option" where
  "parseCounted testnet allowUnsigned buf version witnessFlag off n =
     (if unat n > (length buf - off) div 41 then None
       else case parseInputs testnet allowUnsigned witnessFlag buf off (unat n) of None \<Rightarrow> None
       | Some (ins, off, isSigned) \<Rightarrow>
         let (n, len) = BRVarInt (drop off buf); off = off + len in
         if unat n > (length buf - off) div 9 then None
         else case parseOutputs testnet buf off (unat n) of None \<Rightarrow> None
         | Some (outs, off) \<Rightarrow>
           let witnessOff = off in
           case (if witnessFlag then parseWitnesses buf off ins else Some (ins, off)) of None \<Rightarrow> None
           | Some (ins, off) \<Rightarrow>
             let lockTime = u32_at buf off; off = off + 4;
                 tx = BRTransactionNew\<lparr>tx_version := version, tx_inputs := ins, tx_outputs := outs, tx_lockTime := lockTime\<rparr>
             in if ins = [] \<or> off > length buf then None
                else if isSigned \<and> witnessFlag then
                  if witnessOff < 6 \<or> witnessOff > length buf then None
                  else Some (tx\<lparr>tx_wtxHash := UInt256Get (BRSHA256_2 (take off buf)),
                                tx_txHash := UInt256Get (BRSHA256_2 (UInt32SetLE version @ take (witnessOff - 6) (drop 6 buf) @
                                                                      UInt32SetLE lockTime))\<rparr>)
                else if isSigned then
                  let h = UInt256Get (BRSHA256_2 (take off buf)) in Some (tx\<lparr>tx_txHash := h, tx_wtxHash := h\<rparr>)
                else Some tx)"

definition parseTx :: "bool \<Rightarrow> bool \<Rightarrow> bytes \<Rightarrow> transaction option" where
  "parseTx testnet allowUnsigned buf =
     (let version = u32_at buf 0; off = 4;
          (n, len) = BRVarInt (drop off buf); off = off + len;
          flag = (if n = 0 \<and> off + 1 \<le> length buf then buf ! off else 0);
          off = (if n = 0 \<and> off + 1 \<le> length buf then off + 1 else off);
          witnessFlag = (flag \<noteq> 0);
          (n, off) = (if witnessFlag then case BRVarInt (drop off buf) of (n, len) \<Rightarrow> (n, off + len) else (n, off))
      in parseCounted testnet allowUnsigned buf version witnessFlag off n)"

definition BRTransactionParse :: "bool \<Rightarrow> bytes \<Rightarrow> transaction option" where
  "BRTransactionParse testnet buf = parseTx testnet True buf"

definition BRTransactionParseSigned :: "bool \<Rightarrow> bytes \<Rightarrow> transaction option" where
  "BRTransactionParseSigned testnet buf = parseTx testnet False buf"

end
