(* ===== verification/TransactionWire.thy ===== *)
theory TransactionWire
  imports Transaction
begin

text \<open>
  What the serializer writes and what the parser makes of it: the contract of a function that writes into a
  caller's buffer, kept by the ways such functions are put together, the bytes of a transaction as an expression,
  and the lemmas on the parser that read them back.
\<close>

section \<open>The contract of a writing function\<close>

text \<open>
  A writer is for a byte string when it asks for its length when it has no buffer and, given room,
  writes it at the front and leaves the rest; a step does the same at the current offset.
\<close>

definition writes :: "writer \<Rightarrow> bytes \<Rightarrow> bool" where
  "writes w bs \<longleftrightarrow> snd (w None) = length bs \<and>
     (\<forall>d. length bs \<le> length d \<longrightarrow> w (Some d) = (Some (bs @ drop (length bs) d), length bs))"

definition puts :: "(out_state \<Rightarrow> out_state) \<Rightarrow> bytes \<Rightarrow> bool" where
  "puts f bs \<longleftrightarrow> (\<forall>off. f (None, off) = (None, off + length bs)) \<and>
     (\<forall>p q. length bs \<le> length q \<longrightarrow> f (Some (p @ q), length p) = (Some (p @ bs @ drop (length bs) q), length p + length bs))"

named_theorems writing

lemma puts_field [writing]: "puts (put_field bs) bs"
  by (simp add: puts_def put_field_def)

lemma puts_call [writing]: "writes w bs \<Longrightarrow> puts (sub_call w) bs"
  by (auto simp: puts_def writes_def sub_call_def held_def)

lemma puts_skip [writing]: "puts (\<lambda>st. st) []"
  by (simp add: puts_def)

lemma puts_then:
  assumes "puts f a" "puts g b"
  shows "puts (\<lambda>st. g (f st)) (a @ b)"
  unfolding puts_def
proof (intro conjI allI impI)
  fix off show "g (f (None, off)) = (None, off + length (a @ b))" using assms by (simp add: puts_def)
next
  fix p q :: bytes
  assume l: "length (a @ b) \<le> length q"
  have f: "f (Some (p @ q), length p) = (Some ((p @ a) @ drop (length a) q), length (p @ a))"
    using assms(1) l by (simp add: puts_def)
  have lb: "length b \<le> length (drop (length a) q)" using l by simp
  have g: "g (Some (x @ y), length x) = (Some (x @ b @ drop (length b) y), length x + length b)" if "length b \<le> length y" for x y
    using assms(2) that by (simp add: puts_def)
  show "g (f (Some (p @ q), length p)) = (Some (p @ (a @ b) @ drop (length (a @ b)) q), length p + length (a @ b))"
    unfolding f g[OF lb] by (simp add: add.commute)
qed

lemma puts_if: "(c \<Longrightarrow> puts f a) \<Longrightarrow> (\<not> c \<Longrightarrow> puts g b) \<Longrightarrow> puts (\<lambda>st. if c then f st else g st) (if c then a else b)"
  by simp

lemma puts_fold: "(\<And>x. x \<in> set xs \<Longrightarrow> puts (f x) (g x)) \<Longrightarrow> puts (\<lambda>st. foldl (\<lambda>st x. f x st) st xs) (concat (map g xs))"
proof (induction xs)
  case Nil show ?case by (simp add: puts_skip)
next
  case (Cons x xs)
  then have "puts (\<lambda>st. foldl (\<lambda>st x. f x st) (f x st) xs) (g x @ concat (map g xs))" by (intro puts_then) auto
  then show ?case by simp
qed

lemma writes_done:
  assumes "puts f bs"
  shows "writes (\<lambda>data. written (f (data, 0))) bs"
  unfolding writes_def
proof (intro conjI allI impI)
  show "snd (written (f (None, 0))) = length bs" using assms by (simp add: puts_def written_def)
next
  fix d :: bytes assume "length bs \<le> length d"
  then have "f (Some ([] @ d), length ([] :: bytes)) = (Some ([] @ bs @ drop (length bs) d), length ([] :: bytes) + length bs)"
    using assms unfolding puts_def by blast
  then show "written (f (Some d, 0)) = (Some (bs @ drop (length bs) d), length bs)" using \<open>length bs \<le> length d\<close>
    by (simp add: written_def held_def)
qed

lemma writes_varInt [writing]: "writes (varIntSet n) (varIntBytes n)"
  by (simp add: writes_def varIntSet_def length_varIntBytes)

lemma writes_sizeVar [writing]: "writes (sizeVar n) (varIntBytes (of_nat n))"
  unfolding sizeVar_def by (rule writes_varInt)

lemma writtenBytes_eq: "writes w bs \<Longrightarrow> writtenBytes w = bs"
  by (simp add: writtenBytes_def writes_def held_def)

section \<open>The bytes of a transaction\<close>

definition inputBytes :: "tx_input \<Rightarrow> bytes" where
  "inputBytes input =
     UInt256Set (ti_txHash input) @ UInt32SetLE (ti_index input) @ varIntBytes (of_nat (length (held (ti_signature input)))) @
     held (ti_signature input) @ (if ti_amount input \<noteq> 0 then UInt64SetLE (ti_amount input) else []) @
     UInt32SetLE (ti_sequence input)"

definition outputBytes :: "tx_output \<Rightarrow> bytes" where
  "outputBytes output =
     UInt64SetLE (to_amount output) @ varIntBytes (of_nat (length (held (to_script output)))) @ held (to_script output)"

definition witnessBytes :: "tx_input \<Rightarrow> bytes" where
  "witnessBytes input = varIntBytes (of_nat (witnessCount (held (ti_witness input)))) @ held (ti_witness input)"

definition hasWitness :: "transaction \<Rightarrow> bool" where
  "hasWitness tx \<longleftrightarrow> (\<exists>i\<in>set (tx_inputs tx). held (ti_witness i) \<noteq> [])"

text \<open>What follows the version (and the witness marker), up to the witnesses.\<close>

definition txBody :: "transaction \<Rightarrow> bytes" where
  "txBody tx =
     varIntBytes (of_nat (length (tx_inputs tx))) @
     concat (map (\<lambda>i. inputBytes (inputAsWritten None 1 0 i)) (tx_inputs tx)) @
     varIntBytes (of_nat (length (tx_outputs tx))) @ concat (map outputBytes (tx_outputs tx))"

definition strippedBytes :: "transaction \<Rightarrow> bytes" where
  "strippedBytes tx = UInt32SetLE (tx_version tx) @ txBody tx @ UInt32SetLE (tx_lockTime tx)"

definition txBytes :: "transaction \<Rightarrow> bytes" where
  "txBytes tx =
     UInt32SetLE (tx_version tx) @ (if hasWitness tx then [0, 1] else []) @ txBody tx @
     (if hasWitness tx then concat (map witnessBytes (tx_inputs tx)) else []) @ UInt32SetLE (tx_lockTime tx)"

lemma writes_input [writing]: "writes (inputData input) (inputBytes input)"
proof -
  have "puts (\<lambda>st. put_field (UInt32SetLE (ti_sequence input))
      ((if ti_amount input \<noteq> 0 then put_field (UInt64SetLE (ti_amount input)) else (\<lambda>st. st))
      (put_field (held (ti_signature input)) (sub_call (sizeVar (length (held (ti_signature input))))
      (put_field (UInt32SetLE (ti_index input)) (put_field (UInt256Set (ti_txHash input)) st))))))
    (((((UInt256Set (ti_txHash input) @ UInt32SetLE (ti_index input)) @ varIntBytes (of_nat (length (held (ti_signature input))))) @
     held (ti_signature input)) @ (if ti_amount input \<noteq> 0 then UInt64SetLE (ti_amount input) else [])) @
     UInt32SetLE (ti_sequence input))"
    by (intro puts_then writing) (auto intro: writing)
  from writes_done[OF this] show ?thesis
    by (simp add: inputData_def[abs_def] inputBytes_def Let_def if_distribR cong: if_cong)
qed

lemma puts_output [writing]: "puts (putOutput out) (outputBytes out)"
proof -
  have "puts (\<lambda>st. put_field (held (to_script out)) (sub_call (sizeVar (length (held (to_script out)))) (put_field (UInt64SetLE (to_amount out)) st)))
     ((UInt64SetLE (to_amount out) @ varIntBytes (of_nat (length (held (to_script out))))) @ held (to_script out))"
    by (intro puts_then writing)
  then show ?thesis by (simp add: putOutput_def[abs_def] outputBytes_def Let_def)
qed

lemma writes_outputs [writing]: "writes (outputData tx None) (concat (map outputBytes (tx_outputs tx)))"
  using writes_done[OF puts_fold, of "tx_outputs tx" putOutput outputBytes] by (simp add: outputData_def[abs_def] puts_output)

lemma writes_output_at [writing]:
  "writes (outputData tx (Some i)) (concat (map outputBytes (take 1 (drop i (tx_outputs tx)))))"
  using writes_done[OF puts_fold, of "take 1 (drop i (tx_outputs tx))" putOutput outputBytes] by (simp add: outputData_def[abs_def] puts_output)

lemma puts_witness [writing]: "puts (putWitness i) (witnessBytes i)"
  unfolding putWitness_def witnessBytes_def by (intro puts_then writing)

lemma puts_inputs [writing]:
  "puts (putInputs index sh ins) (concat (map (\<lambda>(i, input). inputBytes (inputAsWritten index sh i input)) (enumerate 0 ins)))"
  using puts_fold[of "enumerate 0 ins" "\<lambda>(i, input). sub_call (inputData (inputAsWritten index sh i input))"
      "\<lambda>(i, input). inputBytes (inputAsWritten index sh i input)"]
  by (auto simp: putInputs_def[abs_def] split_def intro: puts_call writes_input)

lemma inputAsWritten_whole: "inputAsWritten None sh i input = inputAsWritten None 1 0 input"
  by (simp add: inputAsWritten_def)

lemma whole_inputs:
  "concat (map (\<lambda>(i, input). inputBytes (inputAsWritten None sh i input)) (enumerate 0 ins)) =
   concat (map (\<lambda>i. inputBytes (inputAsWritten None 1 0 i)) ins)"
proof -
  have "map (\<lambda>(i, input). inputBytes (inputAsWritten None sh i input)) (enumerate k ins) =
      map (\<lambda>i. inputBytes (inputAsWritten None 1 0 i)) ins" for k
    by (induction ins arbitrary: k) (auto simp: inputAsWritten_whole[of sh])
  then show ?thesis by simp
qed

lemma writes_transaction: "writes (BRTransactionSerialize tx) (txBytes tx)"
proof -
  let ?w = "list_ex (\<lambda>i. length (held (ti_witness i)) > 0) (tx_inputs tx)"
  let ?wits = "concat (map witnessBytes (tx_inputs tx))"
  have w: "?w \<longleftrightarrow> hasWitness tx" by (auto simp: hasWitness_def list_ex_iff)
  have a: "SIGHASH_ALL AND SIGHASH_FORKID = 0" "SIGHASH_ALL AND SIGHASH_ANYONECANPAY = 0" "SIGHASH_ALL AND 0x1f = 1"
    "(1::u32) \<noteq> SIGHASH_SINGLE" "(1::u32) \<noteq> SIGHASH_NONE"
    by (simp_all add: SIGHASH_ALL_def SIGHASH_FORKID_def SIGHASH_ANYONECANPAY_def SIGHASH_SINGLE_def SIGHASH_NONE_def)
  have "puts (\<lambda>st. put_field (UInt32SetLE (tx_lockTime tx))
      ((\<lambda>st. if ?w then foldl (\<lambda>st input. putWitness input st) st (tx_inputs tx) else st)
      (sub_call (outputData tx None) (sub_call (sizeVar (length (tx_outputs tx)))
      (putInputs None 1 (tx_inputs tx) (sub_call (sizeVar (length (tx_inputs tx)))
      ((\<lambda>st. if ?w then put_field [0, 1] st else st) (put_field (UInt32SetLE (tx_version tx)) st))))))))
    (((((((UInt32SetLE (tx_version tx) @ (if ?w then [0, 1] else [])) @ varIntBytes (of_nat (length (tx_inputs tx)))) @
      concat (map (\<lambda>(i, input). inputBytes (inputAsWritten None 1 i input)) (enumerate 0 (tx_inputs tx)))) @
      varIntBytes (of_nat (length (tx_outputs tx)))) @ concat (map outputBytes (tx_outputs tx))) @
      (if ?w then ?wits else [])) @ UInt32SetLE (tx_lockTime tx))"
    by (intro puts_then puts_if puts_fold writing)
  from writes_done[OF this] show ?thesis
    unfolding BRTransactionSerialize_def transactionData_def[abs_def] txBytes_def txBody_def whole_inputs w[symmetric]
    by (simp add: a Let_def cong: if_cong)
qed

section \<open>Reading at an offset\<close>

definition reads :: "bytes \<Rightarrow> nat \<Rightarrow> bytes \<Rightarrow> bool" where
  "reads buf off bs \<longleftrightarrow> off \<le> length buf \<and> take (length bs) (drop off buf) = bs"

lemma reads_append [simp]: "reads buf off (a @ b) \<longleftrightarrow> reads buf off a \<and> reads buf (off + length a) b"
proof
  assume r: "reads buf off (a @ b)"
  then have "drop off buf = (a @ b) @ drop (length (a @ b)) (drop off buf)"
    unfolding reads_def by (metis append_take_drop_id)
  then obtain rest where d: "drop off buf = a @ b @ rest" by simp
  then have "length buf - off = length a + length b + length rest" by (metis add.assoc length_append length_drop)
  moreover have "drop (off + length a) buf = b @ rest" using d by (metis append_eq_conv_conj drop_drop add.commute)
  ultimately show "reads buf off a \<and> reads buf (off + length a) b" using d r by (auto simp: reads_def)
next
  assume r: "reads buf off a \<and> reads buf (off + length a) b"
  then have "take (length b) (drop (length a) (drop off buf)) = b" by (simp add: reads_def add.commute)
  then show "reads buf off (a @ b)" using r unfolding reads_def by (simp add: take_add)
qed

lemma reads_len: "reads buf off bs \<Longrightarrow> off + length bs \<le> length buf"
  unfolding reads_def by (metis Nat.le_diff_conv2 add.commute length_drop length_take min.cobounded1)

lemma reads_drop:
  assumes "reads buf off bs"
  obtains rest where "drop off buf = bs @ rest" "length buf - off = length bs + length rest"
proof -
  have "drop off buf = bs @ drop (length bs) (drop off buf)" using assms unfolding reads_def by (metis append_take_drop_id)
  then show thesis using that by (metis length_append length_drop)
qed

lemma reads_take: "reads buf off bs \<Longrightarrow> take (length bs) (drop off buf) = bs"
  by (simp add: reads_def)

lemma reads_self: "reads (bs @ rest) 0 bs"
  by (simp add: reads_def)

lemma read_u32: "reads buf off (UInt32SetLE x) \<Longrightarrow> u32_at buf off = x"
  using reads_len[of buf off "UInt32SetLE x"] by (auto simp: u32_at_def elim: reads_drop)

lemma read_u64: "reads buf off (UInt64SetLE x) \<Longrightarrow> u64_at buf off = x"
  using reads_len[of buf off "UInt64SetLE x"] by (auto simp: u64_at_def elim: reads_drop)

lemma read_u256: "reads buf off (UInt256Set x) \<Longrightarrow> u256_at buf off = x"
  using reads_len[of buf off "UInt256Set x"] by (auto simp: u256_at_def elim: reads_drop)

lemma read_varInt: "reads buf off (varIntBytes n) \<Longrightarrow> BRVarInt (drop off buf) = (n, length (varIntBytes n))"
  by (auto elim!: reads_drop simp: BRVarInt_read length_varIntBytes)

lemmas reading = read_u32 read_u64 read_u256 read_varInt

lemma length_varInt_pos: "1 \<le> length (varIntBytes n)"
  by (simp add: varIntBytes_def)

section \<open>Inputs and outputs read back\<close>

definition wireInput :: "bool \<Rightarrow> tx_input \<Rightarrow> tx_input" where
  "wireInput testnet i =
     i\<lparr>ti_address := snd (BRAddressFromScriptSig testnet (Some 76) (held (ti_signature i))), ti_amount := 0, ti_script := None\<rparr>"

definition wireOutput :: "bool \<Rightarrow> tx_output \<Rightarrow> tx_output" where
  "wireOutput testnet out =
     out\<lparr>to_address := addressOfScript testnet (held (to_script out)), to_script := Some (held (to_script out))\<rparr>"

abbreviation "written_input \<equiv> inputAsWritten None 1 0"

lemma written_signed: "ti_signature i \<noteq> None \<Longrightarrow> written_input i = i\<lparr>ti_amount := 0\<rparr>"
  by (auto simp: inputAsWritten_def)

lemma parse_input:
  assumes r: "reads buf off (inputBytes (written_input i))" and s: "ti_signature i \<noteq> None" and b: "length buf < 2 ^ 64"
  shows "parseInput testnet False flag buf off =
    Some ((wireInput testnet i)\<lparr>ti_witness := if flag then None else Some []\<rparr>, off + length (inputBytes (written_input i)), True)"
proof -
  obtain sig where sig: "ti_signature i = Some sig" using s by auto
  let ?v = "varIntBytes (of_nat (length sig))"
  have parts: "reads buf off (UInt256Set (ti_txHash i))" "reads buf (off + 32) (UInt32SetLE (ti_index i))"
    "reads buf (off + 36) ?v" "reads buf (off + 36 + length ?v) sig"
    "reads buf (off + 36 + length ?v + length sig) (UInt32SetLE (ti_sequence i))"
    using r by (simp_all add: written_signed[OF s] inputBytes_def sig held_def add.assoc)
  have u: "unat (of_nat (length sig) :: u64) = length sig" using reads_len[OF parts(4)] b by (simp add: unat_of_nat)
  have len: "length (inputBytes (written_input i)) = 36 + length ?v + length sig + 4"
    by (simp add: written_signed[OF s] inputBytes_def sig held_def)
  have le: "length sig \<le> length buf - (off + 36 + length ?v)" using reads_len[OF parts(4)] by linarith
  have wi: "(wireInput testnet i)\<lparr>ti_witness := w\<rparr> = \<lparr>ti_txHash = ti_txHash i, ti_index = ti_index i,
      ti_address = snd (BRAddressFromScriptSig testnet (Some 76) sig), ti_amount = 0, ti_script = None, ti_signature = Some sig,
      ti_witness = w, ti_sequence = ti_sequence i\<rparr>" for w
    using sig by (cases i) (simp add: wireInput_def held_def)
  show ?thesis unfolding parseInput_def Let_def read_varInt[OF parts(3)] prod.case u len wi
    using reads_len[OF parts(4)] reads_take[OF parts(4)] le read_u32[OF parts(5)]
    by (simp add: read_u256[OF parts(1)] read_u32[OF parts(2)] zeroInput_def
        BRTxInputSetSignature_def Let_def BRTxInputSetWitness_def add.assoc)
qed

lemma parse_inputs:
  assumes "reads buf off (concat (map (\<lambda>i. inputBytes (written_input i)) ins))" "\<forall>i\<in>set ins. ti_signature i \<noteq> None"
    "length buf < 2 ^ 64"
  shows "parseInputs testnet False flag buf off (length ins) =
    Some (map (\<lambda>i. (wireInput testnet i)\<lparr>ti_witness := if flag then None else Some []\<rparr>) ins,
          off + length (concat (map (\<lambda>i. inputBytes (written_input i)) ins)), True)"
  using assms
proof (induction ins arbitrary: off)
  case (Cons i ins)
  then have r: "reads buf off (inputBytes (written_input i))"
    "reads buf (off + length (inputBytes (written_input i))) (concat (map (\<lambda>i. inputBytes (written_input i)) ins))" by auto
  have "off \<le> length buf" using r(1) by (simp add: reads_def)
  then show ?case using parse_input[OF r(1)] Cons.IH[OF r(2)] Cons.prems(2,3) by (simp add: add.assoc)
qed simp

lemma parse_output:
  assumes r: "reads buf off (outputBytes out)" and b: "length buf < 2 ^ 64"
  shows "parseOutput testnet buf off = Some (wireOutput testnet out, off + length (outputBytes out))"
proof -
  let ?s = "held (to_script out)"
  let ?v = "varIntBytes (of_nat (length ?s))"
  have parts: "reads buf off (UInt64SetLE (to_amount out))" "reads buf (off + 8) ?v" "reads buf (off + 8 + length ?v) ?s"
    using r by (simp_all add: outputBytes_def add.assoc)
  have u: "unat (of_nat (length ?s) :: u64) = length ?s" using reads_len[OF parts(3)] b by (simp add: unat_of_nat)
  have len: "length (outputBytes out) = 8 + length ?v + length ?s" by (simp add: outputBytes_def)
  show ?thesis unfolding parseOutput_def Let_def read_varInt[OF parts(2)] prod.case u len
    using reads_len[OF parts(3)] reads_take[OF parts(3)]
    by (simp add: reading parts(1) wireOutput_def zeroOutput_def BRTxOutputSetScript_def add.assoc)
qed

lemma parse_outputs:
  assumes "reads buf off (concat (map outputBytes outs))" "length buf < 2 ^ 64"
  shows "parseOutputs testnet buf off (length outs) = Some (map (wireOutput testnet) outs, off + length (concat (map outputBytes outs)))"
  using assms
proof (induction outs arbitrary: off)
  case (Cons out outs)
  then have r: "reads buf off (outputBytes out)" "reads buf (off + length (outputBytes out)) (concat (map outputBytes outs))" by auto
  have "off \<le> length buf" using r(1) by (simp add: reads_def)
  then show ?case using parse_output[OF r(1)] Cons.IH[OF r(2)] Cons.prems(2) by (simp add: add.assoc)
qed simp

section \<open>Witnesses read back\<close>

text \<open>A stack of items as it is stored: each with its length in front.\<close>

definition packItems :: "bytes list \<Rightarrow> bytes" where
  "packItems items = concat (map (\<lambda>x. varIntBytes (of_nat (length x)) @ x) items)"

lemma packItems_simps [simp]: "packItems [] = []" "packItems (x # xs) = varIntBytes (of_nat (length x)) @ x @ packItems xs"
  by (simp_all add: packItems_def)

lemma length_packItems: "length items \<le> length (packItems items)" "x \<in> set items \<Longrightarrow> length x \<le> length (packItems items)"
proof -
  show "length items \<le> length (packItems items)"
  proof (induction items)
    case (Cons x xs) then show ?case using length_varInt_pos[of "of_nat (length x)"] unfolding packItems_simps length_append list.size by linarith
  qed simp
  show "x \<in> set items \<Longrightarrow> length x \<le> length (packItems items)" by (induction items) auto
qed

lemma witnessCount_pack:
  assumes "length (packItems items) < 2 ^ 64"
  shows "witnessCount (packItems items) = length items"
  using assms
proof (induction items)
  case Nil show ?case by (simp add: witnessCount.simps)
next
  case (Cons x xs)
  then have u: "unat (of_nat (length x) :: u64) = length x" by (simp add: unat_of_nat)
  have "varIntBytes (of_nat (length x)) \<noteq> []" using length_varInt_pos[of "of_nat (length x)"] by auto
  then show ?case using Cons u
    by (subst witnessCount.simps) (simp add: BRVarInt_read length_varIntBytes[symmetric])
qed

lemma witnessLen_pack:
  assumes "reads buf (off + s) (packItems items)" "length buf < 2 ^ 64"
  shows "witnessLen buf off s (length items) = Some (s + length (packItems items))"
  using assms
proof (induction items arbitrary: s)
  case (Cons x xs)
  let ?v = "varIntBytes (of_nat (length x))"
  have r: "reads buf (off + s) ?v" "reads buf (off + s + length ?v) x" "reads buf (off + (s + length x + length ?v)) (packItems xs)"
    using Cons.prems(1) by (simp_all add: add_ac)
  have l: "off + s + length ?v + length x \<le> length buf" using reads_len[OF r(2)] by simp
  have u: "unat (of_nat (length x) :: u64) = length x" using l Cons.prems(2) by (simp add: unat_of_nat)
  have le: "length ?v \<le> length buf - (off + s)" "length x \<le> length buf - (off + s) - length ?v" using l by linarith+
  show ?case using Cons.IH[OF r(3) Cons.prems(2)] le
    by (simp add: read_varInt[OF r(1)] u Let_def add_ac)
qed simp

definition wf_witness :: "bytes \<Rightarrow> bool" where "wf_witness w \<longleftrightarrow> (\<exists>items. w = packItems items)"

lemma parse_witnesses:
  assumes "reads buf off (concat (map witnessBytes ins))" "length buf < 2 ^ 64" "\<forall>i\<in>set ins. ti_witness i \<noteq> None \<and> wf_witness (held (ti_witness i))"
  shows "parseWitnesses buf off (map (\<lambda>i. (f i)\<lparr>ti_witness := None\<rparr>) ins) =
    Some (map (\<lambda>i. (f i)\<lparr>ti_witness := ti_witness i\<rparr>) ins, off + length (concat (map witnessBytes ins)))"
  using assms
proof (induction ins arbitrary: off)
  case (Cons i ins)
  obtain items where it: "ti_witness i = Some (packItems items)" using Cons.prems(3) by (auto simp: wf_witness_def held_def)
  have h: "held (ti_witness i) = packItems items" by (simp add: it held_def)
  let ?w = "packItems items"
  let ?v = "varIntBytes (of_nat (witnessCount ?w))"
  have wb: "witnessBytes i = ?v @ ?w" by (simp add: witnessBytes_def h)
  have r: "reads buf off ?v" "reads buf (off + length ?v) ?w"
    "reads buf (off + length ?v + length ?w) (concat (map witnessBytes ins))"
    using Cons.prems(1) by (simp_all add: wb add.assoc)
  have l: "off + length ?v + length ?w \<le> length buf" using reads_len[OF r(2)] .
  have c: "witnessCount ?w = length items" using witnessCount_pack l Cons.prems(2) by simp
  have n: "length items \<le> length buf - (off + length ?v)" using length_packItems(1)[of items] l by linarith
  have u: "unat (of_nat (length items) :: u64) = length items" using n Cons.prems(2) by (simp add: unat_of_nat)
  have wl: "witnessLen buf (off + length ?v) 0 (length items) = Some (length ?w)"
    using witnessLen_pack[of buf "off + length ?v" 0 items] r(2) Cons.prems(2) by simp
  have le: "off \<le> length buf" using l by simp
  show ?case using Cons.IH[OF r(3) Cons.prems(2)] Cons.prems(3) le n l wl reads_take[OF r(2)] read_varInt[OF r(1)]
    by (simp add: c u Let_def BRTxInputSetWitness_def wb it add.assoc)
qed simp

section \<open>A signed transaction read back\<close>

text \<open>
  What travels: the scripts and amounts of the spent outputs do not, the addresses are derived again, and the two
  hashes are of the bytes without and with the witnesses.
\<close>

definition wireTx :: "bool \<Rightarrow> transaction \<Rightarrow> transaction" where
  "wireTx testnet tx = BRTransactionNew
     \<lparr>tx_version := tx_version tx, tx_inputs := map (wireInput testnet) (tx_inputs tx),
      tx_outputs := map (wireOutput testnet) (tx_outputs tx), tx_lockTime := tx_lockTime tx,
      tx_txHash := UInt256Get (BRSHA256_2 (strippedBytes tx)), tx_wtxHash := UInt256Get (BRSHA256_2 (txBytes tx))\<rparr>"

definition wf_signed :: "transaction \<Rightarrow> bool" where
  "wf_signed tx \<longleftrightarrow> BRTransactionIsSigned tx \<and> tx_inputs tx \<noteq> [] \<and> (\<forall>i\<in>set (tx_inputs tx). wf_witness (held (ti_witness i)))"

lemma sum_lengths: "(\<And>x. x \<in> set xs \<Longrightarrow> k \<le> length (f x)) \<Longrightarrow> k * length xs \<le> length (concat (map f xs))"
proof (induction xs)
  case (Cons x xs)
  then have "k \<le> length (f x)" "k * length xs \<le> length (concat (map f xs))" by auto
  then show ?case by simp
qed simp

lemma length_inputs: "41 * length ins \<le> length (concat (map (\<lambda>i. inputBytes (written_input i)) ins))"
  by (rule sum_lengths) (use length_varInt_pos in \<open>simp add: inputBytes_def, metis le_add1 add_leD1 trans_le_add1\<close>)

lemma length_outputs: "9 * length outs \<le> length (concat (map outputBytes outs))"
  by (rule sum_lengths) (use length_varInt_pos in \<open>simp add: outputBytes_def, metis le_add1 add_leD1 trans_le_add1\<close>)

lemma witness_unset: "i\<lparr>ti_witness := None\<rparr>\<lparr>ti_witness := w\<rparr> = i\<lparr>ti_witness := w\<rparr>"
  by simp

lemma wire_witness: "(wireInput testnet i)\<lparr>ti_witness := ti_witness i\<rparr> = wireInput testnet i"
  by (simp add: wireInput_def)

lemma unat_count: "n \<le> k \<Longrightarrow> k < 2 ^ 64 \<Longrightarrow> unat (of_nat n :: u64) = n"
  by (simp add: unat_of_nat)

lemma signed_fields:
  assumes "wf_signed tx" "i \<in> set (tx_inputs tx)"
  shows "ti_signature i \<noteq> None" "ti_witness i \<noteq> None" "wf_witness (held (ti_witness i))"
  using assms by (auto simp: wf_signed_def BRTransactionIsSigned_def list_all_iff)

text \<open>The inputs and the outputs behind the count, whether or not there are witnesses.\<close>

lemma read_body:
  assumes r: "reads buf off (txBody tx)" and b: "length buf < 2 ^ 64" and wf: "wf_signed tx"
  obtains k m where "BRVarInt (drop off buf) = (of_nat (length (tx_inputs tx)), k)"
    "unat (of_nat (length (tx_inputs tx)) :: u64) = length (tx_inputs tx)"
    "length (tx_inputs tx) \<le> (length buf - (off + k)) div 41"
    "\<forall>flag. parseInputs testnet False flag buf (off + k) (length (tx_inputs tx)) =
        Some (map (\<lambda>i. (wireInput testnet i)\<lparr>ti_witness := if flag then None else Some []\<rparr>) (tx_inputs tx), m, True)"
    "BRVarInt (drop m buf) = (of_nat (length (tx_outputs tx)), length (varIntBytes (of_nat (length (tx_outputs tx)))))"
    "unat (of_nat (length (tx_outputs tx)) :: u64) = length (tx_outputs tx)"
    "length (tx_outputs tx) \<le> (length buf - (m + length (varIntBytes (of_nat (length (tx_outputs tx)))))) div 9"
    "parseOutputs testnet buf (m + length (varIntBytes (of_nat (length (tx_outputs tx))))) (length (tx_outputs tx)) =
        Some (map (wireOutput testnet) (tx_outputs tx), off + length (txBody tx))"
proof -
  let ?ins = "tx_inputs tx" and ?outs = "tx_outputs tx"
  let ?vi = "varIntBytes (of_nat (length ?ins))" and ?vo = "varIntBytes (of_nat (length ?outs))"
  let ?I = "concat (map (\<lambda>i. inputBytes (written_input i)) ?ins)" and ?O = "concat (map outputBytes ?outs)"
  let ?k = "length ?vi" and ?m = "off + length ?vi + length ?I"
  have parts: "reads buf off ?vi" "reads buf (off + ?k) ?I" "reads buf ?m ?vo" "reads buf (?m + length ?vo) ?O"
    using r by (simp_all add: txBody_def add.assoc)
  have i: "41 * length ?ins \<le> length buf - (off + ?k)" using length_inputs[of ?ins] reads_len[OF parts(2)] by linarith
  have o: "9 * length ?outs \<le> length buf - (?m + length ?vo)" using length_outputs[of ?outs] reads_len[OF parts(4)] by linarith
  have end_eq: "?m + length ?vo + length ?O = off + length (txBody tx)" by (simp add: txBody_def)
  show thesis
  proof (rule that[of ?k ?m])
    show "BRVarInt (drop off buf) = (of_nat (length ?ins), ?k)" by (rule read_varInt[OF parts(1)])
    show "unat (of_nat (length ?ins) :: u64) = length ?ins" using i b by (intro unat_count[of _ "length buf"]) linarith+
    show "length ?ins \<le> (length buf - (off + ?k)) div 41" using div_le_mono[OF i, of 41] by simp
    show "\<forall>flag. parseInputs testnet False flag buf (off + ?k) (length ?ins) =
        Some (map (\<lambda>i. (wireInput testnet i)\<lparr>ti_witness := if flag then None else Some []\<rparr>) ?ins, ?m, True)"
      using parse_inputs[OF parts(2) _ b, where testnet = testnet] signed_fields(1)[OF wf] by simp
    show "BRVarInt (drop ?m buf) = (of_nat (length ?outs), length ?vo)" by (rule read_varInt[OF parts(3)])
    show "unat (of_nat (length ?outs) :: u64) = length ?outs" using o b by (intro unat_count[of _ "length buf"]) linarith+
    show "length ?outs \<le> (length buf - (?m + length ?vo)) div 9" using div_le_mono[OF o, of 9] by simp
    show "parseOutputs testnet buf (?m + length ?vo) (length ?outs) = Some (map (wireOutput testnet) ?outs, off + length (txBody tx))"
      using parse_outputs[OF parts(4) b, where testnet = testnet] unfolding end_eq .
  qed
qed

lemma in_count_nonzero: "wf_signed tx \<Longrightarrow> unat (of_nat (length (tx_inputs tx)) :: u64) = length (tx_inputs tx) \<Longrightarrow>
    (of_nat (length (tx_inputs tx)) :: u64) \<noteq> 0"
  by (metis length_0_conv unat_0 wf_signed_def)

lemma parse_plain:
  assumes wf: "wf_signed tx" and b: "length buf < 2 ^ 64" and w: "\<not> hasWitness tx" and r: "reads buf 0 (txBytes tx)"
  shows "BRTransactionParseSigned testnet buf = Some (wireTx testnet tx)"
proof -
  let ?e = "4 + length (txBody tx)"
  have bytes: "txBytes tx = UInt32SetLE (tx_version tx) @ txBody tx @ UInt32SetLE (tx_lockTime tx)" "strippedBytes tx = txBytes tx"
    using w by (simp_all add: txBytes_def strippedBytes_def)
  have parts: "reads buf 0 (UInt32SetLE (tx_version tx))" "reads buf 4 (txBody tx)" "reads buf ?e (UInt32SetLE (tx_lockTime tx))"
    using r by (simp_all add: bytes(1))
  obtain k m where body: "BRVarInt (drop 4 buf) = (of_nat (length (tx_inputs tx)), k)"
    "unat (of_nat (length (tx_inputs tx)) :: u64) = length (tx_inputs tx)"
    "length (tx_inputs tx) \<le> (length buf - (4 + k)) div 41"
    "\<forall>flag. parseInputs testnet False flag buf (4 + k) (length (tx_inputs tx)) =
        Some (map (\<lambda>i. (wireInput testnet i)\<lparr>ti_witness := if flag then None else Some []\<rparr>) (tx_inputs tx), m, True)"
    "BRVarInt (drop m buf) = (of_nat (length (tx_outputs tx)), length (varIntBytes (of_nat (length (tx_outputs tx)))))"
    "unat (of_nat (length (tx_outputs tx)) :: u64) = length (tx_outputs tx)"
    "length (tx_outputs tx) \<le> (length buf - (m + length (varIntBytes (of_nat (length (tx_outputs tx)))))) div 9"
    "parseOutputs testnet buf (m + length (varIntBytes (of_nat (length (tx_outputs tx))))) (length (tx_outputs tx)) =
        Some (map (wireOutput testnet) (tx_outputs tx), ?e)" by (rule read_body[OF parts(2) b wf])
  have ins: "map (\<lambda>i. (wireInput testnet i)\<lparr>ti_witness := Some []\<rparr>) (tx_inputs tx) = map (wireInput testnet) (tx_inputs tx)"
  proof (rule map_cong[OF refl])
    fix i assume i: "i \<in> set (tx_inputs tx)"
    then have "ti_witness i = Some []" using w signed_fields(2)[OF wf i] by (auto simp: hasWitness_def held_def)
    then show "(wireInput testnet i)\<lparr>ti_witness := Some []\<rparr> = wireInput testnet i" using wire_witness[of i testnet] by simp
  qed
  have len: "?e + 4 = length (txBytes tx)" "?e + 4 \<le> length buf" using reads_len[OF parts(3)] by (simp_all add: bytes(1))
  have t: "take (?e + 4) buf = txBytes tx" using reads_take[OF r] unfolding len(1) by simp
  have ne: "tx_inputs tx \<noteq> []" using wf by (simp add: wf_signed_def)
  show ?thesis unfolding BRTransactionParseSigned_def parseTx_def parseCounted_def Let_def
    using in_count_nonzero[OF wf body(2)] body(3,7) len(2) ne
    by (simp add: body(1,2,4,5,6,8) ins t[simplified] read_u32[OF parts(1)] read_u32[OF parts(3)] wireTx_def bytes(2) BRTransactionNew_def)
qed

lemma parse_segwit:
  assumes wf: "wf_signed tx" and b: "length buf < 2 ^ 64" and w: "hasWitness tx" and r: "reads buf 0 (txBytes tx)"
  shows "BRTransactionParseSigned testnet buf = Some (wireTx testnet tx)"
proof -
  let ?W = "concat (map witnessBytes (tx_inputs tx))"
  let ?w = "6 + length (txBody tx)" and ?e = "6 + length (txBody tx) + length ?W"
  have bytes: "txBytes tx = UInt32SetLE (tx_version tx) @ [0] @ [1] @ txBody tx @ ?W @ UInt32SetLE (tx_lockTime tx)"
    using w by (simp add: txBytes_def)
  have parts: "reads buf 0 (UInt32SetLE (tx_version tx))" "reads buf 4 [0]" "reads buf 5 [1]" "reads buf 6 (txBody tx)" "reads buf ?w ?W"
    "reads buf ?e (UInt32SetLE (tx_lockTime tx))"
    using r unfolding bytes reads_append by (simp_all add: add.assoc)
  have z: "BRVarInt (drop 4 buf) = (0, 1)" using read_varInt[of buf 4 0] parts(2) by (simp add: varIntBytes_def)
  have f: "buf ! 5 = 1" "5 < length buf" using parts(3) reads_len[OF parts(3)] by (auto elim!: reads_drop simp: nth_via_drop)
  obtain k m where body: "BRVarInt (drop 6 buf) = (of_nat (length (tx_inputs tx)), k)"
    "unat (of_nat (length (tx_inputs tx)) :: u64) = length (tx_inputs tx)"
    "length (tx_inputs tx) \<le> (length buf - (6 + k)) div 41"
    "\<forall>flag. parseInputs testnet False flag buf (6 + k) (length (tx_inputs tx)) =
        Some (map (\<lambda>i. (wireInput testnet i)\<lparr>ti_witness := if flag then None else Some []\<rparr>) (tx_inputs tx), m, True)"
    "BRVarInt (drop m buf) = (of_nat (length (tx_outputs tx)), length (varIntBytes (of_nat (length (tx_outputs tx)))))"
    "unat (of_nat (length (tx_outputs tx)) :: u64) = length (tx_outputs tx)"
    "length (tx_outputs tx) \<le> (length buf - (m + length (varIntBytes (of_nat (length (tx_outputs tx)))))) div 9"
    "parseOutputs testnet buf (m + length (varIntBytes (of_nat (length (tx_outputs tx))))) (length (tx_outputs tx)) =
        Some (map (wireOutput testnet) (tx_outputs tx), ?w)" by (rule read_body[OF parts(4) b wf])
  have wits: "parseWitnesses buf ?w (map (\<lambda>i. (wireInput testnet i)\<lparr>ti_witness := None\<rparr>) (tx_inputs tx)) =
      Some (map (wireInput testnet) (tx_inputs tx), ?e)"
    using parse_witnesses[OF parts(5) b, of "wireInput testnet"] signed_fields[OF wf] by (simp add: wire_witness)
  have len: "?e + 4 = length (txBytes tx)" "?e + 4 \<le> length buf" using reads_len[OF parts(6)] by (simp_all add: bytes)
  have t: "take (?e + 4) buf = txBytes tx" using reads_take[OF r] unfolding len(1) by simp
  have body_t: "take (length (txBody tx)) (drop 6 buf) = txBody tx" by (rule reads_take[OF parts(4)])
  have ne: "tx_inputs tx \<noteq> []" using wf by (simp add: wf_signed_def)
  show ?thesis unfolding BRTransactionParseSigned_def parseTx_def parseCounted_def Let_def
    using body(3,7) len(2) ne
    by (simp add: z f body(1,2,4,5,6,8) wits t[simplified] body_t read_u32[OF parts(1)] read_u32[OF parts(6)] wireTx_def
        strippedBytes_def BRTransactionNew_def)
qed

lemma parse_txBytes:
  "wf_signed tx \<Longrightarrow> length (txBytes tx @ rest) < 2 ^ 64 \<Longrightarrow>
   BRTransactionParseSigned testnet (txBytes tx @ rest) = Some (wireTx testnet tx)"
  using parse_plain parse_segwit reads_self by blast

section \<open>Sizes\<close>

lemma serialize_length: "snd (BRTransactionSerialize tx None) = length (txBytes tx)"
  using writes_transaction by (simp add: writes_def)

lemma input_sizes_signed:
  "ti_signature i \<noteq> None \<Longrightarrow> ti_witness i \<noteq> None \<Longrightarrow>
   inputSizes i = (length (inputBytes (written_input i)), length (held (ti_witness i)))"
  by (auto simp: inputSizes_def written_signed inputBytes_def length_varIntBytes held_def)

lemma base_size_signed:
  assumes "BRTransactionIsSigned tx"
  shows "baseSize tx = length (strippedBytes tx)"
proof -
  have "sum_list (map (fst \<circ> inputSizes) (tx_inputs tx)) = sum_list (map (\<lambda>i. length (inputBytes (written_input i))) (tx_inputs tx))"
    by (rule arg_cong[where f = sum_list], rule map_cong[OF refl])
      (use assms in \<open>auto simp: BRTransactionIsSigned_def list_all_iff input_sizes_signed\<close>)
  moreover have "(\<lambda>out. 8 + BRVarIntSize (of_nat (length (held (to_script out)))) + length (held (to_script out))) = length \<circ> outputBytes"
    by (auto simp: outputBytes_def length_varIntBytes)
  ultimately show ?thesis
    by (simp add: baseSize_def strippedBytes_def txBody_def length_varIntBytes length_concat comp_def)
qed

lemma witness_byte_sum:
  "\<forall>i\<in>set ins. witnessCount (held (ti_witness i)) < 253 \<Longrightarrow>
   length (concat (map witnessBytes ins)) = length ins + sum_list (map (\<lambda>i. length (held (ti_witness i))) ins)"
  by (induction ins) (auto simp: witnessBytes_def length_varIntBytes BRVarIntSize_small)

lemma witness_size_signed:
  assumes s: "BRTransactionIsSigned tx" and c: "\<forall>i\<in>set (tx_inputs tx). witnessCount (held (ti_witness i)) < 253"
  shows "length (txBytes tx) = length (strippedBytes tx) + witnessSize tx"
proof -
  let ?ins = "tx_inputs tx"
  have sum: "sum_list (map (snd \<circ> inputSizes) ?ins) = sum_list (map (\<lambda>i. length (held (ti_witness i))) ?ins)"
    by (rule arg_cong[where f = sum_list], rule map_cong[OF refl])
      (use s in \<open>auto simp: BRTransactionIsSigned_def list_all_iff input_sizes_signed\<close>)
  have wits: "length (concat (map witnessBytes ?ins)) = length ?ins + sum_list (map (\<lambda>i. length (held (ti_witness i))) ?ins)"
    by (rule witness_byte_sum[OF c])
  have pos: "0 < sum_list (map (\<lambda>i. length (held (ti_witness i))) ?ins) \<longleftrightarrow> hasWitness tx"
    by (auto simp: hasWitness_def sum_list_eq_0_iff zero_less_iff_neq_zero)
  show ?thesis using wits pos by (auto simp: txBytes_def strippedBytes_def witnessSize_def Let_def sum hasWitness_def)
qed

section \<open>What a parsed transaction can hold\<close>

text \<open>The bytes of the message an input and an output account for.\<close>

definition inputHolds :: "tx_input \<Rightarrow> nat" where
  "inputHolds i = 41 + length (held (ti_script i)) + length (held (ti_signature i))"

definition outputHolds :: "tx_output \<Rightarrow> nat" where
  "outputHolds out = 9 + length (held (to_script out))"

lemma varInt_len_pos: "1 \<le> snd (BRVarInt w)"
  by (simp add: BRVarInt_def Let_def)

lemma parseInput_holds:
  assumes "parseInput testnet u flag buf off = Some (i, off', s)"
  shows "ti_witness i = (if flag then None else Some [])" "off + 41 \<le> off'" "off' \<le> length buf \<Longrightarrow> off + inputHolds i \<le> off'"
proof -
  obtain n l where v: "BRVarInt (drop (off + 36) buf) = (n, l)" by fastforce
  then have l: "1 \<le> l" using varInt_len_pos[of "drop (off + 36) buf"] by simp
  show "ti_witness i = (if flag then None else Some [])" "off + 41 \<le> off'" "off' \<le> length buf \<Longrightarrow> off + inputHolds i \<le> off'"
    using assms l by (auto simp: parseInput_def Let_def v zeroInput_def BRTxInputSetScript_def BRTxInputSetSignature_def
        BRTxInputSetWitness_def inputHolds_def held_def split: if_splits)
qed

lemma parseInputs_holds:
  "parseInputs testnet u flag buf off k = Some (ins, off', s) \<Longrightarrow>
   length ins = k \<and> off \<le> off' \<and> (\<forall>i\<in>set ins. length (held (ti_witness i)) = 0) \<and>
   (off' \<le> length buf \<longrightarrow> off + sum_list (map inputHolds ins) \<le> off')"
proof (induction k arbitrary: off ins s)
  case (Suc k)
  show ?case
  proof (cases "off > length buf")
    case True
    then show ?thesis using Suc.prems by (auto simp: zeroInput_def held_def)
  next
    case False
    then obtain i o1 s1 ins1 s2 where st: "parseInput testnet u flag buf off = Some (i, o1, s1)"
      "parseInputs testnet u flag buf o1 k = Some (ins1, off', s2)" "ins = i # ins1"
      using Suc.prems by (clarsimp split: option.splits)
    have "ti_witness i = (if flag then None else Some [])" "off + 41 \<le> o1" "o1 \<le> length buf \<Longrightarrow> off + inputHolds i \<le> o1"
      using parseInput_holds[OF st(1)] by auto
    then show ?thesis using Suc.IH[OF st(2)] st(3) by (auto simp: held_def)
  qed
qed simp

lemma parseOutputs_holds:
  "parseOutputs testnet buf off k = Some (outs, off') \<Longrightarrow>
   off \<le> off' \<and> (off' \<le> length buf \<longrightarrow> off + sum_list (map outputHolds outs) \<le> off')"
proof (induction k arbitrary: off outs)
  case (Suc k)
  show ?case
  proof (cases "off > length buf")
    case True
    then show ?thesis using Suc.prems by auto
  next
    case False
    then obtain out o1 outs1 where st: "parseOutput testnet buf off = Some (out, o1)"
      "parseOutputs testnet buf o1 k = Some (outs1, off')" "outs = out # outs1"
      using Suc.prems by (auto split: option.splits)
    obtain n l where v: "BRVarInt (drop (off + 8) buf) = (n, l)" by fastforce
    then have l: "1 \<le> l" using varInt_len_pos[of "drop (off + 8) buf"] by simp
    have "off \<le> o1" "o1 \<le> length buf \<Longrightarrow> off + outputHolds out \<le> o1"
      using st(1) l by (auto simp: parseOutput_def Let_def v zeroOutput_def BRTxOutputSetScript_def outputHolds_def held_def split: if_splits)
    then show ?thesis using Suc.IH[OF st(2)] st(3) by auto
  qed
qed simp

lemma witnessLen_grows: "witnessLen buf off s k = Some s' \<Longrightarrow> s \<le> s'"
  by (induction k arbitrary: s) (fastforce simp: Let_def split: prod.splits if_splits)+

lemma parseWitnesses_holds:
  "parseWitnesses buf off ins = Some (ins', off') \<Longrightarrow> \<forall>i\<in>set ins. length (held (ti_witness i)) = 0 \<Longrightarrow>
   length ins' = length ins \<and> off \<le> off' \<and> map inputHolds ins' = map inputHolds ins \<and>
   (off' \<le> length buf \<longrightarrow> off + sum_list (map (\<lambda>i. length (held (ti_witness i))) ins') \<le> off')"
proof (induction ins arbitrary: off ins')
  case (Cons i ins)
  show ?case
  proof (cases "off > length buf")
    case True
    then show ?thesis using Cons.prems by auto
  next
    case False
    obtain n l where v: "BRVarInt (drop off buf) = (n, l)" by fastforce
    with False Cons.prems obtain sLen ins1 where st: "witnessLen buf (off + l) 0 (unat n) = Some sLen"
      "parseWitnesses buf (off + l + sLen) ins = Some (ins1, off')"
      "ins' = (if off + l + sLen \<le> length buf then BRTxInputSetWitness i (Some (take sLen (drop (off + l) buf))) else i) # ins1"
      by (auto simp: Let_def split: if_splits option.splits)
    show ?thesis using Cons.IH[OF st(2)] Cons.prems(2) unfolding st(3)
      by (auto simp: BRTxInputSetWitness_def inputHolds_def held_def)
  qed
qed simp

lemma parseCounted_holds:
  assumes "parseCounted testnet u buf v flag off n = Some tx"
  shows "tx_inputs tx \<noteq> [] \<and> off + 5 + sum_list (map inputHolds (tx_inputs tx)) + sum_list (map outputHolds (tx_outputs tx)) +
    sum_list (map (\<lambda>i. length (held (ti_witness i))) (tx_inputs tx)) \<le> length buf"
proof -
  from assms obtain ins o1 s where i: "parseInputs testnet u flag buf off (unat n) = Some (ins, o1, s)"
    by (auto simp: parseCounted_def split: if_splits option.splits)
  obtain n2 l where vi: "BRVarInt (drop o1 buf) = (n2, l)" by fastforce
  from assms i vi obtain outs o2 where out: "parseOutputs testnet buf (o1 + l) (unat n2) = Some (outs, o2)"
    by (auto simp: parseCounted_def Let_def split: if_splits option.splits)
  obtain ins' o3 where w: "(if flag then parseWitnesses buf o2 ins else Some (ins, o2)) = Some (ins', o3)"
    using assms i vi out by (cases "if flag then parseWitnesses buf o2 ins else Some (ins, o2)") (auto simp: parseCounted_def Let_def split: if_splits)
  have tx: "tx_inputs tx = ins'" "tx_outputs tx = outs" "ins' \<noteq> []" "o3 + 4 \<le> length buf"
    using assms by (auto simp: parseCounted_def i vi out w Let_def BRTransactionNew_def simp del: parseWitnesses.simps split: if_splits)
  have l: "1 \<le> l" using varInt_len_pos[of "drop o1 buf"] by (simp add: vi)
  have hi: "off \<le> o1" "\<forall>i\<in>set ins. length (held (ti_witness i)) = 0" "o1 \<le> length buf \<Longrightarrow> off + sum_list (map inputHolds ins) \<le> o1"
    using parseInputs_holds[OF i] by auto
  have ho: "o1 + l \<le> o2" "o2 \<le> length buf \<Longrightarrow> o1 + l + sum_list (map outputHolds outs) \<le> o2"
    using parseOutputs_holds[OF out] by auto
  have hw: "o2 \<le> o3" "map inputHolds ins' = map inputHolds ins"
    "o3 \<le> length buf \<Longrightarrow> o2 + sum_list (map (\<lambda>i. length (held (ti_witness i))) ins') \<le> o3"
  proof -
    have "o2 \<le> o3 \<and> map inputHolds ins' = map inputHolds ins \<and>
      (o3 \<le> length buf \<longrightarrow> o2 + sum_list (map (\<lambda>i. length (held (ti_witness i))) ins') \<le> o3)"
    proof (cases flag)
      case True
      then show ?thesis using w parseWitnesses_holds[of buf o2 ins ins' o3] hi(2) by simp
    next
      case False
      then have "sum_list (map (\<lambda>i. length (held (ti_witness i))) ins) = 0" using hi(2) by (simp add: sum_list_eq_0_iff)
      then show ?thesis using w False by simp
    qed
    then show "o2 \<le> o3" "map inputHolds ins' = map inputHolds ins"
      "o3 \<le> length buf \<Longrightarrow> o2 + sum_list (map (\<lambda>i. length (held (ti_witness i))) ins') \<le> o3" by auto
  qed
  show ?thesis unfolding tx hw(2) using tx(3,4) l hi ho hw(1,3) by auto
qed

lemma parse_holds:
  assumes "parseTx testnet u buf = Some tx"
  shows "tx_inputs tx \<noteq> [] \<and> 10 + sum_list (map inputHolds (tx_inputs tx)) + sum_list (map outputHolds (tx_outputs tx)) +
    sum_list (map (\<lambda>i. length (held (ti_witness i))) (tx_inputs tx)) \<le> length buf"
proof -
  obtain n0 l0 where v0: "BRVarInt (drop 4 buf) = (n0, l0)" by fastforce
  then have l0: "1 \<le> l0" using varInt_len_pos[of "drop 4 buf"] by simp
  from assms obtain v flag off n where p: "parseCounted testnet u buf v flag off n = Some tx" "5 \<le> off"
    using l0 by (force simp: parseTx_def v0 Let_def split: prod.splits if_splits)
  then show ?thesis using parseCounted_holds[OF p(1)] by auto
qed

section \<open>The transaction's properties\<close>

text \<open>C3. A signed transaction with at least one input, whose witnesses are stacks of length-prefixed items,
  is written into any buffer of the size \<open>BRTransactionSerialize\<close> asks for, and the parser of the network format,
  given that buffer with anything after it, returns the transaction again: version, outpoints, signatures,
  witnesses, sequences, amounts and scripts of the outputs and lock time; the transaction id is the double hash
  of the bytes without the witnesses, and the witness id of all of them.\<close>

theorem signed_transaction_roundtrip:
  assumes "wf_signed tx" "length d = snd (BRTransactionSerialize tx None)" "length (d @ rest) < 2 ^ 64"
  shows "\<exists>b. BRTransactionSerialize tx (Some d) = (Some b, length d) \<and> length b = length d \<and>
             BRTransactionParseSigned testnet (b @ rest) = Some (wireTx testnet tx)"
proof (intro exI conjI)
  have len: "length d = length (txBytes tx)" using assms(2) by (simp add: serialize_length)
  show "BRTransactionSerialize tx (Some d) = (Some (txBytes tx), length d)" using writes_transaction[of tx] len by (simp add: writes_def)
  show "length (txBytes tx) = length d" using len by simp
  show "BRTransactionParseSigned testnet (txBytes tx @ rest) = Some (wireTx testnet tx)"
    using parse_txBytes[OF assms(1), of rest testnet] assms(3) len by simp
qed

definition demo_tx :: transaction where
  "demo_tx = BRTransactionNew\<lparr>
     tx_inputs := [zeroInput\<lparr>ti_txHash := 7, ti_index := 1, ti_amount := 5000, ti_script := Some [0x51, 1, 9], ti_signature := Some [],
                     ti_witness := Some [2, 10, 11, 1, 12], ti_sequence := - 1\<rparr>],
     tx_outputs := [zeroOutput\<lparr>to_amount := 4000, to_script := Some [0x6a]\<rparr>]\<rparr>"

lemma demo_fields:
  "tx_inputs demo_tx = [zeroInput\<lparr>ti_txHash := 7, ti_index := 1, ti_amount := 5000, ti_script := Some [0x51, 1, 9],
     ti_signature := Some [], ti_witness := Some [2, 10, 11, 1, 12], ti_sequence := - 1\<rparr>]"
  "tx_outputs demo_tx = [zeroOutput\<lparr>to_amount := 4000, to_script := Some [0x6a]\<rparr>]"
  by (simp_all add: demo_tx_def)

lemma demo_stack: "[2, 10, 11, 1, 12] = packItems [[10, 11], [12 :: u8]]"
  by (simp add: varIntBytes_def)

lemma demo_wf: "wf_signed demo_tx"
proof -
  have "wf_witness [2, 10, 11, 1, 12]" unfolding wf_witness_def using demo_stack by blast
  then show ?thesis by (simp add: wf_signed_def demo_fields BRTransactionIsSigned_def held_def)
qed

lemma demo_items: "witnessCount [2, 10, 11, 1, 12] = 2"
  unfolding demo_stack by (subst witnessCount_pack) (simp_all add: varIntBytes_def)

lemma demo_length: "length (txBytes demo_tx) = 69"
  by (simp add: txBytes_def txBody_def hasWitness_def demo_fields held_def written_signed inputBytes_def outputBytes_def
      witnessBytes_def demo_items varIntBytes_def zeroInput_def zeroOutput_def)

lemma signed_transaction_roundtrip_witness:
  "\<exists>b. BRTransactionSerialize demo_tx (Some (replicate 69 0)) = (Some b, 69) \<and> length b = 69 \<and>
       BRTransactionParseSigned False (b @ [1, 2, 3]) = Some (wireTx False demo_tx)"
  using signed_transaction_roundtrip[OF demo_wf, of "replicate 69 0" "[1, 2, 3]" False]
  by (simp add: serialize_length demo_length)

text \<open>C16. For a signed transaction with fewer than 253 items in each witness, the size that fees are computed from
  is the number of bytes the transaction has on the wire, and the virtual size is a quarter of three times the
  bytes without witnesses plus all bytes, rounded up, as BIP-141 defines it.\<close>

theorem size_is_the_wire_size:
  assumes "BRTransactionIsSigned tx" "\<forall>i\<in>set (tx_inputs tx). witnessCount (held (ti_witness i)) < 253"
  shows "BRTransactionSize tx = snd (BRTransactionSerialize tx None) \<and>
    BRTransactionVSize tx = (3 * length (strippedBytes tx) + snd (BRTransactionSerialize tx None) + 3) div 4"
  using base_size_signed[OF assms(1)] witness_size_signed[OF assms]
  by (simp_all add: BRTransactionSize_def BRTransactionVSize_def serialize_length algebra_simps)

lemma size_is_the_wire_size_witness: "BRTransactionSize demo_tx = 69"
proof -
  have "BRTransactionIsSigned demo_tx" using demo_wf by (simp add: wf_signed_def)
  moreover have "\<forall>i\<in>set (tx_inputs demo_tx). witnessCount (held (ti_witness i)) < 253" by (simp add: demo_fields held_def demo_items)
  ultimately have "BRTransactionSize demo_tx = snd (BRTransactionSerialize demo_tx None)"
    using size_is_the_wire_size by blast
  then show ?thesis by (simp add: serialize_length demo_length)
qed

text \<open>C13. Whatever bytes are parsed, hostile ones included and in either mode, an accepted transaction has an
  input, and what it holds was in the message: 41 bytes and its script, signature and witness for each input, 9 bytes
  and its script for each output, and 10 bytes besides.  So no declared count or length makes the parser
  keep, or allocate for what it keeps, more than the message carried.\<close>

theorem parsed_transaction_fits_the_message:
  assumes "BRTransactionParse testnet buf = Some tx \<or> BRTransactionParseSigned testnet buf = Some tx"
  shows "tx_inputs tx \<noteq> [] \<and>
    10 + sum_list (map inputHolds (tx_inputs tx)) + sum_list (map outputHolds (tx_outputs tx)) +
      sum_list (map (\<lambda>i. length (held (ti_witness i))) (tx_inputs tx)) \<le> length buf"
  using assms parse_holds unfolding BRTransactionParse_def BRTransactionParseSigned_def by blast

lemma parsed_transaction_fits_the_message_witness:
  "\<exists>tx. BRTransactionParseSigned False (txBytes demo_tx) = Some tx \<and> tx_inputs tx \<noteq> [] \<and>
     10 + sum_list (map inputHolds (tx_inputs tx)) + sum_list (map outputHolds (tx_outputs tx)) +
      sum_list (map (\<lambda>i. length (held (ti_witness i))) (tx_inputs tx)) \<le> length (txBytes demo_tx)"
proof -
  have "BRTransactionParseSigned False (txBytes demo_tx) = Some (wireTx False demo_tx)"
    using parse_txBytes[OF demo_wf, of "[]" False] by (simp add: demo_length)
  then show ?thesis using parsed_transaction_fits_the_message[of False "txBytes demo_tx"] by blast
qed

end
