(* ===== verification/TransactionMessages.thy ===== *)
theory TransactionMessages
  imports TransactionWire
begin

text \<open>
  Two limits of the serialized form of a transaction, and what the message of a taproot signature commits to
  (\<open>_BRTransactionTaprootSighash\<close> of \<open>src/BRTransaction.c\<close>).
\<close>

section \<open>Limits of the serialized form\<close>

lemma puts_apply: "puts f bs \<Longrightarrow> length bs \<le> length q \<Longrightarrow> length p = n \<Longrightarrow>
    f (Some (p @ q), n) = (Some (p @ bs @ drop (length bs) q), n + length bs)"
  by (auto simp: puts_def)

lemma put_past: "length d < off + length bs \<Longrightarrow> put_field bs (Some d, off) = (Some d, off + length bs)"
  by (simp add: put_field_def)

lemma size_past: "length d < off \<Longrightarrow> sub_call (sizeVar n) (Some d, off) = (Some d, off)"
proof -
  have "0 < BRVarIntSize (of_nat n)" by (simp add: BRVarIntSize_def BRVarIntSet_def)
  then show "length d < off \<Longrightarrow> sub_call (sizeVar n) (Some d, off) = (Some d, off)"
    by (simp add: sub_call_def sizeVar_def varIntSet_def held_def)
qed

lemma input_does_not_fit: "length d < 32 \<Longrightarrow> inputData input (Some d) = (Some d, 0)"
  by (simp add: inputData_def Let_def put_past size_past written_def held_def)

lemma call_that_does_not_fit: "length d < 32 + off \<Longrightarrow> sub_call (inputData input) (Some d, off) = (Some d, off)"
  by (cases "off \<le> length d") (simp_all add: sub_call_def input_does_not_fit held_def)

text \<open>C39. A buffer that is too small is not always refused: a nested writer that does not fit returns zero and is
  skipped, so serializing a transaction of 69 bytes into 30 reports 28 bytes written, which are the transaction
  without its input.\<close>

theorem short_buffer_skips_the_input:
  "snd (BRTransactionSerialize demo_tx None) = 69 \<and>
   BRTransactionSerialize demo_tx (Some (replicate 30 0)) =
     (Some ([1, 0, 0, 0] @ [0, 1] @ [1] @ [1] @ outputBytes (zeroOutput\<lparr>to_amount := 4000, to_script := Some [0x6a]\<rparr>) @
            [2, 2, 10, 11, 1, 12] @ [0, 0, 0, 0] @ [0, 0]), 28)"
proof -
  let ?out = "zeroOutput\<lparr>to_amount := 4000, to_script := Some [0x6a]\<rparr>"
  let ?i = "zeroInput\<lparr>ti_txHash := 7, ti_index := 1, ti_amount := 5000, ti_script := Some [0x51, 1, 9], ti_signature := Some [],
     ti_witness := Some [2, 10, 11, 1, 12], ti_sequence := - 1\<rparr>"
  have le: "UInt32SetLE 0 = [0, 0, 0, 0]" "UInt32SetLE 1 = [1, 0, 0, 0]" by (simp_all add: UInt32SetLE_def put_le_def upt_rec)
  have a: "SIGHASH_ALL AND SIGHASH_FORKID = 0" "SIGHASH_ALL AND SIGHASH_ANYONECANPAY = 0" "SIGHASH_ALL AND 0x1f = 1"
    "(1::u32) \<noteq> SIGHASH_SINGLE" "(1::u32) \<noteq> SIGHASH_NONE"
    by (simp_all add: SIGHASH_ALL_def SIGHASH_FORKID_def SIGHASH_ANYONECANPAY_def SIGHASH_SINGLE_def SIGHASH_NONE_def)
  let ?head = "\<lambda>st. sub_call (sizeVar 1) (put_field [0, 1] (put_field [1, 0, 0, 0] st))"
  let ?tail = "\<lambda>st. put_field [0, 0, 0, 0] (putWitness ?i (sub_call (outputData demo_tx None) (sub_call (sizeVar 1) st)))"
  have v1: "varIntBytes (of_nat 1) = [1]" "varIntBytes 1 = [1]" by (simp_all add: varIntBytes_def)
  have ph: "puts ?head (([1, 0, 0, 0] @ [0, 1]) @ varIntBytes (of_nat 1))" by (intro puts_then writing)
  have h: "?head (Some (replicate 30 0), 0) = (Some ([1, 0, 0, 0, 0, 1, 1] @ replicate 23 0), 7)"
    using puts_apply[OF ph, of "replicate 30 0" "[]" 0] by (simp add: v1)
  have ob: "length (outputBytes ?out) = 10" by (simp add: outputBytes_def held_def varIntBytes_def zeroOutput_def)
  have wb: "witnessBytes ?i = [2, 2, 10, 11, 1, 12]" by (simp add: witnessBytes_def held_def demo_items varIntBytes_def)
  have pt: "puts ?tail (((varIntBytes (of_nat 1) @ concat (map outputBytes (tx_outputs demo_tx))) @ witnessBytes ?i) @ [0, 0, 0, 0])"
    by (intro puts_then writing)
  have t: "?tail (Some ([1, 0, 0, 0, 0, 1, 1] @ replicate 23 0), 7) =
      (Some ([1, 0, 0, 0, 0, 1, 1] @ [1] @ outputBytes ?out @ [2, 2, 10, 11, 1, 12] @ [0, 0, 0, 0] @ [0, 0]), 28)"
    using puts_apply[OF pt, of "replicate 23 0" "[1, 0, 0, 0, 0, 1, 1]" 7]
    by (simp add: v1 demo_fields ob wb numeral_eq_Suc)
  have skip: "sub_call (inputData x) (Some ([1, 0, 0, 0, 0, 1, 1] @ replicate 23 0), 7) = (Some ([1, 0, 0, 0, 0, 1, 1] @ replicate 23 0), 7)" for x
    by (rule call_that_does_not_fit) simp
  have v: "tx_version demo_tx = 1" "tx_lockTime demo_tx = 0"
    by (simp_all add: demo_tx_def BRTransactionNew_def TX_VERSION_def TX_LOCKTIME_def)
  have "BRTransactionSerialize demo_tx (Some (replicate 30 0)) =
      written (?tail (sub_call (inputData (inputAsWritten None 1 0 ?i)) (?head (Some (replicate 30 0), 0))))"
    by (simp add: BRTransactionSerialize_def transactionData_def a Let_def demo_fields v le putInputs_def held_def)
  then show ?thesis unfolding h skip t by (simp add: written_def held_def ob serialize_length demo_length)
qed

text \<open>
  The internal form of an input that is not signed has the amount behind the script only when it is not zero; the parser
  always reads one.
\<close>

lemma unsigned_input_read:
  assumes s: "ti_signature i = None" "ti_script i = Some script" "fst (BRAddressFromScriptPubKey testnet None script) > 0"
    and r: "reads buf off (inputBytes (written_input i))" and b: "length buf < 2 ^ 64"
  shows "\<exists>i'. parseInput testnet True flag buf off =
    Some (i', off + length (inputBytes (written_input i)) + (if ti_amount i = 0 then 8 else 0), False)"
proof -
  let ?v = "varIntBytes (of_nat (length script))"
  have parts: "reads buf (off + 36) ?v" "reads buf (off + 36 + length ?v) script"
    using r s by (simp_all add: inputAsWritten_def inputBytes_def held_def add.assoc)
  have u: "unat (of_nat (length script) :: u64) = length script" using reads_len[OF parts(2)] b by (simp add: unat_of_nat)
  have le: "length script \<le> length buf - (off + 36 + length ?v)" using reads_len[OF parts(2)] by linarith
  have len: "length (inputBytes (written_input i)) = 36 + length ?v + length script + (if ti_amount i = 0 then 0 else 8) + 4"
    using s by (simp add: inputAsWritten_def inputBytes_def held_def)
  show ?thesis unfolding parseInput_def Let_def read_varInt[OF parts(1)] prod.case u len
    using reads_len[OF parts(2)] reads_take[OF parts(2)] le s(3) by (simp add: add.assoc)
qed

section \<open>What the taproot message commits to\<close>

definition clash :: "bytes \<Rightarrow> bytes \<Rightarrow> bool" where "clash a b \<longleftrightarrow> a \<noteq> b \<and> BRSHA256 a = BRSHA256 b"

definition spentInput :: "tx_input \<Rightarrow> u256 \<times> u32 \<times> u64 \<times> bytes \<times> u32" where
  "spentInput i = (ti_txHash i, ti_index i, ti_amount i, held (ti_script i), ti_sequence i)"

definition paidOutput :: "tx_output \<Rightarrow> u64 \<times> bytes" where "paidOutput out = (to_amount out, held (to_script out))"

lemma outputs_written: "writtenBytes (outputData tx None) = concat (map outputBytes (tx_outputs tx))"
  by (rule writtenBytes_eq[OF writes_outputs])

text \<open>Lists of self-delimiting fields.\<close>

lemma fields_inj:
  assumes "concat (map f xs) = concat (map f ys)" "\<And>x. f x \<noteq> []"
    "\<And>x y a b. x \<in> set xs \<Longrightarrow> y \<in> set ys \<Longrightarrow> f x @ a = f y @ b \<Longrightarrow> g x = g y \<and> a = b"
  shows "map g xs = map g ys"
  using assms(1,3)
proof (induction xs arbitrary: ys)
  case Nil
  then show ?case using assms(2) by (cases ys) auto
next
  case (Cons x xs)
  from Cons.prems(1) obtain y ys' where ys: "ys = y # ys'" using assms(2)[of x] by (cases ys) auto
  then have "g x = g y \<and> concat (map f xs) = concat (map f ys')" using Cons.prems(1) Cons.prems(2)[of x y] by simp
  moreover have "map g xs = map g ys'" if "concat (map f xs) = concat (map f ys')"
  proof (rule Cons.IH[OF that])
    fix u v a b assume "u \<in> set xs" "v \<in> set ys'" "f u @ a = f v @ b"
    then show "g u = g v \<and> a = b" using Cons.prems(2)[of u v a b] ys by simp
  qed
  ultimately show ?case using ys by simp
qed

lemma LE_inj: "UInt32SetLE a = UInt32SetLE b \<longleftrightarrow> a = b" "UInt64SetLE c = UInt64SetLE d \<longleftrightarrow> c = d"
  "UInt256Set e = UInt256Set f \<longleftrightarrow> e = f"
  by (metis UIntLE_get_set(2) append_Nil2, metis UIntLE_get_set(3) append_Nil2, metis UInt256_get_set(1) append_Nil2)

lemma script_field_inj:
  assumes "varIntBytes (of_nat (length s)) @ s @ a = varIntBytes (of_nat (length t)) @ t @ b" "length s < 2 ^ 64" "length t < 2 ^ 64"
  shows "s = t \<and> a = b"
proof -
  have "(of_nat (length s) :: u64, BRVarIntSize (of_nat (length s))) = (of_nat (length t), BRVarIntSize (of_nat (length t)))"
    using arg_cong[OF assms(1), of BRVarInt] by (simp add: BRVarInt_read)
  then have "unat (of_nat (length s) :: u64) = unat (of_nat (length t) :: u64)" by simp
  then have "length s = length t" using assms(2,3) by (simp add: unat_of_nat)
  then show ?thesis using assms(1) by simp
qed

lemma varIntBytes_nonempty [simp]: "varIntBytes n \<noteq> []"
  by (simp add: varIntBytes_def)

definition bounded_scripts :: "transaction \<Rightarrow> bool" where
  "bounded_scripts tx \<longleftrightarrow> (\<forall>i\<in>set (tx_inputs tx). length (held (ti_script i)) < 2 ^ 64) \<and>
     (\<forall>out\<in>set (tx_outputs tx). length (held (to_script out)) < 2 ^ 64)"

lemma input_lists_inj:
  assumes "bounded_scripts tx" "bounded_scripts tx'"
    and "prevoutsOf tx = prevoutsOf tx'" "amountsOf tx = amountsOf tx'" "scriptsOf tx = scriptsOf tx'" "sequencesOf tx = sequencesOf tx'"
  shows "map spentInput (tx_inputs tx) = map spentInput (tx_inputs tx')"
proof -
  have p: "map (\<lambda>i. (ti_txHash i, ti_index i)) (tx_inputs tx) = map (\<lambda>i. (ti_txHash i, ti_index i)) (tx_inputs tx')"
    using assms(3) unfolding prevoutsOf_def by (rule fields_inj) (auto simp: LE_inj dest: arg_cong[of _ _ length])
  have a: "map ti_amount (tx_inputs tx) = map ti_amount (tx_inputs tx')"
    using assms(4) unfolding amountsOf_def by (rule fields_inj) (auto simp: LE_inj dest: arg_cong[of _ _ length])
  have c: "map (\<lambda>i. held (ti_script i)) (tx_inputs tx) = map (\<lambda>i. held (ti_script i)) (tx_inputs tx')"
    using assms(5) unfolding scriptsOf_def
    by (rule fields_inj) (use assms(1,2) in \<open>auto simp: bounded_scripts_def dest!: script_field_inj\<close>)
  have q: "map ti_sequence (tx_inputs tx) = map ti_sequence (tx_inputs tx')"
    using assms(6) unfolding sequencesOf_def by (rule fields_inj) (auto simp: LE_inj dest: arg_cong[of _ _ length])
  have len: "length (tx_inputs tx) = length (tx_inputs tx')" using a by (metis length_map)
  show ?thesis
  proof (rule nth_equalityI)
    fix k assume "k < length (map spentInput (tx_inputs tx))"
    then have k: "k < length (tx_inputs tx)" "k < length (tx_inputs tx')" using len by simp_all
    show "map spentInput (tx_inputs tx) ! k = map spentInput (tx_inputs tx') ! k"
      using k arg_cong[OF p, of "\<lambda>l. l ! k"] arg_cong[OF a, of "\<lambda>l. l ! k"] arg_cong[OF c, of "\<lambda>l. l ! k"]
        arg_cong[OF q, of "\<lambda>l. l ! k"] by (simp add: spentInput_def)
  qed (simp add: len)
qed

lemma output_list_inj:
  assumes "bounded_scripts tx" "bounded_scripts tx'" "writtenBytes (outputData tx None) = writtenBytes (outputData tx' None)"
  shows "map paidOutput (tx_outputs tx) = map paidOutput (tx_outputs tx')"
  using assms(3) unfolding outputs_written
  by (rule fields_inj)
    (use assms(1,2) in \<open>auto simp: bounded_scripts_def outputBytes_def paidOutput_def LE_inj dest!: script_field_inj\<close>)

text \<open>C9. The message a taproot signature is over, 175 bytes long, determines everything of the spending that
  BIP-341 says it commits to: if the messages of two transactions are equal, they have the same hash type, version,
  lock time and input number, and the same outpoints, spent amounts, spent scripts and sequences, and the same amounts and
  scripts of the outputs, unless two of the five hashed lists, different as byte strings, have one SHA-256 hash.\<close>

theorem taproot_message_commits:
  assumes "taprootSighash tx i h = Some (msg, d)" "taprootSighash tx' i' h' = Some (msg, d')"
    and "bounded_scripts tx" "bounded_scripts tx'"
  shows "length msg = 175 \<and> h = h' \<and> tx_version tx = tx_version tx' \<and> tx_lockTime tx = tx_lockTime tx' \<and>
    (of_nat i :: u32) = of_nat i' \<and>
    (map spentInput (tx_inputs tx) = map spentInput (tx_inputs tx') \<and>
       map paidOutput (tx_outputs tx) = map paidOutput (tx_outputs tx') \<or>
     clash (prevoutsOf tx) (prevoutsOf tx') \<or> clash (amountsOf tx) (amountsOf tx') \<or> clash (scriptsOf tx) (scriptsOf tx') \<or>
     clash (sequencesOf tx) (sequencesOf tx') \<or>
     clash (writtenBytes (outputData tx None)) (writtenBytes (outputData tx' None)))"
proof -
  have m: "msg = [0x00, h] @ UInt32SetLE (tx_version tx) @ UInt32SetLE (tx_lockTime tx) @
        BRSHA256 (prevoutsOf tx) @ BRSHA256 (amountsOf tx) @ BRSHA256 (scriptsOf tx) @ BRSHA256 (sequencesOf tx) @
        BRSHA256 (writtenBytes (outputData tx None)) @ [0x00] @ UInt32SetLE (of_nat i)"
    using assms(1) by (auto simp: taprootSighash_def Let_def split: if_splits)
  have m': "msg = [0x00, h'] @ UInt32SetLE (tx_version tx') @ UInt32SetLE (tx_lockTime tx') @
        BRSHA256 (prevoutsOf tx') @ BRSHA256 (amountsOf tx') @ BRSHA256 (scriptsOf tx') @ BRSHA256 (sequencesOf tx') @
        BRSHA256 (writtenBytes (outputData tx' None)) @ [0x00] @ UInt32SetLE (of_nat i')"
    using assms(2) by (auto simp: taprootSighash_def Let_def split: if_splits)
  have "length msg = 175" by (simp add: m)
  moreover have "h = h' \<and> tx_version tx = tx_version tx' \<and> tx_lockTime tx = tx_lockTime tx' \<and> (of_nat i :: u32) = of_nat i' \<and>
      BRSHA256 (prevoutsOf tx) = BRSHA256 (prevoutsOf tx') \<and> BRSHA256 (amountsOf tx) = BRSHA256 (amountsOf tx') \<and>
      BRSHA256 (scriptsOf tx) = BRSHA256 (scriptsOf tx') \<and> BRSHA256 (sequencesOf tx) = BRSHA256 (sequencesOf tx') \<and>
      BRSHA256 (writtenBytes (outputData tx None)) = BRSHA256 (writtenBytes (outputData tx' None))"
    using m[symmetric, unfolded m'] by (simp add: LE_inj)
  ultimately show ?thesis
    using input_lists_inj[OF assms(3,4)] output_list_inj[OF assms(3,4)] unfolding clash_def by blast
qed

lemma taproot_message_commits_witness:
  "\<exists>msg d. taprootSighash demo_tx 0 0 = Some (msg, d) \<and> length msg = 175"
proof -
  obtain msg d where t: "taprootSighash demo_tx 0 0 = Some (msg, d)"
    by (simp add: taprootSighash_def demo_fields SIGHASH_DEFAULT_def held_def Let_def)
  have "bounded_scripts demo_tx" by (simp add: bounded_scripts_def demo_fields held_def)
  then show ?thesis using taproot_message_commits[OF t t] t by blast
qed

end
