(* ===== verification/TransactionSign.thy ===== *)
theory TransactionSign
  imports TransactionMessages
begin

text \<open>
  Signing and verifying inputs (\<open>BRTransactionSign\<close> and \<open>BRTransactionVerifyInput\<close> of \<open>src/BRTransaction.c\<close>).  The
  operations on keys are calls of \<open>src/BRKey.c\<close> into the elliptic-curve library: they are fields of a record
  that the definitions take, and what is relied on is \<open>good_keys\<close>.
\<close>

section \<open>Operations on keys\<close>

text \<open>
  The public key of a key (empty when it has none), whether bytes parse as a point, the DER signature of a digest and
  its check, the taproot output key, and the Schnorr signature with the tweaked key and its check.
\<close>

record 'k key_ops =
  ko_pubKey :: "'k \<Rightarrow> bytes"
  ko_parses :: "bytes \<Rightarrow> bool"
  ko_sign :: "'k \<Rightarrow> u256 \<Rightarrow> bytes"
  ko_verify :: "bytes \<Rightarrow> u256 \<Rightarrow> bytes \<Rightarrow> bool"
  ko_outputKey :: "'k \<Rightarrow> bytes option"
  ko_schnorrSign :: "'k \<Rightarrow> u256 \<Rightarrow> bytes option"
  ko_schnorrVerify :: "bytes \<Rightarrow> u256 \<Rightarrow> bytes \<Rightarrow> bool"

text \<open>
  What the library documents: a public key is a point in 33 or 65 bytes, a DER signature is not empty and has at
  most 72 bytes, and what a key signs verifies under its public key; the same for the taproot key with 32 and 64 bytes.
\<close>

definition good_keys :: "'k key_ops \<Rightarrow> bool" where
  "good_keys K \<longleftrightarrow>
     (\<forall>k. length (ko_pubKey K k) \<in> {33, 65} \<and> ko_parses K (ko_pubKey K k) \<and>
        (\<forall>md. ko_sign K k md \<noteq> [] \<and> length (ko_sign K k md) \<le> 72 \<and> ko_verify K (ko_pubKey K k) md (ko_sign K k md)) \<and>
        (\<forall>q md s. ko_outputKey K k = Some q \<longrightarrow> ko_schnorrSign K k md = Some s \<longrightarrow>
           length q = 32 \<and> length s = 64 \<and> ko_schnorrVerify K q md s))"

definition BRKeyHash160 :: "'k key_ops \<Rightarrow> 'k \<Rightarrow> bytes" where
  "BRKeyHash160 K k =
     (let p = ko_pubKey K k in if length p > 0 \<and> ko_parses K p then BRHash160 p else replicate 20 0)"

section \<open>Signing\<close>

definition putSig :: "bool \<Rightarrow> bytes \<Rightarrow> bytes \<Rightarrow> tx_input \<Rightarrow> tx_input" where
  "putSig testnet signature witness input = BRTxInputSetWitness (BRTxInputSetSignature testnet input (Some signature)) (Some witness)"

text \<open>The digest of a message, and the signature with its hash type.\<close>

definition digest :: "writer \<Rightarrow> u256" where "digest w = UInt256Get (BRSHA256_2 (writtenBytes w))"

definition typedSig :: "'k key_ops \<Rightarrow> u32 \<Rightarrow> 'k \<Rightarrow> u256 \<Rightarrow> bytes" where
  "typedSig K forkId k md = ko_sign K k md @ [ucast (forkId OR SIGHASH_ALL)]"

definition pushTwo :: "nat \<Rightarrow> bytes \<Rightarrow> bytes \<Rightarrow> bytes" where
  "pushTwo cap a b =
     (let (n, x) = BRScriptPushData (Some cap) a in x @ snd (BRScriptPushData (Some (cap - n)) b))"

definition signTaproot :: "bool \<Rightarrow> 'k key_ops \<Rightarrow> 'k list \<Rightarrow> transaction \<Rightarrow> nat \<Rightarrow> tx_input" where
  "signTaproot testnet K keys tx i =
     (let input = tx_inputs tx ! i; script = held (ti_script input); program = drop (length script - 32) script in
      case find (\<lambda>k. ko_outputKey K k = Some program) keys of None \<Rightarrow> input
      | Some k \<Rightarrow>
          (case taprootSighash tx i SIGHASH_DEFAULT of None \<Rightarrow> input
           | Some (msg, md) \<Rightarrow>
               (case ko_schnorrSign K k md of None \<Rightarrow> input
                | Some sig64 \<Rightarrow> putSig testnet [] (snd (BRScriptPushData (Some 65) sig64)) input)))"

text \<open>The redeem script of a key in a nested witness output, and the transaction with it in place of the script.\<close>

definition redeemScript :: "bytes \<Rightarrow> bytes" where "redeemScript h = [OP_0, 20] @ h"

definition withScript :: "nat \<Rightarrow> bytes \<Rightarrow> transaction \<Rightarrow> transaction" where
  "withScript i s tx = tx\<lparr>tx_inputs := (tx_inputs tx)[i := (tx_inputs tx ! i)\<lparr>ti_script := Some s\<rparr>]\<rparr>"

definition signNested :: "bool \<Rightarrow> 'k key_ops \<Rightarrow> u32 \<Rightarrow> 'k list \<Rightarrow> transaction \<Rightarrow> nat \<Rightarrow> tx_input" where
  "signNested testnet K forkId keys tx i =
     (let input = tx_inputs tx ! i; (scriptHash, n) = BRScriptData (scriptElems (held (ti_script input)) ! 1) in
      case find (\<lambda>k. scriptHash \<noteq> None \<and> n = 20 \<and> BRHash160 (redeemScript (BRKeyHash160 K k)) = take 20 (held scriptHash)) keys of
        None \<Rightarrow> input
      | Some k \<Rightarrow>
          let redeem = redeemScript (BRKeyHash160 K k);
              md = digest (witnessData (withScript i redeem tx) (Some i) (forkId OR SIGHASH_ALL))
          in putSig testnet (snd (BRScriptPushData (Some 23) redeem)) (pushTwo 140 (typedSig K forkId k md) (ko_pubKey K k)) input)"

definition signHashed :: "bool \<Rightarrow> 'k key_ops \<Rightarrow> u32 \<Rightarrow> 'k list \<Rightarrow> transaction \<Rightarrow> nat \<Rightarrow> tx_input" where
  "signHashed testnet K forkId keys tx i =
     (let input = tx_inputs tx ! i; script = held (ti_script input); elems = scriptElems script; count = length elems in
      case BRScriptPKH script of None \<Rightarrow> input
      | Some hash \<Rightarrow>
        (case find (\<lambda>k. BRKeyHash160 K k = take 20 hash) keys of None \<Rightarrow> input
         | Some k \<Rightarrow>
           let pub = ko_pubKey K k; cap = 75 + max 1 (length pub); hashType = forkId OR SIGHASH_ALL in
           if count = 2 \<and> hd (elems ! 0) = OP_0 \<and> hd (elems ! 1) = 20 then
             putSig testnet [] (pushTwo cap (typedSig K forkId k (digest (witnessData tx (Some i) hashType))) pub) input
           else if count \<ge> 2 \<and> hd (elems ! (count - 2)) = OP_EQUALVERIFY then
             putSig testnet (pushTwo cap (typedSig K forkId k (digest (transactionData tx (Some i) hashType))) pub) [] input
           else
             putSig testnet (snd (BRScriptPushData (Some cap) (typedSig K forkId k (digest (transactionData tx (Some i) hashType))))) [] input))"

definition signInput :: "bool \<Rightarrow> 'k key_ops \<Rightarrow> u32 \<Rightarrow> 'k list \<Rightarrow> transaction \<Rightarrow> nat \<Rightarrow> tx_input" where
  "signInput testnet K forkId keys tx i =
     (let elems = scriptElems (held (ti_script (tx_inputs tx ! i))); count = length elems; op = (\<lambda>j. hd (elems ! j)) in
      if count = 2 \<and> op 0 = OP_1 \<and> op 1 = 32 then signTaproot testnet K keys tx i
      else if count = 3 \<and> op 0 = OP_HASH160 \<and> op 1 = 20 \<and> op 2 = OP_EQUAL then signNested testnet K forkId keys tx i
      else signHashed testnet K forkId keys tx i)"

definition signAt :: "bool \<Rightarrow> 'k key_ops \<Rightarrow> u32 \<Rightarrow> 'k list \<Rightarrow> transaction \<Rightarrow> nat \<Rightarrow> transaction" where
  "signAt testnet K forkId keys tx i = tx\<lparr>tx_inputs := (tx_inputs tx)[i := signInput testnet K forkId keys tx i]\<rparr>"

text \<open>The transaction with its signatures, and whether it is signed.\<close>

definition BRTransactionSign :: "bool \<Rightarrow> 'k key_ops \<Rightarrow> u32 \<Rightarrow> 'k list \<Rightarrow> transaction \<Rightarrow> transaction \<times> bool" where
  "BRTransactionSign testnet K forkId keys tx =
     (let tx = foldl (signAt testnet K forkId keys) tx [0..<length (tx_inputs tx)] in
      if BRTransactionIsSigned tx then
        (case BRTransactionParseSigned testnet (writtenBytes (BRTransactionSerialize tx)) of
           None \<Rightarrow> (tx, False)
         | Some t \<Rightarrow> (tx\<lparr>tx_txHash := tx_txHash t, tx_wtxHash := tx_wtxHash t\<rparr>, True))
      else (tx, False))"

section \<open>Verification\<close>

text \<open>The items of a witness, at most so many; \<open>None\<close> when it is malformed or has more.\<close>

fun witnessItems :: "nat \<Rightarrow> bytes \<Rightarrow> bytes list option" where
  "witnessItems 0 w = (if w = [] then Some [] else None)"
| "witnessItems (Suc room) w =
     (if w = [] then Some []
      else let (l, len) = BRVarInt w in
        if len = 0 \<or> len > length w \<or> unat l > length w - len then None
        else map_option ((#) (take (unat l) (drop len w))) (witnessItems room (drop (len + unat l) w)))"

definition verifyEcdsa :: "'k key_ops \<Rightarrow> bytes \<Rightarrow> bytes \<Rightarrow> bytes \<Rightarrow> u256 \<Rightarrow> bool" where
  "verifyEcdsa K sig pubKey pkh md \<longleftrightarrow>
     \<not> (length sig < 2 \<or> last sig \<noteq> ucast SIGHASH_ALL \<or> (length pubKey \<noteq> 33 \<and> length pubKey \<noteq> 65)) \<and>
     BRHash160 pubKey = take 20 pkh \<and> ko_parses K pubKey \<and> ko_verify K pubKey md (butlast sig)"

definition verifyPubKeyHash :: "'k key_ops \<Rightarrow> transaction \<Rightarrow> nat \<Rightarrow> bytes \<Rightarrow> bool" where
  "verifyPubKeyHash K tx index s =
     (let sg = held (ti_signature (tx_inputs tx ! index)) in
      if sg = [] \<or> length sg > 1 + 73 + 1 + 65 then False
      else
        let elems = scriptElems sg in
        if length elems \<noteq> 2 then False
        else case (BRScriptData (elems ! 0), BRScriptData (elems ! 1)) of
          ((Some sig, sigLen), (Some pk, pkLen)) \<Rightarrow>
            if snd (transactionData tx (Some index) SIGHASH_ALL None) > 0
            then verifyEcdsa K (take sigLen sig) (take pkLen pk) (drop 3 s) (digest (transactionData tx (Some index) SIGHASH_ALL))
            else False
        | _ \<Rightarrow> False)"

definition verifyWitnessKeyHash :: "'k key_ops \<Rightarrow> transaction \<Rightarrow> nat \<Rightarrow> bytes \<Rightarrow> bool" where
  "verifyWitnessKeyHash K tx index s =
     (let input = tx_inputs tx ! index; sg = held (ti_signature input) in
      case witnessItems 2 (held (ti_witness input)) of
        Some [sig, pk] \<Rightarrow>
          if length s = 23 then
            if length sg \<noteq> 23 \<or> sg ! 0 \<noteq> 22 \<or> sg ! 1 \<noteq> OP_0 \<or> sg ! 2 \<noteq> 20 then False
            else if BRHash160 (take 22 (drop 1 sg)) \<noteq> take 20 (drop 2 s) then False
            else
              let t = withScript index (redeemScript (take 20 (drop 3 sg))) tx in
              snd (witnessData t (Some index) SIGHASH_ALL None) > 0 \<and>
              verifyEcdsa K sig pk (drop 3 sg) (digest (witnessData t (Some index) SIGHASH_ALL))
          else if sg \<noteq> [] then False
          else
            snd (witnessData tx (Some index) SIGHASH_ALL None) > 0 \<and>
            verifyEcdsa K sig pk (drop 2 s) (digest (witnessData tx (Some index) SIGHASH_ALL))
      | _ \<Rightarrow> False)"

definition verifyTaproot :: "'k key_ops \<Rightarrow> transaction \<Rightarrow> nat \<Rightarrow> bytes \<Rightarrow> bool" where
  "verifyTaproot K tx index s =
     (let input = tx_inputs tx ! index in
      if held (ti_signature input) \<noteq> [] then False
      else case witnessItems 2 (held (ti_witness input)) of
        Some [sig] \<Rightarrow>
          if length sig = 65 \<and> sig ! 64 \<noteq> ucast SIGHASH_ALL \<or> length sig \<noteq> 65 \<and> length sig \<noteq> 64 then False
          else (case taprootSighash tx index (if length sig = 65 then sig ! 64 else SIGHASH_DEFAULT) of None \<Rightarrow> False
                | Some (msg, md) \<Rightarrow> ko_schnorrVerify K (take 32 (drop 2 s)) md (take 64 sig))
      | _ \<Rightarrow> False)"

definition BRTransactionVerifyInput :: "'k key_ops \<Rightarrow> transaction \<Rightarrow> nat \<Rightarrow> bool" where
  "BRTransactionVerifyInput K tx index =
     (if index \<ge> length (tx_inputs tx) then False
      else case ti_script (tx_inputs tx ! index) of None \<Rightarrow> False
      | Some s \<Rightarrow>
          let n = length s in
          if n = 25 \<and> s ! 0 = OP_DUP \<and> s ! 1 = OP_HASH160 \<and> s ! 2 = 20 \<and> s ! 23 = OP_EQUALVERIFY \<and> s ! 24 = OP_CHECKSIG
          then verifyPubKeyHash K tx index s
          else if n = 22 \<and> s ! 0 = OP_0 \<and> s ! 1 = 20 \<or> n = 23 \<and> s ! 0 = OP_HASH160 \<and> s ! 1 = 20 \<and> s ! 22 = OP_EQUAL
          then verifyWitnessKeyHash K tx index s
          else if n = 34 \<and> s ! 0 = OP_1 \<and> s ! 1 = 32 then verifyTaproot K tx index s
          else False)"

section \<open>The messages as bytes\<close>

definition legacyInputBytes :: "nat \<Rightarrow> transaction \<Rightarrow> bytes" where
  "legacyInputBytes i tx = concat (map (\<lambda>(j, input). inputBytes (inputAsWritten (Some i) 1 j input)) (enumerate 0 (tx_inputs tx)))"

lemma sighash_all_bits:
  "SIGHASH_ALL AND SIGHASH_FORKID = 0" "SIGHASH_ALL AND SIGHASH_ANYONECANPAY = 0" "SIGHASH_ALL AND 0x1f = 1"
  "(1::u32) \<noteq> SIGHASH_SINGLE" "(1::u32) \<noteq> SIGHASH_NONE" "0 OR SIGHASH_ALL = SIGHASH_ALL"
  by (simp_all add: SIGHASH_ALL_def SIGHASH_FORKID_def SIGHASH_ANYONECANPAY_def SIGHASH_SINGLE_def SIGHASH_NONE_def)

lemma writes_legacy:
  "writes (transactionData tx (Some i) SIGHASH_ALL)
     (UInt32SetLE (tx_version tx) @ varIntBytes (of_nat (length (tx_inputs tx))) @ legacyInputBytes i tx @
      varIntBytes (of_nat (length (tx_outputs tx))) @ concat (map outputBytes (tx_outputs tx)) @
      UInt32SetLE (tx_lockTime tx) @ UInt32SetLE SIGHASH_ALL)"
proof -
  have "puts (\<lambda>st. put_field (UInt32SetLE SIGHASH_ALL) (put_field (UInt32SetLE (tx_lockTime tx))
      (sub_call (outputData tx None) (sub_call (sizeVar (length (tx_outputs tx)))
      (putInputs (Some i) 1 (tx_inputs tx) (sub_call (sizeVar (length (tx_inputs tx))) (put_field (UInt32SetLE (tx_version tx)) st)))))))
    ((((((UInt32SetLE (tx_version tx) @ varIntBytes (of_nat (length (tx_inputs tx)))) @ legacyInputBytes i tx) @
      varIntBytes (of_nat (length (tx_outputs tx)))) @ concat (map outputBytes (tx_outputs tx))) @
      UInt32SetLE (tx_lockTime tx)) @ UInt32SetLE SIGHASH_ALL)"
    unfolding legacyInputBytes_def by (intro puts_then puts_fold writing)
  from writes_done[OF this] show ?thesis
    unfolding transactionData_def[abs_def] by (simp add: sighash_all_bits Let_def cong: if_cong)
qed

text \<open>The script code of an input: its script, or the one of the key hash for a witness program.\<close>

definition scriptCode :: "bytes \<Rightarrow> bytes" where
  "scriptCode script = (if length script = 22 \<and> script ! 0 = OP_0 \<and> script ! 1 = 20 then p2pkh_script (take 20 (drop 2 script)) else script)"

lemma writes_witness_message:
  assumes "i < length (tx_inputs tx)" "ti_script (tx_inputs tx ! i) = Some s"
  shows "writes (witnessData tx (Some i) SIGHASH_ALL)
     (UInt32SetLE (tx_version tx) @ BRSHA256_2 (prevoutsOf tx) @ BRSHA256_2 (sequencesOf tx) @
      inputBytes ((tx_inputs tx ! i)\<lparr>ti_signature := Some (scriptCode s)\<rparr>) @
      BRSHA256_2 (concat (map outputBytes (tx_outputs tx))) @ UInt32SetLE (tx_lockTime tx) @ UInt32SetLE SIGHASH_ALL)"
proof -
  let ?in = "(tx_inputs tx ! i)\<lparr>ti_signature := Some (scriptCode s)\<rparr>"
  have "puts (\<lambda>st. put_field (UInt32SetLE SIGHASH_ALL) (put_field (UInt32SetLE (tx_lockTime tx))
      (put_field (BRSHA256_2 (concat (map outputBytes (tx_outputs tx)))) (sub_call (inputData ?in)
      (put_field (BRSHA256_2 (sequencesOf tx)) (put_field (BRSHA256_2 (prevoutsOf tx)) (put_field (UInt32SetLE (tx_version tx)) st)))))))
    ((((((UInt32SetLE (tx_version tx) @ BRSHA256_2 (prevoutsOf tx)) @ BRSHA256_2 (sequencesOf tx)) @ inputBytes ?in) @
      BRSHA256_2 (concat (map outputBytes (tx_outputs tx)))) @ UInt32SetLE (tx_lockTime tx)) @ UInt32SetLE SIGHASH_ALL)"
    by (intro puts_then writing)
  from writes_done[OF this] show ?thesis
    using assms unfolding witnessData_def[abs_def]
    by (cases "length s = 22 \<and> s ! 0 = OP_0 \<and> s ! 1 = 20")
      (auto simp: sighash_all_bits Let_def outputs_written held_def scriptCode_def p2pkh_script_def cong: if_cong)
qed

section \<open>What the messages do not depend on\<close>

definition sigless_in :: "tx_input \<Rightarrow> tx_input" where
  "sigless_in i = i\<lparr>ti_signature := None, ti_witness := None, ti_address := []\<rparr>"

definition sigless :: "transaction \<Rightarrow> transaction" where
  "sigless tx = tx\<lparr>tx_inputs := map sigless_in (tx_inputs tx), tx_txHash := 0, tx_wtxHash := 0\<rparr>"

lemma sigless_in_simps [simp]:
  "ti_txHash (sigless_in i) = ti_txHash i" "ti_index (sigless_in i) = ti_index i" "ti_amount (sigless_in i) = ti_amount i"
  "ti_script (sigless_in i) = ti_script i" "ti_sequence (sigless_in i) = ti_sequence i"
  by (simp_all add: sigless_in_def)

lemma sigless_simps [simp]:
  "tx_inputs (sigless tx) = map sigless_in (tx_inputs tx)" "tx_outputs (sigless tx) = tx_outputs tx"
  "tx_version (sigless tx) = tx_version tx" "tx_lockTime (sigless tx) = tx_lockTime tx"
  by (simp_all add: sigless_def)

lemma field_lists_sigless [simp]:
  "prevoutsOf (sigless tx) = prevoutsOf tx" "amountsOf (sigless tx) = amountsOf tx" "scriptsOf (sigless tx) = scriptsOf tx"
  "sequencesOf (sigless tx) = sequencesOf tx"
  by (simp_all add: prevoutsOf_def amountsOf_def scriptsOf_def sequencesOf_def comp_def)

lemma outputs_sigless [simp]: "outputData (sigless tx) = outputData tx"
  by (rule ext)+ (simp add: outputData_def split: option.split)

lemma sigless_id [simp]: "sigless_in (sigless_in i) = sigless_in i" "sigless (sigless tx) = sigless tx"
  by (simp_all add: sigless_in_def sigless_def)

lemma taproot_sigless: "taprootSighash (sigless tx) i h = taprootSighash tx i h"
  by (simp add: taprootSighash_def list_ex_iff Let_def)

lemma sign_bytes_sigless: "inputBytes ((sigless_in x)\<lparr>ti_signature := s\<rparr>) = inputBytes (x\<lparr>ti_signature := s\<rparr>)"
  by (simp add: inputBytes_def sigless_in_def)

lemma legacy_sigless: "legacyInputBytes i (sigless tx) = legacyInputBytes i tx"
proof -
  have "inputBytes (inputAsWritten (Some i) 1 j (sigless_in x)) = inputBytes (inputAsWritten (Some i) 1 j x)" for j x
    by (simp add: inputAsWritten_def sigless_in_def inputBytes_def Let_def)
  then have "map (\<lambda>(j, input). inputBytes (inputAsWritten (Some i) 1 j input)) (enumerate k (map sigless_in ins)) =
      map (\<lambda>(j, input). inputBytes (inputAsWritten (Some i) 1 j input)) (enumerate k ins)" for k ins
    by (induction ins arbitrary: k) auto
  then show ?thesis by (simp add: legacyInputBytes_def)
qed

definition legacyDigest :: "transaction \<Rightarrow> nat \<Rightarrow> u256" where
  "legacyDigest tx i = digest (transactionData tx (Some i) SIGHASH_ALL)"

definition witnessDigest :: "transaction \<Rightarrow> nat \<Rightarrow> u256" where
  "witnessDigest tx i = digest (witnessData tx (Some i) SIGHASH_ALL)"

lemma legacyDigest_sigless: "sigless t = sigless u \<Longrightarrow> legacyDigest t i = legacyDigest u i"
proof -
  have "legacyDigest (sigless tx) i = legacyDigest tx i" for tx
    unfolding legacyDigest_def digest_def writtenBytes_eq[OF writes_legacy] by (simp add: legacy_sigless)
  then show "sigless t = sigless u \<Longrightarrow> legacyDigest t i = legacyDigest u i" by metis
qed

lemma sigless_lookup:
  assumes "sigless t = sigless u"
  shows "length (tx_inputs t) = length (tx_inputs u)"
    and "i < length (tx_inputs u) \<Longrightarrow> ti_script (tx_inputs t ! i) = ti_script (tx_inputs u ! i)"
    and "i < length (tx_inputs u) \<Longrightarrow> sigless_in (tx_inputs t ! i) = sigless_in (tx_inputs u ! i)"
proof -
  have m: "map sigless_in (tx_inputs t) = map sigless_in (tx_inputs u)" using arg_cong[OF assms, of tx_inputs] by simp
  then show l: "length (tx_inputs t) = length (tx_inputs u)" by (metis length_map)
  show "i < length (tx_inputs u) \<Longrightarrow> sigless_in (tx_inputs t ! i) = sigless_in (tx_inputs u ! i)"
    using arg_cong[OF m, of "\<lambda>l. l ! i"] l by simp
  then show "i < length (tx_inputs u) \<Longrightarrow> ti_script (tx_inputs t ! i) = ti_script (tx_inputs u ! i)"
    by (metis sigless_in_simps(4))
qed

lemma witnessDigest_sigless:
  assumes e: "sigless t = sigless u" and i: "i < length (tx_inputs u)" "ti_script (tx_inputs u ! i) = Some s"
  shows "witnessDigest t i = witnessDigest u i"
proof -
  have t: "i < length (tx_inputs t)" "ti_script (tx_inputs t ! i) = Some s" using sigless_lookup[OF e] i by simp_all
  have f: "prevoutsOf t = prevoutsOf u" "sequencesOf t = sequencesOf u" "tx_outputs t = tx_outputs u"
    "tx_version t = tx_version u" "tx_lockTime t = tx_lockTime u"
    using e field_lists_sigless sigless_simps by metis+
  have "inputBytes ((tx_inputs t ! i)\<lparr>ti_signature := x\<rparr>) = inputBytes ((tx_inputs u ! i)\<lparr>ti_signature := x\<rparr>)" for x
    using sigless_lookup(3)[OF e i(1)] sign_bytes_sigless by metis
  then show ?thesis
    unfolding witnessDigest_def digest_def writtenBytes_eq[OF writes_witness_message[OF i]] writtenBytes_eq[OF writes_witness_message[OF t]]
    by (simp add: f)
qed

lemma taproot_same: "sigless t = sigless u \<Longrightarrow> taprootSighash t i h = taprootSighash u i h"
  using taproot_sigless by metis

lemma withScript_sigless: "sigless t = sigless u \<Longrightarrow> sigless (withScript i s t) = sigless (withScript i s u)"
proof -
  have c: "sigless_in (x\<lparr>ti_script := y\<rparr>) = (sigless_in x)\<lparr>ti_script := y\<rparr>" for x y by (simp add: sigless_in_def)
  have "sigless (withScript i s v) = sigless (withScript i s (sigless v))" for v
    by (cases "i < length (tx_inputs v)") (simp_all add: withScript_def sigless_def map_update c comp_def list_update_beyond)
  then show "sigless t = sigless u \<Longrightarrow> sigless (withScript i s t) = sigless (withScript i s u)" by metis
qed

section \<open>Signing changes signatures only\<close>

lemma sigless_putSig [simp]: "sigless_in (putSig testnet a b i) = sigless_in i"
  by (simp add: putSig_def BRTxInputSetSignature_def BRTxInputSetWitness_def sigless_in_def Let_def)

lemma sigless_signInput: "sigless_in (signInput testnet K f keys tx i) = sigless_in (tx_inputs tx ! i)"
  by (auto simp: signInput_def signTaproot_def signNested_def signHashed_def Let_def split: option.splits prod.splits)

lemma sigless_signAt: "sigless (signAt testnet K f keys tx i) = sigless tx"
proof -
  have "map sigless_in ((tx_inputs tx)[i := signInput testnet K f keys tx i]) = map sigless_in (tx_inputs tx)"
    by (cases "i < length (tx_inputs tx)") (simp_all add: map_update sigless_signInput list_update_same_conv list_update_beyond)
  then show ?thesis by (simp add: signAt_def sigless_def)
qed

definition signUpTo :: "bool \<Rightarrow> 'k key_ops \<Rightarrow> u32 \<Rightarrow> 'k list \<Rightarrow> transaction \<Rightarrow> nat \<Rightarrow> transaction" where
  "signUpTo testnet K f keys tx k = foldl (signAt testnet K f keys) tx [0..<k]"

lemma signUpTo_Suc: "signUpTo testnet K f keys tx (Suc k) = signAt testnet K f keys (signUpTo testnet K f keys tx k) k"
  by (simp add: signUpTo_def)

lemma sigless_signUpTo: "sigless (signUpTo testnet K f keys tx k) = sigless tx"
  by (induction k) (simp_all add: signUpTo_Suc sigless_signAt, simp add: signUpTo_def)

lemma length_signUpTo: "length (tx_inputs (signUpTo testnet K f keys tx k)) = length (tx_inputs tx)"
  using sigless_lookup(1)[OF sigless_signUpTo] .

lemma signUpTo_untouched: "k \<le> i \<Longrightarrow> tx_inputs (signUpTo testnet K f keys tx k) ! i = tx_inputs tx ! i"
  by (induction k) (simp_all add: signUpTo_Suc signAt_def, simp add: signUpTo_def)

lemma signUpTo_signed:
  "i < k \<Longrightarrow> i < length (tx_inputs tx) \<Longrightarrow>
   tx_inputs (signUpTo testnet K f keys tx k) ! i = signInput testnet K f keys (signUpTo testnet K f keys tx i) i"
proof (induction k)
  case (Suc k)
  then show ?case using length_signUpTo[of testnet K f keys tx k]
    by (cases "i = k") (simp_all add: signUpTo_Suc signAt_def)
qed simp

lemma sign_result:
  assumes "BRTransactionSign testnet K f keys tx = (tx', r)" "i < length (tx_inputs tx)"
  shows "\<exists>t. sigless t = sigless tx \<and> sigless tx' = sigless tx \<and> tx_inputs t ! i = tx_inputs tx ! i \<and>
     length (tx_inputs t) = length (tx_inputs tx) \<and> tx_inputs tx' ! i = signInput testnet K f keys t i"
proof -
  let ?n = "length (tx_inputs tx)"
  have "tx_inputs tx' = tx_inputs (signUpTo testnet K f keys tx ?n) \<and> sigless tx' = sigless (signUpTo testnet K f keys tx ?n)"
    using assms(1) by (auto simp: BRTransactionSign_def signUpTo_def Let_def sigless_def split: if_splits option.splits)
  then show ?thesis
    using sigless_signUpTo[of testnet K f keys tx] signUpTo_untouched[of i i testnet K f keys tx] length_signUpTo[of testnet K f keys tx i]
      signUpTo_signed[of i ?n tx testnet K f keys] assms(2) by (intro exI[of _ "signUpTo testnet K f keys tx i"]) simp
qed

section \<open>The scripts that are signed and verified\<close>

definition wallet_script :: "bytes \<Rightarrow> bool" where
  "wallet_script s \<longleftrightarrow> (\<exists>h. length h = 20 \<and> (s = p2pkh_script h \<or> s = p2sh_script h \<or> s = witness_script OP_0 h)) \<or>
     (\<exists>q. length q = 32 \<and> s = witness_script OP_1 q)"

lemma push_small: "length d < 76 \<Longrightarrow> pushDataBytes d = of_nat (length d) # d"
  by (simp add: pushDataBytes_def OP_PUSHDATA1_def)

lemma push_is_item: "length d < 76 \<Longrightarrow> pushDataBytes d = varIntBytes (of_nat (length d)) @ d"
proof -
  assume l: "length d < 76"
  have "unat (ucast (of_nat (length d) :: u64) :: u8) = unat (of_nat (length d) :: u8)" using l
    by (simp add: unsigned_ucast_eq unat_of_nat take_bit_eq_mod)
  then have "ucast (of_nat (length d) :: u64) = (of_nat (length d) :: u8)" by (simp only: word_unat_eq_iff)
  then show ?thesis using l by (simp add: push_small varIntBytes_def word_less_nat_alt unat_of_nat)
qed

lemma pushed: "length d < 76 \<Longrightarrow> Suc (length d) \<le> cap \<Longrightarrow> BRScriptPushData (Some cap) d = (Suc (length d), pushDataBytes d)"
  by (simp add: BRScriptPushData_def push_small Let_def)

lemma pushTwo_eq:
  assumes "length a < 76" "length b < 76" "2 + length a + length b \<le> cap"
  shows "pushTwo cap a b = pushDataBytes a @ pushDataBytes b"
  using assms by (simp add: pushTwo_def pushed)

lemma witnessItems_pack:
  "length (packItems items) < 2 ^ 64 \<Longrightarrow> length items \<le> room \<Longrightarrow> witnessItems room (packItems items) = Some items"
proof (induction items arbitrary: room)
  case Nil
  then show ?case by (cases room) simp_all
next
  case (Cons x xs)
  then obtain r where r: "room = Suc r" by (cases room) auto
  have u: "unat (of_nat (length x) :: u64) = length x" using Cons.prems(1) by (simp add: unat_of_nat)
  have "varIntBytes (of_nat (length x)) \<noteq> []" by simp
  then show ?case using Cons u length_varInt_pos[of "of_nat (length x)"]
    by (simp add: r BRVarInt_read length_varIntBytes[symmetric])
qed

lemma pushed_items:
  assumes "length a < 76" "length b < 76"
  shows "witnessItems 2 (pushDataBytes a @ pushDataBytes b) = Some [a, b]" "witnessItems 2 (pushDataBytes a) = Some [a]"
proof -
  have v: "length (varIntBytes (of_nat (length d))) \<le> 9" for d :: bytes by (simp add: varIntBytes_def)
  have "length (packItems [a, b]) < 2 ^ 64" using assms v[of a] v[of b] by simp
  from witnessItems_pack[OF this, of 2] show "witnessItems 2 (pushDataBytes a @ pushDataBytes b) = Some [a, b]"
    using assms by (simp add: push_is_item)
  have "length (packItems [a]) < 2 ^ 64" using assms v[of a] by simp
  from witnessItems_pack[OF this, of 2] show "witnessItems 2 (pushDataBytes a) = Some [a]"
    using assms by (simp add: push_is_item)
qed

lemma putSig_fields [simp]:
  "ti_signature (putSig testnet a b i) = Some a" "ti_witness (putSig testnet a b i) = Some b"
  by (simp_all add: putSig_def BRTxInputSetSignature_def BRTxInputSetWitness_def Let_def)

lemma key_facts:
  assumes "good_keys K"
  shows "length (ko_pubKey K k) = 33 \<or> length (ko_pubKey K k) = 65" "ko_parses K (ko_pubKey K k)"
    "ko_sign K k md \<noteq> []" "length (ko_sign K k md) \<le> 72" "ko_verify K (ko_pubKey K k) md (ko_sign K k md)"
    "BRKeyHash160 K k = BRHash160 (ko_pubKey K k)" "length (ko_pubKey K k) < 76" "ko_pubKey K k \<noteq> []"
proof -
  show 1: "length (ko_pubKey K k) = 33 \<or> length (ko_pubKey K k) = 65" and 2: "ko_parses K (ko_pubKey K k)"
    and "ko_sign K k md \<noteq> []" "length (ko_sign K k md) \<le> 72" "ko_verify K (ko_pubKey K k) md (ko_sign K k md)"
    using assms by (auto simp: good_keys_def)
  from 1 show "length (ko_pubKey K k) < 76" and 3: "ko_pubKey K k \<noteq> []" by auto
  from 2 3 show "BRKeyHash160 K k = BRHash160 (ko_pubKey K k)" by (simp add: BRKeyHash160_def Let_def)
qed

lemma typedSig_verifies:
  assumes "good_keys K" "take 20 pkh = BRHash160 (ko_pubKey K k)"
  shows "verifyEcdsa K (typedSig K 0 k md) (ko_pubKey K k) pkh md" "length (typedSig K 0 k md) < 76" "typedSig K 0 k md \<noteq> []"
proof -
  note k = key_facts(1,2,8)[OF assms(1), of k] key_facts(3,4,5)[OF assms(1), of k md]
  have "length (typedSig K 0 k md) = Suc (length (ko_sign K k md))" "0 < length (ko_sign K k md)" using k by (simp_all add: typedSig_def)
  moreover have "last (typedSig K 0 k md) = ucast SIGHASH_ALL" "butlast (typedSig K 0 k md) = ko_sign K k md"
    by (simp_all add: typedSig_def sighash_all_bits)
  ultimately show "verifyEcdsa K (typedSig K 0 k md) (ko_pubKey K k) pkh md" "length (typedSig K 0 k md) < 76" "typedSig K 0 k md \<noteq> []"
    using k assms(2) by (auto simp: verifyEcdsa_def)
qed

lemma find_some: "find P xs = Some x \<Longrightarrow> P x"
  by (auto simp: find_Some_iff)

lemma p2pkh_nth:
  assumes "length h = 20"
  shows "length (p2pkh_script h) = 25" "p2pkh_script h ! 0 = OP_DUP" "p2pkh_script h ! 1 = OP_HASH160" "p2pkh_script h ! 2 = 20"
    "p2pkh_script h ! 23 = OP_EQUALVERIFY" "p2pkh_script h ! 24 = OP_CHECKSIG" "take 20 (drop 3 (p2pkh_script h)) = h"
  using assms by (simp_all add: p2pkh_script_def nth_append nth_Cons')


text \<open>How an input with each of the scripts is signed.\<close>

lemma p2pkh_elems:
  "length h = 20 \<Longrightarrow> scriptElems (p2pkh_script h) = [p2pkh_script h, drop 1 (p2pkh_script h), drop 2 (p2pkh_script h),
     [OP_EQUALVERIFY, OP_CHECKSIG], [OP_CHECKSIG]]"
  by (rule scriptElems_SomeI[OF scriptElementsLoop_standard(1)])

lemma p2sh_elems: "length h = 20 \<Longrightarrow> scriptElems (p2sh_script h) = [p2sh_script h, drop 1 (p2sh_script h), [OP_EQUAL]]"
  by (rule scriptElems_SomeI[OF scriptElementsLoop_standard(2)])

lemma witness_elems:
  "is_version_opcode v \<Longrightarrow> length h < 76 \<Longrightarrow> scriptElems (witness_script v h) = [witness_script v h, of_nat (length h) # h]"
  by (rule scriptElems_SomeI[OF scriptElementsLoop_witness])

lemma versions: "is_version_opcode OP_0" "is_version_opcode OP_1"
  by (simp_all add: is_version_opcode_def OP_1_def OP_16_def word_le_nat_alt)

lemma found_hash:
  assumes "length h = 20" "s = p2pkh_script h \<or> s = witness_script OP_0 h"
  obtains p where "BRScriptPKH s = Some p" "take 20 p = h"
  using BRScriptPKH_of_standard[of h s] assms versions(1) by auto

lemma sign_p2pkh:
  assumes K: "good_keys K" and h: "length h = 20" and s: "ti_script (tx_inputs t ! i) = Some (p2pkh_script h)"
    and u: "ti_signature (tx_inputs t ! i) = None" and y: "ti_signature (signInput testnet K 0 keys t i) \<noteq> None"
  shows "\<exists>k. BRHash160 (ko_pubKey K k) = h \<and> ti_script (signInput testnet K 0 keys t i) = Some (p2pkh_script h) \<and>
    ti_signature (signInput testnet K 0 keys t i) =
      Some (pushDataBytes (typedSig K 0 k (legacyDigest t i)) @ pushDataBytes (ko_pubKey K k))"
proof -
  obtain p where p: "BRScriptPKH (p2pkh_script h) = Some p" "take 20 p = h" using found_hash[OF h] by blast
  have e: "signInput testnet K 0 keys t i = signHashed testnet K 0 keys t i"
    by (simp add: signInput_def s held_def p2pkh_elems[OF h] Let_def)
  obtain k where k: "find (\<lambda>k. BRKeyHash160 K k = h) keys = Some k"
    using y unfolding e by (cases "find (\<lambda>k. BRKeyHash160 K k = h) keys") (simp_all add: signHashed_def s u held_def p Let_def)
  have hk: "BRHash160 (ko_pubKey K k) = h" using find_some[OF k] key_facts(6)[OF K] by simp
  have l: "length (typedSig K 0 k md) \<le> 73" for md using key_facts(4)[OF K, of k md] by (simp add: typedSig_def)
  have m: "max (Suc 0) (length (ko_pubKey K k)) = length (ko_pubKey K k)" using key_facts(1)[OF K, of k] by auto
  have two: "pushTwo (75 + length (ko_pubKey K k)) (typedSig K 0 k md) (ko_pubKey K k) =
      pushDataBytes (typedSig K 0 k md) @ pushDataBytes (ko_pubKey K k)" for md
    using l[of md] key_facts(7)[OF K, of k] by (intro pushTwo_eq) auto
  have sc: "ti_script (signInput testnet K 0 keys t i) = Some (p2pkh_script h)"
    using sigless_signInput[of testnet K 0 keys t i] s by (metis sigless_in_simps(4))
  have "signInput testnet K 0 keys t i = putSig testnet
      (pushTwo (75 + length (ko_pubKey K k)) (typedSig K 0 k (legacyDigest t i)) (ko_pubKey K k)) [] (tx_inputs t ! i)"
    unfolding e by (simp add: signHashed_def s held_def p k p2pkh_elems[OF h] Let_def m sighash_all_bits legacyDigest_def)
  then show ?thesis using hk sc two by auto
qed

lemma sign_p2wpkh:
  assumes K: "good_keys K" and h: "length h = 20" and s: "ti_script (tx_inputs t ! i) = Some (witness_script OP_0 h)"
    and u: "ti_signature (tx_inputs t ! i) = None" and y: "ti_signature (signInput testnet K 0 keys t i) \<noteq> None"
  shows "\<exists>k. BRHash160 (ko_pubKey K k) = h \<and> ti_script (signInput testnet K 0 keys t i) = Some (witness_script OP_0 h) \<and>
    ti_signature (signInput testnet K 0 keys t i) = Some [] \<and>
    ti_witness (signInput testnet K 0 keys t i) =
      Some (pushDataBytes (typedSig K 0 k (witnessDigest t i)) @ pushDataBytes (ko_pubKey K k))"
proof -
  obtain p where p: "BRScriptPKH (witness_script OP_0 h) = Some p" "take 20 p = h" using found_hash[OF h] by blast
  have el: "scriptElems (witness_script OP_0 h) = [witness_script OP_0 h, 20 # h]" using witness_elems[OF versions(1), of h] h by simp
  have hd0: "hd (witness_script OP_0 h) = OP_0" by (simp add: witness_script_def)
  have e: "signInput testnet K 0 keys t i = signHashed testnet K 0 keys t i"
    by (simp add: signInput_def s held_def el hd0 Let_def)
  obtain k where k: "find (\<lambda>k. BRKeyHash160 K k = h) keys = Some k"
    using y unfolding e by (cases "find (\<lambda>k. BRKeyHash160 K k = h) keys") (simp_all add: signHashed_def s u held_def p Let_def)
  have hk: "BRHash160 (ko_pubKey K k) = h" using find_some[OF k] key_facts(6)[OF K] by simp
  have l: "length (typedSig K 0 k md) \<le> 73" for md using key_facts(4)[OF K, of k md] by (simp add: typedSig_def)
  have m: "max (Suc 0) (length (ko_pubKey K k)) = length (ko_pubKey K k)" using key_facts(1)[OF K, of k] by auto
  have two: "pushTwo (75 + length (ko_pubKey K k)) (typedSig K 0 k md) (ko_pubKey K k) =
      pushDataBytes (typedSig K 0 k md) @ pushDataBytes (ko_pubKey K k)" for md
    using l[of md] key_facts(7)[OF K, of k] by (intro pushTwo_eq) auto
  have sc: "ti_script (signInput testnet K 0 keys t i) = Some (witness_script OP_0 h)"
    using sigless_signInput[of testnet K 0 keys t i] s by (metis sigless_in_simps(4))
  have "signInput testnet K 0 keys t i = putSig testnet []
      (pushTwo (75 + length (ko_pubKey K k)) (typedSig K 0 k (witnessDigest t i)) (ko_pubKey K k)) (tx_inputs t ! i)"
    unfolding e by (simp add: signHashed_def s held_def p k el hd0 Let_def m sighash_all_bits witnessDigest_def)
  then show ?thesis using hk sc two by auto
qed

lemma sign_nested:
  assumes K: "good_keys K" and h: "length h = 20" and s: "ti_script (tx_inputs t ! i) = Some (p2sh_script h)"
    and u: "ti_signature (tx_inputs t ! i) = None" and y: "ti_signature (signInput testnet K 0 keys t i) \<noteq> None"
  shows "\<exists>k. let pkh = BRHash160 (ko_pubKey K k) in
    BRHash160 (redeemScript pkh) = h \<and> ti_script (signInput testnet K 0 keys t i) = Some (p2sh_script h) \<and>
    ti_signature (signInput testnet K 0 keys t i) = Some (22 # redeemScript pkh) \<and>
    ti_witness (signInput testnet K 0 keys t i) = Some
      (pushDataBytes (typedSig K 0 k (witnessDigest (withScript i (redeemScript pkh) t) i)) @ pushDataBytes (ko_pubKey K k))"
proof -
  have el: "scriptElems (p2sh_script h) = [p2sh_script h, 20 # h @ [OP_EQUAL], [OP_EQUAL]]"
    using p2sh_elems[OF h] by (simp add: p2sh_script_def)
  have hd0: "hd (p2sh_script h) = OP_HASH160" by (simp add: p2sh_script_def)
  have dt: "BRScriptData (20 # h @ [OP_EQUAL]) = (Some (h @ [OP_EQUAL]), 20)"
    by (simp add: BRScriptData_bare_push OP_PUSHDATA1_def)
  have e: "signInput testnet K 0 keys t i = signNested testnet K 0 keys t i"
    by (simp add: signInput_def s held_def el hd0 Let_def)
  let ?P = "\<lambda>k. BRHash160 (redeemScript (BRKeyHash160 K k)) = h"
  obtain k where k: "find ?P keys = Some k"
    using y unfolding e by (cases "find ?P keys") (simp_all add: signNested_def s u held_def el dt h Let_def)
  have pk: "BRKeyHash160 K k = BRHash160 (ko_pubKey K k)" by (rule key_facts(6)[OF K])
  have l: "length (typedSig K 0 k md) \<le> 73" for md using key_facts(4)[OF K, of k md] by (simp add: typedSig_def)
  have two: "pushTwo 140 (typedSig K 0 k md) (ko_pubKey K k) = pushDataBytes (typedSig K 0 k md) @ pushDataBytes (ko_pubKey K k)" for md
    using l[of md] key_facts(1)[OF K, of k] by (intro pushTwo_eq) auto
  have r22: "length (redeemScript (BRHash160 x)) = 22" for x by (simp add: redeemScript_def)
  have one: "snd (BRScriptPushData (Some 23) (redeemScript (BRHash160 x))) = 22 # redeemScript (BRHash160 x)" for x
    by (simp add: pushed push_small r22)
  have sc: "ti_script (signInput testnet K 0 keys t i) = Some (p2sh_script h)"
    using sigless_signInput[of testnet K 0 keys t i] s by (metis sigless_in_simps(4))
  have "signInput testnet K 0 keys t i = putSig testnet (22 # redeemScript (BRHash160 (ko_pubKey K k)))
      (pushDataBytes (typedSig K 0 k (witnessDigest (withScript i (redeemScript (BRHash160 (ko_pubKey K k))) t) i)) @
       pushDataBytes (ko_pubKey K k)) (tx_inputs t ! i)"
    unfolding e by (simp add: signNested_def s held_def el dt h k pk Let_def sighash_all_bits witnessDigest_def two one)
  then show ?thesis using find_some[OF k] sc pk by (intro exI[of _ k]) (simp add: Let_def)
qed

lemma sign_taproot:
  assumes K: "good_keys K" and q: "length q = 32" and s: "ti_script (tx_inputs t ! i) = Some (witness_script OP_1 q)"
    and u: "ti_signature (tx_inputs t ! i) = None" and y: "ti_signature (signInput testnet K 0 keys t i) \<noteq> None"
  shows "\<exists>msg md sig. taprootSighash t i SIGHASH_DEFAULT = Some (msg, md) \<and> length sig = 64 \<and> ko_schnorrVerify K q md sig \<and>
    ti_script (signInput testnet K 0 keys t i) = Some (witness_script OP_1 q) \<and>
    ti_signature (signInput testnet K 0 keys t i) = Some [] \<and> ti_witness (signInput testnet K 0 keys t i) = Some (pushDataBytes sig)"
proof -
  have el: "scriptElems (witness_script OP_1 q) = [witness_script OP_1 q, 32 # q]" using witness_elems[OF versions(2), of q] q by simp
  have hd0: "hd (witness_script OP_1 q) = OP_1" by (simp add: witness_script_def)
  have pr: "drop (length (witness_script OP_1 q) - 32) (witness_script OP_1 q) = q" using q by (simp add: witness_script_def)
  have e: "signInput testnet K 0 keys t i = signTaproot testnet K keys t i"
    by (simp add: signInput_def s held_def el hd0 Let_def)
  let ?P = "\<lambda>k. ko_outputKey K k = Some q"
  obtain k where k: "find ?P keys = Some k"
    using y unfolding e by (cases "find ?P keys") (simp_all add: signTaproot_def s u held_def pr Let_def)
  obtain msg md where m: "taprootSighash t i SIGHASH_DEFAULT = Some (msg, md)"
    using y unfolding e by (cases "taprootSighash t i SIGHASH_DEFAULT") (auto simp: signTaproot_def s u held_def pr k Let_def)
  obtain sig where sg: "ko_schnorrSign K k md = Some sig"
    using y unfolding e by (cases "ko_schnorrSign K k md") (auto simp: signTaproot_def s u held_def pr k m Let_def)
  have v: "length sig = 64" "ko_schnorrVerify K q md sig" using K find_some[OF k] sg by (auto simp: good_keys_def)
  have sc: "ti_script (signInput testnet K 0 keys t i) = Some (witness_script OP_1 q)"
    using sigless_signInput[of testnet K 0 keys t i] s by (metis sigless_in_simps(4))
  have "signInput testnet K 0 keys t i = putSig testnet [] (pushDataBytes sig) (tx_inputs t ! i)"
    unfolding e by (simp add: signTaproot_def s held_def pr k m sg Let_def pushed v(1))
  then show ?thesis using m v sc by auto
qed

text \<open>And how each is verified.\<close>

lemma legacy_length: "snd (transactionData tx (Some i) SIGHASH_ALL None) > 0"
  using writes_legacy[of tx i] by (simp add: writes_def)

lemma witness_length:
  "i < length (tx_inputs tx) \<Longrightarrow> ti_script (tx_inputs tx ! i) = Some s \<Longrightarrow> snd (witnessData tx (Some i) SIGHASH_ALL None) > 0"
  using writes_witness_message[of i tx s] by (simp add: writes_def)

lemma verify_p2pkh:
  assumes K: "good_keys K" and i: "i < length (tx_inputs tx)" "ti_script (tx_inputs tx ! i) = Some (p2pkh_script h)"
    and h: "length h = 20" "BRHash160 (ko_pubKey K k) = h"
    and s: "ti_signature (tx_inputs tx ! i) = Some (pushDataBytes (typedSig K 0 k (legacyDigest tx i)) @ pushDataBytes (ko_pubKey K k))"
  shows "BRTransactionVerifyInput K tx i"
proof -
  let ?sig = "typedSig K 0 k (legacyDigest tx i)" and ?pk = "ko_pubKey K k"
  have v: "verifyEcdsa K ?sig ?pk (drop 3 (p2pkh_script h)) (legacyDigest tx i)" "length ?sig < 76" "?sig \<noteq> []"
    using typedSig_verifies[OF K, of "drop 3 (p2pkh_script h)" k] p2pkh_nth(7)[OF h(1)] h(2) by simp_all
  have k: "length ?pk < 76" "?pk \<noteq> []" "length ?pk \<le> 65" "length ?sig \<le> 73"
    using key_facts(1,7,8)[OF K, of k] key_facts(4)[OF K, of k] by (auto simp: typedSig_def)
  have "\<forall>d\<in>set [?sig, ?pk]. length d < 2 ^ 32" using v(2) k(1) by simp
  from pushes_read_back[OF this]
  have e: "length (scriptElems (pushDataBytes ?sig @ pushDataBytes ?pk)) = 2"
    "BRScriptData (scriptElems (pushDataBytes ?sig @ pushDataBytes ?pk) ! 0) = (Some (?sig @ pushDataBytes ?pk), length ?sig)"
    "BRScriptData (scriptElems (pushDataBytes ?sig @ pushDataBytes ?pk) ! 1) = (Some ?pk, length ?pk)"
    using v(3) k(2) by (auto simp: All_less_Suc numeral_2_eq_2)
  have "length (pushDataBytes ?sig @ pushDataBytes ?pk) \<le> 140" using v(2) k by (simp add: push_small)
  then have "verifyPubKeyHash K tx i (p2pkh_script h)"
    using e v(1) legacy_length by (simp add: verifyPubKeyHash_def s held_def Let_def legacyDigest_def[symmetric])
  then show ?thesis using i p2pkh_nth[OF h(1)] by (simp add: BRTransactionVerifyInput_def Let_def)
qed

lemma verify_p2wpkh:
  assumes K: "good_keys K" and i: "i < length (tx_inputs tx)" "ti_script (tx_inputs tx ! i) = Some (witness_script OP_0 h)"
    and h: "length h = 20" "BRHash160 (ko_pubKey K k) = h"
    and s: "ti_signature (tx_inputs tx ! i) = Some []"
      "ti_witness (tx_inputs tx ! i) = Some (pushDataBytes (typedSig K 0 k (witnessDigest tx i)) @ pushDataBytes (ko_pubKey K k))"
  shows "BRTransactionVerifyInput K tx i"
proof -
  let ?s = "witness_script OP_0 h" and ?sig = "typedSig K 0 k (witnessDigest tx i)" and ?pk = "ko_pubKey K k"
  have f: "length ?s = 22" "?s ! 0 = OP_0" "?s ! 1 = 20" "take 20 (drop 2 ?s) = h" using h(1) by (simp_all add: witness_script_def)
  have v: "verifyEcdsa K ?sig ?pk (drop 2 ?s) (witnessDigest tx i)" "length ?sig < 76"
    using typedSig_verifies[OF K, of "drop 2 ?s" k] f(4) h(2) by simp_all
  have w: "witnessItems 2 (pushDataBytes ?sig @ pushDataBytes ?pk) = Some [?sig, ?pk]"
    by (rule pushed_items(1)[OF v(2) key_facts(7)[OF K]])
  have "verifyWitnessKeyHash K tx i ?s" using v(1) w f witness_length[OF i]
    by (simp add: verifyWitnessKeyHash_def s held_def Let_def witnessDigest_def[symmetric])
  then show ?thesis using i f by (simp add: BRTransactionVerifyInput_def Let_def)
qed

lemma verify_nested:
  assumes K: "good_keys K" and i: "i < length (tx_inputs tx)" "ti_script (tx_inputs tx ! i) = Some (p2sh_script h)"
    and h: "length h = 20" "BRHash160 (ko_pubKey K k) = pkh" "BRHash160 (redeemScript pkh) = h"
    and s: "ti_signature (tx_inputs tx ! i) = Some (22 # redeemScript pkh)"
      "ti_witness (tx_inputs tx ! i) = Some (pushDataBytes (typedSig K 0 k (witnessDigest (withScript i (redeemScript pkh) tx) i)) @
         pushDataBytes (ko_pubKey K k))"
  shows "BRTransactionVerifyInput K tx i"
proof -
  let ?s = "p2sh_script h" and ?t = "withScript i (redeemScript pkh) tx"
  let ?sig = "typedSig K 0 k (witnessDigest ?t i)" and ?pk = "ko_pubKey K k"
  define sg where "sg = 22 # redeemScript pkh"
  have pl: "length pkh = 20" using h(2) by auto
  have rl: "length (redeemScript pkh) = 22" using pl by (simp add: redeemScript_def)
  have f: "length ?s = 23" "?s ! 0 = OP_HASH160" "?s ! 1 = 20" "?s ! 22 = OP_EQUAL" "take 20 (drop 2 ?s) = h"
    using h(1) by (simp_all add: p2sh_script_def nth_append nth_Cons')
  have g: "length sg = 23" "sg ! 0 = 22" "sg ! 1 = OP_0" "sg ! 2 = 20" "take 22 (drop 1 sg) = redeemScript pkh" "take 20 (drop 3 sg) = pkh"
    using pl by (simp_all add: sg_def redeemScript_def nth_Cons' numeral_3_eq_3)
  have v: "verifyEcdsa K ?sig ?pk (drop 3 sg) (witnessDigest ?t i)" "length ?sig < 76"
    using typedSig_verifies[OF K, of "drop 3 sg" k] g(6) h(2) by simp_all
  have w: "witnessItems 2 (pushDataBytes ?sig @ pushDataBytes ?pk) = Some [?sig, ?pk]"
    by (rule pushed_items(1)[OF v(2) key_facts(7)[OF K]])
  have it: "i < length (tx_inputs ?t)" "ti_script (tx_inputs ?t ! i) = Some (redeemScript pkh)" using i(1) by (simp_all add: withScript_def)
  have "verifyWitnessKeyHash K tx i ?s" using v(1) w f g h(3) witness_length[OF it]
    by (simp add: verifyWitnessKeyHash_def s(1)[folded sg_def] s(2) held_def Let_def witnessDigest_def[symmetric] pl rl)
  then show ?thesis using i f by (simp add: BRTransactionVerifyInput_def Let_def OP_HASH160_def OP_DUP_def)
qed

lemma verify_taproot:
  assumes i: "i < length (tx_inputs tx)" "ti_script (tx_inputs tx ! i) = Some (witness_script OP_1 q)" "length q = 32"
    and m: "taprootSighash tx i SIGHASH_DEFAULT = Some (msg, md)" "length sig = 64" "ko_schnorrVerify K q md sig"
    and s: "ti_signature (tx_inputs tx ! i) = Some []" "ti_witness (tx_inputs tx ! i) = Some (pushDataBytes sig)"
  shows "BRTransactionVerifyInput K tx i"
proof -
  let ?s = "witness_script OP_1 q"
  have f: "length ?s = 34" "?s ! 0 = OP_1" "?s ! 1 = 32" "take 32 (drop 2 ?s) = q" using i(3) by (simp_all add: witness_script_def)
  have "witnessItems 2 (pushDataBytes sig) = Some [sig]" using m(2) by (intro pushed_items(2)[where b = "[]"]) simp_all
  then have "verifyTaproot K tx i ?s" using m f i(3) by (simp add: verifyTaproot_def s held_def Let_def)
  then show ?thesis using i f by (simp add: BRTransactionVerifyInput_def Let_def)
qed

section \<open>What is signed verifies\<close>

text \<open>C2. With key operations as documented, and signing with fork id 0, every input that was not signed before, whose script is a standard one
  (pay to public key hash, the same as a native or nested witness program, taproot), and that carries a signature after
  \<open>BRTransactionSign\<close>, is accepted by \<open>BRTransactionVerifyInput\<close> in the finished transaction: the signatures
  placed for the other inputs, before or after, do not change the message it is over, the digest the
  verifier computes from the redeem script or the output script is the signer's, and the pushes are taken apart again.\<close>

theorem signed_inputs_verify:
  assumes "good_keys K" "BRTransactionSign testnet K 0 keys tx = (tx', r)"
    and "i < length (tx_inputs tx)" "ti_script (tx_inputs tx ! i) = Some s" "wallet_script s"
    and "ti_signature (tx_inputs tx ! i) = None" "ti_signature (tx_inputs tx' ! i) \<noteq> None"
  shows "BRTransactionVerifyInput K tx' i"
proof -
  note K = assms(1) and i = assms(3)
  obtain t where t: "sigless t = sigless tx" "sigless tx' = sigless tx" "tx_inputs t ! i = tx_inputs tx ! i"
    "length (tx_inputs t) = length (tx_inputs tx)" "tx_inputs tx' ! i = signInput testnet K 0 keys t i"
    using sign_result[OF assms(2) i] by blast
  have eq: "sigless t = sigless tx'" using t by simp
  have i': "i < length (tx_inputs tx')" using sigless_lookup(1)[OF t(2)] i by simp
  have u: "ti_signature (tx_inputs t ! i) = None" "ti_signature (signInput testnet K 0 keys t i) \<noteq> None"
    "ti_script (tx_inputs t ! i) = Some s" using assms(4,6,7) t by simp_all
  have s': "ti_script (tx_inputs tx' ! i) = Some s" using sigless_lookup(2)[OF t(2) i] assms(4) by simp
  have ld: "legacyDigest t i = legacyDigest tx' i" by (rule legacyDigest_sigless[OF eq])
  have wd: "witnessDigest t i = witnessDigest tx' i" by (rule witnessDigest_sigless[OF eq i' s'])
  have nd: "witnessDigest (withScript i x t) i = witnessDigest (withScript i x tx') i" for x
    by (rule witnessDigest_sigless[OF withScript_sigless[OF eq], of _ _ x]) (simp_all add: withScript_def i')
  have td: "taprootSighash t i SIGHASH_DEFAULT = taprootSighash tx' i SIGHASH_DEFAULT" by (rule taproot_same[OF eq])
  from assms(5) consider (pkh) h where "length h = 20" "s = p2pkh_script h" | (sh) h where "length h = 20" "s = p2sh_script h"
    | (w0) h where "length h = 20" "s = witness_script OP_0 h" | (w1) q where "length q = 32" "s = witness_script OP_1 q"
    unfolding wallet_script_def by blast
  then show ?thesis
  proof cases
    case pkh
    then show ?thesis using sign_p2pkh[OF K pkh(1) _ u(1,2)] u(3) verify_p2pkh[OF K i'] t(5) ld by metis
  next
    case sh
    then show ?thesis using sign_nested[OF K sh(1) _ u(1,2)] u(3) verify_nested[OF K i'] t(5) nd unfolding Let_def by metis
  next
    case w0
    then show ?thesis using sign_p2wpkh[OF K w0(1) _ u(1,2)] u(3) verify_p2wpkh[OF K i'] t(5) wd by metis
  next
    case w1
    then show ?thesis using sign_taproot[OF K w1(1) _ u(1,2)] u(3) verify_taproot[OF i'] t(5) td by metis
  qed
qed

text \<open>A signature scheme of the shape, for one key: a signature is the digest itself.\<close>

definition echo_keys :: "unit key_ops" where
  "echo_keys = \<lparr>ko_pubKey = \<lambda>_. replicate 33 2, ko_parses = \<lambda>p. p = replicate 33 2, ko_sign = \<lambda>_ md. UInt256Set md,
     ko_verify = \<lambda>p md s. p = replicate 33 2 \<and> s = UInt256Set md, ko_outputKey = \<lambda>_. Some (replicate 32 5),
     ko_schnorrSign = \<lambda>_ md. Some (UInt256Set md @ replicate 32 0),
     ko_schnorrVerify = \<lambda>q md s. q = replicate 32 5 \<and> s = UInt256Set md @ replicate 32 0\<rparr>"

lemma echo_good: "good_keys echo_keys"
proof -
  have "UInt256Set md \<noteq> []" for md using UInt256_get_set(2)[of md] by (metis list.size(3) zero_neq_numeral)
  then show ?thesis by (auto simp: good_keys_def echo_keys_def)
qed

definition spend_tx :: transaction where
  "spend_tx = BRTransactionNew\<lparr>
     tx_inputs := [zeroInput\<lparr>ti_txHash := 7, ti_amount := 5000, ti_script := Some (witness_script OP_1 (replicate 32 5))\<rparr>],
     tx_outputs := [zeroOutput\<lparr>to_amount := 4000, to_script := Some [0x6a]\<rparr>]\<rparr>"

lemma spend_input: "length (tx_inputs spend_tx) = 1" "ti_script (tx_inputs spend_tx ! 0) = Some (witness_script OP_1 (replicate 32 5))"
  "ti_signature (tx_inputs spend_tx ! 0) = None"
  by (simp_all add: spend_tx_def zeroInput_def)

lemma signed_inputs_verify_witness:
  "\<exists>tx' r. BRTransactionSign False echo_keys 0 [()] spend_tx = (tx', r) \<and> BRTransactionVerifyInput echo_keys tx' 0"
proof -
  obtain tx' r where r: "BRTransactionSign False echo_keys 0 [()] spend_tx = (tx', r)" by fastforce
  have i: "0 < length (tx_inputs spend_tx)" by (simp add: spend_input)
  obtain t where t: "sigless t = sigless spend_tx" "tx_inputs t ! 0 = tx_inputs spend_tx ! 0"
    "tx_inputs tx' ! 0 = signInput False echo_keys 0 [()] t 0"
    using sign_result[OF r i] by blast
  obtain msg md where m: "taprootSighash t 0 SIGHASH_DEFAULT = Some (msg, md)"
    using taproot_same[OF t(1), of 0 SIGHASH_DEFAULT]
    by (simp add: taprootSighash_def spend_tx_def zeroInput_def held_def witness_script_def Let_def)
  have el: "scriptElems (witness_script OP_1 (replicate 32 5)) = [witness_script OP_1 (replicate 32 5), 32 # replicate 32 5]"
    using witness_elems[OF versions(2), of "replicate 32 5"] by simp
  have "ti_signature (tx_inputs tx' ! 0) = Some []"
    unfolding t(3) by (simp add: signInput_def signTaproot_def t(2) spend_input held_def el m echo_keys_def Let_def, simp add: witness_script_def)
  moreover have "wallet_script (witness_script OP_1 (replicate 32 5))"
    unfolding wallet_script_def by (intro disjI2 exI[of _ "replicate 32 5"]) simp
  ultimately have "BRTransactionVerifyInput echo_keys tx' 0"
    using signed_inputs_verify[OF echo_good r i spend_input(2) _ spend_input(3)] by simp
  then show ?thesis using r by blast
qed

text \<open>
  The last branch of the signer is meant for pay to public key; the scripts that reach it are the witness programs of
  version 1 to 16 with 20 bytes, since \<open>BRScriptPKH\<close> finds no hash in a pay-to-public-key script.
\<close>

lemma pay_to_pubkey_branch:
  assumes "BRScriptPKH s = Some p" "s \<noteq> p2sh_script (take 20 p)"
    and "\<not> (length (scriptElems s) = 2 \<and> hd (scriptElems s ! 0) = OP_0 \<and> hd (scriptElems s ! 1) = 20)"
    and "hd (scriptElems s ! (length (scriptElems s) - 2)) \<noteq> OP_EQUALVERIFY"
  shows "\<exists>v h. OP_1 \<le> v \<and> v \<le> OP_16 \<and> length h = 20 \<and> s = witness_script v h"
proof -
  have f: "length (take 20 p) = 20" "s = p2pkh_script (take 20 p) \<or> s = p2sh_script (take 20 p) \<or>
      (\<exists>v. is_version_opcode v \<and> s = witness_script v (take 20 p))"
    using BRScriptPKH_is_standard[OF assms(1) refl] by auto
  have "s \<noteq> p2pkh_script (take 20 p)" using assms(4) p2pkh_elems[OF f(1)] by auto
  then obtain v where v: "is_version_opcode v" "s = witness_script v (take 20 p)" using f(2) assms(2) by blast
  have "scriptElems s = [witness_script v (take 20 p), 20 # take 20 p]" using witness_elems[OF v(1), of "take 20 p"] f(1) v(2) by simp
  then have "v \<noteq> OP_0" using assms(3) by (auto simp: witness_script_def)
  then have "OP_1 \<le> v \<and> v \<le> OP_16 \<and> length (take 20 p) = 20 \<and> s = witness_script v (take 20 p)"
    using v f(1) by (simp add: is_version_opcode_def)
  then show ?thesis by blast
qed

end
