(* ===== verification/Spec2Isabelle.thy ===== *)
theory Spec2Isabelle
  imports ScanLedgerProps ScanLedgerBlob ScanLedgerBuffer AmountParse Script Hashes Poly1305 Aead KeyDerivation HashSet GCSFilter Address HeaderCheck FilterChain SyncWatchdog TransactionSign
begin

text \<open>
  A verification library for the core of the DigiByte wallet (the C sources under \<open>src/\<close>).

  \<^bold>\<open>The program.\<close>  The core is a light client.  It dials peers (\<open>BRPeer\<close>, \<open>BRPeerManager\<close>), follows
  the chain of block headers (\<open>BRMerkleBlock\<close>) and, besides merkle blocks, downloads compact block filters:
  it keeps a chain of filter headers (\<open>BRCompactFilterChain\<close>) pinned at checkpoints
  (\<open>BRCompactFilterCheckpoints.h\<close>), matches each filter (\<open>BRGCSFilter\<close>) against the scripts of the wallet, and
  books in a persisted ledger (\<open>BRCFScanLedger\<close>) which heights were requested, evaluated, given up or
  abandoned, so that no height is skipped unseen.  Watchdogs (\<open>BRSyncWatchdog.h\<close>) decide when a sync that stands still is
  restarted and what of that state is dropped (\<open>BRCFRecoveryPolicy.h\<close>).  The wallet (\<open>BRWallet\<close>) reads and
  builds transactions (\<open>BRTransaction\<close>), whose scripts and addresses are coded by \<open>BRAddress\<close>, \<open>BRBase58\<close> and
  \<open>BRBech32\<close>; amounts are read by \<open>BRAmountParse.h\<close>, outputs too small to spend are told by \<open>BRDustPolicy.h\<close>,
  hashes and ciphers are \<open>BRCrypto\<close>, and the sets of blocks and transactions are \<open>BRSet\<close>.

  \<^bold>\<open>Conventions.\<close>  A w-bit integer is a word, with the wrap-around it has in C; \<open>size_t\<close> is a 64-bit word where it
  can wrap and a natural number where the code bounds it.  A struct is a record, an array with its count a
  list, a pointer with a length an optional byte list whose \<open>None\<close> is the null pointer, and a C string the list of the
  characters before its terminator.  Early returns and error codes are values.  Allocation succeeds
  except where a theory makes its result an argument.  Clocks, random numbers, callbacks and the proof-of-work hash are
  arguments.  The network, a global in the code, is the argument \<open>testnet\<close>.  Definitions have the names of the C
  functions without leading underscores; a loop or a part of a function has a name of its own.

  \<^bold>\<open>The theories, in the order of the imports.\<close>
  \<^item> Prelude: words, bytes, little- and big-endian numbers, sorted arrays.  Codec: the interface
    (locales \<open>codec\<close>, \<open>exact_codec\<close>) of fixed-width records, from which the lists of the ledger blob, of transaction
    hashes and of filter hashes get their round trips.  Machine: runs of guarded steps (locales \<open>guarded_machine\<close>,
    \<open>monotone_machine\<close>), from which ledger, filter buffer and filter chain get theirs.
  \<^item> ScanLedger, ScanLedgerInv, ScanLedgerRun, ScanLedgerProps, ScanLedgerBlob, ScanLedgerBuffer
    (\<open>BRCFScanLedger.c/.h\<close>): the two sorted arrays and their operations, their invariant, runs of the operations in
    any order, the persisted blob of versions 1 to 3, and the buffer of filters that wait for their block.  Every
    height up to the request mark is a hole, was evaluated, was reported, or is one of those \<open>step_lost\<close> names: a
    request or header race above the mark, an unscannable band that starts above the frontier, a rewind below the
    abandoned floor and a header race on a full array leave heights behind unreported, and no other call does;
    give-up and abandonment are exact; the blob is read back; the buffer keeps its budgets, and re-buffering the
    oldest entry can drop it.
  \<^item> AmountParse (\<open>BRAmountParse.h\<close>): the value parsed is the value written, or the text is refused.
    Script (the first half of \<open>BRAddress.c\<close>, \<open>BRDustPolicy.h\<close>): variable-length integers, script elements, dust.
  \<^item> Hashes, Poly1305, Aead, KeyDerivation (\<open>BRCrypto.c\<close>): each hash is the iteration of its compression function
    over the padded message (locale \<open>md_hash\<close>), Keccak is the one of FIPS 202, the limbs of Poly1305 compute the
    polynomial of the RFC, encryption and decryption are inverse and nothing else is accepted, PBKDF2 is RFC 8018.
  \<^item> HashSet (\<open>BRSet.c\<close>): probing, growth, removal with re-insertion and iteration refine a set with keys
    (locale \<open>keyed_set\<close>), and iteration ends.  The table sizes bound the growth.
  \<^item> GCSFilter (\<open>BRGCSFilter.c\<close>): the bit reader is the inverse of the Golomb-Rice code, and a script that is in the
    filter always matches.  Base58, Bech32, Address: decoding inverts encoding, one wrong character is detected, an address
    pays only the script it names.
  \<^item> MerkleBlock, Limbs, Difficulty, HeaderCheck (\<open>BRMerkleBlock.c\<close>): the partial merkle tree proves that its
    matches are in the block, except for the duplicated subtree that one theorem exhibits; eight-limb arithmetic with no carry
    lost; the compact target, the MultiShield V4 retarget and the validity of a header as statements on numbers.
  \<^item> CFCheckpoints, FilterChain: the pinned headers; the chain is the fold of the accepted hashes after any sequence of
    appends, cuts and moved anchors, its tip commits to all filters, and a batch that passes the check agrees with
    every pinned header.  SyncWatchdog: a scan that stalls is escalated by a poll forty minutes
    into the stall at which the last recreation is an hour ago and no pinned hole suppresses it; a session does at
    most three heals.
  \<^item> Transaction, TransactionWire, TransactionMessages, TransactionSign (\<open>BRTransaction.c\<close>): builders, sizes, the
    serialized form written into a buffer with the code's behaviour for a short one, the parser, the messages that are
    signed, the signer and the verifier.  The contract \<open>writes\<close>/\<open>puts\<close> composes the writers; signed
    transactions are read back; the size used for fees is the wire size; a parsed transaction holds no more than the message; a
    taproot message commits to all it should; and every standard input the signer signs is accepted by the verifier
    in the finished transaction.  The key operations (calls of \<open>BRKey.c\<close> into libsecp256k1) are the record
    \<open>key_ops\<close>, with what the library documents as the hypothesis \<open>good_keys\<close>.

  \<^bold>\<open>How the parts meet.\<close>  FilterChain is built on MerkleBlock's 256-bit codec, CFCheckpoints on its numbers;
  HeaderCheck composes the retarget with the limbs; the watchdog's recovery table is the only place
  where the ledger may be dropped; Transaction uses Script for lengths, Address for what an output pays, and Hashes for its ids.

  \<^bold>\<open>Bounds and fuel.\<close>  No definition has fuel: every loop is a structural recursion or has a termination proof (the
  doubling of a capacity in FilterChain ends since it wraps to zero or passes the need; the probe of a hash
  set visits each slot once; the items of a witness shorten it).  Hypotheses on sizes are those of a 64-bit machine (buffers
  below 2^64 bytes, 2^59 hashes) or constants of the code (16 checkpoints looked up for a batch of at most 800000
  hashes).  Signed 64-bit time differences wrap explicitly (\<open>wd_wrap\<close>).

  \<^bold>\<open>Not modelled.\<close>  The peer manager, the peer protocol and the wallet: threads, sockets and callbacks
  around the parts above; of the manager, its calls of the ledger are the operations of ScanLedgerRun, in any order and with any arguments
  below the sentinel height.  The keys, which
  are calls into the vendored libsecp256k1; the vendored proof-of-work hashes; BIP32, BIP38
  and BIP39; the payment protocol and URIs; the asset overlays; the policies on sending, on peers and on
  progress that are headers of their own; the network constants; tests and tools.  Of the modelled files, what only frees,
  logs or is compiled for comparison (the variants named \<open>UNFIXED\<close>) is left out.
\<close>

end
